(* ===== verification/Prelude.thy ===== *)
theory Prelude
  imports Main "HOL-Library.Word"
begin

unbundle bit_operations_syntax

text \<open>
  Shared material of the development: the machine types of the 32-bit Cortex-M ports,
  32-bit unsigned arithmetic on \<open>nat\<close> with the wrap-around written out, list lemmas, and
  the theorem collections the component theories declare their rules into.
\<close>

type_synonym u8 = "8 word"
type_synonym u16 = "16 word"
type_synonym u32 = "32 word"

named_theorems inv_intros \<open>preservation lemmas of the component invariants\<close>
named_theorems frame_simps \<open>fields an operation leaves unchanged\<close>

subsection \<open>Tick values\<close>

text \<open>\<open>portMAX_DELAY\<close> of \<open>portmacro.h\<close>: \<open>TickType_t\<close> is \<open>uint32_t\<close>.\<close>

definition portMAX_DELAY :: u32 where
  "portMAX_DELAY = 0xffffffff"

lemma portMAX_DELAY_max: "portMAX_DELAY = (- 1 :: u32)"
  by (simp add: portMAX_DELAY_def)

lemma le_portMAX_DELAY [simp]: "v \<le> portMAX_DELAY"
  by (simp add: portMAX_DELAY_max)

subsection \<open>Lists\<close>

lemma takeWhile_neq_append:
  "x \<notin> set ys \<Longrightarrow> takeWhile (\<lambda>y. y \<noteq> x) (ys @ x # zs) = ys"
  by (induction ys) auto

lemma dropWhile_neq_append:
  "x \<notin> set ys \<Longrightarrow> dropWhile (\<lambda>y. y \<noteq> x) (ys @ x # zs) = x # zs"
  by (induction ys) auto

lemma remove1_middle: "x \<notin> set ys \<Longrightarrow> remove1 x (ys @ x # zs) = ys @ zs"
  by (induction ys) auto

lemma sorted_dropWhile_above:
  fixes f :: "'a \<Rightarrow> 'b::linorder"
  shows "sorted (map f xs) \<Longrightarrow> z \<in> set (dropWhile (\<lambda>x. f x \<le> v) xs) \<Longrightarrow> v < f z"
  by (induction xs) (force split: if_splits)+

lemma sorted_insert_split:
  fixes f :: "'a \<Rightarrow> 'b::linorder"
  assumes "sorted (map f xs)"
  shows "sorted (map f (takeWhile (\<lambda>x. f x \<le> f i) xs @ i # dropWhile (\<lambda>x. f x \<le> f i) xs))"
  using assms
proof (induction xs)
  case Nil
  then show ?case by simp
next
  case (Cons x xs)
  show ?case
  proof (cases "f x \<le> f i")
    case True
    have "\<forall>y \<in> set (takeWhile (\<lambda>x. f x \<le> f i) xs) \<union> set (dropWhile (\<lambda>x. f x \<le> f i) xs). f x \<le> f y"
      using Cons.prems by (auto dest: set_takeWhileD set_dropWhileD)
    with Cons True show ?thesis by auto
  next
    case False
    with Cons.prems show ?thesis by auto
  qed
qed

lemma unat_u32: "unat (x :: u32) < 2 ^ 32"
  by (rule unsigned_less [THEN order_less_le_trans]) simp

lemma of_nat_u32_eq_0: "n < 2 ^ 32 \<Longrightarrow> (of_nat n :: u32) = 0 \<longleftrightarrow> n = 0"
  by (auto simp: word_of_nat_eq_0_iff dest: nat_dvd_not_less)

subsection \<open>32-bit unsigned arithmetic on nat\<close>

text \<open>
  \<open>size_t\<close> and addresses where the proofs are about sizes and offsets: naturals below
  \<open>2 ^ 32\<close>, every operation of the code that can wrap written with its wrap-around.
\<close>

definition w32 :: nat where
  "w32 = 2 ^ 32"

definition wadd :: "nat \<Rightarrow> nat \<Rightarrow> nat" where
  "wadd a b = (a + b) mod w32"

definition wsub :: "nat \<Rightarrow> nat \<Rightarrow> nat" where
  "wsub a b = (a + (w32 - b mod w32)) mod w32"

definition wmul :: "nat \<Rightarrow> nat \<Rightarrow> nat" where
  "wmul a b = (a * b) mod w32"

lemma w32_value: "w32 = 4294967296"
  by (simp add: w32_def)

lemma w32_pos [simp]: "0 < w32"
  by (simp add: w32_def)

lemma wadd_exact [simp]: "a + b < w32 \<Longrightarrow> wadd a b = a + b"
  by (simp add: wadd_def)

lemma wmul_exact [simp]: "a * b < w32 \<Longrightarrow> wmul a b = a * b"
  by (simp add: wmul_def)

lemma wsub_exact [simp]:
  assumes "b \<le> a" and "a < w32"
  shows "wsub a b = a - b"
proof -
  have "b mod w32 = b" using assms by simp
  then have "wsub a b = ((a - b) + w32) mod w32" using assms by (simp add: wsub_def)
  also have "\<dots> = a - b" using assms by (subst mod_add_self2) simp
  finally show ?thesis .
qed

lemma wadd_less [simp]: "wadd a b < w32"
  by (simp add: wadd_def)

lemma wsub_less [simp]: "wsub a b < w32"
  by (simp add: wsub_def)

lemma and_7_nat: "(a :: nat) AND 7 = a mod 8"
proof -
  have "a AND 7 = a AND mask 3" by (simp add: mask_eq_exp_minus_1)
  also have "\<dots> = take_bit 3 a" by (rule take_bit_eq_mask [symmetric])
  also have "\<dots> = a mod 8" by (simp add: take_bit_eq_mod)
  finally show ?thesis .
qed

lemma round_up_8: "(m + 7) div 8 * 8 = (if m mod 8 = 0 then m else m + (8 - m mod (8 :: nat)))"
proof -
  define q r where "q = m div 8" and "r = m mod 8"
  have m: "m = 8 * q + r" "r < 8" by (simp_all add: q_def r_def)
  have "(8 * q + r + 7) div 8 = q + (r + 7) div 8" by (simp add: add.assoc)
  moreover have "(r + 7) div 8 = (if r = 0 then 0 else 1)" using m(2) by (auto intro!: div_nat_eqI)
  ultimately show ?thesis using m by (simp add: r_def [symmetric])
qed

lemma align_down_nat:
  assumes "(a :: nat) < w32"
  shows "a AND 4294967288 = a - a mod 8"
proof -
  have m: "(4294967288 :: nat) = push_bit 3 (mask 29)" by (simp add: mask_eq_exp_minus_1 push_bit_eq_mult)
  have "\<not> bit a n" if "32 \<le> n" for n
    using assms that less_le_trans [of a "2 ^ 32" "2 ^ n"] power_increasing [of 32 n "2 :: nat"]
    by (simp add: bit_nat_def w32_def)
  then have "n < 32" if "bit a n" for n
    using that linorder_not_less by blast
  then have "n - 3 < 29" if "bit a n" "3 \<le> n" for n
    using that by fastforce
  then have "a AND 4294967288 = push_bit 3 (drop_bit 3 a)"
    unfolding m by (intro bit_eqI) (auto simp: bit_simps)
  also have "\<dots> = a - a mod 8"
    by (simp add: push_bit_eq_mult drop_bit_eq_div minus_mod_eq_div_mult)
  finally show ?thesis .
qed

lemma top_bit_clear: "(a :: nat) < 2 ^ 31 \<Longrightarrow> a AND 2147483648 = 0"
proof -
  assume "a < 2 ^ 31"
  then have "\<not> bit a 31" by (simp add: bit_nat_def)
  then show ?thesis using and_exp_eq_0_iff_not_bit [of a 31] by simp
qed

lemma top_bit_set:
  assumes "(a :: nat) < 2 ^ 31"
  shows "(a OR 2147483648) AND 2147483648 \<noteq> 0" and "(a OR 2147483648) AND 2147483647 = a"
proof -
  have "bit (a OR 2 ^ 31) 31" by (simp add: bit_simps)
  then show "(a OR 2147483648) AND 2147483648 \<noteq> 0"
    using and_exp_eq_0_iff_not_bit [of "a OR 2147483648" 31] by simp
  have "(a OR 2147483648) AND 2147483647 = (a OR 2 ^ 31) AND mask 31"
    by (simp add: mask_eq_exp_minus_1)
  also have "\<dots> = take_bit 31 (a OR 2 ^ 31)" by (rule take_bit_eq_mask [symmetric])
  also have "\<dots> = take_bit 31 a OR take_bit 31 (2 ^ 31)" by simp
  also have "\<dots> = a" using assms by (simp add: take_bit_nat_eq_self take_bit_eq_mod)
  finally show "(a OR 2147483648) AND 2147483647 = a" .
qed

subsection \<open>Words in memory\<close>

text \<open>The machines are little-endian.\<close>

definition le_bytes :: "u32 \<Rightarrow> u8 list" where
  "le_bytes w = [ucast w, ucast (drop_bit 8 w), ucast (drop_bit 16 w), ucast (drop_bit 24 w)]"

definition of_le_bytes :: "u8 list \<Rightarrow> u32" where
  "of_le_bytes b =
     ucast (b ! 0) OR push_bit 8 (ucast (b ! 1)) OR push_bit 16 (ucast (b ! 2)) OR push_bit 24 (ucast (b ! 3))"

lemma le_bytes_inverse [simp]: "of_le_bytes (le_bytes w) = w"
proof (rule bit_word_eqI)
  fix n assume n: "n < LENGTH(32)"
  then have "n < 8 \<or> 8 \<le> n \<and> n < 16 \<or> 16 \<le> n \<and> n < 24 \<or> 24 \<le> n \<and> n < 32" by auto
  then show "bit (of_le_bytes (le_bytes w)) n = bit w n"
    by (elim disjE) (simp add: of_le_bytes_def le_bytes_def bit_simps, linarith?)+
qed

lemma length_le_bytes [simp]: "length (le_bytes w) = 4"
  by (simp add: le_bytes_def)

end
