(* ===== verification/Lists.thy ===== *)
theory Lists
  imports Prelude
begin

text \<open>
  The kernel's intrusive lists, \<open>list.c\<close> and the access macros of \<open>list.h\<close>: circular doubly
  linked lists whose end marker is embedded in the list header.  The store is an explicit
  heap of list items; a pointer is either the end marker of a list or an item.  The second
  half of the theory gives the abstract store (one sequence per list) and shows that each
  operation on the pointers implements its abstract counterpart.
\<close>

section \<open>The pointer structure of list.c\<close>

text \<open>
  \<open>'l\<close> names the lists and \<open>'i\<close> the items; \<open>ListEnd l\<close> is \<open>(ListItem_t *) &(l->xListEnd)\<close>.
  \<open>pvOwner\<close> is not stored: the item's name determines the object that contains it.
  \<open>configUSE_LIST_DATA_INTEGRITY_CHECK_BYTES\<close> is 0, so the integrity macros are empty.
\<close>

datatype ('l, 'i) lptr = ListEnd 'l | Item 'i

record ('l, 'i) list_item =
  xItemValue :: u32
  pxNext :: "('l, 'i) lptr"
  pxPrevious :: "('l, 'i) lptr"
  pxContainer :: "'l option"

record ('l, 'i) list_t =
  uxNumberOfItems :: u32
  pxIndex :: "('l, 'i) lptr"

record ('l, 'i) lstore =
  node :: "('l, 'i) lptr \<Rightarrow> ('l, 'i) list_item"
  hdr :: "'l \<Rightarrow> ('l, 'i) list_t"

definition upd_node ::
  "('l, 'i) lptr \<Rightarrow> (('l, 'i) list_item \<Rightarrow> ('l, 'i) list_item) \<Rightarrow> ('l, 'i) lstore \<Rightarrow> ('l, 'i) lstore" where
  "upd_node p f s = s\<lparr>node := (node s)(p := f (node s p))\<rparr>"

definition upd_hdr ::
  "'l \<Rightarrow> (('l, 'i) list_t \<Rightarrow> ('l, 'i) list_t) \<Rightarrow> ('l, 'i) lstore \<Rightarrow> ('l, 'i) lstore" where
  "upd_hdr l f s = s\<lparr>hdr := (hdr s)(l := f (hdr s l))\<rparr>"

definition vListInitialise :: "'l \<Rightarrow> ('l, 'i) lstore \<Rightarrow> ('l, 'i) lstore" where
  "vListInitialise l s =
     (let e = ListEnd l;
          s = upd_hdr l (pxIndex_update (\<lambda>_. e)) s;
          s = upd_node e (xItemValue_update (\<lambda>_. portMAX_DELAY)) s;
          s = upd_node e (pxNext_update (\<lambda>_. e)) s;
          s = upd_node e (pxPrevious_update (\<lambda>_. e)) s
      in upd_hdr l (uxNumberOfItems_update (\<lambda>_. 0)) s)"

definition vListInitialiseItem :: "'i \<Rightarrow> ('l, 'i) lstore \<Rightarrow> ('l, 'i) lstore" where
  "vListInitialiseItem i s = upd_node (Item i) (pxContainer_update (\<lambda>_. None)) s"

definition vListInsertEnd :: "'l \<Rightarrow> 'i \<Rightarrow> ('l, 'i) lstore \<Rightarrow> ('l, 'i) lstore" where
  "vListInsertEnd l i s =
     (let ix = pxIndex (hdr s l);
          new = Item i;
          s = upd_node new (pxNext_update (\<lambda>_. ix)) s;
          s = upd_node new (pxPrevious_update (\<lambda>_. pxPrevious (node s ix))) s;
          s = upd_node (pxPrevious (node s ix)) (pxNext_update (\<lambda>_. new)) s;
          s = upd_node ix (pxPrevious_update (\<lambda>_. new)) s;
          s = upd_node new (pxContainer_update (\<lambda>_. Some l)) s
      in upd_hdr l (uxNumberOfItems_update (\<lambda>n. n + 1)) s)"

text \<open>
  The \<open>for\<close> loop of \<open>vListInsert\<close>.  On a corrupted list it need not end, so it is a
  partial function; the refinement below shows that it returns on every well-formed list.
\<close>

partial_function (option) insert_iterate ::
  "('l, 'i) lstore \<Rightarrow> u32 \<Rightarrow> ('l, 'i) lptr \<Rightarrow> ('l, 'i) lptr option" where
  "insert_iterate s v p =
     (if xItemValue (node s (pxNext (node s p))) \<le> v
      then insert_iterate s v (pxNext (node s p)) else Some p)"

definition insert_after :: "'l \<Rightarrow> 'i \<Rightarrow> ('l, 'i) lptr \<Rightarrow> ('l, 'i) lstore \<Rightarrow> ('l, 'i) lstore" where
  "insert_after l i it s =
     (let new = Item i;
          s = upd_node new (pxNext_update (\<lambda>_. pxNext (node s it))) s;
          s = upd_node (pxNext (node s new)) (pxPrevious_update (\<lambda>_. new)) s;
          s = upd_node new (pxPrevious_update (\<lambda>_. it)) s;
          s = upd_node it (pxNext_update (\<lambda>_. new)) s;
          s = upd_node new (pxContainer_update (\<lambda>_. Some l)) s
      in upd_hdr l (uxNumberOfItems_update (\<lambda>n. n + 1)) s)"

definition vListInsert :: "'l \<Rightarrow> 'i \<Rightarrow> ('l, 'i) lstore \<Rightarrow> ('l, 'i) lstore option" where
  "vListInsert l i s =
     (let v = xItemValue (node s (Item i)) in
      case (if v = portMAX_DELAY then Some (pxPrevious (node s (ListEnd l)))
            else insert_iterate s v (ListEnd l)) of
        None \<Rightarrow> None
      | Some it \<Rightarrow> Some (insert_after l i it s))"

text \<open>
  \<open>None\<close> is the dereference of a null \<open>pxContainer\<close>; otherwise the number of items left.
\<close>

definition uxListRemove :: "'i \<Rightarrow> ('l, 'i) lstore \<Rightarrow> (('l, 'i) lstore \<times> u32) option" where
  "uxListRemove i s =
     (let it = Item i in
      case pxContainer (node s it) of
        None \<Rightarrow> None
      | Some l \<Rightarrow>
          (let s = upd_node (pxNext (node s it)) (pxPrevious_update (\<lambda>_. pxPrevious (node s it))) s;
               s = upd_node (pxPrevious (node s it)) (pxNext_update (\<lambda>_. pxNext (node s it))) s;
               s = (if pxIndex (hdr s l) = it
                    then upd_hdr l (pxIndex_update (\<lambda>_. pxPrevious (node s it))) s else s);
               s = upd_node it (pxContainer_update (\<lambda>_. None)) s;
               s = upd_hdr l (uxNumberOfItems_update (\<lambda>n. n - 1)) s
           in Some (s, uxNumberOfItems (hdr s l))))"

text \<open>The access macros of \<open>list.h\<close>.\<close>

definition listSET_LIST_ITEM_VALUE :: "'i \<Rightarrow> u32 \<Rightarrow> ('l, 'i) lstore \<Rightarrow> ('l, 'i) lstore" where
  "listSET_LIST_ITEM_VALUE i v s = upd_node (Item i) (xItemValue_update (\<lambda>_. v)) s"

definition listLIST_IS_EMPTY :: "'l \<Rightarrow> ('l, 'i) lstore \<Rightarrow> bool" where
  "listLIST_IS_EMPTY l s = (uxNumberOfItems (hdr s l) = 0)"

definition listGET_HEAD_ENTRY :: "'l \<Rightarrow> ('l, 'i) lstore \<Rightarrow> ('l, 'i) lptr" where
  "listGET_HEAD_ENTRY l s = pxNext (node s (ListEnd l))"

definition listGET_OWNER_OF_NEXT_ENTRY ::
  "'l \<Rightarrow> ('l, 'i) lstore \<Rightarrow> ('l, 'i) lstore \<times> ('l, 'i) lptr" where
  "listGET_OWNER_OF_NEXT_ENTRY l s =
     (let s = upd_hdr l (pxIndex_update (\<lambda>_. pxNext (node s (pxIndex (hdr s l))))) s;
          s = (if pxIndex (hdr s l) = ListEnd l
               then upd_hdr l (pxIndex_update (\<lambda>_. pxNext (node s (pxIndex (hdr s l))))) s else s)
      in (s, pxIndex (hdr s l)))"

section \<open>The abstract store\<close>

text \<open>
  One sequence of items per list, the item \<open>pxIndex\<close> points to (\<open>None\<close> is the end marker),
  and the value and container of every item.
\<close>

record ('l, 'i) astore =
  alist :: "'l \<Rightarrow> 'i list"
  aidx :: "'l \<Rightarrow> 'i option"
  aval :: "'i \<Rightarrow> u32"
  acont :: "'i \<Rightarrow> 'l option"

definition before :: "'i \<Rightarrow> 'i list \<Rightarrow> 'i option" where
  "before i xs =
     (let ys = takeWhile (\<lambda>x. x \<noteq> i) xs in if ys = [] then None else Some (last ys))"

definition after_idx :: "'i option \<Rightarrow> 'i list \<Rightarrow> 'i option" where
  "after_idx p xs =
     (let rest = (case p of None \<Rightarrow> xs | Some i \<Rightarrow> tl (dropWhile (\<lambda>x. x \<noteq> i) xs))
      in case rest of [] \<Rightarrow> None | y # ys \<Rightarrow> Some y)"

definition a_initialise :: "'l \<Rightarrow> ('l, 'i) astore \<Rightarrow> ('l, 'i) astore" where
  "a_initialise l a = a\<lparr>alist := (alist a)(l := []), aidx := (aidx a)(l := None)\<rparr>"

definition a_put :: "'l \<Rightarrow> 'i \<Rightarrow> 'i list \<Rightarrow> 'i list \<Rightarrow> ('l, 'i) astore \<Rightarrow> ('l, 'i) astore" where
  "a_put l i ys zs a =
     a\<lparr>alist := (alist a)(l := ys @ i # zs), acont := (acont a)(i := Some l)\<rparr>"

definition a_insert_end :: "'l \<Rightarrow> 'i \<Rightarrow> ('l, 'i) astore \<Rightarrow> ('l, 'i) astore" where
  "a_insert_end l i a =
     (case aidx a l of
        None \<Rightarrow> a_put l i (alist a l) [] a
      | Some j \<Rightarrow> a_put l i (takeWhile (\<lambda>x. x \<noteq> j) (alist a l)) (dropWhile (\<lambda>x. x \<noteq> j) (alist a l)) a)"

definition a_insert :: "'l \<Rightarrow> 'i \<Rightarrow> ('l, 'i) astore \<Rightarrow> ('l, 'i) astore" where
  "a_insert l i a =
     (let le = (\<lambda>x. aval a x \<le> aval a i)
      in a_put l i (takeWhile le (alist a l)) (dropWhile le (alist a l)) a)"

definition a_remove :: "'i \<Rightarrow> ('l, 'i) astore \<Rightarrow> ('l, 'i) astore" where
  "a_remove i a =
     (case acont a i of
        None \<Rightarrow> a
      | Some l \<Rightarrow>
          a\<lparr>alist := (alist a)(l := remove1 i (alist a l)),
            aidx := (if aidx a l = Some i then (aidx a)(l := before i (alist a l)) else aidx a),
            acont := (acont a)(i := None)\<rparr>)"

definition a_set_value :: "'i \<Rightarrow> u32 \<Rightarrow> ('l, 'i) astore \<Rightarrow> ('l, 'i) astore" where
  "a_set_value i v a = a\<lparr>aval := (aval a)(i := v)\<rparr>"

text \<open>\<open>None\<close> is the traversal of an empty list, whose end marker has no owner.\<close>

definition a_next_entry :: "'l \<Rightarrow> ('l, 'i) astore \<Rightarrow> ('l, 'i) astore \<times> 'i option" where
  "a_next_entry l a =
     (let n = after_idx (aidx a l) (alist a l);
          n = (if n = None then after_idx None (alist a l) else n)
      in (a\<lparr>aidx := (aidx a)(l := n)\<rparr>, n))"

text \<open>
  Well-formedness over the set \<open>L\<close> of initialised lists: no item twice, the index on the
  list, and an item's container is the list that holds it.
\<close>

definition awf :: "'l set \<Rightarrow> ('l, 'i) astore \<Rightarrow> bool" where
  "awf L a \<longleftrightarrow>
     (\<forall>l \<in> L. distinct (alist a l) \<and> (\<forall>j. aidx a l = Some j \<longrightarrow> j \<in> set (alist a l))) \<and>
     (\<forall>l \<in> L. \<forall>i. i \<in> set (alist a l) \<longleftrightarrow> acont a i = Some l)"

lemma awf_distinct: "awf L a \<Longrightarrow> l \<in> L \<Longrightarrow> distinct (alist a l)"
  by (simp add: awf_def)

lemma awf_index: "awf L a \<Longrightarrow> l \<in> L \<Longrightarrow> aidx a l = Some j \<Longrightarrow> j \<in> set (alist a l)"
  by (simp add: awf_def)

lemma awf_container: "awf L a \<Longrightarrow> l \<in> L \<Longrightarrow> i \<in> set (alist a l) \<longleftrightarrow> acont a i = Some l"
  by (simp add: awf_def)

lemma before_set: "before i xs = Some j \<Longrightarrow> j \<in> set xs \<and> j \<noteq> i"
proof -
  assume "before i xs = Some j"
  then have "takeWhile (\<lambda>x. x \<noteq> i) xs \<noteq> []" and "j = last (takeWhile (\<lambda>x. x \<noteq> i) xs)"
    by (auto simp: before_def Let_def split: if_splits)
  then have "j \<in> set (takeWhile (\<lambda>x. x \<noteq> i) xs)" by simp
  then show ?thesis using set_takeWhileD by fastforce
qed

lemma set_tl_dropWhile: "set (tl (dropWhile P xs)) \<subseteq> set xs"
  by (induction xs) auto

lemma after_idx_set:
  assumes "after_idx p xs = Some j"
  shows "j \<in> set xs"
proof (cases p)
  case None
  with assms show ?thesis by (auto simp: after_idx_def split: list.splits)
next
  case (Some i)
  with assms have "j \<in> set (tl (dropWhile (\<lambda>x. x \<noteq> i) xs))"
    by (auto simp: after_idx_def split: list.splits)
  then show ?thesis using set_tl_dropWhile by fast
qed

lemma a_put_wf:
  assumes wf: "awf L a" and l: "l \<in> L" and free: "acont a i = None"
    and split: "alist a l = ys @ zs"
  shows "awf L (a_put l i ys zs a)"
proof -
  have out: "i \<notin> set (alist a m)" if "m \<in> L" for m
    using awf_container [OF wf that, of i] free by simp
  have "distinct (ys @ i # zs)"
    using awf_distinct [OF wf l] out [OF l] split by simp
  then show ?thesis
    using wf l out awf_container [OF wf l] split
    unfolding awf_def a_put_def by (auto simp del: distinct_append)
qed

lemma a_insert_end_wf [inv_intros]:
  "awf L a \<Longrightarrow> l \<in> L \<Longrightarrow> acont a i = None \<Longrightarrow> awf L (a_insert_end l i a)"
  by (auto simp: a_insert_end_def intro!: a_put_wf split: option.splits)

lemma a_insert_wf [inv_intros]:
  "awf L a \<Longrightarrow> l \<in> L \<Longrightarrow> acont a i = None \<Longrightarrow> awf L (a_insert l i a)"
  by (auto simp: a_insert_def Let_def intro!: a_put_wf)

lemma a_initialise_wf [inv_intros]:
  "awf L a \<Longrightarrow> (\<And>i. acont a i \<noteq> Some l) \<Longrightarrow> awf (insert l L) (a_initialise l a)"
  by (simp add: awf_def a_initialise_def)

lemma a_remove_wf [inv_intros]:
  assumes wf: "awf L a"
  shows "awf L (a_remove i a)"
proof (cases "acont a i")
  case None
  with wf show ?thesis by (simp add: a_remove_def)
next
  case (Some l)
  show ?thesis
    using wf Some unfolding awf_def a_remove_def
    by (auto simp: set_remove1_eq dest: before_set)
qed

lemma a_set_value_wf [inv_intros]: "awf L a \<Longrightarrow> awf L (a_set_value i v a)"
  by (simp add: awf_def a_set_value_def)

lemma a_next_entry_wf [inv_intros]: "awf L a \<Longrightarrow> awf L (fst (a_next_entry l a))"
  unfolding awf_def a_next_entry_def Let_def by (auto dest: after_idx_set split: if_splits)

section \<open>Refinement\<close>

subsection \<open>Doubly linked segments\<close>

text \<open>\<open>dseg nx pv p xs q\<close>: from \<open>p\<close>, following \<open>nx\<close> visits \<open>xs\<close> and ends at \<open>q\<close>, and \<open>pv\<close> goes back.\<close>

fun dseg :: "('p \<Rightarrow> 'p) \<Rightarrow> ('p \<Rightarrow> 'p) \<Rightarrow> 'p \<Rightarrow> 'p list \<Rightarrow> 'p \<Rightarrow> bool" where
  "dseg nx pv p [] q \<longleftrightarrow> nx p = q \<and> pv q = p"
| "dseg nx pv p (x # xs) q \<longleftrightarrow> nx p = x \<and> pv x = p \<and> dseg nx pv x xs q"

lemma dseg_cong:
  "(\<And>x. x \<in> set (p # xs) \<Longrightarrow> nx x = nx' x) \<Longrightarrow> (\<And>x. x \<in> set (xs @ [q]) \<Longrightarrow> pv x = pv' x)
    \<Longrightarrow> dseg nx pv p xs q = dseg nx' pv' p xs q"
  by (induction xs arbitrary: p) auto

lemma dseg_append:
  "dseg nx pv p (xs @ y # ys) q \<longleftrightarrow> dseg nx pv p xs y \<and> dseg nx pv y ys q"
  by (induction xs arbitrary: p) auto

lemma dseg_neighbours:
  "dseg nx pv p (ys @ zs) q \<Longrightarrow>
    nx (last (p # ys)) = hd (zs @ [q]) \<and> pv (hd (zs @ [q])) = last (p # ys)"
proof (induction ys arbitrary: p)
  case Nil
  then show ?case by (cases zs) auto
next
  case (Cons y ys)
  then have "dseg nx pv y (ys @ zs) q" by simp
  from Cons.IH [OF this] show ?case by simp
qed

lemma dseg_insert:
  assumes "dseg nx pv p (ys @ zs) q"
    and "distinct (p # ys @ zs)" and "distinct (ys @ zs @ [q])"
    and "new \<notin> set (p # ys @ zs @ [q])"
  shows "dseg (nx(last (p # ys) := new, new := hd (zs @ [q])))
              (pv(hd (zs @ [q]) := new, new := last (p # ys))) p (ys @ new # zs) q"
  using assms
proof (induction ys arbitrary: p)
  case Nil
  show ?case
  proof (cases zs)
    case Nil
    with Nil.prems show ?thesis by auto
  next
    case (Cons z zs')
    with Nil.prems have "dseg nx pv z zs' q" and "nx p = z" by auto
    moreover have "dseg (nx(p := new, new := z)) (pv(z := new, new := p)) z zs' q = dseg nx pv z zs' q"
      by (rule dseg_cong) (use Nil.prems Cons in auto)
    ultimately show ?thesis using Nil.prems Cons by (auto simp: fun_upd_def)
  qed
next
  case (Cons y ys)
  have IH: "dseg (nx(last (y # ys) := new, new := hd (zs @ [q])))
      (pv(hd (zs @ [q]) := new, new := last (y # ys))) y (ys @ new # zs) q"
    by (rule Cons.IH) (use Cons.prems in auto)
  have ne: "p \<noteq> last (y # ys)" and ny: "y \<noteq> hd (zs @ [q])"
    using Cons.prems last_in_set [of "y # ys"] list.set_sel(1) [of "zs @ [q]"] by auto
  show ?case using IH ne ny Cons.prems by (auto simp: fun_upd_def)
qed

lemma dseg_remove:
  assumes "dseg nx pv p (ys @ x # zs) q"
    and "distinct (p # ys @ x # zs)" and "distinct (ys @ x # zs @ [q])"
  shows "dseg (nx(last (p # ys) := hd (zs @ [q]))) (pv(hd (zs @ [q]) := last (p # ys))) p (ys @ zs) q"
  using assms
proof (induction ys arbitrary: p)
  case Nil
  show ?case
  proof (cases zs)
    case Nil
    with Nil.prems show ?thesis by auto
  next
    case (Cons z zs')
    have "dseg (nx(p := z)) (pv(z := p)) z zs' q = dseg nx pv z zs' q"
      by (rule dseg_cong) (use Nil.prems Cons in auto)
    then show ?thesis using Nil.prems Cons by (auto simp: fun_upd_def)
  qed
next
  case (Cons y ys)
  have IH: "dseg (nx(last (y # ys) := hd (zs @ [q])))
      (pv(hd (zs @ [q]) := last (y # ys))) y (ys @ zs) q"
    by (rule Cons.IH) (use Cons.prems in auto)
  have ne: "p \<noteq> last (y # ys)" and ny: "y \<noteq> hd (zs @ [q])"
    using Cons.prems last_in_set [of "y # ys"] list.set_sel(1) [of "zs @ [q]"] by auto
  show ?case using IH ne ny Cons.prems by (auto simp: fun_upd_def)
qed

subsection \<open>The abstraction relation\<close>

abbreviation nextf :: "('l, 'i) lstore \<Rightarrow> ('l, 'i) lptr \<Rightarrow> ('l, 'i) lptr" where
  "nextf c \<equiv> \<lambda>p. pxNext (node c p)"

abbreviation prevf :: "('l, 'i) lstore \<Rightarrow> ('l, 'i) lptr \<Rightarrow> ('l, 'i) lptr" where
  "prevf c \<equiv> \<lambda>p. pxPrevious (node c p)"

definition idx_ptr :: "'l \<Rightarrow> 'i option \<Rightarrow> ('l, 'i) lptr" where
  "idx_ptr l p = (case p of None \<Rightarrow> ListEnd l | Some i \<Rightarrow> Item i)"

definition lrel1 :: "('l, 'i) lstore \<Rightarrow> ('l, 'i) astore \<Rightarrow> 'l \<Rightarrow> bool" where
  "lrel1 c a l \<longleftrightarrow>
     dseg (nextf c) (prevf c) (ListEnd l) (map Item (alist a l)) (ListEnd l) \<and>
     uxNumberOfItems (hdr c l) = of_nat (length (alist a l)) \<and>
     pxIndex (hdr c l) = idx_ptr l (aidx a l) \<and>
     xItemValue (node c (ListEnd l)) = portMAX_DELAY"

definition lrel :: "'l set \<Rightarrow> ('l, 'i) lstore \<Rightarrow> ('l, 'i) astore \<Rightarrow> bool" where
  "lrel L c a \<longleftrightarrow>
     awf L a \<and> (\<forall>l \<in> L. lrel1 c a l) \<and>
     (\<forall>i. xItemValue (node c (Item i)) = aval a i \<and> pxContainer (node c (Item i)) = acont a i)"

lemma lrel_wf: "lrel L c a \<Longrightarrow> awf L a"
  by (simp add: lrel_def)

lemma lrel_seg:
  "lrel L c a \<Longrightarrow> l \<in> L \<Longrightarrow>
    dseg (nextf c) (prevf c) (ListEnd l) (map Item (alist a l)) (ListEnd l)"
  by (simp add: lrel_def lrel1_def)

lemma lrel_value: "lrel L c a \<Longrightarrow> xItemValue (node c (Item i)) = aval a i"
  by (simp add: lrel_def)

lemma lrel_container: "lrel L c a \<Longrightarrow> pxContainer (node c (Item i)) = acont a i"
  by (simp add: lrel_def)

lemma lrel_index: "lrel L c a \<Longrightarrow> l \<in> L \<Longrightarrow> pxIndex (hdr c l) = idx_ptr l (aidx a l)"
  by (simp add: lrel_def lrel1_def)

lemma upd_node_sel [simp]:
  "node (upd_node p f s) q = (if q = p then f (node s p) else node s q)"
  "hdr (upd_node p f s) = hdr s"
  by (auto simp: upd_node_def)

lemma upd_hdr_sel [simp]:
  "hdr (upd_hdr l f s) m = (if m = l then f (hdr s l) else hdr s m)"
  "node (upd_hdr l f s) = node s"
  by (auto simp: upd_hdr_def)

text \<open>The neighbours of a position: the pointers the insertion and removal code reads.\<close>

definition lptr_before :: "'l \<Rightarrow> 'i list \<Rightarrow> ('l, 'i) lptr" where
  "lptr_before l ys = last (ListEnd l # map Item ys)"

definition lptr_after :: "'l \<Rightarrow> 'i list \<Rightarrow> ('l, 'i) lptr" where
  "lptr_after l zs = hd (map Item zs @ [ListEnd l])"

lemma lptr_before_simps [simp]:
  "lptr_before l [] = ListEnd l" "lptr_before l (ys @ [y]) = Item y"
  by (simp_all add: lptr_before_def)

lemma lptr_after_simps [simp]:
  "lptr_after l [] = ListEnd l" "lptr_after l (z # zs) = Item z"
  by (simp_all add: lptr_after_def)

lemma lptr_before_cases:
  "lptr_before l ys = ListEnd l \<or> (\<exists>y \<in> set ys. lptr_before l ys = Item y)"
  by (cases ys rule: rev_cases) auto

lemma lptr_after_cases:
  "lptr_after l zs = ListEnd l \<or> (\<exists>z \<in> set zs. lptr_after l zs = Item z)"
  by (cases zs) auto

lemma lrel_neighbours:
  assumes "lrel L c a" and "l \<in> L" and "alist a l = ys @ zs"
  shows "pxNext (node c (lptr_before l ys)) = lptr_after l zs"
    and "pxPrevious (node c (lptr_after l zs)) = lptr_before l ys"
  using dseg_neighbours [of "nextf c" "prevf c" "ListEnd l" "map Item ys" "map Item zs" "ListEnd l"]
    lrel_seg [OF assms(1,2)] assms(3)
  by (auto simp: lptr_before_def lptr_after_def)

text \<open>Other lists share no node with \<open>l\<close>, so their segments are kept.\<close>

lemma lrel1_frame:
  assumes rel: "lrel L c a" and m: "m \<in> L" and "m \<noteq> l" and l: "l \<in> L"
    and same: "alist a' m = alist a m" "aidx a' m = aidx a m" "hdr c' m = hdr c m"
    and nx: "\<And>p. p \<noteq> ListEnd l \<Longrightarrow> (\<And>i. p = Item i \<Longrightarrow> acont a i \<noteq> Some l \<and> i \<noteq> j) \<Longrightarrow>
      pxNext (node c' p) = pxNext (node c p) \<and> pxPrevious (node c' p) = pxPrevious (node c p) \<and>
      xItemValue (node c' p) = xItemValue (node c p)"
    and j: "acont a j = None \<or> acont a j = Some l"
  shows "lrel1 c' a' m"
proof -
  have cont: "acont a i = Some m" if "i \<in> set (alist a m)" for i
    using awf_container [OF lrel_wf [OF rel] m] that by simp
  have fr: "pxNext (node c' p) = pxNext (node c p) \<and> pxPrevious (node c' p) = pxPrevious (node c p) \<and>
      xItemValue (node c' p) = xItemValue (node c p)"
    if "p \<in> insert (ListEnd m) (Item ` set (alist a m))" for p
    by (rule nx) (use that j \<open>m \<noteq> l\<close> cont in auto)
  have "dseg (nextf c') (prevf c') (ListEnd m) (map Item (alist a m)) (ListEnd m)
      = dseg (nextf c) (prevf c) (ListEnd m) (map Item (alist a m)) (ListEnd m)"
    by (rule dseg_cong) (auto intro: fr [THEN conjunct1] fr [THEN conjunct2, THEN conjunct1])
  moreover have "xItemValue (node c' (ListEnd m)) = xItemValue (node c (ListEnd m))"
    using fr by simp
  moreover have "lrel1 c a m" using rel m by (simp add: lrel_def)
  ultimately show ?thesis using same by (simp add: lrel1_def)
qed

subsection \<open>Insertion and removal at a position\<close>

text \<open>
  A change confined to list \<open>l\<close>: only the neighbours of one position and the item itself are
  written, so the relation holds again once it holds for \<open>l\<close>.
\<close>

lemma lrel_change:
  assumes rel: "lrel L c a" and l: "l \<in> L" and wf: "awf L a'" and one: "lrel1 c' a' l"
    and own: "acont a i = None \<or> acont a i = Some l"
    and parts: "set ys \<subseteq> set (alist a l)" "set zs \<subseteq> set (alist a l)"
    and others: "\<And>m. m \<noteq> l \<Longrightarrow> alist a' m = alist a m \<and> aidx a' m = aidx a m \<and> hdr c' m = hdr c m"
    and nx: "\<And>p. p \<noteq> lptr_before l ys \<Longrightarrow> p \<noteq> Item i \<Longrightarrow> pxNext (node c' p) = pxNext (node c p)"
    and pv: "\<And>p. p \<noteq> lptr_after l zs \<Longrightarrow> p \<noteq> Item i \<Longrightarrow> pxPrevious (node c' p) = pxPrevious (node c p)"
    and val: "\<And>p. xItemValue (node c' p) = xItemValue (node c p)"
    and items: "\<And>k. aval a' k = aval a k \<and> pxContainer (node c' (Item k)) = acont a' k"
  shows "lrel L c' a'"
proof -
  have "lrel1 c' a' m" if "m \<in> L" "m \<noteq> l" for m
  proof (rule lrel1_frame [OF rel that l _ _ _ _ own])
    fix p assume p: "p \<noteq> ListEnd l" "\<And>k. p = Item k \<Longrightarrow> acont a k \<noteq> Some l \<and> k \<noteq> i"
    have "p \<noteq> lptr_before l ys" and "p \<noteq> lptr_after l zs" and "p \<noteq> Item i"
      using p lptr_before_cases [of l ys] lptr_after_cases [of l zs] parts
        awf_container [OF lrel_wf [OF rel] l] by auto
    then show "pxNext (node c' p) = pxNext (node c p) \<and> pxPrevious (node c' p) = pxPrevious (node c p) \<and>
        xItemValue (node c' p) = xItemValue (node c p)"
      using nx pv val by simp
  qed (use others that in auto)
  with one have "\<forall>m \<in> L. lrel1 c' a' m" by metis
  with wf items val rel show ?thesis by (simp add: lrel_def)
qed

lemma insert_after_effect:
  assumes pne: "p \<noteq> Item i" and qne: "q \<noteq> Item i" and nb: "pxNext (node c p) = q"
  shows "nextf (insert_after l i p c) = (nextf c)(p := Item i, Item i := q)"
    and "prevf (insert_after l i p c) = (prevf c)(q := Item i, Item i := p)"
    and "xItemValue (node (insert_after l i p c) r) = xItemValue (node c r)"
    and "pxContainer (node (insert_after l i p c) r) =
      (if r = Item i then Some l else pxContainer (node c r))"
    and "hdr (insert_after l i p c) =
      (hdr c)(l := (hdr c l)\<lparr>uxNumberOfItems := uxNumberOfItems (hdr c l) + 1\<rparr>)"
  using assms by (auto simp: insert_after_def Let_def fun_eq_iff)

lemma lrel_insert_after:
  assumes rel: "lrel L c a" and l: "l \<in> L" and free: "acont a i = None"
    and split: "alist a l = ys @ zs"
  shows "lrel L (insert_after l i (lptr_before l ys) c) (a_put l i ys zs a)"
proof -
  let ?p = "lptr_before l ys" and ?q = "lptr_after l zs"
  let ?c = "insert_after l i ?p c"
  have out: "i \<notin> set (alist a l)" using awf_container [OF lrel_wf [OF rel] l] free by simp
  have dist: "distinct (ys @ zs)" using awf_distinct [OF lrel_wf [OF rel] l] split by simp
  have pne: "?p \<noteq> Item i" and qne: "?q \<noteq> Item i"
    using lptr_before_cases [of l ys] lptr_after_cases [of l zs] out split by auto
  note eff = insert_after_effect [OF pne qne lrel_neighbours(1) [OF rel l split], of l]
  have "dseg ((nextf c)(?p := Item i, Item i := ?q)) ((prevf c)(?q := Item i, Item i := ?p))
      (ListEnd l) (map Item ys @ Item i # map Item zs) (ListEnd l)"
    unfolding lptr_before_def lptr_after_def
    by (rule dseg_insert) (use lrel_seg [OF rel l] split dist out in \<open>auto simp: distinct_map inj_on_def\<close>)
  then have one: "lrel1 ?c (a_put l i ys zs a) l"
    using rel l split eff(3-) by (auto simp: lrel_def lrel1_def a_put_def eff(1,2))
  show ?thesis
  proof (rule lrel_change [OF rel l a_put_wf [OF lrel_wf [OF rel] l free split] one, of i ys zs])
    show "acont a i = None \<or> acont a i = Some l" using free by simp
    show "pxNext (node ?c p) = pxNext (node c p)" if "p \<noteq> ?p" "p \<noteq> Item i" for p
      using fun_cong [OF eff(1), of p] that by simp
    show "pxPrevious (node ?c p) = pxPrevious (node c p)" if "p \<noteq> ?q" "p \<noteq> Item i" for p
      using fun_cong [OF eff(2), of p] that by simp
  qed (use split eff(3-) lrel_container [OF rel] in \<open>auto simp: a_put_def\<close>)
qed

lemma vListInsertEnd_after:
  assumes rel: "lrel L c a" and l: "l \<in> L" and free: "acont a i = None"
    and split: "alist a l = ys @ zs" and ix: "pxIndex (hdr c l) = lptr_after l zs"
  shows "vListInsertEnd l i c = insert_after l i (lptr_before l ys) c"
proof -
  have out: "i \<notin> set (alist a l)" using awf_container [OF lrel_wf [OF rel] l] free by simp
  have "lptr_before l ys \<noteq> Item i" and "lptr_after l zs \<noteq> Item i"
    using lptr_before_cases [of l ys] lptr_after_cases [of l zs] out split by auto
  then show ?thesis
    using lrel_neighbours [OF rel l split] ix
    by (simp add: vListInsertEnd_def insert_after_def Let_def upd_node_def upd_hdr_def fun_eq_iff)
qed

lemma vListInsertEnd_lrel:
  assumes rel: "lrel L c a" and l: "l \<in> L" and free: "acont a i = None"
  shows "lrel L (vListInsertEnd l i c) (a_insert_end l i a)"
proof (cases "aidx a l")
  case None
  have "vListInsertEnd l i c = insert_after l i (lptr_before l (alist a l)) c"
    by (rule vListInsertEnd_after [OF rel l free, of _ "[]"])
      (simp_all add: lrel_index [OF rel l] None idx_ptr_def)
  with lrel_insert_after [OF rel l free, of "alist a l" "[]"] None show ?thesis
    by (simp add: a_insert_end_def)
next
  case (Some j)
  define ys where "ys = takeWhile (\<lambda>x. x \<noteq> j) (alist a l)"
  define zs where "zs = dropWhile (\<lambda>x. x \<noteq> j) (alist a l)"
  have split: "alist a l = ys @ zs" by (simp add: ys_def zs_def)
  have "j \<in> set (alist a l)" using awf_index [OF lrel_wf [OF rel] l Some] .
  then have "lptr_after l zs = Item j"
    using hd_dropWhile [of "\<lambda>x. x \<noteq> j" "alist a l"] unfolding zs_def
    by (cases "dropWhile (\<lambda>x. x \<noteq> j) (alist a l)") auto
  then have "vListInsertEnd l i c = insert_after l i (lptr_before l ys) c"
    by (intro vListInsertEnd_after [OF rel l free split])
      (simp add: lrel_index [OF rel l] Some idx_ptr_def)
  with lrel_insert_after [OF rel l free split] Some show ?thesis
    by (simp add: a_insert_end_def ys_def zs_def)
qed

lemma insert_iterate_returns:
  assumes rel: "lrel L c a" and l: "l \<in> L" and v: "v \<noteq> portMAX_DELAY"
  shows "alist a l = ys @ zs \<Longrightarrow>
    insert_iterate c v (lptr_before l ys) =
      Some (lptr_before l (ys @ takeWhile (\<lambda>x. aval a x \<le> v) zs))"
proof (induction zs arbitrary: ys)
  case Nil
  have "\<not> portMAX_DELAY \<le> v" using v le_portMAX_DELAY [of v] by (metis order.antisym)
  moreover have "xItemValue (node c (ListEnd l)) = portMAX_DELAY"
    using rel l by (simp add: lrel_def lrel1_def)
  ultimately show ?case
    using lrel_neighbours(1) [OF rel l Nil] by (subst insert_iterate.simps) simp
next
  case (Cons z zs)
  note nb = lrel_neighbours(1) [OF rel l Cons.prems]
  have IH: "insert_iterate c v (Item z) =
      Some (lptr_before l ((ys @ [z]) @ takeWhile (\<lambda>x. aval a x \<le> v) zs))"
    using Cons.IH [of "ys @ [z]"] Cons.prems by simp
  show ?case
    using nb IH lrel_value [OF rel, of z] by (subst insert_iterate.simps) simp
qed

lemma vListInsert_lrel:
  assumes rel: "lrel L c a" and l: "l \<in> L" and free: "acont a i = None"
  shows "\<exists>c'. vListInsert l i c = Some c' \<and> lrel L c' (a_insert l i a)"
proof -
  define ys where "ys = takeWhile (\<lambda>x. aval a x \<le> aval a i) (alist a l)"
  define zs where "zs = dropWhile (\<lambda>x. aval a x \<le> aval a i) (alist a l)"
  have split: "alist a l = ys @ zs" by (simp add: ys_def zs_def)
  have "vListInsert l i c = Some (insert_after l i (lptr_before l ys) c)"
  proof (cases "aval a i = portMAX_DELAY")
    case True
    then have "zs = []" and "ys = alist a l" by (simp_all add: zs_def ys_def)
    then show ?thesis
      using True lrel_neighbours(2) [OF rel l split] lrel_value [OF rel, of i]
      by (simp add: vListInsert_def)
  next
    case False
    then show ?thesis
      using insert_iterate_returns [OF rel l False, of "[]" "alist a l"] lrel_value [OF rel, of i]
      by (simp add: vListInsert_def ys_def)
  qed
  then show ?thesis
    using lrel_insert_after [OF rel l free split] by (simp add: a_insert_def Let_def ys_def zs_def)
qed

lemma before_append: "i \<notin> set ys \<Longrightarrow> idx_ptr l (before i (ys @ i # zs)) = lptr_before l ys"
  unfolding before_def Let_def
  by (simp only: takeWhile_neq_append not_False_eq_True)
    (cases ys rule: rev_cases; simp add: idx_ptr_def)

lemma uxListRemove_effect:
  assumes con: "pxContainer (node c (Item i)) = Some l"
    and nb: "pxNext (node c (Item i)) = q" "pxPrevious (node c (Item i)) = p"
    and ne: "p \<noteq> Item i" "q \<noteq> Item i"
  obtains c' where "uxListRemove i c = Some (c', uxNumberOfItems (hdr c' l))"
    and "nextf c' = (nextf c)(p := q)" and "prevf c' = (prevf c)(q := p)"
    and "\<And>r. xItemValue (node c' r) = xItemValue (node c r)"
    and "\<And>r. pxContainer (node c' r) = (if r = Item i then None else pxContainer (node c r))"
    and "\<And>m. m \<noteq> l \<Longrightarrow> hdr c' m = hdr c m"
    and "uxNumberOfItems (hdr c' l) = uxNumberOfItems (hdr c l) - 1"
    and "pxIndex (hdr c' l) = (if pxIndex (hdr c l) = Item i then p else pxIndex (hdr c l))"
proof
  let ?c = "fst (the (uxListRemove i c))"
  show "uxListRemove i c = Some (?c, uxNumberOfItems (hdr ?c l))"
    using con by (simp add: uxListRemove_def Let_def)
qed (use assms in \<open>auto simp: uxListRemove_def Let_def fun_eq_iff\<close>)

lemma uxListRemove_lrel:
  assumes rel: "lrel L c a" and l: "l \<in> L" and con: "acont a i = Some l"
  shows "\<exists>c'. uxListRemove i c = Some (c', of_nat (length (alist (a_remove i a) l))) \<and>
    lrel L c' (a_remove i a)"
proof -
  have "i \<in> set (alist a l)" using awf_container [OF lrel_wf [OF rel] l] con by simp
  then obtain ys zs where split: "alist a l = ys @ i # zs" by (meson split_list)
  have dist: "distinct (ys @ i # zs)" using awf_distinct [OF lrel_wf [OF rel] l] split by simp
  let ?p = "lptr_before l ys" and ?q = "lptr_after l zs"
  have ne: "?p \<noteq> Item i" "?q \<noteq> Item i"
    using lptr_before_cases [of l ys] lptr_after_cases [of l zs] dist by auto
  have nb: "pxNext (node c (Item i)) = ?q" "pxPrevious (node c (Item i)) = ?p"
    using lrel_neighbours(1) [OF rel l, of "ys @ [i]" zs]
      lrel_neighbours(2) [OF rel l, of ys "i # zs"] split by simp_all
  have conc: "pxContainer (node c (Item i)) = Some l" using lrel_container [OF rel] con by simp
  obtain c' where ret: "uxListRemove i c = Some (c', uxNumberOfItems (hdr c' l))"
    and nx: "nextf c' = (nextf c)(?p := ?q)" and pv: "prevf c' = (prevf c)(?q := ?p)"
    and val: "\<And>r. xItemValue (node c' r) = xItemValue (node c r)"
    and con': "\<And>r. pxContainer (node c' r) = (if r = Item i then None else pxContainer (node c r))"
    and hdm: "\<And>m. m \<noteq> l \<Longrightarrow> hdr c' m = hdr c m"
    and num: "uxNumberOfItems (hdr c' l) = uxNumberOfItems (hdr c l) - 1"
    and idx: "pxIndex (hdr c' l) = (if pxIndex (hdr c l) = Item i then ?p else pxIndex (hdr c l))"
    using uxListRemove_effect [OF conc nb ne] by blast
  have "dseg ((nextf c)(?p := ?q)) ((prevf c)(?q := ?p)) (ListEnd l) (map Item ys @ map Item zs) (ListEnd l)"
    unfolding lptr_before_def lptr_after_def
    by (rule dseg_remove [where x = "Item i"])
      (use lrel_seg [OF rel l] split dist in \<open>auto simp: distinct_map inj_on_def\<close>)
  then have seg: "dseg (nextf c') (prevf c') (ListEnd l) (map Item (ys @ zs)) (ListEnd l)"
    by (simp add: nx pv)
  have al: "alist (a_remove i a) l = ys @ zs"
    using split dist con by (simp add: a_remove_def remove1_middle)
  have n: "uxNumberOfItems (hdr c' l) = of_nat (length (ys @ zs))"
    using num rel l split by (simp add: lrel_def lrel1_def)
  have "idx_ptr l (aidx (a_remove i a) l) = pxIndex (hdr c' l)"
    using idx lrel_index [OF rel l] con split dist before_append [of i ys l zs]
    by (auto simp: a_remove_def idx_ptr_def split: option.splits)
  then have one: "lrel1 c' (a_remove i a) l"
    using seg n al val [of "ListEnd l"] rel l by (simp add: lrel1_def lrel_def)
  have "lrel L c' (a_remove i a)"
  proof (rule lrel_change [OF rel l a_remove_wf [OF lrel_wf [OF rel]] one, of i ys zs])
    show "pxNext (node c' p) = pxNext (node c p)" if "p \<noteq> ?p" for p
      using fun_cong [OF nx, of p] that by simp
    show "pxPrevious (node c' p) = pxPrevious (node c p)" if "p \<noteq> ?q" for p
      using fun_cong [OF pv, of p] that by simp
  qed (use split val con' hdm con lrel_container [OF rel] in \<open>auto simp: a_remove_def\<close>)
  with ret n al show ?thesis by simp
qed

subsection \<open>Initialisation and the access macros\<close>

lemma vListInitialise_lrel:
  assumes rel: "lrel L c a" and new: "l \<notin> L" and unused: "\<And>i. acont a i \<noteq> Some l"
  shows "lrel (insert l L) (vListInitialise l c) (a_initialise l a)"
proof -
  have eff: "hdr (vListInitialise l c) m = (if m = l then (hdr c l)\<lparr>pxIndex := ListEnd l, uxNumberOfItems := 0\<rparr> else hdr c m)"
    "p \<noteq> ListEnd l \<Longrightarrow> node (vListInitialise l c) p = node c p" for m p
    by (simp_all add: vListInitialise_def Let_def)
  have one: "lrel1 (vListInitialise l c) (a_initialise l a) l"
    by (simp add: vListInitialise_def Let_def lrel1_def a_initialise_def idx_ptr_def)
  have "lrel1 (vListInitialise l c) (a_initialise l a) m" if m: "m \<in> L" for m
  proof -
    have "m \<noteq> l" using m new by auto
    then have "dseg (nextf (vListInitialise l c)) (prevf (vListInitialise l c)) (ListEnd m) (map Item (alist a m)) (ListEnd m)
       = dseg (nextf c) (prevf c) (ListEnd m) (map Item (alist a m)) (ListEnd m)"
      by (intro dseg_cong) (auto simp: eff(2))
    moreover have "lrel1 c a m" using rel m by (simp add: lrel_def)
    ultimately show ?thesis using \<open>m \<noteq> l\<close> by (simp add: lrel1_def eff a_initialise_def)
  qed
  with one have "\<forall>m \<in> insert l L. lrel1 (vListInitialise l c) (a_initialise l a) m" by blast
  then show ?thesis
    using a_initialise_wf [OF lrel_wf [OF rel] unused] rel
    by (simp add: lrel_def eff(2) a_initialise_def)
qed

lemma vListInitialiseItem_lrel:
  assumes rel: "lrel L c a" and free: "acont a i = None"
  shows "vListInitialiseItem i c = c"
proof -
  have "(node c (Item i))\<lparr>pxContainer := None\<rparr> = node c (Item i)"
    using lrel_container [OF rel, of i] free by (cases "node c (Item i)") simp
  then show ?thesis by (simp add: vListInitialiseItem_def upd_node_def)
qed

lemma listSET_LIST_ITEM_VALUE_lrel:
  assumes rel: "lrel L c a"
  shows "lrel L (listSET_LIST_ITEM_VALUE i v c) (a_set_value i v a)"
proof -
  have "lrel1 (listSET_LIST_ITEM_VALUE i v c) (a_set_value i v a) m = lrel1 c a m" for m
  proof -
    have "dseg (nextf (listSET_LIST_ITEM_VALUE i v c)) (prevf (listSET_LIST_ITEM_VALUE i v c))
        (ListEnd m) (map Item (alist a m)) (ListEnd m)
       = dseg (nextf c) (prevf c) (ListEnd m) (map Item (alist a m)) (ListEnd m)"
      by (intro dseg_cong) (auto simp: listSET_LIST_ITEM_VALUE_def)
    then show ?thesis by (simp add: lrel1_def a_set_value_def) (simp add: listSET_LIST_ITEM_VALUE_def)
  qed
  with rel a_set_value_wf [OF lrel_wf [OF rel]] show ?thesis
    by (simp add: lrel_def) (simp add: a_set_value_def listSET_LIST_ITEM_VALUE_def)
qed

lemma listGET_HEAD_ENTRY_lrel:
  assumes rel: "lrel L c a" and l: "l \<in> L"
  shows "listGET_HEAD_ENTRY l c = lptr_after l (alist a l)"
  using lrel_neighbours(1) [OF rel l, of "[]" "alist a l"] by (simp add: listGET_HEAD_ENTRY_def)

lemma next_of_index:
  assumes rel: "lrel L c a" and l: "l \<in> L" and p: "\<And>j. p = Some j \<Longrightarrow> j \<in> set (alist a l)"
  shows "pxNext (node c (idx_ptr l p)) = idx_ptr l (after_idx p (alist a l))"
proof (cases p)
  case None
  then show ?thesis
    using lrel_neighbours(1) [OF rel l, of "[]" "alist a l"]
    by (cases "alist a l") (simp_all add: idx_ptr_def after_idx_def)
next
  case (Some j)
  then have "j \<in> set (alist a l)" using p by simp
  then obtain ys zs where split: "alist a l = ys @ j # zs" by (meson split_list)
  moreover have "j \<notin> set ys" using awf_distinct [OF lrel_wf [OF rel] l] split by auto
  ultimately show ?thesis
    using lrel_neighbours(1) [OF rel l, of "ys @ [j]" zs] Some
    by (cases zs) (simp_all add: idx_ptr_def after_idx_def dropWhile_neq_append)
qed

lemma idx_ptr_end [simp]: "idx_ptr l p = ListEnd l \<longleftrightarrow> p = None"
  by (simp add: idx_ptr_def split: option.splits)

lemma set_index_lrel:
  assumes rel: "lrel L c a" and p: "\<And>j. p = Some j \<Longrightarrow> j \<in> set (alist a l)"
  shows "lrel L (upd_hdr l (pxIndex_update (\<lambda>_. idx_ptr l p)) c) (a\<lparr>aidx := (aidx a)(l := p)\<rparr>)"
  using rel p unfolding lrel_def lrel1_def awf_def by auto

lemma listGET_OWNER_OF_NEXT_ENTRY_lrel:
  assumes rel: "lrel L c a" and l: "l \<in> L"
  shows "lrel L (fst (listGET_OWNER_OF_NEXT_ENTRY l c)) (fst (a_next_entry l a))"
    and "snd (listGET_OWNER_OF_NEXT_ENTRY l c) = idx_ptr l (snd (a_next_entry l a))"
proof -
  define n where "n = after_idx (aidx a l) (alist a l)"
  define m where "m = (if n = None then after_idx None (alist a l) else n)"
  have first: "pxNext (node c (pxIndex (hdr c l))) = idx_ptr l n"
    unfolding n_def lrel_index [OF rel l]
    by (rule next_of_index [OF rel l]) (rule awf_index [OF lrel_wf [OF rel] l])
  have second: "pxNext (node c (ListEnd l)) = idx_ptr l (after_idx None (alist a l))"
    using next_of_index [OF rel l, of None] by (simp add: idx_ptr_def)
  have conc: "listGET_OWNER_OF_NEXT_ENTRY l c = (upd_hdr l (pxIndex_update (\<lambda>_. idx_ptr l m)) c, idx_ptr l m)"
    using first second
    by (cases n) (simp_all add: listGET_OWNER_OF_NEXT_ENTRY_def Let_def m_def upd_hdr_def idx_ptr_def)
  have abs: "a_next_entry l a = (a\<lparr>aidx := (aidx a)(l := m)\<rparr>, m)"
    by (simp add: a_next_entry_def Let_def m_def n_def)
  have "m = Some j \<Longrightarrow> j \<in> set (alist a l)" for j
    by (auto simp: m_def n_def split: if_splits dest: after_idx_set)
  with set_index_lrel [OF rel] conc abs
  show "lrel L (fst (listGET_OWNER_OF_NEXT_ENTRY l c)) (fst (a_next_entry l a))"
    and "snd (listGET_OWNER_OF_NEXT_ENTRY l c) = idx_ptr l (snd (a_next_entry l a))"
    by simp_all
qed

section \<open>Sequences of operations\<close>

text \<open>
  The operations as data, their effect on both stores, and when a caller may use them: an
  item is inserted only while it is in no list and removed only while it is in one.
\<close>

datatype ('l, 'i) list_op =
  OpInsert 'l 'i | OpInsertEnd 'l 'i | OpRemove 'i | OpSetValue 'i u32 | OpNextEntry 'l

fun list_op_step :: "('l, 'i) list_op \<Rightarrow> ('l, 'i) lstore \<Rightarrow> ('l, 'i) lstore option" where
  "list_op_step (OpInsert l i) c = vListInsert l i c"
| "list_op_step (OpInsertEnd l i) c = Some (vListInsertEnd l i c)"
| "list_op_step (OpRemove i) c = map_option fst (uxListRemove i c)"
| "list_op_step (OpSetValue i v) c = Some (listSET_LIST_ITEM_VALUE i v c)"
| "list_op_step (OpNextEntry l) c = Some (fst (listGET_OWNER_OF_NEXT_ENTRY l c))"

fun a_op_step :: "('l, 'i) list_op \<Rightarrow> ('l, 'i) astore \<Rightarrow> ('l, 'i) astore" where
  "a_op_step (OpInsert l i) a = a_insert l i a"
| "a_op_step (OpInsertEnd l i) a = a_insert_end l i a"
| "a_op_step (OpRemove i) a = a_remove i a"
| "a_op_step (OpSetValue i v) a = a_set_value i v a"
| "a_op_step (OpNextEntry l) a = fst (a_next_entry l a)"

fun a_op_ok :: "'l set \<Rightarrow> ('l, 'i) astore \<Rightarrow> ('l, 'i) list_op \<Rightarrow> bool" where
  "a_op_ok L a (OpInsert l i) \<longleftrightarrow> l \<in> L \<and> acont a i = None"
| "a_op_ok L a (OpInsertEnd l i) \<longleftrightarrow> l \<in> L \<and> acont a i = None"
| "a_op_ok L a (OpRemove i) \<longleftrightarrow> (case acont a i of None \<Rightarrow> False | Some l \<Rightarrow> l \<in> L)"
| "a_op_ok L a (OpSetValue i v) \<longleftrightarrow> True"
| "a_op_ok L a (OpNextEntry l) \<longleftrightarrow> l \<in> L"

fun run_steps :: "('op \<Rightarrow> 's \<Rightarrow> 's option) \<Rightarrow> 'op list \<Rightarrow> 's \<Rightarrow> 's option" where
  "run_steps st [] s = Some s"
| "run_steps st (x # xs) s = (case st x s of None \<Rightarrow> None | Some s' \<Rightarrow> run_steps st xs s')"

fun ops_ok :: "('a \<Rightarrow> 'op \<Rightarrow> bool) \<Rightarrow> ('op \<Rightarrow> 'a \<Rightarrow> 'a) \<Rightarrow> 'a \<Rightarrow> 'op list \<Rightarrow> bool" where
  "ops_ok ok st a [] \<longleftrightarrow> True"
| "ops_ok ok st a (x # xs) \<longleftrightarrow> ok a x \<and> ops_ok ok st (st x a) xs"

text \<open>
  The contract between an implementation with explicit failure and its abstract machine: a
  permitted step returns and keeps the relation.  Whole runs follow from single steps.
\<close>

locale simulation =
  fixes rel :: "'c \<Rightarrow> 'a \<Rightarrow> bool"
    and cstep :: "'op \<Rightarrow> 'c \<Rightarrow> 'c option"
    and astep :: "'op \<Rightarrow> 'a \<Rightarrow> 'a"
    and ok :: "'a \<Rightarrow> 'op \<Rightarrow> bool"
  assumes step_sim: "rel c a \<Longrightarrow> ok a x \<Longrightarrow> \<exists>c'. cstep x c = Some c' \<and> rel c' (astep x a)"
begin

lemma run_sim:
  "rel c a \<Longrightarrow> ops_ok ok astep a xs \<Longrightarrow>
    \<exists>c'. run_steps cstep xs c = Some c' \<and> rel c' (fold astep xs a)"
proof (induction xs arbitrary: c a)
  case Nil
  then show ?case by simp
next
  case (Cons x xs)
  then obtain c' where "cstep x c = Some c'" and "rel c' (astep x a)"
    using step_sim [of c a x] by auto
  with Cons show ?case by simp
qed

end

interpretation klists: simulation "lrel L" list_op_step a_op_step "a_op_ok L" for L
proof
  fix c a and x :: "('a, 'b) list_op"
  assume rel: "lrel L c a" and ok: "a_op_ok L a x"
  show "\<exists>c'. list_op_step x c = Some c' \<and> lrel L c' (a_op_step x a)"
  proof (cases x)
    case (OpInsert l i)
    with vListInsert_lrel [OF rel] ok show ?thesis by simp
  next
    case (OpInsertEnd l i)
    with vListInsertEnd_lrel [OF rel] ok show ?thesis by simp
  next
    case (OpRemove i)
    with ok obtain l where "acont a i = Some l" and "l \<in> L" by (auto split: option.splits)
    with uxListRemove_lrel [OF rel] OpRemove show ?thesis by fastforce
  next
    case (OpSetValue i v)
    with listSET_LIST_ITEM_VALUE_lrel [OF rel] show ?thesis by simp
  next
    case (OpNextEntry l)
    with listGET_OWNER_OF_NEXT_ENTRY_lrel(1) [OF rel] ok show ?thesis by simp
  qed
qed

text \<open>C1: Any sequence of insertions, removals, value updates and index advances that the
  list discipline permits, run on the pointer structure of \<open>list.c\<close>, returns (the sorted-insert
  loop ends, no null container is followed) and leaves a structure that represents exactly
  the sequences the abstract operations compute.\<close>

theorem list_ops_refine:
  assumes "lrel L c a" and "ops_ok (a_op_ok L) a_op_step a ops"
  shows "\<exists>c'. run_steps list_op_step ops c = Some c' \<and> lrel L c' (fold a_op_step ops a)"
  using klists.run_sim assms .

text \<open>A memory with no list yet, and one initialised list: the inputs of the witnesses.\<close>

definition zero_lstore :: "(nat, nat) lstore" where
  "zero_lstore =
     \<lparr>node = (\<lambda>_. \<lparr>xItemValue = 0, pxNext = ListEnd 0, pxPrevious = ListEnd 0, pxContainer = None\<rparr>),
      hdr = (\<lambda>_. \<lparr>uxNumberOfItems = 0, pxIndex = ListEnd 0\<rparr>)\<rparr>"

definition zero_astore :: "(nat, nat) astore" where
  "zero_astore = \<lparr>alist = (\<lambda>_. []), aidx = (\<lambda>_. None), aval = (\<lambda>_. 0), acont = (\<lambda>_. None)\<rparr>"

lemma zero_lrel: "lrel {0} (vListInitialise 0 zero_lstore) (a_initialise 0 zero_astore)"
  by (rule vListInitialise_lrel) (auto simp: lrel_def awf_def zero_lstore_def zero_astore_def)

theorem list_ops_refine_witness:
  "\<exists>c'. run_steps list_op_step [OpSetValue 1 7, OpInsert 0 1, OpInsert 0 2, OpRemove 1]
      (vListInitialise 0 zero_lstore) = Some c' \<and>
    lrel {0} c' (fold a_op_step [OpSetValue 1 7, OpInsert 0 1, OpInsert 0 2, OpRemove 1]
      (a_initialise 0 zero_astore))"
  by (rule list_ops_refine [OF zero_lrel])
    (simp add: a_initialise_def zero_astore_def a_set_value_def a_insert_def a_put_def)

text \<open>C2: \<open>vListInsert\<close> keeps an ordered list ordered by item value, puts the new item behind
  every item of equal value, and adds nothing but the new item.\<close>

theorem vListInsert_sorted:
  assumes rel: "lrel L c a" and l: "l \<in> L" and free: "acont a i = None"
    and ord: "sorted (map (aval a) (alist a l))"
  shows "\<exists>c' a' ys zs. vListInsert l i c = Some c' \<and> lrel L c' a' \<and>
    alist a l = ys @ zs \<and> alist a' l = ys @ i # zs \<and> sorted (map (aval a') (alist a' l)) \<and>
    (\<forall>y \<in> set ys. aval a y \<le> aval a i) \<and> (\<forall>z \<in> set zs. aval a i < aval a z)"
proof -
  let ?ys = "takeWhile (\<lambda>x. aval a x \<le> aval a i) (alist a l)"
  let ?zs = "dropWhile (\<lambda>x. aval a x \<le> aval a i) (alist a l)"
  obtain c' where c': "vListInsert l i c = Some c'" "lrel L c' (a_insert l i a)"
    using vListInsert_lrel [OF rel l free] by blast
  have "alist (a_insert l i a) l = ?ys @ i # ?zs" and "aval (a_insert l i a) = aval a"
    by (simp_all add: a_insert_def Let_def a_put_def)
  moreover have "\<forall>y \<in> set ?ys. aval a y \<le> aval a i" by (auto dest: set_takeWhileD)
  moreover have "\<forall>z \<in> set ?zs. aval a i < aval a z" using sorted_dropWhile_above [OF ord] by blast
  ultimately show ?thesis
    using c' sorted_insert_split [OF ord, of i]
    by (intro exI [of _ c'] exI [of _ "a_insert l i a"] exI [of _ ?ys] exI [of _ ?zs])
      (simp only: takeWhile_dropWhile_id simp_thms)
qed

theorem vListInsert_sorted_witness:
  "\<exists>c' a' ys zs. vListInsert 0 1 (vListInitialise 0 zero_lstore) = Some c' \<and> lrel {0} c' a' \<and>
    alist (a_initialise 0 zero_astore) 0 = ys @ zs \<and> alist a' 0 = ys @ 1 # zs \<and>
    sorted (map (aval a') (alist a' 0)) \<and>
    (\<forall>y \<in> set ys. aval (a_initialise 0 zero_astore) y \<le> aval (a_initialise 0 zero_astore) 1) \<and>
    (\<forall>z \<in> set zs. aval (a_initialise 0 zero_astore) 1 < aval (a_initialise 0 zero_astore) z)"
  by (rule vListInsert_sorted [OF zero_lrel]) (simp_all add: a_initialise_def zero_astore_def)

text \<open>The number of items a list header counts is zero exactly when the list holds no item,
  as long as it holds fewer than \<open>2 ^ 32\<close>: the emptiness macro is right.\<close>

theorem listLIST_IS_EMPTY_correct:
  assumes "lrel L c a" and "l \<in> L" and "length (alist a l) < 2 ^ 32"
  shows "listLIST_IS_EMPTY l c \<longleftrightarrow> alist a l = []"
  using assms of_nat_u32_eq_0 [OF assms(3)] by (simp add: listLIST_IS_EMPTY_def lrel_def lrel1_def)

theorem listLIST_IS_EMPTY_correct_witness:
  "listLIST_IS_EMPTY 0 (vListInitialise 0 zero_lstore) \<longleftrightarrow> alist (a_initialise 0 zero_astore) 0 = []"
  by (rule listLIST_IS_EMPTY_correct [OF zero_lrel]) (simp_all add: a_initialise_def)

end
