(* ===== verification/Heap4.thy ===== *)
theory Heap4
  imports Prelude
begin

text \<open>
  The heap of \<open>portable/MemMang/heap_4.c\<close>: first fit over a list of free blocks kept in
  address order, with adjacent free blocks merged.  Addresses and sizes are 32-bit naturals
  with the wrap-around written out (\<open>wadd\<close>, \<open>wsub\<close>).  The block headers live in an explicit
  store and the payload bytes, which only \<open>pvPortCalloc\<close> writes, in a second one.
  A result \<open>None\<close> is a \<open>configASSERT\<close> that fires or a list walk that does not end.
\<close>

section \<open>The allocator\<close>

record block_link =
  pxNextFreeBlock :: nat
  xBlockSize :: nat

text \<open>
  The statics of the file.  \<open>ucHeap\<close> and \<open>configTOTAL_HEAP_SIZE\<close> are the address and size of
  the heap array and \<open>xStart\<close> is the address of the list head (all three fixed by the linker);
  0 is \<open>NULL\<close>.
\<close>

record heap =
  ucHeap :: nat
  configTOTAL_HEAP_SIZE :: nat
  xStart :: nat
  mem :: "nat \<Rightarrow> block_link"
  payload :: "nat \<Rightarrow> u8"
  pxEnd :: nat
  xFreeBytesRemaining :: nat
  xMinimumEverFreeBytesRemaining :: nat
  xNumberOfSuccessfulAllocations :: nat
  xNumberOfSuccessfulFrees :: nat

text \<open>\<open>sizeof(BlockLink_t)\<close> is 8 on the 32-bit ports, already a multiple of \<open>portBYTE_ALIGNMENT\<close>.\<close>

definition xHeapStructSize :: nat where
  "xHeapStructSize = (8 + (8 - 1)) AND 4294967288"

definition heapMINIMUM_BLOCK_SIZE :: nat where
  "heapMINIMUM_BLOCK_SIZE = xHeapStructSize * 2"

definition heapSIZE_MAX :: nat where
  "heapSIZE_MAX = w32 - 1"

definition heapMULTIPLY_WILL_OVERFLOW :: "nat \<Rightarrow> nat \<Rightarrow> bool" where
  "heapMULTIPLY_WILL_OVERFLOW a b \<longleftrightarrow> a > 0 \<and> b > heapSIZE_MAX div a"

definition heapADD_WILL_OVERFLOW :: "nat \<Rightarrow> nat \<Rightarrow> bool" where
  "heapADD_WILL_OVERFLOW a b \<longleftrightarrow> a > wsub heapSIZE_MAX b"

definition heapBLOCK_ALLOCATED_BITMASK :: nat where
  "heapBLOCK_ALLOCATED_BITMASK = 2147483648"

definition heapBLOCK_SIZE_IS_VALID :: "nat \<Rightarrow> bool" where
  "heapBLOCK_SIZE_IS_VALID n \<longleftrightarrow> n AND heapBLOCK_ALLOCATED_BITMASK = 0"

definition set_next :: "nat \<Rightarrow> nat \<Rightarrow> heap \<Rightarrow> heap" where
  "set_next p n h = h\<lparr>mem := (mem h)(p := (mem h p)\<lparr>pxNextFreeBlock := n\<rparr>)\<rparr>"

definition set_size :: "nat \<Rightarrow> nat \<Rightarrow> heap \<Rightarrow> heap" where
  "set_size p n h = h\<lparr>mem := (mem h)(p := (mem h p)\<lparr>xBlockSize := n\<rparr>)\<rparr>"

abbreviation nxt :: "heap \<Rightarrow> nat \<Rightarrow> nat" where
  "nxt h p \<equiv> pxNextFreeBlock (mem h p)"

abbreviation bsize :: "heap \<Rightarrow> nat \<Rightarrow> nat" where
  "bsize h p \<equiv> xBlockSize (mem h p)"

definition heapBLOCK_IS_ALLOCATED :: "nat \<Rightarrow> heap \<Rightarrow> bool" where
  "heapBLOCK_IS_ALLOCATED p h \<longleftrightarrow> bsize h p AND heapBLOCK_ALLOCATED_BITMASK \<noteq> 0"

definition heapALLOCATE_BLOCK :: "nat \<Rightarrow> heap \<Rightarrow> heap" where
  "heapALLOCATE_BLOCK p h = set_size p (bsize h p OR heapBLOCK_ALLOCATED_BITMASK) h"

definition heapFREE_BLOCK :: "nat \<Rightarrow> heap \<Rightarrow> heap" where
  "heapFREE_BLOCK p h = set_size p (bsize h p AND (w32 - 1 - heapBLOCK_ALLOCATED_BITMASK)) h"

definition heap_start :: "heap \<Rightarrow> nat \<times> nat" where
  "heap_start h =
     (let uxAddress = ucHeap h in
      if uxAddress AND 7 \<noteq> 0
      then let uxAddress = wadd uxAddress (8 - 1) AND 4294967288
           in (uxAddress, wsub (configTOTAL_HEAP_SIZE h) (wsub uxAddress (ucHeap h)))
      else (uxAddress, configTOTAL_HEAP_SIZE h))"

definition prvHeapInit :: "heap \<Rightarrow> heap" where
  "prvHeapInit h =
     (let pucAlignedHeap = fst (heap_start h);
          xTotalHeapSize = snd (heap_start h);
          h = set_next (xStart h) pucAlignedHeap h;
          h = set_size (xStart h) 0 h;
          uxAddress = wsub (wadd pucAlignedHeap xTotalHeapSize) xHeapStructSize AND 4294967288;
          h = h\<lparr>pxEnd := uxAddress\<rparr>;
          h = set_size (pxEnd h) 0 h;
          h = set_next (pxEnd h) 0 h;
          first = pucAlignedHeap;
          h = set_size first (wsub uxAddress first) h;
          h = set_next first (pxEnd h) h
      in h\<lparr>xMinimumEverFreeBytesRemaining := bsize h first, xFreeBytesRemaining := bsize h first\<rparr>)"

text \<open>The iteration of \<open>prvInsertBlockIntoFreeList\<close> and the two merges and the linking after it.\<close>

partial_function (option) find_prev :: "heap \<Rightarrow> nat \<Rightarrow> nat \<Rightarrow> nat option" where
  "find_prev h b it = (if nxt h it < b then find_prev h b (nxt h it) else Some it)"

definition link_right :: "nat \<Rightarrow> nat \<Rightarrow> heap \<Rightarrow> heap" where
  "link_right it b h =
     (if wadd b (bsize h b) = nxt h it
      then if nxt h it \<noteq> pxEnd h
           then let h = set_size b (wadd (bsize h b) (bsize h (nxt h it))) h
                in set_next b (nxt h (nxt h it)) h
           else set_next b (pxEnd h) h
      else set_next b (nxt h it) h)"

definition link_block :: "nat \<Rightarrow> nat \<Rightarrow> heap \<Rightarrow> heap" where
  "link_block it blk h =
     (let (h, b) =
            (if wadd it (bsize h it) = blk
             then (set_size it (wadd (bsize h it) (bsize h blk)) h, it) else (h, blk));
          h = link_right it b h
      in if it \<noteq> b then set_next it b h else h)"

definition prvInsertBlockIntoFreeList :: "nat \<Rightarrow> heap \<Rightarrow> heap option" where
  "prvInsertBlockIntoFreeList blk h =
     (case find_prev h blk (xStart h) of
        None \<Rightarrow> None
      | Some it \<Rightarrow> Some (link_block it blk h))"

text \<open>The size computation of \<open>pvPortMalloc\<close>: header and alignment added, 0 on overflow.\<close>

definition adjust_wanted_size :: "nat \<Rightarrow> nat" where
  "adjust_wanted_size w =
     (if w > 0 then
        if \<not> heapADD_WILL_OVERFLOW w xHeapStructSize then
          let w = wadd w xHeapStructSize in
          if w AND 7 \<noteq> 0 then
            let extra = 8 - (w AND 7) in
            if \<not> heapADD_WILL_OVERFLOW w extra then wadd w extra else 0
          else w
        else 0
      else w)"

partial_function (option) find_fit :: "heap \<Rightarrow> nat \<Rightarrow> nat \<Rightarrow> nat \<Rightarrow> (nat \<times> nat) option" where
  "find_fit h w prev blk =
     (if bsize h blk < w \<and> nxt h blk \<noteq> 0 then find_fit h w blk (nxt h blk) else Some (prev, blk))"

text \<open>Unlinking the block found, splitting it, and the accounting.\<close>

definition split_block :: "nat \<Rightarrow> nat \<Rightarrow> heap \<Rightarrow> heap option" where
  "split_block w blk h =
     (if wsub (bsize h blk) w > heapMINIMUM_BLOCK_SIZE then
        let new = wadd blk w in
        if new AND 7 \<noteq> 0 then None
        else
          let h = set_size new (wsub (bsize h blk) w) h;
              h = set_size blk w h
          in prvInsertBlockIntoFreeList new h
      else Some h)"

definition take_block :: "nat \<Rightarrow> nat \<Rightarrow> nat \<Rightarrow> heap \<Rightarrow> (heap \<times> nat) option" where
  "take_block w prev blk h =
     (let ret = wadd (nxt h prev) xHeapStructSize;
          h = set_next prev (nxt h blk) h
      in case split_block w blk h of
           None \<Rightarrow> None
         | Some h \<Rightarrow>
             (let h = h\<lparr>xFreeBytesRemaining := wsub (xFreeBytesRemaining h) (bsize h blk)\<rparr>;
                  h = (if xFreeBytesRemaining h < xMinimumEverFreeBytesRemaining h
                       then h\<lparr>xMinimumEverFreeBytesRemaining := xFreeBytesRemaining h\<rparr> else h);
                  h = heapALLOCATE_BLOCK blk h;
                  h = set_next blk 0 h;
                  h = h\<lparr>xNumberOfSuccessfulAllocations := wadd (xNumberOfSuccessfulAllocations h) 1\<rparr>
              in Some (h, ret)))"

definition pvPortMalloc :: "nat \<Rightarrow> heap \<Rightarrow> (heap \<times> nat) option" where
  "pvPortMalloc xWantedSize h =
     (let h = (if pxEnd h = 0 then prvHeapInit h else h);
          w = adjust_wanted_size xWantedSize;
          res =
            (if heapBLOCK_SIZE_IS_VALID w \<and> w > 0 \<and> w \<le> xFreeBytesRemaining h then
               case find_fit h w (xStart h) (nxt h (xStart h)) of
                 None \<Rightarrow> None
               | Some (prev, blk) \<Rightarrow> if blk \<noteq> pxEnd h then take_block w prev blk h else Some (h, 0)
             else Some (h, 0))
      in case res of
           None \<Rightarrow> None
         | Some (h, ret) \<Rightarrow> if ret AND 7 = 0 then Some (h, ret) else None)"

definition vPortFree :: "nat \<Rightarrow> heap \<Rightarrow> heap option" where
  "vPortFree pv h =
     (if pv \<noteq> 0 then
        let link = wsub pv xHeapStructSize in
        if \<not> heapBLOCK_IS_ALLOCATED link h then None
        else if nxt h link \<noteq> 0 then None
        else
          let h = heapFREE_BLOCK link h;
              h = h\<lparr>xFreeBytesRemaining := wadd (xFreeBytesRemaining h) (bsize h link)\<rparr>
          in case prvInsertBlockIntoFreeList link h of
               None \<Rightarrow> None
             | Some h \<Rightarrow> Some (h\<lparr>xNumberOfSuccessfulFrees := wadd (xNumberOfSuccessfulFrees h) 1\<rparr>)
      else Some h)"

definition pvPortCalloc :: "nat \<Rightarrow> nat \<Rightarrow> heap \<Rightarrow> (heap \<times> nat) option" where
  "pvPortCalloc xNum xSize h =
     (if \<not> heapMULTIPLY_WILL_OVERFLOW xNum xSize then
        case pvPortMalloc (wmul xNum xSize) h of
          None \<Rightarrow> None
        | Some (h, pv) \<Rightarrow>
            if pv \<noteq> 0
            then Some (h\<lparr>payload := (\<lambda>a. if pv \<le> a \<and> a < pv + wmul xNum xSize then 0 else payload h a)\<rparr>, pv)
            else Some (h, pv)
      else Some (h, 0))"

definition xPortGetFreeHeapSize :: "heap \<Rightarrow> nat" where
  "xPortGetFreeHeapSize h = xFreeBytesRemaining h"

definition xPortGetMinimumEverFreeHeapSize :: "heap \<Rightarrow> nat" where
  "xPortGetMinimumEverFreeHeapSize h = xMinimumEverFreeBytesRemaining h"

record heap_stats =
  xAvailableHeapSpaceInBytes :: nat
  xSizeOfLargestFreeBlockInBytes :: nat
  xSizeOfSmallestFreeBlockInBytes :: nat
  xNumberOfFreeBlocks :: nat
  statMinimumEverFreeBytesRemaining :: nat
  statNumberOfSuccessfulAllocations :: nat
  statNumberOfSuccessfulFrees :: nat

partial_function (option) stats_loop :: "heap \<Rightarrow> nat \<Rightarrow> nat \<Rightarrow> nat \<Rightarrow> nat \<Rightarrow> (nat \<times> nat \<times> nat) option" where
  "stats_loop h blk blocks mx mn =
     (if blk \<noteq> pxEnd h
      then stats_loop h (nxt h blk) (wadd blocks 1) (if bsize h blk > mx then bsize h blk else mx)
             (if bsize h blk < mn then bsize h blk else mn)
      else Some (blocks, mx, mn))"

definition vPortGetHeapStats :: "heap \<Rightarrow> heap_stats option" where
  "vPortGetHeapStats h =
     (let blk = nxt h (xStart h) in
      case (if blk \<noteq> 0 then stats_loop h blk 0 0 4294967295 else Some (0, 0, 4294967295)) of
        None \<Rightarrow> None
      | Some (blocks, mx, mn) \<Rightarrow>
          Some \<lparr>xAvailableHeapSpaceInBytes = xFreeBytesRemaining h,
                xSizeOfLargestFreeBlockInBytes = mx,
                xSizeOfSmallestFreeBlockInBytes = mn,
                xNumberOfFreeBlocks = blocks,
                statMinimumEverFreeBytesRemaining = xMinimumEverFreeBytesRemaining h,
                statNumberOfSuccessfulAllocations = xNumberOfSuccessfulAllocations h,
                statNumberOfSuccessfulFrees = xNumberOfSuccessfulFrees h\<rparr>)"

section \<open>The free list as a chain of blocks\<close>

text \<open>\<open>chain h p fs e\<close>: from \<open>p\<close> the list visits the blocks \<open>fs\<close> (address, size) and ends at \<open>e\<close>.\<close>

fun chain :: "heap \<Rightarrow> nat \<Rightarrow> (nat \<times> nat) list \<Rightarrow> nat \<Rightarrow> bool" where
  "chain h p [] e \<longleftrightarrow> nxt h p = e"
| "chain h p ((a, s) # fs) e \<longleftrightarrow> nxt h p = a \<and> bsize h a = s \<and> chain h a fs e"

abbreviation last_addr :: "nat \<Rightarrow> (nat \<times> nat) list \<Rightarrow> nat" where
  "last_addr p xs \<equiv> last (p # map fst xs)"

lemma chain_append:
  "chain h p (xs @ (a, s) # ys) e \<longleftrightarrow> chain h p xs a \<and> bsize h a = s \<and> chain h a ys e"
  by (induction h p xs e rule: chain.induct) auto

lemma chain_cong:
  "(\<And>a. a \<in> set (p # map fst fs) \<Longrightarrow> nxt h' a = nxt h a) \<Longrightarrow>
   (\<And>a. a \<in> fst ` set fs \<Longrightarrow> bsize h' a = bsize h a) \<Longrightarrow> chain h' p fs e = chain h p fs e"
  by (induction h p fs e rule: chain.induct) auto

lemma chain_next: "chain h p (xs @ ys) e \<Longrightarrow>
    nxt h (last_addr p xs) = (case ys of [] \<Rightarrow> e | (c, u) # zs \<Rightarrow> c)"
  by (induction h p xs e rule: chain.induct) (auto split: list.splits prod.splits)

lemma chain_relast:
  "chain h p xs e \<Longrightarrow> distinct (p # map fst xs) \<Longrightarrow> last_addr p xs = it \<Longrightarrow>
   (\<And>a. a \<in> set (p # map fst xs) \<Longrightarrow> a \<noteq> it \<Longrightarrow> nxt h' a = nxt h a) \<Longrightarrow>
   (\<And>a. a \<in> fst ` set xs \<Longrightarrow> bsize h' a = bsize h a) \<Longrightarrow> chain h' p xs (nxt h' it)"
proof (induction h p xs e rule: chain.induct)
  case (1 h p e)
  then show ?case by simp
next
  case (2 h p a s fs e)
  have "p \<noteq> it" using 2(3,4) last_in_set [of "a # map fst fs"] by auto
  moreover have "chain h' a fs (nxt h' it)"
    by (rule 2(1)) (use 2 in auto)
  ultimately show ?case using 2 by auto
qed

text \<open>Insertion of a block between the lower blocks \<open>xs\<close> and the higher blocks \<open>ys\<close>.\<close>

definition join_right :: "nat \<Rightarrow> nat \<Rightarrow> (nat \<times> nat) list \<Rightarrow> (nat \<times> nat) list" where
  "join_right b s ys =
     (case ys of
        [] \<Rightarrow> [(b, s)]
      | (c, u) # zs \<Rightarrow> if b + s = c then (b, s + u) # zs else (b, s) # ys)"

definition fl_insert :: "(nat \<times> nat) list \<Rightarrow> nat \<Rightarrow> nat \<Rightarrow> (nat \<times> nat) list \<Rightarrow> (nat \<times> nat) list" where
  "fl_insert xs b s ys =
     (case rev xs of
        [] \<Rightarrow> join_right b s ys
      | (a, t) # ws \<Rightarrow> if a + t = b then rev ws @ join_right a (t + s) ys else xs @ join_right b s ys)"

lemma find_prev_last:
  assumes "chain h p (xs @ ys) e" and "\<forall>(a, s) \<in> set xs. a < b"
    and "case ys of [] \<Rightarrow> b \<le> e | (c, u) # zs \<Rightarrow> b \<le> c"
  shows "find_prev h b p = Some (last_addr p xs)"
  using assms
proof (induction xs arbitrary: p)
  case Nil
  then show ?case by (subst find_prev.simps) (auto split: list.splits prod.splits)
next
  case (Cons x xs)
  obtain a s where x: "x = (a, s)" by force
  with Cons have "find_prev h b a = Some (last_addr a xs)" by simp
  with Cons.prems x show ?case by (subst find_prev.simps) auto
qed

lemma set_sel [simp]:
  "nxt (set_next p n h) q = (if q = p then n else nxt h q)"
  "bsize (set_next p n h) q = bsize h q"
  "nxt (set_size p n h) q = nxt h q"
  "bsize (set_size p n h) q = (if q = p then n else bsize h q)"
  by (auto simp: set_next_def set_size_def)

lemma set_frame [simp]:
  "pxEnd (set_next p n h) = pxEnd h" "pxEnd (set_size p n h) = pxEnd h"
  "xStart (set_next p n h) = xStart h" "xStart (set_size p n h) = xStart h"
  "ucHeap (set_next p n h) = ucHeap h" "ucHeap (set_size p n h) = ucHeap h"
  "configTOTAL_HEAP_SIZE (set_next p n h) = configTOTAL_HEAP_SIZE h"
  "configTOTAL_HEAP_SIZE (set_size p n h) = configTOTAL_HEAP_SIZE h"
  "payload (set_next p n h) = payload h" "payload (set_size p n h) = payload h"
  "xFreeBytesRemaining (set_next p n h) = xFreeBytesRemaining h"
  "xFreeBytesRemaining (set_size p n h) = xFreeBytesRemaining h"
  "xMinimumEverFreeBytesRemaining (set_next p n h) = xMinimumEverFreeBytesRemaining h"
  "xMinimumEverFreeBytesRemaining (set_size p n h) = xMinimumEverFreeBytesRemaining h"
  "xNumberOfSuccessfulAllocations (set_next p n h) = xNumberOfSuccessfulAllocations h"
  "xNumberOfSuccessfulAllocations (set_size p n h) = xNumberOfSuccessfulAllocations h"
  "xNumberOfSuccessfulFrees (set_next p n h) = xNumberOfSuccessfulFrees h"
  "xNumberOfSuccessfulFrees (set_size p n h) = xNumberOfSuccessfulFrees h"
  by (simp_all add: set_next_def set_size_def)

text \<open>What no operation on the list touches: everything but the block headers.\<close>

definition same_frame :: "heap \<Rightarrow> heap \<Rightarrow> bool" where
  "same_frame h h' \<longleftrightarrow>
     ucHeap h' = ucHeap h \<and> configTOTAL_HEAP_SIZE h' = configTOTAL_HEAP_SIZE h \<and>
     xStart h' = xStart h \<and> pxEnd h' = pxEnd h \<and> payload h' = payload h \<and>
     xFreeBytesRemaining h' = xFreeBytesRemaining h \<and>
     xMinimumEverFreeBytesRemaining h' = xMinimumEverFreeBytesRemaining h \<and>
     xNumberOfSuccessfulAllocations h' = xNumberOfSuccessfulAllocations h \<and>
     xNumberOfSuccessfulFrees h' = xNumberOfSuccessfulFrees h"

lemma same_frame_refl [simp]: "same_frame h h"
  by (simp add: same_frame_def)

lemma link_block_frame: "same_frame h (link_block it b h)"
  by (simp add: same_frame_def link_block_def link_right_def Let_def)

text \<open>Blocks in address order, none empty, all inside \<open>[lo, e]\<close>.\<close>

fun blocks_in :: "nat \<Rightarrow> (nat \<times> nat) list \<Rightarrow> nat \<Rightarrow> bool" where
  "blocks_in lo [] e \<longleftrightarrow> lo \<le> e"
| "blocks_in lo ((a, s) # fs) e \<longleftrightarrow> lo \<le> a \<and> 0 < s \<and> blocks_in (a + s) fs e"

lemma blocks_in_le: "blocks_in lo fs e \<Longrightarrow> lo \<le> e"
  by (induction lo fs e rule: blocks_in.induct) auto

lemma blocks_in_bound: "blocks_in lo fs e \<Longrightarrow> (a, s) \<in> set fs \<Longrightarrow> lo \<le> a \<and> 0 < s \<and> a + s \<le> e"
  by (induction lo fs e rule: blocks_in.induct) (auto dest: blocks_in_le)

lemma blocks_in_addr: "blocks_in lo fs e \<Longrightarrow> a \<in> fst ` set fs \<Longrightarrow> lo \<le> a \<and> a < e"
  by (auto dest: blocks_in_bound)

lemma blocks_in_out: "blocks_in lo fs e \<Longrightarrow> p < lo \<or> e \<le> p \<Longrightarrow> p \<notin> fst ` set fs"
  using blocks_in_addr [of lo fs e p] by (meson leD)

lemma blocks_in_mono: "blocks_in lo fs e \<Longrightarrow> lo' \<le> lo \<Longrightarrow> blocks_in lo' fs e"
  by (cases fs) auto

lemma blocks_in_mono_right: "blocks_in lo fs e \<Longrightarrow> e \<le> e' \<Longrightarrow> blocks_in lo fs e'"
  by (induction lo fs e rule: blocks_in.induct) auto

lemma blocks_in_append:
  "blocks_in lo (xs @ ys) e \<longleftrightarrow> (\<exists>m. blocks_in lo xs m \<and> blocks_in m ys e)"
proof (induction xs arbitrary: lo)
  case Nil
  then show ?case using blocks_in_mono by auto
next
  case (Cons x xs)
  then show ?case by (cases x) auto
qed

lemma blocks_in_distinct: "blocks_in lo fs e \<Longrightarrow> distinct (map fst fs)"
proof (induction lo fs e rule: blocks_in.induct)
  case (2 lo a s fs e)
  then have "blocks_in (a + s) fs e" and "0 < s" by auto
  then have "a \<notin> fst ` set fs" by (auto dest: blocks_in_bound)
  with 2 show ?case by auto
qed auto

lemma link_right_chain:
  assumes ch: "chain h it ys E" and sz: "bsize h b = s" and e: "pxEnd h = E" and E: "E < w32"
    and ys: "blocks_in (b + s) ys E" and s: "0 < s"
  shows "\<exists>s' zs. join_right b s ys = (b, s') # zs \<and> chain (link_right it b h) b zs E \<and>
      bsize (link_right it b h) b = s' \<and> blocks_in (b + s') zs E"
    and "\<And>a. a \<noteq> b \<Longrightarrow> mem (link_right it b h) a = mem h a"
proof -
  show "\<And>a. a \<noteq> b \<Longrightarrow> mem (link_right it b h) a = mem h a"
    by (simp add: link_right_def Let_def set_size_def set_next_def)
  have "b + s \<le> E" using ys blocks_in_le by blast
  with E have w: "wadd b s = b + s" by simp
  show "\<exists>s' zs. join_right b s ys = (b, s') # zs \<and> chain (link_right it b h) b zs E \<and>
      bsize (link_right it b h) b = s' \<and> blocks_in (b + s') zs E"
  proof (cases ys)
    case Nil
    with assms w show ?thesis by (auto simp: link_right_def join_right_def)
  next
    case (Cons y zs)
    obtain c u where y: "y = (c, u)" by force
    have c: "nxt h it = c" "bsize h c = u" "chain h c zs E" "b + s \<le> c" "0 < u"
      "blocks_in (c + u) zs E" "c + u \<le> E"
      using ch ys Cons y blocks_in_le by auto
    have out: "b \<notin> set (c # map fst zs)" using blocks_in_bound [OF c(6)] c s by fastforce
    have fr: "chain (link_right it b h) c zs E"
      using c(3) by (subst chain_cong [of c zs _ h])
        (use out in \<open>auto simp: link_right_def Let_def\<close>)
    show ?thesis
    proof (cases "b + s = c")
      case True
      have "wadd s u = s + u" using c True E by simp
      then have "link_right it b h = set_next b (nxt h c) (set_size b (s + u) h)"
        using True w sz c e E out by (simp add: link_right_def Let_def)
      moreover have "chain (link_right it b h) b zs E"
        using fr out calculation by (cases zs) auto
      moreover have "blocks_in (b + (s + u)) zs E" using c(6) True by (simp add: add.assoc [symmetric])
      ultimately show ?thesis using True Cons y c by (simp add: join_right_def)
    next
      case False
      then have "link_right it b h = set_next b c h"
        using w sz c by (simp add: link_right_def)
      with False Cons y c fr out s sz show ?thesis by (simp add: join_right_def)
    qed
  qed
qed

text \<open>
  The three linking steps together: the header of the list keeps size 0 and lies outside
  \<open>[lo, E]\<close>, so it never merges.
\<close>

lemma link_block_other: "a \<noteq> it \<Longrightarrow> a \<noteq> b \<Longrightarrow> mem (link_block it b h) a = mem h a"
  by (auto simp: link_block_def link_right_def Let_def set_size_def set_next_def)

lemma link_block_merges:
  assumes ch: "chain h p (ws @ (it, t) # ys) E" and sz: "bsize h b = s" and e: "pxEnd h = E" and E: "E < w32"
    and p: "p < lo \<or> E < p"
    and ws: "blocks_in lo ws it" and t: "0 < t" and b: "it + t = b"
    and s: "0 < s" and ys: "blocks_in (b + s) ys E" and h': "h' = link_block it b h"
  shows "chain h' p (ws @ join_right it (t + s) ys) E" and "mem h' p = mem h p \<or> ws = [] \<and> bsize h' p = bsize h p"
proof -
  have bE: "b + s \<le> E" and lo: "lo \<le> it" using ys ws blocks_in_le by auto
  have c: "chain h p ws it" "bsize h it = t" "chain h it ys E" using ch by (simp_all add: chain_append)
  have pn: "p \<noteq> it" "p \<noteq> b" using p b t s bE lo by auto
  have itys: "it \<notin> fst ` set ys" using b t s blocks_in_addr [OF ys, of it] by auto
  let ?h1 = "set_size it (t + s) h"
  have h'1: "h' = link_right it it ?h1"
    using c b t sz bE E by (simp add: h' link_block_def Let_def)
  have "chain ?h1 it ys E" by (subst chain_cong [of it ys _ h]) (use c(3) itys in auto)
  moreover have "blocks_in (it + (t + s)) ys E" using ys b by (simp add: add.assoc [symmetric])
  ultimately obtain s' zs where r: "join_right it (t + s) ys = (it, s') # zs" "chain h' it zs E" "bsize h' it = s'"
    using link_right_chain(1) [of ?h1 it ys E it "t + s"] e E t unfolding h'1 by auto
  have other: "mem h' a = mem h a" if "a \<noteq> it" "a \<noteq> b" for a
    using link_block_other that by (simp add: h')
  have "a \<noteq> it \<and> a \<noteq> b" if "a \<in> set (p # map fst ws)" for a
  proof -
    have "a = p \<or> a < it" using that blocks_in_addr [OF ws, of a] by force
    then show ?thesis using pn b by auto
  qed
  then have "chain h' p ws it" by (subst chain_cong [of p ws _ h]) (use c(1) other in auto)
  then show "chain h' p (ws @ join_right it (t + s) ys) E" using r by (simp add: chain_append)
  show "mem h' p = mem h p \<or> ws = [] \<and> bsize h' p = bsize h p" using other pn by simp
qed

lemma link_block_inserts:
  assumes ch: "chain h p (xs @ ys) E" and sz: "bsize h b = s" and e: "pxEnd h = E" and E: "E < w32"
    and p: "p < lo \<or> E < p" and xs: "blocks_in lo xs b" and s: "0 < s" and ys: "blocks_in (b + s) ys E"
    and it: "it = last_addr p xs" and apart: "wadd it (bsize h it) \<noteq> b" and h': "h' = link_block it b h"
  shows "chain h' p (xs @ join_right b s ys) E" and "bsize h' p = bsize h p"
proof -
  have bE: "b + s \<le> E" and lo: "lo \<le> b" using ys xs blocks_in_le by auto
  have pb: "p \<noteq> b" using p bE lo s by auto
  have xb: "a \<noteq> b" if "a \<in> set (p # map fst xs)" for a
  proof -
    have "a = p \<or> a < b" using that blocks_in_addr [OF xs, of a] by force
    then show ?thesis using pb by auto
  qed
  have last: "it \<in> set (p # map fst xs)" unfolding it by (rule last_in_set) simp
  then have ib: "it \<noteq> b" by (rule xb)
  have low: "it = p \<or> it < b" using last blocks_in_addr [OF xs, of it] by force
  have chit: "chain h it ys E"
    using ch it by (cases xs rule: rev_cases) (auto simp: chain_append)
  obtain s' zs where r: "join_right b s ys = (b, s') # zs" "chain (link_right it b h) b zs E"
    "bsize (link_right it b h) b = s'" "blocks_in (b + s') zs E"
    using link_right_chain(1) [OF chit sz e E ys s] by blast
  note ro = link_right_chain(2) [OF chit sz e E ys s]
  have h'2: "h' = set_next it b (link_right it b h)"
    using apart ib by (simp add: h' link_block_def Let_def)
  have itz: "it \<notin> fst ` set zs"
    by (rule blocks_in_out [OF r(4)]) (use low p lo in auto)
  have "chain h' b zs E"
    by (subst chain_cong [of b zs _ "link_right it b h"]) (use r(2) itz ib in \<open>auto simp: h'2\<close>)
  moreover have "chain h' p xs (nxt h' it)"
  proof (rule chain_relast [where h = h])
    show "chain h p xs (nxt h it)"
      using ch it by (cases xs rule: rev_cases; cases ys) (auto simp: chain_append)
    have "p \<notin> fst ` set xs" by (rule blocks_in_out [OF xs]) (use p bE in linarith)
    then show "distinct (p # map fst xs)" using blocks_in_distinct [OF xs] by simp
  qed (use it xb ro in \<open>auto simp: h'2\<close>)
  ultimately have "chain h' p (xs @ (b, s') # zs) E" using r(3) by (simp add: chain_append h'2)
  then show "chain h' p (xs @ join_right b s ys) E" using r(1) by simp
  show "bsize h' p = bsize h p" using ro [of p] pb by (simp add: h'2)
qed

lemma link_block_chain:
  assumes ch: "chain h p (xs @ ys) E" and sz: "bsize h b = s" and e: "pxEnd h = E" and E: "E < w32"
    and p: "bsize h p = 0" "p < w32" "p < lo \<or> E < p"
    and xs: "blocks_in lo xs b" and s: "0 < s" and ys: "blocks_in (b + s) ys E"
    and it: "it = last_addr p xs"
  shows "chain (link_block it b h) p (fl_insert xs b s ys) E \<and> bsize (link_block it b h) p = 0"
proof (cases xs rule: rev_cases)
  case Nil
  have "p \<noteq> b" using p ys xs s blocks_in_le by fastforce
  then show ?thesis
    using link_block_inserts [OF ch sz e E p(3) xs s ys it] p it Nil by (simp add: fl_insert_def)
next
  case (snoc ws w)
  obtain t where w: "w = (it, t)" using it snoc by (cases w) auto
  have c: "bsize h it = t" "0 < t" "it + t \<le> b" "blocks_in lo ws it"
    using ch xs by (auto simp: snoc w chain_append blocks_in_append intro: blocks_in_mono_right)
  have nw: "wadd it t = it + t" using c ys blocks_in_le E by fastforce
  show ?thesis
  proof (cases "it + t = b")
    case True
    then show ?thesis
      using link_block_merges [OF ch [unfolded snoc w append_assoc append_Cons append_Nil]
          sz e E p(3) c(4,2) True s ys refl] p(1)
      by (auto simp: snoc w fl_insert_def)
  next
    case False
    then show ?thesis
      using link_block_inserts [OF ch sz e E p(3) xs s ys it _ refl] p c nw
      by (simp add: snoc w fl_insert_def)
  qed
qed

lemma fl_insert_split:
  assumes ch: "chain h (xStart h) (xs @ ys) E" and sz: "bsize h b = s" and e: "pxEnd h = E" and E: "E < w32"
    and p: "bsize h (xStart h) = 0" "xStart h < w32" "xStart h < lo \<or> E < xStart h"
    and xs: "blocks_in lo xs b" and s: "0 < s" and ys: "blocks_in (b + s) ys E"
  shows "\<exists>h'. prvInsertBlockIntoFreeList b h = Some h' \<and> same_frame h h' \<and>
    chain h' (xStart h) (fl_insert xs b s ys) E \<and> bsize h' (xStart h) = 0 \<and>
    (\<forall>a. a \<noteq> xStart h \<longrightarrow> a \<noteq> b \<longrightarrow> a \<notin> fst ` set xs \<longrightarrow> mem h' a = mem h a)"
proof -
  let ?it = "last_addr (xStart h) xs"
  have up: "b \<le> E" using ys blocks_in_le by fastforce
  have "find_prev h b (xStart h) = Some ?it"
  proof (rule find_prev_last [OF ch])
    show "\<forall>(a, s) \<in> set xs. a < b" using blocks_in_bound [OF xs] by fastforce
    show "case ys of [] \<Rightarrow> b \<le> E | (c, u) # zs \<Rightarrow> b \<le> c" using up ys by (auto split: list.splits)
  qed
  then have "prvInsertBlockIntoFreeList b h = Some (link_block ?it b h)"
    by (simp add: prvInsertBlockIntoFreeList_def)
  moreover have "mem (link_block ?it b h) a = mem h a"
    if "a \<noteq> xStart h" "a \<noteq> b" "a \<notin> fst ` set xs" for a
  proof (rule link_block_other)
    show "a \<noteq> ?it" using that by (cases xs rule: rev_cases) auto
  qed (use that in simp)
  ultimately show ?thesis
    using link_block_frame link_block_chain [OF ch sz e E p xs s ys refl] by auto
qed

section \<open>The heap as a sequence of tiles\<close>

text \<open>
  The abstract heap: the bytes from the first block to \<open>pxEnd\<close> are tiled, without gap or
  overlap, by free and used blocks, and no two free blocks are adjacent.
\<close>

datatype tile = Free nat | Used nat

fun tsize :: "tile \<Rightarrow> nat" where
  "tsize (Free n) = n"
| "tsize (Used n) = n"

definition tsizes :: "tile list \<Rightarrow> nat" where
  "tsizes ts = sum_list (map tsize ts)"

lemma tsizes_simps [simp]:
  "tsizes [] = 0" "tsizes (t # ts) = tsize t + tsizes ts" "tsizes (xs @ ys) = tsizes xs + tsizes ys"
  by (simp_all add: tsizes_def)

fun free_at :: "nat \<Rightarrow> tile list \<Rightarrow> (nat \<times> nat) list" where
  "free_at p [] = []"
| "free_at p (Free n # ts) = (p, n) # free_at (p + n) ts"
| "free_at p (Used n # ts) = free_at (p + n) ts"

fun used_at :: "nat \<Rightarrow> tile list \<Rightarrow> (nat \<times> nat) list" where
  "used_at p [] = []"
| "used_at p (Free n # ts) = used_at (p + n) ts"
| "used_at p (Used n # ts) = (p, n) # used_at (p + n) ts"

definition free_bytes :: "tile list \<Rightarrow> nat" where
  "free_bytes ts = sum_list (map (\<lambda>t. case t of Free n \<Rightarrow> n | Used n \<Rightarrow> 0) ts)"

lemma free_bytes_simps [simp]:
  "free_bytes [] = 0" "free_bytes (Free n # ts) = n + free_bytes ts" "free_bytes (Used n # ts) = free_bytes ts"
  "free_bytes (xs @ ys) = free_bytes xs + free_bytes ys"
  by (simp_all add: free_bytes_def)

fun coalesced :: "tile list \<Rightarrow> bool" where
  "coalesced (Free m # Free n # ts) = False"
| "coalesced (t # ts) = coalesced ts"
| "coalesced [] = True"

definition tiles_ok :: "tile list \<Rightarrow> bool" where
  "tiles_ok ts \<longleftrightarrow> (\<forall>t \<in> set ts. 0 < tsize t \<and> 8 dvd tsize t) \<and> coalesced ts"

lemma free_at_append [simp]: "free_at p (xs @ ys) = free_at p xs @ free_at (p + tsizes xs) ys"
  by (induction p xs rule: free_at.induct) (auto simp: add.assoc)

lemma used_at_append [simp]: "used_at p (xs @ ys) = used_at p xs @ used_at (p + tsizes xs) ys"
  by (induction p xs rule: used_at.induct) (auto simp: add.assoc)

lemma free_at_blocks:
  "\<forall>t \<in> set ts. 0 < tsize t \<Longrightarrow> blocks_in p (free_at p ts) (p + tsizes ts)"
  by (induction p ts rule: free_at.induct) (auto intro: blocks_in_mono simp: add.assoc)

lemma used_at_blocks:
  "\<forall>t \<in> set ts. 0 < tsize t \<Longrightarrow> blocks_in p (used_at p ts) (p + tsizes ts)"
  by (induction p ts rule: used_at.induct) (auto intro: blocks_in_mono simp: add.assoc)

lemma free_used_apart:
  "\<forall>t \<in> set ts. 0 < tsize t \<Longrightarrow> (a, s) \<in> set (used_at p ts) \<Longrightarrow> a \<notin> fst ` set (free_at p ts)"
proof (induction p ts rule: free_at.induct)
  case (2 p n ts)
  then have "p + n \<le> a" using blocks_in_bound [OF used_at_blocks, of ts a s "p + n"] by auto
  with 2 show ?case by auto
next
  case (3 p n ts)
  have "p \<notin> fst ` set (free_at (p + n) ts)"
    by (rule blocks_in_out [OF free_at_blocks]) (use 3 in auto)
  with 3 show ?case by auto
qed auto

lemma coalesced_append:
  "coalesced (xs @ t # ys) \<longleftrightarrow> coalesced (xs @ [t]) \<and> coalesced (t # ys)"
proof (induction xs)
  case Nil
  then show ?case by (cases t) auto
next
  case (Cons x xs)
  then show ?case by (cases x; cases xs; cases t; cases "hd xs") auto
qed

lemma coalesced_Used [simp]: "coalesced (Used n # ts) = coalesced ts"
  by (cases ts) auto

lemma coalesced_snoc_Used [simp]: "coalesced (xs @ [Used n]) = coalesced xs"
  by (induction xs rule: coalesced.induct) auto

definition ends_free :: "tile list \<Rightarrow> bool" where
  "ends_free ts \<longleftrightarrow> (case rev ts of Free m # _ \<Rightarrow> True | _ \<Rightarrow> False)"

definition starts_free :: "tile list \<Rightarrow> bool" where
  "starts_free ts \<longleftrightarrow> (case ts of Free m # _ \<Rightarrow> True | _ \<Rightarrow> False)"

lemma coalesced_Free [simp]: "coalesced (Free n # ts) \<longleftrightarrow> coalesced ts \<and> \<not> starts_free ts"
  by (cases ts; cases "hd ts") (auto simp: starts_free_def)

lemma coalesced_snoc_Free [simp]: "coalesced (xs @ [Free n]) \<longleftrightarrow> coalesced xs \<and> \<not> ends_free xs"
proof (induction xs rule: rev_induct)
  case Nil
  then show ?case by (simp add: ends_free_def starts_free_def)
next
  case (snoc x xs)
  then show ?case
    using coalesced_append [of xs x "[Free n]"]
    by (cases x) (auto simp: ends_free_def starts_free_def)
qed

lemma ends_free_cases:
  obtains (free) l m where "ts = l @ [Free m]" | (other) "\<not> ends_free ts"
  by (cases ts rule: rev_cases; cases "last ts") (auto simp: ends_free_def)

lemma starts_free_cases:
  obtains (free) m r where "ts = Free m # r" | (other) "\<not> starts_free ts"
  by (cases ts; cases "hd ts") (auto simp: starts_free_def)

text \<open>Freeing a used tile between \<open>l\<close> and \<open>r\<close> merges it with its free neighbours.\<close>

definition join_tile :: "nat \<Rightarrow> tile list \<Rightarrow> tile list" where
  "join_tile n r = (case r of Free m # r' \<Rightarrow> Free (n + m) # r' | _ \<Rightarrow> Free n # r)"

definition free_tile :: "tile list \<Rightarrow> nat \<Rightarrow> tile list \<Rightarrow> tile list" where
  "free_tile l n r =
     (case rev l of Free m # l' \<Rightarrow> rev l' @ join_tile (m + n) r | _ \<Rightarrow> l @ join_tile n r)"

lemma free_tile_simps:
  "free_tile (l @ [Free m]) n r = l @ join_tile (m + n) r"
  "\<not> ends_free l \<Longrightarrow> free_tile l n r = l @ join_tile n r"
  by (auto simp: free_tile_def ends_free_def split: list.splits tile.splits)

lemma join_tile_simps [simp]:
  "join_tile n (Free m # r) = Free (n + m) # r"
  "\<not> starts_free r \<Longrightarrow> join_tile n r = Free n # r"
  by (auto simp: join_tile_def starts_free_def split: list.splits tile.splits)

lemma free_tile_cases:
  assumes "coalesced (l @ Used n # r)"
  obtains l' r' m where "free_tile l n r = l' @ Free m # r'" and "\<not> ends_free l'" and "\<not> starts_free r'"
    and "coalesced l'" and "coalesced r'" and "tsizes l' + m + tsizes r' = tsizes l + n + tsizes r"
    and "\<And>p. used_at p (l' @ Free m # r') = used_at p (l @ Free n # r)"
    and "free_bytes (l' @ Free m # r') = free_bytes l + n + free_bytes r"
    and "n \<le> m" and "8 dvd n \<Longrightarrow> \<forall>t \<in> set (l @ r). 8 dvd tsize t \<Longrightarrow> 8 dvd m"
    and "set l' \<subseteq> set l" and "set r' \<subseteq> set r"
proof -
  have lr: "coalesced l" "coalesced r" using assms coalesced_append [of l "Used n" r] by simp_all
  show thesis
  proof (cases l rule: ends_free_cases)
    case (free l0 a)
    then have l0: "coalesced l0" "\<not> ends_free l0" using lr by simp_all
    show thesis
    proof (cases r rule: starts_free_cases)
      case (free b r0)
      then show thesis
        using that [of l0 "a + n + b" r0] \<open>l = l0 @ [Free a]\<close> l0 lr by (auto simp: free_tile_simps add.assoc)
    next
      case other
      then show thesis
        using that [of l0 "a + n" r] \<open>l = l0 @ [Free a]\<close> l0 lr by (auto simp: free_tile_simps add.assoc)
    qed
  next
    case other
    show thesis
    proof (cases r rule: starts_free_cases)
      case (free b r0)
      then show thesis
        using that [of l "n + b" r0] other lr by (auto simp: free_tile_simps add.assoc)
    next
      case other
      then show thesis
        using that [of l n r] \<open>\<not> ends_free l\<close> lr by (simp add: free_tile_simps)
    qed
  qed
qed

lemma last_free_end:
  assumes "\<forall>t \<in> set (l @ [Used u]). 0 < tsize t" and "rev (free_at p (l @ [Used u])) = (a, t) # ws"
  shows "a + t < p + tsizes l + u"
proof -
  have "(a, t) \<in> set (rev (free_at p (l @ [Used u])))" unfolding assms(2) by simp
  then have "(a, t) \<in> set (free_at p l)" by simp
  with blocks_in_bound [OF free_at_blocks, of l a t p] assms(1) show ?thesis by auto
qed

lemma join_right_tile:
  assumes "\<forall>t \<in> set r. 0 < tsize t"
  shows "join_right b n (free_at (b + n) r) = free_at b (join_tile n r)"
proof (cases r rule: starts_free_cases)
  case (free m r')
  then show ?thesis by (simp add: join_right_def add.assoc)
next
  case other
  show ?thesis
  proof (cases r)
    case Nil
    then show ?thesis by (simp add: join_right_def join_tile_def)
  next
    case (Cons x r')
    then obtain u where x: "x = Used u" using other by (cases x) (auto simp: starts_free_def)
    have "b + n \<noteq> c" if "free_at (b + n) r = (c, v) # zs" for c v zs
    proof -
      have "blocks_in (b + n + u) ((c, v) # zs) (b + n + u + tsizes r')"
        using free_at_blocks [of r' "b + n + u"] that assms Cons x by simp
      then show ?thesis using assms Cons x by auto
    qed
    then show ?thesis using Cons x by (auto simp: join_right_def join_tile_def split: list.splits)
  qed
qed

lemma fl_insert_tile:
  assumes pos: "\<forall>t \<in> set (l @ r). 0 < tsize t"
  shows "fl_insert (free_at p l) (p + tsizes l) n (free_at (p + tsizes l + n) r) = free_at p (free_tile l n r)"
proof (cases l rule: ends_free_cases)
  case (free l0 m)
  then show ?thesis
    using join_right_tile [of r "p + tsizes l0" "m + n"] pos
    by (simp add: fl_insert_def free_tile_simps add.assoc)
next
  case other
  have apart: "a + t \<noteq> p + tsizes l" if "rev (free_at p l) = (a, t) # ws" for a t ws
  proof (cases l rule: rev_cases)
    case Nil
    with that show ?thesis by simp
  next
    case (snoc l0 x)
    then obtain u where x: "x = Used u" using other by (cases x) (auto simp: ends_free_def)
    show ?thesis using last_free_end [of l0 u p a t ws] that pos snoc x by auto
  qed
  have "fl_insert (free_at p l) (p + tsizes l) n ys = free_at p l @ join_right (p + tsizes l) n ys" for ys
    using apart by (auto simp: fl_insert_def split: list.splits)
  then show ?thesis
    using join_right_tile [of r "p + tsizes l" n] pos other by (simp add: free_tile_simps)
qed

section \<open>The invariant\<close>

text \<open>\<open>heap_ok h S ts\<close>: the concrete heap represents the tiles \<open>ts\<close> from address \<open>S\<close> up to \<open>pxEnd\<close>.\<close>

definition heap_layout :: "heap \<Rightarrow> nat \<Rightarrow> tile list \<Rightarrow> bool" where
  "heap_layout h S ts \<longleftrightarrow>
     0 < S \<and> 8 dvd S \<and> S + tsizes ts = pxEnd h \<and> pxEnd h + 8 \<le> w32 \<and> tsizes ts < 2 ^ 31 \<and>
     xStart h < w32 \<and> (xStart h < S \<or> pxEnd h < xStart h)"

definition heap_links :: "heap \<Rightarrow> nat \<Rightarrow> tile list \<Rightarrow> bool" where
  "heap_links h S ts \<longleftrightarrow>
     bsize h (xStart h) = 0 \<and> bsize h (pxEnd h) = 0 \<and> nxt h (pxEnd h) = 0 \<and>
     chain h (xStart h) (free_at S ts) (pxEnd h) \<and>
     (\<forall>(a, s) \<in> set (used_at S ts). nxt h a = 0 \<and> bsize h a = s OR heapBLOCK_ALLOCATED_BITMASK)"

definition heap_ok :: "heap \<Rightarrow> nat \<Rightarrow> tile list \<Rightarrow> bool" where
  "heap_ok h S ts \<longleftrightarrow>
     tiles_ok ts \<and> heap_layout h S ts \<and> heap_links h S ts \<and>
     xFreeBytesRemaining h = free_bytes ts \<and>
     xMinimumEverFreeBytesRemaining h \<le> xFreeBytesRemaining h"

lemma xHeapStructSize_8 [simp]: "xHeapStructSize = 8"
  by (simp add: xHeapStructSize_def)

lemma tiles_ok_pos: "tiles_ok ts \<Longrightarrow> \<forall>t \<in> set ts. 0 < tsize t"
  by (auto simp: tiles_ok_def)

lemma free_bytes_le: "free_bytes ts \<le> tsizes ts"
  by (induction ts) (auto simp: free_bytes_def tsizes_def split: tile.splits)

lemma mask_values:
  "heapBLOCK_ALLOCATED_BITMASK = 2147483648" "w32 - 1 - 2147483648 = 2147483647"
  by (simp_all add: heapBLOCK_ALLOCATED_BITMASK_def w32_value)

lemma heap_links_cong:
  assumes "mem h' = mem h" and "xStart h' = xStart h" and "pxEnd h' = pxEnd h"
  shows "heap_links h' S ts \<longleftrightarrow> heap_links h S ts"
  using chain_cong [of "xStart h" "free_at S ts" h' h "pxEnd h"] assms by (simp add: heap_links_def)

lemma prvInsert_tile:
  assumes sz: "bsize h b = n" and b: "b = S + tsizes l" and n: "0 < n"
    and ch: "chain h (xStart h) (free_at S l @ free_at (b + n) r) (pxEnd h)"
    and z: "bsize h (xStart h) = 0" and pos: "\<forall>t \<in> set (l @ r). 0 < tsize t"
    and lay: "heap_layout h S (l @ Free n # r)"
  shows "\<exists>h'. prvInsertBlockIntoFreeList b h = Some h' \<and> same_frame h h' \<and>
    chain h' (xStart h) (free_at S (free_tile l n r)) (pxEnd h) \<and> bsize h' (xStart h) = 0 \<and>
    (\<forall>a. a \<noteq> xStart h \<longrightarrow> a \<noteq> b \<longrightarrow> a \<notin> fst ` set (free_at S l) \<longrightarrow> mem h' a = mem h a)"
proof -
  have xs: "blocks_in S (free_at S l) b" using free_at_blocks [of l S] pos b by simp
  have "blocks_in (b + n) (free_at (b + n) r) (b + n + tsizes r)"
    using free_at_blocks [of r "b + n"] pos by simp
  then have ys: "blocks_in (b + n) (free_at (b + n) r) (pxEnd h)"
    using lay b by (simp add: heap_layout_def add.assoc)
  have E: "pxEnd h < w32" and p: "xStart h < w32" "xStart h < S \<or> pxEnd h < xStart h"
    using lay by (auto simp: heap_layout_def)
  show ?thesis
    using fl_insert_split [OF ch sz refl E z p xs n ys] fl_insert_tile [OF pos, of S n] b by simp
qed

section \<open>vPortFree\<close>

lemma free_tile_ok: "tiles_ok (l @ Used n # r) \<Longrightarrow> tiles_ok (free_tile l n r)"
  and free_tile_sums: "coalesced (l @ Used n # r) \<Longrightarrow>
    tsizes (free_tile l n r) = tsizes (l @ Used n # r) \<and>
    free_bytes (free_tile l n r) = free_bytes (l @ Used n # r) + n \<and>
    used_at p (free_tile l n r) = used_at p (l @ Free n # r)"
proof -
  assume co: "coalesced (l @ Used n # r)"
  show "tsizes (free_tile l n r) = tsizes (l @ Used n # r) \<and>
    free_bytes (free_tile l n r) = free_bytes (l @ Used n # r) + n \<and>
    used_at p (free_tile l n r) = used_at p (l @ Free n # r)"
    by (rule free_tile_cases [OF co]) simp
next
  assume ok: "tiles_ok (l @ Used n # r)"
  then have co: "coalesced (l @ Used n # r)" by (simp add: tiles_ok_def)
  obtain l' r' m where c: "free_tile l n r = l' @ Free m # r'" "\<not> ends_free l'" "\<not> starts_free r'"
    "coalesced l'" "coalesced r'" "n \<le> m" "set l' \<subseteq> set l" "set r' \<subseteq> set r"
    "8 dvd n \<Longrightarrow> \<forall>t \<in> set (l @ r). 8 dvd tsize t \<Longrightarrow> 8 dvd m"
    by (rule free_tile_cases [OF co]) blast
  then show "tiles_ok (free_tile l n r)"
    using ok coalesced_append [of l' "Free m" r'] by (auto simp: tiles_ok_def)
qed

lemma used_tile_facts:
  assumes ok: "heap_ok h S (l @ Used n # r)" and b: "b = S + tsizes l"
  shows "nxt h b = 0" and "bsize h b = n OR heapBLOCK_ALLOCATED_BITMASK" and "0 < n" and "n < 2 ^ 31"
    and "b \<noteq> xStart h" and "b \<noteq> pxEnd h" and "b \<notin> fst ` set (free_at S (l @ Used n # r))"
    and "b + n \<le> pxEnd h" and "8 dvd n" and "8 dvd b"
proof -
  have pos: "\<forall>t \<in> set (l @ Used n # r). 0 < tsize t"
    using ok tiles_ok_pos [of "l @ Used n # r"] unfolding heap_ok_def by blast
  have mem: "(b, n) \<in> set (used_at S (l @ Used n # r))" by (simp add: b)
  then show "nxt h b = 0" and "bsize h b = n OR heapBLOCK_ALLOCATED_BITMASK"
    using ok by (auto simp: heap_ok_def heap_links_def)
  show "b \<notin> fst ` set (free_at S (l @ Used n # r))" by (rule free_used_apart [OF pos mem])
  have "8 dvd tsizes xs" if "\<forall>t \<in> set xs. 8 dvd tsize t" for xs
    using that by (induction xs) (auto intro: dvd_add)
  then show "8 dvd b" using ok b by (auto simp: heap_ok_def heap_layout_def tiles_ok_def)
  show "0 < n" "n < 2 ^ 31" "b \<noteq> xStart h" "b \<noteq> pxEnd h" "b + n \<le> pxEnd h" "8 dvd n"
    using ok b by (auto simp: heap_ok_def heap_layout_def tiles_ok_def)
qed

text \<open>The used blocks and the end marker keep their headers under an update around tile \<open>n\<close>.\<close>

lemma links_keep:
  assumes pos: "\<forall>t \<in> set (l @ Free n # r). 0 < tsize t" and lay: "heap_layout h S (l @ Free n # r)"
    and keep: "\<And>a. a \<noteq> xStart h \<Longrightarrow> a < S + tsizes l \<or> S + tsizes l + n \<le> a \<Longrightarrow>
      a \<notin> fst ` set (free_at S l) \<Longrightarrow> mem h' a = mem h a"
  shows "(a, s) \<in> set (used_at S (l @ Free n # r)) \<Longrightarrow> mem h' a = mem h a"
    and "mem h' (pxEnd h) = mem h (pxEnd h)"
proof -
  show "mem h' a = mem h a" if a: "(a, s) \<in> set (used_at S (l @ Free n # r))" for a s
  proof (rule keep)
    show "a < S + tsizes l \<or> S + tsizes l + n \<le> a"
      using a pos blocks_in_bound [OF used_at_blocks, of l a s S]
        blocks_in_bound [OF used_at_blocks, of r a s "S + tsizes l + n"] by auto
    show "a \<notin> fst ` set (free_at S l)" using free_used_apart [OF pos a] by (simp add: image_Un)
    show "a \<noteq> xStart h"
      using blocks_in_bound [OF used_at_blocks [OF pos] a] lay by (auto simp: heap_layout_def)
  qed
  show "mem h' (pxEnd h) = mem h (pxEnd h)"
  proof (rule keep)
    show "pxEnd h \<notin> fst ` set (free_at S l)"
      by (rule blocks_in_out [OF free_at_blocks]) (use pos lay in \<open>auto simp: heap_layout_def\<close>)
  qed (use pos lay in \<open>auto simp: heap_layout_def\<close>)
qed

lemma links_used_keep:
  assumes "heap_links h S (l @ t # r)" and "tsize t = n"
    and "\<And>a s. (a, s) \<in> set (used_at S (l @ Free n # r)) \<Longrightarrow> mem h' a = mem h a"
  shows "\<forall>(a, s) \<in> set (used_at S (l @ Free n # r)). nxt h' a = 0 \<and> bsize h' a = s OR heapBLOCK_ALLOCATED_BITMASK"
proof clarify
  fix a s
  assume a: "(a, s) \<in> set (used_at S (l @ Free n # r))"
  then have "nxt h a = 0 \<and> bsize h a = s OR heapBLOCK_ALLOCATED_BITMASK"
    using assms(1,2) by (cases t) (auto simp: heap_links_def)
  then show "nxt h' a = 0 \<and> bsize h' a = s OR heapBLOCK_ALLOCATED_BITMASK"
    by (simp add: assms(3) [OF a])
qed

lemma freed_chain:
  assumes ok: "heap_ok h S (l @ Used n # r)" and b: "b = S + tsizes l"
  shows "chain (set_size b n h\<lparr>xFreeBytesRemaining := f\<rparr>) (xStart h) (free_at S l @ free_at (b + n) r) (pxEnd h)"
proof -
  note u = used_tile_facts [OF ok b]
  let ?h = "set_size b n h\<lparr>xFreeBytesRemaining := f\<rparr>"
  have "chain ?h (xStart h) (free_at S (l @ Used n # r)) (pxEnd h)
      = chain h (xStart h) (free_at S (l @ Used n # r)) (pxEnd h)"
  proof (rule chain_cong)
    fix a
    assume "a \<in> fst ` set (free_at S (l @ Used n # r))"
    with u(7) have "a \<noteq> b" by blast
    then show "bsize ?h a = bsize h a" by simp
  qed simp
  then show ?thesis using ok b by (simp add: heap_ok_def heap_links_def)
qed

lemma vPortFree_list:
  assumes ok: "heap_ok h S (l @ Used n # r)" and b: "b = S + tsizes l"
  shows "\<exists>h'. prvInsertBlockIntoFreeList b (set_size b n h\<lparr>xFreeBytesRemaining := f\<rparr>) = Some h' \<and>
    same_frame (h\<lparr>xFreeBytesRemaining := f\<rparr>) h' \<and> heap_links h' S (free_tile l n r)"
proof -
  have lay: "heap_layout h S (l @ Used n # r)" and links: "heap_links h S (l @ Used n # r)"
    and tok: "tiles_ok (l @ Used n # r)" using ok by (simp_all add: heap_ok_def)
  note u = used_tile_facts [OF ok b]
  let ?h = "set_size b n h\<lparr>xFreeBytesRemaining := f\<rparr>"
  have m: "mem ?h a = (if a = b then (mem h b)\<lparr>xBlockSize := n\<rparr> else mem h a)" for a
    by (simp add: set_size_def)
  have ch: "chain ?h (xStart ?h) (free_at S l @ free_at (b + n) r) (pxEnd ?h)"
    using freed_chain [OF ok b] by simp
  have pos: "\<forall>t \<in> set (l @ r). 0 < tsize t" using tok by (auto simp: tiles_ok_def)
  have size: "bsize ?h b = n" by simp
  have z: "bsize ?h (xStart ?h) = 0" using links u(5) by (simp add: heap_links_def)
  have lay': "heap_layout ?h S (l @ Free n # r)" using lay by (simp add: heap_layout_def)
  obtain h' where ins: "prvInsertBlockIntoFreeList b ?h = Some h'" and fr: "same_frame ?h h'"
    and ch': "chain h' (xStart h) (free_at S (free_tile l n r)) (pxEnd h)" "bsize h' (xStart h) = 0"
    and other: "\<And>a. a \<noteq> xStart h \<Longrightarrow> a \<noteq> b \<Longrightarrow> a \<notin> fst ` set (free_at S l) \<Longrightarrow> mem h' a = mem ?h a"
    using prvInsert_tile [OF size b u(3) ch z pos lay'] by auto
  have layn: "heap_layout h S (l @ Free n # r)" and posn: "\<forall>t \<in> set (l @ Free n # r). 0 < tsize t"
    using lay pos u(3) by (simp_all add: heap_layout_def)
  have keep: "mem h' a = mem h a" if "a \<noteq> xStart h" "a < S + tsizes l \<or> S + tsizes l + n \<le> a"
    "a \<notin> fst ` set (free_at S l)" for a
    using other [of a] that m b u(3) by auto
  have sums: "used_at S (free_tile l n r) = used_at S (l @ Free n # r)"
    using free_tile_sums tok by (simp add: tiles_ok_def)
  have "heap_links h' S (free_tile l n r)"
    using links ch' links_keep(2) [OF posn layn keep] fr
      links_used_keep [OF links tsize.simps(2) links_keep(1) [OF posn layn keep]]
    by (simp add: heap_links_def same_frame_def sums)
  with ins fr show ?thesis by (auto simp: same_frame_def)
qed

lemma vPortFree_ok:
  assumes ok: "heap_ok h S (l @ Used n # r)"
  shows "\<exists>h'. vPortFree (S + tsizes l + 8) h = Some h' \<and> heap_ok h' S (free_tile l n r) \<and>
    payload h' = payload h \<and> pxEnd h' = pxEnd h"
proof -
  define b where "b = S + tsizes l"
  note u = used_tile_facts [OF ok b_def]
  have lay: "heap_layout h S (l @ Used n # r)" and tok: "tiles_ok (l @ Used n # r)"
    using ok by (simp_all add: heap_ok_def)
  have sums: "tsizes (free_tile l n r) = tsizes (l @ Used n # r)"
    "free_bytes (free_tile l n r) = free_bytes (l @ Used n # r) + n"
    using free_tile_sums [of l n r S] tok by (auto simp: tiles_ok_def)
  have link: "wsub (b + 8) 8 = b" using u(3,8) lay by (simp add: heap_layout_def)
  have free: "heapFREE_BLOCK b h = set_size b n h"
    using u(2,4) top_bit_set(2) [of n] by (simp only: heapFREE_BLOCK_def mask_values)
  have alloc: "heapBLOCK_IS_ALLOCATED b h"
    using u(2,4) top_bit_set(1) [of n] by (simp only: heapBLOCK_IS_ALLOCATED_def mask_values simp_thms)
  have small: "free_bytes (l @ Used n # r) + n < w32"
    using free_bytes_le [of "free_tile l n r"] sums lay by (simp add: heap_layout_def w32_def)
  let ?f = "free_bytes (l @ Used n # r) + n"
  obtain h3 where ins: "prvInsertBlockIntoFreeList b (set_size b n h\<lparr>xFreeBytesRemaining := ?f\<rparr>) = Some h3"
    and fr: "same_frame (h\<lparr>xFreeBytesRemaining := ?f\<rparr>) h3" and links: "heap_links h3 S (free_tile l n r)"
    using vPortFree_list [OF ok b_def] by blast
  define h' where "h' = h3\<lparr>xNumberOfSuccessfulFrees := wadd (xNumberOfSuccessfulFrees h3) 1\<rparr>"
  have "wadd (xFreeBytesRemaining h) n = ?f" using ok small by (simp add: heap_ok_def)
  then have res: "vPortFree (b + 8) h = Some h'"
    using link alloc u(1) ins free by (simp add: vPortFree_def Let_def h'_def)
  have "heap_links h' S (free_tile l n r)"
    using links heap_links_cong [of h' h3 S "free_tile l n r"] by (simp add: h'_def)
  then have "heap_ok h' S (free_tile l n r)"
    using ok fr sums lay free_tile_ok [OF tok]
    by (simp add: heap_ok_def heap_layout_def same_frame_def h'_def)
  with res fr show ?thesis by (simp add: b_def same_frame_def h'_def)
qed

section \<open>pvPortMalloc\<close>

text \<open>The size a request is served with: room for the header, rounded up to 8 bytes.\<close>

definition wanted :: "nat \<Rightarrow> nat" where
  "wanted n = (let r = (n + 15) div 8 * 8 in if n = 0 \<or> w32 \<le> r then 0 else r)"

lemma heapADD_overflow: "b < w32 \<Longrightarrow> heapADD_WILL_OVERFLOW a b \<longleftrightarrow> w32 \<le> a + b"
  by (auto simp: heapADD_WILL_OVERFLOW_def heapSIZE_MAX_def)

lemma adjust_wanted_size_eq:
  assumes "n < w32"
  shows "adjust_wanted_size n = wanted n"
proof (cases "n = 0 \<or> w32 \<le> n + 8")
  case True
  moreover have "w32 \<le> (n + 15) div 8 * 8" if "w32 \<le> n + 8"
    using that by (simp add: w32_value)
  ultimately show ?thesis
    by (auto simp: adjust_wanted_size_def heapADD_overflow wanted_def w32_value)
next
  case False
  define m where "m = n + 8"
  have m: "m < w32" "wadd n 8 = m" using False by (simp_all add: m_def)
  note up = round_up_8 [of m]
  have small: "(8 :: nat) < w32" "8 - m mod 8 < w32" by (simp_all add: w32_value)
  have "adjust_wanted_size n =
      (if m mod 8 \<noteq> 0 then if m + (8 - m mod 8) < w32 then m + (8 - m mod 8) else 0 else m)"
    using False m small
    by (simp add: adjust_wanted_size_def heapADD_overflow and_7_nat Let_def m_def [symmetric] not_le)
  also have "\<dots> = (let r = (m + 7) div 8 * 8 in if w32 \<le> r then 0 else r)"
    unfolding up Let_def using m by auto
  also have "\<dots> = wanted n" using False by (simp add: wanted_def m_def add.commute)
  finally show ?thesis .
qed

lemma wanted_facts: "wanted n = 0 \<or> (n + 8 \<le> wanted n \<and> wanted n \<le> n + 15 \<and> 8 dvd wanted n)"
proof -
  have "n + 8 \<le> (n + 15) div 8 * 8" and "(n + 15) div 8 * 8 \<le> n + 15" by presburger+
  then show ?thesis by (simp add: wanted_def Let_def)
qed

lemma find_fit_found:
  "chain h p (xs @ (a, s) # ys) e \<Longrightarrow> \<forall>(b, t) \<in> set xs. t < w \<Longrightarrow> w \<le> s \<Longrightarrow>
    \<forall>b \<in> fst ` set (xs @ [(a, s)]). b \<noteq> 0 \<Longrightarrow> find_fit h w p (nxt h p) = Some (last_addr p xs, a)"
proof (induction xs arbitrary: p)
  case Nil
  then show ?case by (subst find_fit.simps) simp
next
  case (Cons x xs)
  obtain b t where x: "x = (b, t)" by force
  have c: "chain h b (xs @ (a, s) # ys) e" "nxt h p = b" "bsize h b = t" using Cons.prems x by auto
  have "nxt h b \<noteq> 0" using c(1) Cons.prems(4) by (cases xs) auto
  moreover have "find_fit h w b (nxt h b) = Some (last_addr b xs, a)"
    by (rule Cons.IH [OF c(1)]) (use Cons.prems in auto)
  ultimately show ?case using c Cons.prems x by (subst find_fit.simps) auto
qed

lemma find_fit_none:
  "chain h p xs e \<Longrightarrow> \<forall>(b, t) \<in> set xs. t < w \<Longrightarrow> \<forall>b \<in> fst ` set xs. b \<noteq> 0 \<Longrightarrow> e \<noteq> 0 \<Longrightarrow>
    nxt h e = 0 \<Longrightarrow> find_fit h w p (nxt h p) = Some (last_addr p xs, e)"
proof (induction xs arbitrary: p)
  case Nil
  then show ?case by (subst find_fit.simps) simp
next
  case (Cons x xs)
  obtain b t where x: "x = (b, t)" by force
  have c: "chain h b xs e" "nxt h p = b" "bsize h b = t" using Cons.prems x by auto
  have "nxt h b \<noteq> 0" using c(1) Cons.prems(3,4) by (cases xs) auto
  moreover have "find_fit h w b (nxt h b) = Some (last_addr b xs, e)"
    by (rule Cons.IH [OF c(1)]) (use Cons.prems in auto)
  ultimately show ?case using c Cons.prems x by (subst find_fit.simps) auto
qed

text \<open>First fit on tiles: the lowest free tile that is large enough.\<close>

fun first_fit :: "nat \<Rightarrow> tile list \<Rightarrow> (tile list \<times> nat \<times> tile list) option" where
  "first_fit w [] = None"
| "first_fit w (Free n # ts) =
     (if w \<le> n then Some ([], n, ts) else map_option (\<lambda>(l, s, r). (Free n # l, s, r)) (first_fit w ts))"
| "first_fit w (Used n # ts) = map_option (\<lambda>(l, s, r). (Used n # l, s, r)) (first_fit w ts)"

lemma first_fit_Some:
  "first_fit w ts = Some (l, s, r) \<Longrightarrow> ts = l @ Free s # r \<and> w \<le> s \<and> (\<forall>n. Free n \<in> set l \<longrightarrow> n < w)"
  by (induction w ts arbitrary: l s r rule: first_fit.induct) (auto split: if_splits)

lemma first_fit_None: "first_fit w ts = None \<longleftrightarrow> (\<forall>n. Free n \<in> set ts \<longrightarrow> n < w)"
  by (induction w ts rule: first_fit.induct) auto

lemma free_at_sizes: "(a, s) \<in> set (free_at p ts) \<Longrightarrow> Free s \<in> set ts"
  by (induction p ts rule: free_at.induct) auto

definition take_tile :: "nat \<Rightarrow> tile list \<Rightarrow> nat \<Rightarrow> tile list \<Rightarrow> tile list" where
  "take_tile w l s r = (if s - w > 16 then l @ Used w # Free (s - w) # r else l @ Used s # r)"

lemma take_tile_ok:
  assumes "tiles_ok (l @ Free s # r)" and "0 < w" and "8 dvd w" and "w \<le> s"
  shows "tiles_ok (take_tile w l s r)" and "tsizes (take_tile w l s r) = tsizes (l @ Free s # r)"
    and "free_bytes (take_tile w l s r) = free_bytes (l @ Free s # r) - (if s - w > 16 then w else s)"
  using assms coalesced_append [of l "Free s" r] coalesced_append [of l "Used w" "Free (s - w) # r"]
    coalesced_append [of l "Used s" r]
  by (auto simp: take_tile_def tiles_ok_def)

lemma chain_set_next:
  assumes "chain h a ys e" and "p \<notin> set (map fst ys)"
  shows "chain (set_next p (nxt h a) h) p ys e"
proof (cases ys)
  case Nil
  with assms show ?thesis by simp
next
  case (Cons y zs)
  obtain c u where y: "y = (c, u)" by force
  have "chain (set_next p (nxt h a) h) c zs e = chain h c zs e"
    by (rule chain_cong) (use assms Cons y in auto)
  with assms Cons y show ?thesis by simp
qed

lemma unlink_chain:
  "chain h p (xs @ (a, s) # ys) e \<Longrightarrow> distinct (p # map fst (xs @ (a, s) # ys)) \<Longrightarrow>
    chain (set_next (last_addr p xs) (nxt h a) h) p (xs @ ys) e"
proof (induction xs arbitrary: p)
  case Nil
  then show ?case using chain_set_next [of h a ys e p] by simp
next
  case (Cons x xs)
  obtain b t where x: "x = (b, t)" by force
  have "chain (set_next (last_addr b xs) (nxt h a) h) b (xs @ ys) e"
    by (rule Cons.IH) (use Cons.prems x in auto)
  moreover have "p \<noteq> last_addr b xs"
  proof -
    have "p \<notin> set (b # map fst xs)" using Cons.prems(2) x by simp
    moreover have "last_addr b xs \<in> set (b # map fst xs)" by (rule last_in_set) simp
    ultimately show ?thesis by metis
  qed
  ultimately show ?case using Cons.prems(1) x by simp
qed

text \<open>A free tile found by the search: the facts about its address the next steps need.\<close>

lemma free_tile_facts:
  assumes ok: "heap_ok h S (l @ Free s # r)" and a: "a = S + tsizes l"
  shows "8 dvd a" and "0 < s" and "a + s \<le> pxEnd h" and "a \<noteq> xStart h" and "a \<noteq> pxEnd h" and "s < 2 ^ 31"
    and "chain h (xStart h) (free_at S l @ (a, s) # free_at (a + s) r) (pxEnd h)"
    and "distinct (xStart h # map fst (free_at S l @ (a, s) # free_at (a + s) r))"
    and "\<not> ends_free l" and "\<not> starts_free r"
proof -
  have pos: "\<forall>t \<in> set (l @ Free s # r). 0 < tsize t"
    using ok tiles_ok_pos [of "l @ Free s # r"] unfolding heap_ok_def by blast
  have b: "blocks_in S (free_at S (l @ Free s # r)) (pxEnd h)"
    using free_at_blocks [OF pos, of S] ok by (simp add: heap_ok_def heap_layout_def)
  have "8 dvd tsizes xs" if "\<forall>t \<in> set xs. 8 dvd tsize t" for xs
    using that by (induction xs) (auto intro: dvd_add)
  then show "8 dvd a" using ok a by (auto simp: heap_ok_def heap_layout_def tiles_ok_def)
  show "0 < s" "a + s \<le> pxEnd h" "a \<noteq> xStart h" "a \<noteq> pxEnd h" "s < 2 ^ 31"
    using ok a by (auto simp: heap_ok_def heap_layout_def tiles_ok_def)
  show "chain h (xStart h) (free_at S l @ (a, s) # free_at (a + s) r) (pxEnd h)"
    using ok a by (simp add: heap_ok_def heap_links_def)
  have "xStart h \<notin> fst ` set (free_at S (l @ Free s # r))"
    by (rule blocks_in_out [OF b]) (use ok in \<open>auto simp: heap_ok_def heap_layout_def\<close>)
  then show "distinct (xStart h # map fst (free_at S l @ (a, s) # free_at (a + s) r))"
    using blocks_in_distinct [OF b] a by auto
  show "\<not> ends_free l" "\<not> starts_free r"
    using ok coalesced_append [of l "Free s" r] by (auto simp: heap_ok_def tiles_ok_def)
qed

lemma split_block_ok:
  assumes ok: "heap_ok h S (l @ Free s # r)" and a: "a = S + tsizes l"
    and w: "0 < w" "8 dvd w" "w \<le> s"
    and ch: "chain h1 (xStart h) (free_at S l @ free_at (a + s) r) (pxEnd h)"
    and h1: "same_frame h h1" "bsize h1 a = s" "bsize h1 (xStart h) = 0"
  shows "\<exists>h'. split_block w a h1 = Some h' \<and> same_frame h h' \<and>
    chain h' (xStart h) (free_at S (take_tile w l s r)) (pxEnd h) \<and> bsize h' (xStart h) = 0 \<and>
    bsize h' a = (if s - w > 16 then w else s) \<and>
    (\<forall>b. b \<noteq> xStart h \<longrightarrow> b < a \<or> a + s \<le> b \<longrightarrow> b \<notin> fst ` set (free_at S l) \<longrightarrow> mem h' b = mem h1 b)"
proof (cases "s - w > 16")
  case False
  note f = free_tile_facts [OF ok a]
  have "s < w32" using f(6) by (simp add: w32_def)
  with False w h1 ch a show ?thesis
    by (simp add: split_block_def heapMINIMUM_BLOCK_SIZE_def take_tile_def)
next
  case True
  note f = free_tile_facts [OF ok a]
  have lay: "heap_layout h S (l @ Free s # r)" and tok: "tiles_ok (l @ Free s # r)"
    using ok by (simp_all add: heap_ok_def)
  have sw: "s < w32" "a + w < w32" using f(3,6) w lay by (auto simp: w32_def heap_layout_def)
  define new where "new = a + w"
  define h2 where "h2 = set_size a w (set_size new (s - w) h1)"
  have fr1: "xStart h1 = xStart h" "pxEnd h1 = pxEnd h" using h1(1) by (simp_all add: same_frame_def)
  have fr2: "same_frame h h2" "xStart h2 = xStart h" "pxEnd h2 = pxEnd h"
    using h1(1) fr1 by (simp_all add: h2_def same_frame_def)
  have pos: "\<forall>t \<in> set (l @ r). 0 < tsize t" using tok by (auto simp: tiles_ok_def)
  have b2: "b \<noteq> a \<and> b \<noteq> new" if "b \<in> fst ` set (free_at S l @ free_at (a + s) r)" for b
  proof -
    have "b < a \<or> a + s \<le> b"
      using that blocks_in_addr [OF free_at_blocks, of l b S] blocks_in_addr [OF free_at_blocks, of r b "a + s"] pos a
      by auto
    then show ?thesis using True w f(2) by (auto simp: new_def)
  qed
  have xs: "xStart h \<noteq> new" using lay f(3) a w True by (auto simp: new_def heap_layout_def)
  have ch2: "chain h2 (xStart h2) (free_at S (l @ [Used w]) @ free_at (new + (s - w)) r) (pxEnd h2)"
    using ch w unfolding fr2
    by (subst chain_cong [of _ _ _ h1]) (use b2 in \<open>auto simp: h2_def new_def a add.assoc\<close>)
  have lay2: "heap_layout h2 S ((l @ [Used w]) @ Free (s - w) # r)"
    using lay w fr2 by (simp add: heap_layout_def)
  have other: "mem h2 b = mem h1 b" if "b \<noteq> a" "b \<noteq> new" for b
    using that by (simp add: h2_def set_size_def)
  have size2: "bsize h2 new = s - w" and pos2: "0 < s - w" and new2: "new = S + tsizes (l @ [Used w])"
    and zero2: "bsize h2 (xStart h2) = 0" and posr: "\<forall>t \<in> set ((l @ [Used w]) @ r). 0 < tsize t"
    using True w(1) xs f(4) h1(3) fr2 pos by (auto simp: h2_def new_def a)
  obtain h3 where ins: "prvInsertBlockIntoFreeList new h2 = Some h3" "same_frame h2 h3"
    and c3: "chain h3 (xStart h2) (free_at S (free_tile (l @ [Used w]) (s - w) r)) (pxEnd h2)" "bsize h3 (xStart h2) = 0"
    and o3: "\<And>b. b \<noteq> xStart h2 \<Longrightarrow> b \<noteq> new \<Longrightarrow> b \<notin> fst ` set (free_at S (l @ [Used w])) \<Longrightarrow> mem h3 b = mem h2 b"
    using prvInsert_tile [OF size2 new2 pos2 ch2 zero2 posr lay2] by blast
  have "\<not> ends_free (l @ [Used w])" by (simp add: ends_free_def)
  then have tile: "free_tile (l @ [Used w]) (s - w) r = take_tile w l s r"
    using f(10) True by (simp add: free_tile_simps take_tile_def)
  have al: "new AND 7 = 0" using f(1) w(2) by (simp add: and_7_nat new_def)
  have res: "split_block w a h1 = Some h3"
    using True w sw h1(2) al ins(1)
    by (simp add: split_block_def heapMINIMUM_BLOCK_SIZE_def Let_def new_def h2_def)
  have "a \<notin> fst ` set (free_at S l)" by (rule blocks_in_out [OF free_at_blocks]) (use pos a in auto)
  then have "bsize h3 a = w" using o3 [of a] f(4) w(1) fr2 by (simp add: h2_def new_def)
  moreover have "mem h3 b = mem h1 b"
    if "b \<noteq> xStart h" "b < a \<or> a + s \<le> b" "b \<notin> fst ` set (free_at S l)" for b
    using o3 [of b] other [of b] that f(2) w True fr2 by (auto simp: new_def)
  moreover have "same_frame h h3" using fr2(1) ins(2) by (simp add: same_frame_def)
  ultimately show ?thesis using res c3 fr2 tile True by simp
qed

lemma take_tile_used:
  "w \<le> s \<Longrightarrow> used_at p (take_tile w l s r) =
    used_at p l @ (p + tsizes l, if s - w > 16 then w else s) # used_at (p + tsizes l + s) r"
  by (simp add: take_tile_def add.assoc)

text \<open>The headers of all tiles after a block was unlinked, split and marked as allocated.\<close>

lemma take_links:
  assumes ok: "heap_ok h S (l @ Free s # r)" and a: "a = S + tsizes l" and w: "0 < w" "8 dvd w" "w \<le> s"
    and n: "n = (if s - w > 16 then w else s)"
    and ch: "chain h3 (xStart h) (free_at S (take_tile w l s r)) (pxEnd h)" "bsize h3 (xStart h) = 0"
    and keep: "\<And>b. b \<noteq> xStart h \<Longrightarrow> b < a \<or> a + s \<le> b \<Longrightarrow> b \<notin> fst ` set (free_at S l) \<Longrightarrow> mem h3 b = mem h b"
    and h': "xStart h' = xStart h" "pxEnd h' = pxEnd h"
      "mem h' = (mem h3)(a := \<lparr>pxNextFreeBlock = 0, xBlockSize = n OR heapBLOCK_ALLOCATED_BITMASK\<rparr>)"
  shows "heap_links h' S (take_tile w l s r)"
proof -
  note f = free_tile_facts [OF ok a]
  have links: "heap_links h S (l @ Free s # r)" and lay: "heap_layout h S (l @ Free s # r)"
    and tok: "tiles_ok (l @ Free s # r)" using ok by (simp_all add: heap_ok_def)
  have pos: "\<forall>t \<in> set (l @ Free s # r). 0 < tsize t" using tiles_ok_pos [OF tok] .
  have posn: "\<forall>t \<in> set (take_tile w l s r). 0 < tsize t"
    using tiles_ok_pos [OF take_tile_ok(1) [OF tok w]] .
  have used: "used_at S (take_tile w l s r) = used_at S l @ (a, n) # used_at (a + s) r"
    using take_tile_used [OF w(3)] by (simp add: a n)
  have "a \<notin> fst ` set (free_at S (take_tile w l s r))"
    by (rule free_used_apart [OF posn, of a n]) (simp add: used)
  then have same: "b \<noteq> a" if "b \<in> set (xStart h # map fst (free_at S (take_tile w l s r)))" for b
    using that f(4) by (metis list.set_map set_ConsD)
  have "chain h' (xStart h) (free_at S (take_tile w l s r)) (pxEnd h)
      = chain h3 (xStart h) (free_at S (take_tile w l s r)) (pxEnd h)"
    by (rule chain_cong) (use same in \<open>simp_all add: h'(3)\<close>)
  moreover have k: "mem h' b = mem h b"
    if "b \<noteq> xStart h" "b < S + tsizes l \<or> S + tsizes l + s \<le> b" "b \<notin> fst ` set (free_at S l)" for b
    using keep [of b] that f(2) by (auto simp: h'(3) a)
  ultimately show ?thesis
    using ch links f(4,5) h' links_keep(2) [OF pos lay k] used
      links_used_keep [OF links tsize.simps(1) links_keep(1) [OF pos lay k]]
    by (simp add: heap_links_def a)
qed

lemma header_written:
  "(m :: block_link)\<lparr>xBlockSize := x, pxNextFreeBlock := y\<rparr> = \<lparr>pxNextFreeBlock = y, xBlockSize = x\<rparr>"
  by (cases m) simp

lemma take_block_ok:
  assumes ok: "heap_ok h S (l @ Free s # r)" and a: "a = S + tsizes l"
    and w: "0 < w" "8 dvd w" "w \<le> s"
    and prev: "prev = last_addr (xStart h) (free_at S l)"
  shows "\<exists>h'. take_block w prev a h = Some (h', a + 8) \<and> heap_ok h' S (take_tile w l s r) \<and>
    payload h' = payload h \<and> pxEnd h' = pxEnd h"
proof -
  note f = free_tile_facts [OF ok a]
  have links: "heap_links h S (l @ Free s # r)" and lay: "heap_layout h S (l @ Free s # r)"
    and tok: "tiles_ok (l @ Free s # r)" using ok by (simp_all add: heap_ok_def)
  define h1 where "h1 = set_next prev (nxt h a) h"
  have ch1: "chain h1 (xStart h) (free_at S l @ free_at (a + s) r) (pxEnd h)"
    unfolding h1_def prev by (rule unlink_chain [OF f(7,8)])
  have s: "bsize h1 a = s" "bsize h1 (xStart h) = 0" "same_frame h h1"
    using f(7) links by (simp_all add: h1_def chain_append heap_links_def same_frame_def)
  have ret: "wadd (nxt h prev) 8 = a + 8"
    using chain_next [OF f(7)] prev f(3,2) lay by (simp add: heap_layout_def)
  obtain h3 where h3: "split_block w a h1 = Some h3" "same_frame h h3"
    "chain h3 (xStart h) (free_at S (take_tile w l s r)) (pxEnd h)" "bsize h3 (xStart h) = 0"
    and n: "bsize h3 a = (if s - w > 16 then w else s)"
    and o3: "\<And>b. b \<noteq> xStart h \<Longrightarrow> b < a \<or> a + s \<le> b \<Longrightarrow> b \<notin> fst ` set (free_at S l) \<Longrightarrow> mem h3 b = mem h1 b"
    using split_block_ok [OF ok a w ch1 s(3,1,2)] by blast
  have keep: "mem h3 b = mem h b" if "b \<noteq> xStart h" "b < a \<or> a + s \<le> b" "b \<notin> fst ` set (free_at S l)" for b
  proof -
    have "prev \<in> set (xStart h # map fst (free_at S l))" unfolding prev by (rule last_in_set) simp
    then have "b \<noteq> prev" using that by auto
    then show ?thesis using o3 [OF that] by (simp add: h1_def set_next_def)
  qed
  let ?f = "free_bytes (take_tile w l s r)"
  have free: "wsub (xFreeBytesRemaining h3) (bsize h3 a) = ?f"
    using ok h3(2) n w take_tile_ok(3) [OF tok w] free_bytes_le [of "l @ Free s # r"] lay
    by (simp add: heap_ok_def same_frame_def heap_layout_def w32_def)
  define h' where "h' = fst (the (take_block w prev a h))"
  have res: "take_block w prev a h = Some (h', a + 8)" and fr: "same_frame h (h'\<lparr>xFreeBytesRemaining := xFreeBytesRemaining h,
      xMinimumEverFreeBytesRemaining := xMinimumEverFreeBytesRemaining h,
      xNumberOfSuccessfulAllocations := xNumberOfSuccessfulAllocations h\<rparr>)"
    and bytes: "xFreeBytesRemaining h' = ?f" "xMinimumEverFreeBytesRemaining h' \<le> ?f"
    and mem: "mem h' = (mem h3)(a := \<lparr>pxNextFreeBlock = 0, xBlockSize = bsize h3 a OR heapBLOCK_ALLOCATED_BITMASK\<rparr>)"
    using h3(1,2) ret free
    by (simp_all add: take_block_def h'_def h1_def Let_def heapALLOCATE_BLOCK_def set_size_def set_next_def same_frame_def
        header_written)
  have fr': "xStart h' = xStart h" "pxEnd h' = pxEnd h" "payload h' = payload h"
    using fr by (simp_all add: same_frame_def)
  have "heap_links h' S (take_tile w l s r)"
    by (rule take_links [OF ok a w n h3(3,4) keep fr'(1,2) mem])
  then have "heap_ok h' S (take_tile w l s r)"
    using take_tile_ok [OF tok w] lay fr' bytes by (simp add: heap_ok_def heap_layout_def)
  with res fr' show ?thesis by blast
qed

text \<open>The abstract allocation: the tiles afterwards and the offset of the tile handed out.\<close>

definition tile_malloc :: "nat \<Rightarrow> tile list \<Rightarrow> tile list \<times> nat option" where
  "tile_malloc n ts =
     (if wanted n = 0 then (ts, None)
      else case first_fit (wanted n) ts of
        None \<Rightarrow> (ts, None)
      | Some (l, s, r) \<Rightarrow> (take_tile (wanted n) l s r, Some (tsizes l)))"

definition result_addr :: "nat \<Rightarrow> nat option \<Rightarrow> nat" where
  "result_addr S p = (case p of None \<Rightarrow> 0 | Some off \<Rightarrow> S + off + 8)"

lemma heap_ok_initialised: "heap_ok h S ts \<Longrightarrow> pxEnd h \<noteq> 0"
  by (auto simp: heap_ok_def heap_layout_def)

lemma size_valid: "w < 2 ^ 31 \<Longrightarrow> heapBLOCK_SIZE_IS_VALID w"
  by (simp add: heapBLOCK_SIZE_IS_VALID_def mask_values top_bit_clear)

lemma malloc_fits:
  assumes ok: "heap_ok h S ts" and fit: "first_fit w ts = Some (l, s, r)" and w: "0 < w" "8 dvd w"
  shows "\<exists>h'. find_fit h w (xStart h) (nxt h (xStart h)) = Some (last_addr (xStart h) (free_at S l), S + tsizes l) \<and>
    take_block w (last_addr (xStart h) (free_at S l)) (S + tsizes l) h = Some (h', S + tsizes l + 8) \<and>
    heap_ok h' S (take_tile w l s r) \<and> payload h' = payload h \<and> pxEnd h' = pxEnd h \<and>
    S + tsizes l \<noteq> pxEnd h \<and> w \<le> xFreeBytesRemaining h \<and> heapBLOCK_SIZE_IS_VALID w \<and> 8 dvd S + tsizes l"
proof -
  have ts: "ts = l @ Free s # r" and le: "w \<le> s" and low: "\<forall>n. Free n \<in> set l \<longrightarrow> n < w"
    using first_fit_Some [OF fit] by simp_all
  note ok' = ok [unfolded ts]
  note f = free_tile_facts [OF ok' refl]
  have "b \<noteq> 0" if "b \<in> fst ` set (free_at S l @ [(S + tsizes l, s)])" for b
  proof -
    have pos: "\<forall>t \<in> set l. 0 < tsize t" using ok' by (auto simp: heap_ok_def tiles_ok_def)
    have "S \<le> b" using that blocks_in_addr [OF free_at_blocks [OF pos], of b S] by auto
    then show ?thesis using ok by (auto simp: heap_ok_def heap_layout_def)
  qed
  moreover have "\<forall>(b, t) \<in> set (free_at S l). t < w" using low by (auto dest: free_at_sizes)
  ultimately have "find_fit h w (xStart h) (nxt h (xStart h)) = Some (last_addr (xStart h) (free_at S l), S + tsizes l)"
    by (intro find_fit_found [OF f(7)]) (use le in blast)+
  moreover have "w < 2 ^ 31" using le f(6) by simp
  moreover have "w \<le> xFreeBytesRemaining h" using ok' le by (simp add: heap_ok_def)
  ultimately show ?thesis
    using take_block_ok [OF ok' refl w le refl] size_valid f(1,5) by blast
qed

lemma malloc_fails:
  assumes ok: "heap_ok h S ts" and none: "first_fit w ts = None"
  shows "find_fit h w (xStart h) (nxt h (xStart h)) = Some (last_addr (xStart h) (free_at S ts), pxEnd h)"
proof (rule find_fit_none)
  show "chain h (xStart h) (free_at S ts) (pxEnd h)" and "nxt h (pxEnd h) = 0"
    using ok by (simp_all add: heap_ok_def heap_links_def)
  show "\<forall>(b, t) \<in> set (free_at S ts). t < w" using none by (auto simp: first_fit_None dest: free_at_sizes)
  have pos: "\<forall>t \<in> set ts. 0 < tsize t" using ok by (auto simp: heap_ok_def tiles_ok_def)
  show "\<forall>b \<in> fst ` set (free_at S ts). b \<noteq> 0"
    using blocks_in_out [OF free_at_blocks [OF pos], of 0 S] ok by (metis heap_layout_def heap_ok_def)
  show "pxEnd h \<noteq> 0" by (rule heap_ok_initialised [OF ok])
qed

lemma pvPortMalloc_ok:
  assumes ok: "heap_ok h S ts" and n: "n < w32" and tm: "tile_malloc n ts = (ts', p)"
  shows "\<exists>h'. pvPortMalloc n h = Some (h', result_addr S p) \<and> heap_ok h' S ts' \<and>
    payload h' = payload h \<and> pxEnd h' = pxEnd h"
proof -
  have init: "pxEnd h \<noteq> 0" by (rule heap_ok_initialised [OF ok])
  note aw = adjust_wanted_size_eq [OF n]
  show ?thesis
  proof (cases "wanted n = 0")
    case True
    then show ?thesis
      using ok init tm by (simp add: pvPortMalloc_def aw Let_def tile_malloc_def result_addr_def)
  next
    case False
    then have w: "0 < wanted n" "8 dvd wanted n" using wanted_facts [of n] by auto
    show ?thesis
    proof (cases "first_fit (wanted n) ts")
      case None
      then show ?thesis
        using ok init tm False malloc_fails [OF ok None]
        by (simp add: pvPortMalloc_def aw Let_def tile_malloc_def result_addr_def)
    next
      case (Some lsr)
      obtain l s r where lsr: "lsr = (l, s, r)" by (cases lsr) auto
      obtain h' where m: "find_fit h (wanted n) (xStart h) (nxt h (xStart h)) =
            Some (last_addr (xStart h) (free_at S l), S + tsizes l)"
        "take_block (wanted n) (last_addr (xStart h) (free_at S l)) (S + tsizes l) h = Some (h', S + tsizes l + 8)"
        "heap_ok h' S (take_tile (wanted n) l s r)" "payload h' = payload h" "pxEnd h' = pxEnd h"
        "S + tsizes l \<noteq> pxEnd h" "wanted n \<le> xFreeBytesRemaining h" "heapBLOCK_SIZE_IS_VALID (wanted n)"
        "8 dvd S + tsizes l"
        using malloc_fits [OF ok Some [unfolded lsr] w] by blast
      have al: "(S + tsizes l + 8) AND 7 = 0" using m(9) by (simp add: and_7_nat mod_eq_0_iff_dvd)
      have "pvPortMalloc n h = Some (h', S + tsizes l + 8)"
        using init w m(1,2,6-8) al by (simp add: pvPortMalloc_def aw Let_def)
      then show ?thesis
        using m(3-5) tm Some lsr False by (auto simp: tile_malloc_def result_addr_def)
    qed
  qed
qed

section \<open>Initialisation\<close>

text \<open>What the linker must provide: an array of at least 32 bytes below 2 GB, not wrapping, and
  the list head outside it.\<close>

definition heap_fresh :: "heap \<Rightarrow> bool" where
  "heap_fresh h \<longleftrightarrow>
     pxEnd h = 0 \<and> 0 < ucHeap h \<and> 32 \<le> configTOTAL_HEAP_SIZE h \<and> configTOTAL_HEAP_SIZE h < 2 ^ 31 \<and>
     ucHeap h + configTOTAL_HEAP_SIZE h < w32 \<and> xStart h < w32 \<and>
     (xStart h < ucHeap h \<or> ucHeap h + configTOTAL_HEAP_SIZE h \<le> xStart h)"

definition heap_base :: "heap \<Rightarrow> nat" where
  "heap_base h = (ucHeap h + 7) div 8 * 8"

definition heap_top :: "heap \<Rightarrow> nat" where
  "heap_top h = (ucHeap h + configTOTAL_HEAP_SIZE h - 8) div 8 * 8"

lemma heap_base_bounds: "ucHeap h \<le> heap_base h" "heap_base h \<le> ucHeap h + 7" "8 dvd heap_base h"
  by (simp_all add: heap_base_def)

lemma heap_top_bounds:
  assumes "heap_fresh h"
  shows "heap_top h + 8 \<le> ucHeap h + configTOTAL_HEAP_SIZE h" and "8 dvd heap_top h"
    and "heap_base h < heap_top h"
proof -
  have "32 \<le> configTOTAL_HEAP_SIZE h" using assms by (simp add: heap_fresh_def)
  moreover have "heap_top h \<le> ucHeap h + configTOTAL_HEAP_SIZE h - 8"
    and "ucHeap h + configTOTAL_HEAP_SIZE h - 8 < heap_top h + 8"
    unfolding heap_top_def by linarith+
  ultimately show "heap_top h + 8 \<le> ucHeap h + configTOTAL_HEAP_SIZE h" and "heap_base h < heap_top h"
    using heap_base_bounds(2) [of h] by linarith+
  show "8 dvd heap_top h" by (simp add: heap_top_def)
qed

lemma aligned_start:
  assumes "ucHeap h + 7 < w32"
  shows "(if ucHeap h AND 7 \<noteq> 0 then wadd (ucHeap h) (8 - 1) AND 4294967288 else ucHeap h) = heap_base h"
  using assms round_up_8 [of "ucHeap h"]
  by (auto simp: and_7_nat align_down_nat heap_base_def minus_mod_eq_div_mult)

lemma prvHeapInit_eq:
  assumes fresh: "heap_fresh h"
  shows "prvHeapInit h =
    (let s = heap_top h - heap_base h in
     (set_next (heap_base h) (heap_top h) (set_size (heap_base h) s
       (set_next (heap_top h) 0 (set_size (heap_top h) 0
         (set_size (xStart h) 0 (set_next (xStart h) (heap_base h) h)\<lparr>pxEnd := heap_top h\<rparr>)))))
       \<lparr>xMinimumEverFreeBytesRemaining := s, xFreeBytesRemaining := s\<rparr>)"
proof -
  have u: "ucHeap h + configTOTAL_HEAP_SIZE h < w32" "32 \<le> configTOTAL_HEAP_SIZE h"
    using fresh by (auto simp: heap_fresh_def)
  note bt = heap_top_bounds [OF fresh] heap_base_bounds [of h]
  have total: "wadd (heap_base h) (wsub (configTOTAL_HEAP_SIZE h) (wsub (heap_base h) (ucHeap h)))
      = ucHeap h + configTOTAL_HEAP_SIZE h"
    using u bt by simp
  have start: "heap_start h = (heap_base h, wsub (configTOTAL_HEAP_SIZE h) (wsub (heap_base h) (ucHeap h)))"
    using aligned_start [of h] u by (auto simp: heap_start_def Let_def split: if_splits)
  have top: "wsub (ucHeap h + configTOTAL_HEAP_SIZE h) 8 AND 4294967288 = heap_top h"
    using u by (simp add: align_down_nat heap_top_def minus_mod_eq_div_mult)
  have size: "wsub (heap_top h) (heap_base h) = heap_top h - heap_base h" using bt u by simp
  show ?thesis
    unfolding prvHeapInit_def start Let_def by (simp add: total top size)
qed

lemma prvHeapInit_ok:
  assumes fresh: "heap_fresh h"
  shows "heap_ok (prvHeapInit h) (heap_base h) [Free (heap_top h - heap_base h)]"
proof -
  note bt = heap_top_bounds [OF fresh] heap_base_bounds [of h]
  have f: "0 < ucHeap h" "configTOTAL_HEAP_SIZE h < 2 ^ 31" "ucHeap h + configTOTAL_HEAP_SIZE h < w32"
    "xStart h < w32" "xStart h < ucHeap h \<or> ucHeap h + configTOTAL_HEAP_SIZE h \<le> xStart h"
    using fresh by (simp_all add: heap_fresh_def)
  have x: "xStart h \<noteq> heap_base h" "xStart h \<noteq> heap_top h" using f(5) bt by auto
  show ?thesis
    unfolding heap_ok_def heap_layout_def heap_links_def tiles_ok_def prvHeapInit_eq [OF fresh] Let_def
    using bt f x by (auto simp: starts_free_def)
qed

section \<open>The contract of an allocator\<close>

text \<open>
  What a client relies on: an allocation returns null or a region of at least the requested
  size disjoint from every live region; freeing a live region succeeds and removes it.
  \<open>live\<close> lists the regions (address, size) of an abstract state.
\<close>

definition apart :: "nat \<times> nat \<Rightarrow> nat \<times> nat \<Rightarrow> bool" where
  "apart x y \<longleftrightarrow> fst x + snd x \<le> fst y \<or> fst y + snd y \<le> fst x"

locale allocator =
  fixes inv :: "'s \<Rightarrow> 'a \<Rightarrow> bool"
    and live :: "'a \<Rightarrow> (nat \<times> nat) set"
    and malloc :: "nat \<Rightarrow> 's \<Rightarrow> ('s \<times> nat) option"
    and free :: "nat \<Rightarrow> 's \<Rightarrow> 's option"
    and limit :: nat
  assumes malloc_live: "inv h a \<Longrightarrow> n < limit \<Longrightarrow>
      \<exists>h' p a'. malloc n h = Some (h', p) \<and> inv h' a' \<and>
        (if p = 0 then live a' = live a
         else \<exists>s \<ge> n. live a' = insert (p, s) (live a) \<and> (p, s) \<notin> live a)"
    and free_live: "inv h a \<Longrightarrow> (p, s) \<in> live a \<Longrightarrow>
      \<exists>h' a'. free p h = Some h' \<and> inv h' a' \<and> live a' = live a - {(p, s)}"
    and live_apart: "inv h a \<Longrightarrow> x \<in> live a \<Longrightarrow> y \<in> live a \<Longrightarrow> x \<noteq> y \<Longrightarrow> apart x y"

text \<open>A client script: allocate, or release the \<open>i\<close>-th region it still owns.\<close>

datatype request = Alloc nat | Release nat

fun run_requests ::
  "(nat \<Rightarrow> 's \<Rightarrow> ('s \<times> nat) option) \<Rightarrow> (nat \<Rightarrow> 's \<Rightarrow> 's option) \<Rightarrow> request list \<Rightarrow> 's \<Rightarrow>
   (nat \<times> nat) list \<Rightarrow> ('s \<times> (nat \<times> nat) list) option" where
  "run_requests malloc free [] h own = Some (h, own)"
| "run_requests malloc free (Alloc n # xs) h own =
     (case malloc n h of
        None \<Rightarrow> None
      | Some (h', p) \<Rightarrow> run_requests malloc free xs h' (if p = 0 then own else (p, n) # own))"
| "run_requests malloc free (Release i # xs) h own =
     (if i < length own then
        case free (fst (own ! i)) h of
          None \<Rightarrow> None
        | Some h' \<Rightarrow> run_requests malloc free xs h' (take i own @ drop (Suc i) own)
      else run_requests malloc free xs h own)"

text \<open>The client's view agrees with the live regions: same addresses, requested \<open>\<le>\<close> granted size.\<close>

definition owns :: "(nat \<times> nat) list \<Rightarrow> (nat \<times> nat) set \<Rightarrow> bool" where
  "owns own L \<longleftrightarrow>
     (\<exists>rs. L = set rs \<and> distinct rs \<and> list_all2 (\<lambda>(p, n) (q, s). p = q \<and> n \<le> s) own rs)"

lemma owns_insert: "owns own L \<Longrightarrow> n \<le> s \<Longrightarrow> (p, s) \<notin> L \<Longrightarrow> owns ((p, n) # own) (insert (p, s) L)"
  unfolding owns_def
  by (elim exE, rule_tac x = "(p, s) # rs" in exI) auto

lemma owns_remove:
  assumes "owns own L" and "i < length own"
  shows "\<exists>s. (fst (own ! i), s) \<in> L \<and> owns (take i own @ drop (Suc i) own) (L - {(fst (own ! i), s)})"
proof -
  obtain rs where rs: "L = set rs" "distinct rs" "list_all2 (\<lambda>(p, n) (q, s). p = q \<and> n \<le> s) own rs"
    using assms(1) by (auto simp: owns_def)
  have i: "i < length rs" using assms(2) rs(3) list_all2_lengthD by fastforce
  have "fst (rs ! i) = fst (own ! i)"
    using list_all2_nthD [OF rs(3) assms(2)] by (auto split: prod.splits)
  then have ri: "rs ! i = (fst (own ! i), snd (rs ! i))" by (metis prod.collapse)
  have split: "rs = take i rs @ rs ! i # drop (Suc i) rs" by (rule id_take_nth_drop [OF i])
  have "distinct (take i rs @ rs ! i # drop (Suc i) rs)" using rs(2) split by simp
  then have "set (take i rs @ drop (Suc i) rs) = set rs - {rs ! i}"
    using arg_cong [OF split, of set] by auto
  moreover have "distinct (take i rs @ drop (Suc i) rs)"
    using rs(2) by (simp add: set_take_disj_set_drop_if_distinct)
  moreover have "list_all2 (\<lambda>(p, n) (q, s). p = q \<and> n \<le> s)
      (take i own @ drop (Suc i) own) (take i rs @ drop (Suc i) rs)"
    using rs(3) by (intro list_all2_appendI list_all2_takeI list_all2_dropI)
  ultimately have "owns (take i own @ drop (Suc i) own) (L - {rs ! i})"
    using rs(1) unfolding owns_def by blast
  then show ?thesis using ri i rs(1) nth_mem [OF i] by (intro exI [of _ "snd (rs ! i)"]) simp
qed

lemma owns_nth:
  assumes "owns own L" and "i < length own"
  obtains s where "(fst (own ! i), s) \<in> L" and "snd (own ! i) \<le> s"
proof -
  obtain rs where rs: "L = set rs" "list_all2 (\<lambda>(p, n) (q, s). p = q \<and> n \<le> s) own rs"
    using assms(1) by (auto simp: owns_def)
  then have "i < length rs" using assms(2) list_all2_lengthD by fastforce
  with list_all2_nthD [OF rs(2) assms(2)] that [of "snd (rs ! i)"] rs(1) show thesis
    by (auto split: prod.splits) (metis fst_conv nth_mem prod.collapse snd_conv)
qed

context allocator
begin

lemma run_requests_safe:
  "inv h a \<Longrightarrow> owns own (live a) \<Longrightarrow> \<forall>n. Alloc n \<in> set xs \<longrightarrow> n < limit \<Longrightarrow>
    \<exists>h' own' a'. run_requests malloc free xs h own = Some (h', own') \<and> inv h' a' \<and> owns own' (live a')"
proof (induction xs arbitrary: h own a)
  case Nil
  then show ?case by auto
next
  case (Cons x xs)
  show ?case
  proof (cases x)
    case (Alloc n)
    with malloc_live [OF Cons.prems(1), of n] Cons.prems(3)
    obtain h' p a' where m: "malloc n h = Some (h', p)" "inv h' a'"
      and l: "if p = 0 then live a' = live a
        else \<exists>s \<ge> n. live a' = insert (p, s) (live a) \<and> (p, s) \<notin> live a" by auto
    have "owns (if p = 0 then own else (p, n) # own) (live a')"
      using l Cons.prems(2) owns_insert by (auto split: if_splits)
    with Cons.IH [OF m(2)] Cons.prems(3) Alloc m(1) show ?thesis by auto
  next
    case (Release i)
    show ?thesis
    proof (cases "i < length own")
      case True
      with owns_remove [OF Cons.prems(2)] obtain s where s: "(fst (own ! i), s) \<in> live a"
        "owns (take i own @ drop (Suc i) own) (live a - {(fst (own ! i), s)})" by blast
      with free_live [OF Cons.prems(1)] obtain h' a' where
        "free (fst (own ! i)) h = Some h'" "inv h' a'" "live a' = live a - {(fst (own ! i), s)}" by blast
      with Cons.IH [of h' a' "take i own @ drop (Suc i) own"] Cons.prems(3) Release True s show ?thesis by auto
    next
      case False
      with Cons.IH [OF Cons.prems(1,2)] Cons.prems(3) Release show ?thesis by auto
    qed
  qed
qed

end

text \<open>The regions the application holds: behind the headers of the used tiles.\<close>

definition live_regions :: "nat \<Rightarrow> tile list \<Rightarrow> (nat \<times> nat) set" where
  "live_regions S ts = (\<lambda>(a, s). (a + 8, s - 8)) ` set (used_at S ts)"

lemma blocks_in_apart: "blocks_in lo fs e \<Longrightarrow> x \<in> set fs \<Longrightarrow> y \<in> set fs \<Longrightarrow> x \<noteq> y \<Longrightarrow> apart x y"
proof (induction lo fs e rule: blocks_in.induct)
  case (2 lo a s fs e)
  then have "blocks_in (a + s) fs e" by simp
  from blocks_in_bound [OF this] have "apart (a, s) z" "apart z (a, s)" if "z \<in> set fs" for z
    using that by (cases z; fastforce simp: apart_def)+
  with 2 show ?case by (cases x; cases y) auto
qed simp

lemma used_at_split:
  "(a, n) \<in> set (used_at p ts) \<Longrightarrow> \<exists>l r. ts = l @ Used n # r \<and> a = p + tsizes l"
proof (induction p ts rule: used_at.induct)
  case (2 p m ts)
  then obtain l r where "ts = l @ Used n # r" "a = p + m + tsizes l" by auto
  then show ?case by (intro exI [of _ "Free m # l"] exI [of _ r]) simp
next
  case (3 p m ts)
  show ?case
  proof (cases "(a, n) = (p, m)")
    case True
    then show ?thesis by (intro exI [of _ "[]"] exI [of _ ts]) simp
  next
    case False
    with 3 obtain l r where "ts = l @ Used n # r" "a = p + m + tsizes l" by auto
    then show ?thesis by (intro exI [of _ "Used m # l"] exI [of _ r]) simp
  qed
qed simp

lemma used_at_distinct:
  assumes "tiles_ok (l @ Used n # r)"
  shows "distinct (map fst (used_at p (l @ Used n # r)))"
  by (rule blocks_in_distinct [OF used_at_blocks [OF tiles_ok_pos [OF assms]]])

lemma live_insert:
  assumes fit: "tiles_ok (l @ Free s # r)" "0 < w" "8 dvd w" "w \<le> s"
  shows "\<exists>m. w \<le> m \<and> live_regions S (take_tile w l s r) =
      insert (S + tsizes l + 8, m - 8) (live_regions S (l @ Free s # r)) \<and>
    (S + tsizes l + 8, m - 8) \<notin> live_regions S (l @ Free s # r)"
proof -
  define m where "m = (if s - w > 16 then w else s)"
  have used: "used_at S (take_tile w l s r) = used_at S l @ (S + tsizes l, m) # used_at (S + tsizes l + s) r"
    using take_tile_used [OF fit(4)] by (simp add: m_def)
  have "distinct (map fst (used_at S (take_tile w l s r)))"
    by (rule blocks_in_distinct [OF used_at_blocks [OF tiles_ok_pos [OF take_tile_ok(1) [OF fit]]]])
  then have "S + tsizes l \<notin> fst ` (set (used_at S l) \<union> set (used_at (S + tsizes l + s) r))"
    unfolding used by auto
  then show ?thesis using fit(4) unfolding live_regions_def
    by (intro exI [of _ m]) (force simp: used m_def)
qed

lemma live_remove:
  assumes tok: "tiles_ok (l @ Used n # r)"
  shows "live_regions S (free_tile l n r) = live_regions S (l @ Used n # r) - {(S + tsizes l + 8, n - 8)}"
proof -
  have "used_at S (free_tile l n r) = used_at S l @ used_at (S + tsizes l + n) r"
    using free_tile_sums tok by (simp add: tiles_ok_def)
  moreover have "S + tsizes l \<notin> fst ` (set (used_at S l) \<union> set (used_at (S + tsizes l + n) r))"
    using used_at_distinct [OF tok, of S] by auto
  ultimately show ?thesis unfolding live_regions_def by force
qed

text \<open>What \<open>pvPortMalloc\<close> does to the tiles and to the regions: the first fit, or nothing.\<close>

lemma pvPortMalloc_live:
  assumes ok: "heap_ok h S ts" and n: "n < w32" and tm: "tile_malloc n ts = (ts', q)"
  obtains h' where "pvPortMalloc n h = Some (h', result_addr S q)" and "heap_ok h' S ts'" and "pxEnd h' = pxEnd h"
    and "if q = None then ts' = ts \<and> result_addr S q = 0
      else result_addr S q \<noteq> 0 \<and> (\<exists>s \<ge> n. live_regions S ts' = insert (result_addr S q, s) (live_regions S ts) \<and>
        (result_addr S q, s) \<notin> live_regions S ts)"
proof -
  obtain h' where h': "pvPortMalloc n h = Some (h', result_addr S q)" "heap_ok h' S ts'" "pxEnd h' = pxEnd h"
    using pvPortMalloc_ok [OF ok n tm] by blast
  have "if q = None then ts' = ts \<and> result_addr S q = 0
    else result_addr S q \<noteq> 0 \<and> (\<exists>s \<ge> n. live_regions S ts' = insert (result_addr S q, s) (live_regions S ts) \<and>
      (result_addr S q, s) \<notin> live_regions S ts)"
  proof (cases q)
    case None
    with tm show ?thesis
      by (auto simp: tile_malloc_def result_addr_def split: if_splits option.splits)
  next
    case (Some off)
    with tm obtain l s r where f: "first_fit (wanted n) ts = Some (l, s, r)" "wanted n \<noteq> 0"
      "ts' = take_tile (wanted n) l s r" "off = tsizes l"
      by (auto simp: tile_malloc_def split: if_splits option.splits)
    note ff = first_fit_Some [OF f(1)]
    have "tiles_ok (l @ Free s # r)" using ok ff by (simp add: heap_ok_def)
    with live_insert [of l s r "wanted n" S] wanted_facts [of n] f(2) ff
    obtain m where m: "wanted n \<le> m" "live_regions S ts' = insert (S + off + 8, m - 8) (live_regions S ts)"
      "(S + off + 8, m - 8) \<notin> live_regions S ts"
      unfolding f(3,4) by (metis neq0_conv)
    moreover have "n \<le> m - 8" using m(1) wanted_facts [of n] f(2) by auto
    ultimately show ?thesis using Some by (auto simp: result_addr_def)
  qed
  then show ?thesis by (rule that [OF h'])
qed

interpretation heap4: allocator "\<lambda>h ts. heap_ok h S ts \<and> pxEnd h = E" "live_regions S" pvPortMalloc vPortFree w32
  for S E
proof
  fix h and ts :: "tile list" and n
  assume ok: "heap_ok h S ts \<and> pxEnd h = E" and n: "n < w32"
  obtain ts' q where tm: "tile_malloc n ts = (ts', q)" by force
  obtain h' where h': "pvPortMalloc n h = Some (h', result_addr S q)" "heap_ok h' S ts'" "pxEnd h' = pxEnd h"
    and l: "if q = None then ts' = ts \<and> result_addr S q = 0
      else result_addr S q \<noteq> 0 \<and> (\<exists>s \<ge> n. live_regions S ts' = insert (result_addr S q, s) (live_regions S ts) \<and>
        (result_addr S q, s) \<notin> live_regions S ts)"
    by (rule pvPortMalloc_live [OF conjunct1 [OF ok] n tm])
  show "\<exists>h' p ts'. pvPortMalloc n h = Some (h', p) \<and> (heap_ok h' S ts' \<and> pxEnd h' = E) \<and>
    (if p = 0 then live_regions S ts' = live_regions S ts
     else \<exists>s \<ge> n. live_regions S ts' = insert (p, s) (live_regions S ts) \<and> (p, s) \<notin> live_regions S ts)"
    by (intro exI [of _ h'] exI [of _ "result_addr S q"] exI [of _ ts'])
      (use h' l ok in \<open>auto split: if_splits\<close>)
next
  fix h and ts :: "tile list" and p s
  assume ok: "heap_ok h S ts \<and> pxEnd h = E" and "(p, s) \<in> live_regions S ts"
  then obtain b n where b: "(b, n) \<in> set (used_at S ts)" "p = b + 8" "s = n - 8"
    by (auto simp: live_regions_def)
  then obtain l r where ts: "ts = l @ Used n # r" "b = S + tsizes l" using used_at_split by blast
  note ok' = conjunct1 [OF ok, unfolded ts(1)]
  have "tiles_ok (l @ Used n # r)" using ok' by (simp add: heap_ok_def)
  from live_remove [OF this, of S] vPortFree_ok [OF ok'] b ts ok
  show "\<exists>h' ts'. vPortFree p h = Some h' \<and> (heap_ok h' S ts' \<and> pxEnd h' = E) \<and>
      live_regions S ts' = live_regions S ts - {(p, s)}"
    by metis
next
  fix h and ts :: "tile list" and x y
  assume ok: "heap_ok h S ts \<and> pxEnd h = E" and x: "x \<in> live_regions S ts" and y: "y \<in> live_regions S ts"
    and "x \<noteq> y"
  have "\<forall>t \<in> set ts. 0 < tsize t" using ok by (auto simp: heap_ok_def tiles_ok_def)
  from blocks_in_apart [OF used_at_blocks [OF this, of S]] x y \<open>x \<noteq> y\<close>
  show "apart x y" by (fastforce simp: live_regions_def apart_def)
qed

section \<open>Properties\<close>

text \<open>A small heap of 128 bytes, not yet initialised, for the witnesses.\<close>

definition sample_heap :: heap where
  "sample_heap =
     \<lparr>ucHeap = 4099, configTOTAL_HEAP_SIZE = 128, xStart = 64,
      mem = (\<lambda>_. \<lparr>pxNextFreeBlock = 0, xBlockSize = 0\<rparr>), payload = (\<lambda>_. 7), pxEnd = 0,
      xFreeBytesRemaining = 0, xMinimumEverFreeBytesRemaining = 0,
      xNumberOfSuccessfulAllocations = 0, xNumberOfSuccessfulFrees = 0\<rparr>"

lemma sample_heap_fresh: "heap_fresh sample_heap"
  by (simp add: heap_fresh_def sample_heap_def w32_value)

lemma sample_heap_ok: "heap_ok (prvHeapInit sample_heap) 4104 [Free 112]"
  using prvHeapInit_ok [OF sample_heap_fresh]
  by (simp add: heap_base_def heap_top_def sample_heap_def)

text \<open>C4: \<open>pvPortMalloc\<close> implements first fit on the tiled heap: with the invariant and a 32-bit
  request it always returns (no assertion fires, the search ends), hands out exactly the
  lowest free block of adequate size, splits it when the rest is worth a block, returns null
  exactly when the abstract search finds nothing, and keeps the invariant.\<close>

theorem pvPortMalloc_refines:
  assumes "heap_ok h S ts" and "n < w32"
  shows "\<exists>h'. pvPortMalloc n h = Some (h', result_addr S (snd (tile_malloc n ts))) \<and>
    heap_ok h' S (fst (tile_malloc n ts)) \<and> payload h' = payload h \<and> pxEnd h' = pxEnd h"
  by (rule pvPortMalloc_ok [OF assms]) simp

theorem pvPortMalloc_refines_witness:
  "\<exists>h'. pvPortMalloc 20 (prvHeapInit sample_heap) = Some (h', 4112) \<and>
    heap_ok h' 4104 [Used 32, Free 80] \<and> payload h' = payload (prvHeapInit sample_heap) \<and>
    pxEnd h' = pxEnd (prvHeapInit sample_heap)"
  using pvPortMalloc_refines [OF sample_heap_ok, of 20]
  by (simp add: w32_value tile_malloc_def wanted_def take_tile_def result_addr_def)

text \<open>C5: \<open>vPortFree\<close> of a block in use never fails: the block becomes free and is merged with
  its free neighbours on both sides, the other blocks keep their place and size.\<close>

theorem vPortFree_refines:
  assumes "heap_ok h S (l @ Used n # r)"
  shows "\<exists>h'. vPortFree (S + tsizes l + 8) h = Some h' \<and> heap_ok h' S (free_tile l n r) \<and>
    payload h' = payload h \<and> pxEnd h' = pxEnd h"
  by (rule vPortFree_ok [OF assms])

theorem vPortFree_refines_witness:
  "\<exists>h h'. vPortFree 4112 h = Some h' \<and> heap_ok h' 4104 [Free 112] \<and> payload h' = payload h \<and>
    pxEnd h' = pxEnd h"
proof -
  obtain h where "heap_ok h 4104 [Used 32, Free 80]"
    using pvPortMalloc_ok [OF sample_heap_ok, of 20 "[Used 32, Free 80]" "Some 0"]
    by (auto simp: w32_value tile_malloc_def wanted_def take_tile_def)
  then have "heap_ok h 4104 ([] @ Used 32 # [Free 80])" by simp
  from vPortFree_refines [OF this] show ?thesis by (auto simp: free_tile_def join_tile_def)
qed

text \<open>A block that was just allocated and is freed at once leaves the heap as it was: the
  split is undone by the merge.\<close>

theorem malloc_free_roundtrip:
  assumes ok: "heap_ok h S ts" and n: "n < w32" and p: "pvPortMalloc n h = Some (h1, p)" "p \<noteq> 0"
  shows "\<exists>h2. vPortFree p h1 = Some h2 \<and> heap_ok h2 S ts"
proof -
  obtain ts' q where tm: "tile_malloc n ts = (ts', q)" by force
  with pvPortMalloc_ok [OF ok n tm] p have h1: "heap_ok h1 S ts'" and q: "p = result_addr S q" by auto
  then obtain off where off: "q = Some off" using p(2) by (auto simp: result_addr_def split: option.splits)
  with tm obtain l s r where f: "first_fit (wanted n) ts = Some (l, s, r)" "wanted n \<noteq> 0"
    "ts' = take_tile (wanted n) l s r" "off = tsizes l"
    by (auto simp: tile_malloc_def split: if_splits option.splits)
  have ts: "ts = l @ Free s # r" and le: "wanted n \<le> s" using first_fit_Some [OF f(1)] by auto
  have nf: "\<not> ends_free l" "\<not> starts_free r" using free_tile_facts [OF ok [unfolded ts] refl] by auto
  define m r' where "m = (if s - wanted n > 16 then wanted n else s)"
    and "r' = (if s - wanted n > 16 then Free (s - wanted n) # r else r)"
  have ts': "ts' = l @ Used m # r'" by (auto simp: f(3) take_tile_def m_def r'_def)
  have "free_tile l m r' = ts" using nf le by (auto simp: free_tile_simps m_def r'_def ts)
  with vPortFree_ok [OF h1 [unfolded ts']] q off f(4) show ?thesis by (auto simp: result_addr_def)
qed

theorem malloc_free_roundtrip_witness:
  "\<exists>h1 h2. pvPortMalloc 20 (prvHeapInit sample_heap) = Some (h1, 4112) \<and> vPortFree 4112 h1 = Some h2 \<and>
    heap_ok h2 4104 [Free 112]"
proof -
  obtain h1 where h1: "pvPortMalloc 20 (prvHeapInit sample_heap) = Some (h1, 4112)"
    using pvPortMalloc_ok [OF sample_heap_ok, of 20 "[Used 32, Free 80]" "Some 0"]
    by (auto simp: w32_value tile_malloc_def wanted_def take_tile_def result_addr_def)
  with malloc_free_roundtrip [OF sample_heap_ok _ h1] show ?thesis by (simp add: w32_value)
qed

lemma live_bounds:
  assumes "heap_ok h S ts" and "(p, s) \<in> live_regions S ts"
  shows "S + 8 \<le> p" and "p + s \<le> pxEnd h" and "8 dvd p"
proof -
  obtain b n where b: "(b, n) \<in> set (used_at S ts)" "p = b + 8" "s = n - 8"
    using assms(2) by (auto simp: live_regions_def)
  then obtain l r where ts: "ts = l @ Used n # r" "b = S + tsizes l" using used_at_split by blast
  note u = used_tile_facts [OF assms(1) [unfolded ts(1)] ts(2)]
  have "8 \<le> n" using u(3,9) by (auto elim: dvdE)
  with u b ts show "S + 8 \<le> p" and "p + s \<le> pxEnd h" and "8 dvd p" by auto
qed

text \<open>The bytes that belong to the block handed out at \<open>p\<close>, by its header.\<close>

definition within_block :: "heap \<Rightarrow> nat \<Rightarrow> nat \<Rightarrow> bool" where
  "within_block h p a \<longleftrightarrow>
     (let b = p - xHeapStructSize
      in heapBLOCK_IS_ALLOCATED b h \<and> p \<le> a \<and> a < b + (bsize h b AND (w32 - 1 - heapBLOCK_ALLOCATED_BITMASK)))"

lemma within_live:
  assumes ok: "heap_ok h S ts" and live: "(p, n) \<in> live_regions S ts"
  shows "within_block h p a \<longleftrightarrow> p \<le> a \<and> a < p + n"
proof -
  obtain b m where b: "(b, m) \<in> set (used_at S ts)" "p = b + 8" "n = m - 8"
    using live by (auto simp: live_regions_def)
  then obtain l r where ts: "ts = l @ Used m # r" "b = S + tsizes l" using used_at_split by blast
  note u = used_tile_facts [OF ok [unfolded ts(1)] ts(2)]
  have "8 \<le> m" using u(3,9) by (auto elim: dvdE)
  moreover have "heapBLOCK_IS_ALLOCATED b h" "bsize h b AND (w32 - 1 - heapBLOCK_ALLOCATED_BITMASK) = m"
    using u(2,4) top_bit_set [of m]
    by (simp_all only: heapBLOCK_IS_ALLOCATED_def mask_values simp_thms)
  ultimately show ?thesis using b by (simp add: within_block_def)
qed

lemma unused_single:
  "tiles_ok ts \<Longrightarrow> used_at S ts = [] \<Longrightarrow> ts = (if tsizes ts = 0 then [] else [Free (tsizes ts)])"
proof (cases ts)
  case (Cons t r)
  assume ok: "tiles_ok ts" and u: "used_at S ts = []"
  then obtain n where t: "t = Free n" using Cons by (cases t) auto
  have "\<not> starts_free r" and n: "0 < n" using ok Cons t by (auto simp: tiles_ok_def)
  moreover have "starts_free r" if "r \<noteq> []"
    using that u Cons t by (cases r; cases "hd r") (auto simp: starts_free_def)
  ultimately have "r = []" by blast
  with Cons t n show ?thesis by simp
qed simp

text \<open>C3: From a fresh heap, any script of allocations and releases of regions still owned runs
  without a failed assertion; at its end the regions owned are aligned, inside the heap array,
  pairwise disjoint and at least as long as requested, and when none is left the heap is one
  free block again: nothing leaks and no fragmentation remains.\<close>

theorem heap_script_safe:
  assumes fresh: "heap_fresh h" and sizes: "\<forall>n. Alloc n \<in> set xs \<longrightarrow> n < w32"
  shows "\<exists>h' own ts. run_requests pvPortMalloc vPortFree xs (prvHeapInit h) [] = Some (h', own) \<and>
    heap_ok h' (heap_base h) ts \<and> pxEnd h' = heap_top h \<and>
    (\<forall>i < length own. \<forall>j < length own. i \<noteq> j \<longrightarrow> apart (own ! i) (own ! j)) \<and>
    (\<forall>(p, n) \<in> set own. 8 dvd p \<and> ucHeap h + 8 \<le> p \<and> p + n \<le> ucHeap h + configTOTAL_HEAP_SIZE h) \<and>
    (own = [] \<longrightarrow> ts = [Free (heap_top h - heap_base h)])"
proof -
  let ?S = "heap_base h"
  note bt = heap_top_bounds [OF fresh] heap_base_bounds [of h]
  have start: "heap_ok (prvHeapInit h) ?S [Free (heap_top h - ?S)] \<and> pxEnd (prvHeapInit h) = heap_top h"
  proof
    show "heap_ok (prvHeapInit h) ?S [Free (heap_top h - ?S)]" by (rule prvHeapInit_ok [OF fresh])
    then show "pxEnd (prvHeapInit h) = heap_top h" using bt by (auto simp: heap_ok_def heap_layout_def)
  qed
  have "owns [] (live_regions ?S [Free (heap_top h - ?S)])" by (simp add: owns_def live_regions_def)
  from heap4.run_requests_safe [OF start this sizes]
  obtain h' own ts where run: "run_requests pvPortMalloc vPortFree xs (prvHeapInit h) [] = Some (h', own)"
    and ok: "heap_ok h' ?S ts" "pxEnd h' = heap_top h" and owns: "owns own (live_regions ?S ts)" by blast
  obtain rs where rs: "live_regions ?S ts = set rs" "distinct rs"
    "list_all2 (\<lambda>(p, n) (q, s). p = q \<and> n \<le> s) own rs" using owns by (auto simp: owns_def)
  have at: "fst (own ! i) = fst (rs ! i)" "snd (own ! i) \<le> snd (rs ! i)" "rs ! i \<in> live_regions ?S ts" "i < length rs"
    if "i < length own" for i
    using that list_all2_nthD [OF rs(3) that] list_all2_lengthD [OF rs(3)] rs(1) by (auto split: prod.splits)
  have "apart (own ! i) (own ! j)" if "i < length own" "j < length own" "i \<noteq> j" for i j
  proof -
    have "rs ! i \<noteq> rs ! j" using that at rs(2) by (simp add: nth_eq_iff_index_eq)
    with heap4.live_apart [of h' ?S ts "heap_top h" "rs ! i" "rs ! j"] ok at [OF that(1)] at [OF that(2)]
    show ?thesis by (auto simp: apart_def)
  qed
  moreover have "8 dvd p \<and> ucHeap h + 8 \<le> p \<and> p + n \<le> ucHeap h + configTOTAL_HEAP_SIZE h" if pn: "(p, n) \<in> set own" for p n
  proof -
    obtain i where i: "i < length own" "own ! i = (p, n)" using pn by (auto simp: in_set_conv_nth)
    have "(p, snd (rs ! i)) \<in> live_regions ?S ts" "n \<le> snd (rs ! i)" using at [OF i(1)] i(2) by (auto simp: prod_eq_iff)
    with live_bounds [OF ok(1) this(1)] ok(2) bt show ?thesis by auto
  qed
  moreover have "ts = [Free (heap_top h - ?S)]" if "own = []"
  proof -
    have "used_at ?S ts = []" using that rs by (simp add: live_regions_def)
    moreover have "tsizes ts = heap_top h - ?S" "tiles_ok ts" using ok by (auto simp: heap_ok_def heap_layout_def)
    ultimately show ?thesis using unused_single [of ts ?S] bt by (simp split: if_splits)
  qed
  ultimately show ?thesis using run ok by auto
qed

theorem heap_script_safe_witness:
  "\<exists>h' own ts. run_requests pvPortMalloc vPortFree [Alloc 20, Alloc 40, Release 1, Alloc 9, Release 0, Release 0]
      (prvHeapInit sample_heap) [] = Some (h', own) \<and>
    heap_ok h' (heap_base sample_heap) ts \<and> pxEnd h' = heap_top sample_heap \<and>
    (\<forall>i < length own. \<forall>j < length own. i \<noteq> j \<longrightarrow> apart (own ! i) (own ! j)) \<and>
    (\<forall>(p, n) \<in> set own. 8 dvd p \<and> ucHeap sample_heap + 8 \<le> p \<and>
      p + n \<le> ucHeap sample_heap + configTOTAL_HEAP_SIZE sample_heap) \<and>
    (own = [] \<longrightarrow> ts = [Free (heap_top sample_heap - heap_base sample_heap)])"
  by (rule heap_script_safe [OF sample_heap_fresh]) (auto simp: w32_value)

subsection \<open>Double free, pvPortCalloc and the statistics\<close>

lemma link_right_header:
  assumes "chain h it ys E" and "bsize h b = s" and "pxEnd h = E" and "E < w32"
    and "blocks_in (b + s) ys E" and "0 < s"
  shows "b + bsize (link_right it b h) b \<le> E"
  using link_right_chain(1) [OF assms] blocks_in_le by fastforce

text \<open>The header of the inserted block never carries the allocation bit afterwards.\<close>

lemma link_block_header:
  assumes ch: "chain h p (xs @ ys) E" and sz: "bsize h b = s" and e: "pxEnd h = E" and E: "E < w32"
    and s: "0 < s" and ys: "blocks_in (b + s) ys E" and it: "it = last_addr p xs" "it \<noteq> b"
  shows "b + bsize (link_block it b h) b \<le> E"
proof (cases "wadd it (bsize h it) = b")
  case True
  then have "bsize (link_block it b h) b = s"
    using it(2) sz by (simp add: link_block_def link_right_def Let_def)
  then show ?thesis using ys blocks_in_le by fastforce
next
  case False
  have "chain h it ys E" using ch it by (cases xs rule: rev_cases) (auto simp: chain_append)
  from link_right_header [OF this sz e E ys s] it(2) False
  show ?thesis by (simp add: link_block_def Let_def)
qed

text \<open>Freeing a block twice is caught: after a successful \<open>vPortFree\<close> the same pointer fails
  the allocation-bit assertion, whether or not the block was merged with its neighbours.\<close>

theorem double_free_detected:
  assumes ok: "heap_ok h S (l @ Used n # r)" and p: "p = S + tsizes l + 8"
    and freed: "vPortFree p h = Some h'"
  shows "vPortFree p h' = None"
proof -
  define b where "b = S + tsizes l"
  note u = used_tile_facts [OF ok b_def]
  have lay: "heap_layout h S (l @ Used n # r)" and tok: "tiles_ok (l @ Used n # r)"
    and links: "heap_links h S (l @ Used n # r)" using ok by (simp_all add: heap_ok_def)
  have pos: "\<forall>t \<in> set (l @ r). 0 < tsize t" using tok by (auto simp: tiles_ok_def)
  have pb: "p = b + 8" "wsub p 8 = b" using p u(3,8) lay by (simp_all add: b_def heap_layout_def)
  have free: "heapFREE_BLOCK b h = set_size b n h"
    using u(2,4) top_bit_set(2) [of n] by (simp only: heapFREE_BLOCK_def mask_values)
  define h1 where "h1 = (set_size b n h)\<lparr>xFreeBytesRemaining := wadd (xFreeBytesRemaining h) n\<rparr>"
  obtain h3 where ins: "prvInsertBlockIntoFreeList b h1 = Some h3" and h': "mem h' = mem h3"
    using freed pb free by (auto simp: vPortFree_def Let_def h1_def split: if_splits option.splits)
  have xs: "blocks_in S (free_at S l) b" using free_at_blocks [of l S] pos b_def by simp
  have "blocks_in (b + n) (free_at (b + n) r) (b + n + tsizes r)" using free_at_blocks [of r "b + n"] pos by simp
  then have ys: "blocks_in (b + n) (free_at (b + n) r) (pxEnd h)" using lay by (simp add: heap_layout_def b_def add.assoc)
  have ch: "chain h1 (xStart h) (free_at S l @ free_at (b + n) r) (pxEnd h)"
    unfolding h1_def by (rule freed_chain [OF ok b_def])
  let ?it = "last_addr (xStart h) (free_at S l)"
  have "find_prev h1 b (xStart h) = Some ?it"
  proof (rule find_prev_last [OF ch])
    show "\<forall>(a, s) \<in> set (free_at S l). a < b" using blocks_in_bound [OF xs] by fastforce
    show "case free_at (b + n) r of [] \<Rightarrow> b \<le> pxEnd h | (c, v) # zs \<Rightarrow> b \<le> c"
      using ys blocks_in_le [OF ys] by (auto split: list.splits)
  qed
  then have h3: "h3 = link_block ?it b h1" using ins by (simp add: prvInsertBlockIntoFreeList_def h1_def)
  have "?it \<in> set (xStart h # map fst (free_at S l))" by (rule last_in_set) simp
  moreover have "b \<notin> set (xStart h # map fst (free_at S l))" using u(5,7) by (simp add: image_Un)
  ultimately have itb: "?it \<noteq> b" by metis
  have "pxEnd h < w32" and top: "pxEnd h - b < 2 ^ 31" using lay by (auto simp: heap_layout_def b_def)
  then have "b + bsize h3 b \<le> pxEnd h"
    unfolding h3 by (intro link_block_header [OF ch _ _ _ u(3) ys refl itb]) (simp_all add: h1_def)
  then have "bsize h' b < 2 ^ 31" using top h' by simp
  then show ?thesis using pb top_bit_clear
    by (simp add: vPortFree_def Let_def heapBLOCK_IS_ALLOCATED_def mask_values)
qed

theorem double_free_detected_witness:
  "\<exists>h h'. vPortFree 4112 h = Some h' \<and> vPortFree 4112 h' = None"
proof -
  obtain h where "heap_ok h 4104 [Used 32, Free 80]"
    using pvPortMalloc_ok [OF sample_heap_ok, of 20 "[Used 32, Free 80]" "Some 0"]
    by (auto simp: w32_value tile_malloc_def wanted_def take_tile_def)
  then have ok: "heap_ok h 4104 ([] @ Used 32 # [Free 80])" by simp
  obtain h' where h': "vPortFree 4112 h = Some h'" using vPortFree_ok [OF ok] by auto
  from double_free_detected [OF ok _ h'] h' show ?thesis by auto
qed

lemma heapMULTIPLY_overflow:
  assumes "b < w32"
  shows "heapMULTIPLY_WILL_OVERFLOW a b \<longleftrightarrow> w32 \<le> a * b"
proof (cases "a = 0")
  case False
  then have "(w32 - 1) div a < b \<longleftrightarrow> w32 - 1 < b * a" by (simp add: div_less_iff_less_mult)
  with False show ?thesis by (auto simp: heapMULTIPLY_WILL_OVERFLOW_def heapSIZE_MAX_def mult.commute w32_value)
qed (simp add: heapMULTIPLY_WILL_OVERFLOW_def w32_value)

text \<open>\<open>pvPortCalloc\<close> refuses a product that does not fit 32 bits and leaves the heap alone;
  otherwise it returns null or a new region of at least the product's size that is zero
  throughout, and it changes no byte outside that region.\<close>

theorem pvPortCalloc_correct:
  assumes ok: "heap_ok h S ts" and n: "xNum < w32" "xSize < w32"
  shows "if w32 \<le> xNum * xSize then pvPortCalloc xNum xSize h = Some (h, 0)
    else \<exists>h' p ts'. pvPortCalloc xNum xSize h = Some (h', p) \<and> heap_ok h' S ts' \<and>
      (p \<noteq> 0 \<longrightarrow> (\<exists>s \<ge> xNum * xSize. live_regions S ts' = insert (p, s) (live_regions S ts) \<and>
        (p, s) \<notin> live_regions S ts)) \<and>
      (p = 0 \<longrightarrow> live_regions S ts' = live_regions S ts) \<and>
      (\<forall>a. payload h' a = (if p \<noteq> 0 \<and> p \<le> a \<and> a < p + xNum * xSize then 0 else payload h a))"
proof (cases "w32 \<le> xNum * xSize")
  case True
  then show ?thesis using heapMULTIPLY_overflow [OF n(2)] by (simp add: pvPortCalloc_def)
next
  case False
  then have m: "wmul xNum xSize = xNum * xSize" "xNum * xSize < w32" by simp_all
  obtain ts1 q where tm: "tile_malloc (xNum * xSize) ts = (ts1, q)" by force
  obtain h1 where h1: "pvPortMalloc (xNum * xSize) h = Some (h1, result_addr S q)" "payload h1 = payload h"
    using pvPortMalloc_ok [OF ok m(2) tm] by blast
  obtain ts' where ts': "heap_ok h1 S ts'" and live: "if result_addr S q = 0 then live_regions S ts' = live_regions S ts
      else \<exists>s \<ge> xNum * xSize. live_regions S ts' = insert (result_addr S q, s) (live_regions S ts) \<and>
        (result_addr S q, s) \<notin> live_regions S ts"
    using heap4.malloc_live [of h S ts "pxEnd h" "xNum * xSize"] ok m(2) h1(1) by auto
  define h' where "h' = (if result_addr S q \<noteq> 0
      then h1\<lparr>payload := (\<lambda>a. if result_addr S q \<le> a \<and> a < result_addr S q + xNum * xSize then 0 else payload h1 a)\<rparr>
      else h1)"
  have "pvPortCalloc xNum xSize h = Some (h', result_addr S q)"
    using False heapMULTIPLY_overflow [OF n(2)] m h1(1) by (simp add: pvPortCalloc_def h'_def)
  moreover have "heap_ok h' S ts'"
    using ts' heap_links_cong [of h' h1 S ts'] by (simp add: h'_def heap_ok_def heap_layout_def)
  ultimately show ?thesis
    using False live h1(2)
    by (intro if_not_P [THEN iffD2], simp)
      (auto intro!: exI [of _ h'] exI [of _ ts'] simp: h'_def)
qed

lemma stats_loop_chain:
  "chain h p fs e \<Longrightarrow> pxEnd h = e \<Longrightarrow> \<forall>x \<in> set fs. fst x \<noteq> e \<Longrightarrow> k + length fs < w32 \<Longrightarrow>
    stats_loop h (nxt h p) k mx mn =
      Some (k + length fs, fold (\<lambda>x m. max m (snd x)) fs mx, fold (\<lambda>x m. min m (snd x)) fs mn)"
proof (induction fs arbitrary: p k mx mn)
  case Nil
  then show ?case by (subst stats_loop.simps) simp
next
  case (Cons x fs)
  obtain a s where x: "x = (a, s)" by force
  have c: "nxt h p = a" "bsize h a = s" "chain h a fs e" using Cons.prems x by auto
  have mx: "max mx s = (if mx < s then s else mx)" and mn: "min mn s = (if s < mn then s else mn)" by auto
  define mx' mn' where "mx' = (if mx < s then s else mx)" and "mn' = (if s < mn then s else mn)"
  have "stats_loop h (nxt h a) (k + 1) mx' mn' =
      Some (k + 1 + length fs, fold (\<lambda>x m. max m (snd x)) fs mx', fold (\<lambda>x m. min m (snd x)) fs mn')"
    by (rule Cons.IH [OF c(3)]) (use Cons.prems in auto)
  moreover have "stats_loop h (nxt h p) k mx mn = stats_loop h (nxt h a) (k + 1) mx' mn'"
    using Cons.prems c x by (subst stats_loop.simps) (simp add: mx'_def mn'_def)
  ultimately show ?case using x mx mn by (simp add: mx'_def mn'_def)
qed

lemma free_at_length: "\<forall>t \<in> set ts. 0 < tsize t \<Longrightarrow> length (free_at p ts) \<le> tsizes ts"
  by (induction p ts rule: free_at.induct) (auto simp: Suc_le_eq add_less_le_mono)

lemma fold_max_image: "fold (\<lambda>x m. max m (snd x)) fs m = Max (insert m (snd ` set fs))"
  for m :: nat
proof (induction fs arbitrary: m)
  case (Cons x fs)
  have "Max (insert m (insert (snd x) A)) = Max (insert (max m (snd x)) A)" if "finite A" for A
    using that by (cases "A = {}") (simp_all add: max.assoc)
  with Cons show ?case by simp
qed simp

lemma fold_min_image: "fold (\<lambda>x m. min m (snd x)) fs m = Min (insert m (snd ` set fs))"
  for m :: nat
proof (induction fs arbitrary: m)
  case (Cons x fs)
  have "Min (insert m (insert (snd x) A)) = Min (insert (min m (snd x)) A)" if "finite A" for A
    using that by (cases "A = {}") (simp_all add: min.assoc)
  with Cons show ?case by simp
qed simp

text \<open>\<open>vPortGetHeapStats\<close> ends on every well-formed heap and reports the number of free
  blocks, the largest and the smallest of them and the number of free bytes.\<close>

theorem vPortGetHeapStats_correct:
  assumes ok: "heap_ok h S ts"
  shows "\<exists>st. vPortGetHeapStats h = Some st \<and> xNumberOfFreeBlocks st = length (free_at S ts) \<and>
    xAvailableHeapSpaceInBytes st = free_bytes ts \<and>
    xSizeOfLargestFreeBlockInBytes st = Max (insert 0 (snd ` set (free_at S ts))) \<and>
    xSizeOfSmallestFreeBlockInBytes st = Min (insert 4294967295 (snd ` set (free_at S ts))) \<and>
    statMinimumEverFreeBytesRemaining st \<le> free_bytes ts"
proof -
  let ?fs = "free_at S ts"
  have pos: "\<forall>t \<in> set ts. 0 < tsize t" using ok by (auto simp: heap_ok_def tiles_ok_def)
  have ch: "chain h (xStart h) ?fs (pxEnd h)" using ok by (simp add: heap_ok_def heap_links_def)
  have b: "blocks_in S ?fs (pxEnd h)" using free_at_blocks [OF pos, of S] ok by (simp add: heap_ok_def heap_layout_def)
  have ne: "\<forall>x \<in> set ?fs. fst x \<noteq> pxEnd h" using blocks_in_bound [OF b] by fastforce
  have len: "0 + length ?fs < w32"
    using free_at_length [OF pos, of S] ok by (simp add: heap_ok_def heap_layout_def w32_def)
  have first: "nxt h (xStart h) \<noteq> 0"
  proof (cases ?fs)
    case Nil
    with ch heap_ok_initialised [OF ok] show ?thesis by simp
  next
    case (Cons x fs)
    with ch b ok show ?thesis by (cases x) (auto simp: heap_ok_def heap_layout_def)
  qed
  show ?thesis
    using stats_loop_chain [OF ch refl ne len, of 0 4294967295] first ok
    by (simp add: vPortGetHeapStats_def Let_def fold_max_image fold_min_image heap_ok_def del: fold_simps)
qed

theorem vPortGetHeapStats_correct_witness:
  "\<exists>st. vPortGetHeapStats (prvHeapInit sample_heap) = Some st \<and> xNumberOfFreeBlocks st = 1 \<and>
    xAvailableHeapSpaceInBytes st = 112 \<and> xSizeOfLargestFreeBlockInBytes st = 112 \<and>
    xSizeOfSmallestFreeBlockInBytes st = 112 \<and> statMinimumEverFreeBytesRemaining st \<le> 112"
  using vPortGetHeapStats_correct [OF sample_heap_ok] by simp

theorem pvPortCalloc_correct_witness:
  "\<exists>h' p ts'. pvPortCalloc 3 4 (prvHeapInit sample_heap) = Some (h', p) \<and> heap_ok h' 4104 ts' \<and>
    (\<forall>a. payload h' a = (if p \<noteq> 0 \<and> p \<le> a \<and> a < p + 12 then 0 else payload (prvHeapInit sample_heap) a))"
  using pvPortCalloc_correct [OF sample_heap_ok, of 3 4] by (auto simp: w32_value)

end
