(* ===== verification/Kernel.thy ===== *)
theory Kernel
  imports Lists Heap4 "HOL-Library.Monad_Syntax"
begin

text \<open>
  The scheduler core of \<open>tasks.c\<close> (FreeRTOS kernel V10.5.1) in the configuration of
  \<open>FreeRTOSConfig.h\<close>: preemption without time slicing, generic task selection, 32-bit ticks.
  The kernel's lists are kept in the abstract list store of \<open>Lists\<close>, whose operations the
  pointer structure of \<open>list.c\<close> implements (\<open>Lists.list_ops_refine\<close>).  A task handle is the
  address of its control block, 0 is \<open>NULL\<close>.  An operation returns \<open>None\<close> where the code fails
  an assertion or follows a null pointer.
\<close>

section \<open>Kernel state\<close>

text \<open>
  The lists of \<open>tasks.c\<close>, and the event lists embedded in queues, event groups and so on,
  each named by the address of its owner.
\<close>

datatype klist =
    Ready nat | DelayedTaskList1 | DelayedTaskList2 | PendingReadyList
  | TasksWaitingTermination | SuspendedTaskList
  | WaitingToSend nat | WaitingToReceive nat | WaitingForBits nat

text \<open>The two list items of a task control block.\<close>

datatype kitem = StateItem nat | EventItem nat

fun owner :: "kitem \<Rightarrow> nat" where
  "owner (StateItem t) = t"
| "owner (EventItem t) = t"

datatype notify_state =
  taskNOT_WAITING_NOTIFICATION | taskWAITING_NOTIFICATION | taskNOTIFICATION_RECEIVED

record tcb_t =
  pxTopOfStack :: nat
  uxPriority :: nat
  pxStack :: nat
  pcTaskName :: "char list"
  pvThreadLocalStoragePointers :: "nat \<Rightarrow> nat"
  ulNotifiedValue :: "nat \<Rightarrow> u32"
  ucNotifyState :: "nat \<Rightarrow> notify_state"

text \<open>
  The static variables of \<open>tasks.c\<close>.  \<open>kheap\<close> is the state of \<open>heap_4.c\<close>, \<open>pendsv\<close> the pending
  bit of the PendSV exception, which \<open>portYIELD\<close> sets and the context switch clears, and
  \<open>stack_mem\<close> the stack words by address.
\<close>

record kernel =
  lists :: "(klist, kitem) astore"
  tcb :: "nat \<Rightarrow> tcb_t"
  pxCurrentTCB :: nat
  pxDelayedTaskList :: klist
  pxOverflowDelayedTaskList :: klist
  uxDeletedTasksWaitingCleanUp :: u32
  uxCurrentNumberOfTasks :: u32
  xTickCount :: u32
  uxTopReadyPriority :: nat
  xSchedulerRunning :: bool
  xPendedTicks :: u32
  xYieldPending :: bool
  xNumOfOverflows :: u32
  uxTaskNumber :: u32
  xNextTaskUnblockTime :: u32
  uxSchedulerSuspended :: u32
  xIdleTaskHandle :: nat
  pendsv :: bool
  kheap :: heap
  stack_mem :: "nat \<Rightarrow> u32"

definition configMAX_PRIORITIES :: nat where
  "configMAX_PRIORITIES = 5"

definition portYIELD :: "'a kernel_scheme \<Rightarrow> 'a kernel_scheme" where
  "portYIELD s = s\<lparr>pendsv := True\<rparr>"

text \<open>\<open>configASSERT\<close> and a dereference that must not be of \<open>NULL\<close>.\<close>

definition configASSERT :: "bool \<Rightarrow> unit option" where
  "configASSERT b = (if b then Some () else None)"

section \<open>List accesses\<close>

definition items :: "'a kernel_scheme \<Rightarrow> klist \<Rightarrow> kitem list" where
  "items s l = alist (lists s) l"

definition listLIST_ITEM_CONTAINER :: "kitem \<Rightarrow> 'a kernel_scheme \<Rightarrow> klist option" where
  "listLIST_ITEM_CONTAINER i s = acont (lists s) i"

definition listGET_LIST_ITEM_VALUE :: "kitem \<Rightarrow> 'a kernel_scheme \<Rightarrow> u32" where
  "listGET_LIST_ITEM_VALUE i s = aval (lists s) i"

definition set_item_value :: "kitem \<Rightarrow> u32 \<Rightarrow> 'a kernel_scheme \<Rightarrow> 'a kernel_scheme" where
  "set_item_value i v s = s\<lparr>lists := a_set_value i v (lists s)\<rparr>"

definition insert_end :: "klist \<Rightarrow> kitem \<Rightarrow> 'a kernel_scheme \<Rightarrow> 'a kernel_scheme" where
  "insert_end l i s = s\<lparr>lists := a_insert_end l i (lists s)\<rparr>"

definition insert_sorted :: "klist \<Rightarrow> kitem \<Rightarrow> 'a kernel_scheme \<Rightarrow> 'a kernel_scheme" where
  "insert_sorted l i s = s\<lparr>lists := a_insert l i (lists s)\<rparr>"

definition listREMOVE_ITEM :: "kitem \<Rightarrow> 'a kernel_scheme \<Rightarrow> 'a kernel_scheme option" where
  "listREMOVE_ITEM i s =
     (if acont (lists s) i = None then None else Some (s\<lparr>lists := a_remove i (lists s)\<rparr>))"

definition listGET_OWNER_OF_HEAD_ENTRY :: "klist \<Rightarrow> 'a kernel_scheme \<Rightarrow> nat option" where
  "listGET_OWNER_OF_HEAD_ENTRY l s =
     (case items s l of [] \<Rightarrow> None | i # is \<Rightarrow> Some (owner i))"

section \<open>Ready lists, delayed lists\<close>

definition prvGetTCBFromHandle :: "nat \<Rightarrow> 'a kernel_scheme \<Rightarrow> nat" where
  "prvGetTCBFromHandle h s = (if h = 0 then pxCurrentTCB s else h)"

definition taskRECORD_READY_PRIORITY :: "nat \<Rightarrow> 'a kernel_scheme \<Rightarrow> 'a kernel_scheme" where
  "taskRECORD_READY_PRIORITY p s =
     (if p > uxTopReadyPriority s then s\<lparr>uxTopReadyPriority := p\<rparr> else s)"

definition prvAddTaskToReadyList :: "nat \<Rightarrow> 'a kernel_scheme \<Rightarrow> 'a kernel_scheme" where
  "prvAddTaskToReadyList t s =
     (let s = taskRECORD_READY_PRIORITY (uxPriority (tcb s t)) s
      in insert_end (Ready (uxPriority (tcb s t))) (StateItem t) s)"

definition prvResetNextTaskUnblockTime :: "'a kernel_scheme \<Rightarrow> 'a kernel_scheme" where
  "prvResetNextTaskUnblockTime s =
     (case items s (pxDelayedTaskList s) of
        [] \<Rightarrow> s\<lparr>xNextTaskUnblockTime := portMAX_DELAY\<rparr>
      | i # is \<Rightarrow> s\<lparr>xNextTaskUnblockTime := listGET_LIST_ITEM_VALUE i s\<rparr>)"

definition taskSWITCH_DELAYED_LISTS :: "'a kernel_scheme \<Rightarrow> 'a kernel_scheme option" where
  "taskSWITCH_DELAYED_LISTS s =
     do {
       configASSERT (items s (pxDelayedTaskList s) = []);
       let s = s\<lparr>pxDelayedTaskList := pxOverflowDelayedTaskList s,
                 pxOverflowDelayedTaskList := pxDelayedTaskList s\<rparr>;
       let s = s\<lparr>xNumOfOverflows := xNumOfOverflows s + 1\<rparr>;
       Some (prvResetNextTaskUnblockTime s)
     }"

definition prvAddCurrentTaskToDelayedList ::
  "u32 \<Rightarrow> bool \<Rightarrow> 'a kernel_scheme \<Rightarrow> 'a kernel_scheme option" where
  "prvAddCurrentTaskToDelayedList xTicksToWait xCanBlockIndefinitely s =
     do {
       let xConstTickCount = xTickCount s;
       let it = StateItem (pxCurrentTCB s);
       s \<leftarrow> listREMOVE_ITEM it s;
       if xTicksToWait = portMAX_DELAY \<and> xCanBlockIndefinitely
       then Some (insert_end SuspendedTaskList it s)
       else do {
         let xTimeToWake = xConstTickCount + xTicksToWait;
         let s = set_item_value it xTimeToWake s;
         if xTimeToWake < xConstTickCount
         then Some (insert_sorted (pxOverflowDelayedTaskList s) it s)
         else do {
           let s = insert_sorted (pxDelayedTaskList s) it s;
           Some (if xTimeToWake < xNextTaskUnblockTime s
                 then s\<lparr>xNextTaskUnblockTime := xTimeToWake\<rparr> else s)
         }
       }
     }"

section \<open>The tick and the context switch\<close>

text \<open>
  The \<open>for(;;)\<close> of \<open>xTaskIncrementTick\<close> that wakes the tasks whose time has come; the second
  component is \<open>xSwitchRequired\<close>.
\<close>

partial_function (option) wake_tasks ::
  "bool \<Rightarrow> 'a kernel_scheme \<Rightarrow> ('a kernel_scheme \<times> bool) option" where
  "wake_tasks xSwitchRequired s =
     (case items s (pxDelayedTaskList s) of
        [] \<Rightarrow> Some (s\<lparr>xNextTaskUnblockTime := portMAX_DELAY\<rparr>, xSwitchRequired)
      | i # is \<Rightarrow>
          (let t = owner i;
               xItemValue = listGET_LIST_ITEM_VALUE (StateItem t) s in
           if xTickCount s < xItemValue
           then Some (s\<lparr>xNextTaskUnblockTime := xItemValue\<rparr>, xSwitchRequired)
           else do {
             s \<leftarrow> listREMOVE_ITEM (StateItem t) s;
             s \<leftarrow> (if listLIST_ITEM_CONTAINER (EventItem t) s \<noteq> None
                   then listREMOVE_ITEM (EventItem t) s else Some s);
             let s = prvAddTaskToReadyList t s;
             wake_tasks (if uxPriority (tcb s t) > uxPriority (tcb s (pxCurrentTCB s))
                         then True else xSwitchRequired) s
           }))"

definition xTaskIncrementTick :: "'a kernel_scheme \<Rightarrow> ('a kernel_scheme \<times> bool) option" where
  "xTaskIncrementTick s =
     (if uxSchedulerSuspended s = 0 then
        do {
          let xConstTickCount = xTickCount s + 1;
          let s = s\<lparr>xTickCount := xConstTickCount\<rparr>;
          s \<leftarrow> (if xConstTickCount = 0 then taskSWITCH_DELAYED_LISTS s else Some s);
          (s, xSwitchRequired) \<leftarrow>
            (if xConstTickCount \<ge> xNextTaskUnblockTime s then wake_tasks False s else Some (s, False));
          Some (s, if xYieldPending s then True else xSwitchRequired)
        }
      else Some (s\<lparr>xPendedTicks := xPendedTicks s + 1\<rparr>, False))"

text \<open>The search of \<open>taskSELECT_HIGHEST_PRIORITY_TASK\<close>: \<open>None\<close> is the failed assertion at priority 0.\<close>

fun find_top :: "nat \<Rightarrow> 'a kernel_scheme \<Rightarrow> nat option" where
  "find_top p s =
     (if items s (Ready p) = []
      then (case p of 0 \<Rightarrow> None | Suc q \<Rightarrow> find_top q s)
      else Some p)"

definition taskSELECT_HIGHEST_PRIORITY_TASK :: "'a kernel_scheme \<Rightarrow> 'a kernel_scheme option" where
  "taskSELECT_HIGHEST_PRIORITY_TASK s =
     do {
       p \<leftarrow> find_top (uxTopReadyPriority s) s;
       let (a, i) = a_next_entry (Ready p) (lists s);
       let s = s\<lparr>lists := a\<rparr>;
       i \<leftarrow> i;
       Some (s\<lparr>pxCurrentTCB := owner i, uxTopReadyPriority := p\<rparr>)
     }"

definition vTaskSwitchContext :: "'a kernel_scheme \<Rightarrow> 'a kernel_scheme option" where
  "vTaskSwitchContext s =
     (if uxSchedulerSuspended s \<noteq> 0 then Some (s\<lparr>xYieldPending := True\<rparr>)
      else taskSELECT_HIGHEST_PRIORITY_TASK (s\<lparr>xYieldPending := False\<rparr>))"

section \<open>Suspending the scheduler\<close>

definition vTaskSuspendAll :: "'a kernel_scheme \<Rightarrow> 'a kernel_scheme" where
  "vTaskSuspendAll s = s\<lparr>uxSchedulerSuspended := uxSchedulerSuspended s + 1\<rparr>"

text \<open>The loop of \<open>xTaskResumeAll\<close> over the pending ready list; the flag is \<open>pxTCB != NULL\<close>.\<close>

partial_function (option) ready_pending ::
  "bool \<Rightarrow> 'a kernel_scheme \<Rightarrow> ('a kernel_scheme \<times> bool) option" where
  "ready_pending moved s =
     (case items s PendingReadyList of
        [] \<Rightarrow> Some (s, moved)
      | i # is \<Rightarrow>
          (let t = owner i in
           do {
             s \<leftarrow> listREMOVE_ITEM (EventItem t) s;
             s \<leftarrow> listREMOVE_ITEM (StateItem t) s;
             let s = prvAddTaskToReadyList t s;
             ready_pending True
               (if uxPriority (tcb s t) \<ge> uxPriority (tcb s (pxCurrentTCB s))
                then s\<lparr>xYieldPending := True\<rparr> else s)
           }))"

text \<open>The \<open>do\<close> loop of \<open>xTaskResumeAll\<close> that replays the pended ticks.\<close>

primrec replay_ticks :: "nat \<Rightarrow> 'a kernel_scheme \<Rightarrow> 'a kernel_scheme option" where
  "replay_ticks 0 s = Some s"
| "replay_ticks (Suc n) s =
     do {
       (s, switch) \<leftarrow> xTaskIncrementTick s;
       replay_ticks n (if switch then s\<lparr>xYieldPending := True\<rparr> else s)
     }"

definition xTaskResumeAll :: "'a kernel_scheme \<Rightarrow> ('a kernel_scheme \<times> bool) option" where
  "xTaskResumeAll s =
     do {
       configASSERT (uxSchedulerSuspended s \<noteq> 0);
       let s = s\<lparr>uxSchedulerSuspended := uxSchedulerSuspended s - 1\<rparr>;
       if uxSchedulerSuspended s = 0 \<and> uxCurrentNumberOfTasks s > 0
       then do {
         (s, moved) \<leftarrow> ready_pending False s;
         let s = (if moved then prvResetNextTaskUnblockTime s else s);
         s \<leftarrow> (if xPendedTicks s > 0
               then do {
                 s \<leftarrow> replay_ticks (unat (xPendedTicks s)) s;
                 Some (s\<lparr>xPendedTicks := 0\<rparr>)
               }
               else Some s);
         if xYieldPending s then Some (portYIELD s, True) else Some (s, False)
       }
       else Some (s, False)
     }"

definition xTaskCatchUpTicks :: "u32 \<Rightarrow> 'a kernel_scheme \<Rightarrow> ('a kernel_scheme \<times> bool) option" where
  "xTaskCatchUpTicks xTicksToCatchUp s =
     do {
       configASSERT (uxSchedulerSuspended s = 0);
       let s = vTaskSuspendAll s;
       let s = s\<lparr>xPendedTicks := xPendedTicks s + xTicksToCatchUp\<rparr>;
       xTaskResumeAll s
     }"

section \<open>Event lists\<close>

definition taskEVENT_LIST_ITEM_VALUE_IN_USE :: u32 where
  "taskEVENT_LIST_ITEM_VALUE_IN_USE = 0x80000000"

definition vTaskPlaceOnEventList ::
  "klist \<Rightarrow> u32 \<Rightarrow> 'a kernel_scheme \<Rightarrow> 'a kernel_scheme option" where
  "vTaskPlaceOnEventList pxEventList xTicksToWait s =
     prvAddCurrentTaskToDelayedList xTicksToWait True
       (insert_sorted pxEventList (EventItem (pxCurrentTCB s)) s)"

definition vTaskPlaceOnUnorderedEventList ::
  "klist \<Rightarrow> u32 \<Rightarrow> u32 \<Rightarrow> 'a kernel_scheme \<Rightarrow> 'a kernel_scheme option" where
  "vTaskPlaceOnUnorderedEventList pxEventList xValue xTicksToWait s =
     do {
       configASSERT (uxSchedulerSuspended s \<noteq> 0);
       let it = EventItem (pxCurrentTCB s);
       let s = set_item_value it (xValue OR taskEVENT_LIST_ITEM_VALUE_IN_USE) s;
       prvAddCurrentTaskToDelayedList xTicksToWait True (insert_end pxEventList it s)
     }"

definition vTaskPlaceOnEventListRestricted ::
  "klist \<Rightarrow> u32 \<Rightarrow> bool \<Rightarrow> 'a kernel_scheme \<Rightarrow> 'a kernel_scheme option" where
  "vTaskPlaceOnEventListRestricted pxEventList xTicksToWait xWaitIndefinitely s =
     (let s = insert_end pxEventList (EventItem (pxCurrentTCB s)) s;
          xTicksToWait = (if xWaitIndefinitely then portMAX_DELAY else xTicksToWait)
      in prvAddCurrentTaskToDelayedList xTicksToWait xWaitIndefinitely s)"

definition xTaskRemoveFromEventList ::
  "klist \<Rightarrow> 'a kernel_scheme \<Rightarrow> ('a kernel_scheme \<times> bool) option" where
  "xTaskRemoveFromEventList pxEventList s =
     do {
       t \<leftarrow> listGET_OWNER_OF_HEAD_ENTRY pxEventList s;
       configASSERT (t \<noteq> 0);
       s \<leftarrow> listREMOVE_ITEM (EventItem t) s;
       s \<leftarrow> (if uxSchedulerSuspended s = 0
             then do {
               s \<leftarrow> listREMOVE_ITEM (StateItem t) s;
               Some (prvAddTaskToReadyList t s)
             }
             else Some (insert_end PendingReadyList (EventItem t) s));
       if uxPriority (tcb s t) > uxPriority (tcb s (pxCurrentTCB s))
       then Some (s\<lparr>xYieldPending := True\<rparr>, True)
       else Some (s, False)
     }"

definition vTaskRemoveFromUnorderedEventList ::
  "nat \<Rightarrow> u32 \<Rightarrow> 'a kernel_scheme \<Rightarrow> 'a kernel_scheme option" where
  "vTaskRemoveFromUnorderedEventList t xValue s =
     do {
       configASSERT (uxSchedulerSuspended s \<noteq> 0);
       let s = set_item_value (EventItem t) (xValue OR taskEVENT_LIST_ITEM_VALUE_IN_USE) s;
       configASSERT (t \<noteq> 0);
       s \<leftarrow> listREMOVE_ITEM (EventItem t) s;
       s \<leftarrow> listREMOVE_ITEM (StateItem t) s;
       let s = prvAddTaskToReadyList t s;
       Some (if uxPriority (tcb s t) > uxPriority (tcb s (pxCurrentTCB s))
             then s\<lparr>xYieldPending := True\<rparr> else s)
     }"

definition uxTaskResetEventItemValue :: "'a kernel_scheme \<Rightarrow> 'a kernel_scheme \<times> u32" where
  "uxTaskResetEventItemValue s =
     (let it = EventItem (pxCurrentTCB s)
      in (set_item_value it
            (of_nat configMAX_PRIORITIES - of_nat (uxPriority (tcb s (pxCurrentTCB s)))) s,
          listGET_LIST_ITEM_VALUE it s))"

definition vTaskMissedYield :: "'a kernel_scheme \<Rightarrow> 'a kernel_scheme" where
  "vTaskMissedYield s = s\<lparr>xYieldPending := True\<rparr>"

section \<open>Time-outs\<close>

record time_out =
  xOverflowCount :: u32
  xTimeOnEntering :: u32

definition vTaskInternalSetTimeOutState :: "'a kernel_scheme \<Rightarrow> time_out" where
  "vTaskInternalSetTimeOutState s =
     \<lparr>xOverflowCount = xNumOfOverflows s, xTimeOnEntering = xTickCount s\<rparr>"

text \<open>The result, the updated time-out and the updated \<open>*pxTicksToWait\<close>.\<close>

definition xTaskCheckForTimeOut ::
  "time_out \<Rightarrow> u32 \<Rightarrow> 'a kernel_scheme \<Rightarrow> bool \<times> time_out \<times> u32" where
  "xTaskCheckForTimeOut pxTimeOut xTicksToWait s =
     (let xConstTickCount = xTickCount s;
          xElapsedTime = xConstTickCount - xTimeOnEntering pxTimeOut in
      if xTicksToWait = portMAX_DELAY then (False, pxTimeOut, xTicksToWait)
      else if xNumOfOverflows s \<noteq> xOverflowCount pxTimeOut \<and> xConstTickCount \<ge> xTimeOnEntering pxTimeOut
      then (True, pxTimeOut, 0)
      else if xElapsedTime < xTicksToWait
      then (False, vTaskInternalSetTimeOutState s, xTicksToWait - xElapsedTime)
      else (True, pxTimeOut, 0))"

section \<open>List lemmas over containers\<close>

text \<open>
  The invariants speak of the container of each item: every list operation is a point update
  of the container map.
\<close>

lemma acont_insert_end [simp]: "acont (a_insert_end l i a) = (acont a)(i := Some l)"
  by (simp add: a_insert_end_def a_put_def split: option.splits)

lemma acont_insert [simp]: "acont (a_insert l i a) = (acont a)(i := Some l)"
  by (simp add: a_insert_def a_put_def Let_def)

lemma acont_remove [simp]: "acont (a_remove i a) = (acont a)(i := None)"
  by (auto simp: a_remove_def fun_eq_iff split: option.splits)

lemma acont_set_value [simp]: "acont (a_set_value i v a) = acont a"
  by (simp add: a_set_value_def)

lemma acont_next_entry [simp]: "acont (fst (a_next_entry l a)) = acont a"
  by (simp add: a_next_entry_def Let_def)

lemma aval_ops [simp]:
  "aval (a_insert_end l i a) = aval a" "aval (a_insert l i a) = aval a"
  "aval (a_remove i a) = aval a" "aval (a_set_value i v a) = (aval a)(i := v)"
  "aval (fst (a_next_entry l a)) = aval a"
  by (simp_all add: a_insert_end_def a_insert_def a_remove_def a_put_def a_set_value_def
      a_next_entry_def Let_def split: option.splits)

lemma alist_ops_other [simp]:
  "m \<noteq> l \<Longrightarrow> alist (a_insert_end l i a) m = alist a m"
  "m \<noteq> l \<Longrightarrow> alist (a_insert l i a) m = alist a m"
  "alist (a_set_value i v a) = alist a"
  "alist (fst (a_next_entry l a)) = alist a"
  by (simp_all add: a_insert_end_def a_insert_def a_put_def a_set_value_def
      a_next_entry_def Let_def split: option.splits)

lemma alist_remove [simp]:
  "alist (a_remove i a) m = (if acont a i = Some m then remove1 i (alist a m) else alist a m)"
  by (auto simp: a_remove_def split: option.splits)

lemma set_alist: "awf UNIV a \<Longrightarrow> i \<in> set (alist a l) \<longleftrightarrow> acont a i = Some l"
  by (rule awf_container [of UNIV]) auto

lemma alist_empty: "awf UNIV a \<Longrightarrow> alist a l = [] \<longleftrightarrow> (\<forall>i. acont a i \<noteq> Some l)"
  using set_alist [of a _ l] by (metis list.set_intros(1) list.set_cases neq_Nil_conv)

definition vsorted :: "('l, 'i) astore \<Rightarrow> 'l \<Rightarrow> bool" where
  "vsorted a l \<longleftrightarrow> sorted (map (aval a) (alist a l))"

lemma vsorted_remove [simp]: "vsorted a l \<Longrightarrow> vsorted (a_remove i a) l"
  by (simp add: vsorted_def sorted_map_remove1)

lemma vsorted_insert_end [simp]: "m \<noteq> l \<Longrightarrow> vsorted (a_insert_end l i a) m = vsorted a m"
  by (simp add: vsorted_def)

lemma vsorted_insert_other [simp]: "m \<noteq> l \<Longrightarrow> vsorted (a_insert l i a) m = vsorted a m"
  by (simp add: vsorted_def)

lemma vsorted_insert [simp]: "vsorted a l \<Longrightarrow> vsorted (a_insert l i a) l"
  using sorted_insert_split [of "aval a" "alist a l" i]
  by (simp add: vsorted_def a_insert_def a_put_def Let_def)

lemma vsorted_set_value [simp]:
  assumes "awf UNIV a" and "acont a i \<noteq> Some l"
  shows "vsorted (a_set_value i v a) l = vsorted a l"
proof -
  have "map ((aval a)(i := v)) (alist a l) = map (aval a) (alist a l)"
    using assms set_alist [of a i l] by auto
  then show ?thesis by (simp only: vsorted_def aval_ops alist_ops_other)
qed

lemma vsorted_hd:
  "vsorted a l \<Longrightarrow> alist a l = i # is \<Longrightarrow> j \<in> set (alist a l) \<Longrightarrow> aval a i \<le> aval a j"
  by (auto simp: vsorted_def)

lemma awf_UNIV_simps [simp]:
  "awf UNIV a \<Longrightarrow> awf UNIV (a_remove i a)"
  "awf UNIV a \<Longrightarrow> awf UNIV (a_set_value i v a)"
  "awf UNIV a \<Longrightarrow> acont a i = None \<Longrightarrow> awf UNIV (a_insert_end l i a)"
  "awf UNIV a \<Longrightarrow> acont a i = None \<Longrightarrow> awf UNIV (a_insert l i a)"
  "awf UNIV a \<Longrightarrow> awf UNIV (fst (a_next_entry l a))"
  by (auto intro: inv_intros)

section \<open>The invariant of the scheduler\<close>

definition blocked_list :: "klist \<Rightarrow> bool" where
  "blocked_list l \<longleftrightarrow> l = DelayedTaskList1 \<or> l = DelayedTaskList2 \<or> l = SuspendedTaskList"

fun event_list :: "klist \<Rightarrow> bool" where
  "event_list (WaitingToSend q) = True"
| "event_list (WaitingToReceive q) = True"
| "event_list (WaitingForBits q) = True"
| "event_list _ = False"

text \<open>
  Where the items of a task may be: its state item in the ready list of its priority, a
  delayed list, the suspended list or the list of deleted tasks; its event item in an event
  list only while the task is blocked, or in the pending ready list.
\<close>

definition places :: "'a kernel_scheme \<Rightarrow> bool" where
  "places s \<longleftrightarrow>
     (\<forall>t l. acont (lists s) (StateItem t) = Some l \<longrightarrow>
        t \<noteq> 0 \<and> uxPriority (tcb s t) < configMAX_PRIORITIES \<and>
        (l = Ready (uxPriority (tcb s t)) \<or> blocked_list l \<or> l = TasksWaitingTermination)) \<and>
     (\<forall>t l. acont (lists s) (EventItem t) = Some l \<longrightarrow>
        (\<exists>m. acont (lists s) (StateItem t) = Some m \<and>
           (event_list l \<and> blocked_list m \<or> l = PendingReadyList \<and> m \<noteq> TasksWaitingTermination)))"

text \<open>
  Wake-up times: after the current tick count in the delayed list, before it (so after the
  next overflow) in the overflow list; both lists sorted.  \<open>v\<close> is a lower bound of the times
  in the delayed list.
\<close>

definition delays :: "u32 \<Rightarrow> 'a kernel_scheme \<Rightarrow> bool" where
  "delays v s \<longleftrightarrow>
     (pxDelayedTaskList s = DelayedTaskList1 \<and> pxOverflowDelayedTaskList s = DelayedTaskList2 \<or>
      pxDelayedTaskList s = DelayedTaskList2 \<and> pxOverflowDelayedTaskList s = DelayedTaskList1) \<and>
     vsorted (lists s) (pxDelayedTaskList s) \<and> vsorted (lists s) (pxOverflowDelayedTaskList s) \<and>
     (\<forall>i. acont (lists s) i = Some (pxDelayedTaskList s) \<longrightarrow> v \<le> aval (lists s) i) \<and>
     (\<forall>i. acont (lists s) i = Some (pxOverflowDelayedTaskList s) \<longrightarrow> aval (lists s) i < xTickCount s)"

definition readies :: "'a kernel_scheme \<Rightarrow> bool" where
  "readies s \<longleftrightarrow>
     uxTopReadyPriority s < configMAX_PRIORITIES \<and>
     (\<forall>t p. acont (lists s) (StateItem t) = Some (Ready p) \<longrightarrow> p \<le> uxTopReadyPriority s)"

text \<open>
  \<open>kinv0\<close> is the part that holds inside the tick as well; \<open>kinv\<close> holds between operations.
\<close>

definition kinv0 :: "u32 \<Rightarrow> 'a kernel_scheme \<Rightarrow> bool" where
  "kinv0 v s \<longleftrightarrow>
     awf UNIV (lists s) \<and> places s \<and> delays v s \<and> readies s \<and>
     acont (lists s) (StateItem (pxCurrentTCB s)) \<noteq> None"

definition unblock_times :: "'a kernel_scheme \<Rightarrow> bool" where
  "unblock_times s \<longleftrightarrow>
     (\<forall>i. acont (lists s) i = Some (pxDelayedTaskList s) \<longrightarrow>
        xTickCount s < aval (lists s) i \<and> xNextTaskUnblockTime s \<le> aval (lists s) i)"

definition none_pending :: "'a kernel_scheme \<Rightarrow> bool" where
  "none_pending s \<longleftrightarrow>
     (uxSchedulerSuspended s = 0 \<longrightarrow> (\<forall>i. acont (lists s) i \<noteq> Some PendingReadyList))"

definition kinv :: "'a kernel_scheme \<Rightarrow> bool" where
  "kinv s \<longleftrightarrow> kinv0 0 s \<and> unblock_times s \<and> none_pending s"



section \<open>The operations as record updates\<close>

lemma prvAddTaskToReadyList_eq:
  "prvAddTaskToReadyList t s =
     s\<lparr>uxTopReadyPriority := max (uxTopReadyPriority s) (uxPriority (tcb s t)),
       lists := a_insert_end (Ready (uxPriority (tcb s t))) (StateItem t) (lists s)\<rparr>"
  by (simp add: prvAddTaskToReadyList_def taskRECORD_READY_PRIORITY_def insert_end_def Let_def)

lemma listREMOVE_ITEM_eq:
  "acont (lists s) i \<noteq> None \<Longrightarrow> listREMOVE_ITEM i s = Some (s\<lparr>lists := a_remove i (lists s)\<rparr>)"
  by (simp add: listREMOVE_ITEM_def)

lemmas klist_ops = insert_end_def insert_sorted_def set_item_value_def items_def
  listLIST_ITEM_CONTAINER_def listGET_LIST_ITEM_VALUE_def

text \<open>
  Unblocking a task, as the tick, the resumption of the scheduler and the event lists do it:
  both items leave their lists and the state item joins the ready list.
\<close>

definition unblock :: "nat \<Rightarrow> 'a kernel_scheme \<Rightarrow> 'a kernel_scheme" where
  "unblock t s =
     s\<lparr>uxTopReadyPriority := max (uxTopReadyPriority s) (uxPriority (tcb s t)),
       lists := a_insert_end (Ready (uxPriority (tcb s t))) (StateItem t)
                  (a_remove (StateItem t) (a_remove (EventItem t) (lists s)))\<rparr>"

lemma unblock_kinv0:
  assumes "kinv0 v s" and "acont (lists s) (StateItem t) \<noteq> None"
  shows "kinv0 v (unblock t s)"
proof -
  have wf: "awf UNIV (lists (unblock t s))"
    using assms by (simp add: kinv0_def unblock_def)
  have pl: "places (unblock t s)"
    using assms unfolding kinv0_def places_def unblock_def by (auto split: if_splits)
  have de: "delays v (unblock t s)"
    using assms unfolding kinv0_def delays_def unblock_def by auto
  have re: "readies (unblock t s)"
    using assms unfolding kinv0_def readies_def unblock_def places_def by (auto simp: le_max_iff_disj)
  show ?thesis
    using assms wf pl de re by (simp add: kinv0_def unblock_def)
qed

lemma a_remove_None: "acont a i = None \<Longrightarrow> a_remove i a = a"
  by (simp add: a_remove_def)

lemma a_remove_swap:
  assumes "acont a i \<noteq> acont a j" and "i \<noteq> j"
  shows "a_remove i (a_remove j a) = a_remove j (a_remove i a)"
proof (cases "acont a i = None \<or> acont a j = None")
  case True
  then show ?thesis by (auto simp: a_remove_None assms(2))
next
  case False
  then obtain l m where "acont a i = Some l" "acont a j = Some m" "l \<noteq> m" using assms by auto
  then show ?thesis using assms(2)
    by (simp add: a_remove_def fun_upd_twist)
qed


section \<open>The tick\<close>

lemma unblock_frame [simp]:
  "xTickCount (unblock t s) = xTickCount s" "tcb (unblock t s) = tcb s"
  "pxCurrentTCB (unblock t s) = pxCurrentTCB s"
  "pxDelayedTaskList (unblock t s) = pxDelayedTaskList s"
  "pxOverflowDelayedTaskList (unblock t s) = pxOverflowDelayedTaskList s"
  "uxSchedulerSuspended (unblock t s) = uxSchedulerSuspended s"
  "xYieldPending (unblock t s) = xYieldPending s" "xPendedTicks (unblock t s) = xPendedTicks s"
  "xNextTaskUnblockTime (unblock t s) = xNextTaskUnblockTime s"
  "uxCurrentNumberOfTasks (unblock t s) = uxCurrentNumberOfTasks s"
  "xNumOfOverflows (unblock t s) = xNumOfOverflows s"
  "aval (lists (unblock t s)) = aval (lists s)"
  by (simp_all add: unblock_def)

lemma unblock_cont:
  "acont (lists (unblock t s)) i =
     (if i = StateItem t then Some (Ready (uxPriority (tcb s t)))
      else if i = EventItem t then None else acont (lists s) i)"
  by (auto simp: unblock_def)

definition due :: "'a kernel_scheme \<Rightarrow> nat list" where
  "due s =
     map owner (takeWhile (\<lambda>i. aval (lists s) i \<le> xTickCount s) (alist (lists s) (pxDelayedTaskList s)))"

lemma kinv0_delayed_pointer:
  "kinv0 v s \<Longrightarrow> pxDelayedTaskList s = DelayedTaskList1 \<or> pxDelayedTaskList s = DelayedTaskList2"
  unfolding kinv0_def delays_def by auto

lemma blocked_list_simps [simp]:
  "blocked_list DelayedTaskList1" "blocked_list DelayedTaskList2" "blocked_list SuspendedTaskList"
  "\<not> blocked_list (Ready p)" "\<not> blocked_list TasksWaitingTermination" "\<not> blocked_list PendingReadyList"
  by (simp_all add: blocked_list_def)

lemma delayed_item:
  assumes "kinv0 v s" and "acont (lists s) i = Some (pxDelayedTaskList s)"
  obtains t where "i = StateItem t"
proof (cases i)
  case (EventItem t)
  then show ?thesis
    using assms kinv0_delayed_pointer [OF assms(1)] unfolding kinv0_def places_def by fastforce
qed (rule that)

lemma wake_step:
  assumes inv: "kinv0 v s" and hd: "alist (lists s) (pxDelayedTaskList s) = i # is"
  obtains t where "i = StateItem t" and "acont (lists s) i = Some (pxDelayedTaskList s)"
    and "alist (lists (unblock t s)) (pxDelayedTaskList s) = is"
proof -
  have wf: "awf UNIV (lists s)" using inv by (simp add: kinv0_def)
  have c: "acont (lists s) i = Some (pxDelayedTaskList s)"
    using set_alist [OF wf, of i] hd by (metis list.set_intros(1))
  obtain t where t: "i = StateItem t" using delayed_item [OF inv c] .
  have "acont (lists s) (EventItem t) \<noteq> Some (pxDelayedTaskList s)"
    using delayed_item [OF inv] by (metis kitem.distinct(1))
  then have "alist (lists (unblock t s)) (pxDelayedTaskList s) = is"
    using c t hd kinv0_delayed_pointer [OF inv] by (auto simp: unblock_def)
  then show ?thesis using that t c by blast
qed

lemma wake_tasks_spec:
  assumes "kinv0 v s"
  shows "wake_tasks sw s =
    Some (prvResetNextTaskUnblockTime (fold unblock (due s) s),
          sw \<or> (\<exists>t \<in> set (due s). uxPriority (tcb s t) > uxPriority (tcb s (pxCurrentTCB s))))"
  using assms
proof (induction "alist (lists s) (pxDelayedTaskList s)" arbitrary: s sw)
  case Nil
  then show ?case
    by (subst wake_tasks.simps) (simp add: due_def prvResetNextTaskUnblockTime_def items_def)
next
  case (Cons i "is")
  obtain t where t: "i = StateItem t" and c: "acont (lists s) i = Some (pxDelayedTaskList s)"
    and rest: "alist (lists (unblock t s)) (pxDelayedTaskList s) = is"
    using wake_step [OF Cons.prems Cons.hyps(2) [symmetric]] .
  show ?case
  proof (cases "xTickCount s < aval (lists s) i")
    case True
    then show ?thesis
      using t Cons.hyps(2) [symmetric] by (subst wake_tasks.simps)
        (simp add: due_def prvResetNextTaskUnblockTime_def klist_ops leD)
  next
    case False
    define sw' where "sw' = (if uxPriority (tcb s t) > uxPriority (tcb s (pxCurrentTCB s)) then True else sw)"
    have step: "wake_tasks sw s = wake_tasks sw' (unblock t s)"
    proof (cases "acont (lists s) (EventItem t) = None")
      case True
      then show ?thesis
        using t c Cons.hyps(2) [symmetric] False
        by (subst wake_tasks.simps)
          (simp add: klist_ops listREMOVE_ITEM_eq prvAddTaskToReadyList_eq unblock_def sw'_def
            a_remove_None)
    next
      case F: False
      have "acont (lists s) (EventItem t) \<noteq> acont (lists s) (StateItem t)"
        using c t delayed_item [OF Cons.prems] by (metis kitem.distinct(1))
      then show ?thesis
        using t c Cons.hyps(2) [symmetric] False F
        by (subst wake_tasks.simps)
          (simp add: klist_ops listREMOVE_ITEM_eq prvAddTaskToReadyList_eq unblock_def sw'_def
            a_remove_swap [of _ "EventItem t" "StateItem t"])
    qed
    have inv: "kinv0 v (unblock t s)"
      using unblock_kinv0 [OF Cons.prems] c t by simp
    have d: "due s = t # due (unblock t s)"
      using Cons.hyps(2) [symmetric] rest False t by (simp add: due_def)
    show ?thesis
      unfolding step using Cons.hyps(1) [OF _ inv, of sw'] rest d by (auto simp: sw'_def)
  qed
qed

lemma fold_unblock_kinv0:
  "kinv0 v s \<Longrightarrow> \<forall>t \<in> set ts. acont (lists s) (StateItem t) \<noteq> None \<Longrightarrow> kinv0 v (fold unblock ts s)"
proof (induction ts arbitrary: s)
  case (Cons t ts)
  then show ?case using unblock_kinv0 [of v s t] by (simp add: unblock_cont)
qed simp

lemma fold_unblock_frame [simp]:
  "xTickCount (fold unblock ts s) = xTickCount s" "tcb (fold unblock ts s) = tcb s"
  "pxCurrentTCB (fold unblock ts s) = pxCurrentTCB s"
  "pxDelayedTaskList (fold unblock ts s) = pxDelayedTaskList s"
  "pxOverflowDelayedTaskList (fold unblock ts s) = pxOverflowDelayedTaskList s"
  "uxSchedulerSuspended (fold unblock ts s) = uxSchedulerSuspended s"
  "xYieldPending (fold unblock ts s) = xYieldPending s"
  "xPendedTicks (fold unblock ts s) = xPendedTicks s"
  "xNextTaskUnblockTime (fold unblock ts s) = xNextTaskUnblockTime s"
  "uxCurrentNumberOfTasks (fold unblock ts s) = uxCurrentNumberOfTasks s"
  "xNumOfOverflows (fold unblock ts s) = xNumOfOverflows s"
  "aval (lists (fold unblock ts s)) = aval (lists s)"
  by (induction ts arbitrary: s) simp_all

lemma fold_unblock_cont:
  "acont (lists (fold unblock ts s)) i =
     (if owner i \<in> set ts then (case i of StateItem t \<Rightarrow> Some (Ready (uxPriority (tcb s t))) | EventItem t \<Rightarrow> None)
      else acont (lists s) i)"
  by (induction ts arbitrary: s) (auto simp: unblock_cont split: kitem.splits)


lemma due_set:
  assumes inv: "kinv0 v s"
  shows "t \<in> set (due s) \<longleftrightarrow>
    acont (lists s) (StateItem t) = Some (pxDelayedTaskList s) \<and> aval (lists s) (StateItem t) \<le> xTickCount s"
proof -
  let ?D = "alist (lists s) (pxDelayedTaskList s)" and ?P = "\<lambda>i. aval (lists s) i \<le> xTickCount s"
  have wf: "awf UNIV (lists s)" and sd: "sorted (map (aval (lists s)) ?D)"
    using inv by (auto simp: kinv0_def delays_def vsorted_def)
  have tw: "i \<in> set (takeWhile ?P ?D) \<longleftrightarrow> i \<in> set ?D \<and> ?P i" for i
    using sorted_dropWhile_above [OF sd, of i "xTickCount s"] set_takeWhileD [of i ?P ?D]
      takeWhile_dropWhile_id [of ?P ?D] by (metis Un_iff leD set_append)
  have "t \<in> set (due s) \<longleftrightarrow> StateItem t \<in> set (takeWhile ?P ?D)"
  proof
    assume "t \<in> set (due s)"
    then obtain i where i: "i \<in> set (takeWhile ?P ?D)" "owner i = t" by (auto simp: due_def)
    then have "acont (lists s) i = Some (pxDelayedTaskList s)" using tw set_alist [OF wf] by blast
    then obtain u where "i = StateItem u" using delayed_item [OF inv] by blast
    with i show "StateItem t \<in> set (takeWhile ?P ?D)" by simp
  next
    assume "StateItem t \<in> set (takeWhile ?P ?D)"
    then show "t \<in> set (due s)" unfolding due_def by (metis image_eqI list.set_map owner.simps(1))
  qed
  then show ?thesis using tw set_alist [OF wf] by simp
qed

lemma reset_frame [simp]:
  "lists (prvResetNextTaskUnblockTime s) = lists s"
  "xTickCount (prvResetNextTaskUnblockTime s) = xTickCount s"
  "tcb (prvResetNextTaskUnblockTime s) = tcb s"
  "pxCurrentTCB (prvResetNextTaskUnblockTime s) = pxCurrentTCB s"
  "pxDelayedTaskList (prvResetNextTaskUnblockTime s) = pxDelayedTaskList s"
  "pxOverflowDelayedTaskList (prvResetNextTaskUnblockTime s) = pxOverflowDelayedTaskList s"
  "uxSchedulerSuspended (prvResetNextTaskUnblockTime s) = uxSchedulerSuspended s"
  "uxTopReadyPriority (prvResetNextTaskUnblockTime s) = uxTopReadyPriority s"
  "xYieldPending (prvResetNextTaskUnblockTime s) = xYieldPending s"
  "xPendedTicks (prvResetNextTaskUnblockTime s) = xPendedTicks s"
  "uxCurrentNumberOfTasks (prvResetNextTaskUnblockTime s) = uxCurrentNumberOfTasks s"
  "xNumOfOverflows (prvResetNextTaskUnblockTime s) = xNumOfOverflows s"
  by (simp_all add: prvResetNextTaskUnblockTime_def split: list.splits)

lemma kinv0_cong:
  "lists s' = lists s \<Longrightarrow> tcb s' = tcb s \<Longrightarrow> xTickCount s' = xTickCount s \<Longrightarrow>
   pxCurrentTCB s' = pxCurrentTCB s \<Longrightarrow> pxDelayedTaskList s' = pxDelayedTaskList s \<Longrightarrow>
   pxOverflowDelayedTaskList s' = pxOverflowDelayedTaskList s \<Longrightarrow>
   uxTopReadyPriority s' = uxTopReadyPriority s \<Longrightarrow> kinv0 v s' = kinv0 v s"
  by (simp add: kinv0_def places_def delays_def readies_def)

lemma reset_kinv0 [simp]: "kinv0 v (prvResetNextTaskUnblockTime s) = kinv0 v s"
  by (rule kinv0_cong) simp_all

lemma reset_le:
  assumes "kinv0 v s" and "acont (lists s) i = Some (pxDelayedTaskList s)"
  shows "xNextTaskUnblockTime (prvResetNextTaskUnblockTime s) \<le> aval (lists s) i"
proof -
  have "i \<in> set (alist (lists s) (pxDelayedTaskList s))"
    using assms set_alist [of "lists s"] by (simp add: kinv0_def)
  moreover have "vsorted (lists s) (pxDelayedTaskList s)" using assms by (simp add: kinv0_def delays_def)
  ultimately show ?thesis
    by (auto simp: prvResetNextTaskUnblockTime_def klist_ops split: list.splits dest: vsorted_hd)
qed

text \<open>
  A tick seen from outside: the tasks whose wake-up time is the new tick count, whichever of
  the two delayed lists holds them.
\<close>

definition wakes_at :: "u32 \<Rightarrow> 'a kernel_scheme \<Rightarrow> nat \<Rightarrow> bool" where
  "wakes_at v s t \<longleftrightarrow>
     (acont (lists s) (StateItem t) = Some DelayedTaskList1 \<or>
      acont (lists s) (StateItem t) = Some DelayedTaskList2) \<and> aval (lists s) (StateItem t) = v"

definition ticked :: "'a kernel_scheme \<Rightarrow> kitem \<Rightarrow> klist option" where
  "ticked s i =
     (if wakes_at (xTickCount s + 1) s (owner i)
      then (case i of StateItem t \<Rightarrow> Some (Ready (uxPriority (tcb s t))) | EventItem t \<Rightarrow> None)
      else acont (lists s) i)"

lemma word_succ_le: "v < w \<Longrightarrow> v + 1 \<le> (w :: u32)"
  by (rule inc_le)

text \<open>The state in which the loop runs: the tick count stepped, and the lists switched on overflow.\<close>

definition stepped :: "'a kernel_scheme \<Rightarrow> 'a kernel_scheme" where
  "stepped s =
     (if xTickCount s + 1 = 0
      then prvResetNextTaskUnblockTime
             (s\<lparr>xTickCount := 0, pxDelayedTaskList := pxOverflowDelayedTaskList s,
                pxOverflowDelayedTaskList := pxDelayedTaskList s,
                xNumOfOverflows := xNumOfOverflows s + 1\<rparr>)
      else s\<lparr>xTickCount := xTickCount s + 1\<rparr>)"

lemma no_wrap_gt: "v + 1 \<noteq> (0 :: u32) \<Longrightarrow> v < v + 1"
  by (simp add: word_less_nat_alt unatSuc add.commute [of v])

lemma wrap_max: "v + 1 = (0 :: u32) \<Longrightarrow> \<not> v < w"
  by (simp add: eq_neg_iff_add_eq_0 [symmetric] not_less)

lemma delays_lists:
  assumes "delays v s"
  shows "acont (lists s) i = Some DelayedTaskList1 \<or> acont (lists s) i = Some DelayedTaskList2 \<longleftrightarrow>
    acont (lists s) i = Some (pxDelayedTaskList s) \<or> acont (lists s) i = Some (pxOverflowDelayedTaskList s)"
  using assms unfolding delays_def by auto

lemma wrap_delayed_empty:
  assumes "kinv s" and "xTickCount s + 1 = 0"
  shows "acont (lists s) i \<noteq> Some (pxDelayedTaskList s)"
  using assms wrap_max unfolding kinv_def unblock_times_def by blast

lemma stepped_ok:
  assumes inv: "kinv s"
  shows "kinv0 (xTickCount (stepped s)) (stepped s)"
    and "xTickCount (stepped s) = xTickCount s + 1"
    and "lists (stepped s) = lists s"
    and "acont (lists s) i = Some (pxDelayedTaskList (stepped s)) \<Longrightarrow>
         xNextTaskUnblockTime (stepped s) \<le> aval (lists s) i"
    and "acont (lists s) (StateItem t) = Some (pxDelayedTaskList (stepped s)) \<and>
         aval (lists s) (StateItem t) \<le> xTickCount (stepped s) \<longleftrightarrow> wakes_at (xTickCount s + 1) s t"
proof -
  have i0: "kinv0 0 s" and ub: "unblock_times s" and d: "delays 0 s"
    using inv by (auto simp: kinv_def kinv0_def)
  show t: "xTickCount (stepped s) = xTickCount s + 1" and l: "lists (stepped s) = lists s"
    by (simp_all add: stepped_def)
  have "kinv0 (xTickCount (stepped s)) (stepped s) \<and>
    (acont (lists s) i = Some (pxDelayedTaskList (stepped s)) \<longrightarrow>
       xNextTaskUnblockTime (stepped s) \<le> aval (lists s) i) \<and>
    (acont (lists s) (StateItem t) = Some (pxDelayedTaskList (stepped s)) \<and>
       aval (lists s) (StateItem t) \<le> xTickCount (stepped s) \<longleftrightarrow> wakes_at (xTickCount s + 1) s t)"
  proof (cases "xTickCount s + 1 = 0")
    case True
    note empty = wrap_delayed_empty [OF inv True]
    let ?u = "s\<lparr>xTickCount := 0, pxDelayedTaskList := pxOverflowDelayedTaskList s,
      pxOverflowDelayedTaskList := pxDelayedTaskList s, xNumOfOverflows := xNumOfOverflows s + 1\<rparr>"
    have st: "stepped s = prvResetNextTaskUnblockTime ?u" using True by (simp add: stepped_def)
    have "delays 0 ?u"
      using d empty unfolding delays_def by auto
    then have u: "kinv0 0 ?u"
      using i0 unfolding kinv0_def places_def readies_def by simp
    have "wakes_at 0 s t \<longleftrightarrow> acont (lists s) (StateItem t) = Some (pxOverflowDelayedTaskList s) \<and>
        aval (lists s) (StateItem t) \<le> 0"
      using delays_lists [OF d] empty by (auto simp: wakes_at_def)
    then show ?thesis
      using u reset_le [OF u, of i] unfolding st by (simp add: True)
  next
    case False
    let ?u = "s\<lparr>xTickCount := xTickCount s + 1\<rparr>"
    have st: "stepped s = ?u" using False by (simp add: stepped_def)
    have gt: "xTickCount s < xTickCount s + 1" using False by (rule no_wrap_gt)
    have le: "aval (lists s) i < xTickCount s + 1" if "acont (lists s) i = Some (pxOverflowDelayedTaskList s)" for i
      using d that less_trans [OF _ gt] unfolding delays_def by blast
    have ge: "xTickCount s + 1 \<le> aval (lists s) i" if "acont (lists s) i = Some (pxDelayedTaskList s)" for i
      using ub that inc_le unfolding unblock_times_def by blast
    have "delays (xTickCount s + 1) ?u"
      using d le ge unfolding delays_def by auto
    then have u: "kinv0 (xTickCount s + 1) ?u"
      using i0 unfolding kinv0_def places_def readies_def by simp
    have "wakes_at (xTickCount s + 1) s t \<longleftrightarrow> acont (lists s) (StateItem t) = Some (pxDelayedTaskList s) \<and>
        aval (lists s) (StateItem t) \<le> xTickCount s + 1"
      using delays_lists [OF d] le [of "StateItem t"] ge [of "StateItem t"] by (auto simp: wakes_at_def)
    then show ?thesis
      using u ub unfolding st unblock_times_def by simp
  qed
  then show "kinv0 (xTickCount (stepped s)) (stepped s)"
    and "acont (lists s) i = Some (pxDelayedTaskList (stepped s)) \<Longrightarrow>
         xNextTaskUnblockTime (stepped s) \<le> aval (lists s) i"
    and "acont (lists s) (StateItem t) = Some (pxDelayedTaskList (stepped s)) \<and>
         aval (lists s) (StateItem t) \<le> xTickCount (stepped s) \<longleftrightarrow> wakes_at (xTickCount s + 1) s t"
    by blast+
qed

lemma stepped_frame [simp]:
  "tcb (stepped s) = tcb s" "pxCurrentTCB (stepped s) = pxCurrentTCB s"
  "uxSchedulerSuspended (stepped s) = uxSchedulerSuspended s"
  "xYieldPending (stepped s) = xYieldPending s" "xPendedTicks (stepped s) = xPendedTicks s"
  "uxTopReadyPriority (stepped s) = uxTopReadyPriority s"
  "uxCurrentNumberOfTasks (stepped s) = uxCurrentNumberOfTasks s"
  by (simp_all add: stepped_def)

text \<open>The whole tick: the due tasks are unblocked in the order of the delayed list.\<close>

definition tick_result :: "'a kernel_scheme \<Rightarrow> 'a kernel_scheme" where
  "tick_result s =
     (if xTickCount (stepped s) \<ge> xNextTaskUnblockTime (stepped s)
      then prvResetNextTaskUnblockTime (fold unblock (due (stepped s)) (stepped s)) else stepped s)"

lemma due_stepped: "kinv s \<Longrightarrow> t \<in> set (due (stepped s)) \<longleftrightarrow> wakes_at (xTickCount s + 1) s t"
  using due_set [OF stepped_ok(1)] stepped_ok(3,5) by metis

lemma xTaskIncrementTick_result:
  assumes inv: "kinv s" and run: "uxSchedulerSuspended s = 0"
  shows "xTaskIncrementTick s =
    Some (tick_result s, xYieldPending s \<or>
      (\<exists>t. wakes_at (xTickCount s + 1) s t \<and> uxPriority (tcb s t) > uxPriority (tcb s (pxCurrentTCB s))))"
proof -
  have sw: "(if xTickCount s + 1 = 0 then taskSWITCH_DELAYED_LISTS (s\<lparr>xTickCount := xTickCount s + 1\<rparr>)
      else Some (s\<lparr>xTickCount := xTickCount s + 1\<rparr>)) = Some (stepped s)"
    using wrap_delayed_empty [OF inv] alist_empty [of "lists s"] inv
    by (auto simp: taskSWITCH_DELAYED_LISTS_def stepped_def items_def configASSERT_def kinv_def kinv0_def)
  have none: "\<not> wakes_at (xTickCount s + 1) s t"
    if "\<not> xNextTaskUnblockTime (stepped s) \<le> xTickCount (stepped s)" for t
    using that stepped_ok(4) [OF inv, of "StateItem t"] stepped_ok(5) [OF inv, of t] by (meson order_trans)
  have w: "wake_tasks False (stepped s) =
    Some (prvResetNextTaskUnblockTime (fold unblock (due (stepped s)) (stepped s)),
      \<exists>t. wakes_at (xTickCount s + 1) s t \<and> uxPriority (tcb s t) > uxPriority (tcb s (pxCurrentTCB s)))"
    using wake_tasks_spec [OF stepped_ok(1) [OF inv], of False] due_stepped [OF inv] by auto
  show ?thesis
    using run none w sw stepped_ok(2) [OF inv]
    by (auto simp: xTaskIncrementTick_def tick_result_def Let_def)
qed

lemma tick_result_cont:
  assumes "kinv s"
  shows "acont (lists (tick_result s)) = ticked s"
proof
  fix i
  have "\<not> wakes_at (xTickCount s + 1) s t"
    if "\<not> xNextTaskUnblockTime (stepped s) \<le> xTickCount (stepped s)" for t
    using that stepped_ok(4) [OF assms, of "StateItem t"] stepped_ok(5) [OF assms, of t] by (meson order_trans)
  then show "acont (lists (tick_result s)) i = ticked s i"
    using due_stepped [OF assms] stepped_ok(3) [OF assms]
    by (auto simp: tick_result_def ticked_def fold_unblock_cont split: kitem.splits)
qed

lemma kinv0_weaken: "kinv0 v s \<Longrightarrow> kinv0 0 s"
  by (simp add: kinv0_def delays_def)

lemma stepped_pending: "kinv s \<Longrightarrow> none_pending (stepped s)"
  by (simp add: kinv_def none_pending_def stepped_def)

lemma tick_result_kinv:
  assumes inv: "kinv s"
  shows "kinv (tick_result s)"
proof (cases "xTickCount (stepped s) \<ge> xNextTaskUnblockTime (stepped s)")
  case True
  let ?u = "fold unblock (due (stepped s)) (stepped s)"
  note st = stepped_ok(1) [OF inv]
  have "kinv0 (xTickCount (stepped s)) ?u"
    using due_set [OF st] by (intro fold_unblock_kinv0 [OF st]) auto
  then have u: "kinv0 0 ?u" by (rule kinv0_weaken)
  have cont: "acont (lists ?u) i = Some l \<Longrightarrow> (\<forall>p. l \<noteq> Ready p) \<Longrightarrow>
      acont (lists (stepped s)) i = Some l \<and> owner i \<notin> set (due (stepped s))" for i l
    by (auto simp: fold_unblock_cont split: if_splits kitem.splits)
  have "xTickCount (stepped s) < aval (lists s) i"
    if i: "acont (lists ?u) i = Some (pxDelayedTaskList (stepped s))" for i
  proof -
    have "\<forall>p. pxDelayedTaskList (stepped s) \<noteq> Ready p" using kinv0_delayed_pointer [OF st] by auto
    from cont [OF i this] obtain t where "i = StateItem t" "t \<notin> set (due (stepped s))"
      "acont (lists (stepped s)) i = Some (pxDelayedTaskList (stepped s))"
      using delayed_item [OF st] by (metis owner.simps(1))
    then show ?thesis using due_set [OF st] stepped_ok(3) [OF inv] by auto
  qed
  then have "unblock_times (prvResetNextTaskUnblockTime ?u)"
    using reset_le [OF u] stepped_ok(3) [OF inv] by (simp add: unblock_times_def)
  moreover have "none_pending (prvResetNextTaskUnblockTime ?u)"
    using stepped_pending [OF inv] cont [of _ PendingReadyList] by (auto simp: none_pending_def)
  ultimately show ?thesis
    using u True by (simp add: tick_result_def kinv_def)
next
  case False
  then have "unblock_times (stepped s)"
    using stepped_ok(4) [OF inv] stepped_ok(3) [OF inv]
    by (auto simp: unblock_times_def not_le intro: less_le_trans)
  then show ?thesis
    using False kinv0_weaken [OF stepped_ok(1) [OF inv]] stepped_pending [OF inv]
    by (simp add: tick_result_def kinv_def)
qed

lemma tick_result_frame [simp]:
  "xTickCount (tick_result s) = xTickCount s + 1" "tcb (tick_result s) = tcb s"
  "pxCurrentTCB (tick_result s) = pxCurrentTCB s"
  "uxSchedulerSuspended (tick_result s) = uxSchedulerSuspended s"
  "xYieldPending (tick_result s) = xYieldPending s" "xPendedTicks (tick_result s) = xPendedTicks s"
  "uxCurrentNumberOfTasks (tick_result s) = uxCurrentNumberOfTasks s"
  "aval (lists (tick_result s)) = aval (lists s)"
  by (simp_all add: tick_result_def) (simp_all add: stepped_def)


section \<open>The switch\<close>

lemma find_top_correct:
  assumes "items s (Ready q) \<noteq> []" and "q \<le> p"
    and "\<And>r. items s (Ready r) \<noteq> [] \<Longrightarrow> r \<le> p"
  shows "\<exists>r. find_top p s = Some r \<and> items s (Ready r) \<noteq> [] \<and> q \<le> r \<and>
    (\<forall>u. items s (Ready u) \<noteq> [] \<longrightarrow> u \<le> r)"
  using assms
proof (induction p)
  case (Suc p)
  show ?case
  proof (cases "items s (Ready (Suc p)) = []")
    case True
    then have "q \<le> p" and "\<And>r. items s (Ready r) \<noteq> [] \<Longrightarrow> r \<le> p"
      using Suc.prems by (metis le_Suc_eq)+
    then show ?thesis using Suc.IH Suc.prems(1) True by auto
  qed (use Suc.prems in auto)
qed auto

lemma ready_item:
  assumes "kinv0 v s" and "i \<in> set (items s (Ready p))"
  obtains t where "i = StateItem t" and "uxPriority (tcb s t) = p" and "acont (lists s) i = Some (Ready p)"
proof -
  have c: "acont (lists s) i = Some (Ready p)"
    using assms set_alist [of "lists s"] by (simp add: kinv0_def items_def)
  show ?thesis
  proof (cases i)
    case (StateItem t)
    then show ?thesis using that c assms(1) unfolding kinv0_def places_def by (auto simp: blocked_list_def)
  next
    case (EventItem t)
    then show ?thesis using c assms(1) unfolding kinv0_def places_def by fastforce
  qed
qed

definition is_ready :: "'a kernel_scheme \<Rightarrow> nat \<Rightarrow> bool" where
  "is_ready s t \<longleftrightarrow> acont (lists s) (StateItem t) = Some (Ready (uxPriority (tcb s t)))"

lemma is_ready_items:
  "kinv0 v s \<Longrightarrow> is_ready s t \<longleftrightarrow> StateItem t \<in> set (items s (Ready (uxPriority (tcb s t))))"
  using set_alist [of "lists s"] by (simp add: kinv0_def items_def is_ready_def)

lemma a_next_entry_some:
  assumes "alist a l \<noteq> []"
  shows "\<exists>i. snd (a_next_entry l a) = Some i \<and> i \<in> set (alist a l)"
proof -
  have "after_idx None (alist a l) = Some (hd (alist a l))"
    using assms by (simp add: after_idx_def split: list.splits)
  then show ?thesis
    using assms after_idx_set [of "aidx a l" "alist a l"] hd_in_set [OF assms]
    by (cases "after_idx (aidx a l) (alist a l)") (auto simp: a_next_entry_def Let_def)
qed

lemma taskSELECT_result:
  assumes inv: "kinv0 v s" and rdy: "is_ready s u"
  obtains p t where "find_top (uxTopReadyPriority s) s = Some p"
    and "taskSELECT_HIGHEST_PRIORITY_TASK s =
      Some (s\<lparr>lists := fst (a_next_entry (Ready p) (lists s)), pxCurrentTCB := t, uxTopReadyPriority := p\<rparr>)"
    and "snd (a_next_entry (Ready p) (lists s)) = Some (StateItem t)"
    and "is_ready s t" and "uxPriority (tcb s t) = p"
    and "\<And>w. is_ready s w \<Longrightarrow> uxPriority (tcb s w) \<le> p"
proof -
  have ne: "items s (Ready (uxPriority (tcb s w))) \<noteq> []" if "is_ready s w" for w
    using that is_ready_items [OF inv] by force
  have top: "r \<le> uxTopReadyPriority s" if r: "items s (Ready r) \<noteq> []" for r
  proof -
    obtain i where "i \<in> set (items s (Ready r))" using hd_in_set [OF r] by blast
    from ready_item [OF inv this] obtain t where "acont (lists s) (StateItem t) = Some (Ready r)" by metis
    then show ?thesis using inv unfolding kinv0_def readies_def by blast
  qed
  obtain p where p: "find_top (uxTopReadyPriority s) s = Some p" "items s (Ready p) \<noteq> []"
    "\<forall>r. items s (Ready r) \<noteq> [] \<longrightarrow> r \<le> p"
    using find_top_correct [OF ne [OF rdy] top [OF ne [OF rdy]] top] by auto
  obtain i where i: "snd (a_next_entry (Ready p) (lists s)) = Some i" "i \<in> set (items s (Ready p))"
    using a_next_entry_some [of "lists s" "Ready p"] p(2) by (auto simp: items_def)
  obtain t where t: "i = StateItem t" "uxPriority (tcb s t) = p" "acont (lists s) i = Some (Ready p)"
    using ready_item [OF inv i(2)] .
  show ?thesis
    by (rule that [of p t])
      (use p i t ne in \<open>auto simp: taskSELECT_HIGHEST_PRIORITY_TASK_def case_prod_unfold is_ready_def Let_def\<close>)
qed

lemma vTaskSwitchContext_kinv:
  assumes inv: "kinv s" and rdy: "is_ready s u"
  shows "\<exists>s'. vTaskSwitchContext s = Some s' \<and> kinv s'"
proof (cases "uxSchedulerSuspended s = 0")
  case True
  let ?s = "s\<lparr>xYieldPending := False\<rparr>"
  have i0: "kinv0 0 ?s" using inv by (simp add: kinv_def kinv0_def places_def delays_def readies_def)
  have "is_ready ?s u" using rdy by (simp add: is_ready_def)
  from taskSELECT_result [OF i0 this] obtain p t where
    res: "taskSELECT_HIGHEST_PRIORITY_TASK ?s =
      Some (?s\<lparr>lists := fst (a_next_entry (Ready p) (lists ?s)), pxCurrentTCB := t, uxTopReadyPriority := p\<rparr>)"
    and t: "is_ready ?s t" "uxPriority (tcb ?s t) = p" and max: "\<And>w. is_ready ?s w \<Longrightarrow> uxPriority (tcb ?s w) \<le> p"
    by metis
  have pr: "q \<le> p" if "acont (lists s) (StateItem w) = Some (Ready q)" for w q
  proof -
    have "q = uxPriority (tcb s w)"
      using i0 that unfolding kinv0_def places_def by (auto simp: blocked_list_def)
    then show ?thesis using max [of w] that by (simp add: is_ready_def)
  qed
  have "p \<le> uxTopReadyPriority s"
    using t i0 unfolding kinv0_def readies_def by (simp add: is_ready_def)
  then have "kinv (?s\<lparr>lists := fst (a_next_entry (Ready p) (lists ?s)), pxCurrentTCB := t, uxTopReadyPriority := p\<rparr>)"
    using inv t pr
    unfolding kinv_def kinv0_def places_def delays_def readies_def unblock_times_def none_pending_def
    by (auto simp: is_ready_def vsorted_def)
  then show ?thesis using True res by (simp add: vTaskSwitchContext_def)
next
  case False
  then show ?thesis using inv
    by (simp add: vTaskSwitchContext_def kinv_def kinv0_def places_def delays_def readies_def
        unblock_times_def none_pending_def)
qed


section \<open>Resuming the scheduler\<close>

definition set_yield :: "bool \<Rightarrow> 'a kernel_scheme \<Rightarrow> 'a kernel_scheme" where
  "set_yield b s = s\<lparr>xYieldPending := b\<rparr>"

lemma unblock_set_yield: "unblock t (set_yield b s) = set_yield b (unblock t s)"
  by (simp add: unblock_def set_yield_def)

lemma fold_unblock_set_yield: "fold unblock ts (set_yield b s) = set_yield b (fold unblock ts s)"
  by (induction ts arbitrary: s) (simp_all add: unblock_set_yield)

lemma set_yield_frame [simp]:
  "lists (set_yield b s) = lists s" "tcb (set_yield b s) = tcb s" "xTickCount (set_yield b s) = xTickCount s"
  "pxCurrentTCB (set_yield b s) = pxCurrentTCB s" "xYieldPending (set_yield b s) = b"
  "pxDelayedTaskList (set_yield b s) = pxDelayedTaskList s"
  "pxOverflowDelayedTaskList (set_yield b s) = pxOverflowDelayedTaskList s"
  "uxSchedulerSuspended (set_yield b s) = uxSchedulerSuspended s"
  "uxTopReadyPriority (set_yield b s) = uxTopReadyPriority s"
  "xNextTaskUnblockTime (set_yield b s) = xNextTaskUnblockTime s"
  "xPendedTicks (set_yield b s) = xPendedTicks s"
  "uxCurrentNumberOfTasks (set_yield b s) = uxCurrentNumberOfTasks s"
  "set_yield c (set_yield b s) = set_yield c s"
  "set_yield (xYieldPending s) s = s"
  by (simp_all add: set_yield_def)

lemma set_yield_id: "xYieldPending s = b \<Longrightarrow> set_yield b s = s"
  by (auto simp: set_yield_def)

lemma cond_yield:
  "(if b then s\<lparr>xYieldPending := True\<rparr> else s) = set_yield (xYieldPending s \<or> b) s"
  by (cases s) (simp add: set_yield_def)

lemma set_yield_kinv0 [simp]: "kinv0 v (set_yield b s) = kinv0 v s"
  by (rule kinv0_cong) simp_all

lemma set_yield_kinv [simp]: "kinv (set_yield b s) = kinv s"
  by (simp add: kinv_def unblock_times_def none_pending_def)

definition pending :: "'a kernel_scheme \<Rightarrow> nat list" where
  "pending s = map owner (alist (lists s) PendingReadyList)"

lemma pending_step:
  assumes inv: "kinv0 v s" and hd: "alist (lists s) PendingReadyList = i # is"
  obtains t where "i = EventItem t" and "acont (lists s) i = Some PendingReadyList"
    and "acont (lists s) (StateItem t) \<noteq> None" and "acont (lists s) (StateItem t) \<noteq> Some PendingReadyList"
    and "alist (lists (unblock t s)) PendingReadyList = is"
proof -
  have wf: "awf UNIV (lists s)" using inv by (simp add: kinv0_def)
  have c: "acont (lists s) i = Some PendingReadyList"
    using set_alist [OF wf, of i] hd by (metis list.set_intros(1))
  have sp: "acont (lists s) (StateItem t) \<noteq> Some PendingReadyList" for t
    using inv unfolding kinv0_def places_def by fastforce
  then obtain t where t: "i = EventItem t" using c by (cases i) auto
  have "acont (lists s) (StateItem t) \<noteq> None"
    using inv c t unfolding kinv0_def places_def by fastforce
  moreover have "alist (lists (unblock t s)) PendingReadyList = is"
    using c t hd sp [of t] by (simp add: unblock_def)
  ultimately show ?thesis using that t c sp by blast
qed

lemma ready_pending_spec:
  assumes "kinv0 v s"
  shows "ready_pending m s =
    Some (set_yield (xYieldPending s \<or>
            (\<exists>t \<in> set (pending s). uxPriority (tcb s t) \<ge> uxPriority (tcb s (pxCurrentTCB s))))
            (fold unblock (pending s) s), m \<or> pending s \<noteq> [])"
  using assms
proof (induction "alist (lists s) PendingReadyList" arbitrary: s m)
  case Nil
  then show ?case by (subst ready_pending.simps) (simp add: pending_def items_def)
next
  case (Cons i "is")
  obtain t where t: "i = EventItem t" "acont (lists s) i = Some PendingReadyList"
    and st: "acont (lists s) (StateItem t) \<noteq> None" "acont (lists s) (StateItem t) \<noteq> Some PendingReadyList"
    and rest: "alist (lists (unblock t s)) PendingReadyList = is"
    using pending_step [OF Cons.prems Cons.hyps(2) [symmetric]] .
  let ?b = "xYieldPending s \<or> uxPriority (tcb s t) \<ge> uxPriority (tcb s (pxCurrentTCB s))"
  let ?u = "set_yield ?b (unblock t s)"
  have step: "ready_pending m s = ready_pending True ?u"
    using t st Cons.hyps(2) [symmetric]
    by (subst ready_pending.simps)
      (auto simp: klist_ops listREMOVE_ITEM_eq prvAddTaskToReadyList_eq unblock_def cond_yield Let_def)
  have inv: "kinv0 v ?u"
    using unblock_kinv0 [OF Cons.prems st(1)] by simp
  have p: "pending s = t # pending ?u"
    using Cons.hyps(2) [symmetric] rest t by (simp add: pending_def)
  show ?case
    unfolding step using Cons.hyps(1) [OF _ inv, of True] rest p
    by (simp add: fold_unblock_set_yield disj_assoc)
qed

lemma pending_set:
  "kinv0 v s \<Longrightarrow> t \<in> set (pending s) \<longleftrightarrow> acont (lists s) (EventItem t) = Some PendingReadyList"
proof -
  assume inv: "kinv0 v s"
  have wf: "awf UNIV (lists s)" using inv by (simp add: kinv0_def)
  have sp: "acont (lists s) (StateItem u) \<noteq> Some PendingReadyList" for u
    using inv unfolding kinv0_def places_def by fastforce
  have "t \<in> set (pending s) \<longleftrightarrow> (\<exists>i. acont (lists s) i = Some PendingReadyList \<and> owner i = t)"
    using set_alist [OF wf] by (auto simp: pending_def image_iff)
  also have "\<dots> \<longleftrightarrow> acont (lists s) (EventItem t) = Some PendingReadyList"
    using sp by (metis owner.elims owner.simps(2))
  finally show ?thesis .
qed

lemma unblock_times_unblock:
  "kinv0 v s \<Longrightarrow> unblock_times s \<Longrightarrow> unblock_times (unblock t s)"
  using kinv0_delayed_pointer [of v s] unfolding unblock_times_def by (auto simp: unblock_cont)

text \<open>The state after the pending ready list has been emptied.\<close>

definition pending_readied :: "'a kernel_scheme \<Rightarrow> 'a kernel_scheme" where
  "pending_readied s =
     (let s' = set_yield (xYieldPending s \<or>
            (\<exists>t \<in> set (pending s). uxPriority (tcb s t) \<ge> uxPriority (tcb s (pxCurrentTCB s))))
            (fold unblock (pending s) s)
      in if pending s \<noteq> [] then prvResetNextTaskUnblockTime s' else s')"

lemma fold_unblock_times:
  "kinv0 v s \<Longrightarrow> \<forall>t \<in> set ts. acont (lists s) (StateItem t) \<noteq> None \<Longrightarrow> unblock_times s \<Longrightarrow>
   unblock_times (fold unblock ts s)"
proof (induction ts arbitrary: s)
  case (Cons t ts)
  then show ?case
    using unblock_kinv0 [of v s t] unblock_times_unblock [of v s t] by (simp add: unblock_cont)
qed simp

lemma unblock_times_reset:
  "kinv0 v s \<Longrightarrow> unblock_times s \<Longrightarrow> unblock_times (prvResetNextTaskUnblockTime s)"
  using reset_le [of v s] by (auto simp: unblock_times_def)

lemma pending_readied_kinv:
  assumes i0: "kinv0 0 s" and ub: "unblock_times s"
  shows "kinv (pending_readied s)"
proof -
  let ?u = "fold unblock (pending s) s"
  have st: "\<forall>t \<in> set (pending s). acont (lists s) (StateItem t) \<noteq> None"
    using pending_set [OF i0] i0 unfolding kinv0_def places_def by blast
  have u: "kinv0 0 ?u" "unblock_times ?u"
    using fold_unblock_kinv0 [OF i0 st] fold_unblock_times [OF i0 st ub] by blast+
  have "acont (lists s) (StateItem t) \<noteq> Some PendingReadyList" for t
    using i0 unfolding kinv0_def places_def by fastforce
  then have "\<forall>i. acont (lists ?u) i \<noteq> Some PendingReadyList"
    using pending_set [OF i0] by (auto simp: fold_unblock_cont split: kitem.splits)
  then show ?thesis
    using u unblock_times_reset [of 0 "set_yield b ?u" for b]
    by (auto simp: kinv_def pending_readied_def Let_def none_pending_def unblock_times_def)
qed


text \<open>Ticks in a row; the flag tells whether one of them asked for a context switch.\<close>

primrec run_ticks :: "nat \<Rightarrow> 'a kernel_scheme \<Rightarrow> ('a kernel_scheme \<times> bool) option" where
  "run_ticks 0 s = Some (s, False)"
| "run_ticks (Suc n) s =
     do {
       (s, a) \<leftarrow> xTaskIncrementTick s;
       (s, b) \<leftarrow> run_ticks n s;
       Some (s, a \<or> b)
     }"

definition tick_switch :: "'a kernel_scheme \<Rightarrow> bool" where
  "tick_switch s \<longleftrightarrow>
     (\<exists>t. wakes_at (xTickCount s + 1) s t \<and> uxPriority (tcb s t) > uxPriority (tcb s (pxCurrentTCB s)))"

primrec ticks_switch :: "nat \<Rightarrow> 'a kernel_scheme \<Rightarrow> bool" where
  "ticks_switch 0 s = False"
| "ticks_switch (Suc n) s = (tick_switch s \<or> ticks_switch n (tick_result s))"

lemma prvReset_set_yield:
  "prvResetNextTaskUnblockTime (set_yield b s) = set_yield b (prvResetNextTaskUnblockTime s)"
  by (simp add: prvResetNextTaskUnblockTime_def set_yield_def klist_ops split: list.splits)

lemma stepped_set_yield: "stepped (set_yield b s) = set_yield b (stepped s)"
proof -
  have "(set_yield b s)\<lparr>xTickCount := 0, pxDelayedTaskList := d, pxOverflowDelayedTaskList := e,
      xNumOfOverflows := xNumOfOverflows (set_yield b s) + 1\<rparr> =
    set_yield b (s\<lparr>xTickCount := 0, pxDelayedTaskList := d, pxOverflowDelayedTaskList := e,
      xNumOfOverflows := xNumOfOverflows s + 1\<rparr>)" for d e
    by (simp add: set_yield_def)
  moreover have "(set_yield b s)\<lparr>xTickCount := x\<rparr> = set_yield b (s\<lparr>xTickCount := x\<rparr>)" for x
    by (simp add: set_yield_def)
  ultimately show ?thesis by (simp add: stepped_def prvReset_set_yield)
qed

lemma tick_result_set_yield: "tick_result (set_yield b s) = set_yield b (tick_result s)"
  by (simp add: tick_result_def stepped_set_yield fold_unblock_set_yield prvReset_set_yield due_def)

definition set_pended :: "u32 \<Rightarrow> 'a kernel_scheme \<Rightarrow> 'a kernel_scheme" where
  "set_pended n s = s\<lparr>xPendedTicks := n\<rparr>"

lemma set_pended_frame [simp]:
  "lists (set_pended n s) = lists s" "tcb (set_pended n s) = tcb s" "xTickCount (set_pended n s) = xTickCount s"
  "pxCurrentTCB (set_pended n s) = pxCurrentTCB s" "xYieldPending (set_pended n s) = xYieldPending s"
  "pxDelayedTaskList (set_pended n s) = pxDelayedTaskList s"
  "pxOverflowDelayedTaskList (set_pended n s) = pxOverflowDelayedTaskList s"
  "uxSchedulerSuspended (set_pended n s) = uxSchedulerSuspended s"
  "uxTopReadyPriority (set_pended n s) = uxTopReadyPriority s"
  "xNextTaskUnblockTime (set_pended n s) = xNextTaskUnblockTime s"
  "xPendedTicks (set_pended n s) = n"
  "uxCurrentNumberOfTasks (set_pended n s) = uxCurrentNumberOfTasks s"
  "set_pended m (set_pended n s) = set_pended m s"
  "set_pended (xPendedTicks s) s = s"
  by (simp_all add: set_pended_def)

lemma set_pended_id: "xPendedTicks s = n \<Longrightarrow> set_pended n s = s"
  by (auto simp: set_pended_def)

lemma set_pended_kinv0 [simp]: "kinv0 v (set_pended n s) = kinv0 v s"
  by (rule kinv0_cong) simp_all

lemma set_pended_kinv [simp]: "kinv (set_pended n s) = kinv s"
  by (simp add: kinv_def unblock_times_def none_pending_def)

lemma set_yield_pended: "set_pended n (set_yield b s) = set_yield b (set_pended n s)"
  by (simp add: set_yield_def set_pended_def)

lemma unblock_set_pended: "unblock t (set_pended n s) = set_pended n (unblock t s)"
  by (simp add: unblock_def set_pended_def)

lemma fold_unblock_set_pended: "fold unblock ts (set_pended n s) = set_pended n (fold unblock ts s)"
  by (induction ts arbitrary: s) (simp_all add: unblock_set_pended)

lemma prvReset_set_pended:
  "prvResetNextTaskUnblockTime (set_pended n s) = set_pended n (prvResetNextTaskUnblockTime s)"
  by (simp add: prvResetNextTaskUnblockTime_def set_pended_def klist_ops split: list.splits)

lemma stepped_set_pended: "stepped (set_pended n s) = set_pended n (stepped s)"
proof -
  have "(set_pended n s)\<lparr>xTickCount := 0, pxDelayedTaskList := d, pxOverflowDelayedTaskList := e,
      xNumOfOverflows := xNumOfOverflows (set_pended n s) + 1\<rparr> =
    set_pended n (s\<lparr>xTickCount := 0, pxDelayedTaskList := d, pxOverflowDelayedTaskList := e,
      xNumOfOverflows := xNumOfOverflows s + 1\<rparr>)" for d e
    by (simp add: set_pended_def)
  moreover have "(set_pended n s)\<lparr>xTickCount := x\<rparr> = set_pended n (s\<lparr>xTickCount := x\<rparr>)" for x
    by (simp add: set_pended_def)
  ultimately show ?thesis by (simp add: stepped_def prvReset_set_pended)
qed

lemma tick_result_set_pended: "tick_result (set_pended n s) = set_pended n (tick_result s)"
  by (simp add: tick_result_def stepped_set_pended fold_unblock_set_pended prvReset_set_pended due_def)

lemma switch_frame [simp]:
  "tick_switch (set_yield b s) = tick_switch s" "tick_switch (set_pended n s) = tick_switch s"
  by (simp_all add: tick_switch_def wakes_at_def)

lemma ticks_switch_frame [simp]:
  "ticks_switch k (set_yield b s) = ticks_switch k s" "ticks_switch k (set_pended n s) = ticks_switch k s"
  by (induction k arbitrary: s) (simp_all add: tick_result_set_yield tick_result_set_pended)

lemma ticks_kinv: "kinv s \<Longrightarrow> kinv ((tick_result ^^ n) s)"
  by (induction n) (simp_all add: tick_result_kinv)

lemma ticks_frame [simp]:
  "xTickCount ((tick_result ^^ n) s) = xTickCount s + of_nat n" "tcb ((tick_result ^^ n) s) = tcb s"
  "pxCurrentTCB ((tick_result ^^ n) s) = pxCurrentTCB s"
  "uxSchedulerSuspended ((tick_result ^^ n) s) = uxSchedulerSuspended s"
  "xYieldPending ((tick_result ^^ n) s) = xYieldPending s"
  "xPendedTicks ((tick_result ^^ n) s) = xPendedTicks s"
  "aval (lists ((tick_result ^^ n) s)) = aval (lists s)"
  by (induction n) simp_all

lemma ticks_set_yield: "(tick_result ^^ n) (set_yield b s) = set_yield b ((tick_result ^^ n) s)"
  by (induction n) (simp_all add: tick_result_set_yield)

lemma ticks_set_pended: "(tick_result ^^ n) (set_pended m s) = set_pended m ((tick_result ^^ n) s)"
  by (induction n) (simp_all add: tick_result_set_pended)

lemma replay_ticks_result:
  "kinv s \<Longrightarrow> uxSchedulerSuspended s = 0 \<Longrightarrow>
   replay_ticks n s = Some (set_yield (xYieldPending s \<or> ticks_switch n s) ((tick_result ^^ n) s))"
proof (induction n arbitrary: s)
  case (Suc n)
  let ?s = "set_yield (xYieldPending s \<or> tick_switch s) (tick_result s)"
  have "replay_ticks (Suc n) s = replay_ticks n ?s"
    using Suc.prems xTaskIncrementTick_result [of s] by (auto simp: tick_switch_def cond_yield)
  then show ?case
    using Suc tick_result_kinv [of s]
    by (simp add: ticks_set_yield funpow_swap1 disj_assoc)
qed simp

lemma run_ticks_result:
  "kinv s \<Longrightarrow> uxSchedulerSuspended s = 0 \<Longrightarrow> \<not> xYieldPending s \<Longrightarrow>
   run_ticks n s = Some ((tick_result ^^ n) s, ticks_switch n s)"
  by (induction n arbitrary: s)
    (simp_all add: xTaskIncrementTick_result tick_result_kinv funpow_swap1 tick_switch_def)

lemma run_ticks_suspended:
  "uxSchedulerSuspended s \<noteq> 0 \<Longrightarrow>
   run_ticks n s = Some (set_pended (xPendedTicks s + of_nat n) s, False)"
  by (induction n arbitrary: s) (simp_all add: xTaskIncrementTick_def set_pended_def add.assoc)

text \<open>The result of \<open>xTaskResumeAll\<close> when the nesting count reaches 0.\<close>

definition resumed :: "'a kernel_scheme \<Rightarrow> 'a kernel_scheme" where
  "resumed s =
     (let s = pending_readied (s\<lparr>uxSchedulerSuspended := 0\<rparr>);
          n = unat (xPendedTicks s);
          s = set_yield (xYieldPending s \<or> ticks_switch n s) ((tick_result ^^ n) s)
      in if xYieldPending s then portYIELD (set_pended 0 s) else set_pended 0 s)"

lemma pending_readied_frame [simp]:
  "uxSchedulerSuspended (pending_readied s) = uxSchedulerSuspended s"
  "xPendedTicks (pending_readied s) = xPendedTicks s" "xTickCount (pending_readied s) = xTickCount s"
  "tcb (pending_readied s) = tcb s" "pxCurrentTCB (pending_readied s) = pxCurrentTCB s"
  by (simp_all add: pending_readied_def Let_def)

lemma portYIELD_frame [simp]:
  "lists (portYIELD s) = lists s" "tcb (portYIELD s) = tcb s" "xTickCount (portYIELD s) = xTickCount s"
  "pxCurrentTCB (portYIELD s) = pxCurrentTCB s" "xYieldPending (portYIELD s) = xYieldPending s"
  "pxDelayedTaskList (portYIELD s) = pxDelayedTaskList s"
  "pxOverflowDelayedTaskList (portYIELD s) = pxOverflowDelayedTaskList s"
  "uxSchedulerSuspended (portYIELD s) = uxSchedulerSuspended s"
  "uxTopReadyPriority (portYIELD s) = uxTopReadyPriority s"
  "xNextTaskUnblockTime (portYIELD s) = xNextTaskUnblockTime s"
  "xPendedTicks (portYIELD s) = xPendedTicks s"
  "uxCurrentNumberOfTasks (portYIELD s) = uxCurrentNumberOfTasks s"
  by (simp_all add: portYIELD_def)

lemma portYIELD_kinv0 [simp]: "kinv0 v (portYIELD s) = kinv0 v s"
  by (rule kinv0_cong) simp_all

lemma portYIELD_kinv [simp]: "kinv (portYIELD s) = kinv s"
  by (simp add: kinv_def unblock_times_def none_pending_def)

lemma suspend_kinv0 [simp]: "kinv0 v (s\<lparr>uxSchedulerSuspended := n\<rparr>) = kinv0 v s"
  by (rule kinv0_cong) simp_all

lemma suspend_unblock_times [simp]: "unblock_times (s\<lparr>uxSchedulerSuspended := n\<rparr>) = unblock_times s"
  by (simp add: unblock_times_def)

lemma xTaskResumeAll_result:
  assumes inv: "kinv s" and susp: "uxSchedulerSuspended s = 1" and tasks: "uxCurrentNumberOfTasks s > 0"
  shows "xTaskResumeAll s = Some (resumed s, xYieldPending (resumed s))" and "kinv (resumed s)"
proof -
  let ?s = "s\<lparr>uxSchedulerSuspended := 0\<rparr>"
  have i0: "kinv0 0 ?s" "unblock_times ?s" using inv by (simp_all add: kinv_def)
  let ?p = "pending_readied ?s"
  have p: "kinv ?p" using pending_readied_kinv [OF i0] .
  have rp: "ready_pending False ?s = Some (q, m) \<Longrightarrow> (if m then prvResetNextTaskUnblockTime q else q) = ?p" for q m
    using ready_pending_spec [OF i0(1), of False] by (auto simp: pending_readied_def Let_def)
  obtain q m where qm: "ready_pending False ?s = Some (q, m)"
    using ready_pending_spec [OF i0(1), of False] by blast
  have rt: "replay_ticks n ?p = Some (set_yield (xYieldPending ?p \<or> ticks_switch n ?p) ((tick_result ^^ n) ?p))" for n
    by (rule replay_ticks_result [OF p]) simp
  show "xTaskResumeAll s = Some (resumed s, xYieldPending (resumed s))"
  proof (cases "xPendedTicks s = 0")
    case True
    then show ?thesis
      using susp tasks rp [OF qm]
      by (simp add: xTaskResumeAll_def configASSERT_def qm resumed_def Let_def set_yield_id set_pended_id)
  next
    case False
    then have "0 < xPendedTicks s" by (simp add: word_gt_0)
    then show ?thesis
      using susp tasks rp [OF qm] rt [of "unat (xPendedTicks s)"]
      by (simp add: xTaskResumeAll_def configASSERT_def qm resumed_def Let_def set_pended_def [symmetric])
  qed
  show "kinv (resumed s)"
    using ticks_kinv [OF p] by (simp add: resumed_def Let_def)
qed


section \<open>Blocking and event lists\<close>

lemma wake_time_overflow: "(n :: u32) > 0 \<Longrightarrow> \<not> v + n < v \<Longrightarrow> v < v + n"
  by (metis add_cancel_right_right less_irrefl order.not_eq_order_implies_strict not_less)

text \<open>
  The current task blocks, with its event item already in \<open>e\<close> when it waits for an event:
  \<open>a\<close> is the list store after that insertion.
\<close>

definition blocks_in :: "u32 \<Rightarrow> bool \<Rightarrow> 'a kernel_scheme \<Rightarrow> klist" where
  "blocks_in n b s =
     (if n = portMAX_DELAY \<and> b then SuspendedTaskList
      else if xTickCount s + n < xTickCount s then pxOverflowDelayedTaskList s
      else pxDelayedTaskList s)"

definition event_put :: "'a kernel_scheme \<Rightarrow> (klist, kitem) astore \<Rightarrow> klist option \<Rightarrow> bool" where
  "event_put s a e \<longleftrightarrow>
     awf UNIV a \<and> acont a = (acont (lists s))(EventItem (pxCurrentTCB s) := e) \<and>
     (\<forall>t. aval a (StateItem t) = aval (lists s) (StateItem t)) \<and>
     (\<forall>l. e = Some l \<longrightarrow> event_list l) \<and>
     vsorted a (pxDelayedTaskList s) \<and> vsorted a (pxOverflowDelayedTaskList s)"

definition blocked :: "u32 \<Rightarrow> bool \<Rightarrow> klist option \<Rightarrow> 'a kernel_scheme \<Rightarrow> 'a kernel_scheme \<Rightarrow> bool" where
  "blocked n b e s s' \<longleftrightarrow>
     kinv s' \<and>
     acont (lists s') = (acont (lists s))(EventItem (pxCurrentTCB s) := e,
       StateItem (pxCurrentTCB s) := Some (blocks_in n b s)) \<and>
     (\<forall>t. aval (lists s') (StateItem t) =
        (if t = pxCurrentTCB s \<and> blocks_in n b s \<noteq> SuspendedTaskList then xTickCount s + n
         else aval (lists s) (StateItem t))) \<and>
     (\<exists>a x. s' = s\<lparr>lists := a, xNextTaskUnblockTime := x\<rparr>)"

lemma block_current:
  assumes inv: "kinv s" and n: "n > 0" and put: "event_put s a e"
  shows "\<exists>s'. prvAddCurrentTaskToDelayedList n b (s\<lparr>lists := a\<rparr>) = Some s' \<and> blocked n b e s s'"
proof -
  let ?c = "pxCurrentTCB s" and ?d = "pxDelayedTaskList s" and ?o = "pxOverflowDelayedTaskList s"
  let ?it = "StateItem ?c" and ?w = "xTickCount s + n"
  define r where "r = a_remove ?it a"
  define x where "x = (if n = portMAX_DELAY \<and> b \<or> ?w < xTickCount s \<or> \<not> ?w < xNextTaskUnblockTime s
    then xNextTaskUnblockTime s else ?w)"
  define a' where "a' = (if n = portMAX_DELAY \<and> b then a_insert_end SuspendedTaskList ?it r
    else a_insert (blocks_in n b s) ?it (a_set_value ?it ?w r))"
  let ?s' = "s\<lparr>lists := a', xNextTaskUnblockTime := x\<rparr>"
  have wf: "awf UNIV a" and ca: "acont a = (acont (lists s))(EventItem ?c := e)"
    and va: "\<And>t. aval a (StateItem t) = aval (lists s) (StateItem t)"
    and ev: "\<And>l. e = Some l \<Longrightarrow> event_list l" and so: "vsorted a ?d" "vsorted a ?o"
    using put by (auto simp: event_put_def)
  have i0: "kinv0 0 s" and ub: "unblock_times s" and np: "none_pending s" using inv by (simp_all add: kinv_def)
  have cur: "acont a ?it \<noteq> None" using i0 ca by (simp add: kinv0_def)
  have dl: "?d = DelayedTaskList1 \<and> ?o = DelayedTaskList2 \<or> ?d = DelayedTaskList2 \<and> ?o = DelayedTaskList1"
    using i0 by (simp add: kinv0_def delays_def)
  have res: "prvAddCurrentTaskToDelayedList n b (s\<lparr>lists := a\<rparr>) = Some ?s'"
    using cur by (simp add: prvAddCurrentTaskToDelayedList_def listREMOVE_ITEM_eq klist_ops Let_def
        a'_def x_def r_def blocks_in_def)
  have ca': "acont a' = (acont (lists s))(EventItem ?c := e, ?it := Some (blocks_in n b s))"
    by (auto simp: a'_def r_def ca blocks_in_def)
  have va': "aval a' (StateItem t) =
      (if t = ?c \<and> blocks_in n b s \<noteq> SuspendedTaskList then ?w else aval (lists s) (StateItem t))" for t
    using dl by (auto simp: a'_def r_def va blocks_in_def)
  have wf': "awf UNIV a'" by (simp add: a'_def r_def wf)
  have so': "vsorted a' ?d" "vsorted a' ?o"
    using dl so wf by (auto simp: a'_def r_def blocks_in_def)
  have bl: "blocked_list (blocks_in n b s)" using dl by (auto simp: blocks_in_def)
  have st: "\<exists>t. i = StateItem t" if "acont a' i = Some l" "l = ?d \<or> l = ?o" for i l
  proof (rule ccontr)
    assume "\<not> ?thesis"
    then obtain t where t: "i = EventItem t" by (cases i) auto
    then have "acont (lists s) i = Some l \<or> event_list l" using that(1) ev ca' by (auto split: if_splits)
    then have "event_list l \<or> l = PendingReadyList"
      using i0 t unfolding kinv0_def places_def by blast
    then show False using that(2) dl by auto
  qed
  have "places ?s'"
    using i0 bl ev unfolding kinv0_def places_def by (auto simp: ca' split: if_splits)
  moreover have "aval a' i < xTickCount s" if i: "acont a' i = Some ?o" for i
  proof -
    obtain t where "i = StateItem t" using st [OF i] by blast
    then show ?thesis
      using i dl i0 va' [of t] unfolding kinv0_def delays_def
      by (auto simp: ca' blocks_in_def split: if_splits)
  qed
  moreover have later: "xTickCount s < aval a' i \<and> x \<le> aval a' i" if i: "acont a' i = Some ?d" for i
  proof -
    obtain t where t: "i = StateItem t" using st [OF i] by blast
    show ?thesis
    proof (cases "t = ?c")
      case True
      then have "blocks_in n b s = ?d" using i t by (simp add: ca')
      then have "aval a' i = ?w" "\<not> ?w < xTickCount s" "\<not> (n = portMAX_DELAY \<and> b)"
        using True t va' [of t] dl by (auto simp: blocks_in_def split: if_splits)
      then show ?thesis using wake_time_overflow [OF n] by (auto simp: x_def)
    next
      case False
      then have "acont (lists s) i = Some ?d" "aval a' i = aval (lists s) i"
        using i t va' [of t] by (auto simp: ca')
      then show ?thesis using ub by (auto simp: unblock_times_def x_def intro: order_trans less_imp_le)
    qed
  qed
  ultimately have "kinv0 0 ?s'"
    using i0 so' wf' dl unfolding kinv0_def delays_def readies_def by (auto simp: ca' blocks_in_def)
  moreover have "unblock_times ?s'" using later by (simp add: unblock_times_def)
  moreover have "none_pending ?s'"
    using np ev dl by (auto simp: none_pending_def ca' blocks_in_def)
  ultimately have "kinv ?s'" by (simp add: kinv_def)
  then have "blocked n b e s ?s'" using ca' va' unfolding blocked_def by auto
  with res show ?thesis by blast
qed


lemma delayed_event_neq:
  "kinv s \<Longrightarrow> event_list l \<Longrightarrow> pxDelayedTaskList s \<noteq> l \<and> pxOverflowDelayedTaskList s \<noteq> l"
  by (auto simp: kinv_def kinv0_def delays_def)

lemma event_put_self:
  assumes "kinv s" and "acont (lists s) (EventItem (pxCurrentTCB s)) = e" and "\<And>l. e = Some l \<Longrightarrow> event_list l"
  shows "event_put s (lists s) e"
  using assms by (auto simp: event_put_def kinv_def kinv0_def delays_def)

lemma event_put_insert:
  assumes inv: "kinv s" and free: "acont (lists s) (EventItem (pxCurrentTCB s)) = None" and l: "event_list l"
  shows "event_put s (a_insert l (EventItem (pxCurrentTCB s)) (lists s)) (Some l)"
  using assms delayed_event_neq [OF inv l]
  by (auto simp: event_put_def kinv_def kinv0_def delays_def)

lemma event_put_insert_end:
  assumes inv: "kinv s" and free: "acont (lists s) (EventItem (pxCurrentTCB s)) = None" and l: "event_list l"
  shows "event_put s (a_insert_end l (EventItem (pxCurrentTCB s))
           (a_set_value (EventItem (pxCurrentTCB s)) v (lists s))) (Some l)"
  using assms delayed_event_neq [OF inv l]
  by (auto simp: event_put_def kinv_def kinv0_def delays_def)

lemma vTaskPlaceOnEventList_blocks:
  assumes "kinv s" and "event_list l" and "acont (lists s) (EventItem (pxCurrentTCB s)) = None" and "n > 0"
  shows "\<exists>s'. vTaskPlaceOnEventList l n s = Some s' \<and> blocked n True (Some l) s s'"
  unfolding vTaskPlaceOnEventList_def insert_sorted_def
  by (rule block_current [OF assms(1,4) event_put_insert [OF assms(1,3,2)]])

lemma vTaskPlaceOnUnorderedEventList_blocks:
  assumes "kinv s" and "event_list l" and "acont (lists s) (EventItem (pxCurrentTCB s)) = None" and "n > 0"
    and "uxSchedulerSuspended s \<noteq> 0"
  shows "\<exists>s'. vTaskPlaceOnUnorderedEventList l v n s = Some s' \<and> blocked n True (Some l) s s'"
proof -
  have "vTaskPlaceOnUnorderedEventList l v n s = prvAddCurrentTaskToDelayedList n True
    (s\<lparr>lists := a_insert_end l (EventItem (pxCurrentTCB s))
       (a_set_value (EventItem (pxCurrentTCB s)) (v OR taskEVENT_LIST_ITEM_VALUE_IN_USE) (lists s))\<rparr>)"
    using assms(5) by (simp add: vTaskPlaceOnUnorderedEventList_def klist_ops configASSERT_def Let_def)
  then show ?thesis
    using block_current [OF assms(1,4) event_put_insert_end [OF assms(1,3,2)]] by presburger
qed

lemma unblock_kinv:
  assumes inv: "kinv s" and t: "acont (lists s) (StateItem t) \<noteq> None"
  shows "kinv (unblock t s)"
proof -
  have "none_pending (unblock t s)"
    using inv by (simp add: kinv_def none_pending_def unblock_cont)
  then show ?thesis
    using inv unblock_kinv0 [of 0 s t] unblock_times_unblock [of 0 s t] t by (simp add: kinv_def)
qed

lemma kinv_state:
  "kinv s \<Longrightarrow> acont (lists s) (StateItem t) = Some l \<Longrightarrow>
   t \<noteq> 0 \<and> uxPriority (tcb s t) < configMAX_PRIORITIES \<and>
   (l = Ready (uxPriority (tcb s t)) \<or> blocked_list l \<or> l = TasksWaitingTermination)"
  by (simp add: kinv_def kinv0_def places_def)

lemma kinv_event:
  "kinv s \<Longrightarrow> acont (lists s) (EventItem t) = Some l \<Longrightarrow>
   \<exists>m. acont (lists s) (StateItem t) = Some m \<and>
     (event_list l \<and> blocked_list m \<or> l = PendingReadyList \<and> m \<noteq> TasksWaitingTermination)"
  by (simp add: kinv_def kinv0_def places_def)

lemma event_waiter:
  assumes inv: "kinv s" and l: "event_list l" and i: "acont (lists s) i = Some l"
  obtains t m where "i = EventItem t" and "t \<noteq> 0" and "acont (lists s) (StateItem t) = Some m" and "blocked_list m"
proof (cases i)
  case (StateItem t)
  then show ?thesis using inv l i unfolding kinv_def kinv0_def places_def by (fastforce simp: blocked_list_def)
next
  case (EventItem t)
  then obtain m where "acont (lists s) (StateItem t) = Some m" "blocked_list m"
    using kinv_event [OF inv, of t l] i l by auto
  then show ?thesis using that EventItem kinv_state [OF inv] by blast
qed

text \<open>
  Waking the first waiter of an event list: it becomes ready, or pends while the scheduler
  is suspended.
\<close>

definition event_woken :: "nat \<Rightarrow> 'a kernel_scheme \<Rightarrow> 'a kernel_scheme" where
  "event_woken t s =
     set_yield (xYieldPending s \<or> uxPriority (tcb s t) > uxPriority (tcb s (pxCurrentTCB s)))
       (if uxSchedulerSuspended s = 0 then unblock t s
        else s\<lparr>lists := a_insert_end PendingReadyList (EventItem t) (a_remove (EventItem t) (lists s))\<rparr>)"

lemma pend_event_kinv:
  assumes inv: "kinv s" and susp: "uxSchedulerSuspended s \<noteq> 0"
    and t: "acont (lists s) (StateItem t) = Some m" "blocked_list m"
  shows "kinv (s\<lparr>lists := a_insert_end PendingReadyList (EventItem t) (a_remove (EventItem t) (lists s))\<rparr>)"
proof -
  have dl: "pxDelayedTaskList s \<noteq> PendingReadyList" "pxOverflowDelayedTaskList s \<noteq> PendingReadyList"
    using inv by (auto simp: kinv_def kinv0_def delays_def)
  show ?thesis
    using inv susp t dl
    unfolding kinv_def kinv0_def places_def delays_def readies_def unblock_times_def none_pending_def
    by auto
qed

lemma xTaskRemoveFromEventList_result:
  assumes inv: "kinv s" and l: "event_list l" and hd: "items s l = i # is"
  obtains t where "i = EventItem t" and "acont (lists s) i = Some l"
    and "xTaskRemoveFromEventList l s =
      Some (event_woken t s, uxPriority (tcb s t) > uxPriority (tcb s (pxCurrentTCB s)))"
    and "kinv (event_woken t s)"
proof -
  have i: "acont (lists s) i = Some l"
    using hd inv set_alist [of "lists s" i l] by (simp add: kinv_def kinv0_def items_def)
  obtain t m where t: "i = EventItem t" "t \<noteq> 0" "acont (lists s) (StateItem t) = Some m" "blocked_list m"
    using event_waiter [OF inv l i] .
  have "xTaskRemoveFromEventList l s =
      Some (event_woken t s, uxPriority (tcb s t) > uxPriority (tcb s (pxCurrentTCB s)))"
    using t i hd
    by (simp add: xTaskRemoveFromEventList_def listGET_OWNER_OF_HEAD_ENTRY_def configASSERT_def
        listREMOVE_ITEM_eq prvAddTaskToReadyList_eq event_woken_def unblock_def insert_end_def)
      (simp add: set_yield_def)
  moreover have "kinv (event_woken t s)"
    using unblock_kinv [OF inv, of t] pend_event_kinv [OF inv _ t(3,4)] t by (simp add: event_woken_def)
  ultimately show ?thesis using that t(1) i by blast
qed


section \<open>What scheduling leaves unchanged\<close>

text \<open>
  The tick and the resumption of the scheduler only make blocked tasks ready: control blocks,
  the running task, the heap, the counters and the data of extensions of the kernel record
  stay, and so does the set of tasks.
\<close>

definition sframe :: "'a kernel_scheme \<Rightarrow> 'a kernel_scheme \<Rightarrow> bool" where
  "sframe s s' \<longleftrightarrow>
     tcb s' = tcb s \<and> pxCurrentTCB s' = pxCurrentTCB s \<and> kheap s' = kheap s \<and> stack_mem s' = stack_mem s \<and>
     uxDeletedTasksWaitingCleanUp s' = uxDeletedTasksWaitingCleanUp s \<and>
     uxCurrentNumberOfTasks s' = uxCurrentNumberOfTasks s \<and> xSchedulerRunning s' = xSchedulerRunning s \<and>
     xIdleTaskHandle s' = xIdleTaskHandle s \<and> uxTaskNumber s' = uxTaskNumber s \<and>
     kernel.more s' = kernel.more s \<and>
     (\<forall>t. acont (lists s') (StateItem t) = acont (lists s) (StateItem t) \<or>
        acont (lists s) (StateItem t) \<noteq> None \<and> acont (lists s) (StateItem t) \<noteq> Some TasksWaitingTermination \<and>
        acont (lists s') (StateItem t) = Some (Ready (uxPriority (tcb s t)))) \<and>
     (\<forall>t. acont (lists s') (EventItem t) = acont (lists s) (EventItem t) \<or>
        acont (lists s') (EventItem t) = None)"

lemma sframe_refl [simp]: "sframe s s"
  by (simp add: sframe_def)

lemma sframe_trans: "sframe s s' \<Longrightarrow> sframe s' s'' \<Longrightarrow> sframe s s''"
  unfolding sframe_def by (metis klist.distinct(7) option.distinct(1) option.inject)

lemma sframe_fields [simp]:
  "sframe s (set_yield b s)" "sframe s (set_pended n s)" "sframe s (portYIELD s)"
  "sframe s (s\<lparr>uxSchedulerSuspended := k\<rparr>)" "sframe s (s\<lparr>xNextTaskUnblockTime := v\<rparr>)"
  "sframe s (vTaskSuspendAll s)"
  by (simp_all add: sframe_def set_yield_def set_pended_def portYIELD_def vTaskSuspendAll_def)

lemma sframe_reset [simp]: "sframe s (prvResetNextTaskUnblockTime s)"
  by (simp add: prvResetNextTaskUnblockTime_def split: list.splits)

lemma sframe_after:
  assumes "sframe s s'"
  shows "sframe s (set_yield b s')" "sframe s (set_pended n s')" "sframe s (portYIELD s')"
    "sframe s (prvResetNextTaskUnblockTime s')"
  by (rule sframe_trans [OF assms], simp)+

lemma sframe_stepped [simp]: "sframe s (stepped s)"
proof -
  have "sframe s (s\<lparr>xTickCount := 0, pxDelayedTaskList := d, pxOverflowDelayedTaskList := e, xNumOfOverflows := n\<rparr>)"
    for d e n by (simp add: sframe_def)
  moreover have "sframe s (s\<lparr>xTickCount := v\<rparr>)" for v by (simp add: sframe_def)
  ultimately show ?thesis by (auto simp: stepped_def intro!: sframe_after)
qed

lemma sframe_unblock:
  "acont (lists s) (StateItem t) \<noteq> None \<Longrightarrow> acont (lists s) (StateItem t) \<noteq> Some TasksWaitingTermination \<Longrightarrow>
   sframe s (unblock t s)"
  by (simp add: sframe_def unblock_cont) (simp add: unblock_def)

lemma sframe_fold_unblock:
  "\<forall>t \<in> set ts. acont (lists s) (StateItem t) \<noteq> None \<and> acont (lists s) (StateItem t) \<noteq> Some TasksWaitingTermination \<Longrightarrow>
   sframe s (fold unblock ts s)"
proof (induction ts arbitrary: s)
  case (Cons t ts)
  then have "sframe s (unblock t s)" by (simp add: sframe_unblock)
  moreover have "sframe (unblock t s) (fold unblock ts (unblock t s))"
    using Cons.prems by (intro Cons.IH) (auto simp: unblock_cont)
  ultimately show ?case by (auto intro: sframe_trans)
qed simp

lemma sframe_tick:
  assumes "kinv s"
  shows "sframe s (tick_result s)"
proof -
  have "\<forall>t \<in> set (due (stepped s)). acont (lists (stepped s)) (StateItem t) \<noteq> None \<and>
      acont (lists (stepped s)) (StateItem t) \<noteq> Some TasksWaitingTermination"
    using due_stepped [OF assms] stepped_ok(3) [OF assms] by (auto simp: wakes_at_def)
  then have "sframe (stepped s) (fold unblock (due (stepped s)) (stepped s))"
    by (rule sframe_fold_unblock)
  then have "sframe s (fold unblock (due (stepped s)) (stepped s))"
    using sframe_trans sframe_stepped by blast
  then show ?thesis
    by (simp add: tick_result_def sframe_after)
qed

lemma sframe_ticks: "kinv s \<Longrightarrow> sframe s ((tick_result ^^ n) s)"
  by (induction n) (auto intro: sframe_trans sframe_tick ticks_kinv)

lemma sframe_pending:
  assumes "kinv0 0 s"
  shows "sframe s (pending_readied s)"
proof -
  have "\<forall>t \<in> set (pending s). acont (lists s) (StateItem t) \<noteq> None \<and>
      acont (lists s) (StateItem t) \<noteq> Some TasksWaitingTermination"
    using pending_set [OF assms] assms unfolding kinv0_def places_def by fastforce
  then have "sframe s (fold unblock (pending s) s)" by (rule sframe_fold_unblock)
  then show ?thesis
    by (auto simp: pending_readied_def Let_def intro!: sframe_after)
qed

lemma sframe_resumed:
  assumes "kinv s"
  shows "sframe s (resumed s)"
proof -
  let ?s = "s\<lparr>uxSchedulerSuspended := 0\<rparr>"
  have i: "kinv0 0 ?s" "unblock_times ?s" using assms by (simp_all add: kinv_def)
  have "sframe s (pending_readied ?s)"
    using sframe_trans [OF sframe_fields(4) sframe_pending [OF i(1)]] .
  then have "sframe s ((tick_result ^^ n) (pending_readied ?s))" for n
    using sframe_trans sframe_ticks [OF pending_readied_kinv [OF i]] by blast
  then show ?thesis
    by (auto simp: resumed_def Let_def intro!: sframe_after)
qed

lemma suspend_all_kinv [simp]: "kinv s \<Longrightarrow> uxSchedulerSuspended s + 1 \<noteq> 0 \<Longrightarrow> kinv (vTaskSuspendAll s)"
  by (simp add: vTaskSuspendAll_def kinv_def none_pending_def)

lemma xTaskResumeAll_ok:
  assumes inv: "kinv s" and susp: "uxSchedulerSuspended s \<noteq> 0" and tasks: "uxCurrentNumberOfTasks s > 0"
  obtains s' b where "xTaskResumeAll s = Some (s', b)" and "kinv s'" and "sframe s s'"
    and "uxSchedulerSuspended s' = uxSchedulerSuspended s - 1"
proof (cases "uxSchedulerSuspended s = 1")
  case True
  have "uxSchedulerSuspended (resumed s) = 0" by (simp add: resumed_def Let_def)
  then show ?thesis
    using that [OF xTaskResumeAll_result(1) [OF inv True tasks] xTaskResumeAll_result(2) [OF inv True tasks]
        sframe_resumed [OF inv]] True by simp
next
  case False
  let ?s = "s\<lparr>uxSchedulerSuspended := uxSchedulerSuspended s - 1\<rparr>"
  have "xTaskResumeAll s = Some (?s, False)"
    using susp False by (simp add: xTaskResumeAll_def configASSERT_def)
  moreover have "kinv ?s" using inv susp False by (auto simp: kinv_def none_pending_def)
  ultimately show ?thesis by (rule that) simp_all
qed

section \<open>Wake-up times\<close>

lemma ticks_ready:
  "kinv s \<Longrightarrow> is_ready s t \<Longrightarrow> is_ready ((tick_result ^^ n) s) t"
  by (induction n) (auto simp: is_ready_def tick_result_cont ticks_kinv ticked_def wakes_at_def)

lemma ticks_delayed:
  assumes inv: "kinv s"
    and d: "acont (lists s) (StateItem t) = Some DelayedTaskList1 \<or> acont (lists s) (StateItem t) = Some DelayedTaskList2"
  shows "k < unat (aval (lists s) (StateItem t) - xTickCount s) \<Longrightarrow>
    acont (lists ((tick_result ^^ k) s)) (StateItem t) = acont (lists s) (StateItem t)"
proof (induction k)
  case (Suc k)
  let ?u = "(tick_result ^^ k) s" and ?v = "aval (lists s) (StateItem t)"
  have "\<not> wakes_at (xTickCount ?u + 1) ?u t"
  proof
    assume "wakes_at (xTickCount ?u + 1) ?u t"
    then have "?v - xTickCount s = of_nat (Suc k)" by (simp add: wakes_at_def)
    then have "unat (?v - xTickCount s) = unat (of_nat (Suc k) :: u32)" by simp
    also have "\<dots> \<le> Suc k" by (rule unat_of_nat [THEN eq_refl, THEN order_trans]) (rule mod_less_eq_dividend)
    finally show False using Suc.prems by simp
  qed
  then show ?case
    using Suc tick_result_cont [OF ticks_kinv [OF inv]] by (simp add: ticked_def)
qed simp

lemma wake_distance_pos:
  assumes inv: "kinv s"
    and d: "acont (lists s) (StateItem t) = Some DelayedTaskList1 \<or> acont (lists s) (StateItem t) = Some DelayedTaskList2"
  shows "0 < unat (aval (lists s) (StateItem t) - xTickCount s)"
proof -
  have "acont (lists s) (StateItem t) = Some (pxDelayedTaskList s) \<or>
      acont (lists s) (StateItem t) = Some (pxOverflowDelayedTaskList s)"
    using inv d delays_lists [of 0 s "StateItem t"] by (simp add: kinv_def kinv0_def)
  then have "aval (lists s) (StateItem t) \<noteq> xTickCount s"
    using inv unfolding kinv_def kinv0_def delays_def unblock_times_def by fastforce
  then show ?thesis by (simp add: unat_gt_0)
qed

lemma ticks_wake:
  assumes inv: "kinv s"
    and d: "acont (lists s) (StateItem t) = Some DelayedTaskList1 \<or> acont (lists s) (StateItem t) = Some DelayedTaskList2"
  shows "is_ready ((tick_result ^^ k) s) t \<longleftrightarrow> unat (aval (lists s) (StateItem t) - xTickCount s) \<le> k"
proof (cases "k < unat (aval (lists s) (StateItem t) - xTickCount s)")
  case True
  then show ?thesis
    using ticks_delayed [OF inv d True] d by (auto simp: is_ready_def)
next
  case False
  define n where "n = unat (aval (lists s) (StateItem t) - xTickCount s) - 1"
  have n: "unat (aval (lists s) (StateItem t) - xTickCount s) = Suc n"
    using wake_distance_pos [OF inv d] by (simp add: n_def)
  let ?u = "(tick_result ^^ n) s"
  have c: "acont (lists ?u) (StateItem t) = acont (lists s) (StateItem t)"
    using n by (intro ticks_delayed [OF inv d]) simp
  have "aval (lists s) (StateItem t) - xTickCount s = of_nat (Suc n)"
    unfolding n [symmetric] by simp
  then have "aval (lists s) (StateItem t) = xTickCount ?u + 1" by (simp add: algebra_simps)
  then have "wakes_at (xTickCount ?u + 1) ?u t" using c d by (simp add: wakes_at_def)
  then have "is_ready (tick_result ?u) t"
    using tick_result_cont [OF ticks_kinv [OF inv]] by (simp add: is_ready_def ticked_def)
  then have "is_ready ((tick_result ^^ (k - Suc n)) ((tick_result ^^ Suc n) s)) t"
    using ticks_ready [OF ticks_kinv [OF inv, of "Suc n"]] by simp
  moreover have "(tick_result ^^ (k - Suc n)) ((tick_result ^^ Suc n) s) = (tick_result ^^ k) s"
    using False n by (metis funpow_add le_add_diff_inverse2 not_less o_apply)
  ultimately show ?thesis using False by simp
qed

lemma run_ticks_state:
  "kinv s \<Longrightarrow> uxSchedulerSuspended s = 0 \<Longrightarrow> \<exists>sw. run_ticks n s = Some ((tick_result ^^ n) s, sw)"
proof (induction n arbitrary: s)
  case (Suc n)
  obtain sw where "run_ticks n (tick_result s) = Some ((tick_result ^^ n) (tick_result s), sw)"
    using Suc.IH [of "tick_result s"] tick_result_kinv Suc.prems by auto
  then show ?case
    using xTaskIncrementTick_result [OF Suc.prems] by (simp add: funpow_swap1)
qed auto

section \<open>Time-outs\<close>

text \<open>The number of ticks since the scheduler started.\<close>

definition clock :: "'a kernel_scheme \<Rightarrow> nat" where
  "clock s = unat (xNumOfOverflows s) * 2 ^ 32 + unat (xTickCount s)"

lemma elapsed_cases:
  fixes a b p q d :: nat
  assumes "q * 2 ^ 32 + b = p * 2 ^ 32 + a + d" and "d \<le> 2 ^ 32" and "a < 2 ^ 32" and "b < 2 ^ 32"
  shows "q = p \<and> b = a + d \<or> q = p + 1 \<and> b + 2 ^ 32 = a + d"
proof -
  have "q * 2 ^ 32 < (p + 2) * 2 ^ 32" using assms by simp
  then have "q < p + 2" by simp
  moreover have "p * 2 ^ 32 < (q + 1) * 2 ^ 32" using assms by simp
  then have "p < q + 1" by simp
  ultimately have "q = p \<or> q = p + 1" by arith
  then show ?thesis using assms by auto
qed

lemma elapsed_word:
  fixes a b :: u32
  assumes "unat b = unat a + d \<or> unat b + 2 ^ 32 = unat a + d"
  shows "b - a = of_nat d"
proof -
  from assms have "(of_nat (unat b) :: u32) = of_nat (unat a + d)"
  proof
    assume "unat b + 2 ^ 32 = unat a + d"
    then have "(of_nat (unat b + 2 ^ 32) :: u32) = of_nat (unat a + d)" by (rule arg_cong)
    moreover have "(of_nat (2 ^ 32) :: u32) = 0" by (simp only: word_of_nat_eq_0_iff) simp
    ultimately show ?thesis by (simp only: of_nat_add add_0_right)
  qed simp
  then show ?thesis by simp
qed

section \<open>Properties of the scheduler\<close>

text \<open>C6: One tick wakes exactly the tasks whose wake-up time is the new tick count, in whichever
  delayed list they are and also when the count overflows to 0; every other list item keeps its
  list, the invariant holds, and a switch is requested exactly if a yield is pending or a woken
  task has a priority above the running one.\<close>

theorem xTaskIncrementTick_correct:
  assumes "kinv s" and "uxSchedulerSuspended s = 0"
  shows "\<exists>s' sw. xTaskIncrementTick s = Some (s', sw) \<and> kinv s' \<and> xTickCount s' = xTickCount s + 1 \<and>
    (\<forall>t. acont (lists s') (StateItem t) =
       (if wakes_at (xTickCount s + 1) s t then Some (Ready (uxPriority (tcb s t)))
        else acont (lists s) (StateItem t))) \<and>
    (\<forall>t. acont (lists s') (EventItem t) =
       (if wakes_at (xTickCount s + 1) s t then None else acont (lists s) (EventItem t))) \<and>
    (sw \<longleftrightarrow> xYieldPending s \<or>
       (\<exists>t. wakes_at (xTickCount s + 1) s t \<and> uxPriority (tcb s t) > uxPriority (tcb s (pxCurrentTCB s))))"
  using xTaskIncrementTick_result [OF assms] tick_result_kinv [OF assms(1)] tick_result_cont [OF assms(1)]
  by (simp add: ticked_def)

text \<open>C7: A task that delays itself for \<open>n\<close> ticks is ready after exactly \<open>n\<close> ticks and not
  before, for every tick count at which it starts, so also when the wake-up time overflows.\<close>

theorem delay_wakes_on_time:
  assumes inv: "kinv s" and run: "uxSchedulerSuspended s = 0" and n: "n > 0"
    and free: "acont (lists s) (EventItem (pxCurrentTCB s)) = None"
  shows "\<exists>s1. prvAddCurrentTaskToDelayedList n False s = Some s1 \<and> kinv s1 \<and>
    (\<forall>k. \<exists>s2 sw. run_ticks k s1 = Some (s2, sw) \<and> (is_ready s2 (pxCurrentTCB s) \<longleftrightarrow> unat n \<le> k))"
proof -
  let ?c = "pxCurrentTCB s"
  obtain s1 where s1: "prvAddCurrentTaskToDelayedList n False s = Some s1" and b: "blocked n False None s s1"
    using block_current [OF inv n event_put_self [OF inv free], of False] by auto
  have k1: "kinv s1" and fr: "uxSchedulerSuspended s1 = 0" "xTickCount s1 = xTickCount s"
    using b run by (auto simp: blocked_def)
  have bl: "blocks_in n False s = DelayedTaskList1 \<or> blocks_in n False s = DelayedTaskList2"
    using inv by (auto simp: blocks_in_def kinv_def kinv0_def delays_def)
  then have d: "acont (lists s1) (StateItem ?c) = Some DelayedTaskList1 \<or>
      acont (lists s1) (StateItem ?c) = Some DelayedTaskList2"
    and v: "aval (lists s1) (StateItem ?c) = xTickCount s + n"
    using b by (auto simp: blocked_def)
  have "\<exists>s2 sw. run_ticks k s1 = Some (s2, sw) \<and> (is_ready s2 ?c \<longleftrightarrow> unat n \<le> k)" for k
    using run_ticks_state [OF k1 fr(1), of k] ticks_wake [OF k1 d, of k] v fr(2) by auto
  then show ?thesis using s1 k1 by blast
qed

text \<open>C8: Ticks that arrive while the scheduler is suspended are not lost: suspending, ticking
  \<open>n\<close> times and resuming gives exactly the state of \<open>n\<close> ticks without suspension, except that a
  switch requested by one of them is now pending, which \<open>xTaskResumeAll\<close> reports.\<close>

theorem suspended_ticks_replayed:
  assumes inv: "kinv s" and run: "uxSchedulerSuspended s = 0" and none: "xPendedTicks s = 0"
    and calm: "\<not> xYieldPending s" and tasks: "uxCurrentNumberOfTasks s > 0" and n: "n < 2 ^ 32"
  shows "\<exists>s1 s2 sw. run_ticks n s = Some (s2, sw) \<and> run_ticks n (vTaskSuspendAll s) = Some (s1, False) \<and>
    xTaskResumeAll s1 = Some (if sw then portYIELD (set_yield True s2) else s2, sw)"
proof -
  let ?q = "vTaskSuspendAll s"
  let ?s1 = "set_pended (of_nat n) ?q"
  have a: "run_ticks n s = Some ((tick_result ^^ n) s, ticks_switch n s)"
    by (rule run_ticks_result [OF inv run calm])
  have b: "run_ticks n ?q = Some (?s1, False)"
    using run_ticks_suspended [of ?q n] run none by (simp add: vTaskSuspendAll_def)
  have q: "kinv ?s1" "uxSchedulerSuspended ?s1 = 1" "uxCurrentNumberOfTasks ?s1 > 0"
    using inv run tasks
    by (simp_all add: vTaskSuspendAll_def kinv_def none_pending_def unblock_times_def)
  have p: "?s1\<lparr>uxSchedulerSuspended := 0\<rparr> = set_pended (of_nat n) s"
    using run by (simp add: vTaskSuspendAll_def set_pended_def)
  have "pending s = []"
    using inv run alist_empty [of "lists s" PendingReadyList]
    by (simp add: pending_def kinv_def none_pending_def kinv0_def)
  then have r: "pending_readied (set_pended (of_nat n) s) = set_pended (of_nat n) s"
    by (simp add: pending_readied_def pending_def set_yield_id)
  have "unat (of_nat n :: u32) = n" using n by (simp add: unat_of_nat take_bit_nat_eq_self)
  then have "resumed ?s1 =
      (if ticks_switch n s then portYIELD (set_yield True ((tick_result ^^ n) s)) else (tick_result ^^ n) s)"
    using calm none r
    by (simp add: resumed_def p Let_def ticks_set_pended set_yield_pended set_yield_id set_pended_id)
  then show ?thesis
    using a b xTaskResumeAll_result(1) [OF q] calm by simp
qed

lemma vTaskSwitchContext_result:
  assumes inv: "kinv s" and run: "uxSchedulerSuspended s = 0" and rdy: "is_ready s u"
  obtains p t where "vTaskSwitchContext s =
      Some ((set_yield False s)\<lparr>lists := fst (a_next_entry (Ready p) (lists s)), pxCurrentTCB := t, uxTopReadyPriority := p\<rparr>)"
    and "snd (a_next_entry (Ready p) (lists s)) = Some (StateItem t)" and "is_ready s t"
    and "uxPriority (tcb s t) = p" and "\<And>w. is_ready s w \<Longrightarrow> uxPriority (tcb s w) \<le> p"
proof -
  let ?s = "set_yield False s"
  have i0: "kinv0 0 ?s" and r: "is_ready ?s u" using inv rdy by (simp_all add: kinv_def is_ready_def)
  from taskSELECT_result [OF i0 r] obtain p t where
    "taskSELECT_HIGHEST_PRIORITY_TASK ?s =
      Some (?s\<lparr>lists := fst (a_next_entry (Ready p) (lists ?s)), pxCurrentTCB := t, uxTopReadyPriority := p\<rparr>)"
    and "snd (a_next_entry (Ready p) (lists ?s)) = Some (StateItem t)"
    and "is_ready ?s t" "uxPriority (tcb ?s t) = p" and "\<And>w. is_ready ?s w \<Longrightarrow> uxPriority (tcb ?s w) \<le> p"
    by metis
  then show ?thesis
    using run that [of p t] by (simp add: vTaskSwitchContext_def set_yield_def is_ready_def)
qed

text \<open>C9: The context switch never fails while some task is ready, and picks a ready task of the
  highest priority among the ready tasks, the successor of the last one that ran at that
  priority; it keeps the invariant and moves no task.\<close>

theorem vTaskSwitchContext_selects:
  assumes inv: "kinv s" and run: "uxSchedulerSuspended s = 0" and rdy: "is_ready s u"
  shows "\<exists>s'. vTaskSwitchContext s = Some s' \<and> kinv s' \<and> is_ready s' (pxCurrentTCB s') \<and>
    (\<forall>t. is_ready s t \<longrightarrow> uxPriority (tcb s t) \<le> uxPriority (tcb s (pxCurrentTCB s'))) \<and>
    snd (a_next_entry (Ready (uxPriority (tcb s (pxCurrentTCB s')))) (lists s)) =
      Some (StateItem (pxCurrentTCB s')) \<and>
    alist (lists s') = alist (lists s) \<and> \<not> xYieldPending s'"
proof -
  obtain s' where s': "vTaskSwitchContext s = Some s'" "kinv s'"
    using vTaskSwitchContext_kinv [OF inv rdy] by blast
  show ?thesis
    by (rule vTaskSwitchContext_result [OF inv run rdy]) (use s' in \<open>auto simp: is_ready_def set_yield_def\<close>)
qed

text \<open>\<open>xTaskCheckForTimeOut\<close> measures the time since the time-out was set exactly, across an
  overflow of the tick count as well: it reports expiry just when the ticks elapsed reach the
  ticks to wait, and otherwise hands back the ticks that remain.\<close>

theorem xTaskCheckForTimeOut_exact:
  assumes clk: "clock s' = clock s + d" and d: "d \<le> 2 ^ 32" and w: "w \<noteq> portMAX_DELAY"
  shows "xTaskCheckForTimeOut (vTaskInternalSetTimeOutState s) w s' =
    (if unat w \<le> d then (True, vTaskInternalSetTimeOutState s, 0)
     else (False, vTaskInternalSetTimeOutState s', w - of_nat d))"
proof -
  let ?a = "xTickCount s" and ?b = "xTickCount s'"
  have bounds: "unat ?a < 2 ^ 32" "unat ?b < 2 ^ 32" "unat w < 2 ^ 32"
    by (rule unat_u32)+
  have cases: "unat (xNumOfOverflows s') = unat (xNumOfOverflows s) \<and> unat ?b = unat ?a + d \<or>
      unat (xNumOfOverflows s') = unat (xNumOfOverflows s) + 1 \<and> unat ?b + 2 ^ 32 = unat ?a + d"
    using elapsed_cases [OF _ d bounds(1,2)] clk by (simp add: clock_def)
  then have el: "?b - ?a = of_nat d" by (intro elapsed_word) blast
  have full: "xNumOfOverflows s' \<noteq> xNumOfOverflows s \<and> ?a \<le> ?b \<longleftrightarrow> d = 2 ^ 32"
    using cases d bounds by (auto simp: word_le_nat_alt word_unat_eq_iff)
  have "unat (of_nat d :: u32) = d" if "d \<noteq> 2 ^ 32"
    using d that by (simp add: unat_of_nat take_bit_nat_eq_self)
  then have "(of_nat d :: u32) < w \<longleftrightarrow> d < unat w" if "d \<noteq> 2 ^ 32"
    using that by (simp add: word_less_nat_alt)
  then show ?thesis
    using w full el bounds(3)
    by (auto simp: xTaskCheckForTimeOut_def vTaskInternalSetTimeOutState_def Let_def)
qed


section \<open>A concrete state\<close>

text \<open>
  Four tasks one tick before the tick count overflows: the running task 8 (priority 3), tasks 16
  and 24 ready at priorities 1 and 0, and task 32 (priority 4) delayed until tick 0.
\<close>

definition empty_store :: "('l, 'i) astore" where
  "empty_store = \<lparr>alist = (\<lambda>_. []), aidx = (\<lambda>_. None), aval = (\<lambda>_. 0), acont = (\<lambda>_. None)\<rparr>"

lemma empty_store_simps [simp]:
  "alist empty_store l = []" "aidx empty_store l = None" "aval empty_store i = 0"
  "acont empty_store i = None" "awf L empty_store"
  by (simp_all add: empty_store_def awf_def)

definition idle_tcb :: tcb_t where
  "idle_tcb = \<lparr>pxTopOfStack = 0, uxPriority = 0, pxStack = 0, pcTaskName = ''IDLE'',
     pvThreadLocalStoragePointers = (\<lambda>_. 0), ulNotifiedValue = (\<lambda>_. 0),
     ucNotifyState = (\<lambda>_. taskNOT_WAITING_NOTIFICATION)\<rparr>"

definition demo_heap :: heap where
  "demo_heap = \<lparr>ucHeap = 1024, configTOTAL_HEAP_SIZE = 4096, xStart = 16,
     mem = (\<lambda>_. \<lparr>pxNextFreeBlock = 0, xBlockSize = 0\<rparr>), payload = (\<lambda>_. 0), pxEnd = 0,
     xFreeBytesRemaining = 0, xMinimumEverFreeBytesRemaining = 0,
     xNumberOfSuccessfulAllocations = 0, xNumberOfSuccessfulFrees = 0\<rparr>"

definition demo_kernel :: kernel where
  "demo_kernel =
     \<lparr>lists = a_insert DelayedTaskList2 (StateItem 32) (a_insert_end (Ready 0) (StateItem 24)
        (a_insert_end (Ready 1) (StateItem 16) (a_insert_end (Ready 3) (StateItem 8) empty_store))),
      tcb = (\<lambda>_. idle_tcb)(8 := idle_tcb\<lparr>uxPriority := 3\<rparr>, 16 := idle_tcb\<lparr>uxPriority := 1\<rparr>,
        32 := idle_tcb\<lparr>uxPriority := 4\<rparr>),
      pxCurrentTCB = 8, pxDelayedTaskList = DelayedTaskList1,
      pxOverflowDelayedTaskList = DelayedTaskList2, uxDeletedTasksWaitingCleanUp = 0,
      uxCurrentNumberOfTasks = 4, xTickCount = 0xffffffff, uxTopReadyPriority = 3,
      xSchedulerRunning = True, xPendedTicks = 0, xYieldPending = False, xNumOfOverflows = 0,
      uxTaskNumber = 4, xNextTaskUnblockTime = 0xffffffff, uxSchedulerSuspended = 0,
      xIdleTaskHandle = 24, pendsv = False, kheap = demo_heap, stack_mem = (\<lambda>_. 0)\<rparr>"

lemma vsorted_empty [simp]: "vsorted empty_store l"
  by (simp add: vsorted_def)

lemma demo_fields [simp]:
  "acont (lists demo_kernel) i =
     (if i = StateItem 32 then Some DelayedTaskList2 else if i = StateItem 24 then Some (Ready 0)
      else if i = StateItem 16 then Some (Ready 1) else if i = StateItem 8 then Some (Ready 3) else None)"
  "aval (lists demo_kernel) i = 0" "pxCurrentTCB demo_kernel = 8"
  "uxPriority (tcb demo_kernel t) = (if t = 8 then 3 else if t = 16 then 1 else if t = 32 then 4 else 0)"
  "ucNotifyState (tcb demo_kernel t) n = taskNOT_WAITING_NOTIFICATION"
  "pxDelayedTaskList demo_kernel = DelayedTaskList1" "pxOverflowDelayedTaskList demo_kernel = DelayedTaskList2"
  "xTickCount demo_kernel = 0xffffffff" "uxSchedulerSuspended demo_kernel = 0"
  "uxCurrentNumberOfTasks demo_kernel = 4" "xPendedTicks demo_kernel = 0"
  "xYieldPending demo_kernel = False" "xNumOfOverflows demo_kernel = 0"
  "xNextTaskUnblockTime demo_kernel = 0xffffffff" "uxTopReadyPriority demo_kernel = 3"
  "xSchedulerRunning demo_kernel = True" "uxDeletedTasksWaitingCleanUp demo_kernel = 0"
  by (simp_all add: demo_kernel_def idle_tcb_def)

lemma demo_lists:
  "awf UNIV (lists demo_kernel)" "vsorted (lists demo_kernel) DelayedTaskList1"
  "vsorted (lists demo_kernel) DelayedTaskList2"
  by (simp_all add: demo_kernel_def)

lemma demo_kernel_kinv: "kinv demo_kernel"
proof -
  have "kinv0 0 demo_kernel"
    unfolding kinv0_def places_def delays_def readies_def
    by (auto simp: demo_lists configMAX_PRIORITIES_def)
  then show ?thesis
    by (simp add: kinv_def unblock_times_def none_pending_def)
qed

theorem xTaskIncrementTick_correct_witness:
  "\<exists>s'. xTaskIncrementTick demo_kernel = Some (s', True) \<and>
     acont (lists s') (StateItem 32) = Some (Ready 4) \<and> xTickCount s' = 0"
proof -
  have w: "wakes_at (xTickCount demo_kernel + 1) demo_kernel t \<longleftrightarrow> t = 32" for t
    by (simp add: wakes_at_def)
  have u: "uxSchedulerSuspended demo_kernel = 0" by simp
  obtain s' sw where r: "xTaskIncrementTick demo_kernel = Some (s', sw)" "xTickCount s' = xTickCount demo_kernel + 1"
    and c: "\<forall>t. acont (lists s') (StateItem t) =
       (if t = 32 then Some (Ready (uxPriority (tcb demo_kernel t))) else acont (lists demo_kernel) (StateItem t))"
    and sw: "sw \<longleftrightarrow> xYieldPending demo_kernel \<or>
       (\<exists>t. t = 32 \<and> uxPriority (tcb demo_kernel t) > uxPriority (tcb demo_kernel (pxCurrentTCB demo_kernel)))"
    using xTaskIncrementTick_correct [OF demo_kernel_kinv u] unfolding w by blast
  from c have "acont (lists s') (StateItem 32) = Some (Ready 4)" by simp
  with r sw show ?thesis by simp
qed

theorem delay_wakes_on_time_witness:
  "\<exists>s1 s2 sw. prvAddCurrentTaskToDelayedList 5 False demo_kernel = Some s1 \<and>
     run_ticks 5 s1 = Some (s2, sw) \<and> is_ready s2 8"
proof -
  have "\<exists>s1. prvAddCurrentTaskToDelayedList 5 False demo_kernel = Some s1 \<and> kinv s1 \<and>
    (\<forall>k. \<exists>s2 sw. run_ticks k s1 = Some (s2, sw) \<and>
       (is_ready s2 (pxCurrentTCB demo_kernel) \<longleftrightarrow> unat (5 :: u32) \<le> k))"
    by (rule delay_wakes_on_time [OF demo_kernel_kinv]) simp_all
  then obtain s1 where s1: "prvAddCurrentTaskToDelayedList 5 False demo_kernel = Some s1"
    and k: "\<And>k. \<exists>s2 sw. run_ticks k s1 = Some (s2, sw) \<and> (is_ready s2 8 \<longleftrightarrow> 5 \<le> k)" by auto
  from k [of 5] s1 show ?thesis by blast
qed

theorem suspended_ticks_replayed_witness:
  "\<exists>s1 s2 sw. run_ticks 3 demo_kernel = Some (s2, sw) \<and>
     run_ticks 3 (vTaskSuspendAll demo_kernel) = Some (s1, False) \<and>
     xTaskResumeAll s1 = Some (if sw then portYIELD (set_yield True s2) else s2, sw)"
  by (rule suspended_ticks_replayed [OF demo_kernel_kinv]) simp_all

theorem vTaskSwitchContext_selects_witness:
  "\<exists>s'. vTaskSwitchContext demo_kernel = Some s' \<and> is_ready s' (pxCurrentTCB s') \<and>
     uxPriority (tcb demo_kernel (pxCurrentTCB s')) \<ge> 3"
proof -
  have r: "is_ready demo_kernel 8" by (simp add: is_ready_def)
  from vTaskSwitchContext_selects [OF demo_kernel_kinv _ this] obtain s' where
    "vTaskSwitchContext demo_kernel = Some s'" "is_ready s' (pxCurrentTCB s')"
    "\<forall>t. is_ready demo_kernel t \<longrightarrow> uxPriority (tcb demo_kernel t) \<le> uxPriority (tcb demo_kernel (pxCurrentTCB s'))"
    by auto
  moreover from this(3) r have "3 \<le> uxPriority (tcb demo_kernel (pxCurrentTCB s'))" by fastforce
  ultimately show ?thesis by blast
qed

theorem xTaskCheckForTimeOut_exact_witness:
  "xTaskCheckForTimeOut (vTaskInternalSetTimeOutState demo_kernel) 3
     (demo_kernel\<lparr>xTickCount := 1, xNumOfOverflows := 1\<rparr>) =
   (False, \<lparr>xOverflowCount = 1, xTimeOnEntering = 1\<rparr>, 1)"
  using xTaskCheckForTimeOut_exact [of "demo_kernel\<lparr>xTickCount := 1, xNumOfOverflows := 1\<rparr>" demo_kernel 2 3]
  by (simp add: clock_def vTaskInternalSetTimeOutState_def portMAX_DELAY_def)

end
