(* ===== verification/Tasks.thy ===== *)
theory Tasks
  imports Kernel
begin

text \<open>
  The task interface of \<open>tasks.c\<close>: creation and deletion on the heap of \<open>Heap4\<close>, delays,
  priorities, suspension, and direct-to-task notifications.  A call that may block is cut
  where the code leaves its critical section: the second part runs when the task is
  scheduled again.
\<close>

section \<open>Memory\<close>

text \<open>
  The allocator runs with the scheduler suspended (\<open>vTaskSuspendAll\<close> and \<open>xTaskResumeAll\<close>
  around the body of \<open>pvPortMalloc\<close> and \<open>vPortFree\<close>; \<open>vPortFree\<close> does nothing for \<open>NULL\<close>).
\<close>

definition kernel_malloc :: "nat \<Rightarrow> 'a kernel_scheme \<Rightarrow> ('a kernel_scheme \<times> nat) option" where
  "kernel_malloc n s =
     do {
       let s = vTaskSuspendAll s;
       (h, p) \<leftarrow> pvPortMalloc n (kheap s);
       (s, _) \<leftarrow> xTaskResumeAll (s\<lparr>kheap := h\<rparr>);
       Some (s, p)
     }"

definition kernel_free :: "nat \<Rightarrow> 'a kernel_scheme \<Rightarrow> 'a kernel_scheme option" where
  "kernel_free p s =
     (if p \<noteq> 0 then
        do {
          let s = vTaskSuspendAll s;
          h \<leftarrow> vPortFree p (kheap s);
          (s, _) \<leftarrow> xTaskResumeAll (s\<lparr>kheap := h\<rparr>);
          Some s
        }
      else Some s)"

section \<open>Creation\<close>

text \<open>
  \<open>sizeof(TCB_t)\<close> in this configuration: two list items of 20 bytes, 16 bytes of name, five
  thread-local pointers, a notification of 4 + 1 bytes and three words, rounded to words.
\<close>

definition sizeof_TCB :: nat where
  "sizeof_TCB = 96"

definition configMAX_TASK_NAME_LEN :: nat where
  "configMAX_TASK_NAME_LEN = 16"

definition zero_tcb :: tcb_t where
  "zero_tcb = \<lparr>pxTopOfStack = 0, uxPriority = 0, pxStack = 0, pcTaskName = [],
     pvThreadLocalStoragePointers = (\<lambda>_. 0), ulNotifiedValue = (\<lambda>_. 0),
     ucNotifyState = (\<lambda>_. taskNOT_WAITING_NOTIFICATION)\<rparr>"

definition upd_tcb :: "nat \<Rightarrow> (tcb_t \<Rightarrow> tcb_t) \<Rightarrow> 'a kernel_scheme \<Rightarrow> 'a kernel_scheme" where
  "upd_tcb t f s = s\<lparr>tcb := (tcb s)(t := f (tcb s t))\<rparr>"

text \<open>
  A store through a pointer into the block that the allocator handed out at \<open>block\<close>.  Behind the
  block lies the header of the next one, so a store that is not within the block, as the header
  in front of it says, is an error.
\<close>

definition store_word :: "nat \<Rightarrow> nat \<Rightarrow> u32 \<Rightarrow> 'a kernel_scheme \<Rightarrow> 'a kernel_scheme option" where
  "store_word block a w s =
     (if within_block (kheap s) block a \<and> within_block (kheap s) block (a + 3)
      then Some (s\<lparr>stack_mem := (stack_mem s)(a := w)\<rparr>)
      else None)"

text \<open>
  \<open>pxPortInitialiseStack\<close> of \<open>port.c\<close> for the non-TrustZone build with a floating point unit;
  \<open>task_return\<close> is the address of \<open>prvTaskExitError\<close>, \<open>psplim\<close> tells whether the core has the
  stack limit register.
\<close>

definition portINITIAL_XPSR :: u32 where
  "portINITIAL_XPSR = 0x01000000"

definition portINITIAL_EXC_RETURN :: u32 where
  "portINITIAL_EXC_RETURN = 0xfffffffd"

definition portSTART_ADDRESS_MASK :: u32 where
  "portSTART_ADDRESS_MASK = 0xfffffffe"

record port_cfg =
  task_return :: u32
  psplim :: bool

text \<open>\<open>RM_FREERTOS_PORT_PENDSV_PSPLIM_OFFSET_BYTES\<close>: 8 registers and the limit word, made even, times 4.\<close>

definition psplim_offset :: "port_cfg \<Rightarrow> nat" where
  "psplim_offset cfg = (let words = 8 + (if psplim cfg then 1 else 0) in (words + words mod 2) * 4)"

definition pxPortInitialiseStack ::
  "port_cfg \<Rightarrow> nat \<Rightarrow> nat \<Rightarrow> u32 \<Rightarrow> u32 \<Rightarrow> 'a kernel_scheme \<Rightarrow> ('a kernel_scheme \<times> nat) option" where
  "pxPortInitialiseStack cfg sp end_of_stack pxCode pvParameters s =
     do {
       let sp = wsub sp 4; s \<leftarrow> store_word end_of_stack sp portINITIAL_XPSR s;
       let sp = wsub sp 4; s \<leftarrow> store_word end_of_stack sp (pxCode AND portSTART_ADDRESS_MASK) s;
       let sp = wsub sp 4; s \<leftarrow> store_word end_of_stack sp (task_return cfg) s;
       let sp = wsub sp (5 * 4); s \<leftarrow> store_word end_of_stack sp pvParameters s;
       let sp = wsub sp 4; s \<leftarrow> store_word end_of_stack sp portINITIAL_EXC_RETURN s;
       let sp = wsub sp (8 * 4);
       if psplim cfg
       then do {
         let sp = wsub sp 4;
         s \<leftarrow> store_word end_of_stack sp (of_nat (wadd end_of_stack (psplim_offset cfg))) s;
         Some (s, sp)
       }
       else Some (s, sp)
     }"

definition init_item :: "kitem \<Rightarrow> 'a kernel_scheme \<Rightarrow> 'a kernel_scheme" where
  "init_item i s = s\<lparr>lists := (lists s)\<lparr>acont := (acont (lists s))(i := None)\<rparr>\<rparr>"

definition prvInitialiseNewTask ::
  "port_cfg \<Rightarrow> u32 \<Rightarrow> char list \<Rightarrow> nat \<Rightarrow> u32 \<Rightarrow> nat \<Rightarrow> nat \<Rightarrow> 'a kernel_scheme \<Rightarrow> 'a kernel_scheme option" where
  "prvInitialiseNewTask cfg pxTaskCode pcName ulStackDepth pvParameters prio new s =
     do {
       let sp = wadd (pxStack (tcb s new)) (wmul (wsub ulStackDepth 1) 4);
       let sp = sp AND 4294967288;
       configASSERT (sp AND 7 = 0);
       let s = upd_tcb new (pcTaskName_update (\<lambda>_. take (configMAX_TASK_NAME_LEN - 1) pcName)) s;
       configASSERT (prio < configMAX_PRIORITIES);
       let prio = (if prio \<ge> configMAX_PRIORITIES then configMAX_PRIORITIES - 1 else prio);
       let s = upd_tcb new (uxPriority_update (\<lambda>_. prio)) s;
       let s = init_item (StateItem new) s;
       let s = init_item (EventItem new) s;
       let s = set_item_value (EventItem new) (of_nat configMAX_PRIORITIES - of_nat prio) s;
       (s, sp) \<leftarrow> pxPortInitialiseStack cfg sp (pxStack (tcb s new)) pxTaskCode pvParameters s;
       Some (upd_tcb new (pxTopOfStack_update (\<lambda>_. sp)) s)
     }"

definition init_list :: "klist \<Rightarrow> 'a kernel_scheme \<Rightarrow> 'a kernel_scheme" where
  "init_list l s = s\<lparr>lists := a_initialise l (lists s)\<rparr>"

definition prvInitialiseTaskLists :: "'a kernel_scheme \<Rightarrow> 'a kernel_scheme" where
  "prvInitialiseTaskLists s =
     (let s = fold (\<lambda>p. init_list (Ready p)) [0..<configMAX_PRIORITIES] s;
          s = init_list DelayedTaskList1 s;
          s = init_list DelayedTaskList2 s;
          s = init_list PendingReadyList s;
          s = init_list TasksWaitingTermination s;
          s = init_list SuspendedTaskList s
      in s\<lparr>pxDelayedTaskList := DelayedTaskList1, pxOverflowDelayedTaskList := DelayedTaskList2\<rparr>)"

definition prvAddNewTaskToReadyList :: "nat \<Rightarrow> 'a kernel_scheme \<Rightarrow> 'a kernel_scheme" where
  "prvAddNewTaskToReadyList new s =
     (let s = s\<lparr>uxCurrentNumberOfTasks := uxCurrentNumberOfTasks s + 1\<rparr>;
          s = (if pxCurrentTCB s = 0
               then let s = s\<lparr>pxCurrentTCB := new\<rparr>
                    in if uxCurrentNumberOfTasks s = 1 then prvInitialiseTaskLists s else s
               else if \<not> xSchedulerRunning s
               then if uxPriority (tcb s (pxCurrentTCB s)) \<le> uxPriority (tcb s new)
                    then s\<lparr>pxCurrentTCB := new\<rparr> else s
               else s);
          s = s\<lparr>uxTaskNumber := uxTaskNumber s + 1\<rparr>;
          s = prvAddTaskToReadyList new s
      in if xSchedulerRunning s \<and> uxPriority (tcb s (pxCurrentTCB s)) < uxPriority (tcb s new)
         then portYIELD s else s)"

text \<open>The new handle, or 0 with the error \<open>errCOULD_NOT_ALLOCATE_REQUIRED_MEMORY\<close>.\<close>

definition xTaskCreate ::
  "port_cfg \<Rightarrow> u32 \<Rightarrow> char list \<Rightarrow> nat \<Rightarrow> u32 \<Rightarrow> nat \<Rightarrow> 'a kernel_scheme \<Rightarrow> ('a kernel_scheme \<times> nat) option" where
  "xTaskCreate cfg pxTaskCode pcName usStackDepth pvParameters prio s =
     do {
       (s, stk) \<leftarrow> kernel_malloc (wmul usStackDepth 4) s;
       (s, new) \<leftarrow>
         (if stk \<noteq> 0 then
            do {
              (s, new) \<leftarrow> kernel_malloc sizeof_TCB s;
              if new \<noteq> 0 then Some (upd_tcb new (\<lambda>_. zero_tcb\<lparr>pxStack := stk\<rparr>) s, new)
              else do { s \<leftarrow> kernel_free stk s; Some (s, 0) }
            }
          else Some (s, 0));
       if new \<noteq> 0 then
         do {
           s \<leftarrow> prvInitialiseNewTask cfg pxTaskCode pcName usStackDepth pvParameters prio new s;
           Some (prvAddNewTaskToReadyList new s, new)
         }
       else Some (s, 0)
     }"

section \<open>Deletion\<close>

definition prvDeleteTCB :: "nat \<Rightarrow> 'a kernel_scheme \<Rightarrow> 'a kernel_scheme option" where
  "prvDeleteTCB t s = do { s \<leftarrow> kernel_free (pxStack (tcb s t)) s; kernel_free t s }"

definition remove_event :: "nat \<Rightarrow> 'a kernel_scheme \<Rightarrow> 'a kernel_scheme option" where
  "remove_event t s =
     (if listLIST_ITEM_CONTAINER (EventItem t) s \<noteq> None then listREMOVE_ITEM (EventItem t) s else Some s)"

definition vTaskDelete :: "nat \<Rightarrow> 'a kernel_scheme \<Rightarrow> 'a kernel_scheme option" where
  "vTaskDelete xTaskToDelete s =
     do {
       let t = prvGetTCBFromHandle xTaskToDelete s;
       s \<leftarrow> listREMOVE_ITEM (StateItem t) s;
       s \<leftarrow> remove_event t s;
       let s = s\<lparr>uxTaskNumber := uxTaskNumber s + 1\<rparr>;
       let s = (if t = pxCurrentTCB s
                then (insert_end TasksWaitingTermination (StateItem t) s)
                       \<lparr>uxDeletedTasksWaitingCleanUp := uxDeletedTasksWaitingCleanUp s + 1\<rparr>
                else prvResetNextTaskUnblockTime
                       (s\<lparr>uxCurrentNumberOfTasks := uxCurrentNumberOfTasks s - 1\<rparr>));
       s \<leftarrow> (if t \<noteq> pxCurrentTCB s then prvDeleteTCB t s else Some s);
       if xSchedulerRunning s \<and> t = pxCurrentTCB s
       then do { configASSERT (uxSchedulerSuspended s = 0); Some (portYIELD s) }
       else Some s
     }"

text \<open>One round of the loop of \<open>prvCheckTasksWaitingTermination\<close>, and the loop.\<close>

definition clean_up_one :: "'a kernel_scheme \<Rightarrow> 'a kernel_scheme option" where
  "clean_up_one s =
     do {
       t \<leftarrow> listGET_OWNER_OF_HEAD_ENTRY TasksWaitingTermination s;
       s \<leftarrow> listREMOVE_ITEM (StateItem t) s;
       let s = s\<lparr>uxCurrentNumberOfTasks := uxCurrentNumberOfTasks s - 1,
                 uxDeletedTasksWaitingCleanUp := uxDeletedTasksWaitingCleanUp s - 1\<rparr>;
       prvDeleteTCB t s
     }"

partial_function (option) prvCheckTasksWaitingTermination :: "'a kernel_scheme \<Rightarrow> 'a kernel_scheme option" where
  "prvCheckTasksWaitingTermination s =
     (if uxDeletedTasksWaitingCleanUp s > 0
      then do { s \<leftarrow> clean_up_one s; prvCheckTasksWaitingTermination s }
      else Some s)"

section \<open>Delays\<close>

definition vTaskDelay :: "u32 \<Rightarrow> 'a kernel_scheme \<Rightarrow> 'a kernel_scheme option" where
  "vTaskDelay xTicksToDelay s =
     do {
       (s, xAlreadyYielded) \<leftarrow>
         (if xTicksToDelay > 0 then
            do {
              configASSERT (uxSchedulerSuspended s = 0);
              let s = vTaskSuspendAll s;
              s \<leftarrow> prvAddCurrentTaskToDelayedList xTicksToDelay False s;
              xTaskResumeAll s
            }
          else Some (s, False));
       Some (if \<not> xAlreadyYielded then portYIELD s else s)
     }"

text \<open>The state, the updated \<open>*pxPreviousWakeTime\<close> and \<open>xShouldDelay\<close>.\<close>

definition should_delay :: "u32 \<Rightarrow> u32 \<Rightarrow> u32 \<Rightarrow> bool" where
  "should_delay previous xTimeToWake now =
     (if now < previous then xTimeToWake < previous \<and> xTimeToWake > now
      else xTimeToWake < previous \<or> xTimeToWake > now)"

definition xTaskDelayUntil ::
  "u32 \<Rightarrow> u32 \<Rightarrow> 'a kernel_scheme \<Rightarrow> ('a kernel_scheme \<times> u32 \<times> bool) option" where
  "xTaskDelayUntil previous xTimeIncrement s =
     do {
       configASSERT (xTimeIncrement > 0);
       configASSERT (uxSchedulerSuspended s = 0);
       let s = vTaskSuspendAll s;
       let xConstTickCount = xTickCount s;
       let xTimeToWake = previous + xTimeIncrement;
       let xShouldDelay = should_delay previous xTimeToWake xConstTickCount;
       s \<leftarrow> (if xShouldDelay
             then prvAddCurrentTaskToDelayedList (xTimeToWake - xConstTickCount) False s else Some s);
       (s, xAlreadyYielded) \<leftarrow> xTaskResumeAll s;
       Some (if \<not> xAlreadyYielded then portYIELD s else s, xTimeToWake, xShouldDelay)
     }"


section \<open>Priorities, suspension, resumption\<close>

definition uxTaskPriorityGet :: "nat \<Rightarrow> 'a kernel_scheme \<Rightarrow> nat" where
  "uxTaskPriorityGet xTask s = uxPriority (tcb s (prvGetTCBFromHandle xTask s))"

definition vTaskPrioritySet :: "nat \<Rightarrow> nat \<Rightarrow> 'a kernel_scheme \<Rightarrow> 'a kernel_scheme option" where
  "vTaskPrioritySet xTask uxNewPriority s =
     do {
       configASSERT (uxNewPriority < configMAX_PRIORITIES);
       let new = (if uxNewPriority \<ge> configMAX_PRIORITIES then configMAX_PRIORITIES - 1 else uxNewPriority);
       let t = prvGetTCBFromHandle xTask s;
       let old = uxPriority (tcb s t);
       if old \<noteq> new then
         do {
           let xYieldRequired =
             (if new > old then t \<noteq> pxCurrentTCB s \<and> new \<ge> uxPriority (tcb s (pxCurrentTCB s))
              else t = pxCurrentTCB s);
           let s = upd_tcb t (uxPriority_update (\<lambda>_. new)) s;
           let s = (if listGET_LIST_ITEM_VALUE (EventItem t) s AND taskEVENT_LIST_ITEM_VALUE_IN_USE = 0
                    then set_item_value (EventItem t) (of_nat configMAX_PRIORITIES - of_nat new) s else s);
           s \<leftarrow> (if listLIST_ITEM_CONTAINER (StateItem t) s = Some (Ready old)
                 then do {
                   s \<leftarrow> listREMOVE_ITEM (StateItem t) s;
                   Some (prvAddTaskToReadyList t s)
                 }
                 else Some s);
           Some (if xYieldRequired then portYIELD s else s)
         }
       else Some s
     }"

definition stop_waiting :: "notify_state \<Rightarrow> notify_state" where
  "stop_waiting n = (if n = taskWAITING_NOTIFICATION then taskNOT_WAITING_NOTIFICATION else n)"

definition vTaskSuspend :: "nat \<Rightarrow> 'a kernel_scheme \<Rightarrow> 'a kernel_scheme option" where
  "vTaskSuspend xTaskToSuspend s =
     do {
       let t = prvGetTCBFromHandle xTaskToSuspend s;
       s \<leftarrow> listREMOVE_ITEM (StateItem t) s;
       s \<leftarrow> remove_event t s;
       let s = insert_end SuspendedTaskList (StateItem t) s;
       let s = upd_tcb t (ucNotifyState_update (\<lambda>f. f(0 := stop_waiting (f 0)))) s;
       let s = (if xSchedulerRunning s then prvResetNextTaskUnblockTime s else s);
       if t = pxCurrentTCB s then
         if xSchedulerRunning s
         then do { configASSERT (uxSchedulerSuspended s = 0); Some (portYIELD s) }
         else if (of_nat (length (items s SuspendedTaskList)) :: u32) = uxCurrentNumberOfTasks s
         then Some (s\<lparr>pxCurrentTCB := 0\<rparr>)
         else vTaskSwitchContext s
       else Some s
     }"

definition prvTaskIsTaskSuspended :: "nat \<Rightarrow> 'a kernel_scheme \<Rightarrow> bool" where
  "prvTaskIsTaskSuspended t s =
     (if listLIST_ITEM_CONTAINER (StateItem t) s = Some SuspendedTaskList
      then if listLIST_ITEM_CONTAINER (EventItem t) s \<noteq> Some PendingReadyList
           then listLIST_ITEM_CONTAINER (EventItem t) s = None
           else False
      else False)"

definition vTaskResume :: "nat \<Rightarrow> 'a kernel_scheme \<Rightarrow> 'a kernel_scheme option" where
  "vTaskResume t s =
     do {
       configASSERT (t \<noteq> 0);
       if t \<noteq> pxCurrentTCB s \<and> t \<noteq> 0 \<and> prvTaskIsTaskSuspended t s then
         do {
           s \<leftarrow> listREMOVE_ITEM (StateItem t) s;
           let s = prvAddTaskToReadyList t s;
           Some (if uxPriority (tcb s t) \<ge> uxPriority (tcb s (pxCurrentTCB s)) then portYIELD s else s)
         }
       else Some s
     }"

definition xTaskResumeFromISR :: "nat \<Rightarrow> 'a kernel_scheme \<Rightarrow> ('a kernel_scheme \<times> bool) option" where
  "xTaskResumeFromISR t s =
     do {
       configASSERT (t \<noteq> 0);
       if prvTaskIsTaskSuspended t s then
         if uxSchedulerSuspended s = 0 then
           do {
             let xYieldRequired = (uxPriority (tcb s t) \<ge> uxPriority (tcb s (pxCurrentTCB s)));
             let s = (if xYieldRequired then s\<lparr>xYieldPending := True\<rparr> else s);
             s \<leftarrow> listREMOVE_ITEM (StateItem t) s;
             Some (prvAddTaskToReadyList t s, xYieldRequired)
           }
         else Some (insert_end PendingReadyList (EventItem t) s, False)
       else Some (s, False)
     }"

section \<open>Direct-to-task notifications\<close>

datatype eNotifyAction =
  eNoAction | eSetBits | eIncrement | eSetValueWithOverwrite | eSetValueWithoutOverwrite

definition configTASK_NOTIFICATION_ARRAY_ENTRIES :: nat where
  "configTASK_NOTIFICATION_ARRAY_ENTRIES = 1"

definition set_notify :: "nat \<Rightarrow> nat \<Rightarrow> notify_state \<Rightarrow> 'a kernel_scheme \<Rightarrow> 'a kernel_scheme" where
  "set_notify t i n s = upd_tcb t (ucNotifyState_update (\<lambda>f. f(i := n))) s"

definition set_nvalue :: "nat \<Rightarrow> nat \<Rightarrow> u32 \<Rightarrow> 'a kernel_scheme \<Rightarrow> 'a kernel_scheme" where
  "set_nvalue t i v s = upd_tcb t (ulNotifiedValue_update (\<lambda>f. f(i := v))) s"

text \<open>\<open>ulTaskGenericNotifyTake\<close>, up to the point where it may yield, and from there on.\<close>

definition ulTaskGenericNotifyTake_wait :: "nat \<Rightarrow> u32 \<Rightarrow> 'a kernel_scheme \<Rightarrow> 'a kernel_scheme option" where
  "ulTaskGenericNotifyTake_wait i xTicksToWait s =
     do {
       configASSERT (i < configTASK_NOTIFICATION_ARRAY_ENTRIES);
       let c = pxCurrentTCB s;
       if ulNotifiedValue (tcb s c) i = 0 then
         do {
           let s = set_notify c i taskWAITING_NOTIFICATION s;
           if xTicksToWait > 0
           then do { s \<leftarrow> prvAddCurrentTaskToDelayedList xTicksToWait True s; Some (portYIELD s) }
           else Some s
         }
       else Some s
     }"

definition ulTaskGenericNotifyTake_end :: "nat \<Rightarrow> bool \<Rightarrow> 'a kernel_scheme \<Rightarrow> 'a kernel_scheme \<times> u32" where
  "ulTaskGenericNotifyTake_end i xClearCountOnExit s =
     (let c = pxCurrentTCB s;
          r = ulNotifiedValue (tcb s c) i;
          s = (if r \<noteq> 0 then set_nvalue c i (if xClearCountOnExit then 0 else r - 1) s else s)
      in (set_notify c i taskNOT_WAITING_NOTIFICATION s, r))"

definition xTaskGenericNotifyWait_wait ::
  "nat \<Rightarrow> u32 \<Rightarrow> u32 \<Rightarrow> 'a kernel_scheme \<Rightarrow> 'a kernel_scheme option" where
  "xTaskGenericNotifyWait_wait i ulBitsToClearOnEntry xTicksToWait s =
     do {
       configASSERT (i < configTASK_NOTIFICATION_ARRAY_ENTRIES);
       let c = pxCurrentTCB s;
       if ucNotifyState (tcb s c) i \<noteq> taskNOTIFICATION_RECEIVED then
         do {
           let s = set_nvalue c i (ulNotifiedValue (tcb s c) i AND NOT ulBitsToClearOnEntry) s;
           let s = set_notify c i taskWAITING_NOTIFICATION s;
           if xTicksToWait > 0
           then do { s \<leftarrow> prvAddCurrentTaskToDelayedList xTicksToWait True s; Some (portYIELD s) }
           else Some s
         }
       else Some s
     }"

text \<open>The state, \<open>*pulNotificationValue\<close> and the result.\<close>

definition xTaskGenericNotifyWait_end ::
  "nat \<Rightarrow> u32 \<Rightarrow> 'a kernel_scheme \<Rightarrow> 'a kernel_scheme \<times> u32 \<times> bool" where
  "xTaskGenericNotifyWait_end i ulBitsToClearOnExit s =
     (let c = pxCurrentTCB s;
          v = ulNotifiedValue (tcb s c) i;
          r = (ucNotifyState (tcb s c) i = taskNOTIFICATION_RECEIVED);
          s = (if r then set_nvalue c i (v AND NOT ulBitsToClearOnExit) s else s)
      in (set_notify c i taskNOT_WAITING_NOTIFICATION s, v, r))"

text \<open>The \<open>switch\<close> on the action, common to the task and the interrupt version.\<close>

definition notify_action ::
  "eNotifyAction \<Rightarrow> nat \<Rightarrow> nat \<Rightarrow> u32 \<Rightarrow> notify_state \<Rightarrow> 'a kernel_scheme \<Rightarrow> 'a kernel_scheme \<times> bool" where
  "notify_action a t i ulValue ucOriginalNotifyState s =
     (let v = ulNotifiedValue (tcb s t) i in
      case a of
        eSetBits \<Rightarrow> (set_nvalue t i (v OR ulValue) s, True)
      | eIncrement \<Rightarrow> (set_nvalue t i (v + 1) s, True)
      | eSetValueWithOverwrite \<Rightarrow> (set_nvalue t i ulValue s, True)
      | eSetValueWithoutOverwrite \<Rightarrow>
          (if ucOriginalNotifyState \<noteq> taskNOTIFICATION_RECEIVED
           then (set_nvalue t i ulValue s, True) else (s, False))
      | eNoAction \<Rightarrow> (s, True))"

text \<open>The state, \<open>*pulPreviousNotificationValue\<close> and the result (\<open>pdPASS\<close> or \<open>pdFAIL\<close>).\<close>

definition xTaskGenericNotify ::
  "nat \<Rightarrow> nat \<Rightarrow> u32 \<Rightarrow> eNotifyAction \<Rightarrow> 'a kernel_scheme \<Rightarrow> ('a kernel_scheme \<times> u32 \<times> bool) option" where
  "xTaskGenericNotify t i ulValue eAction s =
     do {
       configASSERT (i < configTASK_NOTIFICATION_ARRAY_ENTRIES);
       configASSERT (t \<noteq> 0);
       let previous = ulNotifiedValue (tcb s t) i;
       let orig = ucNotifyState (tcb s t) i;
       let s = set_notify t i taskNOTIFICATION_RECEIVED s;
       let (s, xReturn) = notify_action eAction t i ulValue orig s;
       s \<leftarrow> (if orig = taskWAITING_NOTIFICATION then
               do {
                 s \<leftarrow> listREMOVE_ITEM (StateItem t) s;
                 let s = prvAddTaskToReadyList t s;
                 configASSERT (listLIST_ITEM_CONTAINER (EventItem t) s = None);
                 Some (if uxPriority (tcb s t) > uxPriority (tcb s (pxCurrentTCB s)) then portYIELD s else s)
               }
             else Some s);
       Some (s, previous, xReturn)
     }"

text \<open>The waking of the notified task in an interrupt; the flag is \<open>*pxHigherPriorityTaskWoken\<close>.\<close>

definition notify_wake_from_isr :: "nat \<Rightarrow> 'a kernel_scheme \<Rightarrow> ('a kernel_scheme \<times> bool) option" where
  "notify_wake_from_isr t s =
     do {
       configASSERT (listLIST_ITEM_CONTAINER (EventItem t) s = None);
       s \<leftarrow> (if uxSchedulerSuspended s = 0
             then do { s \<leftarrow> listREMOVE_ITEM (StateItem t) s; Some (prvAddTaskToReadyList t s) }
             else Some (insert_end PendingReadyList (EventItem t) s));
       if uxPriority (tcb s t) > uxPriority (tcb s (pxCurrentTCB s))
       then Some (s\<lparr>xYieldPending := True\<rparr>, True) else Some (s, False)
     }"

definition xTaskGenericNotifyFromISR ::
  "nat \<Rightarrow> nat \<Rightarrow> u32 \<Rightarrow> eNotifyAction \<Rightarrow> 'a kernel_scheme \<Rightarrow>
   ('a kernel_scheme \<times> u32 \<times> bool \<times> bool) option" where
  "xTaskGenericNotifyFromISR t i ulValue eAction s =
     do {
       configASSERT (t \<noteq> 0);
       configASSERT (i < configTASK_NOTIFICATION_ARRAY_ENTRIES);
       let previous = ulNotifiedValue (tcb s t) i;
       let orig = ucNotifyState (tcb s t) i;
       let s = set_notify t i taskNOTIFICATION_RECEIVED s;
       let (s, xReturn) = notify_action eAction t i ulValue orig s;
       (s, woken) \<leftarrow>
         (if orig = taskWAITING_NOTIFICATION then notify_wake_from_isr t s else Some (s, False));
       Some (s, previous, xReturn, woken)
     }"

definition vTaskGenericNotifyGiveFromISR ::
  "nat \<Rightarrow> nat \<Rightarrow> 'a kernel_scheme \<Rightarrow> ('a kernel_scheme \<times> bool) option" where
  "vTaskGenericNotifyGiveFromISR t i s =
     do {
       configASSERT (t \<noteq> 0);
       configASSERT (i < configTASK_NOTIFICATION_ARRAY_ENTRIES);
       let orig = ucNotifyState (tcb s t) i;
       let s = set_notify t i taskNOTIFICATION_RECEIVED s;
       let s = set_nvalue t i (ulNotifiedValue (tcb s t) i + 1) s;
       if orig = taskWAITING_NOTIFICATION then notify_wake_from_isr t s else Some (s, False)
     }"

definition xTaskGenericNotifyStateClear :: "nat \<Rightarrow> nat \<Rightarrow> 'a kernel_scheme \<Rightarrow> ('a kernel_scheme \<times> bool) option" where
  "xTaskGenericNotifyStateClear xTask i s =
     do {
       configASSERT (i < configTASK_NOTIFICATION_ARRAY_ENTRIES);
       let t = prvGetTCBFromHandle xTask s;
       Some (if ucNotifyState (tcb s t) i = taskNOTIFICATION_RECEIVED
             then (set_notify t i taskNOT_WAITING_NOTIFICATION s, True) else (s, False))
     }"

definition ulTaskGenericNotifyValueClear :: "nat \<Rightarrow> nat \<Rightarrow> u32 \<Rightarrow> 'a kernel_scheme \<Rightarrow> 'a kernel_scheme \<times> u32" where
  "ulTaskGenericNotifyValueClear xTask i ulBitsToClear s =
     (let t = prvGetTCBFromHandle xTask s;
          v = ulNotifiedValue (tcb s t) i
      in (set_nvalue t i (v AND NOT ulBitsToClear) s, v))"

section \<open>Other accessors\<close>

definition configNUM_THREAD_LOCAL_STORAGE_POINTERS :: int where
  "configNUM_THREAD_LOCAL_STORAGE_POINTERS = 5"

definition vTaskSetThreadLocalStoragePointer ::
  "nat \<Rightarrow> int \<Rightarrow> nat \<Rightarrow> 'a kernel_scheme \<Rightarrow> 'a kernel_scheme option" where
  "vTaskSetThreadLocalStoragePointer xTaskToSet xIndex pvValue s =
     (if xIndex \<ge> 0 \<and> xIndex < configNUM_THREAD_LOCAL_STORAGE_POINTERS
      then do {
        let t = prvGetTCBFromHandle xTaskToSet s;
        configASSERT (t \<noteq> 0);
        Some (upd_tcb t (pvThreadLocalStoragePointers_update (\<lambda>f. f(nat xIndex := pvValue))) s)
      }
      else Some s)"

definition pvTaskGetThreadLocalStoragePointer :: "nat \<Rightarrow> int \<Rightarrow> 'a kernel_scheme \<Rightarrow> nat" where
  "pvTaskGetThreadLocalStoragePointer xTaskToQuery xIndex s =
     (if xIndex \<ge> 0 \<and> xIndex < configNUM_THREAD_LOCAL_STORAGE_POINTERS
      then pvThreadLocalStoragePointers (tcb s (prvGetTCBFromHandle xTaskToQuery s)) (nat xIndex)
      else 0)"

datatype scheduler_state = taskSCHEDULER_NOT_STARTED | taskSCHEDULER_RUNNING | taskSCHEDULER_SUSPENDED

definition xTaskGetSchedulerState :: "'a kernel_scheme \<Rightarrow> scheduler_state" where
  "xTaskGetSchedulerState s =
     (if \<not> xSchedulerRunning s then taskSCHEDULER_NOT_STARTED
      else if uxSchedulerSuspended s = 0 then taskSCHEDULER_RUNNING
      else taskSCHEDULER_SUSPENDED)"

definition xTaskGetTickCount :: "'a kernel_scheme \<Rightarrow> u32" where
  "xTaskGetTickCount s = xTickCount s"

definition uxTaskGetNumberOfTasks :: "'a kernel_scheme \<Rightarrow> u32" where
  "uxTaskGetNumberOfTasks s = uxCurrentNumberOfTasks s"

text \<open>The two interrupt handlers of \<open>port.c\<close> that drive the kernel.\<close>

definition SysTick_Handler :: "'a kernel_scheme \<Rightarrow> 'a kernel_scheme option" where
  "SysTick_Handler s =
     do { (s, sw) \<leftarrow> xTaskIncrementTick s; Some (if sw then portYIELD s else s) }"

definition PendSV_Handler :: "'a kernel_scheme \<Rightarrow> 'a kernel_scheme option" where
  "PendSV_Handler s = vTaskSwitchContext (s\<lparr>pendsv := False\<rparr>)"


section \<open>The invariant of the task system\<close>

definition ktasks :: "'a kernel_scheme \<Rightarrow> nat set" where
  "ktasks s = {t. acont (lists s) (StateItem t) \<noteq> None}"

definition terminated :: "'a kernel_scheme \<Rightarrow> nat set" where
  "terminated s = {t. acont (lists s) (StateItem t) = Some TasksWaitingTermination}"

text \<open>
  Every task owns two live heap regions, its control block and its stack, each large enough for
  what the kernel writes there when it creates the task, and no region serves two purposes.
  \<open>S\<close> and \<open>E\<close> are the ends of the heap.  \<open>initial_frame\<close> is the depth in words that the initial
  frame needs with the stack limit and the alignment of the stack pointer.
\<close>

definition initial_frame :: nat where
  "initial_frame = 19"

definition owned_by :: "nat \<Rightarrow> tile list \<Rightarrow> 'a kernel_scheme \<Rightarrow> bool" where
  "owned_by S ts s \<longleftrightarrow>
     (\<forall>t \<in> ktasks s. (\<exists>n \<ge> sizeof_TCB. (t, n) \<in> live_regions S ts) \<and>
        (\<exists>m \<ge> initial_frame * 4. (pxStack (tcb s t), m) \<in> live_regions S ts)) \<and>
     (\<forall>t \<in> ktasks s. \<forall>u \<in> ktasks s. pxStack (tcb s t) \<noteq> u \<and> (pxStack (tcb s t) = pxStack (tcb s u) \<longrightarrow> t = u))"

definition owned :: "nat \<Rightarrow> nat \<Rightarrow> 'a kernel_scheme \<Rightarrow> bool" where
  "owned S E s \<longleftrightarrow> (\<exists>ts. heap_ok (kheap s) S ts \<and> pxEnd (kheap s) = E \<and> owned_by S ts s)"

definition counted :: "'a kernel_scheme \<Rightarrow> bool" where
  "counted s \<longleftrightarrow>
     finite (ktasks s) \<and> uxCurrentNumberOfTasks s = of_nat (card (ktasks s)) \<and>
     uxDeletedTasksWaitingCleanUp s = of_nat (card (terminated s))"

definition waiting_free :: "'a kernel_scheme \<Rightarrow> bool" where
  "waiting_free s \<longleftrightarrow>
     (\<forall>t. ucNotifyState (tcb s t) 0 = taskWAITING_NOTIFICATION \<longrightarrow> acont (lists s) (EventItem t) = None)"

text \<open>
  \<open>tinv\<close>: the scheduler invariant, memory ownership, the counters, an idle task that is always
  ready, and no event item in use by a task that waits for a notification.
\<close>

definition tinv :: "nat \<Rightarrow> nat \<Rightarrow> 'a kernel_scheme \<Rightarrow> bool" where
  "tinv S E s \<longleftrightarrow>
     kinv s \<and> owned S E s \<and> counted s \<and> is_ready s (xIdleTaskHandle s) \<and> waiting_free s"

lemma kinv_congI:
  assumes "kinv s" and "lists s' = lists s" and "\<And>t. t \<in> ktasks s \<Longrightarrow> uxPriority (tcb s' t) = uxPriority (tcb s t)"
    and "xTickCount s' = xTickCount s" and "pxDelayedTaskList s' = pxDelayedTaskList s"
    and "pxOverflowDelayedTaskList s' = pxOverflowDelayedTaskList s"
    and "uxTopReadyPriority s' = uxTopReadyPriority s" and "xNextTaskUnblockTime s' = xNextTaskUnblockTime s"
    and "uxSchedulerSuspended s' = uxSchedulerSuspended s" and "pxCurrentTCB s' \<in> ktasks s"
  shows "kinv s'"
  using assms unfolding kinv_def kinv0_def places_def delays_def readies_def unblock_times_def
    none_pending_def ktasks_def by simp

lemma kinv_current: "kinv s \<Longrightarrow> pxCurrentTCB s \<in> ktasks s"
  by (simp add: kinv_def kinv0_def ktasks_def)

lemma kinv_set_event_value:
  assumes "kinv s"
  shows "kinv (set_item_value (EventItem t) v s)"
proof -
  have i0: "kinv0 0 s" using assms by (simp add: kinv_def)
  have "acont (lists s) (EventItem t) \<noteq> Some (pxDelayedTaskList s)"
    "acont (lists s) (EventItem t) \<noteq> Some (pxOverflowDelayedTaskList s)"
    using kinv_event [OF assms, of t] i0 by (auto simp: kinv0_def delays_def)
  then show ?thesis
    using assms unfolding kinv_def kinv0_def places_def delays_def readies_def unblock_times_def
      none_pending_def set_item_value_def by auto
qed

lemma ktasks_nz: "kinv s \<Longrightarrow> t \<in> ktasks s \<Longrightarrow> t \<noteq> 0"
  using kinv_state by (auto simp: ktasks_def)

lemma event_of_task: "kinv s \<Longrightarrow> t \<notin> ktasks s \<Longrightarrow> acont (lists s) (EventItem t) = None"
  using kinv_event [of s t] by (cases "acont (lists s) (EventItem t)") (auto simp: ktasks_def)

lemma sframe_ktasks: "sframe s s' \<Longrightarrow> ktasks s' = ktasks s"
  unfolding ktasks_def sframe_def by (auto, metis+)

lemma sframe_terminated: "sframe s s' \<Longrightarrow> terminated s' = terminated s"
  unfolding terminated_def sframe_def by (rule Collect_cong) (metis klist.distinct(7) option.inject)

lemma sframe_ready: "sframe s s' \<Longrightarrow> is_ready s t \<Longrightarrow> is_ready s' t"
  unfolding is_ready_def sframe_def by metis

lemma sframe_tinv:
  assumes "tinv S E s" and "kinv s'" and "sframe s s'"
  shows "tinv S E s'"
proof -
  have "owned S E s'"
    using assms sframe_ktasks [OF assms(3)] by (simp add: tinv_def owned_def owned_by_def sframe_def)
  moreover have "counted s'"
    using assms sframe_ktasks [OF assms(3)] sframe_terminated [OF assms(3)]
    by (simp add: tinv_def counted_def sframe_def)
  moreover have "waiting_free s'"
    using assms unfolding tinv_def waiting_free_def sframe_def by metis
  ultimately show ?thesis
    using assms sframe_ready [OF assms(3)] by (simp add: tinv_def sframe_def)
qed

lemma live_range:
  assumes "heap_ok h S ts" and "(p, n) \<in> live_regions S ts"
  shows "S \<le> p \<and> p \<le> pxEnd h \<and> p < w32"
  using live_bounds [OF assms] assms(1) by (simp add: heap_ok_def heap_layout_def)

lemma finite_tasks_card:
  assumes inv: "tinv S E s"
  shows "card (ktasks s) < 2 ^ 32" and "0 < card (ktasks s)" and "uxCurrentNumberOfTasks s > 0"
proof -
  obtain ts where h: "heap_ok (kheap s) S ts" "owned_by S ts s"
    using inv by (auto simp: tinv_def owned_def)
  have "ktasks s \<subseteq> {1..<2 ^ 32}"
  proof
    fix t assume t: "t \<in> ktasks s"
    then obtain n where "(t, n) \<in> live_regions S ts" using h(2) by (auto simp: owned_by_def)
    then show "t \<in> {1..<2 ^ 32}"
      using live_range [OF h(1)] ktasks_nz [OF _ t] inv by (fastforce simp: tinv_def w32_def)
  qed
  then have "card (ktasks s) \<le> card {1..<(2 :: nat) ^ 32}" by (intro card_mono) auto
  then show lt: "card (ktasks s) < 2 ^ 32" by simp
  have "pxCurrentTCB s \<in> ktasks s" "finite (ktasks s)"
    using inv kinv_current by (auto simp: tinv_def counted_def)
  then show pos: "0 < card (ktasks s)" by (metis card_gt_0_iff empty_iff)
  have "uxCurrentNumberOfTasks s = of_nat (card (ktasks s))" using inv by (simp add: tinv_def counted_def)
  then show "uxCurrentNumberOfTasks s > 0"
    using pos lt of_nat_u32_eq_0 [of "card (ktasks s)"] by (simp add: word_gt_0)
qed

lemma tinv_kinv: "tinv S E s \<Longrightarrow> kinv s"
  by (simp add: tinv_def)

lemma resume_tinv:
  assumes inv: "tinv S E s" and susp: "uxSchedulerSuspended s \<noteq> 0"
  obtains s' b where "xTaskResumeAll s = Some (s', b)" and "tinv S E s'" and "sframe s s'"
    and "uxSchedulerSuspended s' = uxSchedulerSuspended s - 1"
  using xTaskResumeAll_ok [OF tinv_kinv [OF inv] susp finite_tasks_card(3) [OF inv]] sframe_tinv [OF inv]
  by metis

text \<open>
  Allocation and release: the heap changes as \<open>Heap4\<close> promises (through the \<open>allocator\<close>
  contract), the rest of the state only as scheduling allows.
\<close>

lemma kernel_malloc_run:
  assumes inv: "kinv s" and cnt: "uxCurrentNumberOfTasks s > 0" and susp: "uxSchedulerSuspended s + 1 \<noteq> 0"
    and h: "pvPortMalloc n (kheap s) = Some (h, p)"
  obtains s' where "kernel_malloc n s = Some (s', p)" and "kinv s'" and "sframe (s\<lparr>kheap := h\<rparr>) s'"
    and "kheap s' = h" and "uxSchedulerSuspended s' = uxSchedulerSuspended s"
proof -
  let ?q = "(vTaskSuspendAll s)\<lparr>kheap := h\<rparr>"
  have q: "kinv ?q"
    by (rule kinv_congI [OF suspend_all_kinv [OF inv susp]])
      (use kinv_current [OF inv] in \<open>simp_all add: ktasks_def vTaskSuspendAll_def\<close>)
  obtain s' b where r: "xTaskResumeAll ?q = Some (s', b)" "kinv s'" "sframe ?q s'"
    "uxSchedulerSuspended s' = uxSchedulerSuspended ?q - 1"
    using xTaskResumeAll_ok [OF q] susp cnt by (auto simp: vTaskSuspendAll_def)
  have "sframe (s\<lparr>kheap := h\<rparr>) ?q" by (simp add: sframe_def vTaskSuspendAll_def)
  then have f: "sframe (s\<lparr>kheap := h\<rparr>) s'" using r(3) sframe_trans by blast
  have k: "kernel_malloc n s = Some (s', p)"
    using h r(1) by (simp add: kernel_malloc_def vTaskSuspendAll_def Let_def)
  have hp: "kheap s' = h" using f by (simp add: sframe_def)
  show ?thesis
    by (rule that [OF k r(2) f hp]) (use r(4) in \<open>simp add: vTaskSuspendAll_def\<close>)
qed

lemma kernel_malloc_ok:
  assumes inv: "kinv s" and cnt: "uxCurrentNumberOfTasks s > 0" and susp: "uxSchedulerSuspended s + 1 \<noteq> 0"
    and heap: "heap_ok (kheap s) S ts" "pxEnd (kheap s) = E" and n: "n < w32"
  obtains s' p h ts' where "kernel_malloc n s = Some (s', p)" and "kinv s'" and "sframe (s\<lparr>kheap := h\<rparr>) s'"
    and "heap_ok (kheap s') S ts'" and "pxEnd (kheap s') = E"
    and "uxSchedulerSuspended s' = uxSchedulerSuspended s"
    and "if p = 0 then live_regions S ts' = live_regions S ts
         else \<exists>m \<ge> n. live_regions S ts' = insert (p, m) (live_regions S ts) \<and> (p, m) \<notin> live_regions S ts"
proof -
  obtain h p ts' where h: "pvPortMalloc n (kheap s) = Some (h, p)" "heap_ok h S ts' \<and> pxEnd h = E"
    and l: "if p = 0 then live_regions S ts' = live_regions S ts
      else \<exists>m \<ge> n. live_regions S ts' = insert (p, m) (live_regions S ts) \<and> (p, m) \<notin> live_regions S ts"
    using heap4.malloc_live [of "kheap s" S ts E n] heap n by blast
  obtain s' where k: "kernel_malloc n s = Some (s', p)" "kinv s'" "sframe (s\<lparr>kheap := h\<rparr>) s'"
    and s': "kheap s' = h" "uxSchedulerSuspended s' = uxSchedulerSuspended s"
    by (rule kernel_malloc_run [OF inv cnt susp h(1)])
  show ?thesis by (rule that [OF k _ _ s'(2) l]) (use h(2) s' in simp_all)
qed

lemma kernel_free_ok:
  assumes inv: "kinv s" and cnt: "uxCurrentNumberOfTasks s > 0" and susp: "uxSchedulerSuspended s + 1 \<noteq> 0"
    and heap: "heap_ok (kheap s) S ts" "pxEnd (kheap s) = E" and p: "(p, n) \<in> live_regions S ts"
  obtains s' h ts' where "kernel_free p s = Some s'" and "kinv s'" and "sframe (s\<lparr>kheap := h\<rparr>) s'"
    and "heap_ok (kheap s') S ts'" and "pxEnd (kheap s') = E"
    and "uxSchedulerSuspended s' = uxSchedulerSuspended s"
    and "live_regions S ts' = live_regions S ts - {(p, n)}"
proof -
  obtain h ts' where h: "vPortFree p (kheap s) = Some h" "heap_ok h S ts' \<and> pxEnd h = E"
    and l: "live_regions S ts' = live_regions S ts - {(p, n)}"
    using heap4.free_live [of "kheap s" S ts E p n] heap p by blast
  have nz: "p \<noteq> 0"
    using live_range [OF heap(1) p] heap by (auto simp: heap_ok_def heap_layout_def)
  let ?q = "(vTaskSuspendAll s)\<lparr>kheap := h\<rparr>"
  have q: "kinv ?q"
    by (rule kinv_congI [OF suspend_all_kinv [OF inv susp]])
      (use kinv_current [OF inv] in \<open>simp_all add: ktasks_def vTaskSuspendAll_def\<close>)
  obtain s' b where r: "xTaskResumeAll ?q = Some (s', b)" "kinv s'" "sframe ?q s'"
    "uxSchedulerSuspended s' = uxSchedulerSuspended ?q - 1"
    using xTaskResumeAll_ok [OF q] susp cnt by (auto simp: vTaskSuspendAll_def)
  have "sframe (s\<lparr>kheap := h\<rparr>) ?q" by (simp add: sframe_def vTaskSuspendAll_def)
  then have f: "sframe (s\<lparr>kheap := h\<rparr>) s'" using r(3) sframe_trans by blast
  have k: "kernel_free p s = Some s'"
    using h r(1) nz by (simp add: kernel_free_def vTaskSuspendAll_def Let_def)
  have "kheap s' = h" using f by (simp add: sframe_def)
  then show ?thesis
    using that [OF k r(2) f] h(2) l r(4) by (auto simp: vTaskSuspendAll_def)
qed


section \<open>Creation keeps the invariant\<close>

lemma align_down_mod: "(x AND 4294967288) AND 7 = (0 :: nat)"
proof -
  have "(x AND 4294967288) AND 7 = x AND (4294967288 AND 7)" by (simp only: and.assoc)
  also have "(4294967288 :: nat) AND 7 = 0" by (simp add: and_7_nat)
  finally show ?thesis by simp
qed

lemma init_item_id: "acont (lists s) i = None \<Longrightarrow> init_item i s = s"
  by (simp add: init_item_def fun_upd_idem)

lemma set_item_value_frame [simp]:
  "tcb (set_item_value i v s) = tcb s" "acont (lists (set_item_value i v s)) = acont (lists s)"
  by (simp_all add: set_item_value_def)

text \<open>The initial frame fits into a block of \<open>n\<close> bytes, and nothing outside it is written.\<close>

lemma stack_init_ok:
  assumes heap: "heap_ok (kheap s) S ts" and live: "(lim, n) \<in> live_regions S ts"
    and sp: "lim + 72 \<le> sp" "sp \<le> lim + n"
  obtains m p where "pxPortInitialiseStack cfg sp lim code par s = Some (s\<lparr>stack_mem := m\<rparr>, p)"
    and "\<And>a. a < lim \<or> sp \<le> a \<Longrightarrow> m a = stack_mem s a"
proof -
  have b: "sp < w32"
    using live_bounds(2) [OF heap live] heap sp(2) by (simp add: heap_ok_def heap_layout_def)
  have w: "within_block (kheap s) lim a \<longleftrightarrow> lim \<le> a \<and> a < lim + n" for a by (rule within_live [OF heap live])
  have q: "sp = (sp - 72) + 72" "lim \<le> sp - 72" using sp(1) by simp_all
  define q where "q = sp - 72"
  note q = q [folded q_def]
  have st: "store_word lim a v r = Some (r\<lparr>stack_mem := (stack_mem r)(a := v)\<rparr>)"
    if "q \<le> a" "a + 4 \<le> sp" "kheap r = kheap s" for a v and r :: "'a kernel_scheme"
    using that q(2) sp(2) by (simp add: store_word_def w)
  let ?m = "(stack_mem s)(q + 68 := portINITIAL_XPSR, q + 64 := code AND portSTART_ADDRESS_MASK,
    q + 60 := task_return cfg, q + 40 := par, q + 36 := portINITIAL_EXC_RETURN)"
  show ?thesis
  proof (cases "psplim cfg")
    case True
    have "pxPortInitialiseStack cfg sp lim code par s =
        Some (s\<lparr>stack_mem := ?m(q := of_nat (wadd lim (psplim_offset cfg)))\<rparr>, q)"
      using True q b by (simp add: pxPortInitialiseStack_def st) (simp only: add.commute)
    then show ?thesis by (rule that) (use q in auto)
  next
    case False
    have "pxPortInitialiseStack cfg sp lim code par s = Some (s\<lparr>stack_mem := ?m\<rparr>, q + 4)"
      using False q b by (simp add: pxPortInitialiseStack_def st) (simp only: add.commute)
    then show ?thesis by (rule that) (use q in auto)
  qed
qed

text \<open>
  What the initialisation of a fresh control block leaves: only the block itself and the memory
  of the stack change.
\<close>

lemma initial_top:
  assumes "8 dvd lim" and "initial_frame \<le> depth" and "depth * 4 < w32" and "lim + depth * 4 \<le> w32"
  defines "sp \<equiv> wadd lim (wmul (wsub depth 1) 4) AND 4294967288"
  shows "lim + 72 \<le> sp" and "sp \<le> lim + depth * 4" and "sp = (lim + (depth - 1) * 4) div 8 * 8"
proof -
  have d: "19 \<le> depth" using assms(2) by (simp add: initial_frame_def)
  have "lim + (depth - 1) * 4 < w32" using assms(3,4) d by (simp add: w32_value)
  then have "wadd lim (wmul (wsub depth 1) 4) = lim + (depth - 1) * 4"
    using assms(3) d by (simp add: w32_value wmul_def)
  then have sp: "sp = (lim + (depth - 1) * 4) AND 4294967288" by (simp add: sp_def)
  have "lim + (depth - 1) * 4 < w32" by fact
  then show e: "sp = (lim + (depth - 1) * 4) div 8 * 8"
    unfolding sp by (subst align_down_nat) (simp_all add: minus_mod_eq_div_mult w32_value)
  show "lim + 72 \<le> sp" "sp \<le> lim + depth * 4"
    unfolding e using assms(1) d by (auto simp: dvd_def)
qed

lemma prvInitialiseNewTask_free:
  assumes prio: "prio < configMAX_PRIORITIES"
    and fr: "acont (lists s) (StateItem new) = None" "acont (lists s) (EventItem new) = None"
    and heap: "heap_ok (kheap s) S ts" "(pxStack (tcb s new), n) \<in> live_regions S ts"
    and stack: "initial_frame \<le> depth" "depth * 4 < w32" "depth * 4 \<le> n"
  obtains c m where "prvInitialiseNewTask cfg code name depth par prio new s =
      Some ((set_item_value (EventItem new) (of_nat configMAX_PRIORITIES - of_nat prio) s)
        \<lparr>tcb := (tcb s)(new := c), stack_mem := m\<rparr>)"
    and "uxPriority c = prio" and "pxStack c = pxStack (tcb s new)"
    and "ucNotifyState c = ucNotifyState (tcb s new)"
    and "\<And>a. a < pxStack (tcb s new) \<or> pxStack (tcb s new) + depth * 4 \<le> a \<Longrightarrow> m a = stack_mem s a"
proof -
  let ?lim = "pxStack (tcb s new)"
  let ?c = "(tcb s new)\<lparr>pcTaskName := take (configMAX_TASK_NAME_LEN - 1) name, uxPriority := prio\<rparr>"
  let ?u = "set_item_value (EventItem new) (of_nat configMAX_PRIORITIES - of_nat prio)
    (s\<lparr>tcb := (tcb s)(new := ?c)\<rparr>)"
  let ?sp = "(wadd ?lim (wmul (wsub depth 1) 4)) AND 4294967288"
  note lb = live_bounds [OF heap]
  have "?lim + depth * 4 \<le> w32" using lb(2) heap(1) stack(3) by (simp add: heap_ok_def heap_layout_def)
  note top = initial_top [OF lb(3) stack(1,2) this]
  have hu: "heap_ok (kheap ?u) S ts" using heap(1) by (simp add: set_item_value_def)
  have "?sp \<le> ?lim + n" using top(2) stack(3) by simp
  obtain m sp where m: "pxPortInitialiseStack cfg ?sp ?lim code par ?u = Some (?u\<lparr>stack_mem := m\<rparr>, sp)"
    and out: "\<And>a. a < ?lim \<or> ?sp \<le> a \<Longrightarrow> m a = stack_mem ?u a"
    by (rule stack_init_ok [OF hu heap(2) top(1) \<open>?sp \<le> ?lim + n\<close>, where cfg = cfg and code = code and par = par]) blast
  have "prvInitialiseNewTask cfg code name depth par prio new s =
      Some (upd_tcb new (pxTopOfStack_update (\<lambda>_. sp)) (?u\<lparr>stack_mem := m\<rparr>))"
    using prio fr m by (simp add: prvInitialiseNewTask_def configASSERT_def align_down_mod upd_tcb_def
        init_item_id Let_def)
  also have "upd_tcb new (pxTopOfStack_update (\<lambda>_. sp)) (?u\<lparr>stack_mem := m\<rparr>) =
      (set_item_value (EventItem new) (of_nat configMAX_PRIORITIES - of_nat prio) s)
        \<lparr>tcb := (tcb s)(new := ?c\<lparr>pxTopOfStack := sp\<rparr>), stack_mem := m\<rparr>"
    by (simp add: upd_tcb_def set_item_value_def)
  finally show ?thesis
    by (rule that) (use out top(2) in \<open>auto simp: set_item_value_def\<close>)
qed

lemma add_ready_kinv:
  assumes inv: "kinv s" and t: "acont (lists s) (StateItem t) = None" "t \<noteq> 0"
    and prio: "uxPriority (tcb s t) < configMAX_PRIORITIES"
  shows "kinv (prvAddTaskToReadyList t s)"
proof -
  have dl: "pxDelayedTaskList s \<noteq> Ready p" "pxOverflowDelayedTaskList s \<noteq> Ready p" for p
    using inv by (auto simp: kinv_def kinv0_def delays_def)
  have ev: "acont (lists s) (EventItem t) = None" using t event_of_task [OF inv] by (simp add: ktasks_def)
  show ?thesis
    using inv t prio dl ev
    unfolding prvAddTaskToReadyList_eq kinv_def kinv0_def places_def delays_def readies_def
      unblock_times_def none_pending_def
    by (auto simp: le_max_iff_disj)
qed

lemma prvAddNewTask_eq:
  assumes "pxCurrentTCB s \<noteq> 0"
  obtains c y where "prvAddNewTaskToReadyList new s =
      (prvAddTaskToReadyList new s)\<lparr>uxCurrentNumberOfTasks := uxCurrentNumberOfTasks s + 1,
        pxCurrentTCB := c, uxTaskNumber := uxTaskNumber s + 1, pendsv := y\<rparr>"
    and "c = pxCurrentTCB s \<or> c = new"
proof -
  let ?c = "if \<not> xSchedulerRunning s \<and> uxPriority (tcb s (pxCurrentTCB s)) \<le> uxPriority (tcb s new)
    then new else pxCurrentTCB s"
  let ?y = "if xSchedulerRunning s \<and> uxPriority (tcb s ?c) < uxPriority (tcb s new) then True else pendsv s"
  have "prvAddNewTaskToReadyList new s =
      (prvAddTaskToReadyList new s)\<lparr>uxCurrentNumberOfTasks := uxCurrentNumberOfTasks s + 1,
        pxCurrentTCB := ?c, uxTaskNumber := uxTaskNumber s + 1, pendsv := ?y\<rparr>"
    using assms by (simp add: prvAddNewTaskToReadyList_def prvAddTaskToReadyList_eq portYIELD_def Let_def)
  then show ?thesis using that by presburger
qed


lemma live_fun:
  assumes "heap_ok h S ts" and "(p, n) \<in> live_regions S ts" and "(p, m) \<in> live_regions S ts"
  shows "n = m"
proof -
  have "distinct (map fst (used_at S ts))"
    using assms(1) blocks_in_distinct [OF used_at_blocks [OF tiles_ok_pos]] by (simp add: heap_ok_def)
  moreover obtain i j where "(p - 8, i) \<in> set (used_at S ts)" "n = i - 8" "(p - 8, j) \<in> set (used_at S ts)" "m = j - 8"
    using assms(2,3) by (fastforce simp: live_regions_def)
  ultimately show ?thesis by (metis eq_key_imp_eq_value)
qed

lemma owned_by_mono:
  "owned_by S ts s \<Longrightarrow> live_regions S ts \<subseteq> live_regions S ts' \<Longrightarrow> owned_by S ts' s"
  unfolding owned_by_def by blast

lemma owned_by_frame: "sframe s s' \<Longrightarrow> owned_by S ts s' = owned_by S ts s"
  using sframe_ktasks [of s s'] by (simp add: owned_by_def sframe_def)

lemma owned_by_heap [simp]: "owned_by S ts (s\<lparr>kheap := h\<rparr>) = owned_by S ts s"
  by (simp add: owned_by_def ktasks_def)

lemma ktasks_heap [simp]: "ktasks (s\<lparr>kheap := h\<rparr>) = ktasks s"
  by (simp add: ktasks_def)

lemma tinv_heap:
  assumes "tinv S E s" and "heap_ok h S ts" and "pxEnd h = E" and "owned_by S ts s"
  shows "tinv S E (s\<lparr>kheap := h\<rparr>)"
proof -
  have "kinv (s\<lparr>kheap := h\<rparr>)"
    by (rule kinv_congI [of s]) (use assms kinv_current in \<open>auto simp: tinv_def\<close>)
  then show ?thesis
    using assms by (auto simp: tinv_def owned_def counted_def terminated_def is_ready_def waiting_free_def)
qed

lemma malloc_frame_tinv:
  assumes inv: "tinv S E s" and heap: "heap_ok h S ts'" "pxEnd h = E" and own: "owned_by S ts' s"
    and s': "kinv s'" "sframe (s\<lparr>kheap := h\<rparr>) s'"
  shows "tinv S E s'" and "owned_by S ts' s'"
  using sframe_tinv [OF tinv_heap [OF inv heap own] s'] owned_by_frame [OF s'(2)] own by simp_all

lemma malloc_tinv:
  assumes inv: "tinv S E s" and susp: "uxSchedulerSuspended s + 1 \<noteq> 0"
    and heap: "heap_ok (kheap s) S ts" "owned_by S ts s" and n: "n < w32"
  obtains s' p ts' h where "kernel_malloc n s = Some (s', p)" and "tinv S E s'"
    and "heap_ok (kheap s') S ts'" and "owned_by S ts' s'" and "sframe (s\<lparr>kheap := h\<rparr>) s'"
    and "uxSchedulerSuspended s' = uxSchedulerSuspended s"
    and "if p = 0 then live_regions S ts' = live_regions S ts
         else \<exists>m \<ge> n. live_regions S ts' = insert (p, m) (live_regions S ts) \<and> (p, m) \<notin> live_regions S ts"
proof -
  have E: "pxEnd (kheap s) = E" using inv by (auto simp: tinv_def owned_def)
  obtain s' p h ts' where r: "kernel_malloc n s = Some (s', p)" "kinv s'" "sframe (s\<lparr>kheap := h\<rparr>) s'"
    "heap_ok (kheap s') S ts'" "pxEnd (kheap s') = E" "uxSchedulerSuspended s' = uxSchedulerSuspended s"
    and l: "if p = 0 then live_regions S ts' = live_regions S ts
      else \<exists>m \<ge> n. live_regions S ts' = insert (p, m) (live_regions S ts) \<and> (p, m) \<notin> live_regions S ts"
    using kernel_malloc_ok [OF tinv_kinv [OF inv] finite_tasks_card(3) [OF inv] susp heap(1) E n] .
  have o: "owned_by S ts' s" using owned_by_mono [OF heap(2)] l by (auto split: if_splits)
  have hp: "kheap s' = h" using r(3) by (simp add: sframe_def)
  show ?thesis
    by (rule that [OF r(1) _ r(4) _ r(3,6) l])
      (use malloc_frame_tinv [OF inv _ _ o r(2,3)] r(4,5) hp in simp_all)
qed

text \<open>The same allocation with the tiles it leaves: it succeeds exactly when the first fit does.\<close>

lemma malloc_tiles:
  assumes inv: "tinv S E s" and susp: "uxSchedulerSuspended s + 1 \<noteq> 0"
    and heap: "heap_ok (kheap s) S ts" "owned_by S ts s" and n: "n < w32" and tm: "tile_malloc n ts = (ts', q)"
  obtains s' p h where "kernel_malloc n s = Some (s', p)" and "tinv S E s'"
    and "heap_ok (kheap s') S ts'" and "owned_by S ts' s'" and "sframe (s\<lparr>kheap := h\<rparr>) s'"
    and "uxSchedulerSuspended s' = uxSchedulerSuspended s"
    and "if q = None then p = 0 \<and> ts' = ts
         else p \<noteq> 0 \<and> (\<exists>m \<ge> n. live_regions S ts' = insert (p, m) (live_regions S ts) \<and> (p, m) \<notin> live_regions S ts)"
proof -
  have E: "pxEnd (kheap s) = E" using inv by (auto simp: tinv_def owned_def)
  obtain h where h: "pvPortMalloc n (kheap s) = Some (h, result_addr S q)" "heap_ok h S ts'" "pxEnd h = pxEnd (kheap s)"
    and l: "if q = None then ts' = ts \<and> result_addr S q = 0
      else result_addr S q \<noteq> 0 \<and> (\<exists>m \<ge> n. live_regions S ts' = insert (result_addr S q, m) (live_regions S ts) \<and>
        (result_addr S q, m) \<notin> live_regions S ts)"
    by (rule pvPortMalloc_live [OF heap(1) n tm])
  obtain s' where k: "kernel_malloc n s = Some (s', result_addr S q)" "kinv s'" "sframe (s\<lparr>kheap := h\<rparr>) s'"
    and s': "kheap s' = h" "uxSchedulerSuspended s' = uxSchedulerSuspended s"
    by (rule kernel_malloc_run [OF tinv_kinv [OF inv] finite_tasks_card(3) [OF inv] susp h(1)])
  have o: "owned_by S ts' s" using owned_by_mono [OF heap(2)] l heap(2) by (auto split: if_splits)
  show ?thesis
    by (rule that [OF k(1) _ _ _ k(3) s'(2)])
      (use malloc_frame_tinv [OF inv h(2) _ o k(2,3)] h E s' l in \<open>auto split: if_splits\<close>)
qed

lemma free_tinv:
  assumes inv: "tinv S E s" and susp: "uxSchedulerSuspended s + 1 \<noteq> 0"
    and heap: "heap_ok (kheap s) S ts" "(p, n) \<in> live_regions S ts"
    and own: "owned_by S ts s" "\<forall>t \<in> ktasks s. t \<noteq> p \<and> pxStack (tcb s t) \<noteq> p"
  obtains s' ts' h where "kernel_free p s = Some s'" and "tinv S E s'"
    and "heap_ok (kheap s') S ts'" and "owned_by S ts' s'" and "sframe (s\<lparr>kheap := h\<rparr>) s'"
    and "uxSchedulerSuspended s' = uxSchedulerSuspended s"
    and "live_regions S ts' = live_regions S ts - {(p, n)}"
proof -
  have E: "pxEnd (kheap s) = E" using inv by (auto simp: tinv_def owned_def)
  obtain s' h ts' where r: "kernel_free p s = Some s'" "kinv s'" "sframe (s\<lparr>kheap := h\<rparr>) s'"
    "heap_ok (kheap s') S ts'" "pxEnd (kheap s') = E" "uxSchedulerSuspended s' = uxSchedulerSuspended s"
    and l: "live_regions S ts' = live_regions S ts - {(p, n)}"
    using kernel_free_ok [OF tinv_kinv [OF inv] finite_tasks_card(3) [OF inv] susp heap(1) E heap(2)] .
  have o: "owned_by S ts' s" using own unfolding owned_by_def l by blast
  have hp: "kheap s' = h" using r(3) by (simp add: sframe_def)
  have "tinv S E (s\<lparr>kheap := h\<rparr>)" using tinv_heap [OF inv _ _ o] r(4,5) hp by simp
  from sframe_tinv [OF this r(2,3)] that [OF r(1) _ r(4) _ r(3,6) l] owned_by_frame [OF r(3)] o
  show ?thesis by simp
qed

text \<open>A fresh region serves no task.\<close>

lemma fresh_region:
  assumes "heap_ok h S ts'" and "live_regions S ts' = insert (p, m) (live_regions S ts)"
    and "(p, m) \<notin> live_regions S ts" and "owned_by S ts s"
  shows "\<forall>t \<in> ktasks s. t \<noteq> p \<and> pxStack (tcb s t) \<noteq> p" and "(p, k) \<notin> live_regions S ts"
proof -
  show k: "(p, k) \<notin> live_regions S ts" for k
    using live_fun [OF assms(1), of p m k] assms(2,3) by auto
  show "\<forall>t \<in> ktasks s. t \<noteq> p \<and> pxStack (tcb s t) \<noteq> p"
    using assms(4) k unfolding owned_by_def by blast
qed

text \<open>Adding a task whose block and stack are fresh.\<close>

lemma owned_by_add:
  assumes o: "owned_by S ts s" and new: "(new, m) \<in> live_regions S ts" "sizeof_TCB \<le> m"
    and big: "initial_frame * 4 \<le> k"
    and stk: "(stk, k) \<in> live_regions S ts" "stk \<noteq> new" "\<forall>t \<in> ktasks s. t \<noteq> stk \<and> pxStack (tcb s t) \<noteq> stk \<and> pxStack (tcb s t) \<noteq> new"
    and c: "pxStack c = stk" and r: "ktasks r = insert new (ktasks s)" "tcb r = (tcb s)(new := c)"
  shows "owned_by S ts r"
  unfolding owned_by_def r
proof (intro conjI ballI)
  fix t assume "t \<in> insert new (ktasks s)"
  then show "\<exists>n \<ge> sizeof_TCB. (t, n) \<in> live_regions S ts"
    and "\<exists>m \<ge> initial_frame * 4. (pxStack (((tcb s)(new := c)) t), m) \<in> live_regions S ts"
    using o new big stk(1) c by (auto simp: owned_by_def)
  fix u assume "u \<in> insert new (ktasks s)"
  with \<open>t \<in> insert new (ktasks s)\<close>
  show "pxStack (((tcb s)(new := c)) t) \<noteq> u"
    and "pxStack (((tcb s)(new := c)) t) = pxStack (((tcb s)(new := c)) u) \<longrightarrow> t = u"
    using o stk(2,3) c unfolding owned_by_def
    by (cases "t = new"; cases "u = new"; simp; metis)+
qed

lemma new_task_tinv:
  fixes v :: u32 and mm :: "nat \<Rightarrow> u32" and c :: tcb_t and new :: nat
  assumes inv: "tinv S E s" and heap: "heap_ok (kheap s) S ts" "owned_by S ts s"
    and new: "new \<notin> ktasks s" "new \<noteq> 0" "(new, m) \<in> live_regions S ts" "sizeof_TCB \<le> m"
    and big: "initial_frame * 4 \<le> k"
    and stk: "(stk, k) \<in> live_regions S ts" "stk \<noteq> new" "\<forall>t \<in> ktasks s. t \<noteq> stk \<and> pxStack (tcb s t) \<noteq> stk \<and> pxStack (tcb s t) \<noteq> new"
    and c: "uxPriority c < configMAX_PRIORITIES" "pxStack c = stk" "ucNotifyState c 0 = taskNOT_WAITING_NOTIFICATION"
    and s1: "s1 = (set_item_value (EventItem new) v s)\<lparr>tcb := (tcb s)(new := c), stack_mem := mm\<rparr>"
  shows "tinv S E (prvAddNewTaskToReadyList new s1)" and "ktasks (prvAddNewTaskToReadyList new s1) = insert new (ktasks s)"
    and "is_ready (prvAddNewTaskToReadyList new s1) new"
    and "tcb (prvAddNewTaskToReadyList new s1) = (tcb s)(new := c)"
    and "owned_by S ts (prvAddNewTaskToReadyList new s1)" and "kheap (prvAddNewTaskToReadyList new s1) = kheap s"
    and "stack_mem (prvAddNewTaskToReadyList new s1) = mm"
    and "xSchedulerRunning s \<Longrightarrow> pxCurrentTCB (prvAddNewTaskToReadyList new s1) = pxCurrentTCB s"
proof -
  have k: "kinv s" using inv by (rule tinv_kinv)
  have kv: "kinv (set_item_value (EventItem new) v s)" by (rule kinv_set_event_value [OF k])
  have k1: "kinv s1"
    by (rule kinv_congI [OF kv])
      (use new kinv_current [OF k] in \<open>auto simp: s1 set_item_value_def ktasks_def\<close>)
  have cur: "pxCurrentTCB s1 = pxCurrentTCB s" "acont (lists s1) = acont (lists s)" "tcb s1 = (tcb s)(new := c)"
    "kheap s1 = kheap s" "uxDeletedTasksWaitingCleanUp s1 = uxDeletedTasksWaitingCleanUp s"
    "uxCurrentNumberOfTasks s1 = uxCurrentNumberOfTasks s" "xIdleTaskHandle s1 = xIdleTaskHandle s"
    by (simp_all add: s1 set_item_value_def)
  have "pxCurrentTCB s1 \<noteq> 0" using cur kinv_current [OF k] ktasks_nz [OF k] by simp
  from prvAddNewTask_eq [OF this, of new] obtain d y where
    eq: "prvAddNewTaskToReadyList new s1 = (prvAddTaskToReadyList new s1)
      \<lparr>uxCurrentNumberOfTasks := uxCurrentNumberOfTasks s1 + 1, pxCurrentTCB := d,
       uxTaskNumber := uxTaskNumber s1 + 1, pendsv := y\<rparr>" and d: "d = pxCurrentTCB s1 \<or> d = new" by metis
  let ?r = "prvAddNewTaskToReadyList new s1"
  have none: "acont (lists s1) (StateItem new) = None" using new cur by (simp add: ktasks_def)
  have ka: "kinv (prvAddTaskToReadyList new s1)"
    by (rule add_ready_kinv [OF k1 none new(2)]) (simp add: cur c)
  have cont: "acont (lists ?r) = (acont (lists s))(StateItem new := Some (Ready (uxPriority c)))"
    by (simp add: eq prvAddTaskToReadyList_eq cur)
  then show kt: "ktasks ?r = insert new (ktasks s)" by (auto simp: ktasks_def)
  show tc: "tcb ?r = (tcb s)(new := c)" by (simp add: eq prvAddTaskToReadyList_eq cur)
  show "is_ready ?r new" by (simp add: is_ready_def cont tc)
  have kr: "kinv ?r"
  proof (rule kinv_congI [OF ka])
    have "d \<in> insert new (ktasks s)" using d cur kinv_current [OF k] by auto
    then show "pxCurrentTCB ?r \<in> ktasks (prvAddTaskToReadyList new s1)"
      unfolding kt [symmetric] by (simp add: eq ktasks_def)
  qed (simp_all add: eq)
  have hp: "kheap ?r = kheap s" "uxDeletedTasksWaitingCleanUp ?r = uxDeletedTasksWaitingCleanUp s"
    "uxCurrentNumberOfTasks ?r = uxCurrentNumberOfTasks s + 1" "xIdleTaskHandle ?r = xIdleTaskHandle s"
    by (simp_all add: eq prvAddTaskToReadyList_eq cur)
  show ob: "owned_by S ts ?r"
    by (rule owned_by_add [OF heap(2) new(3,4) big stk c(2) kt tc])
  show "kheap ?r = kheap s" "stack_mem ?r = mm"
    by (simp_all add: eq prvAddTaskToReadyList_eq cur, simp add: s1)
  show "pxCurrentTCB ?r = pxCurrentTCB s" if "xSchedulerRunning s"
  proof -
    have "xSchedulerRunning s1" using that by (simp add: s1 set_item_value_def)
    then show ?thesis
      using \<open>pxCurrentTCB s1 \<noteq> 0\<close> cur(1)
      by (simp add: prvAddNewTaskToReadyList_def prvAddTaskToReadyList_eq portYIELD_def Let_def)
  qed
  have "owned S E ?r"
    using inv heap hp ob by (auto simp: owned_def tinv_def)
  moreover have "terminated ?r = terminated s"
    using new by (auto simp: terminated_def cont ktasks_def)
  then have "counted ?r"
    using inv new hp kt by (simp add: tinv_def counted_def)
  moreover have "is_ready ?r (xIdleTaskHandle ?r)"
    using inv new hp by (auto simp: tinv_def is_ready_def cont tc ktasks_def)
  moreover have "waiting_free ?r"
    using inv c by (simp add: tinv_def waiting_free_def cont tc)
  ultimately show "tinv S E ?r" using kr by (simp add: tinv_def)
qed


text \<open>
  Creation: it succeeds exactly when first the stack and then the control block fit into the
  heap; then it holds these two regions more, and otherwise what it held before.
\<close>

definition room_for :: "nat \<Rightarrow> tile list \<Rightarrow> bool" where
  "room_for depth ts \<longleftrightarrow>
     (case tile_malloc (depth * 4) ts of
        (ts', None) \<Rightarrow> False
      | (ts', Some _) \<Rightarrow> snd (tile_malloc sizeof_TCB ts') \<noteq> None)"

definition created ::
  "nat \<Rightarrow> nat \<Rightarrow> nat \<Rightarrow> tile list \<Rightarrow> 'a kernel_scheme \<Rightarrow> tile list \<Rightarrow> 'a kernel_scheme \<Rightarrow> nat \<Rightarrow> bool" where
  "created S depth prio ts s ts' s' t \<longleftrightarrow>
     t \<notin> ktasks s \<and> ktasks s' = insert t (ktasks s) \<and> is_ready s' t \<and> uxPriority (tcb s' t) = prio \<and>
     (\<exists>m n. depth * 4 \<le> m \<and> sizeof_TCB \<le> n \<and> t \<noteq> pxStack (tcb s' t) \<and>
        (t, n) \<notin> live_regions S ts \<and> (pxStack (tcb s' t), m) \<notin> live_regions S ts \<and>
        live_regions S ts' = insert (t, n) (insert (pxStack (tcb s' t), m) (live_regions S ts))) \<and>
     (\<forall>a. a < pxStack (tcb s' t) \<or> pxStack (tcb s' t) + depth * 4 \<le> a \<longrightarrow> stack_mem s' a = stack_mem s a)"

lemma create_initialised:
  assumes inv: "tinv S E s" and heap: "heap_ok (kheap s) S ts" "owned_by S ts s" and prio: "prio < configMAX_PRIORITIES"
    and stack: "initial_frame \<le> depth" "depth * 4 < w32" "depth * 4 \<le> m"
    and new: "new \<notin> ktasks s" "new \<noteq> 0" "(new, n) \<in> live_regions S ts" "sizeof_TCB \<le> n"
    and stk: "(stk, m) \<in> live_regions S ts" "stk \<noteq> new"
      "\<forall>t \<in> ktasks s. t \<noteq> stk \<and> pxStack (tcb s t) \<noteq> stk \<and> pxStack (tcb s t) \<noteq> new"
  defines "u \<equiv> upd_tcb new (\<lambda>_. zero_tcb\<lparr>pxStack := stk\<rparr>) s"
  obtains w where "prvInitialiseNewTask cfg code name depth par prio new u = Some w"
    and "tinv S E (prvAddNewTaskToReadyList new w)" and "kheap (prvAddNewTaskToReadyList new w) = kheap s" and "owned_by S ts (prvAddNewTaskToReadyList new w)"
    and "ktasks (prvAddNewTaskToReadyList new w) = insert new (ktasks s)" and "is_ready (prvAddNewTaskToReadyList new w) new"
    and "uxPriority (tcb (prvAddNewTaskToReadyList new w) new) = prio" and "pxStack (tcb (prvAddNewTaskToReadyList new w) new) = stk" and "\<And>t. t \<noteq> new \<Longrightarrow> tcb (prvAddNewTaskToReadyList new w) t = tcb s t"
    and "\<And>a. a < stk \<or> stk + depth * 4 \<le> a \<Longrightarrow> stack_mem (prvAddNewTaskToReadyList new w) a = stack_mem s a"
    and "stack_mem (prvAddNewTaskToReadyList new w) = stack_mem w" and "tcb (prvAddNewTaskToReadyList new w) new = tcb w new"
    and "xSchedulerRunning s \<Longrightarrow> pxCurrentTCB (prvAddNewTaskToReadyList new w) = pxCurrentTCB s"
proof -
  have fr: "acont (lists u) (StateItem new) = None" "acont (lists u) (EventItem new) = None"
    using new(1) event_of_task [OF tinv_kinv [OF inv] new(1)] by (simp_all add: u_def upd_tcb_def ktasks_def)
  have hu: "heap_ok (kheap u) S ts" "(pxStack (tcb u new), m) \<in> live_regions S ts"
    using heap(1) stk(1) by (simp_all add: u_def upd_tcb_def)
  let ?v = "of_nat configMAX_PRIORITIES - of_nat prio"
  obtain c mm where init: "prvInitialiseNewTask cfg code name depth par prio new u =
      Some ((set_item_value (EventItem new) ?v u)\<lparr>tcb := (tcb u)(new := c), stack_mem := mm\<rparr>)"
    and c: "uxPriority c = prio" "pxStack c = pxStack (tcb u new)" "ucNotifyState c = ucNotifyState (tcb u new)"
    and out: "\<And>a. a < pxStack (tcb u new) \<or> pxStack (tcb u new) + depth * 4 \<le> a \<Longrightarrow> mm a = stack_mem u a"
    using prvInitialiseNewTask_free [OF prio fr hu stack] by blast
  let ?w = "(set_item_value (EventItem new) ?v s)\<lparr>tcb := (tcb s)(new := c), stack_mem := mm\<rparr>"
  have w: "prvInitialiseNewTask cfg code name depth par prio new u = Some ?w"
    unfolding init by (simp add: u_def upd_tcb_def set_item_value_def)
  have cc: "uxPriority c < configMAX_PRIORITIES" "pxStack c = stk" "ucNotifyState c 0 = taskNOT_WAITING_NOTIFICATION"
    using c prio by (simp_all add: u_def upd_tcb_def zero_tcb_def)
  have big: "initial_frame * 4 \<le> m" using stack by simp
  note nt = new_task_tinv [OF inv heap new big stk cc HOL.refl, where v = ?v and mm = mm]
  show ?thesis
    by (rule that [OF w nt(1)])
      (use nt(2-8) cc(2) c(1) out in \<open>simp_all add: u_def upd_tcb_def\<close>)
qed

lemma xTaskCreate_ok:
  fixes s :: "'a kernel_scheme"
  assumes inv: "tinv S E s" and susp: "uxSchedulerSuspended s + 1 \<noteq> 0" and prio: "prio < configMAX_PRIORITIES"
    and stack: "initial_frame \<le> depth" "depth * 4 < w32"
    and ts: "heap_ok (kheap s) S ts" "owned_by S ts s"
  obtains s' t ts' where "xTaskCreate cfg code name depth par prio s = Some (s', t)" and "tinv S E s'"
    and "heap_ok (kheap s') S ts'" and "owned_by S ts' s'" and "t \<noteq> 0 \<longleftrightarrow> room_for depth ts"
    and "t = 0 \<Longrightarrow> live_regions S ts' = live_regions S ts \<and> sframe (s\<lparr>kheap := kheap s'\<rparr>) s'"
    and "t \<noteq> 0 \<Longrightarrow> created S depth prio ts s ts' s' t"
    and "\<forall>u \<in> ktasks s. tcb s' u = tcb s u"
    and "t \<noteq> 0 \<Longrightarrow> \<exists>(u :: 'a kernel_scheme) w. prvInitialiseNewTask cfg code name depth par prio t u = Some w \<and>
      pxStack (tcb u t) = pxStack (tcb s' t) \<and> stack_mem s' = stack_mem w \<and> tcb s' t = tcb w t"
    and "xSchedulerRunning s \<Longrightarrow> pxCurrentTCB s' = pxCurrentTCB s"
proof -
  have n: "depth * 4 < w32" "sizeof_TCB < w32" using stack(2) by (simp_all add: sizeof_TCB_def w32_value)
  obtain ts1 q1 where t1: "tile_malloc (depth * 4) ts = (ts1, q1)" by force
  obtain s1 stk h1 where m1: "kernel_malloc (depth * 4) s = Some (s1, stk)" "tinv S E s1"
    "heap_ok (kheap s1) S ts1" "owned_by S ts1 s1" "sframe (s\<lparr>kheap := h1\<rparr>) s1"
    "uxSchedulerSuspended s1 = uxSchedulerSuspended s"
    and l1: "if q1 = None then stk = 0 \<and> ts1 = ts
      else stk \<noteq> 0 \<and> (\<exists>m \<ge> depth * 4. live_regions S ts1 = insert (stk, m) (live_regions S ts) \<and> (stk, m) \<notin> live_regions S ts)"
    by (rule malloc_tiles [OF inv susp ts n(1) t1])
  have kt1: "ktasks s1 = ktasks s" and f1: "tcb s1 = tcb s" "stack_mem s1 = stack_mem s" "pxCurrentTCB s1 = pxCurrentTCB s"
      "xSchedulerRunning s1 = xSchedulerRunning s" "kheap s1 = h1"
    using sframe_ktasks [OF m1(5)] m1(5) by (simp_all add: sframe_def)
  have e: "wmul depth 4 = depth * 4" using stack(2) by simp
  show ?thesis
  proof (cases "stk = 0")
    case True
    then have "xTaskCreate cfg code name depth par prio s = Some (s1, 0)"
      using m1(1) by (simp add: xTaskCreate_def e)
    then show ?thesis
      by (rule that [OF _ m1(2-4)])
        (use l1 t1 True kt1 f1 m1(5) in \<open>auto simp: room_for_def split: if_splits\<close>)
  next
    case False
    then obtain m where m: "live_regions S ts1 = insert (stk, m) (live_regions S ts)" "(stk, m) \<notin> live_regions S ts"
        "depth * 4 \<le> m" and q1: "q1 \<noteq> None"
      using l1 by (auto split: if_splits)
    note fr1 = fresh_region(1) [OF m1(3) m(1,2) ts(2)]
    have susp1: "uxSchedulerSuspended s1 + 1 \<noteq> 0" using susp m1(6) by simp
    obtain ts2 q2 where t2: "tile_malloc sizeof_TCB ts1 = (ts2, q2)" by force
    have room: "room_for depth ts \<longleftrightarrow> q2 \<noteq> None" using t1 t2 q1 by (auto simp: room_for_def)
    obtain s2 new h2 where m2: "kernel_malloc sizeof_TCB s1 = Some (s2, new)" "tinv S E s2"
      "heap_ok (kheap s2) S ts2" "owned_by S ts2 s2" "sframe (s1\<lparr>kheap := h2\<rparr>) s2"
      "uxSchedulerSuspended s2 = uxSchedulerSuspended s1"
      and l2: "if q2 = None then new = 0 \<and> ts2 = ts1
        else new \<noteq> 0 \<and> (\<exists>n \<ge> sizeof_TCB. live_regions S ts2 = insert (new, n) (live_regions S ts1) \<and> (new, n) \<notin> live_regions S ts1)"
      by (rule malloc_tiles [OF m1(2) susp1 m1(3,4) n(2) t2])
    have f12: "sframe (s\<lparr>kheap := h2\<rparr>) s2"
      using m1(5) m2(5) sframe_trans [of "s\<lparr>kheap := h2\<rparr>" "s1\<lparr>kheap := h2\<rparr>" s2] by (simp add: sframe_def)
    have kt2: "ktasks s2 = ktasks s" and f2: "tcb s2 = tcb s" "stack_mem s2 = stack_mem s" "pxCurrentTCB s2 = pxCurrentTCB s"
        "xSchedulerRunning s2 = xSchedulerRunning s"
      using sframe_ktasks [OF f12] f12 by (simp_all add: sframe_def)
    have susp2: "uxSchedulerSuspended s2 + 1 \<noteq> 0" using susp1 m2(6) by simp
    show ?thesis
    proof (cases "new = 0")
      case True
      then have q2: "q2 = None" "ts2 = ts1" using l2 by (auto split: if_splits)
      have "\<forall>t \<in> ktasks s2. t \<noteq> stk \<and> pxStack (tcb s2 t) \<noteq> stk" using fr1 kt2 f2 by simp
      moreover have "(stk, m) \<in> live_regions S ts2" using q2 m(1) by simp
      ultimately obtain s3 ts3 h3 where r: "kernel_free stk s2 = Some s3" "tinv S E s3" "heap_ok (kheap s3) S ts3"
          "owned_by S ts3 s3" "sframe (s2\<lparr>kheap := h3\<rparr>) s3" "live_regions S ts3 = live_regions S ts2 - {(stk, m)}"
        using free_tinv [OF m2(2) susp2 m2(3) _ m2(4)] by metis
      have f3: "sframe (s\<lparr>kheap := kheap s3\<rparr>) s3"
        using f12 r(5) sframe_trans [of "s\<lparr>kheap := h3\<rparr>" "s2\<lparr>kheap := h3\<rparr>" s3] by (simp add: sframe_def)
      have "xTaskCreate cfg code name depth par prio s = Some (s3, 0)"
        using m1(1) m2(1) False True r(1) by (simp add: xTaskCreate_def e)
      then show ?thesis
        by (rule that [OF _ r(2-4)]) (use room q2 m f3 r(6) in \<open>auto simp: sframe_def\<close>)
    next
      case New: False
      then obtain n' where n': "live_regions S ts2 = insert (new, n') (live_regions S ts1)" "(new, n') \<notin> live_regions S ts1"
          "sizeof_TCB \<le> n'" and q2: "q2 \<noteq> None"
        using l2 by (auto split: if_splits)
      note fr2 = fresh_region [OF m2(3) n'(1,2) m1(4)]
      have nk: "new \<notin> ktasks s2" using fr2(1) kt1 kt2 by auto
      have live: "(new, n') \<in> live_regions S ts2" "(stk, m) \<in> live_regions S ts2" using n' m by simp_all
      have sn: "stk \<noteq> new" using fr2(2) [of m] m by auto
      have ap: "\<forall>t \<in> ktasks s2. t \<noteq> stk \<and> pxStack (tcb s2 t) \<noteq> stk \<and> pxStack (tcb s2 t) \<noteq> new"
        using fr1 fr2(1) kt1 kt2 f1 f2 by simp
      let ?u = "upd_tcb new (\<lambda>_. zero_tcb\<lparr>pxStack := stk\<rparr>) s2"
      obtain w where w: "prvInitialiseNewTask cfg code name depth par prio new ?u = Some w"
        and r: "tinv S E (prvAddNewTaskToReadyList new w)" "kheap (prvAddNewTaskToReadyList new w) = kheap s2" "owned_by S ts2 (prvAddNewTaskToReadyList new w)"
          "ktasks (prvAddNewTaskToReadyList new w) = insert new (ktasks s2)" "is_ready (prvAddNewTaskToReadyList new w) new" "uxPriority (tcb (prvAddNewTaskToReadyList new w) new) = prio" "pxStack (tcb (prvAddNewTaskToReadyList new w) new) = stk"
          "\<And>t. t \<noteq> new \<Longrightarrow> tcb (prvAddNewTaskToReadyList new w) t = tcb s2 t"
          "\<And>a. a < stk \<or> stk + depth * 4 \<le> a \<Longrightarrow> stack_mem (prvAddNewTaskToReadyList new w) a = stack_mem s2 a"
          "stack_mem (prvAddNewTaskToReadyList new w) = stack_mem w" "tcb (prvAddNewTaskToReadyList new w) new = tcb w new" "xSchedulerRunning s2 \<Longrightarrow> pxCurrentTCB (prvAddNewTaskToReadyList new w) = pxCurrentTCB s2"
        using create_initialised [OF m2(2-4) prio stack m(3) nk New live(1) n'(3) live(2) sn ap] by metis
      let ?r = "prvAddNewTaskToReadyList new w"
      have res: "xTaskCreate cfg code name depth par prio s = Some (?r, new)"
        using m1(1) m2(1) False New w by (simp add: xTaskCreate_def e)
      have cr: "created S depth prio ts s ts2 ?r new"
        unfolding created_def
        using nk r(4-9) kt2 f2 sn m n' by (intro conjI exI [of _ m] exI [of _ n']) auto
      show ?thesis
      proof (rule that [OF res r(1) _ r(3) _ _ cr])
        show "\<exists>(u :: 'a kernel_scheme) w. prvInitialiseNewTask cfg code name depth par prio new u = Some w \<and>
            pxStack (tcb u new) = pxStack (tcb ?r new) \<and> stack_mem ?r = stack_mem w \<and> tcb ?r new = tcb w new"
          using w r(7,10,11) by (intro exI [of _ ?u] exI [of _ w]) (simp add: upd_tcb_def)
        show "\<forall>u \<in> ktasks s. tcb ?r u = tcb s u" using r(8) nk kt2 f2(1) by metis
      qed (use m2(3) r New room q2 f2 in auto)
    qed
  qed
qed


section \<open>The other operations keep the invariant\<close>

lemma tinv_update:
  assumes inv: "tinv S E s" and k: "kinv s'" and "kheap s' = kheap s"
    and "uxCurrentNumberOfTasks s' = uxCurrentNumberOfTasks s"
    and "uxDeletedTasksWaitingCleanUp s' = uxDeletedTasksWaitingCleanUp s"
    and "\<And>t. pxStack (tcb s' t) = pxStack (tcb s t)"
    and "ktasks s' = ktasks s" and "terminated s' = terminated s"
    and "is_ready s' (xIdleTaskHandle s')" and "waiting_free s'"
  shows "tinv S E s'"
  using assms by (simp add: tinv_def owned_def owned_by_def counted_def)

text \<open>A handle that may be passed to the interface: a task that has not been deleted.\<close>

definition valid_task :: "'a kernel_scheme \<Rightarrow> nat \<Rightarrow> bool" where
  "valid_task s t \<longleftrightarrow> t \<in> ktasks s \<and> t \<notin> terminated s"

text \<open>The running task executes an interface call: it is ready and no switch is pending.\<close>

definition running :: "'a kernel_scheme \<Rightarrow> bool" where
  "running s \<longleftrightarrow> is_ready s (pxCurrentTCB s) \<and> xSchedulerRunning s"

lemma running_valid: "running s \<Longrightarrow> valid_task s (pxCurrentTCB s)"
  by (simp add: running_def is_ready_def valid_task_def ktasks_def terminated_def)

lemma running_event_free:
  assumes "kinv s" and "is_ready s t" and "uxSchedulerSuspended s = 0"
  shows "acont (lists s) (EventItem t) = None"
proof (rule ccontr)
  assume "acont (lists s) (EventItem t) \<noteq> None"
  then obtain l where l: "acont (lists s) (EventItem t) = Some l" by auto
  then have "event_list l \<and> blocked_list (Ready (uxPriority (tcb s t))) \<or> l = PendingReadyList"
    using kinv_event [OF assms(1) l] assms(2) by (auto simp: is_ready_def)
  then show False using l assms(1,3) by (auto simp: kinv_def none_pending_def)
qed

text \<open>Ticks and context switches.\<close>

lemma tick_tinv:
  assumes inv: "tinv S E s"
  shows "\<exists>s'. SysTick_Handler s = Some s' \<and> tinv S E s'"
proof (cases "uxSchedulerSuspended s = 0")
  case True
  have k: "kinv s" using inv by (rule tinv_kinv)
  have t: "tinv S E (tick_result s)"
    by (rule sframe_tinv [OF inv tick_result_kinv [OF k] sframe_tick [OF k]])
  then have "tinv S E (portYIELD (tick_result s))"
    by (rule sframe_tinv) (use tick_result_kinv [OF k] in simp_all)
  then show ?thesis
    using t xTaskIncrementTick_result [OF k True] by (simp add: SysTick_Handler_def)
next
  case False
  have "tinv S E (set_pended (xPendedTicks s + 1) s)"
    by (rule sframe_tinv [OF inv]) (use inv in \<open>simp_all add: tinv_def\<close>)
  then show ?thesis
    using False by (simp add: SysTick_Handler_def xTaskIncrementTick_def set_pended_def)
qed

lemma switch_frame_lists:
  assumes "vTaskSwitchContext s = Some s'"
  shows "acont (lists s') = acont (lists s) \<and> tcb s' = tcb s \<and> kheap s' = kheap s \<and>
    uxCurrentNumberOfTasks s' = uxCurrentNumberOfTasks s \<and>
    uxDeletedTasksWaitingCleanUp s' = uxDeletedTasksWaitingCleanUp s \<and> xIdleTaskHandle s' = xIdleTaskHandle s \<and>
    xSchedulerRunning s' = xSchedulerRunning s \<and> uxSchedulerSuspended s' = uxSchedulerSuspended s"
  using assms
  by (auto simp: vTaskSwitchContext_def taskSELECT_HIGHEST_PRIORITY_TASK_def case_prod_unfold Let_def
      split: if_splits bind_splits)

lemma switch_tinv:
  assumes inv: "tinv S E s"
  shows "\<exists>s'. PendSV_Handler s = Some s' \<and> tinv S E s' \<and>
    (uxSchedulerSuspended s = 0 \<longrightarrow> is_ready s' (pxCurrentTCB s'))"
proof -
  let ?s = "s\<lparr>pendsv := False\<rparr>"
  have k: "kinv ?s"
    by (rule kinv_congI [OF tinv_kinv [OF inv]]) (use kinv_current [OF tinv_kinv [OF inv]] in simp_all)
  have r: "is_ready ?s (xIdleTaskHandle s)" using inv by (simp add: tinv_def is_ready_def)
  obtain s' where s': "vTaskSwitchContext ?s = Some s'" "kinv s'"
    using vTaskSwitchContext_kinv [OF k r] by blast
  note f = switch_frame_lists [OF s'(1)]
  have "tinv S E s'"
    by (rule tinv_update [OF inv s'(2)])
      (use f inv in \<open>simp_all add: ktasks_def terminated_def is_ready_def tinv_def waiting_free_def\<close>)
  moreover have "is_ready s' (pxCurrentTCB s')" if "uxSchedulerSuspended s = 0"
    by (rule vTaskSwitchContext_result [OF k _ r]) (use that s'(1) in \<open>auto simp: is_ready_def set_yield_def\<close>)
  ultimately show ?thesis using s'(1) by (simp add: PendSV_Handler_def)
qed

text \<open>Blocking the current task, on a time or an event.\<close>

lemma blocked_tinv:
  assumes inv: "tinv S E s" and b: "blocked n ind e s s'" and cur: "pxCurrentTCB s \<noteq> xIdleTaskHandle s"
    and valid: "pxCurrentTCB s \<notin> terminated s"
    and w: "ucNotifyState (tcb s (pxCurrentTCB s)) 0 = taskWAITING_NOTIFICATION \<Longrightarrow> e = None"
  shows "tinv S E s'"
proof -
  have k: "kinv s" using inv by (rule tinv_kinv)
  have bl: "blocked_list (blocks_in n ind s)"
    using k by (auto simp: blocks_in_def kinv_def kinv0_def delays_def)
  obtain a x where s': "s' = s\<lparr>lists := a, xNextTaskUnblockTime := x\<rparr>" and k': "kinv s'"
    and c: "acont a = (acont (lists s))(EventItem (pxCurrentTCB s) := e, StateItem (pxCurrentTCB s) := Some (blocks_in n ind s))"
    using b by (auto simp: blocked_def)
  have kt: "ktasks s' = ktasks s" using kinv_current [OF k] by (auto simp: ktasks_def s' c)
  have tm: "terminated s' = terminated s" using valid bl by (auto simp: terminated_def s' c)
  show ?thesis
    by (rule tinv_update [OF inv k' _ _ _ _ kt tm])
      (use inv cur w in \<open>auto simp: s' c tinv_def is_ready_def waiting_free_def\<close>)
qed


lemma block_self_tinv:
  assumes inv: "tinv S E s" and n: "n > 0" and cur: "pxCurrentTCB s \<noteq> xIdleTaskHandle s"
    and valid: "pxCurrentTCB s \<notin> terminated s" and free: "acont (lists s) (EventItem (pxCurrentTCB s)) = None"
  obtains s' where "prvAddCurrentTaskToDelayedList n ind s = Some s'" and "tinv S E s'"
    and "uxSchedulerSuspended s' = uxSchedulerSuspended s" and "blocked n ind None s s'"
proof -
  obtain s' where s': "prvAddCurrentTaskToDelayedList n ind s = Some s'" and b: "blocked n ind None s s'"
    using block_current [OF tinv_kinv [OF inv] n event_put_self [OF tinv_kinv [OF inv] free]] by auto
  have "tinv S E s'" by (rule blocked_tinv [OF inv b cur valid]) simp
  moreover have "uxSchedulerSuspended s' = uxSchedulerSuspended s" using b by (auto simp: blocked_def)
  ultimately show ?thesis using that s' b by blast
qed

lemma suspend_all_tinv:
  assumes "tinv S E s" and "uxSchedulerSuspended s + 1 \<noteq> 0"
  shows "tinv S E (vTaskSuspendAll s)"
  by (rule sframe_tinv [OF assms(1)]) (use assms in \<open>simp_all add: tinv_def\<close>)

lemma suspend_all_frame [simp]:
  "lists (vTaskSuspendAll s) = lists s" "pxCurrentTCB (vTaskSuspendAll s) = pxCurrentTCB s"
  "xIdleTaskHandle (vTaskSuspendAll s) = xIdleTaskHandle s" "xTickCount (vTaskSuspendAll s) = xTickCount s"
  "tcb (vTaskSuspendAll s) = tcb s" "terminated (vTaskSuspendAll s) = terminated s"
  "ktasks (vTaskSuspendAll s) = ktasks s"
  "uxSchedulerSuspended (vTaskSuspendAll s) = uxSchedulerSuspended s + 1"
  by (simp_all add: vTaskSuspendAll_def terminated_def ktasks_def)

lemma portYIELD_tinv: "tinv S E s \<Longrightarrow> tinv S E (portYIELD s)"
  by (metis portYIELD_kinv sframe_fields(3) sframe_tinv tinv_kinv)

lemma vTaskDelay_ok:
  assumes inv: "tinv S E s" and run: "running s" and susp: "uxSchedulerSuspended s = 0"
    and cur: "pxCurrentTCB s \<noteq> xIdleTaskHandle s"
  shows "\<exists>s'. vTaskDelay n s = Some s' \<and> tinv S E s'"
proof (cases "n > 0")
  case True
  let ?q = "vTaskSuspendAll s"
  have q: "tinv S E ?q" by (rule suspend_all_tinv [OF inv]) (simp add: susp)
  have free: "acont (lists s) (EventItem (pxCurrentTCB s)) = None"
    using running_event_free [OF tinv_kinv [OF inv] _ susp] run by (simp add: running_def)
  obtain s1 where s1: "prvAddCurrentTaskToDelayedList n False ?q = Some s1" "tinv S E s1"
    "uxSchedulerSuspended s1 = uxSchedulerSuspended ?q"
    using block_self_tinv [OF q True] cur free running_valid [OF run] by (auto simp: valid_task_def)
  obtain s2 b where s2: "xTaskResumeAll s1 = Some (s2, b)" "tinv S E s2"
    by (rule resume_tinv [OF s1(2)]) (use s1(3) susp in auto)
  then show ?thesis
    using True s1(1) susp portYIELD_tinv [OF s2(2)] by (simp add: vTaskDelay_def configASSERT_def Let_def)
next
  case False
  then show ?thesis using portYIELD_tinv [OF inv] by (simp add: vTaskDelay_def)
qed

lemma should_delay_neq: "should_delay p w t \<Longrightarrow> w - t > 0"
  by (auto simp: should_delay_def word_gt_0 split: if_splits)

lemma xTaskDelayUntil_ok:
  assumes inv: "tinv S E s" and run: "running s" and susp: "uxSchedulerSuspended s = 0"
    and cur: "pxCurrentTCB s \<noteq> xIdleTaskHandle s" and inc: "inc > 0"
  shows "\<exists>s'. xTaskDelayUntil p inc s = Some (s', p + inc, should_delay p (p + inc) (xTickCount s)) \<and> tinv S E s'"
proof -
  let ?q = "vTaskSuspendAll s" and ?d = "should_delay p (p + inc) (xTickCount s)"
  have q: "tinv S E ?q" by (rule suspend_all_tinv [OF inv]) (simp add: susp)
  have free: "acont (lists s) (EventItem (pxCurrentTCB s)) = None"
    using running_event_free [OF tinv_kinv [OF inv] _ susp] run by (simp add: running_def)
  obtain s1 where s1: "(if ?d then prvAddCurrentTaskToDelayedList (p + inc - xTickCount s) False ?q else Some ?q) = Some s1"
    "tinv S E s1" "uxSchedulerSuspended s1 = uxSchedulerSuspended ?q"
  proof (cases ?d)
    case True
    with block_self_tinv [OF q should_delay_neq [OF True]] cur free running_valid [OF run] that
    show ?thesis by (auto simp: valid_task_def)
  qed (use q that in auto)
  obtain s2 b where s2: "xTaskResumeAll s1 = Some (s2, b)" "tinv S E s2"
    by (rule resume_tinv [OF s1(2)]) (use s1(3) susp in auto)
  have "xTaskDelayUntil p inc s = Some (if \<not> b then portYIELD s2 else s2, p + inc, ?d)"
  proof -
    have "xTaskDelayUntil p inc s = do {
        s \<leftarrow> (if ?d then prvAddCurrentTaskToDelayedList (p + inc - xTickCount s) False ?q else Some ?q);
        (s, y) \<leftarrow> xTaskResumeAll s;
        Some (if \<not> y then portYIELD s else s, p + inc, ?d) }"
      using inc susp by (simp add: xTaskDelayUntil_def configASSERT_def Let_def)
    then show ?thesis unfolding s1(1) by (simp add: s2(1))
  qed
  then show ?thesis using s2(2) portYIELD_tinv [OF s2(2)] by auto
qed

text \<open>Making a task ready that has no event item in a list.\<close>

lemma make_ready_tinv:
  assumes inv: "tinv S E s" and t: "valid_task s t" and free: "acont (lists s) (EventItem t) = None"
  shows "listREMOVE_ITEM (StateItem t) s = Some (s\<lparr>lists := a_remove (StateItem t) (lists s)\<rparr>)"
    and "prvAddTaskToReadyList t (s\<lparr>lists := a_remove (StateItem t) (lists s)\<rparr>) = unblock t s"
    and "tinv S E (unblock t s)"
proof -
  have c: "acont (lists s) (StateItem t) \<noteq> None" using t by (simp add: valid_task_def ktasks_def)
  then show "listREMOVE_ITEM (StateItem t) s = Some (s\<lparr>lists := a_remove (StateItem t) (lists s)\<rparr>)"
    by (simp add: listREMOVE_ITEM_eq)
  show "prvAddTaskToReadyList t (s\<lparr>lists := a_remove (StateItem t) (lists s)\<rparr>) = unblock t s"
    using free by (simp add: prvAddTaskToReadyList_eq unblock_def a_remove_None)
  have "acont (lists s) (StateItem t) \<noteq> Some TasksWaitingTermination"
    using t by (simp add: valid_task_def terminated_def)
  then show "tinv S E (unblock t s)"
    using sframe_tinv [OF inv unblock_kinv [OF tinv_kinv [OF inv] c] sframe_unblock [OF c]] by simp
qed

lemma vTaskResume_ok:
  assumes inv: "tinv S E s" and t: "valid_task s t"
  shows "\<exists>s'. vTaskResume t s = Some s' \<and> tinv S E s'"
proof -
  have nz: "t \<noteq> 0" using t ktasks_nz [OF tinv_kinv [OF inv]] by (simp add: valid_task_def)
  show ?thesis
  proof (cases "t \<noteq> pxCurrentTCB s \<and> prvTaskIsTaskSuspended t s")
    case True
    then have "acont (lists s) (EventItem t) = None"
      by (auto simp: prvTaskIsTaskSuspended_def listLIST_ITEM_CONTAINER_def split: if_splits)
    note m = make_ready_tinv [OF inv t this]
    show ?thesis
      using True nz m portYIELD_tinv [OF m(3)]
      by (auto simp: vTaskResume_def configASSERT_def Let_def)
  next
    case False
    then show ?thesis using nz inv by (auto simp: vTaskResume_def configASSERT_def)
  qed
qed

text \<open>The event item of a blocked task goes to the pending ready list.\<close>

lemma pend_tinv:
  assumes inv: "tinv S E s" and susp: "uxSchedulerSuspended s \<noteq> 0" and t: "valid_task s t"
    and free: "acont (lists s) (EventItem t) = None"
    and w: "ucNotifyState (tcb s t) 0 \<noteq> taskWAITING_NOTIFICATION"
  shows "tinv S E (insert_end PendingReadyList (EventItem t) s)"
proof -
  let ?s = "insert_end PendingReadyList (EventItem t) s"
  have dl: "pxDelayedTaskList s \<noteq> PendingReadyList" "pxOverflowDelayedTaskList s \<noteq> PendingReadyList"
    using inv by (auto simp: tinv_def kinv_def kinv0_def delays_def)
  have "kinv ?s"
    using tinv_kinv [OF inv] susp t free dl
    unfolding kinv_def kinv0_def places_def delays_def readies_def unblock_times_def none_pending_def
      insert_end_def valid_task_def ktasks_def terminated_def
    by auto
  then show ?thesis
    by (rule tinv_update [OF inv])
      (use inv w in \<open>auto simp: insert_end_def ktasks_def terminated_def tinv_def is_ready_def waiting_free_def\<close>)
qed

lemma set_yield_tinv: "tinv S E s \<Longrightarrow> tinv S E (set_yield b s)"
  by (metis set_yield_kinv sframe_fields(1) sframe_tinv tinv_kinv)

lemma xTaskResumeFromISR_ok:
  assumes inv: "tinv S E s" and t: "valid_task s t"
    and w: "uxSchedulerSuspended s = 0 \<or> ucNotifyState (tcb s t) 0 \<noteq> taskWAITING_NOTIFICATION"
  shows "\<exists>s' b. xTaskResumeFromISR t s = Some (s', b) \<and> tinv S E s'"
proof -
  have nz: "t \<noteq> 0" using t ktasks_nz [OF tinv_kinv [OF inv]] by (simp add: valid_task_def)
  show ?thesis
  proof (cases "prvTaskIsTaskSuspended t s")
    case True
    then have free: "acont (lists s) (EventItem t) = None"
      by (auto simp: prvTaskIsTaskSuspended_def listLIST_ITEM_CONTAINER_def split: if_splits)
    show ?thesis
    proof (cases "uxSchedulerSuspended s = 0")
      case run: True
      let ?b = "uxPriority (tcb s t) \<ge> uxPriority (tcb s (pxCurrentTCB s))"
      let ?q = "set_yield (xYieldPending s \<or> ?b) s"
      have q: "tinv S E ?q" "valid_task ?q t"
        using set_yield_tinv [OF inv] t by (simp_all add: valid_task_def ktasks_def terminated_def)
      note m = make_ready_tinv [OF q]
      have "xTaskResumeFromISR t s = Some (unblock t ?q, ?b)"
        using True run nz m(1,2) free
        by (simp add: xTaskResumeFromISR_def configASSERT_def cond_yield Let_def)
      then show ?thesis using m(3) free by simp
    next
      case False
      then show ?thesis
        using True nz w pend_tinv [OF inv False t free]
        by (auto simp: xTaskResumeFromISR_def configASSERT_def intro: exI [of _ False])
    qed
  next
    case False
    then show ?thesis using nz inv
      by (auto simp: xTaskResumeFromISR_def configASSERT_def intro: exI [of _ False])
  qed
qed


lemma stop_waiting_neq: "stop_waiting n \<noteq> taskWAITING_NOTIFICATION"
  by (simp add: stop_waiting_def)

lemma remove_event_eq:
  "remove_event t s = Some (s\<lparr>lists := a_remove (EventItem t) (lists s)\<rparr>)"
  by (cases "acont (lists s) (EventItem t)")
    (simp_all add: remove_event_def listLIST_ITEM_CONTAINER_def listREMOVE_ITEM_eq a_remove_None)

text \<open>
  Taking a task out of the lists for good, into \<open>l\<close>: the suspended list or the list of deleted
  tasks.
\<close>

lemma park_kinv:
  assumes inv: "kinv s" and t: "t \<in> ktasks s" and l: "l = SuspendedTaskList \<or> l = TasksWaitingTermination"
  shows "kinv (s\<lparr>lists := a_insert_end l (StateItem t) (a_remove (EventItem t) (a_remove (StateItem t) (lists s)))\<rparr>)"
proof -
  have dl: "pxDelayedTaskList s \<noteq> l" "pxOverflowDelayedTaskList s \<noteq> l"
    using inv l by (auto simp: kinv_def kinv0_def delays_def)
  have "l \<noteq> PendingReadyList" "\<And>p. l \<noteq> Ready p" using l by auto
  then show ?thesis
    using inv t l dl
    unfolding kinv_def kinv0_def places_def delays_def readies_def unblock_times_def none_pending_def ktasks_def
    by auto
qed

lemma kinv_reset: "kinv s \<Longrightarrow> kinv (prvResetNextTaskUnblockTime s)"
  using reset_le [of 0 s] by (auto simp: kinv_def unblock_times_def none_pending_def)

lemma reset_more_frame [simp]:
  "kheap (prvResetNextTaskUnblockTime s) = kheap s"
  "uxDeletedTasksWaitingCleanUp (prvResetNextTaskUnblockTime s) = uxDeletedTasksWaitingCleanUp s"
  "xIdleTaskHandle (prvResetNextTaskUnblockTime s) = xIdleTaskHandle s"
  "xSchedulerRunning (prvResetNextTaskUnblockTime s) = xSchedulerRunning s"
  "uxTaskNumber (prvResetNextTaskUnblockTime s) = uxTaskNumber s"
  by (simp_all add: prvResetNextTaskUnblockTime_def split: list.splits)

text \<open>\<open>h\<close> is a handle of task \<open>t\<close>: \<open>NULL\<close> stands for the running task.\<close>

definition denotes :: "'a kernel_scheme \<Rightarrow> nat \<Rightarrow> nat \<Rightarrow> bool" where
  "denotes s h t \<longleftrightarrow> prvGetTCBFromHandle h s = t \<and> valid_task s t"

lemma either_state:
  "x = Some (if b then u else v) \<Longrightarrow> \<exists>w. x = Some w \<and> (w = v \<or> w = u)"
  by auto

lemma vTaskSuspend_ok:
  assumes inv: "tinv S E s" and h: "denotes s h t" and idle: "t \<noteq> xIdleTaskHandle s"
    and run: "xSchedulerRunning s" and susp: "t = pxCurrentTCB s \<Longrightarrow> uxSchedulerSuspended s = 0"
  shows "\<exists>s'. vTaskSuspend h s = Some s' \<and> tinv S E s' \<and>
    acont (lists s') (StateItem t) = Some SuspendedTaskList \<and> acont (lists s') (EventItem t) = None"
proof -
  have t: "t \<in> ktasks s" "t \<notin> terminated s" and ht: "prvGetTCBFromHandle h s = t"
    using h by (simp_all add: denotes_def valid_task_def)
  let ?a = "a_insert_end SuspendedTaskList (StateItem t) (a_remove (EventItem t) (a_remove (StateItem t) (lists s)))"
  let ?u = "s\<lparr>lists := ?a\<rparr>"
  let ?v = "prvResetNextTaskUnblockTime (upd_tcb t (ucNotifyState_update (\<lambda>f. f(0 := stop_waiting (f 0)))) ?u)"
  have k: "kinv ?u" by (rule park_kinv [OF tinv_kinv [OF inv] t(1)]) simp
  have k': "kinv ?v"
    by (rule kinv_reset, rule kinv_congI [OF k]) (use kinv_current [OF k] in \<open>auto simp: upd_tcb_def\<close>)
  have kt: "ktasks ?v = ktasks s" using t by (auto simp: ktasks_def upd_tcb_def)
  have tm: "terminated ?v = terminated s" using t by (auto simp: terminated_def upd_tcb_def)
  have v: "tinv S E ?v"
    by (rule tinv_update [OF inv k' _ _ _ _ kt tm])
      (use inv idle stop_waiting_neq in \<open>auto simp: upd_tcb_def tinv_def is_ready_def waiting_free_def\<close>)
  have res: "vTaskSuspend h s = Some (if t = pxCurrentTCB s then portYIELD ?v else ?v)"
    using t run susp
    by (simp add: vTaskSuspend_def ht listREMOVE_ITEM_eq remove_event_eq insert_end_def upd_tcb_def ktasks_def
        configASSERT_def Let_def)
  obtain w where w: "vTaskSuspend h s = Some w" "w = ?v \<or> w = portYIELD ?v"
    using either_state [OF res] by blast
  have "tinv S E w" using w(2) v portYIELD_tinv [OF v] by blast
  moreover have "acont (lists w) = acont (lists ?v)" using w(2) by auto
  ultimately show ?thesis using w(1) by (simp add: upd_tcb_def)
qed

text \<open>A change of priority: of a ready task, which moves to its new list, and of another one.\<close>

definition reprio :: "nat \<Rightarrow> nat \<Rightarrow> 'a kernel_scheme \<Rightarrow> 'a kernel_scheme" where
  "reprio t p s = upd_tcb t (uxPriority_update (\<lambda>_. p)) s"

lemma reprio_frame [simp]:
  "lists (reprio t p s) = lists s" "pxCurrentTCB (reprio t p s) = pxCurrentTCB s"
  "pxDelayedTaskList (reprio t p s) = pxDelayedTaskList s"
  "pxOverflowDelayedTaskList (reprio t p s) = pxOverflowDelayedTaskList s"
  "xTickCount (reprio t p s) = xTickCount s" "uxTopReadyPriority (reprio t p s) = uxTopReadyPriority s"
  "xNextTaskUnblockTime (reprio t p s) = xNextTaskUnblockTime s"
  "uxSchedulerSuspended (reprio t p s) = uxSchedulerSuspended s"
  "tcb (reprio t p s) = (tcb s)(t := (tcb s t)\<lparr>uxPriority := p\<rparr>)"
  by (simp_all add: reprio_def upd_tcb_def)

lemma reprio_blocked_kinv:
  assumes inv: "kinv s" and "acont (lists s) (StateItem t) \<noteq> Some (Ready (uxPriority (tcb s t)))"
    and p: "p < configMAX_PRIORITIES"
  shows "kinv (reprio t p s)"
proof -
  have "places (reprio t p s)"
    unfolding places_def
  proof (intro conjI allI impI)
    fix u l assume "acont (lists (reprio t p s)) (StateItem u) = Some l"
    then show "u \<noteq> 0" "uxPriority (tcb (reprio t p s) u) < configMAX_PRIORITIES"
      "l = Ready (uxPriority (tcb (reprio t p s) u)) \<or> blocked_list l \<or> l = TasksWaitingTermination"
      using kinv_state [OF inv, of u l] assms(2) p by auto
  next
    fix u l assume "acont (lists (reprio t p s)) (EventItem u) = Some l"
    then show "\<exists>m. acont (lists (reprio t p s)) (StateItem u) = Some m \<and>
        (event_list l \<and> blocked_list m \<or> l = PendingReadyList \<and> m \<noteq> TasksWaitingTermination)"
      using kinv_event [OF inv] by simp
  qed
  then show ?thesis
    using inv by (simp add: kinv_def kinv0_def delays_def readies_def unblock_times_def none_pending_def)
qed

lemma reprio_ready_kinv:
  assumes inv: "kinv s" and rdy: "acont (lists s) (StateItem t) = Some (Ready (uxPriority (tcb s t)))"
    and p: "p < configMAX_PRIORITIES"
  shows "kinv (prvAddTaskToReadyList t ((reprio t p s)\<lparr>lists := a_remove (StateItem t) (lists s)\<rparr>))"
    (is "kinv ?u")
proof -
  have dl: "pxDelayedTaskList s \<noteq> Ready q" "pxOverflowDelayedTaskList s \<noteq> Ready q"
    "Ready q \<noteq> pxDelayedTaskList s" "Ready q \<noteq> pxOverflowDelayedTaskList s" for q
    using inv by (auto simp: kinv_def kinv0_def delays_def)
  have c: "acont (lists ?u) = (acont (lists s))(StateItem t := Some (Ready p))"
    by (simp add: prvAddTaskToReadyList_eq)
  have "places ?u"
    unfolding places_def
  proof (intro conjI allI impI)
    fix u l assume "acont (lists ?u) (StateItem u) = Some l"
    then show "u \<noteq> 0" "uxPriority (tcb ?u u) < configMAX_PRIORITIES"
      "l = Ready (uxPriority (tcb ?u u)) \<or> blocked_list l \<or> l = TasksWaitingTermination"
      using kinv_state [OF inv, of u] rdy p unfolding c
      by (auto simp: prvAddTaskToReadyList_eq split: if_splits)
  next
    fix u l assume "acont (lists ?u) (EventItem u) = Some l"
    then show "\<exists>m. acont (lists ?u) (StateItem u) = Some m \<and>
        (event_list l \<and> blocked_list m \<or> l = PendingReadyList \<and> m \<noteq> TasksWaitingTermination)"
      using kinv_event [OF inv, of u l] rdy unfolding c by auto
  qed
  moreover have "readies ?u"
    using inv p unfolding readies_def c
    by (auto simp: prvAddTaskToReadyList_eq kinv_def kinv0_def readies_def le_max_iff_disj)
  moreover have "awf UNIV (lists ?u)"
    using inv by (simp add: prvAddTaskToReadyList_eq kinv_def kinv0_def)
  moreover have "delays 0 ?u"
    using inv dl by (auto simp: prvAddTaskToReadyList_eq kinv_def kinv0_def delays_def)
  moreover have "unblock_times ?u"
    using inv dl unfolding unblock_times_def c
    by (auto simp: prvAddTaskToReadyList_eq kinv_def unblock_times_def)
  moreover have "none_pending ?u"
    using inv unfolding none_pending_def c by (auto simp: prvAddTaskToReadyList_eq kinv_def none_pending_def)
  moreover have "acont (lists ?u) (StateItem (pxCurrentTCB ?u)) \<noteq> None"
    using inv unfolding c by (simp add: prvAddTaskToReadyList_eq kinv_def kinv0_def)
  ultimately show ?thesis by (simp add: kinv_def kinv0_def)
qed

lemma set_item_value_more [simp]:
  "pxCurrentTCB (set_item_value i v s) = pxCurrentTCB s" "kheap (set_item_value i v s) = kheap s"
  "uxCurrentNumberOfTasks (set_item_value i v s) = uxCurrentNumberOfTasks s"
  "uxDeletedTasksWaitingCleanUp (set_item_value i v s) = uxDeletedTasksWaitingCleanUp s"
  "xIdleTaskHandle (set_item_value i v s) = xIdleTaskHandle s"
  by (simp_all add: set_item_value_def)

lemma vTaskPrioritySet_ok:
  assumes inv: "tinv S E s" and h: "denotes s h t" and p: "p < configMAX_PRIORITIES"
  shows "\<exists>s'. vTaskPrioritySet h p s = Some s' \<and> tinv S E s' \<and> uxPriority (tcb s' t) = p"
proof -
  have t: "t \<in> ktasks s" "t \<notin> terminated s" and ht: "prvGetTCBFromHandle h s = t"
    using h by (simp_all add: denotes_def valid_task_def)
  let ?old = "uxPriority (tcb s t)"
  show ?thesis
  proof (cases "?old = p")
    case True
    then show ?thesis using inv p ht by (simp add: vTaskPrioritySet_def configASSERT_def Let_def)
  next
    case False
    define v where "v = (if aval (lists s) (EventItem t) AND taskEVENT_LIST_ITEM_VALUE_IN_USE = 0
      then of_nat configMAX_PRIORITIES - of_nat p else aval (lists s) (EventItem t))"
    define e where "e = set_item_value (EventItem t) v s"
    have ke: "kinv e" unfolding e_def by (rule kinv_set_event_value [OF tinv_kinv [OF inv]])
    have ef: "tcb e = tcb s" "acont (lists e) = acont (lists s)" by (simp_all add: e_def)
    define u where "u = (if acont (lists s) (StateItem t) = Some (Ready ?old)
      then prvAddTaskToReadyList t ((reprio t p e)\<lparr>lists := a_remove (StateItem t) (lists e)\<rparr>)
      else reprio t p e)"
    have ku: "kinv u"
      using reprio_ready_kinv [OF ke, of t p] reprio_blocked_kinv [OF ke, of t p] p
      by (auto simp: u_def ef)
    have cu: "acont (lists u) = (if acont (lists s) (StateItem t) = Some (Ready ?old)
        then (acont (lists s))(StateItem t := Some (Ready p)) else acont (lists s))"
      by (simp add: u_def prvAddTaskToReadyList_eq ef)
    have kt: "ktasks u = ktasks s" and tm: "terminated u = terminated s"
      using t by (auto simp: ktasks_def terminated_def cu)
    have uf: "kheap u = kheap s" "uxCurrentNumberOfTasks u = uxCurrentNumberOfTasks s"
      "uxDeletedTasksWaitingCleanUp u = uxDeletedTasksWaitingCleanUp s" "xIdleTaskHandle u = xIdleTaskHandle s"
      "tcb u = (tcb s)(t := (tcb s t)\<lparr>uxPriority := p\<rparr>)"
      by (simp_all add: u_def prvAddTaskToReadyList_eq e_def reprio_def upd_tcb_def)
    have "is_ready u (xIdleTaskHandle u)"
      using inv by (auto simp: tinv_def is_ready_def cu uf)
    moreover have "waiting_free u"
      using inv by (auto simp: tinv_def waiting_free_def cu uf)
    ultimately have u: "tinv S E u"
      by (intro tinv_update [OF inv ku uf(1-3) _ kt tm]) (simp_all add: uf)
    have vq: "(if listGET_LIST_ITEM_VALUE (EventItem t) (reprio t p s) AND taskEVENT_LIST_ITEM_VALUE_IN_USE = 0
        then set_item_value (EventItem t) (of_nat configMAX_PRIORITIES - of_nat p) (reprio t p s)
        else reprio t p s) = reprio t p e"
      by (simp add: v_def e_def listGET_LIST_ITEM_VALUE_def set_item_value_def a_set_value_def reprio_def upd_tcb_def)
    define y where "y = (if p > ?old then t \<noteq> pxCurrentTCB s \<and> p \<ge> uxPriority (tcb s (pxCurrentTCB s))
      else t = pxCurrentTCB s)"
    have "reprio t p e = (if listGET_LIST_ITEM_VALUE (EventItem t) (reprio t p s) AND taskEVENT_LIST_ITEM_VALUE_IN_USE = 0
        then set_item_value (EventItem t) (of_nat configMAX_PRIORITIES - of_nat p) (reprio t p s)
        else reprio t p s)"
      using vq by simp
    then have res: "vTaskPrioritySet h p s = Some (if y then portYIELD u else u)"
      using p False ht t unfolding y_def u_def
      by (cases "acont (lists s) (StateItem t) = Some (Ready ?old)")
        (simp_all add: vTaskPrioritySet_def configASSERT_def reprio_def [symmetric] vq Let_def ef
          listLIST_ITEM_CONTAINER_def listREMOVE_ITEM_eq ktasks_def split del: if_split cong: if_cong)
    obtain w where w: "vTaskPrioritySet h p s = Some w" "w = u \<or> w = portYIELD u"
      using either_state [OF res] by blast
    have "tinv S E w" using w(2) u portYIELD_tinv [OF u] by blast
    moreover have "tcb w = tcb u" using w(2) by auto
    ultimately show ?thesis using w(1) uf(5) by simp
  qed
qed


section \<open>Notifications keep the invariant\<close>

text \<open>
  Changing the notification fields of a task whose event item is in no list, or to a state
  other than waiting.
\<close>

lemma notify_fields_tinv:
  assumes inv: "tinv S E s" and "uxPriority (f (tcb s t)) = uxPriority (tcb s t)"
    and "pxStack (f (tcb s t)) = pxStack (tcb s t)"
    and "ucNotifyState (f (tcb s t)) 0 = taskWAITING_NOTIFICATION \<Longrightarrow>
      ucNotifyState (tcb s t) 0 = taskWAITING_NOTIFICATION \<or> acont (lists s) (EventItem t) = None"
  shows "tinv S E (upd_tcb t f s)"
proof (rule tinv_update [OF inv])
  show "kinv (upd_tcb t f s)"
    by (rule kinv_congI [OF tinv_kinv [OF inv]])
      (use assms kinv_current [OF tinv_kinv [OF inv]] in \<open>auto simp: upd_tcb_def\<close>)
  show "waiting_free (upd_tcb t f s)"
    using assms by (auto simp: upd_tcb_def tinv_def waiting_free_def)
qed (use assms in \<open>auto simp: upd_tcb_def ktasks_def terminated_def tinv_def is_ready_def\<close>)

lemma set_nvalue_tinv: "tinv S E s \<Longrightarrow> tinv S E (set_nvalue t i v s)"
  unfolding set_nvalue_def by (rule notify_fields_tinv) auto

lemma set_notify_tinv:
  "tinv S E s \<Longrightarrow> n \<noteq> taskWAITING_NOTIFICATION \<or> acont (lists s) (EventItem t) = None \<Longrightarrow>
   tinv S E (set_notify t i n s)"
  unfolding set_notify_def by (rule notify_fields_tinv) (auto split: if_splits)

lemma nfield_frame [simp]:
  "lists (set_nvalue t i v s) = lists s" "lists (set_notify t i n s) = lists s"
  "pxCurrentTCB (set_nvalue t i v s) = pxCurrentTCB s" "pxCurrentTCB (set_notify t i n s) = pxCurrentTCB s"
  "xIdleTaskHandle (set_nvalue t i v s) = xIdleTaskHandle s" "xIdleTaskHandle (set_notify t i n s) = xIdleTaskHandle s"
  "uxSchedulerSuspended (set_nvalue t i v s) = uxSchedulerSuspended s"
  "uxSchedulerSuspended (set_notify t i n s) = uxSchedulerSuspended s"
  "terminated (set_nvalue t i v s) = terminated s" "terminated (set_notify t i n s) = terminated s"
  "ktasks (set_nvalue t i v s) = ktasks s" "ktasks (set_notify t i n s) = ktasks s"
  "valid_task (set_nvalue t i v s) u = valid_task s u" "valid_task (set_notify t i n s) u = valid_task s u"
  "uxPriority (tcb (set_nvalue t i v s) u) = uxPriority (tcb s u)"
  "uxPriority (tcb (set_notify t i n s) u) = uxPriority (tcb s u)"
  by (simp_all add: set_nvalue_def set_notify_def upd_tcb_def terminated_def ktasks_def valid_task_def)

lemma notify_state_sel [simp]:
  "ucNotifyState (tcb (set_notify t i n s) u) j =
     (if u = t \<and> j = i then n else ucNotifyState (tcb s u) j)"
  "ucNotifyState (tcb (set_nvalue t i v s) u) j = ucNotifyState (tcb s u) j"
  "ulNotifiedValue (tcb (set_nvalue t i v s) u) j =
     (if u = t \<and> j = i then v else ulNotifiedValue (tcb s u) j)"
  "ulNotifiedValue (tcb (set_notify t i n s) u) j = ulNotifiedValue (tcb s u) j"
  by (auto simp: set_nvalue_def set_notify_def upd_tcb_def)

lemma notify_action_cases:
  "notify_action a t i v orig s = (s', r) \<Longrightarrow> s' = s \<or> (\<exists>w. s' = set_nvalue t i w s)"
  by (cases a) (auto simp: notify_action_def Let_def split: if_splits)

lemma notify_action_frame:
  assumes "notify_action a t i v orig s = (s', r)" and "tinv S E s"
  shows "tinv S E s'" and "acont (lists s') = acont (lists s)" and "pxCurrentTCB s' = pxCurrentTCB s"
    and "uxSchedulerSuspended s' = uxSchedulerSuspended s" and "\<And>u. valid_task s' u = valid_task s u"
    and "\<And>u j. ucNotifyState (tcb s' u) j = ucNotifyState (tcb s u) j"
  using notify_action_cases [OF assms(1)] assms(2) by (auto intro: set_nvalue_tinv)

lemma xTaskGenericNotify_ok:
  assumes inv: "tinv S E s" and t: "valid_task s t"
  shows "\<exists>s' r. xTaskGenericNotify t 0 v a s = Some (s', ulNotifiedValue (tcb s t) 0, r) \<and> tinv S E s'"
proof -
  have nz: "t \<noteq> 0" using t ktasks_nz [OF tinv_kinv [OF inv]] by (simp add: valid_task_def)
  let ?o = "ucNotifyState (tcb s t) 0" and ?q = "set_notify t 0 taskNOTIFICATION_RECEIVED s"
  have q: "tinv S E ?q" by (rule set_notify_tinv [OF inv]) simp
  obtain u r where u: "notify_action a t 0 v ?o ?q = (u, r)" by force
  note f = notify_action_frame [OF u q]
  show ?thesis
  proof (cases "?o = taskWAITING_NOTIFICATION")
    case True
    then have free: "acont (lists u) (EventItem t) = None"
      using inv f(2) by (simp add: tinv_def waiting_free_def)
    have tu: "valid_task u t" using t f(5) by simp
    note m = make_ready_tinv [OF f(1) tu free]
    have "xTaskGenericNotify t 0 v a s = Some
        (if uxPriority (tcb (unblock t u) t) > uxPriority (tcb (unblock t u) (pxCurrentTCB (unblock t u)))
         then portYIELD (unblock t u) else unblock t u, ulNotifiedValue (tcb s t) 0, r)"
      using nz True u m(1,2)
      by (simp add: xTaskGenericNotify_def configASSERT_def configTASK_NOTIFICATION_ARRAY_ENTRIES_def
          listLIST_ITEM_CONTAINER_def unblock_cont Let_def)
    then show ?thesis using m(3) portYIELD_tinv [OF m(3)] by (cases r) auto
  next
    case False
    then show ?thesis
      using nz u f(1) by (simp add: xTaskGenericNotify_def configASSERT_def
          configTASK_NOTIFICATION_ARRAY_ENTRIES_def Let_def)
  qed
qed

lemma notify_wake_ok:
  assumes inv: "tinv S E u" and t: "valid_task u t" and free: "acont (lists u) (EventItem t) = None"
    and w: "ucNotifyState (tcb u t) 0 \<noteq> taskWAITING_NOTIFICATION"
  shows "\<exists>s' b. notify_wake_from_isr t u = Some (s', b) \<and> tinv S E s'"
proof -
  define p where "p = (if uxSchedulerSuspended u = 0 then unblock t u else insert_end PendingReadyList (EventItem t) u)"
  have p: "tinv S E p"
    using make_ready_tinv(3) [OF inv t free] pend_tinv [OF inv _ t free w] by (simp add: p_def)
  have "notify_wake_from_isr t u =
      (if uxPriority (tcb p t) > uxPriority (tcb p (pxCurrentTCB p))
       then Some (set_yield True p, True) else Some (p, False))"
    using free make_ready_tinv(1,2) [OF inv t free]
    by (simp add: notify_wake_from_isr_def configASSERT_def listLIST_ITEM_CONTAINER_def p_def set_yield_def)
  then show ?thesis using p set_yield_tinv [OF p] by auto
qed

lemma xTaskGenericNotifyFromISR_ok:
  assumes inv: "tinv S E s" and t: "valid_task s t"
  shows "\<exists>s' r b. xTaskGenericNotifyFromISR t 0 v a s = Some (s', ulNotifiedValue (tcb s t) 0, r, b) \<and> tinv S E s'"
proof -
  have nz: "t \<noteq> 0" using t ktasks_nz [OF tinv_kinv [OF inv]] by (simp add: valid_task_def)
  let ?o = "ucNotifyState (tcb s t) 0" and ?q = "set_notify t 0 taskNOTIFICATION_RECEIVED s"
  have q: "tinv S E ?q" by (rule set_notify_tinv [OF inv]) simp
  obtain u r where u: "notify_action a t 0 v ?o ?q = (u, r)" by force
  note f = notify_action_frame [OF u q]
  show ?thesis
  proof (cases "?o = taskWAITING_NOTIFICATION")
    case True
    then have free: "acont (lists u) (EventItem t) = None"
      using inv f(2) by (simp add: tinv_def waiting_free_def)
    have "valid_task u t" "ucNotifyState (tcb u t) 0 \<noteq> taskWAITING_NOTIFICATION"
      using f(5,6) t by simp_all
    then obtain s' b where "notify_wake_from_isr t u = Some (s', b)" "tinv S E s'"
      using notify_wake_ok [OF f(1) _ free] by blast
    then show ?thesis
      using nz True u by (simp add: xTaskGenericNotifyFromISR_def configASSERT_def
          configTASK_NOTIFICATION_ARRAY_ENTRIES_def Let_def)
  next
    case False
    then show ?thesis
      using nz u f(1) by (auto simp: xTaskGenericNotifyFromISR_def configASSERT_def
          configTASK_NOTIFICATION_ARRAY_ENTRIES_def Let_def intro: exI [of _ False])
  qed
qed

lemma vTaskGenericNotifyGiveFromISR_ok:
  assumes inv: "tinv S E s" and t: "valid_task s t"
  shows "\<exists>s' b. vTaskGenericNotifyGiveFromISR t 0 s = Some (s', b) \<and> tinv S E s'"
proof -
  have nz: "t \<noteq> 0" using t ktasks_nz [OF tinv_kinv [OF inv]] by (simp add: valid_task_def)
  let ?u = "set_nvalue t 0 (ulNotifiedValue (tcb s t) 0 + 1) (set_notify t 0 taskNOTIFICATION_RECEIVED s)"
  have u: "tinv S E ?u" by (intro set_nvalue_tinv set_notify_tinv [OF inv]) simp
  show ?thesis
  proof (cases "ucNotifyState (tcb s t) 0 = taskWAITING_NOTIFICATION")
    case True
    then have free: "acont (lists ?u) (EventItem t) = None" using inv by (simp add: tinv_def waiting_free_def)
    have "valid_task ?u t" "ucNotifyState (tcb ?u t) 0 \<noteq> taskWAITING_NOTIFICATION" using t by simp_all
    then obtain s' b where "notify_wake_from_isr t ?u = Some (s', b)" "tinv S E s'"
      using notify_wake_ok [OF u _ free] by blast
    then show ?thesis
      using nz True by (simp add: vTaskGenericNotifyGiveFromISR_def configASSERT_def
          configTASK_NOTIFICATION_ARRAY_ENTRIES_def Let_def)
  next
    case False
    then show ?thesis
      using nz u by (auto simp: vTaskGenericNotifyGiveFromISR_def configASSERT_def
          configTASK_NOTIFICATION_ARRAY_ENTRIES_def Let_def intro: exI [of _ False])
  qed
qed

end
