(* ===== verification/TaskSystem.thy ===== *)
theory TaskSystem
  imports Tasks
begin

text \<open>
  The interface of \<open>tasks.c\<close> as a transition system: every call of the running task and every
  interrupt is a step on the kernel state.  No permitted step fails an assertion or follows a
  null pointer, and the invariant \<open>tinv\<close> holds in every reachable state.
\<close>

section \<open>The remaining operations\<close>

lemma current_free:
  "tinv S E s \<Longrightarrow> running s \<Longrightarrow> uxSchedulerSuspended s = 0 \<Longrightarrow>
   acont (lists s) (EventItem (pxCurrentTCB s)) = None"
  unfolding running_def by (rule running_event_free [OF tinv_kinv]) simp_all

lemma current_not_terminated: "running s \<Longrightarrow> pxCurrentTCB s \<notin> terminated s"
  by (drule running_valid) (simp add: valid_task_def)

lemma wait_block:
  assumes inv: "tinv S E s" and cur: "pxCurrentTCB s \<noteq> xIdleTaskHandle s"
    and valid: "pxCurrentTCB s \<notin> terminated s" and free: "acont (lists s) (EventItem (pxCurrentTCB s)) = None"
  shows "\<exists>s'. (if n > 0 then do { s \<leftarrow> prvAddCurrentTaskToDelayedList n True s; Some (portYIELD s) }
    else Some s) = Some s' \<and> tinv S E s'"
proof (cases "n > 0")
  case True
  obtain s' where "prvAddCurrentTaskToDelayedList n True s = Some s'" "tinv S E s'"
    by (rule block_self_tinv [OF inv True cur valid free])
  then show ?thesis using True portYIELD_tinv by auto
qed (use inv in auto)

lemma ulTaskGenericNotifyTake_wait_ok:
  assumes inv: "tinv S E s" and run: "running s" and susp: "uxSchedulerSuspended s = 0"
    and cur: "pxCurrentTCB s \<noteq> xIdleTaskHandle s"
  shows "\<exists>s'. ulTaskGenericNotifyTake_wait 0 n s = Some s' \<and> tinv S E s'"
proof (cases "ulNotifiedValue (tcb s (pxCurrentTCB s)) 0 = 0")
  case True
  let ?q = "set_notify (pxCurrentTCB s) 0 taskWAITING_NOTIFICATION s"
  note free = current_free [OF inv run susp]
  have "tinv S E ?q" by (rule set_notify_tinv [OF inv]) (simp add: free)
  from wait_block [OF this, of n] cur current_not_terminated [OF run] free True
  show ?thesis
    by (simp add: ulTaskGenericNotifyTake_wait_def configASSERT_def configTASK_NOTIFICATION_ARRAY_ENTRIES_def Let_def)
qed (use inv in \<open>simp add: ulTaskGenericNotifyTake_wait_def configASSERT_def
      configTASK_NOTIFICATION_ARRAY_ENTRIES_def Let_def\<close>)

lemma xTaskGenericNotifyWait_wait_ok:
  assumes inv: "tinv S E s" and run: "running s" and susp: "uxSchedulerSuspended s = 0"
    and cur: "pxCurrentTCB s \<noteq> xIdleTaskHandle s"
  shows "\<exists>s'. xTaskGenericNotifyWait_wait 0 b n s = Some s' \<and> tinv S E s'"
proof (cases "ucNotifyState (tcb s (pxCurrentTCB s)) 0 = taskNOTIFICATION_RECEIVED")
  case False
  let ?v = "set_nvalue (pxCurrentTCB s) 0 (ulNotifiedValue (tcb s (pxCurrentTCB s)) 0 AND NOT b) s"
  let ?q = "set_notify (pxCurrentTCB s) 0 taskWAITING_NOTIFICATION ?v"
  note free = current_free [OF inv run susp]
  have "tinv S E ?q" by (intro set_notify_tinv set_nvalue_tinv [OF inv]) (simp add: free)
  from wait_block [OF this, of n] cur current_not_terminated [OF run] free False
  show ?thesis
    by (simp add: xTaskGenericNotifyWait_wait_def configASSERT_def configTASK_NOTIFICATION_ARRAY_ENTRIES_def Let_def)
qed (use inv in \<open>simp add: xTaskGenericNotifyWait_wait_def configASSERT_def
      configTASK_NOTIFICATION_ARRAY_ENTRIES_def Let_def\<close>)

lemma ulTaskGenericNotifyTake_end_tinv:
  "tinv S E s \<Longrightarrow> tinv S E (fst (ulTaskGenericNotifyTake_end i c s))"
  by (auto simp: ulTaskGenericNotifyTake_end_def Let_def intro!: set_notify_tinv set_nvalue_tinv)

lemma xTaskGenericNotifyWait_end_tinv:
  "tinv S E s \<Longrightarrow> tinv S E (fst (xTaskGenericNotifyWait_end i b s))"
  by (auto simp: xTaskGenericNotifyWait_end_def Let_def intro!: set_notify_tinv set_nvalue_tinv)

lemma xTaskGenericNotifyStateClear_ok:
  "tinv S E s \<Longrightarrow> \<exists>s' b. xTaskGenericNotifyStateClear h 0 s = Some (s', b) \<and> tinv S E s'"
  by (auto simp: xTaskGenericNotifyStateClear_def configASSERT_def configTASK_NOTIFICATION_ARRAY_ENTRIES_def
      Let_def intro!: set_notify_tinv intro: exI [of _ False])

lemma ulTaskGenericNotifyValueClear_tinv:
  "tinv S E s \<Longrightarrow> tinv S E (fst (ulTaskGenericNotifyValueClear h i b s))"
  by (auto simp: ulTaskGenericNotifyValueClear_def Let_def intro!: set_nvalue_tinv)

text \<open>Waiting on an event list, and waking its first waiter.\<close>

definition not_waiting :: "'a kernel_scheme \<Rightarrow> nat \<Rightarrow> bool" where
  "not_waiting s t \<longleftrightarrow> ucNotifyState (tcb s t) 0 \<noteq> taskWAITING_NOTIFICATION"

lemma vTaskPlaceOnEventList_ok:
  assumes inv: "tinv S E s" and run: "running s" and cur: "pxCurrentTCB s \<noteq> xIdleTaskHandle s"
    and l: "event_list l" and n: "n > 0" and free: "acont (lists s) (EventItem (pxCurrentTCB s)) = None"
    and w: "not_waiting s (pxCurrentTCB s)"
  obtains s' where "vTaskPlaceOnEventList l n s = Some s'" and "tinv S E s'" and "blocked n True (Some l) s s'"
proof -
  obtain s' where s': "vTaskPlaceOnEventList l n s = Some s'" and b: "blocked n True (Some l) s s'"
    using vTaskPlaceOnEventList_blocks [OF tinv_kinv [OF inv] l free n] by auto
  have "tinv S E s'"
    by (rule blocked_tinv [OF inv b cur current_not_terminated [OF run]]) (use w in \<open>simp add: not_waiting_def\<close>)
  then show ?thesis using that s' b by blast
qed

lemma vTaskPlaceOnUnorderedEventList_ok:
  assumes inv: "tinv S E s" and run: "running s" and cur: "pxCurrentTCB s \<noteq> xIdleTaskHandle s"
    and l: "event_list l" and n: "n > 0" and free: "acont (lists s) (EventItem (pxCurrentTCB s)) = None"
    and w: "not_waiting s (pxCurrentTCB s)" and susp: "uxSchedulerSuspended s \<noteq> 0"
  obtains s' where "vTaskPlaceOnUnorderedEventList l v n s = Some s'" and "tinv S E s'"
    and "blocked n True (Some l) s s'"
proof -
  obtain s' where s': "vTaskPlaceOnUnorderedEventList l v n s = Some s'" and b: "blocked n True (Some l) s s'"
    using vTaskPlaceOnUnorderedEventList_blocks [OF tinv_kinv [OF inv] l free n susp] by auto
  have "tinv S E s'"
    by (rule blocked_tinv [OF inv b cur current_not_terminated [OF run]]) (use w in \<open>simp add: not_waiting_def\<close>)
  then show ?thesis using that s' b by blast
qed

lemma event_woken_tinv:
  assumes inv: "tinv S E s" and l: "event_list l" and c: "acont (lists s) (EventItem t) = Some l"
  shows "tinv S E (event_woken t s)"
proof -
  obtain m where m: "acont (lists s) (StateItem t) = Some m" "blocked_list m"
    using event_waiter [OF tinv_kinv [OF inv] l c] by auto
  show ?thesis
  proof (cases "uxSchedulerSuspended s = 0")
    case True
    have t: "acont (lists s) (StateItem t) \<noteq> None" "acont (lists s) (StateItem t) \<noteq> Some TasksWaitingTermination"
      using m by auto
    have "tinv S E (unblock t s)"
      using sframe_tinv [OF inv unblock_kinv [OF tinv_kinv [OF inv] t(1)] sframe_unblock [OF t(1)]] t by simp
    then show ?thesis using True set_yield_tinv by (simp add: event_woken_def)
  next
    case False
    let ?p = "s\<lparr>lists := a_insert_end PendingReadyList (EventItem t) (a_remove (EventItem t) (lists s))\<rparr>"
    have "tinv S E ?p"
      by (rule tinv_update [OF inv pend_event_kinv [OF tinv_kinv [OF inv] False m]])
        (use inv c in \<open>auto simp: ktasks_def terminated_def tinv_def is_ready_def waiting_free_def\<close>)
    then show ?thesis using False set_yield_tinv by (simp add: event_woken_def)
  qed
qed

lemma xTaskRemoveFromEventList_ok:
  assumes inv: "tinv S E s" and l: "event_list l" and ne: "items s l \<noteq> []"
  shows "\<exists>s' b. xTaskRemoveFromEventList l s = Some (s', b) \<and> tinv S E s'"
proof -
  obtain i "is" where "items s l = i # is" using ne by (cases "items s l") auto
  then obtain t where t: "i = EventItem t" "acont (lists s) i = Some l"
    "xTaskRemoveFromEventList l s = Some (event_woken t s, uxPriority (tcb s t) > uxPriority (tcb s (pxCurrentTCB s)))"
    using xTaskRemoveFromEventList_result [OF tinv_kinv [OF inv] l] by metis
  then show ?thesis using event_woken_tinv [OF inv l] by auto
qed

section \<open>Deletion\<close>

lemma tinv_delete_tcb:
  assumes inv: "tinv S E s" and susp: "uxSchedulerSuspended s + 1 \<noteq> 0"
    and heap: "heap_ok (kheap s) S ts" "owned_by S ts s"
    and t: "t \<notin> ktasks s" "(t, n) \<in> live_regions S ts" "(pxStack (tcb s t), m) \<in> live_regions S ts"
      "pxStack (tcb s t) \<noteq> t"
    and apart: "\<forall>u \<in> ktasks s. u \<noteq> pxStack (tcb s t) \<and> pxStack (tcb s u) \<noteq> pxStack (tcb s t) \<and> pxStack (tcb s u) \<noteq> t"
  obtains s' h ts' where "prvDeleteTCB t s = Some s'" and "tinv S E s'" and "sframe (s\<lparr>kheap := h\<rparr>) s'"
    and "uxSchedulerSuspended s' = uxSchedulerSuspended s"
    and "heap_ok (kheap s') S ts'" and "owned_by S ts' s'"
    and "live_regions S ts' = live_regions S ts - {(pxStack (tcb s t), m), (t, n)}"
proof -
  have a1: "\<forall>u \<in> ktasks s. u \<noteq> pxStack (tcb s t) \<and> pxStack (tcb s u) \<noteq> pxStack (tcb s t)"
    using apart by blast
  obtain s1 ts1 h1 where s1: "kernel_free (pxStack (tcb s t)) s = Some s1" "tinv S E s1"
    "heap_ok (kheap s1) S ts1" "owned_by S ts1 s1" "sframe (s\<lparr>kheap := h1\<rparr>) s1"
    "uxSchedulerSuspended s1 = uxSchedulerSuspended s"
    "live_regions S ts1 = live_regions S ts - {(pxStack (tcb s t), m)}"
    using free_tinv [OF inv susp heap(1) t(3) heap(2) a1] .
  have f: "ktasks s1 = ktasks s" "tcb s1 = tcb s"
    using sframe_ktasks [OF s1(5)] s1(5) by (simp_all add: sframe_def)
  have l: "(t, n) \<in> live_regions S ts1" using s1(7) t(2,4) by auto
  have a2: "\<forall>u \<in> ktasks s1. u \<noteq> t \<and> pxStack (tcb s1 u) \<noteq> t" using apart t(1) f by auto
  obtain s2 ts2 h2 where s2: "kernel_free t s1 = Some s2" "tinv S E s2"
    "heap_ok (kheap s2) S ts2" "owned_by S ts2 s2" "sframe (s1\<lparr>kheap := h2\<rparr>) s2"
    "uxSchedulerSuspended s2 = uxSchedulerSuspended s1" "live_regions S ts2 = live_regions S ts1 - {(t, n)}"
    using free_tinv [OF s1(2) _ s1(3) l s1(4) a2] susp s1(6) by metis
  have "sframe (s\<lparr>kheap := h2\<rparr>) (s1\<lparr>kheap := h2\<rparr>)" using s1(5) by (simp add: sframe_def)
  then have "sframe (s\<lparr>kheap := h2\<rparr>) s2" using s2(5) sframe_trans by blast
  moreover have "live_regions S ts2 = live_regions S ts - {(pxStack (tcb s t), m), (t, n)}"
    using s1(7) s2(7) by auto
  moreover have "prvDeleteTCB t s = Some s2" using s1(1) s2(1) by (simp add: prvDeleteTCB_def)
  ultimately show ?thesis using that s2 s1(6) by metis
qed

text \<open>Taking a task out of the task set: the remaining tasks still own their regions.\<close>

lemma word_card_remove:
  "finite A \<Longrightarrow> t \<in> A \<Longrightarrow> (of_nat (card (A - {t})) :: u32) = of_nat (card A) - 1"
  using card.remove [of A t] by (simp del: card_Diff_insert card_Diff_singleton)

lemma removed_task_tinv:
  assumes inv: "tinv S E s" and t: "t \<in> ktasks s" "t \<noteq> pxCurrentTCB s" "t \<noteq> xIdleTaskHandle s"
    and k: "kinv s'" and c: "acont (lists s') = (acont (lists s))(StateItem t := None, EventItem t := None)"
    and f: "tcb s' = tcb s" "kheap s' = kheap s" "xIdleTaskHandle s' = xIdleTaskHandle s"
    and n: "uxCurrentNumberOfTasks s' = uxCurrentNumberOfTasks s - 1"
      "uxDeletedTasksWaitingCleanUp s' = (if t \<in> terminated s then uxDeletedTasksWaitingCleanUp s - 1
         else uxDeletedTasksWaitingCleanUp s)"
  shows "tinv S E s'" and "ktasks s' = ktasks s - {t}"
proof -
  show kt: "ktasks s' = ktasks s - {t}" by (auto simp: ktasks_def c)
  have tm: "terminated s' = terminated s - {t}" by (auto simp: terminated_def c)
  have "owned S E s'"
    using inv by (auto simp: tinv_def owned_def owned_by_def kt f)
  moreover have "terminated s \<subseteq> ktasks s" by (auto simp: terminated_def ktasks_def)
  then have "finite (terminated s)" using inv by (auto simp: tinv_def counted_def intro: finite_subset)
  then have "counted s'"
    using inv t by (cases "t \<in> terminated s") (simp_all add: tinv_def counted_def kt tm n word_card_remove del: card_Diff_insert card_Diff_singleton)
  moreover have "is_ready s' (xIdleTaskHandle s')" using inv t by (simp add: tinv_def is_ready_def c f)
  moreover have "waiting_free s'" using inv by (simp add: tinv_def waiting_free_def c f)
  ultimately show "tinv S E s'" using k by (simp add: tinv_def)
qed

lemma remove_kinv:
  assumes inv: "kinv s" and t: "t \<noteq> pxCurrentTCB s"
  shows "kinv (s\<lparr>lists := a_remove (EventItem t) (a_remove (StateItem t) (lists s))\<rparr>)"
  using assms
  unfolding kinv_def kinv0_def places_def delays_def readies_def unblock_times_def none_pending_def
  by auto

lemma owner_regions:
  assumes "owned_by S ts s" and "t \<in> ktasks s"
  obtains n m where "(t, n) \<in> live_regions S ts" and "(pxStack (tcb s t), m) \<in> live_regions S ts"
    and "pxStack (tcb s t) \<noteq> t"
    and "\<forall>u \<in> ktasks s - {t}. u \<noteq> pxStack (tcb s t) \<and> pxStack (tcb s u) \<noteq> pxStack (tcb s t) \<and> pxStack (tcb s u) \<noteq> t"
  using assms unfolding owned_by_def by (metis Diff_iff insertI1)

text \<open>
  Deleting a task for good: the state after the removal from the lists and the counters is
  \<open>s'\<close>; \<open>prvDeleteTCB\<close> then returns exactly the two regions of the task to the heap.
\<close>

lemma delete_removed:
  assumes inv: "tinv S E s" and susp: "uxSchedulerSuspended s' + 1 \<noteq> 0"
    and t: "t \<in> ktasks s" and heap: "heap_ok (kheap s) S ts" "owned_by S ts s"
    and s': "tinv S E s'" "ktasks s' = ktasks s - {t}" "tcb s' = tcb s" "kheap s' = kheap s"
  obtains u ts' where "prvDeleteTCB t s' = Some u" and "tinv S E u" and "ktasks u = ktasks s - {t}"
    and "tcb u = tcb s" and "uxSchedulerSuspended u = uxSchedulerSuspended s'"
    and "pxCurrentTCB u = pxCurrentTCB s'" and "xSchedulerRunning u = xSchedulerRunning s'"
    and "xIdleTaskHandle u = xIdleTaskHandle s'"
    and "uxDeletedTasksWaitingCleanUp u = uxDeletedTasksWaitingCleanUp s'"
    and "terminated u = terminated s'"
    and "heap_ok (kheap u) S ts'" and "owned_by S ts' u"
    and "live_regions S ts' = {(p, n) \<in> live_regions S ts. p \<noteq> t \<and> p \<noteq> pxStack (tcb s t)}"
proof -
  obtain n m where r: "(t, n) \<in> live_regions S ts" "(pxStack (tcb s t), m) \<in> live_regions S ts"
    "pxStack (tcb s t) \<noteq> t"
    "\<forall>u \<in> ktasks s - {t}. u \<noteq> pxStack (tcb s t) \<and> pxStack (tcb s u) \<noteq> pxStack (tcb s t) \<and> pxStack (tcb s u) \<noteq> t"
    by (rule owner_regions [OF heap(2) t])
  have o: "owned_by S ts s'" using heap(2) by (auto simp: owned_by_def s')
  have hs: "heap_ok (kheap s') S ts" using heap s' by simp
  have a: "\<forall>u \<in> ktasks s'. u \<noteq> pxStack (tcb s' t) \<and> pxStack (tcb s' u) \<noteq> pxStack (tcb s' t) \<and> pxStack (tcb s' u) \<noteq> t"
    using r(4) s' by simp
  have nt: "t \<notin> ktasks s'" and st: "(pxStack (tcb s' t), m) \<in> live_regions S ts" "pxStack (tcb s' t) \<noteq> t"
    using r s' by simp_all
  obtain u h ts' where u: "prvDeleteTCB t s' = Some u" "tinv S E u" "sframe (s'\<lparr>kheap := h\<rparr>) u"
    "uxSchedulerSuspended u = uxSchedulerSuspended s'" "heap_ok (kheap u) S ts'" "owned_by S ts' u"
    "live_regions S ts' = live_regions S ts - {(pxStack (tcb s' t), m), (t, n)}"
    using tinv_delete_tcb [OF s'(1) susp hs o nt r(1) st a] .
  have "live_regions S ts' = {(p, n) \<in> live_regions S ts. p \<noteq> t \<and> p \<noteq> pxStack (tcb s t)}"
    using u(7) live_fun [OF heap(1)] r(1,2) s'(3) by auto
  moreover have "ktasks u = ktasks s - {t}" using sframe_ktasks [OF u(3)] s' by simp
  moreover have "terminated u = terminated s'" using sframe_terminated [OF u(3)] by (simp add: terminated_def)
  ultimately show ?thesis using that u s' by (simp add: sframe_def)
qed

definition freed :: "nat \<Rightarrow> tile list \<Rightarrow> 'a kernel_scheme \<Rightarrow> nat set \<Rightarrow> (nat \<times> nat) set" where
  "freed S ts s D = {(p, n) \<in> live_regions S ts. \<forall>t \<in> D. p \<noteq> t \<and> p \<noteq> pxStack (tcb s t)}"

lemma vTaskDelete_other:
  assumes inv: "tinv S E s" and h: "denotes s h t" and idle: "t \<noteq> xIdleTaskHandle s"
    and other: "t \<noteq> pxCurrentTCB s" and susp: "uxSchedulerSuspended s + 1 \<noteq> 0"
    and heap: "heap_ok (kheap s) S ts" "owned_by S ts s"
  obtains u ts' where "vTaskDelete h s = Some u" and "tinv S E u" and "ktasks u = ktasks s - {t}"
    and "heap_ok (kheap u) S ts'" and "live_regions S ts' = freed S ts s {t}"
proof -
  have t: "t \<in> ktasks s" "t \<notin> terminated s" and ht: "prvGetTCBFromHandle h s = t"
    using h by (simp_all add: denotes_def valid_task_def)
  let ?r = "s\<lparr>lists := a_remove (EventItem t) (a_remove (StateItem t) (lists s))\<rparr>"
  let ?s' = "prvResetNextTaskUnblockTime (?r\<lparr>uxTaskNumber := uxTaskNumber s + 1,
    uxCurrentNumberOfTasks := uxCurrentNumberOfTasks s - 1\<rparr>)"
  have kr: "kinv ?r" by (rule remove_kinv [OF tinv_kinv [OF inv] other])
  have "kinv ?s'"
    by (rule kinv_reset, rule kinv_congI [OF kr])
      (use t kinv_current [OF tinv_kinv [OF inv]] other in \<open>auto simp: ktasks_def\<close>)
  note rt = removed_task_tinv [OF inv t(1) other idle this]
  have s': "tinv S E ?s'" "ktasks ?s' = ktasks s - {t}" by (rule rt; use t in \<open>auto simp: fun_eq_iff\<close>)+
  have sp: "uxSchedulerSuspended ?s' + 1 \<noteq> 0" using susp by simp
  have fr: "tcb ?s' = tcb s" "kheap ?s' = kheap s" by simp_all
  obtain u ts' where u: "prvDeleteTCB t ?s' = Some u" "tinv S E u" "ktasks u = ktasks s - {t}"
    "tcb u = tcb s" "uxSchedulerSuspended u = uxSchedulerSuspended ?s'"
    "pxCurrentTCB u = pxCurrentTCB ?s'" "xSchedulerRunning u = xSchedulerRunning ?s'"
    "xIdleTaskHandle u = xIdleTaskHandle ?s'"
    "uxDeletedTasksWaitingCleanUp u = uxDeletedTasksWaitingCleanUp ?s'" "terminated u = terminated ?s'"
    "heap_ok (kheap u) S ts'" "owned_by S ts' u"
    "live_regions S ts' = {(p, n) \<in> live_regions S ts. p \<noteq> t \<and> p \<noteq> pxStack (tcb s t)}"
    by (rule delete_removed [OF inv sp t(1) heap s' fr])
  have "vTaskDelete h s = Some u"
    using t other u(1,6) unfolding vTaskDelete_def ht
    by (simp add: listREMOVE_ITEM_eq remove_event_eq ktasks_def Let_def)
  then show ?thesis using that u by (simp add: freed_def)
qed

lemma vTaskDelete_self:
  assumes inv: "tinv S E s" and h: "denotes s h (pxCurrentTCB s)" and idle: "pxCurrentTCB s \<noteq> xIdleTaskHandle s"
    and susp: "uxSchedulerSuspended s = 0" and run: "xSchedulerRunning s"
  obtains u where "vTaskDelete h s = Some u" and "tinv S E u" and "ktasks u = ktasks s"
    and "terminated u = insert (pxCurrentTCB s) (terminated s)" and "kheap u = kheap s" and "pendsv u"
proof -
  let ?t = "pxCurrentTCB s"
  have t: "?t \<in> ktasks s" "?t \<notin> terminated s" and ht: "prvGetTCBFromHandle h s = ?t"
    using h by (simp_all add: denotes_def valid_task_def)
  let ?a = "a_insert_end TasksWaitingTermination (StateItem ?t) (a_remove (EventItem ?t) (a_remove (StateItem ?t) (lists s)))"
  let ?u = "portYIELD (s\<lparr>uxTaskNumber := uxTaskNumber s + 1, lists := ?a,
    uxDeletedTasksWaitingCleanUp := uxDeletedTasksWaitingCleanUp s + 1\<rparr>)"
  have k: "kinv (s\<lparr>lists := ?a\<rparr>)" by (rule park_kinv [OF tinv_kinv [OF inv] t(1)]) simp
  have "kinv ?u" by (rule kinv_congI [OF k]) (use t in \<open>auto simp: ktasks_def portYIELD_def\<close>)
  have kt: "ktasks ?u = ktasks s" and tm: "terminated ?u = insert ?t (terminated s)"
    using t by (auto simp: ktasks_def terminated_def portYIELD_def)
  have "finite (terminated s)"
    using inv finite_subset [of "terminated s" "ktasks s"]
    by (auto simp: tinv_def counted_def terminated_def ktasks_def)
  moreover have nn: "uxCurrentNumberOfTasks ?u = uxCurrentNumberOfTasks s" "kheap ?u = kheap s" "tcb ?u = tcb s"
    "uxDeletedTasksWaitingCleanUp ?u = uxDeletedTasksWaitingCleanUp s + 1"
    by (simp_all add: portYIELD_def)
  ultimately have "counted ?u"
    using inv t unfolding counted_def kt tm nn by (simp add: tinv_def counted_def)
  moreover have "owned S E ?u" using inv unfolding owned_def owned_by_def kt nn by (simp add: tinv_def owned_def owned_by_def)
  moreover have "is_ready ?u (xIdleTaskHandle ?u)" and "waiting_free ?u"
    using inv idle by (auto simp: tinv_def is_ready_def waiting_free_def portYIELD_def)
  ultimately have inv': "tinv S E ?u" using \<open>kinv ?u\<close> by (simp add: tinv_def)
  have "vTaskDelete h s = Some ?u"
    using t susp run unfolding vTaskDelete_def ht
    by (simp add: listREMOVE_ITEM_eq remove_event_eq ktasks_def configASSERT_def insert_end_def Let_def)
  then show ?thesis by (rule that [OF _ inv' kt tm]) (simp_all add: portYIELD_def)
qed

text \<open>The clean-up of the idle task frees every terminated task and ends.\<close>

lemma clean_up_one_ok:
  assumes inv: "tinv S E s" and cur: "pxCurrentTCB s \<notin> terminated s" and susp: "uxSchedulerSuspended s + 1 \<noteq> 0"
    and ne: "terminated s \<noteq> {}" and heap: "heap_ok (kheap s) S ts" "owned_by S ts s"
  obtains t u ts' where "clean_up_one s = Some u" and "t \<in> terminated s" and "tinv S E u"
    and "ktasks u = ktasks s - {t}" and "terminated u = terminated s - {t}" and "tcb u = tcb s"
    and "pxCurrentTCB u = pxCurrentTCB s" and "uxSchedulerSuspended u = uxSchedulerSuspended s"
    and "heap_ok (kheap u) S ts'" and "owned_by S ts' u" and "live_regions S ts' = freed S ts s {t}"
proof -
  have wf: "awf UNIV (lists s)" using inv by (simp add: tinv_def kinv_def kinv0_def)
  obtain x where "acont (lists s) (StateItem x) = Some TasksWaitingTermination"
    using ne by (auto simp: terminated_def)
  then have "alist (lists s) TasksWaitingTermination \<noteq> []" using alist_empty [OF wf] by blast
  then obtain i "is" where hd: "alist (lists s) TasksWaitingTermination = i # is"
    by (cases "alist (lists s) TasksWaitingTermination") auto
  then have i: "acont (lists s) i = Some TasksWaitingTermination"
    using set_alist [OF wf, of i TasksWaitingTermination] by simp
  obtain t where t: "i = StateItem t"
  proof (cases i)
    case (EventItem t)
    then show ?thesis using i kinv_event [OF tinv_kinv [OF inv], of t TasksWaitingTermination] by simp
  qed
  have tt: "t \<in> terminated s" "t \<in> ktasks s" using i t by (auto simp: terminated_def ktasks_def)
  have other: "t \<noteq> pxCurrentTCB s" and idle: "t \<noteq> xIdleTaskHandle s"
    using tt cur inv by (auto simp: tinv_def is_ready_def terminated_def)
  have ev: "acont (lists s) (EventItem t) = None"
  proof (rule ccontr)
    assume "acont (lists s) (EventItem t) \<noteq> None"
    then obtain l where "acont (lists s) (EventItem t) = Some l" by auto
    from kinv_event [OF tinv_kinv [OF inv] this] i t show False by auto
  qed
  let ?s' = "s\<lparr>lists := a_remove (StateItem t) (lists s),
    uxCurrentNumberOfTasks := uxCurrentNumberOfTasks s - 1,
    uxDeletedTasksWaitingCleanUp := uxDeletedTasksWaitingCleanUp s - 1\<rparr>"
  have "kinv (s\<lparr>lists := a_remove (StateItem t) (lists s)\<rparr>)"
    using remove_kinv [OF tinv_kinv [OF inv] other] ev by (simp add: a_remove_None)
  then have "kinv ?s'"
    by (rule kinv_congI) (use kinv_current [OF tinv_kinv [OF inv]] other in \<open>auto simp: ktasks_def\<close>)
  note rt = removed_task_tinv [OF inv tt(2) other idle this]
  have s': "tinv S E ?s'" "ktasks ?s' = ktasks s - {t}" by (rule rt; use tt ev in \<open>auto simp: fun_eq_iff\<close>)+
  have sp: "uxSchedulerSuspended ?s' + 1 \<noteq> 0" using susp by simp
  have fr: "tcb ?s' = tcb s" "kheap ?s' = kheap s" by simp_all
  obtain u ts' where u: "prvDeleteTCB t ?s' = Some u" "tinv S E u" "ktasks u = ktasks s - {t}"
    "tcb u = tcb s" "uxSchedulerSuspended u = uxSchedulerSuspended ?s'"
    "pxCurrentTCB u = pxCurrentTCB ?s'" "xSchedulerRunning u = xSchedulerRunning ?s'"
    "xIdleTaskHandle u = xIdleTaskHandle ?s'"
    "uxDeletedTasksWaitingCleanUp u = uxDeletedTasksWaitingCleanUp ?s'" "terminated u = terminated ?s'"
    "heap_ok (kheap u) S ts'" "owned_by S ts' u"
    "live_regions S ts' = {(p, n) \<in> live_regions S ts. p \<noteq> t \<and> p \<noteq> pxStack (tcb s t)}"
    by (rule delete_removed [OF inv sp tt(2) heap s' fr])
  have tm': "terminated u = terminated s - {t}" unfolding u(10) by (auto simp: terminated_def)
  have "clean_up_one s = Some u"
    using hd t i u(1) by (simp add: clean_up_one_def listGET_OWNER_OF_HEAD_ENTRY_def items_def listREMOVE_ITEM_eq Let_def)
  then show ?thesis using that tt u tm' by (simp add: freed_def)
qed


lemma deleted_count:
  assumes "tinv S E s"
  shows "uxDeletedTasksWaitingCleanUp s > 0 \<longleftrightarrow> terminated s \<noteq> {}" and "finite (terminated s)"
proof -
  have f: "finite (ktasks s)" "terminated s \<subseteq> ktasks s"
    using assms by (auto simp: tinv_def counted_def terminated_def ktasks_def)
  then show fin: "finite (terminated s)" by (rule finite_subset [rotated])
  have "card (terminated s) < 2 ^ 32"
    using card_mono [OF f] finite_tasks_card(1) [OF assms] by linarith
  then show "uxDeletedTasksWaitingCleanUp s > 0 \<longleftrightarrow> terminated s \<noteq> {}"
    using assms fin of_nat_u32_eq_0 [of "card (terminated s)"]
    by (simp add: tinv_def counted_def word_gt_0)
qed

lemma prvCheckTasksWaitingTermination_ok:
  assumes "tinv S E s" and "pxCurrentTCB s \<notin> terminated s" and "uxSchedulerSuspended s + 1 \<noteq> 0"
    and "heap_ok (kheap s) S ts" and "owned_by S ts s"
  shows "\<exists>u ts'. prvCheckTasksWaitingTermination s = Some u \<and> tinv S E u \<and> terminated u = {} \<and>
    ktasks u = ktasks s - terminated s \<and> heap_ok (kheap u) S ts' \<and>
    live_regions S ts' = freed S ts s (terminated s) \<and> uxSchedulerSuspended u = uxSchedulerSuspended s"
  using assms
proof (induction "card (terminated s)" arbitrary: s ts)
  case 0
  then have "terminated s = {}" using deleted_count [OF 0(2)] by simp
  moreover from this have "prvCheckTasksWaitingTermination s = Some s"
    using deleted_count(1) [OF 0(2)] by (subst prvCheckTasksWaitingTermination.simps) simp
  ultimately show ?case using 0 by (auto simp: freed_def)
next
  case (Suc n)
  then have ne: "terminated s \<noteq> {}" by auto
  obtain t u ts1 where u: "clean_up_one s = Some u" "t \<in> terminated s" "tinv S E u"
    "ktasks u = ktasks s - {t}" "terminated u = terminated s - {t}" "tcb u = tcb s"
    "pxCurrentTCB u = pxCurrentTCB s" "uxSchedulerSuspended u = uxSchedulerSuspended s"
    "heap_ok (kheap u) S ts1" "owned_by S ts1 u" "live_regions S ts1 = freed S ts s {t}"
    using clean_up_one_ok [OF Suc.prems(1-3) ne Suc.prems(4,5)] .
  have "n = card (terminated u)" using Suc.hyps(2) u(2,5) deleted_count(2) [OF Suc.prems(1)] by simp
  moreover have "pxCurrentTCB u \<notin> terminated u" "uxSchedulerSuspended u + 1 \<noteq> 0"
    using u Suc.prems by simp_all
  ultimately obtain w ts' where
    w: "prvCheckTasksWaitingTermination u = Some w" "tinv S E w" "terminated w = {}"
      "ktasks w = ktasks u - terminated u" "heap_ok (kheap w) S ts'"
      "live_regions S ts' = freed S ts1 u (terminated u)" "uxSchedulerSuspended w = uxSchedulerSuspended u"
    using Suc.hyps(1) [OF _ u(3) _ _ u(9,10)] by blast
  have "prvCheckTasksWaitingTermination s = Some w"
    using deleted_count(1) [OF Suc.prems(1)] ne u(1) w(1)
    by (subst prvCheckTasksWaitingTermination.simps) simp
  moreover have "freed S ts1 u (terminated u) = freed S ts s (terminated s)"
    using u(2,5,6,11) by (auto simp: freed_def)
  moreover have "ktasks w = ktasks s - terminated s" using w(4) u(2,4,5) by auto
  ultimately show ?case using w u(8) by auto
qed


section \<open>The transition system\<close>

text \<open>
  The calls of the running task (\<open>NotifyTake\<close> and \<open>NotifyWait\<close> in the two parts between which
  the task may be switched out, \<open>WaitOn\<close> and \<open>Signal\<close> as the blocking objects use the event
  lists) and the interrupts: the tick, the context switch and the calls from handlers.
\<close>

datatype kop =
    Tick | Switch
  | Create u32 "char list" nat u32 nat | Delete nat | CleanUp
  | Delay u32 | DelayUntil u32 u32
  | PrioritySet nat nat | Suspend nat | Resume nat | ResumeFromISR nat
  | NotifyTake u32 | NotifyTakeEnd bool | NotifyWait u32 u32 | NotifyWaitEnd u32
  | Notify nat u32 eNotifyAction | NotifyFromISR nat u32 eNotifyAction | GiveFromISR nat
  | StateClear nat | ValueClear nat u32
  | SuspendAll | ResumeAll | WaitOn klist u32 | Signal klist

fun kexec :: "port_cfg \<Rightarrow> kop \<Rightarrow> 'a kernel_scheme \<Rightarrow> 'a kernel_scheme option" where
  "kexec cfg Tick s = SysTick_Handler s"
| "kexec cfg Switch s = PendSV_Handler s"
| "kexec cfg (Create code name depth par prio) s = map_option fst (xTaskCreate cfg code name depth par prio s)"
| "kexec cfg (Delete h) s = vTaskDelete h s"
| "kexec cfg CleanUp s = prvCheckTasksWaitingTermination s"
| "kexec cfg (Delay n) s = vTaskDelay n s"
| "kexec cfg (DelayUntil p n) s = map_option fst (xTaskDelayUntil p n s)"
| "kexec cfg (PrioritySet h p) s = vTaskPrioritySet h p s"
| "kexec cfg (Suspend h) s = vTaskSuspend h s"
| "kexec cfg (Resume t) s = vTaskResume t s"
| "kexec cfg (ResumeFromISR t) s = map_option fst (xTaskResumeFromISR t s)"
| "kexec cfg (NotifyTake n) s = ulTaskGenericNotifyTake_wait 0 n s"
| "kexec cfg (NotifyTakeEnd c) s = Some (fst (ulTaskGenericNotifyTake_end 0 c s))"
| "kexec cfg (NotifyWait b n) s = xTaskGenericNotifyWait_wait 0 b n s"
| "kexec cfg (NotifyWaitEnd b) s = Some (fst (xTaskGenericNotifyWait_end 0 b s))"
| "kexec cfg (Notify t v a) s = map_option fst (xTaskGenericNotify t 0 v a s)"
| "kexec cfg (NotifyFromISR t v a) s = map_option fst (xTaskGenericNotifyFromISR t 0 v a s)"
| "kexec cfg (GiveFromISR t) s = map_option fst (vTaskGenericNotifyGiveFromISR t 0 s)"
| "kexec cfg (StateClear h) s = map_option fst (xTaskGenericNotifyStateClear h 0 s)"
| "kexec cfg (ValueClear h b) s = Some (fst (ulTaskGenericNotifyValueClear h 0 b s))"
| "kexec cfg SuspendAll s = Some (vTaskSuspendAll s)"
| "kexec cfg ResumeAll s = map_option fst (xTaskResumeAll s)"
| "kexec cfg (WaitOn l n) s = vTaskPlaceOnEventList l n s"
| "kexec cfg (Signal l) s = map_option fst (xTaskRemoveFromEventList l s)"

text \<open>
  What the interface documents of its callers.  A blocking call is made by a task other than
  the idle task, with the scheduler not suspended; handles are of tasks that have not been
  deleted; the idle task is neither suspended nor deleted and alone runs \<open>CleanUp\<close>; the stack of
  a new task has room for its first frame, and its size in bytes is a \<open>size_t\<close>.  Each call is one
  step here, although the code runs the parts between two critical sections with interrupts enabled.
\<close>

definition may_block :: "'a kernel_scheme \<Rightarrow> bool" where
  "may_block s \<longleftrightarrow> running s \<and> uxSchedulerSuspended s = 0 \<and> pxCurrentTCB s \<noteq> xIdleTaskHandle s"

fun permitted :: "kop \<Rightarrow> 'a kernel_scheme \<Rightarrow> bool" where
  "permitted Tick s = True"
| "permitted Switch s = True"
| "permitted (Create code name depth par prio) s =
     (prio < configMAX_PRIORITIES \<and> initial_frame \<le> depth \<and> depth * 4 < w32 \<and> uxSchedulerSuspended s + 1 \<noteq> 0)"
| "permitted (Delete h) s =
     (let t = prvGetTCBFromHandle h s
      in valid_task s t \<and> t \<noteq> xIdleTaskHandle s \<and> xSchedulerRunning s \<and>
         (if t = pxCurrentTCB s then uxSchedulerSuspended s = 0 else uxSchedulerSuspended s + 1 \<noteq> 0))"
| "permitted CleanUp s =
     (running s \<and> pxCurrentTCB s = xIdleTaskHandle s \<and> uxSchedulerSuspended s = 0)"
| "permitted (Delay n) s = may_block s"
| "permitted (DelayUntil p n) s = (may_block s \<and> n > 0)"
| "permitted (PrioritySet h p) s =
     (valid_task s (prvGetTCBFromHandle h s) \<and> p < configMAX_PRIORITIES)"
| "permitted (Suspend h) s =
     (let t = prvGetTCBFromHandle h s
      in valid_task s t \<and> t \<noteq> xIdleTaskHandle s \<and> xSchedulerRunning s \<and>
         (t = pxCurrentTCB s \<longrightarrow> uxSchedulerSuspended s = 0))"
| "permitted (Resume t) s = valid_task s t"
| "permitted (ResumeFromISR t) s =
     (valid_task s t \<and> (uxSchedulerSuspended s = 0 \<or> not_waiting s t))"
| "permitted (NotifyTake n) s = may_block s"
| "permitted (NotifyTakeEnd c) s = True"
| "permitted (NotifyWait b n) s = may_block s"
| "permitted (NotifyWaitEnd b) s = True"
| "permitted (Notify t v a) s = valid_task s t"
| "permitted (NotifyFromISR t v a) s = valid_task s t"
| "permitted (GiveFromISR t) s = valid_task s t"
| "permitted (StateClear h) s = True"
| "permitted (ValueClear h b) s = True"
| "permitted SuspendAll s = (uxSchedulerSuspended s + 1 \<noteq> 0)"
| "permitted ResumeAll s = (uxSchedulerSuspended s \<noteq> 0)"
| "permitted (WaitOn l n) s =
     (running s \<and> pxCurrentTCB s \<noteq> xIdleTaskHandle s \<and> event_list l \<and> n > 0 \<and>
      listLIST_ITEM_CONTAINER (EventItem (pxCurrentTCB s)) s = None \<and> not_waiting s (pxCurrentTCB s))"
| "permitted (Signal l) s = (event_list l \<and> items s l \<noteq> [])"

inductive ksteps :: "port_cfg \<Rightarrow> 'a kernel_scheme \<Rightarrow> 'a kernel_scheme \<Rightarrow> bool" for cfg where
  none: "ksteps cfg s s"
| more: "ksteps cfg s s' \<Longrightarrow> permitted op s' \<Longrightarrow> kexec cfg op s' = Some s'' \<Longrightarrow> ksteps cfg s s''"

lemma Delete_ok:
  assumes inv: "tinv S E s" and p: "permitted (Delete h) s"
  shows "\<exists>s'. vTaskDelete h s = Some s' \<and> tinv S E s'"
proof -
  let ?t = "prvGetTCBFromHandle h s"
  have d: "denotes s h ?t" "?t \<noteq> xIdleTaskHandle s" "xSchedulerRunning s"
    using p by (simp_all add: denotes_def Let_def)
  obtain ts where ts: "heap_ok (kheap s) S ts" "owned_by S ts s" using inv by (auto simp: tinv_def owned_def)
  show ?thesis
  proof (cases "?t = pxCurrentTCB s")
    case True
    then have "uxSchedulerSuspended s = 0" using p by (simp add: Let_def)
    with vTaskDelete_self [OF inv _ _ _ d(3), of h] d True show ?thesis by metis
  next
    case False
    then have "uxSchedulerSuspended s + 1 \<noteq> 0" using p by (simp add: Let_def)
    with vTaskDelete_other [OF inv d(1,2) False _ ts] show ?thesis by metis
  qed
qed

lemma CleanUp_ok:
  assumes inv: "tinv S E s" and p: "permitted CleanUp s"
  shows "\<exists>s'. prvCheckTasksWaitingTermination s = Some s' \<and> tinv S E s'"
proof -
  obtain ts where ts: "heap_ok (kheap s) S ts" "owned_by S ts s" using inv by (auto simp: tinv_def owned_def)
  have "pxCurrentTCB s \<notin> terminated s" "uxSchedulerSuspended s + 1 \<noteq> 0"
    using p current_not_terminated [of s] by auto
  from prvCheckTasksWaitingTermination_ok [OF inv this ts] show ?thesis by auto
qed

lemma kexec_ok:
  assumes inv: "tinv S E s" and p: "permitted op s"
  shows "\<exists>s'. kexec cfg op s = Some s' \<and> tinv S E s'"
proof (cases op)
  case Tick then show ?thesis using tick_tinv [OF inv] by simp
next
  case Switch then show ?thesis using switch_tinv [OF inv] by auto
next
  case (Create code name depth par prio)
  then have c: "uxSchedulerSuspended s + 1 \<noteq> 0" "prio < configMAX_PRIORITIES" "initial_frame \<le> depth" "depth * 4 < w32"
    using p by simp_all
  obtain ts where ts: "heap_ok (kheap s) S ts" "owned_by S ts s" using inv by (auto simp: tinv_def owned_def)
  obtain s' t where "xTaskCreate cfg code name depth par prio s = Some (s', t)" "tinv S E s'"
    by (rule xTaskCreate_ok [OF inv c ts, of cfg code name par])
  then show ?thesis using Create by simp
next
  case (Delete h) then show ?thesis using Delete_ok [OF inv, of h] p by simp
next
  case CleanUp then show ?thesis using CleanUp_ok [OF inv] p by simp
next
  case (Delay n) then show ?thesis using vTaskDelay_ok [OF inv] p by (simp add: may_block_def)
next
  case (DelayUntil q n) then show ?thesis using xTaskDelayUntil_ok [OF inv, of n q] p by (auto simp: may_block_def)
next
  case (PrioritySet h q)
  then show ?thesis using vTaskPrioritySet_ok [OF inv _, of h _ q] p by (auto simp: denotes_def)
next
  case (Suspend h)
  then show ?thesis using vTaskSuspend_ok [OF inv, of h "prvGetTCBFromHandle h s"] p by (auto simp: denotes_def Let_def)
next
  case (Resume t) then show ?thesis using vTaskResume_ok [OF inv] p by simp
next
  case (ResumeFromISR t) then show ?thesis using xTaskResumeFromISR_ok [OF inv] p by (force simp: not_waiting_def)
next
  case (NotifyTake n) then show ?thesis using ulTaskGenericNotifyTake_wait_ok [OF inv] p by (simp add: may_block_def)
next
  case (NotifyTakeEnd c) then show ?thesis using ulTaskGenericNotifyTake_end_tinv [OF inv] by simp
next
  case (NotifyWait b n) then show ?thesis using xTaskGenericNotifyWait_wait_ok [OF inv] p by (simp add: may_block_def)
next
  case (NotifyWaitEnd b) then show ?thesis using xTaskGenericNotifyWait_end_tinv [OF inv] by simp
next
  case (Notify t v a) then show ?thesis using xTaskGenericNotify_ok [OF inv, of t v a] p by force
next
  case (NotifyFromISR t v a) then show ?thesis using xTaskGenericNotifyFromISR_ok [OF inv, of t v a] p by force
next
  case (GiveFromISR t) then show ?thesis using vTaskGenericNotifyGiveFromISR_ok [OF inv, of t] p by force
next
  case (StateClear h) then show ?thesis using xTaskGenericNotifyStateClear_ok [OF inv, of h] by force
next
  case (ValueClear h b) then show ?thesis using ulTaskGenericNotifyValueClear_tinv [OF inv] by simp
next
  case SuspendAll then show ?thesis using suspend_all_tinv [OF inv] p by simp
next
  case ResumeAll
  then have c: "uxSchedulerSuspended s \<noteq> 0" using p by simp
  obtain s' b where "xTaskResumeAll s = Some (s', b)" "tinv S E s'" by (rule resume_tinv [OF inv c])
  then show ?thesis using ResumeAll by simp
next
  case (WaitOn l n)
  then have c: "running s" "pxCurrentTCB s \<noteq> xIdleTaskHandle s" "event_list l" "n > 0"
    "acont (lists s) (EventItem (pxCurrentTCB s)) = None" "not_waiting s (pxCurrentTCB s)"
    using p by (simp_all add: listLIST_ITEM_CONTAINER_def)
  obtain s' where "vTaskPlaceOnEventList l n s = Some s'" "tinv S E s'" by (rule vTaskPlaceOnEventList_ok [OF inv c])
  then show ?thesis using WaitOn by simp
next
  case (Signal l) then show ?thesis using xTaskRemoveFromEventList_ok [OF inv, of l] p by force
qed

lemma ksteps_tinv: "ksteps cfg s s' \<Longrightarrow> tinv S E s \<Longrightarrow> tinv S E s'"
  by (induction rule: ksteps.induct) (metis kexec_ok option.inject)+


section \<open>Periodic delays\<close>

lemma resumed_calm:
  assumes inv: "kinv s" and pend: "\<And>i. acont (lists s) i \<noteq> Some PendingReadyList" and none: "xPendedTicks s = 0"
  shows "lists (resumed s) = lists s" and "xTickCount (resumed s) = xTickCount s"
    and "uxSchedulerSuspended (resumed s) = 0"
proof -
  let ?q = "s\<lparr>uxSchedulerSuspended := 0\<rparr>"
  have "pending ?q = []"
    using pend alist_empty [of "lists s" PendingReadyList] inv by (simp add: pending_def kinv_def kinv0_def)
  then have "pending_readied ?q = ?q" by (simp add: pending_readied_def set_yield_id)
  then show "lists (resumed s) = lists s" and "xTickCount (resumed s) = xTickCount s"
    and "uxSchedulerSuspended (resumed s) = 0"
    using none by (simp_all add: resumed_def Let_def)
qed

lemma should_delay_iff: "should_delay p (p + i) t \<longleftrightarrow> t - p < i" for p i t :: u32
proof -
  have b: "unat p < 2 ^ 32" "unat i < 2 ^ 32" "unat t < 2 ^ 32" by (rule unat_u32)+
  show ?thesis
    using b unfolding should_delay_def word_less_nat_alt unat_plus_if' unat_sub_if'
    by (auto simp: not_less not_le)
qed

text \<open>The running task put on a delayed list while the scheduler is suspended, and the scheduler resumed.\<close>

lemma block_and_resume:
  assumes inv: "tinv S E s" and block: "may_block s" and n: "n > 0" and none: "xPendedTicks s = 0"
  obtains s1 r y where "prvAddCurrentTaskToDelayedList n False (vTaskSuspendAll s) = Some s1"
    and "xTaskResumeAll s1 = Some (r, y)" and "xTickCount r = xTickCount s" and "uxSchedulerSuspended r = 0"
    and "aval (lists r) (StateItem (pxCurrentTCB s)) = xTickCount s + n"
    and "acont (lists r) (StateItem (pxCurrentTCB s)) = Some DelayedTaskList1 \<or>
      acont (lists r) (StateItem (pxCurrentTCB s)) = Some DelayedTaskList2"
proof -
  let ?q = "vTaskSuspendAll s" and ?c = "pxCurrentTCB s"
  have run: "running s" and susp: "uxSchedulerSuspended s = 0" and cur: "?c \<noteq> xIdleTaskHandle s"
    using block by (simp_all add: may_block_def)
  have q: "tinv S E ?q" by (rule suspend_all_tinv [OF inv]) (simp add: susp)
  note free = current_free [OF inv run susp] and nt = current_not_terminated [OF run]
  obtain s1 where s1: "prvAddCurrentTaskToDelayedList n False ?q = Some s1"
    "tinv S E s1" "uxSchedulerSuspended s1 = uxSchedulerSuspended ?q" and b: "blocked n False None ?q s1"
    by (rule block_self_tinv [OF q n]) (use cur free nt in auto)
  have k: "kinv s1" using s1(2) by (rule tinv_kinv)
  have np: "acont (lists s1) i \<noteq> Some PendingReadyList" for i
    using b inv susp delays_lists [of 0 s]
    by (auto simp: blocked_def tinv_def kinv_def kinv0_def none_pending_def blocks_in_def delays_def vTaskSuspendAll_def
        split: if_splits)
  have one: "uxSchedulerSuspended s1 = 1" and p0: "xPendedTicks s1 = 0" and t1: "xTickCount s1 = xTickCount s"
    using s1(3) b susp none by (auto simp: blocked_def vTaskSuspendAll_def)
  note r = xTaskResumeAll_result [OF k one finite_tasks_card(3) [OF s1(2)]] and rc = resumed_calm [OF k np p0]
  have bl: "blocks_in n False ?q = DelayedTaskList1 \<or> blocks_in n False ?q = DelayedTaskList2"
    using inv by (auto simp: blocks_in_def tinv_def kinv_def kinv0_def delays_def vTaskSuspendAll_def)
  show ?thesis
    by (rule that [OF s1(1) r(1)]) (use b rc t1 bl in \<open>auto simp: blocked_def\<close>)
qed

lemma xTaskDelayUntil_blocks:
  assumes inv: "tinv S E s" and block: "may_block s" and inc: "inc > 0" and none: "xPendedTicks s = 0"
    and d: "should_delay p (p + inc) (xTickCount s)"
  shows "\<exists>s'. xTaskDelayUntil p inc s = Some (s', p + inc, True) \<and> tinv S E s' \<and>
    uxSchedulerSuspended s' = 0 \<and> xTickCount s' = xTickCount s \<and>
    aval (lists s') (StateItem (pxCurrentTCB s)) = p + inc \<and>
    (acont (lists s') (StateItem (pxCurrentTCB s)) = Some DelayedTaskList1 \<or>
     acont (lists s') (StateItem (pxCurrentTCB s)) = Some DelayedTaskList2)"
proof -
  have c: "running s" "uxSchedulerSuspended s = 0" "pxCurrentTCB s \<noteq> xIdleTaskHandle s"
    using block by (simp_all add: may_block_def)
  obtain s1 r y where b: "prvAddCurrentTaskToDelayedList (p + inc - xTickCount s) False (vTaskSuspendAll s) = Some s1"
      "xTaskResumeAll s1 = Some (r, y)" "xTickCount r = xTickCount s" "uxSchedulerSuspended r = 0"
      "aval (lists r) (StateItem (pxCurrentTCB s)) = xTickCount s + (p + inc - xTickCount s)"
      "acont (lists r) (StateItem (pxCurrentTCB s)) = Some DelayedTaskList1 \<or>
       acont (lists r) (StateItem (pxCurrentTCB s)) = Some DelayedTaskList2"
    by (rule block_and_resume [OF inv block should_delay_neq [OF d] none])
  let ?s' = "if \<not> y then portYIELD r else r"
  have res: "xTaskDelayUntil p inc s = Some (?s', p + inc, True)"
    using inc c(2) d b(1,2) by (simp add: xTaskDelayUntil_def configASSERT_def Let_def)
  then have "tinv S E ?s'" using xTaskDelayUntil_ok [OF inv c inc, of p] d by simp
  then show ?thesis using res b(3-6) by simp
qed


section \<open>Notification values\<close>

text \<open>The value after a notification, as \<open>task.h\<close> documents the five actions.\<close>

fun notified :: "eNotifyAction \<Rightarrow> bool \<Rightarrow> u32 \<Rightarrow> u32 \<Rightarrow> u32" where
  "notified eNoAction again new old = old"
| "notified eSetBits again new old = old OR new"
| "notified eIncrement again new old = old + 1"
| "notified eSetValueWithOverwrite again new old = new"
| "notified eSetValueWithoutOverwrite again new old = (if again then old else new)"

lemma notify_action_notified:
  assumes "notify_action a t 0 v orig (set_notify t 0 n s) = (u, r)"
  shows "ulNotifiedValue (tcb u t) 0 = notified a (orig = taskNOTIFICATION_RECEIVED) v (ulNotifiedValue (tcb s t) 0)"
    and "r \<longleftrightarrow> \<not> (a = eSetValueWithoutOverwrite \<and> orig = taskNOTIFICATION_RECEIVED)"
    and "ucNotifyState (tcb u t) 0 = n" and "\<And>w. w \<noteq> t \<Longrightarrow> tcb u w = tcb s w" and "lists u = lists s"
    and "uxPriority (tcb u t) = uxPriority (tcb s t)"
  using assms by (cases a; auto simp: notify_action_def set_notify_def set_nvalue_def upd_tcb_def Let_def split: if_splits)+

lemma xTaskGenericNotify_effect:
  assumes inv: "tinv S E s" and t: "valid_task s t"
  shows "\<exists>s'. xTaskGenericNotify t 0 v a s = Some (s', ulNotifiedValue (tcb s t) 0,
      \<not> (a = eSetValueWithoutOverwrite \<and> ucNotifyState (tcb s t) 0 = taskNOTIFICATION_RECEIVED)) \<and>
    ucNotifyState (tcb s' t) 0 = taskNOTIFICATION_RECEIVED \<and>
    ulNotifiedValue (tcb s' t) 0 =
      notified a (ucNotifyState (tcb s t) 0 = taskNOTIFICATION_RECEIVED) v (ulNotifiedValue (tcb s t) 0) \<and>
    (\<forall>u. u \<noteq> t \<longrightarrow> tcb s' u = tcb s u) \<and>
    acont (lists s') = (if ucNotifyState (tcb s t) 0 = taskWAITING_NOTIFICATION
      then (acont (lists s))(StateItem t := Some (Ready (uxPriority (tcb s t)))) else acont (lists s))"
proof -
  have nz: "t \<noteq> 0" and st: "acont (lists s) (StateItem t) \<noteq> None"
    using t ktasks_nz [OF tinv_kinv [OF inv]] by (simp_all add: valid_task_def ktasks_def)
  let ?o = "ucNotifyState (tcb s t) 0" and ?q = "set_notify t 0 taskNOTIFICATION_RECEIVED s"
  obtain u r where u: "notify_action a t 0 v ?o ?q = (u, r)" by force
  note f = notify_action_notified [OF u]
  show ?thesis
  proof (cases "?o = taskWAITING_NOTIFICATION")
    case True
    then have free: "acont (lists s) (EventItem t) = None" using inv by (simp add: tinv_def waiting_free_def)
    have rdy: "listREMOVE_ITEM (StateItem t) u = Some (u\<lparr>lists := a_remove (StateItem t) (lists u)\<rparr>)"
      "prvAddTaskToReadyList t (u\<lparr>lists := a_remove (StateItem t) (lists u)\<rparr>) = unblock t u"
      using st free f(5) by (simp_all add: listREMOVE_ITEM_eq prvAddTaskToReadyList_eq unblock_def a_remove_None)
    have "xTaskGenericNotify t 0 v a s = Some
        (if uxPriority (tcb (unblock t u) t) > uxPriority (tcb (unblock t u) (pxCurrentTCB (unblock t u)))
         then portYIELD (unblock t u) else unblock t u, ulNotifiedValue (tcb s t) 0, r)"
      using nz True u rdy
      by (simp add: xTaskGenericNotify_def configASSERT_def configTASK_NOTIFICATION_ARRAY_ENTRIES_def
          listLIST_ITEM_CONTAINER_def unblock_cont Let_def)
    moreover have "acont (lists (unblock t u)) = (acont (lists s))(StateItem t := Some (Ready (uxPriority (tcb s t))))"
      using free f(5,6) by (auto simp: unblock_cont fun_eq_iff)
    ultimately show ?thesis using True f by simp
  next
    case False
    then have "xTaskGenericNotify t 0 v a s = Some (u, ulNotifiedValue (tcb s t) 0, r)"
      using nz u by (simp add: xTaskGenericNotify_def configASSERT_def
          configTASK_NOTIFICATION_ARRAY_ENTRIES_def Let_def)
    then show ?thesis using False f by simp
  qed
qed

section \<open>Properties of the task interface\<close>

text \<open>C13: From a state that satisfies \<open>tinv\<close>, no permitted sequence of calls and interrupts ever
  reaches a failed assertion, a null pointer or a store of the kernel outside the stack of the
  task it creates: the invariant, with a control block and a stack of sufficient size for every
  task, holds in every reachable state, and every operation whose documented preconditions hold
  there returns.  Each call is one step.\<close>

theorem tasks_never_fail:
  assumes "tinv S E s" and "ksteps cfg s s'"
  shows "tinv S E s' \<and> (\<forall>op. permitted op s' \<longrightarrow> (\<exists>s''. kexec cfg op s' = Some s''))"
  using kexec_ok [OF ksteps_tinv [OF assms(2,1)]] ksteps_tinv [OF assms(2,1)] by blast

text \<open>C14: \<open>xTaskCreate\<close> succeeds exactly when a stack of \<open>depth\<close> words and then a control block
  fit into the heap.  It then returns a fresh handle of a ready task of the requested priority;
  the heap regions held are those held before and two more, the control block and a stack of at
  least \<open>depth\<close> words, and only the words of that stack are written.  Otherwise it returns null,
  no task is added, and every byte taken is given back.  No other control block changes.\<close>

theorem xTaskCreate_correct:
  assumes "tinv S E s" and "uxSchedulerSuspended s + 1 \<noteq> 0" and "prio < configMAX_PRIORITIES"
    and "initial_frame \<le> depth" and "depth * 4 < w32" and "heap_ok (kheap s) S ts" and "owned_by S ts s"
  shows "\<exists>s' t ts'. xTaskCreate cfg code name depth par prio s = Some (s', t) \<and> tinv S E s' \<and>
    heap_ok (kheap s') S ts' \<and> (t \<noteq> 0 \<longleftrightarrow> room_for depth ts) \<and>
    (if t = 0
     then ktasks s' = ktasks s \<and> live_regions S ts' = live_regions S ts \<and> stack_mem s' = stack_mem s
     else t \<notin> ktasks s \<and> ktasks s' = insert t (ktasks s) \<and> is_ready s' t \<and> uxPriority (tcb s' t) = prio \<and>
       (\<exists>m n. depth * 4 \<le> m \<and> sizeof_TCB \<le> n \<and> t \<noteq> pxStack (tcb s' t) \<and>
          (t, n) \<notin> live_regions S ts \<and> (pxStack (tcb s' t), m) \<notin> live_regions S ts \<and>
          live_regions S ts' = insert (t, n) (insert (pxStack (tcb s' t), m) (live_regions S ts))) \<and>
       (\<forall>a. a < pxStack (tcb s' t) \<or> pxStack (tcb s' t) + depth * 4 \<le> a \<longrightarrow> stack_mem s' a = stack_mem s a)) \<and>
    (\<forall>u \<in> ktasks s. tcb s' u = tcb s u)"
proof -
  obtain s' t ts' where r: "xTaskCreate cfg code name depth par prio s = Some (s', t)" "tinv S E s'" "heap_ok (kheap s') S ts'"
      "t \<noteq> 0 \<longleftrightarrow> room_for depth ts" "\<forall>u \<in> ktasks s. tcb s' u = tcb s u"
    and c: "t = 0 \<Longrightarrow> live_regions S ts' = live_regions S ts \<and> sframe (s\<lparr>kheap := kheap s'\<rparr>) s'"
      "t \<noteq> 0 \<Longrightarrow> created S depth prio ts s ts' s' t"
    by (rule xTaskCreate_ok [OF assms, of cfg code name par]) (rule that, assumption+)
  have "ktasks s' = ktasks s \<and> stack_mem s' = stack_mem s" if "t = 0"
    using c(1) [OF that] sframe_ktasks [of "s\<lparr>kheap := kheap s'\<rparr>" s'] by (simp add: sframe_def)
  then show ?thesis
    using r c by (intro exI [of _ s'] exI [of _ t] exI [of _ ts']) (auto simp: created_def)
qed

text \<open>The clean-up loop of the idle task ends for every number of deleted tasks, leaves none
  of them, and returns to the heap exactly their control blocks and stacks.\<close>

theorem cleanup_frees_deleted:
  assumes "tinv S E s" and "running s" and "uxSchedulerSuspended s = 0"
    and "heap_ok (kheap s) S ts" and "owned_by S ts s"
  shows "\<exists>u ts'. prvCheckTasksWaitingTermination s = Some u \<and> terminated u = {} \<and>
    ktasks u = ktasks s - terminated s \<and> heap_ok (kheap u) S ts' \<and>
    live_regions S ts' =
      {(p, n) \<in> live_regions S ts. \<forall>t \<in> terminated s. p \<noteq> t \<and> p \<noteq> pxStack (tcb s t)}"
proof -
  have "pxCurrentTCB s \<notin> terminated s" by (rule current_not_terminated [OF assms(2)])
  moreover have "uxSchedulerSuspended s + 1 \<noteq> 0" using assms(3) by simp
  ultimately show ?thesis
    using prvCheckTasksWaitingTermination_ok [OF assms(1) _ _ assms(4,5)] unfolding freed_def by blast
qed

text \<open>C15: \<open>xTaskDelayUntil\<close> keeps the period exactly: the task sleeps exactly when less than the
  increment has passed since the previous wake time, counted modulo \<open>2 ^ 32\<close>, and is then ready
  again at the tick \<open>previous + increment\<close> and not before; otherwise it stays ready.  In both
  cases the returned wake time is the next one.\<close>

theorem xTaskDelayUntil_periodic:
  assumes inv: "tinv S E s" and block: "may_block s" and inc: "inc > 0" and none: "xPendedTicks s = 0"
  shows "\<exists>s'. xTaskDelayUntil previous inc s = Some (s', previous + inc, xTickCount s - previous < inc) \<and>
    tinv S E s' \<and>
    (xTickCount s - previous < inc \<longrightarrow>
      (\<forall>k. \<exists>s2 sw. run_ticks k s' = Some (s2, sw) \<and>
        (is_ready s2 (pxCurrentTCB s) \<longleftrightarrow> unat (previous + inc - xTickCount s) \<le> k)))"
proof (cases "should_delay previous (previous + inc) (xTickCount s)")
  case True
  obtain s' where s': "xTaskDelayUntil previous inc s = Some (s', previous + inc, True)" "tinv S E s'"
    "uxSchedulerSuspended s' = 0" "xTickCount s' = xTickCount s"
    "aval (lists s') (StateItem (pxCurrentTCB s)) = previous + inc"
    "acont (lists s') (StateItem (pxCurrentTCB s)) = Some DelayedTaskList1 \<or>
     acont (lists s') (StateItem (pxCurrentTCB s)) = Some DelayedTaskList2"
    using xTaskDelayUntil_blocks [OF inv block inc none True] by blast
  have "\<exists>s2 sw. run_ticks k s' = Some (s2, sw) \<and>
      (is_ready s2 (pxCurrentTCB s) \<longleftrightarrow> unat (previous + inc - xTickCount s) \<le> k)" for k
    using run_ticks_state [OF tinv_kinv [OF s'(2)] s'(3), of k] ticks_wake [OF tinv_kinv [OF s'(2)] s'(6), of k] s'(4,5)
    by auto
  then show ?thesis using s'(1,2) True by (simp add: should_delay_iff)
next
  case False
  then show ?thesis
    using xTaskDelayUntil_ok [OF inv _ _ _ inc, of previous] block by (simp add: may_block_def should_delay_iff)
qed

text \<open>C16: A notification returns the previous value, stores the new one as the action says, fails
  exactly for a set without overwrite over a pending notification, and makes the receiver
  ready exactly when it was waiting; no other task is affected.\<close>

theorem xTaskGenericNotify_correct:
  assumes "tinv S E s" and "valid_task s t"
  shows "\<exists>s'. xTaskGenericNotify t 0 v a s = Some (s', ulNotifiedValue (tcb s t) 0,
      \<not> (a = eSetValueWithoutOverwrite \<and> ucNotifyState (tcb s t) 0 = taskNOTIFICATION_RECEIVED)) \<and>
    ucNotifyState (tcb s' t) 0 = taskNOTIFICATION_RECEIVED \<and>
    ulNotifiedValue (tcb s' t) 0 =
      notified a (ucNotifyState (tcb s t) 0 = taskNOTIFICATION_RECEIVED) v (ulNotifiedValue (tcb s t) 0) \<and>
    (\<forall>u. u \<noteq> t \<longrightarrow> tcb s' u = tcb s u) \<and>
    acont (lists s') = (if ucNotifyState (tcb s t) 0 = taskWAITING_NOTIFICATION
      then (acont (lists s))(StateItem t := Some (Ready (uxPriority (tcb s t)))) else acont (lists s))"
  by (rule xTaskGenericNotify_effect [OF assms])

text \<open>\<open>vTaskResume\<close> does not tell a suspended task from one that waits indefinitely for a
  notification: such a task, never suspended, becomes ready although its notification state
  still is waiting.\<close>

theorem vTaskResume_wakes_notify_waiter:
  assumes inv: "tinv S E s" and "t \<noteq> pxCurrentTCB s"
    and "acont (lists s) (StateItem t) = Some SuspendedTaskList"
    and w: "ucNotifyState (tcb s t) 0 = taskWAITING_NOTIFICATION"
  shows "\<exists>s'. vTaskResume t s = Some s' \<and> is_ready s' t \<and>
    ucNotifyState (tcb s' t) 0 = taskWAITING_NOTIFICATION"
proof -
  have free: "acont (lists s) (EventItem t) = None" using inv w by (simp add: tinv_def waiting_free_def)
  have v: "valid_task s t" using assms(3) by (simp add: valid_task_def ktasks_def terminated_def)
  have nz: "t \<noteq> 0" using v ktasks_nz [OF tinv_kinv [OF inv]] by (simp add: valid_task_def)
  have "vTaskResume t s = Some (if uxPriority (tcb (unblock t s) t) \<ge> uxPriority (tcb (unblock t s) (pxCurrentTCB (unblock t s)))
      then portYIELD (unblock t s) else unblock t s)"
    using assms(2,3) nz free make_ready_tinv(1,2) [OF inv v free]
    by (simp add: vTaskResume_def configASSERT_def prvTaskIsTaskSuspended_def listLIST_ITEM_CONTAINER_def Let_def)
  then show ?thesis using w by (auto simp: is_ready_def unblock_cont)
qed

text \<open>C17: With the scheduler suspended, resuming from an interrupt a task that waits indefinitely
  for a notification leaves a state in which the next notification of it from an interrupt
  fails the assertion on its event item.\<close>

theorem resume_then_notify_fails:
  assumes inv: "tinv S E s" and susp: "uxSchedulerSuspended s \<noteq> 0"
    and "acont (lists s) (StateItem t) = Some SuspendedTaskList"
    and w: "ucNotifyState (tcb s t) 0 = taskWAITING_NOTIFICATION"
  shows "\<exists>s'. xTaskResumeFromISR t s = Some (s', False) \<and> vTaskGenericNotifyGiveFromISR t 0 s' = None"
proof -
  have free: "acont (lists s) (EventItem t) = None" using inv w by (simp add: tinv_def waiting_free_def)
  have nz: "t \<noteq> 0" using assms(3) ktasks_nz [OF tinv_kinv [OF inv], of t] by (simp add: ktasks_def)
  let ?s' = "insert_end PendingReadyList (EventItem t) s"
  have "xTaskResumeFromISR t s = Some (?s', False)"
    using assms(3) nz free susp
    by (simp add: xTaskResumeFromISR_def configASSERT_def prvTaskIsTaskSuspended_def listLIST_ITEM_CONTAINER_def)
  moreover have "vTaskGenericNotifyGiveFromISR t 0 ?s' = None"
    using w nz by (simp add: vTaskGenericNotifyGiveFromISR_def notify_wake_from_isr_def configASSERT_def
        listLIST_ITEM_CONTAINER_def insert_end_def Let_def)
  ultimately show ?thesis by blast
qed


section \<open>A running system\<close>

text \<open>
  The state of the witnesses: the idle task 1136, the running task 1344 of priority 2 and the
  task 1552 of priority 1, which waits indefinitely for a notification, with their stacks at
  1032, 1240 and 1448; \<open>h\<close> is the heap after the six allocations.
\<close>

definition sys_tcb :: "nat \<Rightarrow> nat \<Rightarrow> notify_state \<Rightarrow> tcb_t" where
  "sys_tcb p stk n = zero_tcb\<lparr>uxPriority := p, pxStack := stk, ucNotifyState := (\<lambda>_. n)\<rparr>"

definition demo_system :: "heap \<Rightarrow> kernel" where
  "demo_system h =
     \<lparr>lists = a_insert_end SuspendedTaskList (StateItem 1552)
        (a_insert_end (Ready 2) (StateItem 1344) (a_insert_end (Ready 0) (StateItem 1136) empty_store)),
      tcb = (\<lambda>_. zero_tcb)(1136 := sys_tcb 0 1032 taskNOT_WAITING_NOTIFICATION,
        1344 := sys_tcb 2 1240 taskNOT_WAITING_NOTIFICATION, 1552 := sys_tcb 1 1448 taskWAITING_NOTIFICATION),
      pxCurrentTCB = 1344, pxDelayedTaskList = DelayedTaskList1,
      pxOverflowDelayedTaskList = DelayedTaskList2, uxDeletedTasksWaitingCleanUp = 0,
      uxCurrentNumberOfTasks = 3, xTickCount = 7, uxTopReadyPriority = 2,
      xSchedulerRunning = True, xPendedTicks = 0, xYieldPending = False, xNumOfOverflows = 0,
      uxTaskNumber = 3, xNextTaskUnblockTime = 0xffffffff, uxSchedulerSuspended = 0,
      xIdleTaskHandle = 1136, pendsv = False, kheap = h, stack_mem = (\<lambda>_. 0)\<rparr>"

lemma demo_system_fields [simp]:
  "acont (lists (demo_system h)) i =
     (if i = StateItem 1552 then Some SuspendedTaskList else if i = StateItem 1344 then Some (Ready 2)
      else if i = StateItem 1136 then Some (Ready 0) else None)"
  "pxCurrentTCB (demo_system h) = 1344" "kheap (demo_system h) = h"
  "uxPriority (tcb (demo_system h) t) = (if t = 1344 then 2 else if t = 1552 then 1 else 0)"
  "ucNotifyState (tcb (demo_system h) t) n =
     (if t = 1552 then taskWAITING_NOTIFICATION else taskNOT_WAITING_NOTIFICATION)"
  "pxStack (tcb (demo_system h) t) = (if t = 1136 then 1032 else if t = 1344 then 1240 else if t = 1552 then 1448 else 0)"
  "pxDelayedTaskList (demo_system h) = DelayedTaskList1" "pxOverflowDelayedTaskList (demo_system h) = DelayedTaskList2"
  "xTickCount (demo_system h) = 7" "uxSchedulerSuspended (demo_system h) = 0"
  "uxCurrentNumberOfTasks (demo_system h) = 3" "xPendedTicks (demo_system h) = 0"
  "uxTopReadyPriority (demo_system h) = 2" "xSchedulerRunning (demo_system h) = True"
  "uxDeletedTasksWaitingCleanUp (demo_system h) = 0" "xIdleTaskHandle (demo_system h) = 1136"
  by (simp_all add: demo_system_def sys_tcb_def zero_tcb_def)

lemma demo_system_kinv: "kinv (demo_system h)"
proof -
  have "awf UNIV (lists (demo_system h))" "vsorted (lists (demo_system h)) DelayedTaskList1"
    "vsorted (lists (demo_system h)) DelayedTaskList2"
    by (simp_all add: demo_system_def)
  then have "kinv0 0 (demo_system h)"
    unfolding kinv0_def places_def delays_def readies_def by (auto simp: configMAX_PRIORITIES_def)
  then show ?thesis by (simp add: kinv_def unblock_times_def none_pending_def)
qed

lemma demo_system_tasks: "ktasks (demo_system h) = {1136, 1344, 1552}" "terminated (demo_system h) = {}"
  by (auto simp: ktasks_def terminated_def)

lemma alloc_step:
  assumes "heap_ok h S (us @ [Free n])" and "us = map Used ns" and "120 < n"
  shows "\<exists>h'. heap_ok h' S (map Used (ns @ [104]) @ [Free (n - 104)]) \<and> pxEnd h' = pxEnd h"
proof -
  have "first_fit 104 (map Used ns @ [Free n]) = Some (map Used ns, n, [])"
    using assms(3) by (induction ns) auto
  then have "tile_malloc 96 (us @ [Free n]) =
      (map Used (ns @ [104]) @ [Free (n - 104)], Some (tsizes (map Used ns)))"
    using assms(2,3) by (simp add: tile_malloc_def wanted_def w32_value take_tile_def)
  then show ?thesis using pvPortMalloc_ok [OF assms(1), of 96] by (auto simp: w32_value)
qed

lemma demo_blocks:
  obtains h where "heap_ok h 1024 [Used 104, Used 104, Used 104, Used 104, Used 104, Used 104, Free 3464]"
    and "pxEnd h = 5112"
proof -
  have "\<exists>h. heap_ok h 1024 (map Used (replicate k 104) @ [Free (4088 - k * 104)]) \<and> pxEnd h = 5112" if "k \<le> 6" for k
    using that
  proof (induction k)
    case 0
    have "heap_fresh demo_heap" by (simp add: heap_fresh_def demo_heap_def w32_value)
    then have "heap_ok (prvHeapInit demo_heap) 1024 [Free 4088]"
      using prvHeapInit_ok [of demo_heap] by (simp add: heap_base_def heap_top_def demo_heap_def)
    moreover from this have "pxEnd (prvHeapInit demo_heap) = 5112" by (simp add: heap_ok_def heap_layout_def)
    ultimately show ?case by auto
  next
    case (Suc k)
    then obtain h where h: "heap_ok h 1024 (map Used (replicate k 104) @ [Free (4088 - k * 104)])" "pxEnd h = 5112"
      by auto
    have "replicate k (104 :: nat) @ [104] = replicate (Suc k) 104" by (simp add: replicate_append_same)
    then show ?case
      using alloc_step [OF h(1) refl] h(2) Suc.prems by (simp add: diff_diff_left add.commute)
  qed
  from this [of 6] obtain h where "heap_ok h 1024 (map Used (replicate 6 104) @ [Free (4088 - 6 * 104)])" "pxEnd h = 5112"
    by auto
  then show ?thesis using that by (simp add: numeral_eq_Suc)
qed

definition demo_tiles :: "tile list" where
  "demo_tiles = [Used 104, Used 104, Used 104, Used 104, Used 104, Used 104, Free 3464]"

lemma demo_system_tiles:
  obtains h where "tinv 1024 5112 (demo_system h)" and "heap_ok h 1024 demo_tiles" and "owned_by 1024 demo_tiles (demo_system h)"
proof -
  let ?ts = "[Used 104, Used 104, Used 104, Used 104, Used 104, Used 104, Free 3464]"
  obtain h where h: "heap_ok h 1024 ?ts" "pxEnd h = 5112" by (rule demo_blocks)
  have o: "owned_by 1024 ?ts (demo_system h)"
    by (auto simp: owned_by_def demo_system_tasks live_regions_def sizeof_TCB_def initial_frame_def)
  have "counted (demo_system h)" by (simp add: counted_def demo_system_tasks)
  then have "tinv 1024 5112 (demo_system h)"
    using demo_system_kinv h o by (auto simp: tinv_def owned_def is_ready_def waiting_free_def)
  then show ?thesis using that [unfolded demo_tiles_def] h(1) o by blast
qed

lemma demo_system_tinv:
  obtains h ts where "tinv 1024 5112 (demo_system h)" and "heap_ok h 1024 ts" and "owned_by 1024 ts (demo_system h)"
  by (rule demo_system_tiles)

lemma demo_room: "room_for 128 demo_tiles" "\<not> room_for 860 demo_tiles"
  by (simp_all add: room_for_def demo_tiles_def tile_malloc_def wanted_def w32_value take_tile_def sizeof_TCB_def)

theorem tasks_never_fail_witness:
  "\<exists>h s''. kexec \<lparr>task_return = 0, psplim = True\<rparr> (GiveFromISR 1552) (vTaskSuspendAll (demo_system h)) = Some s''"
proof -
  obtain h ts where t: "tinv 1024 5112 (demo_system h)" by (rule demo_system_tinv)
  let ?cfg = "\<lparr>task_return = 0, psplim = True\<rparr>"
  have "permitted SuspendAll (demo_system h)" by simp
  then have k: "ksteps ?cfg (demo_system h) (vTaskSuspendAll (demo_system h))"
    by (rule ksteps.more [OF ksteps.none]) simp
  have "permitted (GiveFromISR 1552) (vTaskSuspendAll (demo_system h))"
    by (simp add: valid_task_def demo_system_tasks)
  then show ?thesis using tasks_never_fail [OF t k] by blast
qed

theorem xTaskCreate_correct_witness:
  "\<exists>h. (\<exists>s' t. xTaskCreate \<lparr>task_return = 0, psplim = True\<rparr> 4096 ''blink'' 128 0 1 (demo_system h) = Some (s', t) \<and> is_ready s' t) \<and>
     (\<exists>s' ts'. xTaskCreate \<lparr>task_return = 0, psplim = True\<rparr> 4096 ''blink'' 860 0 1 (demo_system h) = Some (s', 0) \<and>
        heap_ok (kheap s') 1024 ts' \<and> live_regions 1024 ts' = live_regions 1024 demo_tiles)"
proof -
  obtain h where t: "tinv 1024 5112 (demo_system h)" "heap_ok h 1024 demo_tiles" "owned_by 1024 demo_tiles (demo_system h)"
    by (rule demo_system_tiles)
  have c: "uxSchedulerSuspended (demo_system h) + 1 \<noteq> 0" "1 < configMAX_PRIORITIES" "heap_ok (kheap (demo_system h)) 1024 demo_tiles"
    using t(2) by (simp_all add: configMAX_PRIORITIES_def)
  have d: "initial_frame \<le> 128" "(128 :: nat) * 4 < w32" "initial_frame \<le> 860" "(860 :: nat) * 4 < w32"
    by (simp_all add: initial_frame_def w32_value)
  let ?cfg = "\<lparr>task_return = 0, psplim = True\<rparr>"
  have "\<exists>s' t. xTaskCreate ?cfg 4096 ''blink'' 128 0 1 (demo_system h) = Some (s', t) \<and> is_ready s' t"
    using xTaskCreate_correct [OF t(1) c(1,2) d(1,2) c(3) t(3), of ?cfg 4096 "''blink''" 0] demo_room(1) by (auto split: if_splits)
  moreover have "\<exists>s' ts'. xTaskCreate ?cfg 4096 ''blink'' 860 0 1 (demo_system h) = Some (s', 0) \<and>
      heap_ok (kheap s') 1024 ts' \<and> live_regions 1024 ts' = live_regions 1024 demo_tiles"
    using xTaskCreate_correct [OF t(1) c(1,2) d(3,4) c(3) t(3), of ?cfg 4096 "''blink''" 0] demo_room(2) by (auto split: if_splits)
  ultimately show ?thesis by blast
qed

theorem cleanup_frees_deleted_witness:
  "\<exists>h u. prvCheckTasksWaitingTermination (demo_system h) = Some u \<and> terminated u = {}"
proof -
  obtain h ts where t: "tinv 1024 5112 (demo_system h)" "heap_ok h 1024 ts" "owned_by 1024 ts (demo_system h)"
    by (rule demo_system_tinv)
  have "running (demo_system h)" "uxSchedulerSuspended (demo_system h) = 0"
    "heap_ok (kheap (demo_system h)) 1024 ts"
    using t(2) by (simp_all add: running_def is_ready_def)
  from cleanup_frees_deleted [OF t(1) this t(3)] show ?thesis by blast
qed

theorem xTaskDelayUntil_periodic_witness:
  "\<exists>h s' s2 sw. xTaskDelayUntil 5 10 (demo_system h) = Some (s', 15, True) \<and>
     run_ticks 8 s' = Some (s2, sw) \<and> is_ready s2 1344"
proof -
  obtain h ts where t: "tinv 1024 5112 (demo_system h)" by (rule demo_system_tinv)
  have "may_block (demo_system h)" "(10 :: u32) > 0" "xPendedTicks (demo_system h) = 0"
    by (simp_all add: may_block_def running_def is_ready_def)
  from xTaskDelayUntil_periodic [OF t this, of 5] obtain s' where
    s': "xTaskDelayUntil 5 10 (demo_system h) = Some (s', 15, True)"
    and k: "\<And>k. \<exists>s2 sw. run_ticks k s' = Some (s2, sw) \<and> (is_ready s2 1344 \<longleftrightarrow> unat (8 :: u32) \<le> k)"
    by auto
  from k [of 8] s' show ?thesis by auto
qed

theorem xTaskGenericNotify_correct_witness:
  "\<exists>h s'. xTaskGenericNotify 1552 0 6 eSetBits (demo_system h) =
     Some (s', ulNotifiedValue (tcb (demo_system h) 1552) 0, True) \<and>
     acont (lists s') (StateItem 1552) = Some (Ready 1)"
proof -
  obtain h ts where t: "tinv 1024 5112 (demo_system h)" by (rule demo_system_tinv)
  have "valid_task (demo_system h) 1552" by (simp add: valid_task_def demo_system_tasks)
  from xTaskGenericNotify_correct [OF t this, of 6 eSetBits] obtain s' where
    "xTaskGenericNotify 1552 0 6 eSetBits (demo_system h) =
       Some (s', ulNotifiedValue (tcb (demo_system h) 1552) 0, True)"
    "acont (lists s') = (acont (lists (demo_system h)))(StateItem 1552 := Some (Ready 1))"
    by auto
  then have "xTaskGenericNotify 1552 0 6 eSetBits (demo_system h) =
       Some (s', ulNotifiedValue (tcb (demo_system h) 1552) 0, True) \<and>
     acont (lists s') (StateItem 1552) = Some (Ready 1)" by simp
  then show ?thesis by blast
qed

theorem vTaskResume_wakes_notify_waiter_witness:
  "\<exists>h s'. vTaskResume 1552 (demo_system h) = Some s' \<and> is_ready s' 1552 \<and>
     ucNotifyState (tcb s' 1552) 0 = taskWAITING_NOTIFICATION"
proof -
  obtain h ts where t: "tinv 1024 5112 (demo_system h)" by (rule demo_system_tinv)
  from vTaskResume_wakes_notify_waiter [OF t, of 1552] show ?thesis by auto
qed

theorem resume_then_notify_fails_witness:
  "\<exists>h s'. xTaskResumeFromISR 1552 (vTaskSuspendAll (demo_system h)) = Some (s', False) \<and>
     vTaskGenericNotifyGiveFromISR 1552 0 s' = None"
proof -
  obtain h ts where "tinv 1024 5112 (demo_system h)" by (rule demo_system_tinv)
  then have "tinv 1024 5112 (vTaskSuspendAll (demo_system h))" by (rule suspend_all_tinv) simp
  from resume_then_notify_fails [OF this, of 1552] show ?thesis by auto
qed

end
