(* ===== verification/Queue.thy ===== *)
theory Queue
  imports TaskSystem
begin

text \<open>
  The queues of \<open>queue.c\<close>: a ring buffer of items in heap memory, two event lists of blocked
  senders and receivers, and the two lock counters that let interrupts use a queue while a task
  holds it locked with the scheduler suspended.  The calls that may block are cut into the
  attempt in the critical section (\<open>_try\<close>) and the part with the scheduler suspended (\<open>_block\<close>),
  which the code repeats in a loop; the task may be switched out between any two parts.
\<close>

section \<open>Queue state\<close>

text \<open>
  \<open>Queue_t\<close>: the union holds \<open>pcTail\<close> and \<open>pcReadFrom\<close>, the event lists are \<open>WaitingToSend\<close> and
  \<open>WaitingToReceive\<close> of the queue's address, and the storage bytes lie in the heap's memory.
\<close>

record queue_t =
  pcHead :: nat
  pcWriteTo :: nat
  pcTail :: nat
  pcReadFrom :: nat
  uxMessagesWaiting :: nat
  uxLength :: nat
  uxItemSize :: nat
  cRxLock :: int
  cTxLock :: int

record registry_item =
  pcQueueName :: "char list option"
  xHandle :: nat

record qkernel = kernel +
  queues :: "nat \<Rightarrow> queue_t"
  xQueueRegistry :: "registry_item list"

definition queueUNLOCKED :: int where
  "queueUNLOCKED = - 1"

definition queueLOCKED_UNMODIFIED :: int where
  "queueLOCKED_UNMODIFIED = 0"

definition queueINT8_MAX :: int where
  "queueINT8_MAX = 127"

datatype copy_position = queueSEND_TO_BACK | queueSEND_TO_FRONT | queueOVERWRITE

text \<open>\<open>sizeof(Queue_t)\<close>: four pointers, two lists of 20 bytes, three words and two lock bytes, rounded to words.\<close>

definition sizeof_Queue :: nat where
  "sizeof_Queue = 72"

definition upd_queue :: "nat \<Rightarrow> (queue_t \<Rightarrow> queue_t) \<Rightarrow> 'a qkernel_scheme \<Rightarrow> 'a qkernel_scheme" where
  "upd_queue q f s = s\<lparr>queues := (queues s)(q := f (queues s q))\<rparr>"

text \<open>\<open>memcpy\<close> into and out of heap memory.\<close>

definition store_bytes :: "nat \<Rightarrow> u8 list \<Rightarrow> (nat \<Rightarrow> u8) \<Rightarrow> nat \<Rightarrow> u8" where
  "store_bytes d bs m = (\<lambda>a. if d \<le> a \<and> a < d + length bs then bs ! (a - d) else m a)"

definition load_bytes :: "nat \<Rightarrow> nat \<Rightarrow> (nat \<Rightarrow> u8) \<Rightarrow> u8 list" where
  "load_bytes p n m = map (\<lambda>i. m (p + i)) [0..<n]"

definition heap_store :: "nat \<Rightarrow> u8 list \<Rightarrow> 'a kernel_scheme \<Rightarrow> 'a kernel_scheme" where
  "heap_store d bs s = s\<lparr>kheap := (kheap s)\<lparr>payload := store_bytes d bs (payload (kheap s))\<rparr>\<rparr>"

section \<open>Reset and creation\<close>

definition reset_pointers :: "queue_t \<Rightarrow> queue_t" where
  "reset_pointers Q =
     Q\<lparr>pcTail := wadd (pcHead Q) (wmul (uxLength Q) (uxItemSize Q)),
       uxMessagesWaiting := 0, pcWriteTo := pcHead Q,
       pcReadFrom := wadd (pcHead Q) (wmul (wsub (uxLength Q) 1) (uxItemSize Q)),
       cRxLock := queueUNLOCKED, cTxLock := queueUNLOCKED\<rparr>"

text \<open>\<open>wake_first l yield s\<close>: wake the first waiter of \<open>l\<close>, if any, and act on a higher priority.\<close>

definition wake_first ::
  "klist \<Rightarrow> ('a kernel_scheme \<Rightarrow> 'a kernel_scheme) \<Rightarrow> 'a kernel_scheme \<Rightarrow> 'a kernel_scheme option" where
  "wake_first l yield s =
     (if items s l \<noteq> [] then
        do { (s, higher) \<leftarrow> xTaskRemoveFromEventList l s; Some (if higher then yield s else s) }
      else Some s)"

definition xQueueGenericReset :: "nat \<Rightarrow> bool \<Rightarrow> 'a qkernel_scheme \<Rightarrow> 'a qkernel_scheme option" where
  "xQueueGenericReset q xNewQueue s =
     do {
       configASSERT (q \<noteq> 0);
       let Q = queues s q;
       (s, xReturn) \<leftarrow>
         (if q \<noteq> 0 \<and> uxLength Q \<ge> 1 \<and> heapSIZE_MAX div uxLength Q \<ge> uxItemSize Q then
            do {
              let s = upd_queue q reset_pointers s;
              s \<leftarrow> (if \<not> xNewQueue then wake_first (WaitingToSend q) portYIELD s
                    else Some (init_list (WaitingToReceive q) (init_list (WaitingToSend q) s)));
              Some (s, True)
            }
          else Some (s, False));
       configASSERT xReturn;
       Some s
     }"

definition prvInitialiseNewQueue ::
  "nat \<Rightarrow> nat \<Rightarrow> nat \<Rightarrow> nat \<Rightarrow> 'a qkernel_scheme \<Rightarrow> 'a qkernel_scheme option" where
  "prvInitialiseNewQueue uxQueueLength uxSize pucQueueStorage q s =
     do {
       let s = upd_queue q (pcHead_update (\<lambda>_. if uxSize = 0 then q else pucQueueStorage)) s;
       let s = upd_queue q (uxLength_update (\<lambda>_. uxQueueLength) \<circ> uxItemSize_update (\<lambda>_. uxSize)) s;
       xQueueGenericReset q True s
     }"

definition xQueueGenericCreate :: "nat \<Rightarrow> nat \<Rightarrow> 'a qkernel_scheme \<Rightarrow> ('a qkernel_scheme \<times> nat) option" where
  "xQueueGenericCreate uxQueueLength uxSize s =
     (if uxQueueLength > 0 \<and> heapSIZE_MAX div uxQueueLength \<ge> uxSize \<and>
         heapSIZE_MAX - sizeof_Queue \<ge> wmul uxQueueLength uxSize
      then do {
        let xQueueSizeInBytes = wmul uxQueueLength uxSize;
        (s, q) \<leftarrow> kernel_malloc (wadd sizeof_Queue xQueueSizeInBytes) s;
        s \<leftarrow> (if q \<noteq> 0 then prvInitialiseNewQueue uxQueueLength uxSize (wadd q sizeof_Queue) q s else Some s);
        Some (s, q)
      }
      else None)"

definition xQueueCreateCountingSemaphore ::
  "nat \<Rightarrow> nat \<Rightarrow> 'a qkernel_scheme \<Rightarrow> ('a qkernel_scheme \<times> nat) option" where
  "xQueueCreateCountingSemaphore uxMaxCount uxInitialCount s =
     (if uxMaxCount \<noteq> 0 \<and> uxInitialCount \<le> uxMaxCount
      then do {
        (s, q) \<leftarrow> xQueueGenericCreate uxMaxCount 0 s;
        Some (if q \<noteq> 0 then upd_queue q (uxMessagesWaiting_update (\<lambda>_. uxInitialCount)) s else s, q)
      }
      else None)"

section \<open>Copying\<close>

definition prvCopyDataToQueue :: "nat \<Rightarrow> u8 list \<Rightarrow> copy_position \<Rightarrow> 'a qkernel_scheme \<Rightarrow> 'a qkernel_scheme" where
  "prvCopyDataToQueue q item xPosition s =
     (let Q = queues s q; n = uxMessagesWaiting Q in
      if uxItemSize Q = 0
      then upd_queue q (uxMessagesWaiting_update (\<lambda>_. wadd n 1)) s
      else if xPosition = queueSEND_TO_BACK
      then let s = heap_store (pcWriteTo Q) item s;
               w = wadd (pcWriteTo Q) (uxItemSize Q);
               w = (if w \<ge> pcTail Q then pcHead Q else w)
           in upd_queue q (\<lambda>Q. Q\<lparr>pcWriteTo := w, uxMessagesWaiting := wadd n 1\<rparr>) s
      else let s = heap_store (pcReadFrom Q) item s;
               r = wsub (pcReadFrom Q) (uxItemSize Q);
               r = (if r < pcHead Q then wsub (pcTail Q) (uxItemSize Q) else r);
               n = (if xPosition = queueOVERWRITE \<and> n > 0 then n - 1 else n)
           in upd_queue q (\<lambda>Q. Q\<lparr>pcReadFrom := r, uxMessagesWaiting := wadd n 1\<rparr>) s)"

text \<open>The state and the bytes copied to the caller's buffer.\<close>

definition prvCopyDataFromQueue :: "nat \<Rightarrow> 'a qkernel_scheme \<Rightarrow> 'a qkernel_scheme \<times> u8 list" where
  "prvCopyDataFromQueue q s =
     (let Q = queues s q in
      if uxItemSize Q \<noteq> 0
      then let r = wadd (pcReadFrom Q) (uxItemSize Q);
               r = (if r \<ge> pcTail Q then pcHead Q else r)
           in (upd_queue q (pcReadFrom_update (\<lambda>_. r)) s, load_bytes r (uxItemSize Q) (payload (kheap s)))
      else (s, []))"

section \<open>Locking\<close>

definition prvLockQueue :: "nat \<Rightarrow> 'a qkernel_scheme \<Rightarrow> 'a qkernel_scheme" where
  "prvLockQueue q s =
     upd_queue q (\<lambda>Q. Q\<lparr>cRxLock := if cRxLock Q = queueUNLOCKED then queueLOCKED_UNMODIFIED else cRxLock Q,
                       cTxLock := if cTxLock Q = queueUNLOCKED then queueLOCKED_UNMODIFIED else cTxLock Q\<rparr>) s"

definition prvIncrementQueueTxLock :: "nat \<Rightarrow> int \<Rightarrow> 'a qkernel_scheme \<Rightarrow> 'a qkernel_scheme option" where
  "prvIncrementQueueTxLock q lock s =
     (if (word_of_int lock :: u32) < uxTaskGetNumberOfTasks s
      then do { configASSERT (lock \<noteq> queueINT8_MAX); Some (upd_queue q (cTxLock_update (\<lambda>_. lock + 1)) s) }
      else Some s)"

definition prvIncrementQueueRxLock :: "nat \<Rightarrow> int \<Rightarrow> 'a qkernel_scheme \<Rightarrow> 'a qkernel_scheme option" where
  "prvIncrementQueueRxLock q lock s =
     (if (word_of_int lock :: u32) < uxTaskGetNumberOfTasks s
      then do { configASSERT (lock \<noteq> queueINT8_MAX); Some (upd_queue q (cRxLock_update (\<lambda>_. lock + 1)) s) }
      else Some s)"

text \<open>The two loops of \<open>prvUnlockQueue\<close>: one waiter for every item that came or went meanwhile.\<close>

fun unlock_loop :: "nat \<Rightarrow> klist \<Rightarrow> 'a kernel_scheme \<Rightarrow> 'a kernel_scheme option" where
  "unlock_loop 0 l s = Some s"
| "unlock_loop (Suc n) l s =
     (if items s l \<noteq> []
      then do {
        (s, higher) \<leftarrow> xTaskRemoveFromEventList l s;
        unlock_loop n l (if higher then vTaskMissedYield s else s)
      }
      else Some s)"

definition prvUnlockQueue :: "nat \<Rightarrow> 'a qkernel_scheme \<Rightarrow> 'a qkernel_scheme option" where
  "prvUnlockQueue q s =
     do {
       s \<leftarrow> unlock_loop (nat (cTxLock (queues s q))) (WaitingToReceive q) s;
       let s = upd_queue q (cTxLock_update (\<lambda>_. queueUNLOCKED)) s;
       s \<leftarrow> unlock_loop (nat (cRxLock (queues s q))) (WaitingToSend q) s;
       Some (upd_queue q (cRxLock_update (\<lambda>_. queueUNLOCKED)) s)
     }"

definition prvIsQueueEmpty :: "nat \<Rightarrow> 'a qkernel_scheme \<Rightarrow> bool" where
  "prvIsQueueEmpty q s = (uxMessagesWaiting (queues s q) = 0)"

definition prvIsQueueFull :: "nat \<Rightarrow> 'a qkernel_scheme \<Rightarrow> bool" where
  "prvIsQueueFull q s = (uxMessagesWaiting (queues s q) = uxLength (queues s q))"

section \<open>Sending\<close>

text \<open>The result of an attempt: the call returns, or goes on to block with this time-out.\<close>

datatype attempt = Returned bool | Waits time_out

text \<open>\<open>configASSERT\<close> on a buffer, which may be \<open>NULL\<close> only for a queue without item data.\<close>

definition buffer_ok :: "u8 list option \<Rightarrow> nat \<Rightarrow> bool" where
  "buffer_ok b n \<longleftrightarrow> \<not> (b = None \<and> n \<noteq> 0)"

definition may_wait :: "u32 \<Rightarrow> 'a kernel_scheme \<Rightarrow> bool" where
  "may_wait xTicksToWait s \<longleftrightarrow>
     \<not> (xTaskGetSchedulerState s = taskSCHEDULER_SUSPENDED \<and> xTicksToWait \<noteq> 0)"

definition bytes_of :: "u8 list option \<Rightarrow> u8 list" where
  "bytes_of b = (case b of None \<Rightarrow> [] | Some bs \<Rightarrow> bs)"

definition entry_time :: "time_out option \<Rightarrow> 'a kernel_scheme \<Rightarrow> time_out" where
  "entry_time t s = (case t of None \<Rightarrow> vTaskInternalSetTimeOutState s | Some t \<Rightarrow> t)"

definition xQueueGenericSend_asserts :: "nat \<Rightarrow> u8 list option \<Rightarrow> u32 \<Rightarrow> copy_position \<Rightarrow> 'a qkernel_scheme \<Rightarrow> unit option" where
  "xQueueGenericSend_asserts q pvItemToQueue xTicksToWait xCopyPosition s =
     do {
       configASSERT (q \<noteq> 0);
       configASSERT (buffer_ok pvItemToQueue (uxItemSize (queues s q)));
       configASSERT (\<not> (xCopyPosition = queueOVERWRITE \<and> uxLength (queues s q) \<noteq> 1));
       configASSERT (may_wait xTicksToWait s)
     }"

definition xQueueGenericSend_try ::
  "nat \<Rightarrow> u8 list option \<Rightarrow> u32 \<Rightarrow> copy_position \<Rightarrow> time_out option \<Rightarrow> 'a qkernel_scheme \<Rightarrow>
   ('a qkernel_scheme \<times> attempt) option" where
  "xQueueGenericSend_try q pvItemToQueue xTicksToWait xCopyPosition t s =
     (if uxMessagesWaiting (queues s q) < uxLength (queues s q) \<or> xCopyPosition = queueOVERWRITE
      then do {
        let s = prvCopyDataToQueue q (bytes_of pvItemToQueue) xCopyPosition s;
        s \<leftarrow> wake_first (WaitingToReceive q) portYIELD s;
        Some (s, Returned True)
      }
      else if xTicksToWait = 0 then Some (s, Returned False)
      else Some (s, Waits (entry_time t s)))"

text \<open>
  The part with the scheduler suspended: the queue is locked, the time-out checked, and the
  task blocks on the list \<open>l\<close> while \<open>busy\<close> (the queue is full, or empty) holds.  \<open>Returned False\<close>
  is an expired time-out; otherwise the call goes on with the updated time-out and wait.
\<close>

definition queue_block ::
  "(nat \<Rightarrow> 'a qkernel_scheme \<Rightarrow> bool) \<Rightarrow> klist \<Rightarrow> nat \<Rightarrow> time_out \<Rightarrow> u32 \<Rightarrow> 'a qkernel_scheme \<Rightarrow>
   ('a qkernel_scheme \<times> attempt \<times> u32) option" where
  "queue_block busy l q t xTicksToWait s =
     do {
       let s = vTaskSuspendAll s;
       let s = prvLockQueue q s;
       let (expired, t, xTicksToWait) = xTaskCheckForTimeOut t xTicksToWait s;
       if \<not> expired then
         if busy q s then
           do {
             s \<leftarrow> vTaskPlaceOnEventList l xTicksToWait s;
             s \<leftarrow> prvUnlockQueue q s;
             (s, yielded) \<leftarrow> xTaskResumeAll s;
             Some (if \<not> yielded then portYIELD s else s, Waits t, xTicksToWait)
           }
         else
           do {
             s \<leftarrow> prvUnlockQueue q s;
             (s, _) \<leftarrow> xTaskResumeAll s;
             Some (s, Waits t, xTicksToWait)
           }
       else
         do {
           s \<leftarrow> prvUnlockQueue q s;
           (s, _) \<leftarrow> xTaskResumeAll s;
           Some (s, Returned False, xTicksToWait)
         }
     }"

definition xQueueGenericSend_block ::
  "nat \<Rightarrow> time_out \<Rightarrow> u32 \<Rightarrow> 'a qkernel_scheme \<Rightarrow> ('a qkernel_scheme \<times> attempt \<times> u32) option" where
  "xQueueGenericSend_block q = queue_block prvIsQueueFull (WaitingToSend q) q"

text \<open>The interrupt versions; the flag is \<open>*pxHigherPriorityTaskWoken\<close>, set to true or left alone.\<close>

definition wake_from_isr :: "klist \<Rightarrow> bool \<Rightarrow> 'a kernel_scheme \<Rightarrow> ('a kernel_scheme \<times> bool) option" where
  "wake_from_isr l woken s =
     (if items s l \<noteq> [] then
        do { (s, higher) \<leftarrow> xTaskRemoveFromEventList l s; Some (s, if higher then True else woken) }
      else Some (s, woken))"

definition xQueueGenericSendFromISR ::
  "nat \<Rightarrow> u8 list option \<Rightarrow> bool \<Rightarrow> copy_position \<Rightarrow> 'a qkernel_scheme \<Rightarrow>
   ('a qkernel_scheme \<times> bool \<times> bool) option" where
  "xQueueGenericSendFromISR q pvItemToQueue woken xCopyPosition s =
     do {
       configASSERT (q \<noteq> 0);
       configASSERT (buffer_ok pvItemToQueue (uxItemSize (queues s q)));
       configASSERT (\<not> (xCopyPosition = queueOVERWRITE \<and> uxLength (queues s q) \<noteq> 1));
       if uxMessagesWaiting (queues s q) < uxLength (queues s q) \<or> xCopyPosition = queueOVERWRITE
       then do {
         let lock = cTxLock (queues s q);
         let s = prvCopyDataToQueue q (bytes_of pvItemToQueue) xCopyPosition s;
         (s, woken) \<leftarrow>
           (if lock = queueUNLOCKED then wake_from_isr (WaitingToReceive q) woken s
            else do { s \<leftarrow> prvIncrementQueueTxLock q lock s; Some (s, woken) });
         Some (s, True, woken)
       }
       else Some (s, False, woken)
     }"

definition xQueueGiveFromISR :: "nat \<Rightarrow> bool \<Rightarrow> 'a qkernel_scheme \<Rightarrow> ('a qkernel_scheme \<times> bool \<times> bool) option" where
  "xQueueGiveFromISR q woken s =
     do {
       configASSERT (q \<noteq> 0);
       configASSERT (uxItemSize (queues s q) = 0);
       configASSERT (\<not> (pcHead (queues s q) = 0 \<and> pcTail (queues s q) \<noteq> 0));
       let n = uxMessagesWaiting (queues s q);
       if n < uxLength (queues s q)
       then do {
         let lock = cTxLock (queues s q);
         let s = upd_queue q (uxMessagesWaiting_update (\<lambda>_. wadd n 1)) s;
         (s, woken) \<leftarrow>
           (if lock = queueUNLOCKED then wake_from_isr (WaitingToReceive q) woken s
            else do { s \<leftarrow> prvIncrementQueueTxLock q lock s; Some (s, woken) });
         Some (s, True, woken)
       }
       else Some (s, False, woken)
     }"

section \<open>Receiving\<close>

definition xQueueReceive_asserts :: "nat \<Rightarrow> bool \<Rightarrow> u32 \<Rightarrow> 'a qkernel_scheme \<Rightarrow> unit option" where
  "xQueueReceive_asserts q null_buffer xTicksToWait s =
     do {
       configASSERT (q \<noteq> 0);
       configASSERT (\<not> (null_buffer \<and> uxItemSize (queues s q) \<noteq> 0));
       configASSERT (may_wait xTicksToWait s)
     }"

text \<open>The third component is what the attempt copies to the buffer.\<close>

definition xQueueReceive_try ::
  "nat \<Rightarrow> u32 \<Rightarrow> time_out option \<Rightarrow> 'a qkernel_scheme \<Rightarrow> ('a qkernel_scheme \<times> attempt \<times> u8 list) option" where
  "xQueueReceive_try q xTicksToWait t s =
     (let n = uxMessagesWaiting (queues s q) in
      if n > 0
      then do {
        let (s, item) = prvCopyDataFromQueue q s;
        let s = upd_queue q (uxMessagesWaiting_update (\<lambda>_. n - 1)) s;
        s \<leftarrow> wake_first (WaitingToSend q) portYIELD s;
        Some (s, Returned True, item)
      }
      else if xTicksToWait = 0 then Some (s, Returned False, [])
      else Some (s, Waits (entry_time t s), []))"

text \<open>
  A receiving call whose time-out has expired looks at the queue once more before it gives up;
  if something has arrived it goes round the loop.
\<close>

definition receive_block ::
  "nat \<Rightarrow> time_out \<Rightarrow> u32 \<Rightarrow> 'a qkernel_scheme \<Rightarrow> ('a qkernel_scheme \<times> attempt \<times> u32) option" where
  "receive_block q t xTicksToWait s =
     do {
       (s, r, xTicksToWait) \<leftarrow> queue_block prvIsQueueEmpty (WaitingToReceive q) q t xTicksToWait s;
       Some (s, if r = Returned False \<and> \<not> prvIsQueueEmpty q s then Waits t else r, xTicksToWait)
     }"

definition xQueueReceive_block ::
  "nat \<Rightarrow> time_out \<Rightarrow> u32 \<Rightarrow> 'a qkernel_scheme \<Rightarrow> ('a qkernel_scheme \<times> attempt \<times> u32) option" where
  "xQueueReceive_block = receive_block"

definition xQueueSemaphoreTake_try ::
  "nat \<Rightarrow> u32 \<Rightarrow> time_out option \<Rightarrow> 'a qkernel_scheme \<Rightarrow> ('a qkernel_scheme \<times> attempt) option" where
  "xQueueSemaphoreTake_try q xTicksToWait t s =
     (let n = uxMessagesWaiting (queues s q) in
      if n > 0
      then do {
        let s = upd_queue q (uxMessagesWaiting_update (\<lambda>_. n - 1)) s;
        s \<leftarrow> wake_first (WaitingToSend q) portYIELD s;
        Some (s, Returned True)
      }
      else if xTicksToWait = 0 then Some (s, Returned False)
      else Some (s, Waits (entry_time t s)))"

definition xQueueSemaphoreTake_asserts :: "nat \<Rightarrow> u32 \<Rightarrow> 'a qkernel_scheme \<Rightarrow> unit option" where
  "xQueueSemaphoreTake_asserts q xTicksToWait s =
     do {
       configASSERT (q \<noteq> 0);
       configASSERT (uxItemSize (queues s q) = 0);
       configASSERT (may_wait xTicksToWait s)
     }"

definition xQueueSemaphoreTake_block ::
  "nat \<Rightarrow> time_out \<Rightarrow> u32 \<Rightarrow> 'a qkernel_scheme \<Rightarrow> ('a qkernel_scheme \<times> attempt \<times> u32) option" where
  "xQueueSemaphoreTake_block = receive_block"

definition xQueuePeek_try ::
  "nat \<Rightarrow> u32 \<Rightarrow> time_out option \<Rightarrow> 'a qkernel_scheme \<Rightarrow> ('a qkernel_scheme \<times> attempt \<times> u8 list) option" where
  "xQueuePeek_try q xTicksToWait t s =
     (if uxMessagesWaiting (queues s q) > 0
      then do {
        let pcOriginalReadPosition = pcReadFrom (queues s q);
        let (s, item) = prvCopyDataFromQueue q s;
        let s = upd_queue q (pcReadFrom_update (\<lambda>_. pcOriginalReadPosition)) s;
        s \<leftarrow> wake_first (WaitingToReceive q) portYIELD s;
        Some (s, Returned True, item)
      }
      else if xTicksToWait = 0 then Some (s, Returned False, [])
      else Some (s, Waits (entry_time t s), []))"

definition xQueuePeek_block ::
  "nat \<Rightarrow> time_out \<Rightarrow> u32 \<Rightarrow> 'a qkernel_scheme \<Rightarrow> ('a qkernel_scheme \<times> attempt \<times> u32) option" where
  "xQueuePeek_block = receive_block"

definition xQueueReceiveFromISR ::
  "nat \<Rightarrow> bool \<Rightarrow> bool \<Rightarrow> 'a qkernel_scheme \<Rightarrow> ('a qkernel_scheme \<times> bool \<times> u8 list \<times> bool) option" where
  "xQueueReceiveFromISR q null_buffer woken s =
     do {
       configASSERT (q \<noteq> 0);
       configASSERT (\<not> (null_buffer \<and> uxItemSize (queues s q) \<noteq> 0));
       let n = uxMessagesWaiting (queues s q);
       if n > 0
       then do {
         let lock = cRxLock (queues s q);
         let (s, item) = prvCopyDataFromQueue q s;
         let s = upd_queue q (uxMessagesWaiting_update (\<lambda>_. n - 1)) s;
         (s, woken) \<leftarrow>
           (if lock = queueUNLOCKED then wake_from_isr (WaitingToSend q) woken s
            else do { s \<leftarrow> prvIncrementQueueRxLock q lock s; Some (s, woken) });
         Some (s, True, item, woken)
       }
       else Some (s, False, [], woken)
     }"

definition xQueuePeekFromISR ::
  "nat \<Rightarrow> bool \<Rightarrow> 'a qkernel_scheme \<Rightarrow> ('a qkernel_scheme \<times> bool \<times> u8 list) option" where
  "xQueuePeekFromISR q null_buffer s =
     do {
       configASSERT (q \<noteq> 0);
       configASSERT (\<not> (null_buffer \<and> uxItemSize (queues s q) \<noteq> 0));
       configASSERT (uxItemSize (queues s q) \<noteq> 0);
       if uxMessagesWaiting (queues s q) > 0
       then let pcOriginalReadPosition = pcReadFrom (queues s q);
                (s, item) = prvCopyDataFromQueue q s
            in Some (upd_queue q (pcReadFrom_update (\<lambda>_. pcOriginalReadPosition)) s, True, item)
       else Some (s, False, [])
     }"

section \<open>Observers, registry and deletion\<close>

definition uxQueueMessagesWaiting :: "nat \<Rightarrow> 'a qkernel_scheme \<Rightarrow> nat option" where
  "uxQueueMessagesWaiting q s = do { configASSERT (q \<noteq> 0); Some (uxMessagesWaiting (queues s q)) }"

definition uxQueueMessagesWaitingFromISR :: "nat \<Rightarrow> 'a qkernel_scheme \<Rightarrow> nat option" where
  "uxQueueMessagesWaitingFromISR q s = do { configASSERT (q \<noteq> 0); Some (uxMessagesWaiting (queues s q)) }"

definition uxQueueSpacesAvailable :: "nat \<Rightarrow> 'a qkernel_scheme \<Rightarrow> nat option" where
  "uxQueueSpacesAvailable q s =
     do { configASSERT (q \<noteq> 0); Some (wsub (uxLength (queues s q)) (uxMessagesWaiting (queues s q))) }"

definition xQueueIsQueueEmptyFromISR :: "nat \<Rightarrow> 'a qkernel_scheme \<Rightarrow> bool option" where
  "xQueueIsQueueEmptyFromISR q s = do { configASSERT (q \<noteq> 0); Some (uxMessagesWaiting (queues s q) = 0) }"

definition xQueueIsQueueFullFromISR :: "nat \<Rightarrow> 'a qkernel_scheme \<Rightarrow> bool option" where
  "xQueueIsQueueFullFromISR q s =
     do { configASSERT (q \<noteq> 0); Some (uxMessagesWaiting (queues s q) = uxLength (queues s q)) }"

text \<open>The search of \<open>vQueueAddToRegistry\<close>: the entry of the queue, else the first free one.\<close>

fun registry_slot :: "nat \<Rightarrow> nat option \<Rightarrow> nat \<Rightarrow> registry_item list \<Rightarrow> nat option" where
  "registry_slot q e ux [] = e"
| "registry_slot q e ux (r # rs) =
     (if q = xHandle r then Some ux
      else if e = None \<and> pcQueueName r = None then registry_slot q (Some ux) (ux + 1) rs
      else registry_slot q e (ux + 1) rs)"

definition vQueueAddToRegistry :: "nat \<Rightarrow> char list option \<Rightarrow> 'a qkernel_scheme \<Rightarrow> 'a qkernel_scheme option" where
  "vQueueAddToRegistry q name s =
     do {
       configASSERT (q \<noteq> 0);
       let e = (if name \<noteq> None then registry_slot q None 0 (xQueueRegistry s) else None);
       Some (case e of
           None \<Rightarrow> s
         | Some ux \<Rightarrow> s\<lparr>xQueueRegistry := (xQueueRegistry s)[ux := \<lparr>pcQueueName = name, xHandle = q\<rparr>]\<rparr>)
     }"

fun registry_find :: "nat \<Rightarrow> nat \<Rightarrow> registry_item list \<Rightarrow> nat option" where
  "registry_find q ux [] = None"
| "registry_find q ux (r # rs) = (if xHandle r = q then Some ux else registry_find q (ux + 1) rs)"

definition pcQueueGetName :: "nat \<Rightarrow> 'a qkernel_scheme \<Rightarrow> char list option option" where
  "pcQueueGetName q s =
     do {
       configASSERT (q \<noteq> 0);
       Some (case registry_find q 0 (xQueueRegistry s) of
           None \<Rightarrow> None
         | Some ux \<Rightarrow> pcQueueName (xQueueRegistry s ! ux))
     }"

definition vQueueUnregisterQueue :: "nat \<Rightarrow> 'a qkernel_scheme \<Rightarrow> 'a qkernel_scheme option" where
  "vQueueUnregisterQueue q s =
     do {
       configASSERT (q \<noteq> 0);
       Some (case registry_find q 0 (xQueueRegistry s) of
           None \<Rightarrow> s
         | Some ux \<Rightarrow> s\<lparr>xQueueRegistry := (xQueueRegistry s)[ux := \<lparr>pcQueueName = None, xHandle = 0\<rparr>]\<rparr>)
     }"

definition vQueueDelete :: "nat \<Rightarrow> 'a qkernel_scheme \<Rightarrow> 'a qkernel_scheme option" where
  "vQueueDelete q s =
     do {
       configASSERT (q \<noteq> 0);
       s \<leftarrow> vQueueUnregisterQueue q s;
       kernel_free q s
     }"

text \<open>Used by the timer task, with the scheduler suspended.\<close>

definition vQueueWaitForMessageRestricted ::
  "nat \<Rightarrow> u32 \<Rightarrow> bool \<Rightarrow> 'a qkernel_scheme \<Rightarrow> 'a qkernel_scheme option" where
  "vQueueWaitForMessageRestricted q xTicksToWait xWaitIndefinitely s =
     do {
       let s = prvLockQueue q s;
       s \<leftarrow> (if uxMessagesWaiting (queues s q) = 0
             then vTaskPlaceOnEventListRestricted (WaitingToReceive q) xTicksToWait xWaitIndefinitely s
             else Some s);
       prvUnlockQueue q s
     }"

section \<open>The ring buffer\<close>

text \<open>
  A queue of items of \<open>z > 0\<close> bytes: \<open>l\<close> slots from \<open>pcHead\<close>, the last read slot \<open>r\<close> and the next
  slot to write, which lies \<open>n + 1\<close> further round the ring.
\<close>

definition slot_addr :: "queue_t \<Rightarrow> nat \<Rightarrow> nat" where
  "slot_addr Q i = pcHead Q + i * uxItemSize Q"

definition ring :: "queue_t \<Rightarrow> bool" where
  "ring Q \<longleftrightarrow>
     0 < uxItemSize Q \<and> uxItemSize Q \<le> pcHead Q \<and> pcTail Q = slot_addr Q (uxLength Q) \<and> pcTail Q < w32 \<and>
     uxMessagesWaiting Q \<le> uxLength Q \<and>
     (\<exists>r < uxLength Q. pcReadFrom Q = slot_addr Q r \<and>
        pcWriteTo Q = slot_addr Q ((r + 1 + uxMessagesWaiting Q) mod uxLength Q))"

definition read_slot :: "queue_t \<Rightarrow> nat" where
  "read_slot Q = (pcReadFrom Q - pcHead Q) div uxItemSize Q"

definition ring_slot :: "queue_t \<Rightarrow> (nat \<Rightarrow> u8) \<Rightarrow> nat \<Rightarrow> u8 list" where
  "ring_slot Q m i = load_bytes (slot_addr Q i) (uxItemSize Q) m"

definition contents :: "queue_t \<Rightarrow> (nat \<Rightarrow> u8) \<Rightarrow> u8 list list" where
  "contents Q m =
     map (\<lambda>i. ring_slot Q m ((read_slot Q + 1 + i) mod uxLength Q)) [0..<uxMessagesWaiting Q]"

lemma length_contents [simp]: "length (contents Q m) = uxMessagesWaiting Q"
  by (simp add: contents_def)

lemma read_slot_eq [simp]: "0 < uxItemSize Q \<Longrightarrow> pcReadFrom Q = slot_addr Q r \<Longrightarrow> read_slot Q = r"
  by (simp add: read_slot_def slot_addr_def)

lemma slot_addr_mono: "i \<le> j \<Longrightarrow> slot_addr Q i \<le> slot_addr Q j"
  by (simp add: slot_addr_def)

lemma slot_addr_0 [simp]: "slot_addr Q 0 = pcHead Q"
  by (simp add: slot_addr_def)

lemma slot_addr_Suc: "slot_addr Q (Suc i) = slot_addr Q i + uxItemSize Q"
  by (simp add: slot_addr_def)

lemma slot_within: "i < uxLength Q \<Longrightarrow> slot_addr Q i + uxItemSize Q \<le> slot_addr Q (uxLength Q)"
  using slot_addr_mono [of "Suc i" "uxLength Q" Q] by (simp add: slot_addr_Suc)

lemma load_store_same: "length bs = n \<Longrightarrow> load_bytes p n (store_bytes p bs m) = bs"
  by (auto simp: load_bytes_def store_bytes_def intro: nth_equalityI)

lemma load_store_apart:
  "p + n \<le> d \<or> d + length bs \<le> p \<Longrightarrow> load_bytes p n (store_bytes d bs m) = load_bytes p n m"
  by (auto simp: load_bytes_def store_bytes_def)

lemma ring_slot_store:
  assumes "i < uxLength Q" and "j < uxLength Q" and "length bs = uxItemSize Q"
  shows "ring_slot Q (store_bytes (slot_addr Q j) bs m) i = (if i = j then bs else ring_slot Q m i)"
proof (cases "i = j")
  case False
  then have "Suc i \<le> j \<or> Suc j \<le> i" by arith
  then have "slot_addr Q i + uxItemSize Q \<le> slot_addr Q j \<or> slot_addr Q j + uxItemSize Q \<le> slot_addr Q i"
    using slot_addr_mono slot_addr_Suc by metis
  then show ?thesis using False assms by (simp add: ring_slot_def load_store_apart)
qed (simp add: ring_slot_def load_store_same assms)

text \<open>The two pointer movements.\<close>

lemma advance_slot:
  assumes "ring Q" and "i < uxLength Q"
  shows "(let w = wadd (slot_addr Q i) (uxItemSize Q) in if w \<ge> pcTail Q then pcHead Q else w) =
    slot_addr Q (Suc i mod uxLength Q)"
proof -
  have t: "pcTail Q = slot_addr Q (uxLength Q)" "pcTail Q < w32" "0 < uxItemSize Q" using assms(1) by (auto simp: ring_def)
  have w: "wadd (slot_addr Q i) (uxItemSize Q) = slot_addr Q (Suc i)"
    using slot_within [OF assms(2)] t by (simp add: slot_addr_Suc)
  show ?thesis
  proof (cases "Suc i = uxLength Q")
    case True
    then show ?thesis by (simp add: w t(1) Let_def)
  next
    case False
    then have lt: "Suc i < uxLength Q" using assms(2) by simp
    then have "slot_addr Q (Suc i) < slot_addr Q (uxLength Q)" using t(3) by (simp add: slot_addr_def del: mult_Suc)
    then show ?thesis using lt by (simp add: w t(1) Let_def)
  qed
qed

lemma retreat_slot:
  assumes "ring Q" and "i < uxLength Q"
  shows "(let r = wsub (slot_addr Q i) (uxItemSize Q)
      in if r < pcHead Q then wsub (pcTail Q) (uxItemSize Q) else r) =
    slot_addr Q ((i + uxLength Q - 1) mod uxLength Q)"
proof -
  have t: "pcTail Q = slot_addr Q (uxLength Q)" "pcTail Q < w32" "0 < uxItemSize Q" "uxItemSize Q \<le> pcHead Q"
    using assms(1) by (auto simp: ring_def)
  have b: "slot_addr Q i < w32" using slot_within [OF assms(2)] t by linarith
  have "wsub (slot_addr Q i) (uxItemSize Q) = slot_addr Q i - uxItemSize Q"
    using t(4) b by (simp add: slot_addr_def)
  moreover have "wsub (pcTail Q) (uxItemSize Q) = slot_addr Q (uxLength Q) - uxItemSize Q"
    using t by (simp add: slot_addr_def)
  moreover obtain l where l: "uxLength Q = Suc l" using assms(2) by (cases "uxLength Q") auto
  ultimately show ?thesis
    using t(3,4) assms(2)
    by (cases i) (auto simp: Let_def slot_addr_def l mod_if)
qed

lemma mod_add_neq:
  assumes "i < n" and "n < l"
  shows "(a + i) mod l \<noteq> (a + n) mod (l :: nat)"
proof
  assume "(a + i) mod l = (a + n) mod l"
  then have "l dvd (a + n) - (a + i)" using assms mod_eq_dvd_iff_nat [of "a + i" "a + n" l] by simp
  then show False using assms by (auto dest: dvd_imp_le)
qed

definition valid_item :: "queue_t \<Rightarrow> u8 list \<Rightarrow> bool" where
  "valid_item Q x \<longleftrightarrow> length x = uxItemSize Q"

definition same_shape :: "queue_t \<Rightarrow> queue_t \<Rightarrow> bool" where
  "same_shape Q Q' \<longleftrightarrow>
     pcHead Q' = pcHead Q \<and> pcTail Q' = pcTail Q \<and> uxLength Q' = uxLength Q \<and> uxItemSize Q' = uxItemSize Q \<and>
     cRxLock Q' = cRxLock Q \<and> cTxLock Q' = cTxLock Q"

lemma ringE:
  assumes "ring Q"
  obtains r where "r < uxLength Q" and "pcReadFrom Q = slot_addr Q r" and "read_slot Q = r"
    and "pcWriteTo Q = slot_addr Q ((r + 1 + uxMessagesWaiting Q) mod uxLength Q)"
    and "0 < uxLength Q" and "uxLength Q < w32"
proof -
  obtain r where r: "r < uxLength Q" "pcReadFrom Q = slot_addr Q r"
    "pcWriteTo Q = slot_addr Q ((r + 1 + uxMessagesWaiting Q) mod uxLength Q)"
    using assms by (auto simp: ring_def)
  have z: "0 < uxItemSize Q" "slot_addr Q (uxLength Q) < w32" using assms by (auto simp: ring_def)
  then have "uxLength Q * 1 \<le> uxLength Q * uxItemSize Q" by (intro mult_le_mono2) simp
  then have "uxLength Q < w32" using z(2) unfolding slot_addr_def by linarith
  then show ?thesis using that r z(1) by auto
qed


lemma contents_cong:
  "same_shape Q Q' \<Longrightarrow> read_slot Q' = read_slot Q \<Longrightarrow> uxMessagesWaiting Q' = uxMessagesWaiting Q \<Longrightarrow>
   contents Q' m = contents Q m"
  by (simp add: contents_def ring_slot_def slot_addr_def same_shape_def)

text \<open>What the copy to the back, the front, over, and the copy out do to the ring.\<close>

definition put_back :: "queue_t \<Rightarrow> queue_t" where
  "put_back Q =
     Q\<lparr>pcWriteTo := (let w = wadd (pcWriteTo Q) (uxItemSize Q) in if w \<ge> pcTail Q then pcHead Q else w),
       uxMessagesWaiting := wadd (uxMessagesWaiting Q) 1\<rparr>"

definition put_front :: "queue_t \<Rightarrow> queue_t" where
  "put_front Q =
     Q\<lparr>pcReadFrom := (let r = wsub (pcReadFrom Q) (uxItemSize Q)
          in if r < pcHead Q then wsub (pcTail Q) (uxItemSize Q) else r),
       uxMessagesWaiting := wadd (uxMessagesWaiting Q) 1\<rparr>"

definition take_front :: "queue_t \<Rightarrow> queue_t" where
  "take_front Q =
     Q\<lparr>pcReadFrom := (let r = wadd (pcReadFrom Q) (uxItemSize Q) in if r \<ge> pcTail Q then pcHead Q else r),
       uxMessagesWaiting := uxMessagesWaiting Q - 1\<rparr>"

lemma shape_slot: "same_shape Q Q' \<Longrightarrow> slot_addr Q' i = slot_addr Q i"
  "same_shape Q Q' \<Longrightarrow> ring_slot Q' m i = ring_slot Q m i"
  by (simp_all add: same_shape_def slot_addr_def ring_slot_def)

lemma put_back_ok:
  assumes ring: "ring Q" and room: "uxMessagesWaiting Q < uxLength Q" and x: "length x = uxItemSize Q"
  shows "ring (put_back Q)" and "same_shape Q (put_back Q)"
    and "uxMessagesWaiting (put_back Q) = Suc (uxMessagesWaiting Q)"
    and "contents (put_back Q) (store_bytes (pcWriteTo Q) x m) = contents Q m @ [x]"
proof -
  obtain r where r: "r < uxLength Q" "pcReadFrom Q = slot_addr Q r" "read_slot Q = r"
    "pcWriteTo Q = slot_addr Q ((r + 1 + uxMessagesWaiting Q) mod uxLength Q)" "0 < uxLength Q" "uxLength Q < w32"
    by (rule ringE [OF ring])
  let ?n = "uxMessagesWaiting Q" and ?l = "uxLength Q" and ?w = "(r + 1 + uxMessagesWaiting Q) mod uxLength Q"
  show sh: "same_shape Q (put_back Q)" by (simp add: put_back_def same_shape_def)
  show n: "uxMessagesWaiting (put_back Q) = Suc ?n" using room r(6) by (simp add: put_back_def)
  have w: "pcWriteTo (put_back Q) = slot_addr Q (Suc ?w mod ?l)"
    using advance_slot [OF ring, of ?w] r(4,5) by (simp add: put_back_def)
  have rf: "pcReadFrom (put_back Q) = slot_addr Q r" using r(2) by (simp add: put_back_def)
  show "ring (put_back Q)"
    using ring sh n room r(1,5) w rf
    unfolding ring_def shape_slot [OF sh] by (auto simp: same_shape_def mod_Suc_eq intro!: exI [of _ r])
  have rs: "read_slot (put_back Q) = r"
    using ring sh rf read_slot_eq [of "put_back Q" r] by (simp add: ring_def same_shape_def shape_slot [OF sh])
  have "ring_slot Q (store_bytes (pcWriteTo Q) x m) ((r + 1 + i) mod ?l) =
      (if i = ?n then x else ring_slot Q m ((r + 1 + i) mod ?l))" if "i \<le> ?n" for i
    using that r(4,5) x room mod_add_neq [of i ?n ?l "r + 1"]
    by (auto simp: ring_slot_store)
  then show "contents (put_back Q) (store_bytes (pcWriteTo Q) x m) = contents Q m @ [x]"
    using sh by (simp add: contents_def n rs r(3) shape_slot [OF sh] same_shape_def)
qed

lemma pred_mod:
  "r < l \<Longrightarrow> ((r + l - 1) mod l + 1 + i) mod l = (r + i) mod (l :: nat)"
proof (cases r)
  case 0
  then show "r < l \<Longrightarrow> ?thesis" using mod_add_self1 [of l i] by (cases l) simp_all
next
  case (Suc k)
  then show "r < l \<Longrightarrow> ?thesis" by simp
qed

lemma put_front_ok:
  assumes ring: "ring Q" and room: "uxMessagesWaiting Q < uxLength Q" and x: "length x = uxItemSize Q"
  shows "ring (put_front Q)" and "same_shape Q (put_front Q)"
    and "uxMessagesWaiting (put_front Q) = Suc (uxMessagesWaiting Q)"
    and "contents (put_front Q) (store_bytes (pcReadFrom Q) x m) = x # contents Q m"
proof -
  obtain r where r: "r < uxLength Q" "pcReadFrom Q = slot_addr Q r" "read_slot Q = r"
    "pcWriteTo Q = slot_addr Q ((r + 1 + uxMessagesWaiting Q) mod uxLength Q)" "0 < uxLength Q" "uxLength Q < w32"
    by (rule ringE [OF ring])
  let ?n = "uxMessagesWaiting Q" and ?l = "uxLength Q"
  define r' where "r' = (r + ?l - 1) mod ?l"
  have r': "r' < ?l" "(r' + 1 + i) mod ?l = (r + i) mod ?l" for i
    using r(5) pred_mod [OF r(1), of i] by (simp_all add: r'_def)
  show sh: "same_shape Q (put_front Q)" by (simp add: put_front_def same_shape_def)
  show n: "uxMessagesWaiting (put_front Q) = Suc ?n" using room r(6) by (simp add: put_front_def)
  have rf: "pcReadFrom (put_front Q) = slot_addr Q r'"
    using retreat_slot [OF ring r(1)] r(2) by (simp add: put_front_def r'_def)
  have w: "pcWriteTo (put_front Q) = slot_addr Q ((r + 1 + ?n) mod ?l)" using r(4) by (simp add: put_front_def)
  show "ring (put_front Q)"
    using ring sh n room r'(1) r'(2) [of "1 + ?n"] w rf
    unfolding ring_def shape_slot [OF sh] by (auto simp: same_shape_def add.assoc intro!: exI [of _ r'])
  have rs: "read_slot (put_front Q) = r'"
    using ring sh rf read_slot_eq [of "put_front Q" r'] by (simp add: ring_def same_shape_def shape_slot [OF sh])
  have s: "ring_slot Q (store_bytes (pcReadFrom Q) x m) ((r' + 1 + i) mod ?l) =
      (if i = 0 then x else ring_slot Q m ((r + 1 + (i - 1)) mod ?l))" if "i \<le> ?n" for i
  proof (cases i)
    case 0
    then show ?thesis using r x r'(2) [of 0] by (simp add: ring_slot_store)
  next
    case (Suc j)
    then have "(r + 0) mod ?l \<noteq> (r + i) mod ?l" using mod_add_neq [of 0 i ?l r] that room by simp
    then show ?thesis using Suc r x r'(2) [of i] by (simp add: ring_slot_store)
  qed
  have "contents (put_front Q) (store_bytes (pcReadFrom Q) x m) =
      map (\<lambda>i. if i = 0 then x else ring_slot Q m ((r + 1 + (i - 1)) mod ?l)) [0..<Suc ?n]"
    using sh s by (simp add: contents_def n rs shape_slot [OF sh] same_shape_def del: upt_Suc cong: map_cong)
  also have "\<dots> = x # map (\<lambda>i. ring_slot Q m ((r + 1 + i) mod ?l)) [0..<?n]"
    by (simp add: upt_conv_Cons map_Suc_upt [symmetric] del: upt_Suc map_Suc_upt)
  finally show "contents (put_front Q) (store_bytes (pcReadFrom Q) x m) = x # contents Q m"
    by (simp add: contents_def r(3))
qed

lemma take_front_ok:
  assumes ring: "ring Q" and ne: "uxMessagesWaiting Q > 0"
  shows "ring (take_front Q)" and "same_shape Q (take_front Q)"
    and "contents Q m = load_bytes (pcReadFrom (take_front Q)) (uxItemSize Q) m # contents (take_front Q) m"
proof -
  obtain r where r: "r < uxLength Q" "pcReadFrom Q = slot_addr Q r" "read_slot Q = r"
    "pcWriteTo Q = slot_addr Q ((r + 1 + uxMessagesWaiting Q) mod uxLength Q)" "0 < uxLength Q" "uxLength Q < w32"
    by (rule ringE [OF ring])
  let ?l = "uxLength Q"
  obtain k where k: "uxMessagesWaiting Q = Suc k" using ne by (cases "uxMessagesWaiting Q") auto
  show sh: "same_shape Q (take_front Q)" by (simp add: take_front_def same_shape_def)
  have n: "uxMessagesWaiting (take_front Q) = k" by (simp add: take_front_def k)
  have rf: "pcReadFrom (take_front Q) = slot_addr Q (Suc r mod ?l)"
    using advance_slot [OF ring r(1)] r(2) by (simp add: take_front_def)
  have w: "pcWriteTo (take_front Q) = slot_addr Q ((Suc r mod ?l + 1 + k) mod ?l)"
    using r(4) mod_add_left_eq [of "Suc r" ?l "1 + k"] by (simp add: take_front_def k)
  show "ring (take_front Q)"
    using ring sh n k r(5) w rf
    unfolding ring_def shape_slot [OF sh] by (auto simp: same_shape_def intro!: exI [of _ "Suc r mod ?l"])
  have rs: "read_slot (take_front Q) = Suc r mod ?l"
    using ring sh rf read_slot_eq [of "take_front Q" "Suc r mod ?l"]
    by (simp add: ring_def same_shape_def shape_slot [OF sh])
  have "contents Q m = ring_slot Q m (Suc r mod ?l) # map (\<lambda>i. ring_slot Q m ((r + 1 + Suc i) mod ?l)) [0..<k]"
    by (simp add: contents_def k r(3) upt_conv_Cons map_Suc_upt [symmetric] del: upt_Suc map_Suc_upt)
  moreover have "(Suc r mod ?l + 1 + i) mod ?l = (r + 1 + Suc i) mod ?l" for i
    using mod_add_left_eq [of "Suc r" ?l "1 + i"] by simp
  then have "map (\<lambda>i. ring_slot Q m ((r + 1 + Suc i) mod ?l)) [0..<k] = contents (take_front Q) m"
    using sh by (simp add: contents_def n rs shape_slot [OF sh] same_shape_def)
  ultimately show "contents Q m = load_bytes (pcReadFrom (take_front Q)) (uxItemSize Q) m # contents (take_front Q) m"
    by (simp add: ring_slot_def rf)
qed

end
