(* ===== verification/QueueSystem.thy ===== *)
theory QueueSystem
  imports Queue
begin

text \<open>
  The queue calls on the running task system: they keep the invariant of the task system, never
  fail an assertion, and implement a bounded queue of items, from tasks and from interrupts.
\<close>

section \<open>Queue operations and the task system\<close>

lemma heap_ok_payload [simp]: "heap_ok (h\<lparr>payload := m\<rparr>) S ts = heap_ok h S ts"
proof -
  have n: "nxt (h\<lparr>payload := m\<rparr>) = nxt h" "bsize (h\<lparr>payload := m\<rparr>) = bsize h" by (simp_all add: fun_eq_iff)
  have "chain (h\<lparr>payload := m\<rparr>) p bs E = chain h p bs E" for p bs E
    by (induction bs arbitrary: p) (auto simp: n)
  then show ?thesis by (simp add: heap_ok_def heap_layout_def heap_links_def n)
qed

text \<open>The kernel state up to the data of queues and the bytes in the heap.\<close>

definition ksame :: "'a kernel_scheme \<Rightarrow> 'a kernel_scheme \<Rightarrow> bool" where
  "ksame s s' \<longleftrightarrow>
     lists s' = lists s \<and> tcb s' = tcb s \<and> xTickCount s' = xTickCount s \<and> pxCurrentTCB s' = pxCurrentTCB s \<and>
     pxDelayedTaskList s' = pxDelayedTaskList s \<and> pxOverflowDelayedTaskList s' = pxOverflowDelayedTaskList s \<and>
     uxTopReadyPriority s' = uxTopReadyPriority s \<and> xNextTaskUnblockTime s' = xNextTaskUnblockTime s \<and>
     uxSchedulerSuspended s' = uxSchedulerSuspended s \<and> xIdleTaskHandle s' = xIdleTaskHandle s \<and>
     uxCurrentNumberOfTasks s' = uxCurrentNumberOfTasks s \<and> xSchedulerRunning s' = xSchedulerRunning s \<and>
     uxDeletedTasksWaitingCleanUp s' = uxDeletedTasksWaitingCleanUp s \<and>
     (\<exists>m. kheap s' = (kheap s)\<lparr>payload := m\<rparr>)"

lemma tinv_ksame:
  assumes inv: "tinv S E s" and f: "ksame s s'"
  shows "tinv S E s'"
proof -
  have k: "kinv s'"
    by (rule kinv_congI [OF tinv_kinv [OF inv]])
      (use f kinv_current [OF tinv_kinv [OF inv]] in \<open>simp_all add: ksame_def\<close>)
  have kt: "ktasks s' = ktasks s" "terminated s' = terminated s"
    using f by (simp_all add: ksame_def ktasks_def terminated_def)
  have "owned S E s'"
    using inv f kt by (auto simp: ksame_def tinv_def owned_def owned_by_def)
  then show ?thesis
    using inv f k kt by (simp add: tinv_def counted_def is_ready_def waiting_free_def ksame_def)
qed

lemma ksame_upd_queue [simp]: "ksame s (upd_queue q f s)"
  by (simp add: ksame_def upd_queue_def) (metis heap.surjective heap.update_convs(5))

lemma ksame_heap_store [simp]: "ksame s (heap_store d bs s)"
  by (auto simp: ksame_def heap_store_def)

lemma ksame_trans: "ksame s s' \<Longrightarrow> ksame s' s'' \<Longrightarrow> ksame s s''"
  by (auto simp: ksame_def)


section \<open>Waking waiters\<close>

text \<open>What waking the first waiter of an event list changes: lists, the yield flags, nothing else.\<close>

definition wframe :: "'a kernel_scheme \<Rightarrow> 'a kernel_scheme \<Rightarrow> bool" where
  "wframe s s' \<longleftrightarrow>
     tcb s' = tcb s \<and> xTickCount s' = xTickCount s \<and> pxCurrentTCB s' = pxCurrentTCB s \<and> kheap s' = kheap s \<and>
     uxSchedulerSuspended s' = uxSchedulerSuspended s \<and> xIdleTaskHandle s' = xIdleTaskHandle s \<and>
     uxCurrentNumberOfTasks s' = uxCurrentNumberOfTasks s \<and> xSchedulerRunning s' = xSchedulerRunning s \<and>
     kernel.more s' = kernel.more s"

lemma wframe_refl [simp]: "wframe s s"
  by (simp add: wframe_def)

lemma wframe_trans: "wframe s s' \<Longrightarrow> wframe s' s'' \<Longrightarrow> wframe s s''"
  by (simp add: wframe_def)

lemma more_queues: "kernel.more s' = kernel.more s \<Longrightarrow> queues s' = queues s"
  by (cases s; cases s') simp

lemma wframe_queues: "wframe s s' \<Longrightarrow> queues s' = queues s"
  by (rule more_queues) (simp add: wframe_def)

lemma wframe_yield [simp]: "wframe s (portYIELD s)" "wframe s (vTaskMissedYield s)" "wframe s (set_yield b s)"
  by (simp_all add: wframe_def portYIELD_def vTaskMissedYield_def set_yield_def)

lemma wframe_event_woken [simp]: "wframe s (event_woken t s)"
  by (simp add: wframe_def event_woken_def unblock_def set_yield_def)

lemma missed_yield_eq: "vTaskMissedYield s = set_yield True s"
  by (simp add: vTaskMissedYield_def set_yield_def)

text \<open>The first waiter of \<open>l\<close>, if any, is woken: it leaves \<open>l\<close> and is ready, or pending.\<close>

definition first_woken :: "klist \<Rightarrow> 'a kernel_scheme \<Rightarrow> 'a kernel_scheme \<Rightarrow> bool" where
  "first_woken l s s' \<longleftrightarrow>
     items s' l = tl (items s l) \<and> (\<forall>l'. event_list l' \<and> l' \<noteq> l \<longrightarrow> items s' l' = items s l') \<and>
     (case items s l of [] \<Rightarrow> acont (lists s') = acont (lists s)
      | i # is \<Rightarrow>
          (if uxSchedulerSuspended s = 0
           then acont (lists s') = (acont (lists s))(i := None, StateItem (owner i) := Some (Ready (uxPriority (tcb s (owner i)))))
           else acont (lists s') = (acont (lists s))(i := Some PendingReadyList)))"

lemma event_woken_items:
  assumes inv: "kinv s" and l: "event_list l" and hd: "items s l = EventItem t # is"
  shows "items (event_woken t s) l = is" and "acont (lists s) (StateItem t) \<noteq> Some l"
    and "event_list l' \<Longrightarrow> l' \<noteq> l \<Longrightarrow> items (event_woken t s) l' = items s l'"
proof -
  have c: "acont (lists s) (EventItem t) = Some l"
    using hd inv set_alist [of "lists s" "EventItem t" l] by (simp add: kinv_def kinv0_def items_def)
  then obtain m where m: "acont (lists s) (StateItem t) = Some m" "blocked_list m"
    using event_waiter [OF inv l c] by auto
  then show st: "acont (lists s) (StateItem t) \<noteq> Some l" using l by (cases l) (auto simp: blocked_list_def)
  have ne: "l \<noteq> PendingReadyList" "\<And>p. l \<noteq> Ready p" using l by (cases l; simp)+
  show "items (event_woken t s) l = is"
    using hd c st ne by (auto simp: items_def event_woken_def unblock_def)
  assume l': "event_list l'" "l' \<noteq> l"
  have "m \<noteq> l'" using m(2) l'(1) by (cases l') (auto simp: blocked_list_def)
  moreover have "l' \<noteq> PendingReadyList" "\<And>p. l' \<noteq> Ready p" using l'(1) by (cases l'; simp)+
  ultimately show "items (event_woken t s) l' = items s l'"
    using c m(1) l'(2) by (auto simp: items_def event_woken_def unblock_def)
qed

lemma remove_first:
  assumes inv: "tinv S E s" and l: "event_list l" and ne: "items s l \<noteq> []"
  obtains s' b where "xTaskRemoveFromEventList l s = Some (s', b)" and "tinv S E s'" and "wframe s s'"
    and "first_woken l s s'"
proof -
  obtain i "is" where hd: "items s l = i # is" using ne by (cases "items s l") auto
  obtain t where t: "i = EventItem t" "acont (lists s) i = Some l"
    "xTaskRemoveFromEventList l s = Some (event_woken t s, uxPriority (tcb s t) > uxPriority (tcb s (pxCurrentTCB s)))"
    using xTaskRemoveFromEventList_result [OF tinv_kinv [OF inv] l hd] by metis
  have "first_woken l s (event_woken t s)"
    using hd t event_woken_items [OF tinv_kinv [OF inv] l, of t "is"]
    by (auto simp: first_woken_def event_woken_def unblock_cont fun_eq_iff)
  then show ?thesis using that t event_woken_tinv [OF inv l] by (metis wframe_event_woken)
qed

lemma first_woken_yield [simp]:
  "first_woken l s (portYIELD s') = first_woken l s s'" "first_woken l s (set_yield b s') = first_woken l s s'"
  by (cases "alist (lists s) l"; simp add: first_woken_def items_def)+

lemma wake_first_ok:
  assumes inv: "tinv S E s" and l: "event_list l"
  obtains s' where "wake_first l portYIELD s = Some s'" and "tinv S E s'" and "wframe s s'" and "first_woken l s s'"
proof (cases "items s l = []")
  case True
  then show ?thesis using that [of s] inv by (simp add: wake_first_def first_woken_def)
next
  case False
  obtain s' b where s': "xTaskRemoveFromEventList l s = Some (s', b)" "tinv S E s'" "wframe s s'" "first_woken l s s'"
    by (rule remove_first [OF inv l False])
  let ?w = "if b then portYIELD s' else s'"
  have "wake_first l portYIELD s = Some ?w" using False s'(1) by (simp add: wake_first_def)
  moreover have "tinv S E ?w" using s'(2) portYIELD_tinv [OF s'(2)] by simp
  moreover have "wframe s ?w" using s'(3) wframe_trans [OF s'(3) wframe_yield(1)] by simp
  moreover have "first_woken l s ?w" using s'(4) by simp
  ultimately show ?thesis by (rule that)
qed

lemma wake_from_isr_ok:
  assumes inv: "tinv S E s" and l: "event_list l"
  obtains s' w where "wake_from_isr l woken s = Some (s', w)" and "tinv S E s'" and "wframe s s'" and "first_woken l s s'"
proof (cases "items s l = []")
  case True
  then show ?thesis using that [of s] inv by (simp add: wake_from_isr_def first_woken_def)
next
  case False
  obtain s' b where "xTaskRemoveFromEventList l s = Some (s', b)" "tinv S E s'" "wframe s s'" "first_woken l s s'"
    by (rule remove_first [OF inv l False])
  then show ?thesis using that False by (simp add: wake_from_isr_def)
qed

text \<open>The loops of the unlocking wake the first \<open>n\<close> waiters.\<close>

lemma unlock_loop_ok:
  assumes "tinv S E s" and l: "event_list l"
  shows "\<exists>s'. unlock_loop n l s = Some s' \<and> tinv S E s' \<and> wframe s s' \<and> items s' l = drop n (items s l) \<and>
    (\<forall>l'. event_list l' \<and> l' \<noteq> l \<longrightarrow> items s' l' = items s l')"
  using assms(1)
proof (induction n arbitrary: s)
  case (Suc n)
  show ?case
  proof (cases "items s l = []")
    case False
    obtain u b where u: "xTaskRemoveFromEventList l s = Some (u, b)" "tinv S E u" "wframe s u" "first_woken l s u"
      by (rule remove_first [OF Suc.prems l False])
    let ?u = "if b then vTaskMissedYield u else u"
    have "tinv S E ?u" using u(2) set_yield_tinv [OF u(2), of True] by (simp add: missed_yield_eq)
    then obtain s' where s': "unlock_loop n l ?u = Some s'" "tinv S E s'" "wframe ?u s'" "items s' l = drop n (items ?u l)"
      "\<forall>l'. event_list l' \<and> l' \<noteq> l \<longrightarrow> items s' l' = items ?u l'"
      using Suc.IH by blast
    have "wframe s ?u" using u(3) wframe_trans [OF u(3) wframe_yield(2)] by simp
    moreover have "items ?u l = tl (items s l)" "\<forall>l'. event_list l' \<and> l' \<noteq> l \<longrightarrow> items ?u l' = items s l'"
      using u(4) by (simp_all add: first_woken_def items_def missed_yield_eq)
    ultimately show ?thesis
      using False u(1) s' wframe_trans by (auto simp: drop_Suc)
  qed (use Suc.prems in auto)
qed simp


section \<open>A queue in the running system\<close>

text \<open>
  \<open>qsys S E q z c s\<close>: the task system invariant, and at \<open>q\<close> a queue of \<open>c\<close> items of \<open>z\<close> bytes whose
  lock counters are in the range of \<open>int8_t\<close> (with at most 127 tasks they stay there).
\<close>

definition qready :: "nat \<Rightarrow> nat \<Rightarrow> queue_t \<Rightarrow> bool" where
  "qready z c Q \<longleftrightarrow>
     uxItemSize Q = z \<and> uxLength Q = c \<and> 0 < c \<and> c < w32 \<and> 0 < pcHead Q \<and> uxMessagesWaiting Q \<le> c \<and>
     (0 < z \<longrightarrow> ring Q) \<and>
     - 1 \<le> cTxLock Q \<and> cTxLock Q \<le> 127 \<and> - 1 \<le> cRxLock Q \<and> cRxLock Q \<le> 127"

definition qsys :: "nat \<Rightarrow> nat \<Rightarrow> nat \<Rightarrow> nat \<Rightarrow> nat \<Rightarrow> 'a qkernel_scheme \<Rightarrow> bool" where
  "qsys S E q z c s \<longleftrightarrow>
     tinv S E s \<and> q \<noteq> 0 \<and> uxCurrentNumberOfTasks s \<le> 127 \<and> qready z c (queues s q)"

definition qitems :: "nat \<Rightarrow> 'a qkernel_scheme \<Rightarrow> u8 list list" where
  "qitems q s = contents (queues s q) (payload (kheap s))"

lemma length_qitems [simp]: "length (qitems q s) = uxMessagesWaiting (queues s q)"
  by (simp add: qitems_def)

lemma qsys_tinv: "qsys S E q z c s \<Longrightarrow> tinv S E s"
  by (simp add: qsys_def)

lemma qsys_wframe:
  assumes "qsys S E q z c s" and "tinv S E s'" and "wframe s s'"
  shows "qsys S E q z c s'" and "qitems q s' = qitems q s" and "queues s' = queues s"
  using assms wframe_queues [OF assms(3)] by (simp_all add: qsys_def qitems_def wframe_def)

lemma upd_queue_sel [simp]:
  "queues (upd_queue q f s) q = f (queues s q)" "kheap (upd_queue q f s) = kheap s"
  "lists (upd_queue q f s) = lists s" "items (upd_queue q f s) = items s"
  "uxSchedulerSuspended (upd_queue q f s) = uxSchedulerSuspended s"
  "uxCurrentNumberOfTasks (upd_queue q f s) = uxCurrentNumberOfTasks s"
  "xSchedulerRunning (upd_queue q f s) = xSchedulerRunning s" "pxCurrentTCB (upd_queue q f s) = pxCurrentTCB s"
  "xTickCount (upd_queue q f s) = xTickCount s" "tcb (upd_queue q f s) = tcb s"
  "xIdleTaskHandle (upd_queue q f s) = xIdleTaskHandle s"
  by (simp_all add: upd_queue_def items_def [abs_def])

lemma heap_store_sel [simp]:
  "queues (heap_store d bs s) = queues s" "lists (heap_store d bs s) = lists s" "items (heap_store d bs s) = items s"
  "payload (kheap (heap_store d bs s)) = store_bytes d bs (payload (kheap s))"
  "uxCurrentNumberOfTasks (heap_store d bs s) = uxCurrentNumberOfTasks s"
  "uxSchedulerSuspended (heap_store d bs s) = uxSchedulerSuspended s"
  "tcb (heap_store d bs s) = tcb s"
  by (simp_all add: heap_store_def items_def [abs_def])

lemma upd_queue_tinv: "tinv S E s \<Longrightarrow> tinv S E (upd_queue q f s)"
  by (erule tinv_ksame) simp

lemma heap_store_tinv: "tinv S E s \<Longrightarrow> tinv S E (heap_store d bs s)"
  by (erule tinv_ksame) simp

lemma qsys_upd:
  "qsys S E q z c s \<Longrightarrow> qready z c (f (queues s q)) \<Longrightarrow> qsys S E q z c (upd_queue q f s)"
  by (simp add: qsys_def upd_queue_tinv)

lemma qready_shape:
  "qready z c Q \<Longrightarrow> same_shape Q Q' \<Longrightarrow> uxMessagesWaiting Q' \<le> c \<Longrightarrow> (0 < z \<Longrightarrow> ring Q') \<Longrightarrow> qready z c Q'"
  by (simp add: qready_def same_shape_def)

text \<open>Copying an item in.\<close>

definition added :: "copy_position \<Rightarrow> 'i \<Rightarrow> 'i list \<Rightarrow> 'i list" where
  "added pos x xs = (if pos = queueSEND_TO_BACK then xs @ [x] else x # xs)"

lemma copy_back:
  "uxItemSize (queues s q) \<noteq> 0 \<Longrightarrow> prvCopyDataToQueue q x queueSEND_TO_BACK s =
   upd_queue q put_back (heap_store (pcWriteTo (queues s q)) x s)"
  by (simp add: prvCopyDataToQueue_def upd_queue_def put_back_def Let_def)

lemma copy_front:
  "uxItemSize (queues s q) \<noteq> 0 \<Longrightarrow> prvCopyDataToQueue q x queueSEND_TO_FRONT s =
   upd_queue q put_front (heap_store (pcReadFrom (queues s q)) x s)"
  by (simp add: prvCopyDataToQueue_def upd_queue_def put_front_def Let_def)

lemma prvCopyDataToQueue_ok:
  assumes inv: "qsys S E q z c s" and room: "uxMessagesWaiting (queues s q) < c" and x: "length x = z"
    and pos: "pos \<noteq> queueOVERWRITE"
  defines "s' \<equiv> prvCopyDataToQueue q x pos s"
  shows "qsys S E q z c s'" and "uxMessagesWaiting (queues s' q) = Suc (uxMessagesWaiting (queues s q))"
    and "0 < z \<Longrightarrow> qitems q s' = added pos x (qitems q s)" and "items s' = items s" and "lists s' = lists s"
    and "cTxLock (queues s' q) = cTxLock (queues s q)" and "uxSchedulerSuspended s' = uxSchedulerSuspended s"
proof -
  let ?Q = "queues s q"
  have Q: "qready z c ?Q" using inv by (simp add: qsys_def)
  have n: "wadd (uxMessagesWaiting ?Q) 1 = Suc (uxMessagesWaiting ?Q)" using Q room by (simp add: qready_def)
  have main: "qsys S E q z c s' \<and> uxMessagesWaiting (queues s' q) = Suc (uxMessagesWaiting ?Q) \<and>
    (0 < z \<longrightarrow> qitems q s' = added pos x (qitems q s)) \<and> items s' = items s \<and> lists s' = lists s \<and>
    cTxLock (queues s' q) = cTxLock ?Q \<and> uxSchedulerSuspended s' = uxSchedulerSuspended s"
  proof (cases "z = 0")
    case True
    then have s': "s' = upd_queue q (uxMessagesWaiting_update (\<lambda>_. Suc (uxMessagesWaiting ?Q))) s"
      using Q n by (simp add: s'_def prvCopyDataToQueue_def qready_def)
    have "qready z c (uxMessagesWaiting_update (\<lambda>_. Suc (uxMessagesWaiting ?Q)) ?Q)"
      by (rule qready_shape [OF Q]) (use room True in \<open>simp_all add: same_shape_def\<close>)
    then show ?thesis
      using qsys_upd [OF inv] True by (simp add: s')
  next
    case False
    then have ring: "ring ?Q" and z: "uxItemSize ?Q = z" and c: "uxLength ?Q = c" using Q by (simp_all add: qready_def)
    define f where "f = (if pos = queueSEND_TO_BACK then put_back else put_front)"
    define d where "d = (if pos = queueSEND_TO_BACK then pcWriteTo ?Q else pcReadFrom ?Q)"
    have s': "s' = upd_queue q f (heap_store d x s)"
      using pos z False copy_back [of s q x] copy_front [of s q x]
      by (cases pos) (simp_all add: s'_def f_def d_def)
    have fo: "ring (f ?Q)" "same_shape ?Q (f ?Q)" "uxMessagesWaiting (f ?Q) = Suc (uxMessagesWaiting ?Q)"
      "contents (f ?Q) (store_bytes d x (payload (kheap s))) = added pos x (contents ?Q (payload (kheap s)))"
      using put_back_ok [OF ring, of x] put_front_ok [OF ring, of x] room x z c
      by (simp_all add: f_def d_def added_def)
    have "qready z c (f ?Q)" by (rule qready_shape [OF Q fo(2)]) (use fo(1,3) room in simp_all)
    moreover have "qsys S E q z c (heap_store d x s)" using inv by (simp add: qsys_def heap_store_tinv)
    ultimately have "qsys S E q z c s'" using qsys_upd [of S E q z c "heap_store d x s" f] by (simp add: s')
    then show ?thesis
      using fo by (simp add: s' qitems_def same_shape_def)
  qed
  then show "qsys S E q z c s'" and "uxMessagesWaiting (queues s' q) = Suc (uxMessagesWaiting ?Q)"
    and "0 < z \<Longrightarrow> qitems q s' = added pos x (qitems q s)" and "items s' = items s" and "lists s' = lists s"
    and "cTxLock (queues s' q) = cTxLock ?Q" and "uxSchedulerSuspended s' = uxSchedulerSuspended s"
    by simp_all
qed


text \<open>The result of a successful operation on \<open>q\<close> that then wakes the first waiter of \<open>l\<close>.\<close>

definition done_and_woken ::
  "nat \<Rightarrow> nat \<Rightarrow> nat \<Rightarrow> nat \<Rightarrow> nat \<Rightarrow> klist \<Rightarrow> nat \<Rightarrow> u8 list list \<Rightarrow> 'a qkernel_scheme \<Rightarrow> 'a qkernel_scheme \<Rightarrow> bool" where
  "done_and_woken S E q z c l n xs s s' \<longleftrightarrow>
     qsys S E q z c s' \<and> uxMessagesWaiting (queues s' q) = n \<and> (0 < z \<longrightarrow> qitems q s' = xs) \<and> first_woken l s s'"

lemma first_woken_lists:
  "lists u = lists s \<Longrightarrow> tcb u = tcb s \<Longrightarrow> uxSchedulerSuspended u = uxSchedulerSuspended s \<Longrightarrow>
   first_woken l u s' = first_woken l s s'"
  by (cases "alist (lists s) l") (simp_all add: first_woken_def items_def)

lemma event_list_queue [simp]: "event_list (WaitingToSend q)" "event_list (WaitingToReceive q)"
  by simp_all

lemma prvCopyDataToQueue_tcb [simp]: "tcb (prvCopyDataToQueue q x pos s) = tcb s"
  by (simp add: prvCopyDataToQueue_def Let_def)

lemma xQueueGenericSend_try_ok:
  assumes inv: "qsys S E q z c s" and x: "length x = z" and pos: "pos \<noteq> queueOVERWRITE"
    and room: "uxMessagesWaiting (queues s q) < c"
  obtains s' where "xQueueGenericSend_try q (Some x) n pos t s = Some (s', Returned True)"
    and "done_and_woken S E q z c (WaitingToReceive q) (Suc (uxMessagesWaiting (queues s q))) (added pos x (qitems q s)) s s'"
proof -
  let ?u = "prvCopyDataToQueue q x pos s"
  note u = prvCopyDataToQueue_ok [OF inv room x pos]
  obtain s' where s': "wake_first (WaitingToReceive q) portYIELD ?u = Some s'" "tinv S E s'" "wframe ?u s'"
    "first_woken (WaitingToReceive q) ?u s'"
    by (rule wake_first_ok [OF qsys_tinv [OF u(1)] event_list_queue(2)])
  have "xQueueGenericSend_try q (Some x) n pos t s = Some (s', Returned True)"
    using inv room s'(1) by (simp add: xQueueGenericSend_try_def qsys_def qready_def bytes_of_def Let_def)
  moreover have "done_and_woken S E q z c (WaitingToReceive q) (Suc (uxMessagesWaiting (queues s q)))
      (added pos x (qitems q s)) s s'"
    using qsys_wframe [OF u(1) s'(2,3)] u(2,3) s'(4) first_woken_lists [OF u(5) _ u(7)]
    by (simp add: done_and_woken_def)
  ultimately show ?thesis by (rule that)
qed

lemma lock_update_ring [simp]:
  "ring (cTxLock_update f Q) = ring Q" "ring (cRxLock_update f Q) = ring Q"
  "contents (cTxLock_update f Q) = contents Q" "contents (cRxLock_update f Q) = contents Q"
  by (simp_all add: ring_def slot_addr_def fun_eq_iff contents_def ring_slot_def read_slot_def)

lemma lock_range:
  assumes "qsys S E q z c s" and "lock \<noteq> queueUNLOCKED" and "- 1 \<le> lock" and "lock \<le> 127"
    and "(word_of_int lock :: u32) < uxCurrentNumberOfTasks s"
  shows "lock \<noteq> queueINT8_MAX" and "lock + 1 \<le> 127"
proof -
  have "0 \<le> lock" using assms(2,3) by (simp add: queueUNLOCKED_def)
  then have l: "unat (word_of_int lock :: u32) = nat lock"
    using assms(4) by (simp add: unat_eq_nat_uint uint_word_of_int)
  have "unat (uxCurrentNumberOfTasks s) \<le> 127"
    using assms(1) by (simp add: qsys_def word_le_nat_alt)
  then have "nat lock < 127" using assms(5) l by (simp add: word_less_nat_alt)
  then show "lock \<noteq> queueINT8_MAX" and "lock + 1 \<le> 127" by (simp_all add: queueINT8_MAX_def)
qed

lemma tx_lock_ok:
  assumes inv: "qsys S E q z c s" and l: "cTxLock (queues s q) \<noteq> queueUNLOCKED"
  obtains Q where "prvIncrementQueueTxLock q (cTxLock (queues s q)) s = Some (upd_queue q (\<lambda>_. Q) s)"
    and "qsys S E q z c (upd_queue q (\<lambda>_. Q) s)" and "uxMessagesWaiting Q = uxMessagesWaiting (queues s q)"
    and "\<And>m. contents Q m = contents (queues s q) m" and "cTxLock (queues s q) \<le> cTxLock Q"
proof (cases "(word_of_int (cTxLock (queues s q)) :: u32) < uxCurrentNumberOfTasks s")
  case True
  let ?Q = "queues s q"
  let ?Q' = "cTxLock_update (\<lambda>_. cTxLock ?Q + 1) ?Q"
  have Q: "qready z c ?Q" using inv by (simp add: qsys_def)
  note r = lock_range [OF inv l _ _ True]
  have r1: "cTxLock ?Q \<noteq> queueINT8_MAX" "cTxLock ?Q + 1 \<le> 127" using r Q by (simp_all add: qready_def)
  have "prvIncrementQueueTxLock q (cTxLock ?Q) s = Some (upd_queue q (\<lambda>_. ?Q') s)"
    using True r1 by (simp add: prvIncrementQueueTxLock_def uxTaskGetNumberOfTasks_def configASSERT_def upd_queue_def)
  moreover have "qready z c ?Q'" using Q r1 by (simp add: qready_def)
  then have "qsys S E q z c (upd_queue q (\<lambda>_. ?Q') s)" using qsys_upd [OF inv, of "\<lambda>_. ?Q'"] by simp
  ultimately show ?thesis by (rule that) simp_all
next
  case False
  have e: "upd_queue q (\<lambda>_. queues s q) s = s" by (simp add: upd_queue_def)
  show ?thesis
    by (rule that [of "queues s q"])
      (use False inv in \<open>simp_all add: e prvIncrementQueueTxLock_def uxTaskGetNumberOfTasks_def\<close>)
qed

lemma rx_lock_ok:
  assumes inv: "qsys S E q z c s" and l: "cRxLock (queues s q) \<noteq> queueUNLOCKED"
  obtains Q where "prvIncrementQueueRxLock q (cRxLock (queues s q)) s = Some (upd_queue q (\<lambda>_. Q) s)"
    and "qsys S E q z c (upd_queue q (\<lambda>_. Q) s)" and "uxMessagesWaiting Q = uxMessagesWaiting (queues s q)"
    and "\<And>m. contents Q m = contents (queues s q) m"
proof (cases "(word_of_int (cRxLock (queues s q)) :: u32) < uxCurrentNumberOfTasks s")
  case True
  let ?Q = "queues s q"
  let ?Q' = "cRxLock_update (\<lambda>_. cRxLock ?Q + 1) ?Q"
  have Q: "qready z c ?Q" using inv by (simp add: qsys_def)
  note r = lock_range [OF inv l _ _ True]
  have r1: "cRxLock ?Q \<noteq> queueINT8_MAX" "cRxLock ?Q + 1 \<le> 127" using r Q by (simp_all add: qready_def)
  have "prvIncrementQueueRxLock q (cRxLock ?Q) s = Some (upd_queue q (\<lambda>_. ?Q') s)"
    using True r1 by (simp add: prvIncrementQueueRxLock_def uxTaskGetNumberOfTasks_def configASSERT_def upd_queue_def)
  moreover have "qready z c ?Q'" using Q r1 by (simp add: qready_def)
  then have "qsys S E q z c (upd_queue q (\<lambda>_. ?Q') s)" using qsys_upd [OF inv, of "\<lambda>_. ?Q'"] by simp
  ultimately show ?thesis by (rule that) simp_all
next
  case False
  have e: "upd_queue q (\<lambda>_. queues s q) s = s" by (simp add: upd_queue_def)
  show ?thesis
    by (rule that [of "queues s q"])
      (use False inv in \<open>simp_all add: e prvIncrementQueueRxLock_def uxTaskGetNumberOfTasks_def\<close>)
qed

text \<open>What an interrupt does after its item: it wakes a waiter, or counts the item on a locked queue.\<close>

lemma isr_wake_ok:
  assumes inv: "qsys S E q z c s"
  obtains s' w where "(if cTxLock (queues s q) = queueUNLOCKED then wake_from_isr (WaitingToReceive q) woken s
      else do { s \<leftarrow> prvIncrementQueueTxLock q (cTxLock (queues s q)) s; Some (s, woken) }) = Some (s', w)"
    and "qsys S E q z c s'" and "uxMessagesWaiting (queues s' q) = uxMessagesWaiting (queues s q)"
    and "qitems q s' = qitems q s"
    and "if cTxLock (queues s q) = queueUNLOCKED then first_woken (WaitingToReceive q) s s' else lists s' = lists s"
proof (cases "cTxLock (queues s q) = queueUNLOCKED")
  case True
  obtain s' w where "wake_from_isr (WaitingToReceive q) woken s = Some (s', w)" "tinv S E s'" "wframe s s'"
    "first_woken (WaitingToReceive q) s s'"
    by (rule wake_from_isr_ok [OF qsys_tinv [OF inv] event_list_queue(2)])
  then show ?thesis using that [of s' w] True qsys_wframe [OF inv, of s'] by simp
next
  case False
  obtain Q where "prvIncrementQueueTxLock q (cTxLock (queues s q)) s = Some (upd_queue q (\<lambda>_. Q) s)"
    "qsys S E q z c (upd_queue q (\<lambda>_. Q) s)" "uxMessagesWaiting Q = uxMessagesWaiting (queues s q)"
    "\<And>m. contents Q m = contents (queues s q) m"
    using tx_lock_ok [OF inv False] by blast
  then show ?thesis using that [of "upd_queue q (\<lambda>_. Q) s" woken] False by (simp add: qitems_def)
qed

lemma isr_room_ok:
  assumes inv: "qsys S E q z c s"
  obtains s' w where "(if cRxLock (queues s q) = queueUNLOCKED then wake_from_isr (WaitingToSend q) woken s
      else do { s \<leftarrow> prvIncrementQueueRxLock q (cRxLock (queues s q)) s; Some (s, woken) }) = Some (s', w)"
    and "qsys S E q z c s'" and "uxMessagesWaiting (queues s' q) = uxMessagesWaiting (queues s q)"
    and "qitems q s' = qitems q s"
proof (cases "cRxLock (queues s q) = queueUNLOCKED")
  case True
  obtain s' w where "wake_from_isr (WaitingToSend q) woken s = Some (s', w)" "tinv S E s'" "wframe s s'"
    by (rule wake_from_isr_ok [OF qsys_tinv [OF inv] event_list_queue(1)])
  then show ?thesis using that [of s' w] True qsys_wframe [OF inv, of s'] by simp
next
  case False
  obtain Q where "prvIncrementQueueRxLock q (cRxLock (queues s q)) s = Some (upd_queue q (\<lambda>_. Q) s)"
    "qsys S E q z c (upd_queue q (\<lambda>_. Q) s)" "uxMessagesWaiting Q = uxMessagesWaiting (queues s q)"
    "\<And>m. contents Q m = contents (queues s q) m"
    using rx_lock_ok [OF inv False] by blast
  then show ?thesis using that [of "upd_queue q (\<lambda>_. Q) s" woken] False by (simp add: qitems_def)
qed


lemma xQueueGenericSendFromISR_ok:
  assumes inv: "qsys S E q z c s" and x: "length x = z" and pos: "pos \<noteq> queueOVERWRITE"
  shows "\<exists>s' w. xQueueGenericSendFromISR q (Some x) woken pos s =
      Some (s', uxMessagesWaiting (queues s q) < c, w) \<and> qsys S E q z c s' \<and>
    uxMessagesWaiting (queues s' q) =
      (if uxMessagesWaiting (queues s q) < c then Suc (uxMessagesWaiting (queues s q)) else uxMessagesWaiting (queues s q)) \<and>
    (0 < z \<longrightarrow> qitems q s' =
      (if uxMessagesWaiting (queues s q) < c then added pos x (qitems q s) else qitems q s))"
proof (cases "uxMessagesWaiting (queues s q) < c")
  case True
  let ?u = "prvCopyDataToQueue q x pos s"
  note u = prvCopyDataToQueue_ok [OF inv True x pos]
  obtain s' w where s': "(if cTxLock (queues ?u q) = queueUNLOCKED then wake_from_isr (WaitingToReceive q) woken ?u
      else do { s \<leftarrow> prvIncrementQueueTxLock q (cTxLock (queues ?u q)) ?u; Some (s, woken) }) = Some (s', w)"
    "qsys S E q z c s'" "uxMessagesWaiting (queues s' q) = uxMessagesWaiting (queues ?u q)" "qitems q s' = qitems q ?u"
    by (rule isr_wake_ok [OF u(1)])
  have "xQueueGenericSendFromISR q (Some x) woken pos s = Some (s', True, w)"
    using inv True pos s'(1) u(6)
    by (cases "cTxLock (queues s q) = queueUNLOCKED")
      (auto simp: xQueueGenericSendFromISR_def configASSERT_def buffer_ok_def bytes_of_def qsys_def qready_def Let_def
        split: bind_splits)
  then show ?thesis using True s' u by simp
next
  case False
  then have "xQueueGenericSendFromISR q (Some x) woken pos s = Some (s, False, woken)"
    using inv pos by (simp add: xQueueGenericSendFromISR_def configASSERT_def buffer_ok_def qsys_def qready_def)
  then show ?thesis using False inv by simp
qed

lemma copy_out:
  "uxItemSize (queues s q) \<noteq> 0 \<Longrightarrow>
   (case prvCopyDataFromQueue q s of (s', x) \<Rightarrow> (upd_queue q (uxMessagesWaiting_update (\<lambda>_. uxMessagesWaiting (queues s q) - 1)) s', x)) =
   (upd_queue q take_front s, load_bytes (pcReadFrom (take_front (queues s q))) (uxItemSize (queues s q)) (payload (kheap s)))"
  by (simp add: prvCopyDataFromQueue_def upd_queue_def take_front_def Let_def)

text \<open>Taking an item out: the state, and what the caller's buffer receives.\<close>

definition taken :: "nat \<Rightarrow> 'a qkernel_scheme \<Rightarrow> 'a qkernel_scheme \<times> u8 list" where
  "taken q s =
     (case prvCopyDataFromQueue q s of (s', x) \<Rightarrow>
        (upd_queue q (uxMessagesWaiting_update (\<lambda>_. uxMessagesWaiting (queues s q) - 1)) s', x))"

lemma taken_ok:
  assumes inv: "qsys S E q z c s" and ne: "uxMessagesWaiting (queues s q) > 0"
  obtains u x where "taken q s = (u, x)" and "qsys S E q z c u"
    and "uxMessagesWaiting (queues u q) = uxMessagesWaiting (queues s q) - 1"
    and "0 < z \<Longrightarrow> qitems q s = x # qitems q u" and "z = 0 \<Longrightarrow> x = []" and "lists u = lists s" and "tcb u = tcb s"
    and "uxSchedulerSuspended u = uxSchedulerSuspended s" and "cRxLock (queues u q) = cRxLock (queues s q)"
proof (cases "z = 0")
  case True
  let ?u = "upd_queue q (uxMessagesWaiting_update (\<lambda>_. uxMessagesWaiting (queues s q) - 1)) s"
  have Q: "qready z c (queues s q)" using inv by (simp add: qsys_def)
  then have "taken q s = (?u, [])" using True by (simp add: taken_def prvCopyDataFromQueue_def qready_def)
  moreover have "qready z c (uxMessagesWaiting_update (\<lambda>_. uxMessagesWaiting (queues s q) - 1) (queues s q))"
    by (rule qready_shape [OF Q]) (use Q True in \<open>auto simp: same_shape_def qready_def\<close>)
  ultimately show ?thesis using that [of ?u "[]"] qsys_upd [OF inv] True by simp
next
  case False
  have Q: "qready z c (queues s q)" using inv by (simp add: qsys_def)
  then have r: "ring (queues s q)" "uxItemSize (queues s q) = z" using False by (simp_all add: qready_def)
  note t = take_front_ok [OF r(1) ne]
  have "qready z c (take_front (queues s q))"
    by (rule qready_shape [OF Q t(2) _ t(1)]) (use Q in \<open>auto simp: take_front_def qready_def\<close>)
  then have "qsys S E q z c (upd_queue q take_front s)" by (rule qsys_upd [OF inv])
  moreover have "taken q s = (upd_queue q take_front s,
      load_bytes (pcReadFrom (take_front (queues s q))) z (payload (kheap s)))"
    using copy_out [of s q] r(2) False by (simp add: taken_def)
  ultimately show ?thesis
    using that t(2) t(3) [of "payload (kheap s)"] r(2) False
    by (simp add: qitems_def same_shape_def take_front_def)
qed

lemma xQueueReceive_try_taken:
  assumes "uxMessagesWaiting (queues s q) > 0" and "taken q s = (u, x)"
  shows "xQueueReceive_try q n t s =
    (case wake_first (WaitingToSend q) portYIELD u of None \<Rightarrow> None | Some s' \<Rightarrow> Some (s', Returned True, x))"
  using assms by (auto simp: xQueueReceive_try_def taken_def Let_def split: prod.splits option.splits)

lemma xQueueReceive_try_ok:
  assumes inv: "qsys S E q z c s" and ne: "uxMessagesWaiting (queues s q) > 0"
  obtains s' x where "xQueueReceive_try q n t s = Some (s', Returned True, x)"
    and "done_and_woken S E q z c (WaitingToSend q) (uxMessagesWaiting (queues s q) - 1) (tl (qitems q s)) s s'"
    and "0 < z \<Longrightarrow> x = hd (qitems q s)"
proof -
  obtain u x where u: "taken q s = (u, x)" "qsys S E q z c u"
    "uxMessagesWaiting (queues u q) = uxMessagesWaiting (queues s q) - 1"
    "0 < z \<Longrightarrow> qitems q s = x # qitems q u" "lists u = lists s" "tcb u = tcb s"
    "uxSchedulerSuspended u = uxSchedulerSuspended s"
    using taken_ok [OF inv ne] by metis
  obtain s' where s': "wake_first (WaitingToSend q) portYIELD u = Some s'" "tinv S E s'" "wframe u s'"
    "first_woken (WaitingToSend q) u s'"
    by (rule wake_first_ok [OF qsys_tinv [OF u(2)] event_list_queue(1)])
  have "xQueueReceive_try q n t s = Some (s', Returned True, x)"
    using xQueueReceive_try_taken [OF ne u(1)] s'(1) by simp
  moreover have "done_and_woken S E q z c (WaitingToSend q) (uxMessagesWaiting (queues s q) - 1) (tl (qitems q s)) s s'"
    using qsys_wframe [OF u(2) s'(2,3)] u(3,4) s'(4) first_woken_lists [OF u(5,6,7)]
    by (simp add: done_and_woken_def)
  ultimately show ?thesis using that u(4) by simp
qed

lemma xQueueReceiveFromISR_ok:
  assumes inv: "qsys S E q z c s"
  shows "\<exists>s' x w. xQueueReceiveFromISR q False woken s =
      Some (s', 0 < uxMessagesWaiting (queues s q), x, w) \<and> qsys S E q z c s' \<and>
    uxMessagesWaiting (queues s' q) = uxMessagesWaiting (queues s q) - 1 \<and>
    (0 < z \<and> 0 < uxMessagesWaiting (queues s q) \<longrightarrow> qitems q s = x # qitems q s') \<and>
    (uxMessagesWaiting (queues s q) = 0 \<longrightarrow> s' = s)"
proof (cases "uxMessagesWaiting (queues s q) > 0")
  case True
  obtain u x where u: "taken q s = (u, x)" "qsys S E q z c u"
    "uxMessagesWaiting (queues u q) = uxMessagesWaiting (queues s q) - 1"
    "0 < z \<Longrightarrow> qitems q s = x # qitems q u" "cRxLock (queues u q) = cRxLock (queues s q)"
    using taken_ok [OF inv True] by metis
  obtain s' w where s': "(if cRxLock (queues u q) = queueUNLOCKED then wake_from_isr (WaitingToSend q) woken u
      else do { s \<leftarrow> prvIncrementQueueRxLock q (cRxLock (queues u q)) u; Some (s, woken) }) = Some (s', w)"
    "qsys S E q z c s'" "uxMessagesWaiting (queues s' q) = uxMessagesWaiting (queues u q)" "qitems q s' = qitems q u"
    by (rule isr_room_ok [OF u(2)])
  have "xQueueReceiveFromISR q False woken s = Some (s', True, x, w)"
    using inv True s'(1) u(1,5)
    by (cases "cRxLock (queues s q) = queueUNLOCKED")
      (auto simp: xQueueReceiveFromISR_def configASSERT_def qsys_def taken_def Let_def split: prod.splits bind_splits)
  then show ?thesis using True s' u by simp
next
  case False
  then have "xQueueReceiveFromISR q False woken s = Some (s, False, [], woken)"
    using inv by (simp add: xQueueReceiveFromISR_def configASSERT_def qsys_def)
  then show ?thesis using False inv by simp
qed

text \<open>Peeking leaves the queue as it is.\<close>

lemma peek_back:
  "upd_queue q (pcReadFrom_update (\<lambda>_. pcReadFrom (queues s q))) (fst (prvCopyDataFromQueue q s)) = s"
  by (simp add: prvCopyDataFromQueue_def upd_queue_def Let_def fun_upd_idem)

lemma peek_item:
  assumes "qsys S E q z c s" and "0 < z" and "uxMessagesWaiting (queues s q) > 0"
  shows "snd (prvCopyDataFromQueue q s) = hd (qitems q s)"
proof -
  have "snd (taken q s) = snd (prvCopyDataFromQueue q s)" by (simp add: taken_def case_prod_unfold)
  then show ?thesis using taken_ok [OF assms(1,3)] assms(2) by (metis list.sel(1) snd_conv)
qed

lemma xQueuePeek_try_ok:
  assumes inv: "qsys S E q z c s" and ne: "uxMessagesWaiting (queues s q) > 0" and z: "0 < z"
  obtains s' where "xQueuePeek_try q n t s = Some (s', Returned True, hd (qitems q s))"
    and "done_and_woken S E q z c (WaitingToReceive q) (uxMessagesWaiting (queues s q)) (qitems q s) s s'"
proof -
  obtain s' where s': "wake_first (WaitingToReceive q) portYIELD s = Some s'" "tinv S E s'" "wframe s s'"
    "first_woken (WaitingToReceive q) s s'"
    by (rule wake_first_ok [OF qsys_tinv [OF inv] event_list_queue(2)])
  have "xQueuePeek_try q n t s = Some (s', Returned True, hd (qitems q s))"
    using ne s'(1) peek_back [of q s] peek_item [OF inv z ne]
    by (simp add: xQueuePeek_try_def case_prod_unfold Let_def)
  moreover have "done_and_woken S E q z c (WaitingToReceive q) (uxMessagesWaiting (queues s q)) (qitems q s) s s'"
    using qsys_wframe [OF inv s'(2,3)] s'(4) by (simp add: done_and_woken_def)
  ultimately show ?thesis by (rule that)
qed


section \<open>Locking and blocking\<close>

lemma qsys_sframe:
  assumes "qsys S E q z c s" and "tinv S E s'" and "sframe s s'"
  shows "qsys S E q z c s'" and "qitems q s' = qitems q s" and "queues s' = queues s"
proof -
  have "queues s' = queues s" using assms(3) by (intro more_queues) (simp add: sframe_def)
  then show "qsys S E q z c s'" and "qitems q s' = qitems q s" and "queues s' = queues s"
    using assms by (simp_all add: qsys_def qitems_def sframe_def)
qed

text \<open>
  Unlocking: every item that arrived meanwhile wakes one waiting receiver, every item that left
  one waiting sender, as long as there are any, and the queue is open to interrupts again.
\<close>

lemma prvUnlockQueue_ok:
  assumes inv: "qsys S E q z c s"
  obtains s' where "prvUnlockQueue q s = Some s'" and "qsys S E q z c s'" and "qitems q s' = qitems q s"
    and "uxMessagesWaiting (queues s' q) = uxMessagesWaiting (queues s q)"
    and "uxSchedulerSuspended s' = uxSchedulerSuspended s"
    and "items s' (WaitingToReceive q) = drop (nat (cTxLock (queues s q))) (items s (WaitingToReceive q))"
    and "items s' (WaitingToSend q) = drop (nat (cRxLock (queues s q))) (items s (WaitingToSend q))"
    and "cTxLock (queues s' q) = queueUNLOCKED" and "cRxLock (queues s' q) = queueUNLOCKED"
proof -
  have qu: "qready z c (cTxLock_update (\<lambda>_. queueUNLOCKED) Q)" "qready z c (cRxLock_update (\<lambda>_. queueUNLOCKED) Q)"
    if "qready z c Q" for Q
    using that by (simp_all add: qready_def queueUNLOCKED_def)
  obtain u where u: "unlock_loop (nat (cTxLock (queues s q))) (WaitingToReceive q) s = Some u" "tinv S E u" "wframe s u"
    "items u (WaitingToReceive q) = drop (nat (cTxLock (queues s q))) (items s (WaitingToReceive q))"
    "\<forall>l'. event_list l' \<and> l' \<noteq> WaitingToReceive q \<longrightarrow> items u l' = items s l'"
    using unlock_loop_ok [OF qsys_tinv [OF inv] event_list_queue(2)] by blast
  note uq = qsys_wframe [OF inv u(2,3)]
  let ?v = "upd_queue q (cTxLock_update (\<lambda>_. queueUNLOCKED)) u"
  have v: "qsys S E q z c ?v" by (rule qsys_upd [OF uq(1)]) (use uq(1) qu in \<open>simp add: qsys_def\<close>)
  obtain w where w: "unlock_loop (nat (cRxLock (queues ?v q))) (WaitingToSend q) ?v = Some w" "tinv S E w" "wframe ?v w"
    "items w (WaitingToSend q) = drop (nat (cRxLock (queues ?v q))) (items ?v (WaitingToSend q))"
    "\<forall>l'. event_list l' \<and> l' \<noteq> WaitingToSend q \<longrightarrow> items w l' = items ?v l'"
    using unlock_loop_ok [OF qsys_tinv [OF v] event_list_queue(1)] by blast
  note wq = qsys_wframe [OF v w(2,3)]
  let ?s' = "upd_queue q (cRxLock_update (\<lambda>_. queueUNLOCKED)) w"
  have r: "prvUnlockQueue q s = Some ?s'" using u(1) w(1) by (simp add: prvUnlockQueue_def Let_def)
  have s': "qsys S E q z c ?s'" by (rule qsys_upd [OF wq(1)]) (use wq(1) qu in \<open>simp add: qsys_def\<close>)
  have "qitems q ?s' = qitems q s" using wq uq by (simp add: qitems_def)
  moreover have "uxMessagesWaiting (queues ?s' q) = uxMessagesWaiting (queues s q)" using wq uq by simp
  moreover have "uxSchedulerSuspended ?s' = uxSchedulerSuspended s" using u(3) w(3) by (simp add: wframe_def)
  moreover have "items ?s' (WaitingToReceive q) = drop (nat (cTxLock (queues s q))) (items s (WaitingToReceive q))"
    using u(4) w(5) by simp
  moreover have "items ?s' (WaitingToSend q) = drop (nat (cRxLock (queues s q))) (items s (WaitingToSend q))"
    using u(5) w(4) uq(3) by simp
  moreover have "cTxLock (queues ?s' q) = queueUNLOCKED" using wq(3) by simp
  ultimately show ?thesis using that r s' by simp
qed

lemma prvLockQueue_ok:
  assumes inv: "qsys S E q z c s"
  shows "qsys S E q z c (prvLockQueue q s)" and "qitems q (prvLockQueue q s) = qitems q s"
    and "uxMessagesWaiting (queues (prvLockQueue q s) q) = uxMessagesWaiting (queues s q)"
proof -
  let ?f = "\<lambda>Q. Q\<lparr>cRxLock := if cRxLock Q = queueUNLOCKED then queueLOCKED_UNMODIFIED else cRxLock Q,
    cTxLock := if cTxLock Q = queueUNLOCKED then queueLOCKED_UNMODIFIED else cTxLock Q\<rparr>"
  have "qready z c (?f (queues s q))"
    using inv by (simp add: qsys_def qready_def queueLOCKED_UNMODIFIED_def)
  then show "qsys S E q z c (prvLockQueue q s)" unfolding prvLockQueue_def by (rule qsys_upd [OF inv])
  show "qitems q (prvLockQueue q s) = qitems q s"
    and "uxMessagesWaiting (queues (prvLockQueue q s) q) = uxMessagesWaiting (queues s q)"
    by (simp_all add: prvLockQueue_def qitems_def)
qed

lemma check_positive:
  "xTaskCheckForTimeOut t n s = (False, t', n') \<Longrightarrow> n' > 0"
  by (auto simp: xTaskCheckForTimeOut_def Let_def word_gt_0 portMAX_DELAY_def split: if_splits)

lemma qsys_suspend:
  assumes "qsys S E q z c s" and "uxSchedulerSuspended s = 0"
  shows "qsys S E q z c (vTaskSuspendAll s)" and "qitems q (vTaskSuspendAll s) = qitems q s"
    and "queues (vTaskSuspendAll s) = queues s"
  using qsys_sframe [OF assms(1) suspend_all_tinv [OF qsys_tinv [OF assms(1)]] sframe_fields(6)] assms(2) by simp_all

lemma qsys_yield:
  "qsys S E q z c s \<Longrightarrow> qsys S E q z c (portYIELD s)" "qsys S E q z c s \<Longrightarrow> qitems q (portYIELD s) = qitems q s"
  using qsys_sframe [OF _ portYIELD_tinv [OF qsys_tinv] sframe_fields(3)] by blast+

text \<open>Unlocking and resuming the scheduler.\<close>

lemma unlock_resume_ok:
  assumes inv: "qsys S E q z c s" and susp: "uxSchedulerSuspended s \<noteq> 0"
  obtains s1 s' b where "prvUnlockQueue q s = Some s1" and "xTaskResumeAll s1 = Some (s', b)" and "qsys S E q z c s'"
    and "qitems q s' = qitems q s" and "uxMessagesWaiting (queues s' q) = uxMessagesWaiting (queues s q)"
proof -
  obtain s1 where s1: "prvUnlockQueue q s = Some s1" "qsys S E q z c s1" "qitems q s1 = qitems q s"
    "uxMessagesWaiting (queues s1 q) = uxMessagesWaiting (queues s q)"
    "uxSchedulerSuspended s1 = uxSchedulerSuspended s"
    using prvUnlockQueue_ok [OF inv] by metis
  obtain s' b where s': "xTaskResumeAll s1 = Some (s', b)" "tinv S E s'" "sframe s1 s'"
    by (rule resume_tinv [OF qsys_tinv [OF s1(2)]]) (use s1(5) susp in auto)
  show ?thesis
    by (rule that [OF s1(1) s'(1)]) (use qsys_sframe [OF s1(2) s'(2,3)] s1 in simp_all)
qed

lemma queue_block_ok:
  assumes inv: "qsys S E q z c s" and block: "may_block s" and w: "not_waiting s (pxCurrentTCB s)"
    and l: "event_list l"
  obtains s' r n' where "queue_block busy l q t n s = Some (s', r, n')" and "qsys S E q z c s'"
    and "qitems q s' = qitems q s" and "uxMessagesWaiting (queues s' q) = uxMessagesWaiting (queues s q)"
proof -
  have run: "running s" and susp: "uxSchedulerSuspended s = 0" and cur: "pxCurrentTCB s \<noteq> xIdleTaskHandle s"
    using block by (simp_all add: may_block_def)
  let ?l = "prvLockQueue q (vTaskSuspendAll s)"
  note sp = qsys_suspend [OF inv susp] and lk = prvLockQueue_ok [OF qsys_suspend(1) [OF inv susp]]
  have lf: "lists ?l = lists s" "pxCurrentTCB ?l = pxCurrentTCB s" "tcb ?l = tcb s"
    "xIdleTaskHandle ?l = xIdleTaskHandle s" "xSchedulerRunning ?l = xSchedulerRunning s"
    "uxSchedulerSuspended ?l = 1"
    by (simp_all add: prvLockQueue_def susp) (simp add: vTaskSuspendAll_def)
  obtain ex t' n' where chk: "xTaskCheckForTimeOut t n ?l = (ex, t', n')" by (metis prod.exhaust)
  obtain u s' b where u: "prvUnlockQueue q ?l = Some u" "xTaskResumeAll u = Some (s', b)" "qsys S E q z c s'"
    "qitems q s' = qitems q ?l" "uxMessagesWaiting (queues s' q) = uxMessagesWaiting (queues ?l q)"
    by (rule unlock_resume_ok [OF lk(1)]) (simp add: lf)
  show ?thesis
  proof (cases "ex \<or> \<not> busy q ?l")
    case True
    then show ?thesis
      using that [of s' "if ex then Returned False else Waits t'" n'] u chk lk sp
      by (auto simp: queue_block_def Let_def)
  next
    case False
    have n': "n' > 0" using check_positive False chk by auto
    have free: "acont (lists ?l) (EventItem (pxCurrentTCB ?l)) = None"
      using current_free [OF qsys_tinv [OF inv] run susp] by (simp add: lf)
    have rl: "running ?l" using run by (simp add: running_def is_ready_def lf)
    have c': "pxCurrentTCB ?l \<noteq> xIdleTaskHandle ?l" "not_waiting ?l (pxCurrentTCB ?l)"
      using cur w by (simp_all add: lf not_waiting_def)
    obtain p where p: "vTaskPlaceOnEventList l n' ?l = Some p" "tinv S E p" "blocked n' True (Some l) ?l p"
      by (rule vTaskPlaceOnEventList_ok [OF qsys_tinv [OF lk(1)] rl c'(1) l n' free c'(2)])
    then obtain a y where pa: "p = ?l\<lparr>lists := a, xNextTaskUnblockTime := y\<rparr>" by (auto simp: blocked_def)
    have qp: "qsys S E q z c p" using lk(1) p(2) by (simp add: qsys_def pa)
    have sp': "uxSchedulerSuspended p \<noteq> 0" by (simp add: pa lf)
    obtain v w b' where v: "prvUnlockQueue q p = Some v" "xTaskResumeAll v = Some (w, b')" "qsys S E q z c w"
      "qitems q w = qitems q p" "uxMessagesWaiting (queues w q) = uxMessagesWaiting (queues p q)"
      by (rule unlock_resume_ok [OF qp sp'])
    let ?w = "if \<not> b' then portYIELD w else w"
    have "queue_block busy l q t n s = Some (?w, Waits t', n')"
      using False chk p(1) v(1,2) by (simp add: queue_block_def Let_def)
    moreover have "qsys S E q z c ?w" using qsys_yield(1) [OF v(3)] v(3) by simp
    moreover have "qitems q ?w = qitems q s"
      using qsys_yield(2) [OF v(3)] v(4) lk(2) sp(2) by (simp add: pa qitems_def)
    moreover have "uxMessagesWaiting (queues ?w q) = uxMessagesWaiting (queues s q)"
      using v(5) lk(3) sp(3) by (simp add: pa portYIELD_def)
    ultimately show ?thesis by (rule that)
  qed
qed

end
