(* ===== verification/QueueSpec.thy ===== *)
theory QueueSpec
  imports QueueSystem
begin

text \<open>
  What a queue promises: the contract \<open>bounded_queue\<close>, which the calls of tasks and of interrupts
  on the model both satisfy, the properties of the queue calls, creation, and the queue as part
  of the running system.
\<close>

section \<open>The contract of a bounded queue\<close>

text \<open>
  Requests come from an origin (a task or an interrupt).  A send succeeds exactly while there is
  room and adds its item at the back or at the front; a receive returns the first item, if any.
\<close>

datatype ('o, 'i) request = Send 'o 'i | SendFront 'o 'i | Receive 'o

datatype 'i reply = Sent bool | Got "'i option"

fun run_requests ::
  "('o \<Rightarrow> 'i \<Rightarrow> 's \<Rightarrow> ('s \<times> bool) option) \<Rightarrow> ('o \<Rightarrow> 'i \<Rightarrow> 's \<Rightarrow> ('s \<times> bool) option) \<Rightarrow>
   ('o \<Rightarrow> 's \<Rightarrow> ('s \<times> 'i option) option) \<Rightarrow> ('o, 'i) request list \<Rightarrow> 's \<Rightarrow> ('s \<times> 'i reply list) option" where
  "run_requests snd_back snd_front rcv [] s = Some (s, [])"
| "run_requests snd_back snd_front rcv (Send p x # rs) s =
     do { (s, b) \<leftarrow> snd_back p x s; (s, ys) \<leftarrow> run_requests snd_back snd_front rcv rs s; Some (s, Sent b # ys) }"
| "run_requests snd_back snd_front rcv (SendFront p x # rs) s =
     do { (s, b) \<leftarrow> snd_front p x s; (s, ys) \<leftarrow> run_requests snd_back snd_front rcv rs s; Some (s, Sent b # ys) }"
| "run_requests snd_back snd_front rcv (Receive p # rs) s =
     do { (s, y) \<leftarrow> rcv p s; (s, ys) \<leftarrow> run_requests snd_back snd_front rcv rs s; Some (s, Got y # ys) }"

text \<open>The abstract queue: a list of at most \<open>cap\<close> items.\<close>

fun list_requests :: "nat \<Rightarrow> ('o, 'i) request list \<Rightarrow> 'i list \<Rightarrow> 'i list \<times> 'i reply list" where
  "list_requests cap [] xs = (xs, [])"
| "list_requests cap (Send p x # rs) xs =
     (let b = length xs < cap; (zs, ys) = list_requests cap rs (if b then xs @ [x] else xs) in (zs, Sent b # ys))"
| "list_requests cap (SendFront p x # rs) xs =
     (let b = length xs < cap; (zs, ys) = list_requests cap rs (if b then x # xs else xs) in (zs, Sent b # ys))"
| "list_requests cap (Receive p # rs) xs =
     (let (zs, ys) = list_requests cap rs (tl xs)
      in (zs, Got (case xs of [] \<Rightarrow> None | x # _ \<Rightarrow> Some x) # ys))"

fun request_item :: "('o, 'i) request \<Rightarrow> 'i option" where
  "request_item (Send p x) = Some x"
| "request_item (SendFront p x) = Some x"
| "request_item (Receive p) = None"

locale bounded_queue =
  fixes inv :: "'s \<Rightarrow> bool" and elems :: "'s \<Rightarrow> 'i list" and cap :: nat and fits :: "'i \<Rightarrow> bool"
    and snd_back snd_front :: "'o \<Rightarrow> 'i \<Rightarrow> 's \<Rightarrow> ('s \<times> bool) option"
    and rcv :: "'o \<Rightarrow> 's \<Rightarrow> ('s \<times> 'i option) option"
  assumes send_back: "inv s \<Longrightarrow> fits x \<Longrightarrow> \<exists>s'. snd_back p x s = Some (s', length (elems s) < cap) \<and> inv s' \<and>
      elems s' = (if length (elems s) < cap then elems s @ [x] else elems s)"
    and send_front: "inv s \<Longrightarrow> fits x \<Longrightarrow> \<exists>s'. snd_front p x s = Some (s', length (elems s) < cap) \<and> inv s' \<and>
      elems s' = (if length (elems s) < cap then x # elems s else elems s)"
    and receive: "inv s \<Longrightarrow> \<exists>s'. rcv p s = Some (s', case elems s of [] \<Rightarrow> None | x # _ \<Rightarrow> Some x) \<and> inv s' \<and>
      elems s' = tl (elems s)"
begin

lemma requests_refine:
  "inv s \<Longrightarrow> (\<forall>r \<in> set rs. \<forall>x. request_item r = Some x \<longrightarrow> fits x) \<Longrightarrow>
   \<exists>s'. run_requests snd_back snd_front rcv rs s = Some (s', snd (list_requests cap rs (elems s))) \<and> inv s' \<and>
     elems s' = fst (list_requests cap rs (elems s))"
proof (induction rs arbitrary: s)
  case (Cons r rs)
  show ?case
  proof (cases r)
    case (Send p x)
    then obtain s1 where s1: "snd_back p x s = Some (s1, length (elems s) < cap)" "inv s1"
      "elems s1 = (if length (elems s) < cap then elems s @ [x] else elems s)"
      using send_back [OF Cons.prems(1), of x p] Cons.prems(2) by auto
    then show ?thesis using Cons.IH [OF s1(2)] Cons.prems(2) Send by (auto simp: case_prod_unfold Let_def)
  next
    case (SendFront p x)
    then obtain s1 where s1: "snd_front p x s = Some (s1, length (elems s) < cap)" "inv s1"
      "elems s1 = (if length (elems s) < cap then x # elems s else elems s)"
      using send_front [OF Cons.prems(1), of x p] Cons.prems(2) by auto
    then show ?thesis using Cons.IH [OF s1(2)] Cons.prems(2) SendFront by (auto simp: case_prod_unfold Let_def)
  next
    case (Receive p)
    then obtain s1 where s1: "rcv p s = Some (s1, case elems s of [] \<Rightarrow> None | x # _ \<Rightarrow> Some x)" "inv s1"
      "elems s1 = tl (elems s)"
      using receive [OF Cons.prems(1), of p] by auto
    then show ?thesis using Cons.IH [OF s1(2)] Cons.prems(2) Receive by (auto simp: case_prod_unfold Let_def)
  qed
qed simp

end

section \<open>The calls of \<open>queue.c\<close> satisfy the contract\<close>

datatype origin = FromTask | FromISR

text \<open>A call that does not block: a task that gives no time to wait, or an interrupt.\<close>

definition queue_send :: "nat \<Rightarrow> copy_position \<Rightarrow> origin \<Rightarrow> u8 list \<Rightarrow> 'a qkernel_scheme \<Rightarrow> ('a qkernel_scheme \<times> bool) option" where
  "queue_send q pos p x s =
     (case p of
        FromTask \<Rightarrow> do {
          xQueueGenericSend_asserts q (Some x) 0 pos s;
          (s, r) \<leftarrow> xQueueGenericSend_try q (Some x) 0 pos None s;
          Some (s, r = Returned True)
        }
      | FromISR \<Rightarrow> do { (s, b, _) \<leftarrow> xQueueGenericSendFromISR q (Some x) False pos s; Some (s, b) })"

definition queue_receive :: "nat \<Rightarrow> origin \<Rightarrow> 'a qkernel_scheme \<Rightarrow> ('a qkernel_scheme \<times> u8 list option) option" where
  "queue_receive q p s =
     (case p of
        FromTask \<Rightarrow> do {
          xQueueReceive_asserts q False 0 s;
          (s, r, x) \<leftarrow> xQueueReceive_try q 0 None s;
          Some (s, if r = Returned True then Some x else None)
        }
      | FromISR \<Rightarrow> do {
          (s, b, x, _) \<leftarrow> xQueueReceiveFromISR q False False s;
          Some (s, if b then Some x else None)
        })"

lemma queue_send_ok:
  assumes inv: "qsys S E q z c s" and z: "0 < z" and x: "length x = z" and pos: "pos \<noteq> queueOVERWRITE"
  shows "\<exists>s'. queue_send q pos p x s = Some (s', length (qitems q s) < c) \<and> qsys S E q z c s' \<and>
    qitems q s' = (if length (qitems q s) < c then added pos x (qitems q s) else qitems q s)"
proof (cases p)
  case FromTask
  have a: "xQueueGenericSend_asserts q (Some x) 0 pos s = Some ()"
    using inv pos by (simp add: xQueueGenericSend_asserts_def configASSERT_def buffer_ok_def may_wait_def qsys_def)
  show ?thesis
  proof (cases "uxMessagesWaiting (queues s q) < c")
    case True
    obtain s' where "xQueueGenericSend_try q (Some x) 0 pos None s = Some (s', Returned True)"
      "done_and_woken S E q z c (WaitingToReceive q) (Suc (uxMessagesWaiting (queues s q))) (added pos x (qitems q s)) s s'"
      by (rule xQueueGenericSend_try_ok [OF inv x pos True, where n = 0 and t = None])
    then show ?thesis using True FromTask a z by (simp add: queue_send_def done_and_woken_def)
  next
    case False
    then have "xQueueGenericSend_try q (Some x) 0 pos None s = Some (s, Returned False)"
      using inv pos by (simp add: xQueueGenericSend_try_def qsys_def qready_def)
    then show ?thesis using False FromTask a inv by (simp add: queue_send_def)
  qed
next
  case FromISR
  then show ?thesis using xQueueGenericSendFromISR_ok [OF inv x pos, of False] z by (auto simp: queue_send_def)
qed

lemma queue_receive_ok:
  assumes inv: "qsys S E q z c s" and z: "0 < z"
  shows "\<exists>s'. queue_receive q p s = Some (s', case qitems q s of [] \<Rightarrow> None | x # _ \<Rightarrow> Some x) \<and> qsys S E q z c s' \<and>
    qitems q s' = tl (qitems q s)"
proof (cases p)
  case FromTask
  have a: "xQueueReceive_asserts q False 0 s = Some ()"
    using inv by (simp add: xQueueReceive_asserts_def configASSERT_def may_wait_def qsys_def)
  show ?thesis
  proof (cases "uxMessagesWaiting (queues s q) > 0")
    case True
    then obtain x xs where xs: "qitems q s = x # xs" by (metis length_greater_0_conv length_qitems list.exhaust)
    obtain s' y where "xQueueReceive_try q 0 None s = Some (s', Returned True, y)"
      "done_and_woken S E q z c (WaitingToSend q) (uxMessagesWaiting (queues s q) - 1) (tl (qitems q s)) s s'"
      "0 < z \<Longrightarrow> y = hd (qitems q s)"
      using xQueueReceive_try_ok [OF inv True, where n = 0 and t = None] by blast
    then show ?thesis using FromTask a z xs by (simp add: queue_receive_def done_and_woken_def)
  next
    case False
    then have "qitems q s = []" by (metis length_0_conv length_qitems neq0_conv)
    moreover have "xQueueReceive_try q 0 None s = Some (s, Returned False, [])"
      using False by (simp add: xQueueReceive_try_def)
    ultimately show ?thesis using FromTask a inv by (simp add: queue_receive_def)
  qed
next
  case FromISR
  obtain s' x w where r: "xQueueReceiveFromISR q False False s = Some (s', 0 < uxMessagesWaiting (queues s q), x, w)"
    "qsys S E q z c s'" "0 < z \<and> 0 < uxMessagesWaiting (queues s q) \<longrightarrow> qitems q s = x # qitems q s'"
    "uxMessagesWaiting (queues s q) = 0 \<longrightarrow> s' = s"
    using xQueueReceiveFromISR_ok [OF inv, of False] by metis
  show ?thesis
  proof (cases "qitems q s")
    case Nil
    then have "uxMessagesWaiting (queues s q) = 0" by (metis length_qitems list.size(3))
    then show ?thesis using r FromISR Nil by (simp add: queue_receive_def)
  next
    case (Cons y ys)
    then have "0 < uxMessagesWaiting (queues s q)" by (metis length_greater_0_conv length_qitems list.discI)
    then show ?thesis using r FromISR Cons z by (simp add: queue_receive_def)
  qed
qed

interpretation kernel_queue: bounded_queue "\<lambda>s. qsys S E q z c s \<and> 0 < z" "qitems q" c "\<lambda>x. length x = z"
    "queue_send q queueSEND_TO_BACK" "queue_send q queueSEND_TO_FRONT" "queue_receive q"
  for S E q z c
proof
  fix s :: "'a qkernel_scheme" and x :: "u8 list" and p
  assume inv: "qsys S E q z c s \<and> 0 < z"
  show "\<exists>s'. queue_receive q p s = Some (s', case qitems q s of [] \<Rightarrow> None | x # _ \<Rightarrow> Some x) \<and>
      (qsys S E q z c s' \<and> 0 < z) \<and> qitems q s' = tl (qitems q s)"
    using queue_receive_ok [of S E q z c s p] inv by blast
  assume x: "length x = z"
  show "\<exists>s'. queue_send q queueSEND_TO_BACK p x s = Some (s', length (qitems q s) < c) \<and>
      (qsys S E q z c s' \<and> 0 < z) \<and> qitems q s' = (if length (qitems q s) < c then qitems q s @ [x] else qitems q s)"
    using queue_send_ok [of S E q z c s x queueSEND_TO_BACK p] inv x by (auto simp: added_def)
  show "\<exists>s'. queue_send q queueSEND_TO_FRONT p x s = Some (s', length (qitems q s) < c) \<and>
      (qsys S E q z c s' \<and> 0 < z) \<and> qitems q s' = (if length (qitems q s) < c then x # qitems q s else qitems q s)"
    using queue_send_ok [of S E q z c s x queueSEND_TO_FRONT p] inv x by (auto simp: added_def)
qed


section \<open>Creation\<close>

text \<open>No task waits on an address that is not a live heap region.\<close>

definition no_stale_waiters :: "nat \<Rightarrow> tile list \<Rightarrow> 'a kernel_scheme \<Rightarrow> bool" where
  "no_stale_waiters S ts s \<longleftrightarrow>
     (\<forall>i p. acont (lists s) i = Some (WaitingToSend p) \<or> acont (lists s) i = Some (WaitingToReceive p) \<longrightarrow>
        (\<exists>n. (p, n) \<in> live_regions S ts))"

lemma initialise_empty:
  assumes wf: "awf UNIV a" and e: "\<And>i. acont a i \<noteq> Some l"
  shows "alist (a_initialise l a) = alist a" and "acont (a_initialise l a) = acont a" and "aval (a_initialise l a) = aval a"
    and "awf UNIV (a_initialise l a)"
proof -
  have "alist a l = []" using alist_empty [OF wf] e by blast
  then show "alist (a_initialise l a) = alist a" by (simp add: a_initialise_def fun_upd_idem)
  show "acont (a_initialise l a) = acont a" and "aval (a_initialise l a) = aval a" by (simp_all add: a_initialise_def)
  show "awf UNIV (a_initialise l a)" using a_initialise_wf [OF wf e] by simp
qed

lemma init_list_tinv:
  assumes inv: "tinv S E s" and e: "\<And>i. acont (lists s) i \<noteq> Some l"
  shows "tinv S E (init_list l s)" and "acont (lists (init_list l s)) = acont (lists s)"
    and "sframe s (init_list l s)"
proof -
  have k: "kinv s" and wf: "awf UNIV (lists s)" using inv by (simp_all add: tinv_def kinv_def kinv0_def)
  note ie = initialise_empty [OF wf e]
  show c: "acont (lists (init_list l s)) = acont (lists s)" using ie(2) by (simp add: init_list_def)
  have "kinv (init_list l s)"
    using k ie unfolding kinv_def kinv0_def places_def delays_def readies_def unblock_times_def none_pending_def
      vsorted_def init_list_def by simp
  moreover show f: "sframe s (init_list l s)" using ie(2) by (simp add: sframe_def init_list_def)
  ultimately show "tinv S E (init_list l s)" using sframe_tinv [OF inv] by blast
qed

lemma fresh_queue_ready:
  assumes "0 < len" and "len < w32" and "0 < z \<Longrightarrow> h + len * z < w32" and "z \<le> h" and "0 < h"
    and "pcHead Q = h" and "uxLength Q = len" and "uxItemSize Q = z"
  shows "qready z len (reset_pointers Q)" and "contents (reset_pointers Q) m = []"
proof -
  let ?R = "reset_pointers Q"
  have one: "wsub len 1 = len - 1" using assms(1,2) by simp
  have "ring ?R" if z: "0 < z"
  proof -
    have t: "wadd h (wmul len z) = h + len * z" using assms(3) z by simp
    have "(len - 1) * z \<le> len * z" by simp
    then have "h + (len - 1) * z < w32" using assms(3) [OF z] by linarith
    then have r: "wadd h (wmul (len - 1) z) = h + (len - 1) * z" by simp
    have "len - 1 < len" "(len - 1 + 1 + 0) mod len = 0" using assms(1) by simp_all
    then show ?thesis
      using t r one assms(3-8) z
      by (auto simp: ring_def reset_pointers_def slot_addr_def intro!: exI [of _ "len - 1"])
  qed
  then show "qready z len ?R"
    using assms by (simp add: qready_def reset_pointers_def queueUNLOCKED_def)
  show "contents ?R m = []" by (simp add: contents_def reset_pointers_def)
qed

lemma xQueueGenericCreate_ok:
  assumes inv: "tinv S E s" and susp: "uxSchedulerSuspended s + 1 \<noteq> 0" and few: "uxCurrentNumberOfTasks s \<le> 127"
    and heap: "heap_ok (kheap s) S ts" "owned_by S ts s" and stale: "no_stale_waiters S ts s"
    and len: "0 < len" "len < w32" and total: "72 + len * z < w32" and base: "z \<le> S"
  obtains s' q where "xQueueGenericCreate len z s = Some (s', q)" and "tinv S E s'"
    and "q \<noteq> 0 \<Longrightarrow> qsys S E q z len s' \<and> qitems q s' = [] \<and>
      (\<exists>ts' m. heap_ok (kheap s') S ts' \<and> live_regions S ts' = insert (q, m) (live_regions S ts) \<and>
        (q, m) \<notin> live_regions S ts \<and> 72 + len * z \<le> m)"
proof -
  have lz: "len * z < w32" "wmul len z = len * z" "wadd sizeof_Queue (len * z) = 72 + len * z"
    using total by (simp_all add: sizeof_Queue_def)
  have g: "heapSIZE_MAX div len \<ge> z" "heapSIZE_MAX - sizeof_Queue \<ge> wmul len z"
    using total len by (simp_all add: heapSIZE_MAX_def sizeof_Queue_def less_eq_div_iff_mult_less_eq mult.commute)
  obtain s1 q ts1 h where m: "kernel_malloc (72 + len * z) s = Some (s1, q)" "tinv S E s1"
    "heap_ok (kheap s1) S ts1" "owned_by S ts1 s1" "sframe (s\<lparr>kheap := h\<rparr>) s1"
    "uxSchedulerSuspended s1 = uxSchedulerSuspended s"
    and l: "if q = 0 then live_regions S ts1 = live_regions S ts
      else \<exists>m \<ge> 72 + len * z. live_regions S ts1 = insert (q, m) (live_regions S ts) \<and> (q, m) \<notin> live_regions S ts"
    by (rule malloc_tinv [OF inv susp heap total])
  show ?thesis
  proof (cases "q = 0")
    case True
    then have "xQueueGenericCreate len z s = Some (s1, 0)"
      using len g m(1) lz by (simp add: xQueueGenericCreate_def Let_def)
    then show ?thesis using that m(2) by simp
  next
    case False
    then obtain k where k: "72 + len * z \<le> k" "live_regions S ts1 = insert (q, k) (live_regions S ts)"
      "(q, k) \<notin> live_regions S ts" using l by auto
    note lb = live_bounds [OF m(3), of q k]
    have bounds: "S + 8 \<le> q" "q + k \<le> E" "E < w32"
      using lb k(2) m(2,3) by (auto simp: tinv_def owned_def heap_ok_def heap_layout_def)
    have nl: "(q, n) \<notin> live_regions S ts" for n
      using live_fun [OF m(3), of q k n] k(2,3) by auto
    have nw: "acont (lists s1) i \<noteq> Some (WaitingToSend q)" "acont (lists s1) i \<noteq> Some (WaitingToReceive q)" for i
    proof -
      have "acont (lists s) i \<noteq> Some (WaitingToSend q)" "acont (lists s) i \<noteq> Some (WaitingToReceive q)"
        using stale nl by (auto simp: no_stale_waiters_def)
      moreover have "acont (lists s1) i = acont (lists s) i \<or> acont (lists s1) i = None \<or>
          (\<exists>p. acont (lists s1) i = Some (Ready p))"
        using m(5) unfolding sframe_def by (cases i) auto
      ultimately show "acont (lists s1) i \<noteq> Some (WaitingToSend q)" "acont (lists s1) i \<noteq> Some (WaitingToReceive q)"
        by auto
    qed
    let ?h = "if z = 0 then q else q + 72"
    let ?f = "\<lambda>Q. reset_pointers (Q\<lparr>pcHead := ?h, uxItemSize := z, uxLength := len\<rparr>)"
    let ?u = "upd_queue q ?f s1"
    have ub: "72 \<le> k" using k(1) by simp
    have qh: "?h + len * z < w32" using bounds k(1) by auto
    have r: "qready z len (?f (queues s1 q))" "contents (?f (queues s1 q)) mm = []" for mm
      by (rule fresh_queue_ready [where h = ?h]; use len qh base bounds in simp)+
    have u: "tinv S E ?u" by (rule upd_queue_tinv [OF m(2)])
    let ?w = "init_list (WaitingToReceive q) (init_list (WaitingToSend q) ?u)"
    note i1 = init_list_tinv [OF u, of "WaitingToSend q"]
    have nu: "acont (lists ?u) i \<noteq> Some (WaitingToSend q)" for i using nw by simp
    note i1 = init_list_tinv [OF u nu]
    have nv: "acont (lists (init_list (WaitingToSend q) ?u)) i \<noteq> Some (WaitingToReceive q)" for i
      using nw i1(2) by simp
    note i2 = init_list_tinv [OF i1(1) nv]
    have su: "sframe ?u ?w" using sframe_trans [OF i1(3) i2(3)] .
    have "wadd q sizeof_Queue = q + 72" using bounds ub by (simp add: sizeof_Queue_def)
    moreover have "heapSIZE_MAX div uxLength (?f (queues s1 q)) \<ge> uxItemSize (?f (queues s1 q))"
      using g by (simp add: reset_pointers_def)
    ultimately have res: "xQueueGenericCreate len z s = Some (?w, q)"
      using len g m(1) lz False
      by (simp add: xQueueGenericCreate_def prvInitialiseNewQueue_def xQueueGenericReset_def configASSERT_def
          upd_queue_def Let_def)
    have few1: "uxCurrentNumberOfTasks ?u \<le> 127" using few m(5) by (simp add: sframe_def)
    have qu: "qsys S E q z len ?u" using u False few1 r(1) by (simp add: qsys_def)
    have qw: "qsys S E q z len ?w" "qitems q ?w = []"
      using qsys_sframe(1,2) [OF qu i2(1) su] r(2) by (simp_all add: qitems_def)
    have "kheap ?w = kheap s1" using su by (simp add: sframe_def)
    then show ?thesis using that [OF res i2(1)] qw m(3) k by metis
  qed
qed


section \<open>Semaphores and mailboxes\<close>

lemma xQueueSemaphoreTake_try_ok:
  assumes inv: "qsys S E q 0 c s" and ne: "uxMessagesWaiting (queues s q) > 0"
  obtains s' where "xQueueSemaphoreTake_try q n t s = Some (s', Returned True)"
    and "done_and_woken S E q 0 c (WaitingToSend q) (uxMessagesWaiting (queues s q) - 1) [] s s'"
proof -
  let ?u = "upd_queue q (uxMessagesWaiting_update (\<lambda>_. uxMessagesWaiting (queues s q) - 1)) s"
  have "qready 0 c (uxMessagesWaiting_update (\<lambda>_. uxMessagesWaiting (queues s q) - 1) (queues s q))"
    using inv by (auto simp: qsys_def qready_def)
  then have u: "qsys S E q 0 c ?u" by (rule qsys_upd [OF inv])
  obtain s' where s': "wake_first (WaitingToSend q) portYIELD ?u = Some s'" "tinv S E s'" "wframe ?u s'"
    "first_woken (WaitingToSend q) ?u s'"
    by (rule wake_first_ok [OF qsys_tinv [OF u] event_list_queue(1)])
  have "xQueueSemaphoreTake_try q n t s = Some (s', Returned True)"
    using ne s'(1) by (simp add: xQueueSemaphoreTake_try_def Let_def)
  moreover have "done_and_woken S E q 0 c (WaitingToSend q) (uxMessagesWaiting (queues s q) - 1) [] s s'"
    using qsys_wframe [OF u s'(2,3)] s'(4) first_woken_lists [of ?u s "WaitingToSend q" s'] by (simp add: done_and_woken_def)
  ultimately show ?thesis by (rule that)
qed

lemma xQueueGiveFromISR_ok:
  assumes inv: "qsys S E q 0 c s"
  shows "\<exists>s' w. xQueueGiveFromISR q woken s = Some (s', uxMessagesWaiting (queues s q) < c, w) \<and> qsys S E q 0 c s' \<and>
    uxMessagesWaiting (queues s' q) =
      (if uxMessagesWaiting (queues s q) < c then Suc (uxMessagesWaiting (queues s q)) else uxMessagesWaiting (queues s q))"
proof (cases "uxMessagesWaiting (queues s q) < c")
  case True
  let ?n = "uxMessagesWaiting (queues s q)"
  let ?u = "upd_queue q (uxMessagesWaiting_update (\<lambda>_. wadd ?n 1)) s"
  have n: "wadd ?n 1 = Suc ?n" using inv True by (simp add: qsys_def qready_def)
  have "qready 0 c (uxMessagesWaiting_update (\<lambda>_. wadd ?n 1) (queues s q))"
    using inv True n by (auto simp: qsys_def qready_def)
  then have u: "qsys S E q 0 c ?u" by (rule qsys_upd [OF inv])
  obtain s' w where s': "(if cTxLock (queues ?u q) = queueUNLOCKED then wake_from_isr (WaitingToReceive q) woken ?u
      else do { s \<leftarrow> prvIncrementQueueTxLock q (cTxLock (queues ?u q)) ?u; Some (s, woken) }) = Some (s', w)"
    "qsys S E q 0 c s'" "uxMessagesWaiting (queues s' q) = uxMessagesWaiting (queues ?u q)" "qitems q s' = qitems q ?u"
    by (rule isr_wake_ok [OF u])
  have "xQueueGiveFromISR q woken s = Some (s', True, w)"
    using inv True s'(1)
    by (cases "cTxLock (queues s q) = queueUNLOCKED")
      (auto simp: xQueueGiveFromISR_def configASSERT_def qsys_def qready_def Let_def split: bind_splits)
  then show ?thesis using True s' n by simp
next
  case False
  then have "xQueueGiveFromISR q woken s = Some (s, False, woken)"
    using inv by (simp add: xQueueGiveFromISR_def configASSERT_def qsys_def qready_def)
  then show ?thesis using False inv by simp
qed

lemma copy_over:
  assumes "uxItemSize (queues s q) \<noteq> 0" and "uxMessagesWaiting (queues s q) \<le> 1"
  shows "prvCopyDataToQueue q x queueOVERWRITE s =
   upd_queue q (\<lambda>Q. put_front (Q\<lparr>uxMessagesWaiting := 0\<rparr>)) (heap_store (pcReadFrom (queues s q)) x s)"
proof -
  have "(if uxMessagesWaiting (queues s q) > 0 then uxMessagesWaiting (queues s q) - 1 else uxMessagesWaiting (queues s q)) = 0"
    using assms(2) by auto
  then show ?thesis
    using assms(1) by (simp add: prvCopyDataToQueue_def upd_queue_def put_front_def Let_def)
qed

lemma overwrite_ok:
  assumes inv: "qsys S E q z 1 s" and z: "0 < z" and x: "length x = z"
  defines "u \<equiv> prvCopyDataToQueue q x queueOVERWRITE s"
  shows "qsys S E q z 1 u" and "qitems q u = [x]" and "lists u = lists s" and "tcb u = tcb s"
    and "uxSchedulerSuspended u = uxSchedulerSuspended s"
proof -
  let ?Q = "queues s q" and ?Z = "(queues s q)\<lparr>uxMessagesWaiting := 0\<rparr>"
  have Q: "qready z 1 ?Q" using inv by (simp add: qsys_def)
  then have r: "ring ?Q" "uxLength ?Q = 1" "uxItemSize ?Q = z" "uxMessagesWaiting ?Q \<le> 1" using z by (simp_all add: qready_def)
  have e: "u = upd_queue q (\<lambda>Q. put_front (Q\<lparr>uxMessagesWaiting := 0\<rparr>)) (heap_store (pcReadFrom ?Q) x s)"
    using copy_over [of s q x] r z by (simp add: u_def)
  have rz: "ring ?Z" using r by (auto simp: ring_def slot_addr_def)
  note p = put_front_ok [OF rz, of x]
  have "qready z 1 ?Z" using Q rz by (simp add: qready_def)
  then have "qready z 1 (put_front ?Z)" by (rule qready_shape) (use p r x in simp_all)
  moreover have "qsys S E q z 1 (heap_store (pcReadFrom ?Q) x s)" using inv by (simp add: qsys_def heap_store_tinv)
  ultimately show "qsys S E q z 1 u" unfolding e by (intro qsys_upd) simp_all
  have "contents ?Z m = []" for m by (simp add: contents_def)
  then show "qitems q u = [x]" using p(4) [of "payload (kheap s)"] r x by (simp add: e qitems_def)
  show "lists u = lists s" "tcb u = tcb s" "uxSchedulerSuspended u = uxSchedulerSuspended s" by (simp_all add: e)
qed


section \<open>A queue in the running system\<close>

text \<open>
  The steps of tasks and interrupts that use one queue, with the ticks and context switches of
  the system.  \<open>QSend\<close>, \<open>QReceive\<close>, \<open>QPeek\<close> and \<open>QTake\<close> are attempts, the \<open>Block\<close> steps what a call
  does when its attempt has to wait.
\<close>

datatype qop =
    QTick | QSwitch
  | QSend copy_position "u8 list" u32 | QSendBlock time_out u32
  | QReceive u32 | QReceiveBlock time_out u32 | QPeek u32 | QTake u32
  | QSendFromISR copy_position "u8 list" | QReceiveFromISR | QGiveFromISR | QReset

fun qexec :: "nat \<Rightarrow> qop \<Rightarrow> 'a qkernel_scheme \<Rightarrow> 'a qkernel_scheme option" where
  "qexec q QTick s = SysTick_Handler s"
| "qexec q QSwitch s = PendSV_Handler s"
| "qexec q (QSend pos x n) s =
     do { xQueueGenericSend_asserts q (Some x) n pos s; map_option fst (xQueueGenericSend_try q (Some x) n pos None s) }"
| "qexec q (QSendBlock t n) s = map_option fst (xQueueGenericSend_block q t n s)"
| "qexec q (QReceive n) s =
     do { xQueueReceive_asserts q False n s; map_option fst (xQueueReceive_try q n None s) }"
| "qexec q (QReceiveBlock t n) s = map_option fst (xQueueReceive_block q t n s)"
| "qexec q (QPeek n) s =
     do { xQueueReceive_asserts q False n s; map_option fst (xQueuePeek_try q n None s) }"
| "qexec q (QTake n) s =
     do { xQueueSemaphoreTake_asserts q n s; map_option fst (xQueueSemaphoreTake_try q n None s) }"
| "qexec q (QSendFromISR pos x) s = map_option fst (xQueueGenericSendFromISR q (Some x) False pos s)"
| "qexec q QReceiveFromISR s = map_option fst (xQueueReceiveFromISR q False False s)"
| "qexec q QGiveFromISR s = map_option fst (xQueueGiveFromISR q False s)"
| "qexec q QReset s = xQueueGenericReset q False s"

text \<open>
  What the interface documents: items of the queue's size, no overwriting, semaphore calls only
  on semaphores, no blocking with the scheduler suspended or in the idle task.
\<close>

fun qpermitted :: "nat \<Rightarrow> qop \<Rightarrow> 'a qkernel_scheme \<Rightarrow> bool" where
  "qpermitted z QTick s = True"
| "qpermitted z QSwitch s = True"
| "qpermitted z (QSend pos x n) s = (length x = z \<and> pos \<noteq> queueOVERWRITE \<and> may_wait n s)"
| "qpermitted z (QSendBlock t n) s = (may_block s \<and> not_waiting s (pxCurrentTCB s))"
| "qpermitted z (QReceive n) s = may_wait n s"
| "qpermitted z (QReceiveBlock t n) s = (may_block s \<and> not_waiting s (pxCurrentTCB s))"
| "qpermitted z (QPeek n) s = (0 < z \<and> may_wait n s)"
| "qpermitted z (QTake n) s = (z = 0 \<and> may_wait n s)"
| "qpermitted z (QSendFromISR pos x) s = (length x = z \<and> pos \<noteq> queueOVERWRITE)"
| "qpermitted z QReceiveFromISR s = True"
| "qpermitted z QGiveFromISR s = (z = 0)"
| "qpermitted z QReset s = True"

inductive qsteps :: "nat \<Rightarrow> nat \<Rightarrow> 'a qkernel_scheme \<Rightarrow> 'a qkernel_scheme \<Rightarrow> bool" for q z where
  qnone: "qsteps q z s s"
| qmore: "qsteps q z s s' \<Longrightarrow> qpermitted z op s' \<Longrightarrow> qexec q op s' = Some s'' \<Longrightarrow> qsteps q z s s''"

lemma switch_more:
  assumes "PendSV_Handler s = Some s'"
  shows "kernel.more s' = kernel.more s \<and> uxCurrentNumberOfTasks s' = uxCurrentNumberOfTasks s"
  using assms
  by (auto simp: PendSV_Handler_def vTaskSwitchContext_def taskSELECT_HIGHEST_PRIORITY_TASK_def case_prod_unfold Let_def
      split: if_splits bind_splits)

lemma tick_more:
  assumes "tinv S E s" and "SysTick_Handler s = Some s'"
  shows "kernel.more s' = kernel.more s \<and> uxCurrentNumberOfTasks s' = uxCurrentNumberOfTasks s"
proof (cases "uxSchedulerSuspended s = 0")
  case True
  have k: "kinv s" using assms(1) by (rule tinv_kinv)
  have "sframe s s'"
    using assms(2) sframe_tick [OF k] sframe_after(3) [OF sframe_tick [OF k]]
    by (auto simp: SysTick_Handler_def xTaskIncrementTick_result [OF k True])
  then show ?thesis by (simp add: sframe_def)
next
  case False
  then show ?thesis using assms(2) by (auto simp: SysTick_Handler_def xTaskIncrementTick_def)
qed

lemma qsys_more:
  "qsys S E q z c s \<Longrightarrow> tinv S E s' \<Longrightarrow> kernel.more s' = kernel.more s \<and> uxCurrentNumberOfTasks s' = uxCurrentNumberOfTasks s \<Longrightarrow>
   qsys S E q z c s'"
  using more_queues [of s' s] by (simp add: qsys_def)

lemma reset_ok:
  assumes inv: "qsys S E q z c s"
  obtains s' where "xQueueGenericReset q False s = Some s'" and "qsys S E q z c s'" and "qitems q s' = []"
    and "uxMessagesWaiting (queues s' q) = 0" and "first_woken (WaitingToSend q) s s'"
proof -
  let ?Q = "queues s q"
  have Q: "qready z c ?Q" using inv by (simp add: qsys_def)
  then have g: "uxLength ?Q = c" "uxItemSize ?Q = z" "0 < c" "c < w32" "0 < pcHead ?Q" by (simp_all add: qready_def)
  have b: "z \<le> pcHead ?Q" "0 < z \<Longrightarrow> pcHead ?Q + c * z < w32"
    using Q by (cases "z = 0"; auto simp: qready_def ring_def slot_addr_def)+
  have m: "c * z < w32"
    using b(2) by (cases "z = 0") auto
  have d: "heapSIZE_MAX div c \<ge> z" using m g(3) by (simp add: heapSIZE_MAX_def less_eq_div_iff_mult_less_eq mult.commute)
  have rq: "qready z c (reset_pointers ?Q)" "contents (reset_pointers ?Q) mm = []" for mm
    by (rule fresh_queue_ready [where h = "pcHead ?Q"]; use g b in simp)+
  let ?u = "upd_queue q reset_pointers s"
  have u: "qsys S E q z c ?u" by (rule qsys_upd [where f = reset_pointers, OF inv rq(1)])
  obtain s' where s': "wake_first (WaitingToSend q) portYIELD ?u = Some s'" "tinv S E s'" "wframe ?u s'"
    "first_woken (WaitingToSend q) ?u s'"
    by (rule wake_first_ok [OF qsys_tinv [OF u] event_list_queue(1)])
  have "xQueueGenericReset q False s = Some s'"
    using inv g d s'(1) by (simp add: xQueueGenericReset_def configASSERT_def qsys_def Let_def)
  then show ?thesis
    using that qsys_wframe [OF u s'(2,3)] rq(2) first_woken_lists [of ?u s "WaitingToSend q" s'] s'(4)
    by (simp add: qitems_def reset_pointers_def)
qed

lemma receive_block_ok:
  assumes "qsys S E q z c s" and "may_block s" and "not_waiting s (pxCurrentTCB s)"
  shows "\<exists>s' r n'. receive_block q t n s = Some (s', r, n') \<and> qsys S E q z c s'"
proof -
  obtain s' r n' where "queue_block prvIsQueueEmpty (WaitingToReceive q) q t n s = Some (s', r, n')" "qsys S E q z c s'"
    using queue_block_ok [OF assms event_list_queue(2), where busy = prvIsQueueEmpty and t = t and n = n] by metis
  then show ?thesis by (simp add: receive_block_def)
qed

lemma qexec_ok:
  assumes inv: "qsys S E q z c s" and p: "qpermitted z op s"
  shows "\<exists>s'. qexec q op s = Some s' \<and> qsys S E q z c s'"
proof (cases op)
  case QTick
  then show ?thesis using tick_tinv [OF qsys_tinv [OF inv]] tick_more [OF qsys_tinv [OF inv]] qsys_more [OF inv] by auto
next
  case QSwitch
  then show ?thesis using switch_tinv [OF qsys_tinv [OF inv]] switch_more qsys_more [OF inv] by fastforce
next
  case (QSend pos x n)
  have a: "xQueueGenericSend_asserts q (Some x) n pos s = Some ()"
    using inv p QSend by (simp add: xQueueGenericSend_asserts_def configASSERT_def buffer_ok_def qsys_def)
  show ?thesis
  proof (cases "uxMessagesWaiting (queues s q) < c")
    case True
    have x: "length x = z" "pos \<noteq> queueOVERWRITE" using p QSend by simp_all
    obtain s' where "xQueueGenericSend_try q (Some x) n pos None s = Some (s', Returned True)" "qsys S E q z c s'"
      using xQueueGenericSend_try_ok [OF inv x True, where n = n and t = None] by (auto simp: done_and_woken_def)
    then show ?thesis using QSend a by simp
  next
    case False
    then have "\<exists>r. xQueueGenericSend_try q (Some x) n pos None s = Some (s, r)"
      using inv p QSend by (simp add: xQueueGenericSend_try_def qsys_def qready_def)
    then show ?thesis using QSend a inv by auto
  qed
next
  case (QSendBlock t n)
  then have b: "may_block s" "not_waiting s (pxCurrentTCB s)" using p by simp_all
  obtain s' r n' where "queue_block prvIsQueueFull (WaitingToSend q) q t n s = Some (s', r, n')" "qsys S E q z c s'"
    using queue_block_ok [OF inv b event_list_queue(1), where busy = prvIsQueueFull and t = t and n = n] by metis
  then show ?thesis using QSendBlock by (simp add: xQueueGenericSend_block_def)
next
  case (QReceive n)
  have a: "xQueueReceive_asserts q False n s = Some ()"
    using inv p QReceive by (simp add: xQueueReceive_asserts_def configASSERT_def qsys_def)
  show ?thesis
  proof (cases "uxMessagesWaiting (queues s q) > 0")
    case True
    obtain s' x where "xQueueReceive_try q n None s = Some (s', Returned True, x)"
      "done_and_woken S E q z c (WaitingToSend q) (uxMessagesWaiting (queues s q) - 1) (tl (qitems q s)) s s'"
      using xQueueReceive_try_ok [OF inv True, where n = n and t = None] by blast
    then have "xQueueReceive_try q n None s = Some (s', Returned True, x)" "qsys S E q z c s'"
      by (simp_all add: done_and_woken_def)
    then show ?thesis using QReceive a by simp
  qed (use QReceive a inv in \<open>auto simp: xQueueReceive_try_def\<close>)
next
  case (QReceiveBlock t n)
  then show ?thesis using receive_block_ok [OF inv, of t n] p by (auto simp: xQueueReceive_block_def)
next
  case (QPeek n)
  have a: "xQueueReceive_asserts q False n s = Some ()"
    using inv p QPeek by (simp add: xQueueReceive_asserts_def configASSERT_def qsys_def)
  show ?thesis
  proof (cases "uxMessagesWaiting (queues s q) > 0")
    case True
    have z: "0 < z" using p QPeek by simp
    obtain s' where "xQueuePeek_try q n None s = Some (s', Returned True, hd (qitems q s))" "qsys S E q z c s'"
      using xQueuePeek_try_ok [OF inv True z, where n = n and t = None] by (auto simp: done_and_woken_def)
    then show ?thesis using QPeek a by simp
  qed (use QPeek a inv in \<open>auto simp: xQueuePeek_try_def\<close>)
next
  case (QTake n)
  then have z: "z = 0" and i: "qsys S E q 0 c s" using p inv by auto
  have a: "xQueueSemaphoreTake_asserts q n s = Some ()"
    using i p QTake by (simp add: xQueueSemaphoreTake_asserts_def configASSERT_def qsys_def qready_def)
  show ?thesis
  proof (cases "uxMessagesWaiting (queues s q) > 0")
    case True
    obtain s' where "xQueueSemaphoreTake_try q n None s = Some (s', Returned True)" "qsys S E q 0 c s'"
      using xQueueSemaphoreTake_try_ok [OF i True, where n = n and t = None] by (auto simp: done_and_woken_def)
    then show ?thesis using QTake a z by simp
  qed (use QTake a inv in \<open>auto simp: xQueueSemaphoreTake_try_def\<close>)
next
  case (QSendFromISR pos x)
  then show ?thesis using xQueueGenericSendFromISR_ok [OF inv, of x pos False] p by auto
next
  case QReceiveFromISR
  then show ?thesis using xQueueReceiveFromISR_ok [OF inv, of False] by auto
next
  case QGiveFromISR
  then show ?thesis using xQueueGiveFromISR_ok [of S E q c s False] p inv by auto
next
  case QReset
  obtain s' where "xQueueGenericReset q False s = Some s'" "qsys S E q z c s'" using reset_ok [OF inv] by metis
  then show ?thesis using QReset by simp
qed

lemma qsteps_qsys: "qsteps q z s s' \<Longrightarrow> qsys S E q z c s \<Longrightarrow> qsys S E q z c s'"
  by (induction rule: qsteps.induct) (metis qexec_ok option.inject)+


section \<open>Properties of the queues\<close>

text \<open>C18: Whatever mix of non-blocking sends to the back, sends to the front and receives tasks and
  interrupts make, on a queue that may be locked or unlocked and whatever tasks wait on it, every
  call returns and the results are those of a list of at most \<open>c\<close> items.\<close>

theorem queue_is_bounded_fifo:
  assumes "qsys S E q z c s" and "0 < z" and "\<forall>r \<in> set rs. \<forall>x. request_item r = Some x \<longrightarrow> length x = z"
  shows "\<exists>s'. run_requests (queue_send q queueSEND_TO_BACK) (queue_send q queueSEND_TO_FRONT) (queue_receive q) rs s =
      Some (s', snd (list_requests c rs (qitems q s))) \<and>
    qsys S E q z c s' \<and> qitems q s' = fst (list_requests c rs (qitems q s))"
  using kernel_queue.requests_refine [of S E q z c s rs] assms by blast


text \<open>The attempt to send: with room the item is added at its end, the call returns
  \<open>pdPASS\<close> and the first waiting receiver, if any, leaves the event list and becomes ready; on a
  full queue without time to wait the call returns \<open>errQUEUE_FULL\<close> and changes nothing.\<close>

theorem xQueueGenericSend_attempt:
  assumes inv: "qsys S E q z c s" and z: "0 < z" and x: "length x = z" and pos: "pos \<noteq> queueOVERWRITE"
    and susp: "uxSchedulerSuspended s = 0"
  shows "if length (qitems q s) < c
    then \<exists>s'. xQueueGenericSend_try q (Some x) n pos t s = Some (s', Returned True) \<and>
      qitems q s' = (if pos = queueSEND_TO_BACK then qitems q s @ [x] else x # qitems q s) \<and>
      items s' (WaitingToReceive q) = tl (items s (WaitingToReceive q)) \<and>
      (items s (WaitingToReceive q) \<noteq> [] \<longrightarrow> is_ready s' (owner (hd (items s (WaitingToReceive q)))))
    else n = 0 \<longrightarrow> xQueueGenericSend_try q (Some x) n pos t s = Some (s, Returned False)"
proof (cases "uxMessagesWaiting (queues s q) < c")
  case True
  obtain s' where s': "xQueueGenericSend_try q (Some x) n pos t s = Some (s', Returned True)"
    "done_and_woken S E q z c (WaitingToReceive q) (Suc (uxMessagesWaiting (queues s q))) (added pos x (qitems q s)) s s'"
    by (rule xQueueGenericSend_try_ok [OF inv x pos True, where n = n and t = t])
  obtain w where w: "wake_first (WaitingToReceive q) portYIELD (prvCopyDataToQueue q x pos s) = Some w" "wframe (prvCopyDataToQueue q x pos s) w"
    using wake_first_ok [OF qsys_tinv [OF prvCopyDataToQueue_ok(1) [OF inv True x pos]] event_list_queue(2)] by metis
  have "w = s'" using s'(1) w(1) inv True by (simp add: xQueueGenericSend_try_def bytes_of_def qsys_def qready_def Let_def)
  then have "tcb s' = tcb s" using w(2) by (simp add: wframe_def)
  then have "items s (WaitingToReceive q) \<noteq> [] \<longrightarrow> is_ready s' (owner (hd (items s (WaitingToReceive q))))"
    using s'(2) susp by (auto simp: done_and_woken_def first_woken_def is_ready_def split: list.splits)
  then show ?thesis using s' True z by (auto simp: done_and_woken_def first_woken_def added_def)
next
  case False
  then show ?thesis using inv pos by (simp add: xQueueGenericSend_try_def qsys_def qready_def)
qed

text \<open>No wake-up is lost on a locked queue: unlocking removes from the event lists exactly as
  many waiting receivers as items arrived while the queue was locked and as many waiting senders
  as items left, in order, or all of them when there are fewer, and the queue is unlocked.\<close>

theorem prvUnlockQueue_catches_up:
  assumes "qsys S E q z c s"
  shows "\<exists>s'. prvUnlockQueue q s = Some s' \<and> qitems q s' = qitems q s \<and>
    items s' (WaitingToReceive q) = drop (nat (cTxLock (queues s q))) (items s (WaitingToReceive q)) \<and>
    items s' (WaitingToSend q) = drop (nat (cRxLock (queues s q))) (items s (WaitingToSend q)) \<and>
    cTxLock (queues s' q) = queueUNLOCKED \<and> cRxLock (queues s' q) = queueUNLOCKED"
  by (rule prvUnlockQueue_ok [OF assms]) blast

text \<open>Creating a queue returns null, or an empty queue of the requested shape whose storage
  lies in a heap region of its own; sizes that overflow 32 bits never reach the allocator.\<close>

theorem xQueueGenericCreate_correct:
  assumes "tinv S E s" and "uxSchedulerSuspended s + 1 \<noteq> 0" and "uxCurrentNumberOfTasks s \<le> 127"
    and "heap_ok (kheap s) S ts" and "owned_by S ts s" and "no_stale_waiters S ts s"
    and "0 < len" and "len < w32" and "72 + len * z < w32" and "z \<le> S"
  shows "\<exists>s' q. xQueueGenericCreate len z s = Some (s', q) \<and> tinv S E s' \<and>
    (q \<noteq> 0 \<longrightarrow> qsys S E q z len s' \<and> qitems q s' = [] \<and>
      (\<exists>ts' m. heap_ok (kheap s') S ts' \<and> live_regions S ts' = insert (q, m) (live_regions S ts) \<and>
        (q, m) \<notin> live_regions S ts \<and> 72 + len * z \<le> m))"
  by (rule xQueueGenericCreate_ok [OF assms]) blast

text \<open>Overwriting a queue of length one always leaves exactly the new item.\<close>

theorem overwrite_is_mailbox:
  assumes inv: "qsys S E q z 1 s" and z: "0 < z" and x: "length x = z"
  shows "\<exists>s'. xQueueGenericSend_try q (Some x) n queueOVERWRITE t s = Some (s', Returned True) \<and>
    qsys S E q z 1 s' \<and> qitems q s' = [x]"
proof -
  note u = overwrite_ok [OF inv z x]
  obtain s' where s': "wake_first (WaitingToReceive q) portYIELD (prvCopyDataToQueue q x queueOVERWRITE s) = Some s'"
    "tinv S E s'" "wframe (prvCopyDataToQueue q x queueOVERWRITE s) s'"
    using wake_first_ok [OF qsys_tinv [OF u(1)] event_list_queue(2)] by metis
  then show ?thesis using qsys_wframe [OF u(1) s'(2,3)] u(2) by (simp add: xQueueGenericSend_try_def bytes_of_def Let_def)
qed

text \<open>Overwriting a full queue of length one without item data, a binary semaphore, pushes the
  message count above the length of the queue.\<close>

theorem overwrite_exceeds_length:
  assumes inv: "qsys S E q 0 1 s" and full: "uxMessagesWaiting (queues s q) = 1"
    and run: "uxSchedulerSuspended s = 0"
  shows "\<exists>s'. xQueueGenericSend_asserts q None n queueOVERWRITE s = Some () \<and>
    xQueueGenericSend_try q None n queueOVERWRITE t s = Some (s', Returned True) \<and>
    uxMessagesWaiting (queues s' q) = 2 \<and> uxLength (queues s' q) = 1"
proof -
  let ?u = "prvCopyDataToQueue q [] queueOVERWRITE s"
  have z: "uxItemSize (queues s q) = 0" "uxLength (queues s q) = 1" "q \<noteq> 0"
    using inv by (simp_all add: qsys_def qready_def)
  then have u: "?u = upd_queue q (uxMessagesWaiting_update (\<lambda>_. 2)) s"
    using full by (simp add: prvCopyDataToQueue_def w32_value wadd_def numeral_2_eq_2)
  have "tinv S E ?u" unfolding u by (rule upd_queue_tinv [OF qsys_tinv [OF inv]])
  then obtain s' where s': "wake_first (WaitingToReceive q) portYIELD ?u = Some s'" "wframe ?u s'"
    using wake_first_ok [OF _ event_list_queue(2)] by metis
  have "queues s' = queues ?u" by (rule wframe_queues [OF s'(2)])
  then show ?thesis using s'(1) u z run by (auto simp: xQueueGenericSend_try_def xQueueGenericSend_asserts_def bytes_of_def
      buffer_ok_def may_wait_def xTaskGetSchedulerState_def configASSERT_def)
qed

section \<open>Concrete systems\<close>

text \<open>The demonstration task system with one queue of two words, and with one binary semaphore.\<close>

definition demo_ring :: queue_t where
  "demo_ring =
     \<lparr>pcHead = 2072, pcWriteTo = 2072, pcTail = 2080, pcReadFrom = 2076, uxMessagesWaiting = 0,
      uxLength = 2, uxItemSize = 4, cRxLock = - 1, cTxLock = - 1\<rparr>"

definition demo_cell :: "nat \<Rightarrow> nat \<Rightarrow> queue_t" where
  "demo_cell z n =
     \<lparr>pcHead = 2072, pcWriteTo = 2072, pcTail = 2072 + z, pcReadFrom = 2072, uxMessagesWaiting = n,
      uxLength = 1, uxItemSize = z, cRxLock = - 1, cTxLock = - 1\<rparr>"

definition demo_queue :: "queue_t \<Rightarrow> heap \<Rightarrow> qkernel" where
  "demo_queue Q h = kernel.extend (demo_system h) (qkernel.fields (\<lambda>_. Q) [])"

lemma tinv_extend: "tinv S E (kernel.extend s m) \<longleftrightarrow> tinv S E s"
  by (simp add: tinv_def kinv_def kinv0_def places_def delays_def readies_def unblock_times_def
      none_pending_def owned_def owned_by_def counted_def ktasks_def terminated_def is_ready_def
      waiting_free_def kernel.defs)

lemma demo_queue_sel [simp]:
  "queues (demo_queue Q h) q = Q" "lists (demo_queue Q h) = lists (demo_system h)"
  "tcb (demo_queue Q h) = tcb (demo_system h)" "pxCurrentTCB (demo_queue Q h) = 1344"
  "uxSchedulerSuspended (demo_queue Q h) = 0" "uxCurrentNumberOfTasks (demo_queue Q h) = 3"
  "kheap (demo_queue Q h) = h" "xTickCount (demo_queue Q h) = 7"
  by (simp_all add: demo_queue_def kernel.defs qkernel.defs demo_system_def)

lemma demo_queue_qsys:
  assumes "qready z c Q"
  obtains h ts where "qsys 1024 5112 2000 z c (demo_queue Q h)" and "heap_ok h 1024 ts"
    and "owned_by 1024 ts (demo_queue Q h)" and "tinv 1024 5112 (demo_queue Q h)"
proof -
  obtain h ts where t: "tinv 1024 5112 (demo_system h)" "heap_ok h 1024 ts" "owned_by 1024 ts (demo_system h)"
    by (rule demo_system_tinv)
  have "tinv 1024 5112 (demo_queue Q h)" using t(1) by (simp add: demo_queue_def tinv_extend)
  moreover have "owned_by 1024 ts (demo_queue Q h)"
    using t(3) unfolding owned_by_def ktasks_def demo_queue_sel(2,3) .
  ultimately show ?thesis using that t(2) assms by (simp add: qsys_def)
qed

lemma demo_ring_ready: "qready 4 2 demo_ring"
  by (auto simp: qready_def ring_def demo_ring_def slot_addr_def w32_value)

lemma demo_cell_ready: "z \<le> 4 \<Longrightarrow> n \<le> 1 \<Longrightarrow> qready z 1 (demo_cell z n)"
  by (auto simp: qready_def ring_def demo_cell_def slot_addr_def w32_value)

lemma demo_ring_items: "qitems q (demo_queue demo_ring h) = []"
  by (simp add: qitems_def contents_def demo_ring_def)

theorem queue_is_bounded_fifo_witness:
  "\<exists>h s'. run_requests (queue_send 2000 queueSEND_TO_BACK) (queue_send 2000 queueSEND_TO_FRONT) (queue_receive 2000)
     [Send FromTask [1, 0, 0, 0], SendFront FromISR [2, 0, 0, 0], Send FromISR [3, 0, 0, 0], Receive FromTask]
     (demo_queue demo_ring h) =
     Some (s', [Sent True, Sent True, Sent False, Got (Some [2, 0, 0, 0])])"
proof -
  obtain h ts where t: "qsys 1024 5112 2000 4 2 (demo_queue demo_ring h)" by (rule demo_queue_qsys [OF demo_ring_ready])
  from queue_is_bounded_fifo [OF t, of "[Send FromTask [1, 0, 0, 0], SendFront FromISR [2, 0, 0, 0], Send FromISR [3, 0, 0, 0], Receive FromTask]"]
  show ?thesis by (auto simp: demo_ring_items)
qed


theorem xQueueGenericSend_attempt_witness:
  "\<exists>h s'. xQueueGenericSend_try 2000 (Some [1, 2, 3, 4]) 0 queueSEND_TO_BACK None (demo_queue demo_ring h) =
     Some (s', Returned True) \<and> qitems 2000 s' = [[1, 2, 3, 4]]"
proof -
  obtain h ts where t: "qsys 1024 5112 2000 4 2 (demo_queue demo_ring h)" by (rule demo_queue_qsys [OF demo_ring_ready])
  from xQueueGenericSend_attempt [OF t, of "[1, 2, 3, 4]" queueSEND_TO_BACK 0 None] show ?thesis
    by (auto simp: demo_ring_items)
qed

theorem prvUnlockQueue_catches_up_witness: "\<exists>h s'. prvUnlockQueue 2000 (demo_queue demo_ring h) = Some s'"
proof -
  obtain h ts where t: "qsys 1024 5112 2000 4 2 (demo_queue demo_ring h)" by (rule demo_queue_qsys [OF demo_ring_ready])
  from prvUnlockQueue_catches_up [OF t] show ?thesis by blast
qed

theorem xQueueGenericCreate_correct_witness:
  "\<exists>h s' q. xQueueGenericCreate 2 4 (demo_queue demo_ring h) = Some (s', q)"
proof -
  obtain h ts where t: "qsys 1024 5112 2000 4 2 (demo_queue demo_ring h)" "heap_ok h 1024 ts"
    "owned_by 1024 ts (demo_queue demo_ring h)" "tinv 1024 5112 (demo_queue demo_ring h)"
    by (rule demo_queue_qsys [OF demo_ring_ready])
  have "no_stale_waiters 1024 ts (demo_queue demo_ring h)" by (simp add: no_stale_waiters_def)
  with xQueueGenericCreate_correct [OF t(4), of ts 2 4] t(2,3) show ?thesis by (auto simp: w32_value)
qed

theorem overwrite_is_mailbox_witness:
  "\<exists>h s'. xQueueGenericSend_try 2000 (Some [7]) 0 queueOVERWRITE None (demo_queue (demo_cell 1 1) h) =
     Some (s', Returned True) \<and> qitems 2000 s' = [[7]]"
proof -
  have "qready 1 1 (demo_cell 1 1)" by (rule demo_cell_ready) simp_all
  then obtain h ts where t: "qsys 1024 5112 2000 1 1 (demo_queue (demo_cell 1 1) h)" by (rule demo_queue_qsys)
  from overwrite_is_mailbox [OF t, of "[7]" 0 None] show ?thesis by auto
qed

theorem overwrite_exceeds_length_witness:
  "\<exists>h s'. xQueueGenericSend_try 2000 None 0 queueOVERWRITE None (demo_queue (demo_cell 0 1) h) =
     Some (s', Returned True) \<and> uxMessagesWaiting (queues s' 2000) = 2"
proof -
  have "qready 0 1 (demo_cell 0 1)" by (rule demo_cell_ready) simp_all
  then obtain h ts where t: "qsys 1024 5112 2000 0 1 (demo_queue (demo_cell 0 1) h)" by (rule demo_queue_qsys)
  have "uxMessagesWaiting (queues (demo_queue (demo_cell 0 1) h) 2000) = 1" by (simp add: demo_cell_def)
  from overwrite_exceeds_length [OF t this, of 0 None] show ?thesis by auto
qed

end
