(* ===== verification/EventGroups.thy ===== *)
theory EventGroups
  imports QueueSpec
begin

text \<open>
  The event groups of \<open>event_groups.c\<close>: a word of event bits and a list of the tasks that wait
  for some or all of a set of bits.  What a task waits for is stored in the value of its event
  item, the top byte of which holds the kind of wait.  The calls that may block are cut where
  the task may be switched out, at the end of the part with the scheduler suspended.
\<close>

section \<open>State\<close>

text \<open>\<open>EventGroup_t\<close>; the list of waiting tasks of the group at address \<open>g\<close> is \<open>WaitingForBits g\<close>.\<close>

record event_group =
  uxEventBits :: u32

record ekernel = qkernel +
  event_groups :: "nat \<Rightarrow> event_group"

definition eventCLEAR_EVENTS_ON_EXIT_BIT :: u32 where
  "eventCLEAR_EVENTS_ON_EXIT_BIT = 0x01000000"

definition eventUNBLOCKED_DUE_TO_BIT_SET :: u32 where
  "eventUNBLOCKED_DUE_TO_BIT_SET = 0x02000000"

definition eventWAIT_FOR_ALL_BITS :: u32 where
  "eventWAIT_FOR_ALL_BITS = 0x04000000"

definition eventEVENT_BITS_CONTROL_BYTES :: u32 where
  "eventEVENT_BITS_CONTROL_BYTES = 0xff000000"

text \<open>\<open>sizeof( EventGroup_t )\<close>: a word and a list of 20 bytes.\<close>

definition sizeof_EventGroup :: nat where
  "sizeof_EventGroup = 24"

definition group_bits :: "nat \<Rightarrow> 'a ekernel_scheme \<Rightarrow> u32" where
  "group_bits g s = uxEventBits (event_groups s g)"

definition write_bits :: "nat \<Rightarrow> u32 \<Rightarrow> 'a ekernel_scheme \<Rightarrow> 'a ekernel_scheme" where
  "write_bits g v s = s\<lparr>event_groups := (event_groups s)(g := (event_groups s g)\<lparr>uxEventBits := v\<rparr>)\<rparr>"

section \<open>Operations\<close>

definition xEventGroupCreate :: "'a ekernel_scheme \<Rightarrow> ('a ekernel_scheme \<times> nat) option" where
  "xEventGroupCreate s =
     do {
       (s, g) \<leftarrow> kernel_malloc sizeof_EventGroup s;
       Some (if g \<noteq> 0 then init_list (WaitingForBits g) (write_bits g 0 s) else s, g)
     }"

definition prvTestWaitCondition :: "u32 \<Rightarrow> u32 \<Rightarrow> bool \<Rightarrow> bool" where
  "prvTestWaitCondition uxCurrentEventBits uxBitsToWaitFor xWaitForAllBits =
     (if \<not> xWaitForAllBits then uxCurrentEventBits AND uxBitsToWaitFor \<noteq> 0
      else uxCurrentEventBits AND uxBitsToWaitFor = uxBitsToWaitFor)"

text \<open>\<open>listGET_HEAD_ENTRY\<close> and \<open>listGET_NEXT\<close>; \<open>None\<close> is the end marker of the list.\<close>

definition listGET_HEAD_ENTRY_item :: "klist \<Rightarrow> 'a kernel_scheme \<Rightarrow> kitem option" where
  "listGET_HEAD_ENTRY_item l s = (case items s l of [] \<Rightarrow> None | i # _ \<Rightarrow> Some i)"

definition listGET_NEXT_item :: "klist \<Rightarrow> kitem \<Rightarrow> 'a kernel_scheme \<Rightarrow> kitem option" where
  "listGET_NEXT_item l i s = (case tl (dropWhile (\<lambda>j. j \<noteq> i) (items s l)) of [] \<Rightarrow> None | j # _ \<Rightarrow> Some j)"

text \<open>The test in the loop of \<open>xEventGroupSetBits\<close>: the item value \<open>v\<close> against the bits of the group.\<close>

definition xMatchFound :: "u32 \<Rightarrow> u32 \<Rightarrow> bool" where
  "xMatchFound v uxBits =
     (let uxControlBits = v AND eventEVENT_BITS_CONTROL_BYTES;
          uxBitsWaitedFor = v AND NOT eventEVENT_BITS_CONTROL_BYTES in
      if uxControlBits AND eventWAIT_FOR_ALL_BITS = 0 then uxBitsWaitedFor AND uxBits \<noteq> 0
      else uxBitsWaitedFor AND uxBits = uxBitsWaitedFor)"

definition clear_on_exit :: "u32 \<Rightarrow> u32 \<Rightarrow> u32" where
  "clear_on_exit v uxBitsToClear =
     (let uxControlBits = v AND eventEVENT_BITS_CONTROL_BYTES;
          uxBitsWaitedFor = v AND NOT eventEVENT_BITS_CONTROL_BYTES in
      if uxControlBits AND eventCLEAR_EVENTS_ON_EXIT_BIT \<noteq> 0 then uxBitsToClear OR uxBitsWaitedFor
      else uxBitsToClear)"

partial_function (option) set_bits_loop ::
  "nat \<Rightarrow> kitem option \<Rightarrow> u32 \<Rightarrow> 'a ekernel_scheme \<Rightarrow> ('a ekernel_scheme \<times> u32) option" where
  "set_bits_loop g pxListItem uxBitsToClear s =
     (case pxListItem of
        None \<Rightarrow> Some (s, uxBitsToClear)
      | Some i \<Rightarrow>
          let pxNext = listGET_NEXT_item (WaitingForBits g) i s;
              uxBitsWaitedFor = listGET_LIST_ITEM_VALUE i s in
          if xMatchFound uxBitsWaitedFor (group_bits g s)
          then do {
            let uxBitsToClear = clear_on_exit uxBitsWaitedFor uxBitsToClear;
            s \<leftarrow> vTaskRemoveFromUnorderedEventList (owner i)
                  (group_bits g s OR eventUNBLOCKED_DUE_TO_BIT_SET) s;
            set_bits_loop g pxNext uxBitsToClear s
          }
          else set_bits_loop g pxNext uxBitsToClear s)"

definition xEventGroupSetBits :: "nat \<Rightarrow> u32 \<Rightarrow> 'a ekernel_scheme \<Rightarrow> ('a ekernel_scheme \<times> u32) option" where
  "xEventGroupSetBits g uxBitsToSet s =
     do {
       configASSERT (g \<noteq> 0);
       configASSERT (uxBitsToSet AND eventEVENT_BITS_CONTROL_BYTES = 0);
       let s = vTaskSuspendAll s;
       let pxListItem = listGET_HEAD_ENTRY_item (WaitingForBits g) s;
       let s = write_bits g (group_bits g s OR uxBitsToSet) s;
       (s, uxBitsToClear) \<leftarrow> set_bits_loop g pxListItem 0 s;
       let s = write_bits g (group_bits g s AND NOT uxBitsToClear) s;
       (s, _) \<leftarrow> xTaskResumeAll s;
       Some (s, group_bits g s)
     }"

definition xEventGroupClearBits :: "nat \<Rightarrow> u32 \<Rightarrow> 'a ekernel_scheme \<Rightarrow> ('a ekernel_scheme \<times> u32) option" where
  "xEventGroupClearBits g uxBitsToClear s =
     do {
       configASSERT (g \<noteq> 0);
       configASSERT (uxBitsToClear AND eventEVENT_BITS_CONTROL_BYTES = 0);
       let uxReturn = group_bits g s;
       Some (write_bits g (group_bits g s AND NOT uxBitsToClear) s, uxReturn)
     }"

definition xEventGroupGetBitsFromISR :: "nat \<Rightarrow> 'a ekernel_scheme \<Rightarrow> u32" where
  "xEventGroupGetBitsFromISR g s = group_bits g s"

text \<open>
  A wait up to the point where the task yields: \<open>Some r\<close> is a call that has returned \<open>r\<close>, \<open>None\<close>
  one that continues with its end part once the task runs again.
\<close>

definition xEventGroupWaitBits_wait ::
  "nat \<Rightarrow> u32 \<Rightarrow> bool \<Rightarrow> bool \<Rightarrow> u32 \<Rightarrow> 'a ekernel_scheme \<Rightarrow> ('a ekernel_scheme \<times> u32 option) option" where
  "xEventGroupWaitBits_wait g uxBitsToWaitFor xClearOnExit xWaitForAllBits xTicksToWait s =
     do {
       configASSERT (g \<noteq> 0);
       configASSERT (uxBitsToWaitFor AND eventEVENT_BITS_CONTROL_BYTES = 0);
       configASSERT (uxBitsToWaitFor \<noteq> 0);
       configASSERT (may_wait xTicksToWait s);
       let s = vTaskSuspendAll s;
       let uxCurrentEventBits = group_bits g s;
       (s, uxReturn, xTicksToWait) \<leftarrow>
         (if prvTestWaitCondition uxCurrentEventBits uxBitsToWaitFor xWaitForAllBits
          then Some (if xClearOnExit then write_bits g (group_bits g s AND NOT uxBitsToWaitFor) s else s,
                     uxCurrentEventBits, 0)
          else if xTicksToWait = 0 then Some (s, uxCurrentEventBits, xTicksToWait)
          else do {
            let uxControlBits = (if xClearOnExit then eventCLEAR_EVENTS_ON_EXIT_BIT else 0);
            let uxControlBits =
              (if xWaitForAllBits then uxControlBits OR eventWAIT_FOR_ALL_BITS else uxControlBits);
            s \<leftarrow> vTaskPlaceOnUnorderedEventList (WaitingForBits g) (uxBitsToWaitFor OR uxControlBits) xTicksToWait s;
            Some (s, 0, xTicksToWait)
          });
       (s, xAlreadyYielded) \<leftarrow> xTaskResumeAll s;
       if xTicksToWait \<noteq> 0 then Some (if \<not> xAlreadyYielded then portYIELD s else s, None)
       else Some (s, Some uxReturn)
     }"

definition xEventGroupWaitBits_end ::
  "nat \<Rightarrow> u32 \<Rightarrow> bool \<Rightarrow> bool \<Rightarrow> 'a ekernel_scheme \<Rightarrow> 'a ekernel_scheme \<times> u32" where
  "xEventGroupWaitBits_end g uxBitsToWaitFor xClearOnExit xWaitForAllBits s =
     (let (s, uxReturn) = uxTaskResetEventItemValue s;
          (s, uxReturn) =
            (if uxReturn AND eventUNBLOCKED_DUE_TO_BIT_SET = 0
             then (if prvTestWaitCondition (group_bits g s) uxBitsToWaitFor xWaitForAllBits \<and> xClearOnExit
                   then write_bits g (group_bits g s AND NOT uxBitsToWaitFor) s else s, group_bits g s)
             else (s, uxReturn))
      in (s, uxReturn AND NOT eventEVENT_BITS_CONTROL_BYTES))"

definition xEventGroupSync_wait ::
  "nat \<Rightarrow> u32 \<Rightarrow> u32 \<Rightarrow> u32 \<Rightarrow> 'a ekernel_scheme \<Rightarrow> ('a ekernel_scheme \<times> u32 option) option" where
  "xEventGroupSync_wait g uxBitsToSet uxBitsToWaitFor xTicksToWait s =
     do {
       configASSERT (uxBitsToWaitFor AND eventEVENT_BITS_CONTROL_BYTES = 0);
       configASSERT (uxBitsToWaitFor \<noteq> 0);
       configASSERT (may_wait xTicksToWait s);
       let s = vTaskSuspendAll s;
       let uxOriginalBitValue = group_bits g s;
       (s, _) \<leftarrow> xEventGroupSetBits g uxBitsToSet s;
       (s, uxReturn, xTicksToWait) \<leftarrow>
         (if (uxOriginalBitValue OR uxBitsToSet) AND uxBitsToWaitFor = uxBitsToWaitFor
          then Some (write_bits g (group_bits g s AND NOT uxBitsToWaitFor) s, uxOriginalBitValue OR uxBitsToSet, 0)
          else if xTicksToWait \<noteq> 0
          then do {
            s \<leftarrow> vTaskPlaceOnUnorderedEventList (WaitingForBits g)
                  (uxBitsToWaitFor OR eventCLEAR_EVENTS_ON_EXIT_BIT OR eventWAIT_FOR_ALL_BITS) xTicksToWait s;
            Some (s, 0, xTicksToWait)
          }
          else Some (s, group_bits g s, xTicksToWait));
       (s, xAlreadyYielded) \<leftarrow> xTaskResumeAll s;
       if xTicksToWait \<noteq> 0 then Some (if \<not> xAlreadyYielded then portYIELD s else s, None)
       else Some (s, Some uxReturn)
     }"

definition xEventGroupSync_end :: "nat \<Rightarrow> u32 \<Rightarrow> 'a ekernel_scheme \<Rightarrow> 'a ekernel_scheme \<times> u32" where
  "xEventGroupSync_end g uxBitsToWaitFor s =
     (let (s, uxReturn) = uxTaskResetEventItemValue s;
          (s, uxReturn) =
            (if uxReturn AND eventUNBLOCKED_DUE_TO_BIT_SET = 0
             then (if group_bits g s AND uxBitsToWaitFor = uxBitsToWaitFor
                   then write_bits g (group_bits g s AND NOT uxBitsToWaitFor) s else s, group_bits g s)
             else (s, uxReturn))
      in (s, uxReturn AND NOT eventEVENT_BITS_CONTROL_BYTES))"

partial_function (option) delete_loop :: "nat \<Rightarrow> 'a ekernel_scheme \<Rightarrow> 'a ekernel_scheme option" where
  "delete_loop g s =
     (case listGET_HEAD_ENTRY_item (WaitingForBits g) s of
        None \<Rightarrow> Some s
      | Some i \<Rightarrow> do {
          s \<leftarrow> vTaskRemoveFromUnorderedEventList (owner i) eventUNBLOCKED_DUE_TO_BIT_SET s;
          delete_loop g s
        })"

definition vEventGroupDelete :: "nat \<Rightarrow> 'a ekernel_scheme \<Rightarrow> 'a ekernel_scheme option" where
  "vEventGroupDelete g s =
     do {
       configASSERT (g \<noteq> 0);
       s \<leftarrow> delete_loop g (vTaskSuspendAll s);
       (s, _) \<leftarrow> xTaskResumeAll s;
       kernel_free g s
     }"

definition vEventGroupSetBitsCallback :: "nat \<Rightarrow> u32 \<Rightarrow> 'a ekernel_scheme \<Rightarrow> 'a ekernel_scheme option" where
  "vEventGroupSetBitsCallback g ulBitsToSet s = map_option fst (xEventGroupSetBits g ulBitsToSet s)"

definition vEventGroupClearBitsCallback :: "nat \<Rightarrow> u32 \<Rightarrow> 'a ekernel_scheme \<Rightarrow> 'a ekernel_scheme option" where
  "vEventGroupClearBitsCallback g ulBitsToClear s = map_option fst (xEventGroupClearBits g ulBitsToClear s)"

section \<open>Waking the waiters of a group\<close>

text \<open>Unblocking a waiter with the value \<open>v\<close> for its event item.\<close>

definition bits_woken :: "u32 \<Rightarrow> nat \<Rightarrow> 'a kernel_scheme \<Rightarrow> 'a kernel_scheme" where
  "bits_woken v t s =
     set_yield (xYieldPending s \<or> uxPriority (tcb s t) > uxPriority (tcb s (pxCurrentTCB s)))
       (unblock t (set_item_value (EventItem t) (v OR taskEVENT_LIST_ITEM_VALUE_IN_USE) s))"

lemma event_list_bits [simp]: "event_list (WaitingForBits g)"
  by simp

lemma set_event_value_tinv:
  assumes "tinv S E s"
  shows "tinv S E (set_item_value (EventItem t) v s)"
  by (rule sframe_tinv [OF assms kinv_set_event_value [OF tinv_kinv [OF assms]]])
    (simp add: sframe_def set_item_value_def)

lemma bits_woken_lists:
  "acont (lists (bits_woken v t s)) i =
     (if i = StateItem t then Some (Ready (uxPriority (tcb s t)))
      else if i = EventItem t then None else acont (lists s) i)"
  "aval (lists (bits_woken v t s)) = (aval (lists s))(EventItem t := v OR taskEVENT_LIST_ITEM_VALUE_IN_USE)"
  by (auto simp: bits_woken_def set_yield_def unblock_cont set_item_value_def)

lemma bits_woken_sel [simp]:
  "tcb (bits_woken v t s) = tcb s" "uxSchedulerSuspended (bits_woken v t s) = uxSchedulerSuspended s"
  "pxCurrentTCB (bits_woken v t s) = pxCurrentTCB s" "kernel.more (bits_woken v t s) = kernel.more s"
  "kheap (bits_woken v t s) = kheap s" "xPendedTicks (bits_woken v t s) = xPendedTicks s"
  "xIdleTaskHandle (bits_woken v t s) = xIdleTaskHandle s" "xSchedulerRunning (bits_woken v t s) = xSchedulerRunning s"
  by (simp_all add: bits_woken_def set_yield_def unblock_def set_item_value_def)

lemma waiter_of_group:
  assumes inv: "kinv s" and i: "i \<in> set (items s (WaitingForBits g))"
  obtains t m where "i = EventItem t" and "t \<noteq> 0" and "acont (lists s) (EventItem t) = Some (WaitingForBits g)"
    and "acont (lists s) (StateItem t) = Some m" and "blocked_list m"
proof -
  have c: "acont (lists s) i = Some (WaitingForBits g)"
    using i inv set_alist [of "lists s" i] by (simp add: items_def kinv_def kinv0_def)
  show ?thesis using event_waiter [OF inv event_list_bits c] c that by metis
qed

lemma remove_unordered:
  assumes inv: "tinv S E s" and susp: "uxSchedulerSuspended s \<noteq> 0"
    and i: "EventItem t \<in> set (items s (WaitingForBits g))"
  shows "vTaskRemoveFromUnorderedEventList t v s = Some (bits_woken v t s)"
    and "tinv S E (bits_woken v t s)" and "sframe s (bits_woken v t s)"
    and "items (bits_woken v t s) (WaitingForBits g) = remove1 (EventItem t) (items s (WaitingForBits g))"
proof -
  obtain m where t: "t \<noteq> 0" "acont (lists s) (EventItem t) = Some (WaitingForBits g)"
    "acont (lists s) (StateItem t) = Some m" "blocked_list m"
    using waiter_of_group [OF tinv_kinv [OF inv] i] by blast
  let ?v = "set_item_value (EventItem t) (v OR taskEVENT_LIST_ITEM_VALUE_IN_USE) s"
  show "vTaskRemoveFromUnorderedEventList t v s = Some (bits_woken v t s)"
    using susp t by (simp add: vTaskRemoveFromUnorderedEventList_def configASSERT_def Let_def set_item_value_def
        listREMOVE_ITEM_eq prvAddTaskToReadyList_eq bits_woken_def unblock_def) (simp add: set_yield_def)
  have v: "tinv S E ?v" by (rule set_event_value_tinv [OF inv])
  have st: "acont (lists ?v) (StateItem t) \<noteq> None" "acont (lists ?v) (StateItem t) \<noteq> Some TasksWaitingTermination"
    using t by (auto simp: set_item_value_def)
  have "tinv S E (unblock t ?v)"
    by (rule sframe_tinv [OF v unblock_kinv [OF tinv_kinv [OF v] st(1)] sframe_unblock [OF st]])
  then show "tinv S E (bits_woken v t s)" by (simp add: bits_woken_def set_yield_tinv)
  show "sframe s (bits_woken v t s)"
    using t by (auto simp: sframe_def bits_woken_lists bits_woken_def set_yield_def unblock_def set_item_value_def)
  have "m \<noteq> WaitingForBits g" using t(4) by (auto simp: blocked_list_def)
  then show "items (bits_woken v t s) (WaitingForBits g) = remove1 (EventItem t) (items s (WaitingForBits g))"
    using t by (simp add: bits_woken_def set_yield_def items_def unblock_def set_item_value_def)
qed

text \<open>Waking a set \<open>W\<close> of waiters with the same value.\<close>

definition woken_all :: "nat set \<Rightarrow> u32 \<Rightarrow> 'a kernel_scheme \<Rightarrow> 'a kernel_scheme \<Rightarrow> bool" where
  "woken_all W v s s' \<longleftrightarrow>
     sframe s s' \<and> uxSchedulerSuspended s' = uxSchedulerSuspended s \<and> xPendedTicks s' = xPendedTicks s \<and>
     (\<forall>t. acont (lists s') (StateItem t) = (if t \<in> W then Some (Ready (uxPriority (tcb s t))) else acont (lists s) (StateItem t)) \<and>
        acont (lists s') (EventItem t) = (if t \<in> W then None else acont (lists s) (EventItem t)) \<and>
        aval (lists s') (StateItem t) = aval (lists s) (StateItem t) \<and>
        aval (lists s') (EventItem t) =
          (if t \<in> W then v OR taskEVENT_LIST_ITEM_VALUE_IN_USE else aval (lists s) (EventItem t)))"

lemma woken_all_none [simp]: "woken_all {} v s s"
  by (simp add: woken_all_def)

lemma woken_all_step:
  assumes "sframe s (bits_woken v t s)" and "woken_all W v (bits_woken v t s) s'" and "t \<notin> W"
  shows "woken_all (insert t W) v s s'"
  using assms sframe_trans [OF assms(1)] by (auto simp: woken_all_def bits_woken_lists)

lemma distinct_items: "kinv s \<Longrightarrow> distinct (items s l)"
  by (simp add: kinv_def kinv0_def awf_def items_def)

lemma next_in_list:
  assumes "items s l = xs @ i # ys" and "distinct (items s l)"
  shows "listGET_NEXT_item l i s = (case ys of [] \<Rightarrow> None | j # _ \<Rightarrow> Some j)"
proof -
  have "dropWhile (\<lambda>j. j \<noteq> i) (xs @ i # ys) = i # ys"
    using assms by (subst dropWhile_append2) auto
  then show ?thesis using assms by (simp add: listGET_NEXT_item_def)
qed

definition first_of :: "kitem list \<Rightarrow> kitem option" where
  "first_of xs = (case xs of [] \<Rightarrow> None | i # _ \<Rightarrow> Some i)"

lemma bits_woken_group [simp]: "group_bits g (bits_woken v t s) = group_bits g s"
  by (simp add: group_bits_def bits_woken_def set_yield_def unblock_def set_item_value_def)

text \<open>
  The loop over the waiters ends, wakes exactly those whose condition the bits meet, and
  collects the bits to clear.
\<close>

lemma set_bits_loop_ok:
  assumes "tinv S E s" and "uxSchedulerSuspended s \<noteq> 0" and "items s (WaitingForBits g) = xs @ ys"
  shows "\<exists>s'. set_bits_loop g (first_of ys) c s =
      Some (s', fold (\<lambda>i. clear_on_exit (aval (lists s) i)) (filter (\<lambda>i. xMatchFound (aval (lists s) i) (group_bits g s)) ys) c) \<and>
    tinv S E s' \<and> items s' (WaitingForBits g) = xs @ filter (\<lambda>i. \<not> xMatchFound (aval (lists s) i) (group_bits g s)) ys \<and>
    woken_all (owner ` {i \<in> set ys. xMatchFound (aval (lists s) i) (group_bits g s)})
      (group_bits g s OR eventUNBLOCKED_DUE_TO_BIT_SET) s s'"
  using assms
proof (induction ys arbitrary: s xs c)
  case Nil
  then show ?case by (subst set_bits_loop.simps) (simp add: first_of_def)
next
  case (Cons i ys)
  let ?l = "WaitingForBits g" and ?b = "group_bits g s"
  let ?v = "?b OR eventUNBLOCKED_DUE_TO_BIT_SET"
  have d: "distinct (xs @ i # ys)" using distinct_items [OF tinv_kinv [OF Cons.prems(1)], of ?l] Cons.prems(3) by simp
  have n: "listGET_NEXT_item ?l i s = first_of ys"
    using next_in_list [OF Cons.prems(3)] d Cons.prems(3) by (simp add: first_of_def)
  obtain t where t: "i = EventItem t" using waiter_of_group [OF tinv_kinv [OF Cons.prems(1)], of i g] Cons.prems(3) by auto
  have all: "\<exists>u. j = EventItem u" if "j \<in> set ys" for j
    using waiter_of_group [OF tinv_kinv [OF Cons.prems(1)], of j g] Cons.prems(3) that by auto
  show ?case
  proof (cases "xMatchFound (aval (lists s) i) ?b")
    case False
    then have "set_bits_loop g (first_of (i # ys)) c s = set_bits_loop g (first_of ys) c s"
      by (subst set_bits_loop.simps) (simp add: first_of_def [of "i # ys"] n listGET_LIST_ITEM_VALUE_def)
    moreover have "{j \<in> set (i # ys). xMatchFound (aval (lists s) j) ?b} = {j \<in> set ys. xMatchFound (aval (lists s) j) ?b}"
      using False by auto
    ultimately show ?thesis
      using Cons.IH [OF Cons.prems(1,2), of "xs @ [i]" c] Cons.prems(3) False by simp
  next
    case True
    have m: "EventItem t \<in> set (items s ?l)" using Cons.prems(3) t by simp
    note r = remove_unordered [OF Cons.prems(1,2) m, of ?v]
    let ?w = "bits_woken ?v t s"
    have it: "items ?w ?l = xs @ ys" using r(4) Cons.prems(3) d t by (simp add: remove1_append)
    have av: "aval (lists ?w) j = aval (lists s) j" if "j \<in> set ys" for j
      using d t that by (auto simp: bits_woken_lists)
    let ?c = "clear_on_exit (aval (lists s) i) c"
    obtain s' where s': "set_bits_loop g (first_of ys) ?c ?w =
        Some (s', fold (\<lambda>i. clear_on_exit (aval (lists ?w) i)) (filter (\<lambda>i. xMatchFound (aval (lists ?w) i) ?b) ys) ?c)"
      "tinv S E s'" "items s' ?l = xs @ filter (\<lambda>i. \<not> xMatchFound (aval (lists ?w) i) ?b) ys"
      "woken_all (owner ` {i \<in> set ys. xMatchFound (aval (lists ?w) i) ?b}) ?v ?w s'"
      using Cons.IH [OF r(2) _ it, of ?c] Cons.prems(2) by auto
    have f: "filter (\<lambda>i. xMatchFound (aval (lists ?w) i) ?b) ys = filter (\<lambda>i. xMatchFound (aval (lists s) i) ?b) ys"
      "filter (\<lambda>i. \<not> xMatchFound (aval (lists ?w) i) ?b) ys = filter (\<lambda>i. \<not> xMatchFound (aval (lists s) i) ?b) ys"
      using av by (auto intro!: filter_cong)
    have e: "{i \<in> set ys. xMatchFound (aval (lists ?w) i) ?b} = {i \<in> set ys. xMatchFound (aval (lists s) i) ?b}"
      using av by auto
    have fo: "fold (\<lambda>i. clear_on_exit (aval (lists ?w) i)) (filter P ys) ?c =
        fold (\<lambda>i. clear_on_exit (aval (lists s) i)) (filter P ys) ?c" for P
      by (rule fold_cong) (use av in auto)
    have nt: "t \<notin> owner ` {i \<in> set ys. xMatchFound (aval (lists s) i) ?b}"
    proof
      assume "t \<in> owner ` {i \<in> set ys. xMatchFound (aval (lists s) i) ?b}"
      then obtain j where "j \<in> set ys" "t = owner j" by auto
      with all [of j] have "EventItem t \<in> set ys" by auto
      with d t show False by simp
    qed
    have "set_bits_loop g (first_of (i # ys)) c s = set_bits_loop g (first_of ys) ?c ?w"
      using True r(1) t n [unfolded t] by (subst set_bits_loop.simps) (simp add: first_of_def [of "EventItem t # ys"] listGET_LIST_ITEM_VALUE_def Let_def)
    moreover have "woken_all (insert t (owner ` {i \<in> set ys. xMatchFound (aval (lists s) i) ?b})) ?v s s'"
      by (rule woken_all_step [OF r(3) _ nt]) (use s'(4) e in simp)
    moreover have "{j \<in> set (i # ys). xMatchFound (aval (lists s) j) ?b} =
        insert (EventItem t) {j \<in> set ys. xMatchFound (aval (lists s) j) ?b}"
      using True t by auto
    ultimately show ?thesis using s' f fo True by simp
  qed
qed

section \<open>Setting bits\<close>

lemma pending_readied_aval [simp]: "aval (lists (pending_readied s)) = aval (lists s)"
  by (simp add: pending_readied_def Let_def)

lemma ticks_aval [simp]: "aval (lists ((tick_result ^^ n) s)) = aval (lists s)"
  by (induction n) simp_all

lemma resumed_aval [simp]: "aval (lists (resumed s)) = aval (lists s)"
  by (simp add: resumed_def Let_def)

text \<open>Resuming the scheduler; without pending tasks and ticks the lists stay as they are.\<close>

lemma resume_values:
  assumes inv: "tinv S E s" and susp: "uxSchedulerSuspended s \<noteq> 0"
  obtains s' b where "xTaskResumeAll s = Some (s', b)" and "tinv S E s'" and "sframe s s'"
    and "uxSchedulerSuspended s' = uxSchedulerSuspended s - 1" and "aval (lists s') = aval (lists s)"
    and "(uxSchedulerSuspended s = 1 \<Longrightarrow> xPendedTicks s = 0 \<and> (\<forall>i. acont (lists s) i \<noteq> Some PendingReadyList)) \<Longrightarrow>
      lists s' = lists s"
proof -
  obtain s' b where s': "xTaskResumeAll s = Some (s', b)" "tinv S E s'" "sframe s s'"
    "uxSchedulerSuspended s' = uxSchedulerSuspended s - 1"
    by (rule resume_tinv [OF inv susp])
  show ?thesis
  proof (cases "uxSchedulerSuspended s = 1")
    case True
    have "s' = resumed s"
      using xTaskResumeAll_result(1) [OF tinv_kinv [OF inv] True finite_tasks_card(3) [OF inv]] s'(1) by simp
    then show ?thesis
      using that [OF s'] resumed_calm(1) [OF tinv_kinv [OF inv]] True by auto
  next
    case False
    then have "s' = s\<lparr>uxSchedulerSuspended := uxSchedulerSuspended s - 1\<rparr>"
      using s'(1) susp by (simp add: xTaskResumeAll_def configASSERT_def)
    then show ?thesis using that [OF s'] False by simp
  qed
qed

lemma ksame_write_bits [simp]: "ksame s (write_bits g v s)"
  by (simp add: ksame_def write_bits_def) (metis heap.surjective heap.update_convs(5))

lemma write_bits_sel [simp]:
  "lists (write_bits g v s) = lists s" "tcb (write_bits g v s) = tcb s"
  "uxSchedulerSuspended (write_bits g v s) = uxSchedulerSuspended s" "items (write_bits g v s) l = items s l"
  "pxCurrentTCB (write_bits g v s) = pxCurrentTCB s" "xPendedTicks (write_bits g v s) = xPendedTicks s"
  "group_bits h (write_bits g v s) = (if h = g then v else group_bits h s)"
  "xIdleTaskHandle (write_bits g v s) = xIdleTaskHandle s" "xSchedulerRunning (write_bits g v s) = xSchedulerRunning s"
  by (simp_all add: write_bits_def group_bits_def items_def)

lemma write_bits_tinv: "tinv S E s \<Longrightarrow> tinv S E (write_bits g v s)"
  by (erule tinv_ksame) simp

lemma more_groups: "kernel.more s' = kernel.more s \<Longrightarrow> group_bits g s' = group_bits g s"
  by (cases s; cases s') (simp add: group_bits_def)

lemma group_bits_suspend [simp]: "group_bits g (vTaskSuspendAll s) = group_bits g s"
  by (simp add: group_bits_def vTaskSuspendAll_def)

lemma items_suspend [simp]: "items (vTaskSuspendAll s) l = items s l"
  by (simp add: items_def)

lemma pended_suspend [simp]: "xPendedTicks (vTaskSuspendAll s) = xPendedTicks s"
  by (simp add: vTaskSuspendAll_def)

lemma head_first_of: "listGET_HEAD_ENTRY_item l s = first_of (items s l)"
  by (simp add: listGET_HEAD_ENTRY_item_def first_of_def)

text \<open>The waiters that setting bits to \<open>new\<close> satisfies, and the bits they clear.\<close>

definition satisfied :: "nat \<Rightarrow> u32 \<Rightarrow> 'a kernel_scheme \<Rightarrow> kitem list" where
  "satisfied g new s = filter (\<lambda>i. xMatchFound (aval (lists s) i) new) (items s (WaitingForBits g))"

definition cleared :: "nat \<Rightarrow> u32 \<Rightarrow> 'a kernel_scheme \<Rightarrow> u32" where
  "cleared g new s = fold (\<lambda>i. clear_on_exit (aval (lists s) i)) (satisfied g new s) 0"

lemma satisfied_events:
  assumes inv: "kinv s"
  shows "t \<in> owner ` set (satisfied g new s) \<longleftrightarrow> EventItem t \<in> set (satisfied g new s)"
proof
  assume "t \<in> owner ` set (satisfied g new s)"
  then obtain i where i: "i \<in> set (satisfied g new s)" "t = owner i" by auto
  then obtain u where "i = EventItem u" using waiter_of_group [OF inv, of i g] by (auto simp: satisfied_def)
  with i show "EventItem t \<in> set (satisfied g new s)" by simp
qed force

lemma set_bits_ok:
  fixes s :: "'a ekernel_scheme"
  assumes inv: "tinv S E s" and g: "g \<noteq> 0" and b: "b AND eventEVENT_BITS_CONTROL_BYTES = 0"
    and susp: "uxSchedulerSuspended s + 1 \<noteq> 0"
    and new: "new = group_bits g s OR b" and fin: "fin = new AND NOT (cleared g new s)"
  obtains u s' where "xEventGroupSetBits g b s = Some (s', fin)" and "tinv S E s'"
    and "woken_all (owner ` set (satisfied g new s)) (new OR eventUNBLOCKED_DUE_TO_BIT_SET)
          (write_bits g new (vTaskSuspendAll s)) u"
    and "sframe (write_bits g fin u) s'" and "uxSchedulerSuspended s' = uxSchedulerSuspended s"
    and "aval (lists s') = aval (lists u)"
    and "items u (WaitingForBits g) = filter (\<lambda>i. \<not> xMatchFound (aval (lists s) i) new) (items s (WaitingForBits g))"
    and "(uxSchedulerSuspended s = 0 \<longrightarrow> xPendedTicks s = 0) \<longrightarrow> lists s' = lists u"
proof -
  let ?l = "WaitingForBits g" and ?s1 = "write_bits g new (vTaskSuspendAll s)"
  let ?W = "owner ` set (satisfied g new s)" and ?v = "new OR eventUNBLOCKED_DUE_TO_BIT_SET"
  have s1: "tinv S E ?s1" by (rule write_bits_tinv [OF suspend_all_tinv [OF inv susp]])
  have it: "items ?s1 ?l = [] @ items s ?l" by simp
  obtain u where u: "set_bits_loop g (first_of (items s ?l)) 0 ?s1 = Some (u, cleared g new s)" "tinv S E u"
    "items u ?l = filter (\<lambda>i. \<not> xMatchFound (aval (lists s) i) new) (items s ?l)" "woken_all ?W ?v ?s1 u"
    using set_bits_loop_ok [OF s1 _ it, of 0] susp by (auto simp: cleared_def satisfied_def)
  have gu: "group_bits h u = (if h = g then new else group_bits h s)" for h
    using more_groups [of u ?s1 h] u(4) by (simp add: woken_all_def sframe_def)
  let ?u = "write_bits g fin u"
  have fu: "uxSchedulerSuspended ?u = uxSchedulerSuspended s + 1" "xPendedTicks ?u = xPendedTicks s"
    using u(4) by (simp_all add: woken_all_def)
  obtain s' w where s': "xTaskResumeAll ?u = Some (s', w)" "tinv S E s'" "sframe ?u s'"
    "uxSchedulerSuspended s' = uxSchedulerSuspended s" "aval (lists s') = aval (lists u)"
    and calm: "(uxSchedulerSuspended s + 1 = 1 \<Longrightarrow> xPendedTicks s = 0 \<and> (\<forall>i. acont (lists u) i \<noteq> Some PendingReadyList)) \<Longrightarrow>
      lists s' = lists u"
    using resume_values [OF write_bits_tinv [OF u(2)], of g fin] susp fu by auto
  have gs': "group_bits g s' = fin"
    using more_groups [of s' ?u g] s'(3) by (simp add: sframe_def)
  have "xEventGroupSetBits g b s = Some (s', fin)"
    using g b u(1) s'(1) gs' new fin gu [of g]
    by (simp add: xEventGroupSetBits_def configASSERT_def head_first_of Let_def)
  moreover have "lists s' = lists u" if p: "uxSchedulerSuspended s = 0 \<longrightarrow> xPendedTicks s = 0"
  proof (rule calm)
    assume "uxSchedulerSuspended s + 1 = 1"
    then have z: "uxSchedulerSuspended s = 0" by simp
    then have "acont (lists s) i \<noteq> Some PendingReadyList" for i
      using inv by (simp add: tinv_def kinv_def none_pending_def)
    then have "acont (lists u) i \<noteq> Some PendingReadyList" for i
      using u(4) by (cases i) (auto simp: woken_all_def)
    then show "xPendedTicks s = 0 \<and> (\<forall>i. acont (lists u) i \<noteq> Some PendingReadyList)" using p z by blast
  qed
  ultimately show ?thesis using that s' u by blast
qed


section \<open>No missed wake-up\<close>

text \<open>
  Every task in the list of a group waits for a condition that the bits of the group do not
  meet, and its event item is marked as in use, so that a change of its priority leaves it alone.
\<close>

definition no_missed_wakeup :: "'a ekernel_scheme \<Rightarrow> bool" where
  "no_missed_wakeup s \<longleftrightarrow>
     (\<forall>t g. acont (lists s) (EventItem t) = Some (WaitingForBits g) \<longrightarrow>
        aval (lists s) (EventItem t) AND taskEVENT_LIST_ITEM_VALUE_IN_USE \<noteq> 0 \<and>
        \<not> xMatchFound (aval (lists s) (EventItem t)) (group_bits g s))"

text \<open>A step that lets no task join a group's list and keeps the event items of those in one.\<close>

definition wkeep :: "'a kernel_scheme \<Rightarrow> 'a kernel_scheme \<Rightarrow> bool" where
  "wkeep s s' \<longleftrightarrow>
     kernel.more s' = kernel.more s \<and>
     (\<forall>t g. acont (lists s') (EventItem t) = Some (WaitingForBits g) \<longrightarrow>
        acont (lists s) (EventItem t) = Some (WaitingForBits g) \<and>
        (aval (lists s) (EventItem t) AND taskEVENT_LIST_ITEM_VALUE_IN_USE \<noteq> 0 \<longrightarrow>
           aval (lists s') (EventItem t) = aval (lists s) (EventItem t)))"

lemma wkeep_missed: "no_missed_wakeup s \<Longrightarrow> wkeep s s' \<Longrightarrow> no_missed_wakeup s'"
  using more_groups [of s' s] by (auto simp: no_missed_wakeup_def wkeep_def)

lemma wkeep_refl [simp]: "wkeep s s"
  by (simp add: wkeep_def)

lemma wkeep_trans: "wkeep s s' \<Longrightarrow> wkeep s' s'' \<Longrightarrow> wkeep s s''"
  by (auto simp: wkeep_def)

lemma wkeep_sframe: "sframe s s' \<Longrightarrow> aval (lists s') = aval (lists s) \<Longrightarrow> wkeep s s'"
  unfolding wkeep_def sframe_def by (metis option.distinct(1))

lemma wkeep_simps [simp]:
  "wkeep s (portYIELD s') = wkeep s s'" "wkeep s (set_notify t i x s') = wkeep s s'"
  "wkeep s (set_nvalue t i v s') = wkeep s s'" "wkeep s (upd_tcb t f s') = wkeep s s'"
  "wkeep s (prvResetNextTaskUnblockTime s') = wkeep s s'" "wkeep s (vTaskSuspendAll s') = wkeep s s'"
  "wkeep s (set_yield b s') = wkeep s s'" "wkeep s (set_pended n s') = wkeep s s'"
  by (simp_all add: wkeep_def portYIELD_def set_notify_def set_nvalue_def upd_tcb_def vTaskSuspendAll_def
      set_yield_def set_pended_def prvResetNextTaskUnblockTime_def split: list.splits)

lemma add_delayed_values:
  assumes "prvAddCurrentTaskToDelayedList n ind s = Some s'"
  shows "aval (lists s') (EventItem t) = aval (lists s) (EventItem t) \<and>
    acont (lists s') (EventItem t) = acont (lists s) (EventItem t) \<and> kernel.more s' = kernel.more s"
  using assms
  by (auto simp: prvAddCurrentTaskToDelayedList_def klist_ops listREMOVE_ITEM_def Let_def split: if_splits bind_splits)

lemma add_delayed_wkeep: "prvAddCurrentTaskToDelayedList n ind s = Some s' \<Longrightarrow> wkeep s s'"
  using add_delayed_values [of n ind s s'] by (simp add: wkeep_def)

lemma resume_wkeep:
  assumes "tinv S E s" and "uxSchedulerSuspended s \<noteq> 0" and "xTaskResumeAll s = Some (s', b)"
  shows "wkeep s s'"
proof -
  obtain u c where "xTaskResumeAll s = Some (u, c)" "sframe s u" "aval (lists u) = aval (lists s)"
    using resume_values [OF assms(1,2)] by blast
  then show ?thesis using wkeep_sframe assms(3) by auto
qed

text \<open>The kernel calls, but for creating and deleting tasks and for the lists of groups themselves.\<close>

fun beside_groups :: "kop \<Rightarrow> bool" where
  "beside_groups (Create code name depth par prio) = False"
| "beside_groups (Delete h) = False"
| "beside_groups CleanUp = False"
| "beside_groups (WaitOn l n) = (\<forall>g. l \<noteq> WaitingForBits g)"
| "beside_groups (Signal l) = (\<forall>g. l \<noteq> WaitingForBits g)"
| "beside_groups _ = True"

lemmas wkeep_unfold = wkeep_def listREMOVE_ITEM_def prvAddTaskToReadyList_eq klist_ops remove_event_def
  upd_tcb_def set_notify_def set_nvalue_def portYIELD_def Let_def configASSERT_def

lemma notify_action_wkeep [simp]: "wkeep s (fst (notify_action a t i v n s')) = wkeep s s'"
  by (cases a) (simp_all add: notify_action_def Let_def)

lemma tick_wkeep:
  assumes "kinv s" and "SysTick_Handler s = Some s'"
  shows "wkeep s s'"
proof (cases "uxSchedulerSuspended s = 0")
  case True
  have "wkeep s (tick_result s)" by (rule wkeep_sframe [OF sframe_tick [OF assms(1)]]) simp
  then show ?thesis using xTaskIncrementTick_result [OF assms(1) True] assms(2) by (auto simp: SysTick_Handler_def)
next
  case False
  then show ?thesis using assms(2) by (auto simp: SysTick_Handler_def xTaskIncrementTick_def wkeep_def portYIELD_def split: if_splits)
qed

lemma switch_wkeep: "vTaskSwitchContext s = Some s' \<Longrightarrow> wkeep s s'"
  by (auto simp: wkeep_def vTaskSwitchContext_def taskSELECT_HIGHEST_PRIORITY_TASK_def case_prod_unfold Let_def
      listGET_OWNER_OF_NEXT_ENTRY_def split: if_splits bind_splits)

lemma notify_wake_wkeep: "notify_wake_from_isr t s = Some (s', b) \<Longrightarrow> wkeep s s'"
  by (auto simp: notify_wake_from_isr_def wkeep_unfold split: if_splits bind_splits)

lemma priority_wkeep: "vTaskPrioritySet h p s = Some s' \<Longrightarrow> wkeep s s'"
  by (auto simp: vTaskPrioritySet_def wkeep_unfold split: if_splits bind_splits)

lemma resume_task_wkeep: "vTaskResume h s = Some s' \<Longrightarrow> wkeep s s'"
  by (auto simp: vTaskResume_def wkeep_unfold split: if_splits bind_splits)

lemma resume_isr_wkeep: "xTaskResumeFromISR h s = Some (s', b) \<Longrightarrow> wkeep s s'"
  by (auto simp: xTaskResumeFromISR_def wkeep_unfold split: if_splits bind_splits)

lemma signal_wkeep: "xTaskRemoveFromEventList l s = Some (s', r) \<Longrightarrow> wkeep s s'"
  by (auto simp: xTaskRemoveFromEventList_def wkeep_unfold split: if_splits bind_splits)

lemma wait_wkeep: "vTaskPlaceOnEventList l n s = Some s' \<Longrightarrow> (\<And>g. l \<noteq> WaitingForBits g) \<Longrightarrow> wkeep s s'"
proof -
  assume a: "vTaskPlaceOnEventList l n s = Some s'" and l: "\<And>g. l \<noteq> WaitingForBits g"
  note v = add_delayed_values [OF a [unfolded vTaskPlaceOnEventList_def]]
  show ?thesis using l by (auto simp: wkeep_def v) (auto simp: klist_ops split: if_splits)
qed

lemma take_wkeep: "ulTaskGenericNotifyTake_wait i n s = Some s' \<Longrightarrow> wkeep s s'"
  by (auto simp: ulTaskGenericNotifyTake_wait_def configASSERT_def Let_def split: if_splits bind_splits
      dest!: add_delayed_wkeep elim!: wkeep_trans [rotated])

lemma wait_notify_wkeep: "xTaskGenericNotifyWait_wait i b n s = Some s' \<Longrightarrow> wkeep s s'"
  by (auto simp: xTaskGenericNotifyWait_wait_def configASSERT_def Let_def split: if_splits bind_splits
      dest!: add_delayed_wkeep elim!: wkeep_trans [rotated])

lemma suspend_wkeep: "vTaskSuspend h s = Some s' \<Longrightarrow> wkeep s s'"
proof -
  assume s': "vTaskSuspend h s = Some s'"
  let ?t = "prvGetTCBFromHandle h s"
  obtain a b where a: "listREMOVE_ITEM (StateItem ?t) s = Some a" and b: "remove_event ?t a = Some b"
    using s' unfolding vTaskSuspend_def Let_def Option.bind_eq_Some_conv by blast
  let ?c = "upd_tcb ?t (ucNotifyState_update (\<lambda>f. f(0 := stop_waiting (f 0)))) (insert_end SuspendedTaskList (StateItem ?t) b)"
  let ?d = "if xSchedulerRunning ?c then prvResetNextTaskUnblockTime ?c else ?c"
  have "wkeep s ?c" using a b by (auto simp: wkeep_unfold split: if_splits)
  then have d: "wkeep s ?d" by simp
  have "wkeep ?d s'"
    using s' a b by (auto simp: vTaskSuspend_def Let_def configASSERT_def wkeep_def [of _ "_\<lparr>pxCurrentTCB := _\<rparr>"]
        split: if_splits intro: switch_wkeep)
  then show ?thesis using d wkeep_trans by blast
qed

lemma notify_wkeep: "xTaskGenericNotify t i v a s = Some (s', r) \<Longrightarrow> wkeep s s'"
proof -
  assume s': "xTaskGenericNotify t i v a s = Some (s', r)"
  let ?n = "fst (notify_action a t i v (ucNotifyState (tcb s t) i) (set_notify t i taskNOTIFICATION_RECEIVED s))"
  have "wkeep ?n s'"
    using s' by (auto simp: xTaskGenericNotify_def case_prod_unfold wkeep_unfold split: if_splits bind_splits)
  moreover have "wkeep s ?n" by simp
  ultimately show ?thesis using wkeep_trans by blast
qed

lemma notify_isr_wkeep: "xTaskGenericNotifyFromISR t i v a s = Some (s', r) \<Longrightarrow> wkeep s s'"
proof -
  assume s': "xTaskGenericNotifyFromISR t i v a s = Some (s', r)"
  let ?n = "fst (notify_action a t i v (ucNotifyState (tcb s t) i) (set_notify t i taskNOTIFICATION_RECEIVED s))"
  have "wkeep ?n s'"
    using s' by (auto simp: xTaskGenericNotifyFromISR_def case_prod_unfold Let_def split: if_splits bind_splits
        intro: notify_wake_wkeep)
  moreover have "wkeep s ?n" by simp
  ultimately show ?thesis using wkeep_trans by blast
qed

lemma give_isr_wkeep: "vTaskGenericNotifyGiveFromISR t i s = Some (s', r) \<Longrightarrow> wkeep s s'"
  by (auto simp: vTaskGenericNotifyGiveFromISR_def Let_def split: if_splits bind_splits
      dest!: notify_wake_wkeep elim!: wkeep_trans [rotated])

lemma block_resume_wkeep:
  assumes inv: "tinv S E s" and p: "may_block s" and n: "n > 0"
    and a: "prvAddCurrentTaskToDelayedList n ind (vTaskSuspendAll s) = Some u" and r: "xTaskResumeAll u = Some (s', b)"
  shows "wkeep s s'"
proof -
  have c: "pxCurrentTCB s \<noteq> xIdleTaskHandle s" "running s" "uxSchedulerSuspended s = 0" using p by (simp_all add: may_block_def)
  have q: "tinv S E (vTaskSuspendAll s)" by (rule suspend_all_tinv [OF inv]) (simp add: c)
  obtain w where w: "prvAddCurrentTaskToDelayedList n ind (vTaskSuspendAll s) = Some w" "tinv S E w"
    "uxSchedulerSuspended w = uxSchedulerSuspended (vTaskSuspendAll s)" "blocked n ind None (vTaskSuspendAll s) w"
    by (rule block_self_tinv [OF q n, where ind = ind])
      (use c current_free [OF inv c(2,3)] current_not_terminated [OF c(2)] in simp_all)
  have "wkeep u s'" by (rule resume_wkeep [OF _ _ r]) (use w a c in auto)
  moreover have "wkeep s u" using add_delayed_wkeep [OF a] by (rule wkeep_trans [rotated]) simp
  ultimately show ?thesis using wkeep_trans by blast
qed

lemma delay_wkeep: "tinv S E s \<Longrightarrow> permitted (Delay n) s \<Longrightarrow> vTaskDelay n s = Some s' \<Longrightarrow> wkeep s s'"
  by (auto simp: vTaskDelay_def configASSERT_def Let_def split: if_splits bind_splits dest: block_resume_wkeep)

lemma delay_until_wkeep:
  assumes inv: "tinv S E s" and p: "permitted (DelayUntil q n) s" and s': "xTaskDelayUntil q n s = Some (s', r)"
  shows "wkeep s s'"
proof (cases "should_delay q (q + n) (xTickCount s)")
  case True
  then have "q + n - xTickCount s > 0" by (rule should_delay_neq)
  then show ?thesis
    using s' True p by (auto simp: xTaskDelayUntil_def configASSERT_def Let_def split: if_splits bind_splits
        dest: block_resume_wkeep [OF inv])
next
  case False
  have q: "tinv S E (vTaskSuspendAll s)" by (rule suspend_all_tinv [OF inv]) (use p in \<open>simp add: may_block_def\<close>)
  obtain u b where u: "xTaskResumeAll (vTaskSuspendAll s) = Some (u, b)" "s' = (if b then u else portYIELD u)"
    using s' False by (auto simp: xTaskDelayUntil_def Let_def split: bind_splits if_splits)
  have "wkeep (vTaskSuspendAll s) u" by (rule resume_wkeep [OF q _ u(1)]) (use p in \<open>simp add: may_block_def\<close>)
  then have "wkeep s u" by (rule wkeep_trans [rotated]) simp
  then show ?thesis using u(2) by simp
qed

lemma kernel_wkeep:
  assumes inv: "tinv S E s" and p: "permitted op s" and b: "beside_groups op" and e: "kexec cfg op s = Some s'"
  shows "wkeep s s'"
proof (cases op)
  case (ResumeAll)
  then show ?thesis using e p resume_wkeep [OF inv] by auto
next
  case (WaitOn l n)
  then show ?thesis using e b wait_wkeep [of l n s s'] by simp
next
  case (DelayUntil q n)
  then show ?thesis using e p delay_until_wkeep [OF inv] by auto
next
  case (Delay n)
  then show ?thesis using e p delay_wkeep [OF inv] by auto
next
  case (StateClear h)
  then show ?thesis using e by (auto simp: xTaskGenericNotifyStateClear_def configASSERT_def Let_def split: if_splits bind_splits)
next
  case (NotifyWaitEnd c)
  then show ?thesis using e by (auto simp: xTaskGenericNotifyWait_end_def Let_def split: if_splits)
next
  case (NotifyTakeEnd c)
  then show ?thesis using e by (auto simp: ulTaskGenericNotifyTake_end_def Let_def split: if_splits)
next
  case (ValueClear h v)
  then show ?thesis using e by (auto simp: ulTaskGenericNotifyValueClear_def Let_def)
next
  case Switch
  then have "vTaskSwitchContext (s\<lparr>pendsv := False\<rparr>) = Some s'" using e by (simp add: PendSV_Handler_def)
  then have "wkeep (s\<lparr>pendsv := False\<rparr>) s'" by (rule switch_wkeep)
  then show ?thesis by (simp add: wkeep_def)
qed (use e b tick_wkeep [OF tinv_kinv [OF inv]] in \<open>auto intro: priority_wkeep suspend_wkeep resume_task_wkeep
    resume_isr_wkeep notify_wkeep notify_isr_wkeep give_isr_wkeep signal_wkeep take_wkeep wait_notify_wkeep\<close>)

section \<open>Event groups and the kernel as one system\<close>

lemma control_split:
  fixes b k :: u32
  assumes "b AND eventEVENT_BITS_CONTROL_BYTES = 0" and "k AND NOT eventEVENT_BITS_CONTROL_BYTES = 0"
  shows "(b OR k) AND eventEVENT_BITS_CONTROL_BYTES = k" and "(b OR k) AND NOT eventEVENT_BITS_CONTROL_BYTES = b"
proof -
  have s: "x = x AND eventEVENT_BITS_CONTROL_BYTES OR x AND NOT eventEVENT_BITS_CONTROL_BYTES" for x :: u32
    by (simp add: bit_eq_iff bit_simps) blast
  from s [of b] s [of k] assms
  show "(b OR k) AND eventEVENT_BITS_CONTROL_BYTES = k" and "(b OR k) AND NOT eventEVENT_BITS_CONTROL_BYTES = b"
    by (simp_all add: bit.conj_disj_distrib2)
qed

definition wait_controls :: "bool \<Rightarrow> bool \<Rightarrow> u32" where
  "wait_controls clear all =
     (if clear then eventCLEAR_EVENTS_ON_EXIT_BIT else 0) OR (if all then eventWAIT_FOR_ALL_BITS else 0)"

lemmas event_bit_defs = eventCLEAR_EVENTS_ON_EXIT_BIT_def eventWAIT_FOR_ALL_BITS_def
  eventUNBLOCKED_DUE_TO_BIT_SET_def eventEVENT_BITS_CONTROL_BYTES_def taskEVENT_LIST_ITEM_VALUE_IN_USE_def

text \<open>The value that a waiting task stores asks for what the caller asked for.\<close>

lemma match_stored:
  assumes "b AND eventEVENT_BITS_CONTROL_BYTES = 0"
  shows "xMatchFound (b OR wait_controls clear all OR taskEVENT_LIST_ITEM_VALUE_IN_USE) cur \<longleftrightarrow> prvTestWaitCondition cur b all"
    and "(b OR wait_controls clear all OR taskEVENT_LIST_ITEM_VALUE_IN_USE) AND taskEVENT_LIST_ITEM_VALUE_IN_USE \<noteq> 0"
proof -
  let ?k = "wait_controls clear all OR taskEVENT_LIST_ITEM_VALUE_IN_USE"
  have k: "?k AND NOT eventEVENT_BITS_CONTROL_BYTES = 0" "(?k AND eventWAIT_FOR_ALL_BITS = 0) = (\<not> all)"
    by (simp_all add: wait_controls_def event_bit_defs)
  show "xMatchFound (b OR wait_controls clear all OR taskEVENT_LIST_ITEM_VALUE_IN_USE) cur \<longleftrightarrow> prvTestWaitCondition cur b all"
    using control_split [OF assms k(1)] k(2)
    by (simp add: xMatchFound_def Let_def or.assoc prvTestWaitCondition_def and.commute)
  have "?k AND taskEVENT_LIST_ITEM_VALUE_IN_USE \<noteq> 0"
    by (simp add: wait_controls_def event_bit_defs)
  then show "(b OR wait_controls clear all OR taskEVENT_LIST_ITEM_VALUE_IN_USE) AND taskEVENT_LIST_ITEM_VALUE_IN_USE \<noteq> 0"
    by (simp add: or.assoc bit.conj_disj_distrib2 or_eq_0_iff)
qed

lemma and_mono_zero: "w AND b = 0 \<Longrightarrow> w AND (b AND c) = (0 :: u32)"
  using and.assoc [of w b c] by simp

lemma and_mono_all: "w AND (b AND c) = w \<Longrightarrow> w AND b = (w :: u32)"
  by (metis and.assoc and.commute and.left_idem)

lemma match_mono: "xMatchFound v (b AND c) \<Longrightarrow> xMatchFound v b"
proof (cases "(v AND eventEVENT_BITS_CONTROL_BYTES) AND eventWAIT_FOR_ALL_BITS = 0")
  case True
  assume "xMatchFound v (b AND c)"
  then show ?thesis unfolding xMatchFound_def Let_def if_P [OF True] using and_mono_zero by blast
next
  case False
  assume "xMatchFound v (b AND c)"
  then show ?thesis unfolding xMatchFound_def Let_def if_not_P [OF False] by (rule and_mono_all)
qed

lemma test_mono: "prvTestWaitCondition (b AND c) w all \<Longrightarrow> prvTestWaitCondition b w all"
  unfolding prvTestWaitCondition_def
  using and_mono_zero [of w b c] and_mono_all [of w b c] by (simp add: and.commute [of _ w] split: if_splits) blast

lemma missed_clear: "no_missed_wakeup s \<Longrightarrow> no_missed_wakeup (write_bits g (group_bits g s AND m) s)"
  unfolding no_missed_wakeup_def using match_mono [of _ "group_bits g s" m] by (simp split: if_splits) blast

text \<open>Blocking the current task on a group.\<close>

lemma place_values:
  assumes "vTaskPlaceOnUnorderedEventList l v n s = Some s'"
  shows "aval (lists s') (EventItem t) =
      (if t = pxCurrentTCB s then v OR taskEVENT_LIST_ITEM_VALUE_IN_USE else aval (lists s) (EventItem t))"
    and "acont (lists s') (EventItem t) = (if t = pxCurrentTCB s then Some l else acont (lists s) (EventItem t))"
    and "kernel.more s' = kernel.more s"
  using assms unfolding vTaskPlaceOnUnorderedEventList_def Let_def configASSERT_def
  by (auto dest!: add_delayed_values [where t = t] simp: klist_ops split: if_splits)

lemma place_missed:
  fixes s :: "'a ekernel_scheme"
  assumes nm: "no_missed_wakeup s" and p: "vTaskPlaceOnUnorderedEventList (WaitingForBits g) (b OR wait_controls clear all) n s = Some s'"
    and b: "b AND eventEVENT_BITS_CONTROL_BYTES = 0" and f: "\<not> prvTestWaitCondition (group_bits g s) b all"
  shows "no_missed_wakeup s'"
proof -
  have g: "group_bits h s' = group_bits h s" for h by (rule more_groups [OF place_values(3) [OF p]])
  show ?thesis
    using nm place_values(1,2) [OF p] match_stored [OF b, of clear all] f
    by (auto simp: no_missed_wakeup_def g or.assoc)
qed

text \<open>What the calls leave of the scheduling state that the next part of a call relies on.\<close>

definition calls_on :: "'a kernel_scheme \<Rightarrow> 'a kernel_scheme \<Rightarrow> bool" where
  "calls_on s s' \<longleftrightarrow>
     tcb s' = tcb s \<and> pxCurrentTCB s' = pxCurrentTCB s \<and> xIdleTaskHandle s' = xIdleTaskHandle s \<and>
     xSchedulerRunning s' = xSchedulerRunning s \<and> (\<forall>t. is_ready s t \<longrightarrow> is_ready s' t) \<and>
     (\<forall>t. acont (lists s) (EventItem t) = None \<longrightarrow> acont (lists s') (EventItem t) = None)"

lemma sframe_calls: "sframe s s' \<Longrightarrow> calls_on s s'"
  using sframe_ready [of s s'] unfolding calls_on_def sframe_def by metis

lemma calls_on_trans: "calls_on s s' \<Longrightarrow> calls_on s' s'' \<Longrightarrow> calls_on s s''"
  by (simp add: calls_on_def)

lemma write_calls [simp]: "calls_on s (write_bits g v s)"
  by (simp add: calls_on_def is_ready_def)

lemma set_bits_system:
  fixes s :: "'a ekernel_scheme"
  assumes inv: "tinv S E s" and nm: "no_missed_wakeup s" and g: "g \<noteq> 0" and b: "b AND eventEVENT_BITS_CONTROL_BYTES = 0"
    and susp: "uxSchedulerSuspended s + 1 \<noteq> 0"
  obtains s' m where "xEventGroupSetBits g b s = Some (s', group_bits g s')" and "tinv S E s'" and "no_missed_wakeup s'"
    and "uxSchedulerSuspended s' = uxSchedulerSuspended s" and "calls_on s s'"
    and "group_bits g s' = (group_bits g s OR b) AND m"
proof -
  let ?new = "group_bits g s OR b"
  let ?fin = "?new AND NOT (cleared g ?new s)" and ?s1 = "write_bits g ?new (vTaskSuspendAll s)"
  let ?W = "owner ` set (satisfied g ?new s)"
  obtain u s' where u: "xEventGroupSetBits g b s = Some (s', ?fin)" "tinv S E s'"
    "woken_all ?W (?new OR eventUNBLOCKED_DUE_TO_BIT_SET) ?s1 u"
    "sframe (write_bits g ?fin u) s'" "uxSchedulerSuspended s' = uxSchedulerSuspended s"
    "aval (lists s') = aval (lists u)"
    "items u (WaitingForBits g) = filter (\<lambda>i. \<not> xMatchFound (aval (lists s) i) ?new) (items s (WaitingForBits g))"
    "(uxSchedulerSuspended s = 0 \<longrightarrow> xPendedTicks s = 0) \<longrightarrow> lists s' = lists u"
    by (rule set_bits_ok [OF inv g b susp HOL.refl HOL.refl])
  have gu: "group_bits h u = group_bits h ?s1" for h
    by (rule more_groups) (use u(3) in \<open>simp add: woken_all_def sframe_def\<close>)
  have gs: "group_bits h s' = group_bits h (write_bits g ?fin u)" for h
    by (rule more_groups) (use u(4) in \<open>simp add: sframe_def\<close>)
  have "no_missed_wakeup (write_bits g ?fin u)"
    unfolding no_missed_wakeup_def
  proof (intro allI impI)
    fix t h assume c: "acont (lists (write_bits g ?fin u)) (EventItem t) = Some (WaitingForBits h)"
    then have t: "t \<notin> ?W" "acont (lists s) (EventItem t) = Some (WaitingForBits h)"
      "aval (lists u) (EventItem t) = aval (lists s) (EventItem t)"
      using u(3) by (auto simp: woken_all_def split: if_splits)
    have "\<not> xMatchFound (aval (lists s) (EventItem t)) ?new" if "h = g"
    proof -
      have "EventItem t \<in> set (items s (WaitingForBits g))"
        using t(2) that inv set_alist [of "lists s" "EventItem t"] by (simp add: items_def tinv_def kinv_def kinv0_def)
      moreover have "EventItem t \<notin> set (satisfied g ?new s)"
        using t(1) satisfied_events [OF tinv_kinv [OF inv], of t g ?new] by blast
      ultimately show ?thesis by (simp add: satisfied_def)
    qed
    then have "\<not> xMatchFound (aval (lists s) (EventItem t)) (group_bits h (write_bits g ?fin u))"
      using nm t(2) match_mono [of _ ?new "NOT (cleared g ?new s)"] gu by (auto simp: no_missed_wakeup_def)
    then show "aval (lists (write_bits g ?fin u)) (EventItem t) AND taskEVENT_LIST_ITEM_VALUE_IN_USE \<noteq> 0 \<and>
        \<not> xMatchFound (aval (lists (write_bits g ?fin u)) (EventItem t)) (group_bits h (write_bits g ?fin u))"
      using nm t(2,3) by (simp add: no_missed_wakeup_def)
  qed
  moreover have "wkeep (write_bits g ?fin u) s'" by (rule wkeep_sframe [OF u(4)]) (simp add: u(6))
  ultimately have "no_missed_wakeup s'" by (rule wkeep_missed)
  moreover have "calls_on s s'"
  proof -
    have "calls_on s (vTaskSuspendAll s)" by (rule sframe_calls) simp
    moreover have "calls_on ?s1 u" using u(3) by (intro sframe_calls) (simp add: woken_all_def)
    moreover have "calls_on u s'" by (rule calls_on_trans [OF write_calls sframe_calls [OF u(4)]])
    ultimately show ?thesis by (meson calls_on_trans write_calls)
  qed
  ultimately show ?thesis using that [of s' "NOT (cleared g ?new s)"] u(1,2,5) gs [of g] by simp
qed

text \<open>
  The calls on event groups by the running task, those with a wait in their two parts, between
  the kernel's calls and interrupts.  \<open>g = 0\<close> is a null handle; bits in the control byte are
  not allowed; a call that may wait is made by a task other than the idle task, with the
  scheduler not suspended.
\<close>

datatype eop =
    EKernel kop
  | ESet nat u32 | EClear nat u32
  | EWait nat u32 bool bool u32 | EWaitEnd nat u32 bool bool
  | ESync nat u32 u32 u32 | ESyncEnd nat u32

fun eexec :: "port_cfg \<Rightarrow> eop \<Rightarrow> 'a ekernel_scheme \<Rightarrow> 'a ekernel_scheme option" where
  "eexec cfg (EKernel op) s = kexec cfg op s"
| "eexec cfg (ESet g b) s = map_option fst (xEventGroupSetBits g b s)"
| "eexec cfg (EClear g b) s = map_option fst (xEventGroupClearBits g b s)"
| "eexec cfg (EWait g b clear all n) s = map_option fst (xEventGroupWaitBits_wait g b clear all n s)"
| "eexec cfg (EWaitEnd g b clear all) s = Some (fst (xEventGroupWaitBits_end g b clear all s))"
| "eexec cfg (ESync g x b n) s = map_option fst (xEventGroupSync_wait g x b n s)"
| "eexec cfg (ESyncEnd g b) s = Some (fst (xEventGroupSync_end g b s))"

definition event_bits :: "u32 \<Rightarrow> bool" where
  "event_bits b \<longleftrightarrow> b AND eventEVENT_BITS_CONTROL_BYTES = 0"

definition can_wait :: "u32 \<Rightarrow> 'a kernel_scheme \<Rightarrow> bool" where
  "can_wait n s \<longleftrightarrow>
     (if n = 0 then uxSchedulerSuspended s + 1 \<noteq> 0 \<and> uxSchedulerSuspended s + 1 + 1 \<noteq> 0
      else may_block s \<and> not_waiting s (pxCurrentTCB s))"

fun epermitted :: "eop \<Rightarrow> 'a ekernel_scheme \<Rightarrow> bool" where
  "epermitted (EKernel op) s = (permitted op s \<and> beside_groups op)"
| "epermitted (ESet g b) s = (g \<noteq> 0 \<and> event_bits b \<and> uxSchedulerSuspended s + 1 \<noteq> 0)"
| "epermitted (EClear g b) s = (g \<noteq> 0 \<and> event_bits b)"
| "epermitted (EWait g b clear all n) s = (g \<noteq> 0 \<and> event_bits b \<and> b \<noteq> 0 \<and> can_wait n s)"
| "epermitted (EWaitEnd g b clear all) s = (acont (lists s) (EventItem (pxCurrentTCB s)) = None)"
| "epermitted (ESync g x b n) s = (g \<noteq> 0 \<and> event_bits x \<and> event_bits b \<and> b \<noteq> 0 \<and> can_wait n s)"
| "epermitted (ESyncEnd g b) s = (acont (lists s) (EventItem (pxCurrentTCB s)) = None)"

inductive esteps :: "port_cfg \<Rightarrow> 'a ekernel_scheme \<Rightarrow> 'a ekernel_scheme \<Rightarrow> bool" for cfg where
  enone: "esteps cfg s s"
| emore: "esteps cfg s s' \<Longrightarrow> epermitted op s' \<Longrightarrow> eexec cfg op s' = Some s'' \<Longrightarrow> esteps cfg s s''"

definition egsys :: "nat \<Rightarrow> nat \<Rightarrow> 'a ekernel_scheme \<Rightarrow> bool" where
  "egsys S E s \<longleftrightarrow> tinv S E s \<and> no_missed_wakeup s"

lemma egsys_wkeep: "egsys S E s \<Longrightarrow> tinv S E s' \<Longrightarrow> wkeep s s' \<Longrightarrow> egsys S E s'"
  using wkeep_missed by (auto simp: egsys_def)

lemma egsys_clear: "egsys S E s \<Longrightarrow> egsys S E (write_bits g (group_bits g s AND m) s)"
  by (simp add: egsys_def missed_clear write_bits_tinv)

lemma may_wait_ok: "can_wait n s \<Longrightarrow> may_wait n s"
  by (auto simp: can_wait_def may_wait_def may_block_def xTaskGetSchedulerState_def split: if_splits)

lemma egsys_suspend: "egsys S E s \<Longrightarrow> uxSchedulerSuspended s + 1 \<noteq> 0 \<Longrightarrow> egsys S E (vTaskSuspendAll s)"
  by (rule egsys_wkeep) (auto simp: egsys_def suspend_all_tinv)

lemma can_wait_susp: "can_wait n s \<Longrightarrow> uxSchedulerSuspended s + 1 \<noteq> 0 \<and> uxSchedulerSuspended s + 1 + 1 \<noteq> 0"
  by (auto simp: can_wait_def may_block_def split: if_splits)

lemma egsys_resume:
  assumes inv: "egsys S E s" and susp: "uxSchedulerSuspended s \<noteq> 0"
  obtains s' b where "xTaskResumeAll s = Some (s', b)" and "egsys S E s'" and "egsys S E (portYIELD s')"
proof -
  have t: "tinv S E s" using inv by (simp add: egsys_def)
  obtain s' b where s': "xTaskResumeAll s = Some (s', b)" "tinv S E s'"
    using resume_tinv [OF t susp] by blast
  have "egsys S E s'" by (rule egsys_wkeep [OF inv s'(2) resume_wkeep [OF t susp s'(1)]])
  moreover have "egsys S E (portYIELD s')" by (rule egsys_wkeep [OF \<open>egsys S E s'\<close> portYIELD_tinv [OF s'(2)]]) simp
  ultimately show ?thesis using that s'(1) by blast
qed

text \<open>Blocking on a group after calls that left the scheduling state as it was.\<close>

lemma place_system:
  assumes s: "tinv S E s" and w: "may_block s" "not_waiting s (pxCurrentTCB s)"
    and u: "egsys S E u" "calls_on s u" "uxSchedulerSuspended u = 1" and n: "n \<noteq> 0"
    and b: "event_bits b" and f: "\<not> prvTestWaitCondition (group_bits g u) b all"
  obtains v where "vTaskPlaceOnUnorderedEventList (WaitingForBits g) (b OR wait_controls clear all) n u = Some v"
    and "egsys S E v" and "uxSchedulerSuspended v = 1"
proof -
  have c: "running s" "uxSchedulerSuspended s = 0" "pxCurrentTCB s \<noteq> xIdleTaskHandle s" using w by (simp_all add: may_block_def)
  have ru: "running u" "pxCurrentTCB u \<noteq> xIdleTaskHandle u" "not_waiting u (pxCurrentTCB u)"
    "acont (lists u) (EventItem (pxCurrentTCB u)) = None"
    using u(2) c w current_free [OF s c(1,2)] by (simp_all add: calls_on_def running_def not_waiting_def)
  have tu: "tinv S E u" using u(1) by (simp add: egsys_def)
  have n': "n > 0" using n by (simp add: word_gt_0)
  have su: "uxSchedulerSuspended u \<noteq> 0" using u(3) by simp
  obtain v where v: "vTaskPlaceOnUnorderedEventList (WaitingForBits g) (b OR wait_controls clear all) n u = Some v"
    "tinv S E v" "blocked n True (Some (WaitingForBits g)) u v"
    by (rule vTaskPlaceOnUnorderedEventList_ok [OF tu ru(1,2) event_list_bits n' ru(4,3) su])
  have "no_missed_wakeup v"
    by (rule place_missed [OF _ v(1) _ f]) (use u(1) b in \<open>simp_all add: egsys_def event_bits_def\<close>)
  moreover have "uxSchedulerSuspended v = 1" using v(3) u(3) by (auto simp: blocked_def)
  ultimately show ?thesis using that v(1,2) by (simp add: egsys_def)
qed

lemma wait_ok:
  assumes inv: "egsys S E s" and p: "epermitted (EWait g b clear all n) s"
  shows "\<exists>s' r. xEventGroupWaitBits_wait g b clear all n s = Some (s', r) \<and> egsys S E s'"
proof -
  let ?q = "vTaskSuspendAll s"
  have p': "g \<noteq> 0" "event_bits b" "b \<noteq> 0" "can_wait n s" using p by simp_all
  have q: "egsys S E ?q" by (rule egsys_suspend [OF inv]) (use can_wait_susp [OF p'(4)] in simp)
  have sq: "uxSchedulerSuspended ?q \<noteq> 0" using can_wait_susp [OF p'(4)] by simp
  show ?thesis
  proof (cases "prvTestWaitCondition (group_bits g s) b all")
    case True
    let ?u = "if clear then write_bits g (group_bits g ?q AND NOT b) ?q else ?q"
    have "egsys S E ?u" using egsys_clear [OF q, of g "NOT b"] q by simp
    then obtain s' y where "xTaskResumeAll ?u = Some (s', y)" "egsys S E s'" by (rule egsys_resume) (use sq in simp)
    then show ?thesis using True p' may_wait_ok [OF p'(4)]
      by (cases clear) (simp_all add: xEventGroupWaitBits_wait_def configASSERT_def event_bits_def Let_def)
  next
    case False
    show ?thesis
    proof (cases "n = 0")
      case True
      obtain s' y where "xTaskResumeAll ?q = Some (s', y)" "egsys S E s'" by (rule egsys_resume [OF q sq])
      then show ?thesis using True False p' may_wait_ok [OF p'(4)]
        by (simp add: xEventGroupWaitBits_wait_def configASSERT_def event_bits_def Let_def)
    next
      case n: False
      have m: "may_block s" "not_waiting s (pxCurrentTCB s)" "uxSchedulerSuspended ?q = 1"
        using p'(4) n by (simp_all add: can_wait_def may_block_def)
      obtain v where v: "vTaskPlaceOnUnorderedEventList (WaitingForBits g) (b OR wait_controls clear all) n ?q = Some v"
        "egsys S E v" "uxSchedulerSuspended v = 1"
        by (rule place_system [OF _ m(1,2) q _ m(3) n p'(2)]) (use inv False in \<open>simp_all add: egsys_def sframe_calls\<close>)
      obtain s' y where "xTaskResumeAll v = Some (s', y)" "egsys S E s'" "egsys S E (portYIELD s')"
        by (rule egsys_resume [OF v(2)]) (use v(3) in simp)
      moreover have "(if all then (if clear then eventCLEAR_EVENTS_ON_EXIT_BIT else 0) OR eventWAIT_FOR_ALL_BITS
            else if clear then eventCLEAR_EVENTS_ON_EXIT_BIT else 0) = wait_controls clear all"
        by (simp add: wait_controls_def)
      ultimately show ?thesis using False n p' may_wait_ok [OF p'(4)] v(1)
        by (simp add: xEventGroupWaitBits_wait_def configASSERT_def event_bits_def Let_def)
    qed
  qed
qed

lemma sync_ok:
  assumes inv: "egsys S E s" and p: "epermitted (ESync g x b n) s"
  shows "\<exists>s' r. xEventGroupSync_wait g x b n s = Some (s', r) \<and> egsys S E s'"
proof -
  let ?q = "vTaskSuspendAll s"
  have p': "g \<noteq> 0" "event_bits x" "event_bits b" "b \<noteq> 0" "can_wait n s" using p by simp_all
  have q: "egsys S E ?q" by (rule egsys_suspend [OF inv]) (use can_wait_susp [OF p'(5)] in simp)
  obtain u m where u: "xEventGroupSetBits g x ?q = Some (u, group_bits g u)" "tinv S E u" "no_missed_wakeup u"
    "uxSchedulerSuspended u = uxSchedulerSuspended ?q" "calls_on ?q u" "group_bits g u = (group_bits g ?q OR x) AND m"
    by (rule set_bits_system [of S E ?q g x])
      (use q p' can_wait_susp [OF p'(5)] in \<open>simp_all add: egsys_def event_bits_def\<close>)
  have eu: "egsys S E u" using u(2,3) by (simp add: egsys_def)
  have su: "uxSchedulerSuspended u \<noteq> 0" using u(4) can_wait_susp [OF p'(5)] by simp
  show ?thesis
  proof (cases "(group_bits g s OR x) AND b = b")
    case True
    let ?u = "write_bits g (group_bits g u AND NOT b) u"
    obtain s' y where "xTaskResumeAll ?u = Some (s', y)" "egsys S E s'"
      by (rule egsys_resume [OF egsys_clear [OF eu]]) (use su in simp)
    then show ?thesis using True p' may_wait_ok [OF p'(5)] u(1)
      by (simp add: xEventGroupSync_wait_def configASSERT_def event_bits_def Let_def)
  next
    case False
    show ?thesis
    proof (cases "n = 0")
      case True
      obtain s' y where "xTaskResumeAll u = Some (s', y)" "egsys S E s'" by (rule egsys_resume [OF eu su])
      then show ?thesis using True False p' may_wait_ok [OF p'(5)] u(1)
        by (simp add: xEventGroupSync_wait_def configASSERT_def event_bits_def Let_def)
    next
      case n: False
      have m: "may_block s" "not_waiting s (pxCurrentTCB s)" "uxSchedulerSuspended ?q = 1"
        using p'(5) n by (simp_all add: can_wait_def may_block_def)
      have f: "\<not> prvTestWaitCondition (group_bits g u) b True"
        using False test_mono [of "group_bits g s OR x" _ b True] u(6) by (auto simp: prvTestWaitCondition_def)
      have c: "calls_on s u" by (rule calls_on_trans [OF sframe_calls u(5)]) simp
      obtain v where v: "vTaskPlaceOnUnorderedEventList (WaitingForBits g) (b OR wait_controls True True) n u = Some v"
        "egsys S E v" "uxSchedulerSuspended v = 1"
        by (rule place_system [OF _ m(1,2) eu c _ n p'(3) f]) (use inv u(4) m(3) in \<open>simp_all add: egsys_def\<close>)
      obtain s' y where "xTaskResumeAll v = Some (s', y)" "egsys S E s'" "egsys S E (portYIELD s')"
        by (rule egsys_resume [OF v(2)]) (use v(3) in simp)
      then show ?thesis using False n p' may_wait_ok [OF p'(5)] v(1) u(1)
        by (simp add: xEventGroupSync_wait_def configASSERT_def event_bits_def Let_def wait_controls_def)
    qed
  qed
qed

text \<open>The end of a wait.\<close>

lemma reset_item_ok:
  assumes inv: "egsys S E s" and f: "acont (lists s) (EventItem (pxCurrentTCB s)) = None"
  shows "egsys S E (fst (uxTaskResetEventItemValue s))"
proof -
  have "tinv S E (fst (uxTaskResetEventItemValue s))"
    unfolding uxTaskResetEventItemValue_def Let_def fst_conv
    by (rule set_event_value_tinv) (use inv in \<open>simp add: egsys_def\<close>)
  moreover have "wkeep s (fst (uxTaskResetEventItemValue s))"
    using f by (auto simp: wkeep_def uxTaskResetEventItemValue_def set_item_value_def Let_def)
  ultimately show ?thesis by (rule egsys_wkeep [OF inv])
qed

lemma eexec_ok:
  assumes inv: "egsys S E s" and p: "epermitted op s"
  shows "\<exists>s'. eexec cfg op s = Some s' \<and> egsys S E s'"
proof (cases op)
  case (EKernel k)
  then obtain s' where "kexec cfg k s = Some s'" "tinv S E s'" using kexec_ok [of S E s k cfg] inv p by (auto simp: egsys_def)
  then show ?thesis using EKernel egsys_wkeep [OF inv] kernel_wkeep [of S E s k cfg s'] inv p by (simp add: egsys_def)
next
  case (ESet g b)
  then have e: "g \<noteq> 0" "b AND eventEVENT_BITS_CONTROL_BYTES = 0" "uxSchedulerSuspended s + 1 \<noteq> 0"
    using p by (simp_all add: event_bits_def)
  have i: "tinv S E s" "no_missed_wakeup s" using inv by (simp_all add: egsys_def)
  obtain s' m where "xEventGroupSetBits g b s = Some (s', group_bits g s')" "tinv S E s'" "no_missed_wakeup s'"
    "uxSchedulerSuspended s' = uxSchedulerSuspended s" "calls_on s s'" "group_bits g s' = (group_bits g s OR b) AND m"
    by (rule set_bits_system [OF i e])
  then show ?thesis using ESet by (simp add: egsys_def)
next
  case (EClear g b)
  then show ?thesis using p egsys_clear [OF inv] by (simp add: xEventGroupClearBits_def configASSERT_def event_bits_def)
next
  case (EWait g b clear all n)
  then show ?thesis using wait_ok [OF inv] p by force
next
  case (ESync g x b n)
  then show ?thesis using sync_ok [OF inv] p by force
next
  case (EWaitEnd g b clear all)
  then have r: "egsys S E (fst (uxTaskResetEventItemValue s))" using reset_item_ok [OF inv] p by simp
  show ?thesis using EWaitEnd r egsys_clear [OF r] by (simp add: xEventGroupWaitBits_end_def case_prod_unfold Let_def)
next
  case (ESyncEnd g b)
  then have r: "egsys S E (fst (uxTaskResetEventItemValue s))" using reset_item_ok [OF inv] p by simp
  show ?thesis using ESyncEnd r egsys_clear [OF r] by (simp add: xEventGroupSync_end_def case_prod_unfold Let_def)
qed

lemma esteps_egsys: "esteps cfg s s' \<Longrightarrow> egsys S E s \<Longrightarrow> egsys S E s'"
  by (induction rule: esteps.induct) (metis eexec_ok option.inject)+


section \<open>Deleting a group\<close>

lemma delete_loop_ok:
  assumes "tinv S E s" and "uxSchedulerSuspended s \<noteq> 0" and "items s (WaitingForBits g) = ys"
  shows "\<exists>s'. delete_loop g s = Some s' \<and> tinv S E s' \<and> items s' (WaitingForBits g) = [] \<and>
    woken_all (owner ` set ys) eventUNBLOCKED_DUE_TO_BIT_SET s s'"
  using assms
proof (induction ys arbitrary: s)
  case Nil
  then show ?case by (subst delete_loop.simps) (simp add: head_first_of first_of_def)
next
  case (Cons i ys)
  obtain t where t: "i = EventItem t" using waiter_of_group [OF tinv_kinv [OF Cons.prems(1)], of i g] Cons.prems(3) by auto
  have d: "distinct (EventItem t # ys)" using distinct_items [OF tinv_kinv [OF Cons.prems(1)], of "WaitingForBits g"] Cons.prems(3) t by simp
  have all: "\<exists>u. j = EventItem u" if "j \<in> set ys" for j
    using waiter_of_group [OF tinv_kinv [OF Cons.prems(1)], of j g] Cons.prems(3) that by auto
  have m: "EventItem t \<in> set (items s (WaitingForBits g))" using Cons.prems(3) t by simp
  note r = remove_unordered [OF Cons.prems(1,2) m, of eventUNBLOCKED_DUE_TO_BIT_SET]
  let ?w = "bits_woken eventUNBLOCKED_DUE_TO_BIT_SET t s"
  have it: "items ?w (WaitingForBits g) = ys" using r(4) Cons.prems(3) t by simp
  obtain s' where s': "delete_loop g ?w = Some s'" "tinv S E s'" "items s' (WaitingForBits g) = []"
    "woken_all (owner ` set ys) eventUNBLOCKED_DUE_TO_BIT_SET ?w s'"
    using Cons.IH [OF r(2) _ it] Cons.prems(2) by auto
  have nt: "t \<notin> owner ` set ys"
  proof
    assume "t \<in> owner ` set ys"
    then obtain j where "j \<in> set ys" "t = owner j" by auto
    with all [of j] d show False by auto
  qed
  have "delete_loop g s = delete_loop g ?w"
    using r(1) Cons.prems(3) t by (subst delete_loop.simps) (simp add: head_first_of first_of_def)
  then show ?case using s' woken_all_step [OF r(3) s'(4) nt] t by simp
qed

lemma sframe_off_list:
  assumes f: "sframe s s'" and l: "acont (lists s) i \<noteq> Some (WaitingForBits g)"
  shows "acont (lists s') i \<noteq> Some (WaitingForBits g)"
proof (cases i)
  case (StateItem t)
  then show ?thesis using f l unfolding sframe_def by (metis klist.distinct option.inject)
next
  case (EventItem t)
  then show ?thesis using f l unfolding sframe_def by (metis option.distinct(1))
qed

text \<open>Deleting a group ends for any number of waiters: all of them become ready and find that no
  bit of theirs was set, the list is empty, and exactly the memory of the group is free again.\<close>

theorem vEventGroupDelete_correct:
  assumes inv: "tinv S E s" and susp: "uxSchedulerSuspended s + 1 \<noteq> 0" and g: "g \<noteq> 0"
    and heap: "heap_ok (kheap s) S ts" "owned_by S ts s" "(g, n) \<in> live_regions S ts"
    and apart: "\<forall>t \<in> ktasks s. t \<noteq> g \<and> pxStack (tcb s t) \<noteq> g"
  shows "\<exists>s' ts'. vEventGroupDelete g s = Some s' \<and> tinv S E s' \<and>
    (\<forall>t. EventItem t \<in> set (items s (WaitingForBits g)) \<longrightarrow> is_ready s' t) \<and>
    items s' (WaitingForBits g) = [] \<and>
    heap_ok (kheap s') S ts' \<and> live_regions S ts' = live_regions S ts - {(g, n)}"
proof -
  let ?l = "WaitingForBits g" and ?q = "vTaskSuspendAll s"
  have q: "tinv S E ?q" by (rule suspend_all_tinv [OF inv susp])
  obtain u where u: "delete_loop g ?q = Some u" "tinv S E u" "items u ?l = []"
    "woken_all (owner ` set (items s ?l)) eventUNBLOCKED_DUE_TO_BIT_SET ?q u"
    using delete_loop_ok [OF q _ HOL.refl, of g] susp by auto
  have su: "uxSchedulerSuspended u = uxSchedulerSuspended s + 1" using u(4) by (simp add: woken_all_def)
  obtain v b where v: "xTaskResumeAll u = Some (v, b)" "tinv S E v" "sframe u v" "uxSchedulerSuspended v = uxSchedulerSuspended s"
    by (rule resume_tinv [OF u(2)]) (use su susp in simp_all)
  have f: "sframe s v"
    by (rule sframe_trans [OF sframe_trans [OF sframe_fields(6)] v(3)]) (use u(4) in \<open>simp add: woken_all_def\<close>)
  have hv: "heap_ok (kheap v) S ts" "owned_by S ts v" "\<forall>t \<in> ktasks v. t \<noteq> g \<and> pxStack (tcb v t) \<noteq> g"
    "uxSchedulerSuspended v + 1 \<noteq> 0"
    using heap owned_by_frame [OF f] sframe_ktasks [OF f] f apart v(4) susp by (simp_all add: sframe_def)
  obtain s' ts' h where s': "kernel_free g v = Some s'" "tinv S E s'" "heap_ok (kheap s') S ts'" "owned_by S ts' s'"
    "sframe (v\<lparr>kheap := h\<rparr>) s'" "uxSchedulerSuspended s' = uxSchedulerSuspended v"
    "live_regions S ts' = live_regions S ts - {(g, n)}"
    using free_tinv [OF v(2) hv(4,1) heap(3) hv(2,3)] .
  have ready: "is_ready s' t" if t: "EventItem t \<in> set (items s ?l)" for t
  proof -
    have "t \<in> owner ` set (items s ?l)" using t by force
    then have "is_ready u t" using u(4) by (simp add: woken_all_def is_ready_def sframe_def)
    then have "is_ready (v\<lparr>kheap := h\<rparr>) t" using sframe_ready [OF v(3)] by (simp add: is_ready_def)
    then show ?thesis by (rule sframe_ready [OF s'(5)])
  qed
  have wf: "awf UNIV (lists x)" if "tinv S E x" for x :: "'a ekernel_scheme" using that by (simp add: tinv_def kinv_def kinv0_def)
  have "acont (lists u) i \<noteq> Some ?l" for i using u(3) alist_empty [OF wf [OF u(2)]] by (simp add: items_def)
  then have "acont (lists s') i \<noteq> Some ?l" for i
    using sframe_off_list [OF s'(5)] sframe_off_list [OF v(3)] by auto
  then have "items s' ?l = []" using alist_empty [OF wf [OF s'(2)]] by (simp add: items_def)
  moreover have "vEventGroupDelete g s = Some s'"
    using g u(1) v(1) s'(1) by (simp add: vEventGroupDelete_def configASSERT_def)
  ultimately show ?thesis using s'(2,3,7) ready by blast
qed

section \<open>A concrete system\<close>

text \<open>The demonstration task system with one event group, without and with a waiting task.\<close>

definition demo_group :: "u32 \<Rightarrow> heap \<Rightarrow> ekernel" where
  "demo_group b h = qkernel.extend (demo_queue demo_ring h) (ekernel.fields (\<lambda>_. \<lparr>uxEventBits = b\<rparr>))"

lemma demo_group_sel [simp]:
  "group_bits g (demo_group b h) = b" "lists (demo_group b h) = lists (demo_system h)"
  "tcb (demo_group b h) = tcb (demo_system h)" "pxCurrentTCB (demo_group b h) = 1344"
  "uxSchedulerSuspended (demo_group b h) = 0" "xPendedTicks (demo_group b h) = 0"
  "kheap (demo_group b h) = h" "xSchedulerRunning (demo_group b h) = True" "xIdleTaskHandle (demo_group b h) = 1136"
  by (simp_all add: demo_group_def group_bits_def demo_queue_def kernel.defs qkernel.defs ekernel.defs demo_system_def)

lemma demo_group_egsys:
  obtains h ts where "egsys 1024 5112 (demo_group b h)" and "heap_ok h 1024 ts" and "owned_by 1024 ts (demo_group b h)"
    and "(1656, 96) \<in> live_regions 1024 ts"
proof -
  let ?ts = "[Used 104, Used 104, Used 104, Used 104, Used 104, Used 104, Used 104, Free 3360]"
  obtain h0 where h0: "heap_ok h0 1024 [Used 104, Used 104, Used 104, Used 104, Used 104, Used 104, Free 3464]"
    "pxEnd h0 = 5112" by (rule demo_blocks)
  have "\<exists>h. heap_ok h 1024 (map Used (replicate 6 104 @ [104]) @ [Free (3464 - 104)]) \<and> pxEnd h = pxEnd h0"
    by (rule alloc_step) (use h0 in \<open>simp_all add: numeral_eq_Suc\<close>)
  then obtain h where h: "heap_ok h 1024 ?ts" "pxEnd h = 5112" using h0(2) by (auto simp: numeral_eq_Suc)
  have o: "owned_by 1024 ?ts (demo_system h)" by (auto simp: owned_by_def demo_system_tasks live_regions_def sizeof_TCB_def initial_frame_def)
  have "counted (demo_system h)" by (simp add: counted_def demo_system_tasks)
  then have "tinv 1024 5112 (demo_system h)"
    using demo_system_kinv h o by (auto simp: tinv_def owned_def is_ready_def waiting_free_def)
  then have "tinv 1024 5112 (demo_queue demo_ring h)" by (simp add: demo_queue_def tinv_extend)
  then have "tinv 1024 5112 (demo_group b h)"
    by (simp add: demo_group_def tinv_def kinv_def kinv0_def places_def delays_def readies_def unblock_times_def
        none_pending_def owned_def owned_by_def counted_def ktasks_def terminated_def is_ready_def
        waiting_free_def qkernel.defs ekernel.defs demo_queue_def kernel.defs)
  moreover have "no_missed_wakeup (demo_group b h)" by (simp add: no_missed_wakeup_def)
  moreover have "owned_by 1024 ?ts (demo_group b h)" using o unfolding owned_by_def ktasks_def demo_group_sel(2,3) .
  moreover have "(1656, 96) \<in> live_regions 1024 ?ts" by (simp add: live_regions_def)
  ultimately show ?thesis using that h(1) by (simp add: egsys_def)
qed



theorem vEventGroupDelete_correct_witness:
  "\<exists>h s'. vEventGroupDelete 1656 (demo_group 1 h) = Some s'"
proof -
  obtain h ts where t: "egsys 1024 5112 (demo_group 1 h)" "heap_ok h 1024 ts" "owned_by 1024 ts (demo_group 1 h)"
    "(1656, 96) \<in> live_regions 1024 ts" by (rule demo_group_egsys)
  have "ktasks (demo_group 1 h) = {1136, 1344, 1552}" using demo_system_tasks(1) [of h] by (simp add: ktasks_def)
  then have a: "\<forall>t \<in> ktasks (demo_group 1 h). t \<noteq> 1656 \<and> pxStack (tcb (demo_group 1 h) t) \<noteq> 1656" by simp
  show ?thesis
    using vEventGroupDelete_correct [of 1024 5112 "demo_group 1 h" 1656 ts 96, OF _ _ _ _ t(3,4) a] t(1,2)
    by (auto simp: egsys_def)
qed

end
