(* ===== verification/Timers.thy ===== *)
theory Timers
  imports EventGroups
begin

text \<open>
  The software timers of \<open>timers.c\<close>: two sorted lists of active timers, for expiry times before
  and after the next overflow of the tick count, the command queue, and the daemon task that
  owns the lists.  The callback of a timer is the application's: \<open>cb f t\<close> stands for calling the
  function at \<open>f\<close> with the timer \<open>t\<close>.
\<close>

section \<open>State\<close>

record timer_t =
  pcTimerName :: "char list"
  xTimerPeriodInTicks :: u32
  pvTimerID :: nat
  pxCallbackFunction :: nat
  ucStatus :: u8

datatype timer_list = xActiveTimerList1 | xActiveTimerList2

text \<open>The static variables of \<open>timers.c\<close>; a timer's list item has the timer's address.\<close>

record tkernel = ekernel +
  tlists :: "(timer_list, nat) astore"
  timers :: "nat \<Rightarrow> timer_t"
  pxCurrentTimerList :: timer_list
  pxOverflowTimerList :: timer_list
  xTimerQueue :: nat
  xTimerTaskHandle :: nat
  xLastTime :: u32

type_synonym 'a callbacks = "nat \<Rightarrow> nat \<Rightarrow> 'a tkernel_scheme \<Rightarrow> 'a tkernel_scheme option"

definition tmrMAX_TIME_BEFORE_OVERFLOW :: u32 where
  "tmrMAX_TIME_BEFORE_OVERFLOW = - 1"

definition tmrSTATUS_IS_ACTIVE :: u8 where
  "tmrSTATUS_IS_ACTIVE = 0x01"

definition tmrSTATUS_IS_STATICALLY_ALLOCATED :: u8 where
  "tmrSTATUS_IS_STATICALLY_ALLOCATED = 0x02"

definition tmrSTATUS_IS_AUTORELOAD :: u8 where
  "tmrSTATUS_IS_AUTORELOAD = 0x04"

definition tmrCOMMAND_START :: int where "tmrCOMMAND_START = 1"
definition tmrCOMMAND_RESET :: int where "tmrCOMMAND_RESET = 2"
definition tmrCOMMAND_STOP :: int where "tmrCOMMAND_STOP = 3"
definition tmrCOMMAND_CHANGE_PERIOD :: int where "tmrCOMMAND_CHANGE_PERIOD = 4"
definition tmrCOMMAND_DELETE :: int where "tmrCOMMAND_DELETE = 5"
definition tmrFIRST_FROM_ISR_COMMAND :: int where "tmrFIRST_FROM_ISR_COMMAND = 6"
definition tmrCOMMAND_START_FROM_ISR :: int where "tmrCOMMAND_START_FROM_ISR = 6"
definition tmrCOMMAND_RESET_FROM_ISR :: int where "tmrCOMMAND_RESET_FROM_ISR = 7"
definition tmrCOMMAND_STOP_FROM_ISR :: int where "tmrCOMMAND_STOP_FROM_ISR = 8"
definition tmrCOMMAND_CHANGE_PERIOD_FROM_ISR :: int where "tmrCOMMAND_CHANGE_PERIOD_FROM_ISR = 9"

definition configTIMER_QUEUE_LENGTH :: nat where "configTIMER_QUEUE_LENGTH = 10"
definition configTIMER_TASK_PRIORITY :: nat where "configTIMER_TASK_PRIORITY = 3"
definition configTIMER_TASK_STACK_DEPTH :: nat where "configTIMER_TASK_STACK_DEPTH = 128"

text \<open>\<open>sizeof( Timer_t )\<close>: a name, a list item of 20 bytes, three words and the status byte.\<close>

definition sizeof_Timer :: nat where
  "sizeof_Timer = 40"

section \<open>Messages\<close>

text \<open>\<open>DaemonTaskMessage_t\<close> as the queue copies it: three little-endian words.\<close>

record daemon_message =
  xMessageID :: int
  xMessageValue :: u32
  pxTimer :: nat

definition sizeof_message :: nat where
  "sizeof_message = 12"

definition message_bytes :: "daemon_message \<Rightarrow> u8 list" where
  "message_bytes m =
     le_bytes (word_of_int (xMessageID m)) @ le_bytes (xMessageValue m) @ le_bytes (of_nat (pxTimer m))"

definition message_of :: "u8 list \<Rightarrow> daemon_message" where
  "message_of b =
     \<lparr>xMessageID = sint (of_le_bytes (take 4 b)), xMessageValue = of_le_bytes (take 4 (drop 4 b)),
      pxTimer = unat (of_le_bytes (drop 8 b))\<rparr>"

section \<open>Creation and commands\<close>

definition upd_timer :: "nat \<Rightarrow> (timer_t \<Rightarrow> timer_t) \<Rightarrow> 'a tkernel_scheme \<Rightarrow> 'a tkernel_scheme" where
  "upd_timer t f s = s\<lparr>timers := (timers s)(t := f (timers s t))\<rparr>"

definition set_status :: "nat \<Rightarrow> u8 \<Rightarrow> 'a tkernel_scheme \<Rightarrow> 'a tkernel_scheme" where
  "set_status t b s = upd_timer t (ucStatus_update (\<lambda>v. v OR b)) s"

definition clear_status :: "nat \<Rightarrow> u8 \<Rightarrow> 'a tkernel_scheme \<Rightarrow> 'a tkernel_scheme" where
  "clear_status t b s = upd_timer t (ucStatus_update (\<lambda>v. v AND NOT b)) s"

definition status_bit :: "nat \<Rightarrow> u8 \<Rightarrow> 'a tkernel_scheme \<Rightarrow> bool" where
  "status_bit t b s \<longleftrightarrow> ucStatus (timers s t) AND b \<noteq> 0"

definition prvCheckForValidListAndQueue :: "'a tkernel_scheme \<Rightarrow> 'a tkernel_scheme option" where
  "prvCheckForValidListAndQueue s =
     (if xTimerQueue s = 0
      then do {
        let s = s\<lparr>tlists := a_initialise xActiveTimerList1 (tlists s)\<rparr>;
        let s = s\<lparr>tlists := a_initialise xActiveTimerList2 (tlists s)\<rparr>;
        let s = s\<lparr>pxCurrentTimerList := xActiveTimerList1, pxOverflowTimerList := xActiveTimerList2\<rparr>;
        (s, q) \<leftarrow> xQueueGenericCreate configTIMER_QUEUE_LENGTH sizeof_message s;
        let s = s\<lparr>xTimerQueue := q\<rparr>;
        if xTimerQueue s \<noteq> 0 then vQueueAddToRegistry (xTimerQueue s) (Some ''TmrQ'') s else Some s
      }
      else Some s)"

text \<open>\<open>prvTimerTask\<close> is the address of the function of that name.\<close>

definition xTimerCreateTimerTask :: "port_cfg \<Rightarrow> u32 \<Rightarrow> 'a tkernel_scheme \<Rightarrow> 'a tkernel_scheme option" where
  "xTimerCreateTimerTask cfg prvTimerTask s =
     do {
       s \<leftarrow> prvCheckForValidListAndQueue s;
       (s, xReturn) \<leftarrow>
         (if xTimerQueue s \<noteq> 0
          then do {
            (s, t) \<leftarrow> xTaskCreate cfg prvTimerTask ''Tmr Svc'' configTIMER_TASK_STACK_DEPTH 0 configTIMER_TASK_PRIORITY s;
            Some (if t \<noteq> 0 then s\<lparr>xTimerTaskHandle := t\<rparr> else s, t \<noteq> 0)
          }
          else Some (s, False));
       configASSERT xReturn;
       Some s
     }"

definition prvInitialiseNewTimer ::
  "char list \<Rightarrow> u32 \<Rightarrow> bool \<Rightarrow> nat \<Rightarrow> nat \<Rightarrow> nat \<Rightarrow> 'a tkernel_scheme \<Rightarrow> 'a tkernel_scheme option" where
  "prvInitialiseNewTimer name period xAutoReload timerID callback t s =
     do {
       configASSERT (period > 0);
       s \<leftarrow> prvCheckForValidListAndQueue s;
       let s = upd_timer t (\<lambda>T. T\<lparr>pcTimerName := name, xTimerPeriodInTicks := period, pvTimerID := timerID,
                 pxCallbackFunction := callback\<rparr>) s;
       let s = s\<lparr>tlists := (tlists s)\<lparr>acont := (acont (tlists s))(t := None)\<rparr>\<rparr>;
       Some (if xAutoReload then set_status t tmrSTATUS_IS_AUTORELOAD s else s)
     }"

definition xTimerCreate ::
  "char list \<Rightarrow> u32 \<Rightarrow> bool \<Rightarrow> nat \<Rightarrow> nat \<Rightarrow> 'a tkernel_scheme \<Rightarrow> ('a tkernel_scheme \<times> nat) option" where
  "xTimerCreate name period xAutoReload timerID callback s =
     do {
       (s, t) \<leftarrow> kernel_malloc sizeof_Timer s;
       if t \<noteq> 0
       then do {
         let s = upd_timer t (ucStatus_update (\<lambda>_. 0)) s;
         s \<leftarrow> prvInitialiseNewTimer name period xAutoReload timerID callback t s;
         Some (s, t)
       }
       else Some (s, t)
     }"

text \<open>
  The first attempt of \<open>xTimerGenericCommand\<close> from a task: a full queue lets it wait, as
  \<open>xQueueGenericSend\<close> does, only while the scheduler runs.
\<close>

definition xTimerGenericCommand_try ::
  "nat \<Rightarrow> int \<Rightarrow> u32 \<Rightarrow> u32 \<Rightarrow> 'a tkernel_scheme \<Rightarrow> ('a tkernel_scheme \<times> attempt) option" where
  "xTimerGenericCommand_try xTimer xCommandID xOptionalValue xTicksToWait s =
     do {
       configASSERT (xTimer \<noteq> 0);
       if xTimerQueue s \<noteq> 0
       then do {
         let m = message_bytes \<lparr>xMessageID = xCommandID, xMessageValue = xOptionalValue, pxTimer = xTimer\<rparr>;
         let n = (if xTaskGetSchedulerState s = taskSCHEDULER_RUNNING then xTicksToWait else 0);
         xQueueGenericSend_asserts (xTimerQueue s) (Some m) n queueSEND_TO_BACK s;
         xQueueGenericSend_try (xTimerQueue s) (Some m) n queueSEND_TO_BACK None s
       }
       else Some (s, Returned False)
     }"

definition xTimerGenericCommandFromISR ::
  "nat \<Rightarrow> int \<Rightarrow> u32 \<Rightarrow> bool \<Rightarrow> 'a tkernel_scheme \<Rightarrow> ('a tkernel_scheme \<times> bool \<times> bool) option" where
  "xTimerGenericCommandFromISR xTimer xCommandID xOptionalValue woken s =
     do {
       configASSERT (xTimer \<noteq> 0);
       if xTimerQueue s \<noteq> 0
       then xQueueGenericSendFromISR (xTimerQueue s)
              (Some (message_bytes \<lparr>xMessageID = xCommandID, xMessageValue = xOptionalValue, pxTimer = xTimer\<rparr>))
              woken queueSEND_TO_BACK s
       else Some (s, False, woken)
     }"

section \<open>Accessors\<close>

definition xTimerGetTimerDaemonTaskHandle :: "'a tkernel_scheme \<Rightarrow> nat option" where
  "xTimerGetTimerDaemonTaskHandle s = do { configASSERT (xTimerTaskHandle s \<noteq> 0); Some (xTimerTaskHandle s) }"

definition xTimerGetPeriod :: "nat \<Rightarrow> 'a tkernel_scheme \<Rightarrow> u32 option" where
  "xTimerGetPeriod t s = do { configASSERT (t \<noteq> 0); Some (xTimerPeriodInTicks (timers s t)) }"

definition vTimerSetReloadMode :: "nat \<Rightarrow> bool \<Rightarrow> 'a tkernel_scheme \<Rightarrow> 'a tkernel_scheme option" where
  "vTimerSetReloadMode t xAutoReload s =
     do {
       configASSERT (t \<noteq> 0);
       Some (if xAutoReload then set_status t tmrSTATUS_IS_AUTORELOAD s else clear_status t tmrSTATUS_IS_AUTORELOAD s)
     }"

definition xTimerGetReloadMode :: "nat \<Rightarrow> 'a tkernel_scheme \<Rightarrow> bool option" where
  "xTimerGetReloadMode t s = do { configASSERT (t \<noteq> 0); Some (status_bit t tmrSTATUS_IS_AUTORELOAD s) }"

definition xTimerGetExpiryTime :: "nat \<Rightarrow> 'a tkernel_scheme \<Rightarrow> u32 option" where
  "xTimerGetExpiryTime t s = do { configASSERT (t \<noteq> 0); Some (aval (tlists s) t) }"

definition pcTimerGetName :: "nat \<Rightarrow> 'a tkernel_scheme \<Rightarrow> char list option" where
  "pcTimerGetName t s = do { configASSERT (t \<noteq> 0); Some (pcTimerName (timers s t)) }"

definition xTimerIsTimerActive :: "nat \<Rightarrow> 'a tkernel_scheme \<Rightarrow> bool option" where
  "xTimerIsTimerActive t s = do { configASSERT (t \<noteq> 0); Some (status_bit t tmrSTATUS_IS_ACTIVE s) }"

definition pvTimerGetTimerID :: "nat \<Rightarrow> 'a tkernel_scheme \<Rightarrow> nat option" where
  "pvTimerGetTimerID t s = do { configASSERT (t \<noteq> 0); Some (pvTimerID (timers s t)) }"

definition vTimerSetTimerID :: "nat \<Rightarrow> nat \<Rightarrow> 'a tkernel_scheme \<Rightarrow> 'a tkernel_scheme option" where
  "vTimerSetTimerID t pvNewID s = do { configASSERT (t \<noteq> 0); Some (upd_timer t (pvTimerID_update (\<lambda>_. pvNewID)) s) }"

section \<open>The daemon task\<close>

text \<open>The second component tells that the timer has expired already and is to be processed now.\<close>

definition prvInsertTimerInActiveList ::
  "nat \<Rightarrow> u32 \<Rightarrow> u32 \<Rightarrow> u32 \<Rightarrow> 'a tkernel_scheme \<Rightarrow> 'a tkernel_scheme \<times> bool" where
  "prvInsertTimerInActiveList t xNextExpiryTime xTimeNow xCommandTime s =
     (let s = s\<lparr>tlists := a_set_value t xNextExpiryTime (tlists s)\<rparr> in
      if xNextExpiryTime \<le> xTimeNow
      then if xTimeNow - xCommandTime \<ge> xTimerPeriodInTicks (timers s t)
           then (s, True)
           else (s\<lparr>tlists := a_insert (pxOverflowTimerList s) t (tlists s)\<rparr>, False)
      else if xTimeNow < xCommandTime \<and> xNextExpiryTime \<ge> xCommandTime
           then (s, True)
           else (s\<lparr>tlists := a_insert (pxCurrentTimerList s) t (tlists s)\<rparr>, False))"

definition run_callback :: "'a callbacks \<Rightarrow> nat \<Rightarrow> 'a tkernel_scheme \<Rightarrow> 'a tkernel_scheme option" where
  "run_callback cb t s = cb (pxCallbackFunction (timers s t)) t s"

partial_function (option) prvReloadTimer ::
  "'a callbacks \<Rightarrow> nat \<Rightarrow> u32 \<Rightarrow> u32 \<Rightarrow> 'a tkernel_scheme \<Rightarrow> 'a tkernel_scheme option" where
  "prvReloadTimer cb t xExpiredTime xTimeNow s =
     (let (s, again) =
        prvInsertTimerInActiveList t (xExpiredTime + xTimerPeriodInTicks (timers s t)) xTimeNow xExpiredTime s in
      if again
      then do {
        let xExpiredTime = xExpiredTime + xTimerPeriodInTicks (timers s t);
        s \<leftarrow> run_callback cb t s;
        prvReloadTimer cb t xExpiredTime xTimeNow s
      }
      else Some s)"

definition timer_remove :: "nat \<Rightarrow> 'a tkernel_scheme \<Rightarrow> 'a tkernel_scheme option" where
  "timer_remove t s =
     (if acont (tlists s) t = None then None else Some (s\<lparr>tlists := a_remove t (tlists s)\<rparr>))"

definition prvProcessExpiredTimer ::
  "'a callbacks \<Rightarrow> u32 \<Rightarrow> u32 \<Rightarrow> 'a tkernel_scheme \<Rightarrow> 'a tkernel_scheme option" where
  "prvProcessExpiredTimer cb xNextExpireTime xTimeNow s =
     (case alist (tlists s) (pxCurrentTimerList s) of
        [] \<Rightarrow> None
      | t # _ \<Rightarrow> do {
          s \<leftarrow> timer_remove t s;
          s \<leftarrow> (if status_bit t tmrSTATUS_IS_AUTORELOAD s
                then prvReloadTimer cb t xNextExpireTime xTimeNow s
                else Some (clear_status t tmrSTATUS_IS_ACTIVE s));
          run_callback cb t s
        })"

partial_function (option) switch_loop :: "'a callbacks \<Rightarrow> 'a tkernel_scheme \<Rightarrow> 'a tkernel_scheme option" where
  "switch_loop cb s =
     (case alist (tlists s) (pxCurrentTimerList s) of
        [] \<Rightarrow> Some s
      | t # _ \<Rightarrow> do {
          s \<leftarrow> prvProcessExpiredTimer cb (aval (tlists s) t) tmrMAX_TIME_BEFORE_OVERFLOW s;
          switch_loop cb s
        })"

definition prvSwitchTimerLists :: "'a callbacks \<Rightarrow> 'a tkernel_scheme \<Rightarrow> 'a tkernel_scheme option" where
  "prvSwitchTimerLists cb s =
     do {
       s \<leftarrow> switch_loop cb s;
       Some (s\<lparr>pxCurrentTimerList := pxOverflowTimerList s, pxOverflowTimerList := pxCurrentTimerList s\<rparr>)
     }"

text \<open>The state, the time and \<open>*pxTimerListsWereSwitched\<close>.\<close>

definition prvSampleTimeNow :: "'a callbacks \<Rightarrow> 'a tkernel_scheme \<Rightarrow> ('a tkernel_scheme \<times> u32 \<times> bool) option" where
  "prvSampleTimeNow cb s =
     do {
       let xTimeNow = xTaskGetTickCount s;
       (s, switched) \<leftarrow>
         (if xTimeNow < xLastTime s then do { s \<leftarrow> prvSwitchTimerLists cb s; Some (s, True) } else Some (s, False));
       Some (s\<lparr>xLastTime := xTimeNow\<rparr>, xTimeNow, switched)
     }"

text \<open>The next expiry time and \<open>*pxListWasEmpty\<close>.\<close>

definition prvGetNextExpireTime :: "'a tkernel_scheme \<Rightarrow> u32 \<times> bool" where
  "prvGetNextExpireTime s =
     (case alist (tlists s) (pxCurrentTimerList s) of [] \<Rightarrow> (0, True) | t # _ \<Rightarrow> (aval (tlists s) t, False))"

definition prvProcessTimerOrBlockTask ::
  "'a callbacks \<Rightarrow> u32 \<Rightarrow> bool \<Rightarrow> 'a tkernel_scheme \<Rightarrow> 'a tkernel_scheme option" where
  "prvProcessTimerOrBlockTask cb xNextExpireTime xListWasEmpty s =
     do {
       (s, xTimeNow, switched) \<leftarrow> prvSampleTimeNow cb (vTaskSuspendAll s);
       if \<not> switched
       then if \<not> xListWasEmpty \<and> xNextExpireTime \<le> xTimeNow
            then do {
              (s, _) \<leftarrow> xTaskResumeAll s;
              prvProcessExpiredTimer cb xNextExpireTime xTimeNow s
            }
            else do {
              let xListWasEmpty =
                (if xListWasEmpty then alist (tlists s) (pxOverflowTimerList s) = [] else xListWasEmpty);
              s \<leftarrow> vQueueWaitForMessageRestricted (xTimerQueue s) (xNextExpireTime - xTimeNow) xListWasEmpty s;
              (s, xAlreadyYielded) \<leftarrow> xTaskResumeAll s;
              Some (if \<not> xAlreadyYielded then portYIELD s else s)
            }
       else map_option fst (xTaskResumeAll s)
     }"

text \<open>The body of the loop of \<open>prvProcessReceivedCommands\<close>, for one message.\<close>

definition process_command :: "'a callbacks \<Rightarrow> daemon_message \<Rightarrow> 'a tkernel_scheme \<Rightarrow> 'a tkernel_scheme option" where
  "process_command cb m s =
     (if xMessageID m \<ge> 0
      then do {
        let t = pxTimer m;
        s \<leftarrow> (if acont (tlists s) t \<noteq> None then timer_remove t s else Some s);
        (s, xTimeNow, _) \<leftarrow> prvSampleTimeNow cb s;
        let c = xMessageID m;
        if c = tmrCOMMAND_START \<or> c = tmrCOMMAND_START_FROM_ISR \<or> c = tmrCOMMAND_RESET \<or> c = tmrCOMMAND_RESET_FROM_ISR
        then do {
          let s = set_status t tmrSTATUS_IS_ACTIVE s;
          let xNext = xMessageValue m + xTimerPeriodInTicks (timers s t);
          let (s, expired) = prvInsertTimerInActiveList t xNext xTimeNow (xMessageValue m) s;
          if expired
          then do {
            s \<leftarrow> (if status_bit t tmrSTATUS_IS_AUTORELOAD s
                  then prvReloadTimer cb t (xMessageValue m + xTimerPeriodInTicks (timers s t)) xTimeNow s
                  else Some (clear_status t tmrSTATUS_IS_ACTIVE s));
            run_callback cb t s
          }
          else Some s
        }
        else if c = tmrCOMMAND_STOP \<or> c = tmrCOMMAND_STOP_FROM_ISR
        then Some (clear_status t tmrSTATUS_IS_ACTIVE s)
        else if c = tmrCOMMAND_CHANGE_PERIOD \<or> c = tmrCOMMAND_CHANGE_PERIOD_FROM_ISR
        then do {
          let s = set_status t tmrSTATUS_IS_ACTIVE s;
          let s = upd_timer t (xTimerPeriodInTicks_update (\<lambda>_. xMessageValue m)) s;
          configASSERT (xTimerPeriodInTicks (timers s t) > 0);
          Some (fst (prvInsertTimerInActiveList t (xTimeNow + xTimerPeriodInTicks (timers s t)) xTimeNow xTimeNow s))
        }
        else if c = tmrCOMMAND_DELETE
        then if \<not> status_bit t tmrSTATUS_IS_STATICALLY_ALLOCATED s
             then kernel_free t s
             else Some (clear_status t tmrSTATUS_IS_ACTIVE s)
        else Some s
      }
      else Some s)"

partial_function (option) prvProcessReceivedCommands :: "'a callbacks \<Rightarrow> 'a tkernel_scheme \<Rightarrow> 'a tkernel_scheme option" where
  "prvProcessReceivedCommands cb s =
     do {
       xQueueReceive_asserts (xTimerQueue s) False 0 s;
       (s, r, x) \<leftarrow> xQueueReceive_try (xTimerQueue s) 0 None s;
       if r = Returned True
       then do { s \<leftarrow> process_command cb (message_of x) s; prvProcessReceivedCommands cb s }
       else Some s
     }"

text \<open>
  One round of the loop of \<open>prvTimerTask\<close>: up to the point where the task may be switched out;
  it goes on with \<open>prvProcessReceivedCommands\<close>.
\<close>

definition prvTimerTask_first :: "'a callbacks \<Rightarrow> 'a tkernel_scheme \<Rightarrow> 'a tkernel_scheme option" where
  "prvTimerTask_first cb s =
     (let (xNextExpireTime, xListWasEmpty) = prvGetNextExpireTime s
      in prvProcessTimerOrBlockTask cb xNextExpireTime xListWasEmpty s)"

section \<open>Times across the overflow\<close>

text \<open>
  The proofs count ticks without a bound: tick \<open>n\<close> is shown as \<open>of_nat n\<close> and lies in the epoch
  \<open>n div w32\<close>.  While the daemon works in epoch \<open>ep\<close>, the current list holds the timers that
  expire in that epoch, the overflow list those of the next one.
\<close>

lemma tick_parts: "unat (of_nat n :: u32) = n mod w32"
  by (simp add: unat_of_nat w32_def)

lemma epoch_split: "n = n div w32 * w32 + n mod w32"
  by simp

lemma insert_decision:
  fixes p :: u32
  assumes p: "p > 0" and le: "tc \<le> tn" and lt: "tn < tc + w32"
  defines "next \<equiv> of_nat tc + p" and "now \<equiv> of_nat tn" and "cmd \<equiv> of_nat tc"
  shows "(if next \<le> now then now - cmd \<ge> p else now < cmd \<and> next \<ge> cmd) \<longleftrightarrow> tc + unat p \<le> tn"
    and "tn < tc + unat p \<Longrightarrow> next \<le> now \<Longrightarrow> tc + unat p = Suc (tn div w32) * w32 + unat next"
    and "tn < tc + unat p \<Longrightarrow> \<not> next \<le> now \<Longrightarrow> tc + unat p = tn div w32 * w32 + unat next"
proof -
  define r where "r = tc mod w32"
  define m where "m = tn mod w32"
  define a where "a = tc div w32"
  define b where "b = tn div w32"
  have tc: "tc = a * w32 + r" and tn: "tn = b * w32 + m" and bd: "r < w32" "m < w32" "unat p < w32" "0 < unat p"
    using p unat_u32 [of p] by (simp_all add: r_def m_def a_def b_def w32_def unat_gt_0 word_gt_0)
  have next': "unat next = (r + unat p) mod w32"
    unfolding next_def unat_word_ariths tick_parts r_def by (simp add: w32_def mod_add_left_eq)
  have now': "unat now = m" "unat cmd = r" by (simp_all add: now_def cmd_def tick_parts m_def r_def)
  have diff: "unat (now - cmd) = (if r \<le> m then m - r else m + w32 - r)"
    using now' bd by (simp add: unat_sub_if_size w32_def word_size)
  have ab: "b = a \<and> r \<le> m \<or> b = Suc a \<and> m < r"
  proof (cases "b = a")
    case True
    then show ?thesis using le by (simp add: tc tn)
  next
    case False
    have "a \<le> b" using le by (simp add: a_def b_def div_le_mono)
    then have "Suc a \<le> b" using False by simp
    moreover have "b \<le> Suc a"
    proof (rule ccontr)
      assume "\<not> b \<le> Suc a"
      then have "Suc (Suc a) * w32 \<le> b * w32" by (intro mult_right_mono) simp_all
      then show False using lt bd by (simp add: tc tn)
    qed
    ultimately have "b = Suc a" by simp
    then show ?thesis using lt by (simp add: tc tn)
  qed
  have nx: "unat next = (if r + unat p < w32 then r + unat p else r + unat p - w32)"
    using bd by (simp add: next' mod_if)
  show "(if next \<le> now then now - cmd \<ge> p else now < cmd \<and> next \<ge> cmd) \<longleftrightarrow> tc + unat p \<le> tn"
    using ab bd by (auto simp: word_le_nat_alt word_less_nat_alt now' diff nx tc tn)
  show "tc + unat p = Suc (tn div w32) * w32 + unat next" if "tn < tc + unat p" "next \<le> now"
    using that ab bd unfolding b_def [symmetric] by (auto simp: word_le_nat_alt now' nx tc tn split: if_splits)
  show "tc + unat p = tn div w32 * w32 + unat next" if "tn < tc + unat p" "\<not> next \<le> now"
    using that ab bd unfolding b_def [symmetric] by (auto simp: word_le_nat_alt now' nx tc tn split: if_splits)
qed

section \<open>The invariant of the timer lists\<close>

definition tlists_ok :: "'a tkernel_scheme \<Rightarrow> bool" where
  "tlists_ok s \<longleftrightarrow>
     awf UNIV (tlists s) \<and> pxCurrentTimerList s \<noteq> pxOverflowTimerList s \<and>
     vsorted (tlists s) (pxCurrentTimerList s) \<and> vsorted (tlists s) (pxOverflowTimerList s) \<and>
     (\<forall>t. acont (tlists s) t \<noteq> None \<longrightarrow> xTimerPeriodInTicks (timers s t) > 0)"

text \<open>The unbounded expiry time of a timer on a list, in epoch \<open>ep\<close>.\<close>

definition expiry :: "nat \<Rightarrow> 'a tkernel_scheme \<Rightarrow> nat \<Rightarrow> nat" where
  "expiry ep s t =
     (if acont (tlists s) t = Some (pxCurrentTimerList s) then ep else Suc ep) * w32 + unat (aval (tlists s) t)"

text \<open>The data of the timers, apart from the lists.\<close>

definition same_timers :: "'a tkernel_scheme \<Rightarrow> 'a tkernel_scheme \<Rightarrow> bool" where
  "same_timers s s' \<longleftrightarrow>
     timers s' = timers s \<and> pxCurrentTimerList s' = pxCurrentTimerList s \<and>
     pxOverflowTimerList s' = pxOverflowTimerList s \<and> xLastTime s' = xLastTime s \<and> xTimerQueue s' = xTimerQueue s"

text \<open>Lists, containers and values of all timers but \<open>t\<close>.\<close>

definition others_same :: "nat \<Rightarrow> 'a tkernel_scheme \<Rightarrow> 'a tkernel_scheme \<Rightarrow> bool" where
  "others_same t s s' \<longleftrightarrow>
     (\<forall>u. u \<noteq> t \<longrightarrow> acont (tlists s') u = acont (tlists s) u \<and> aval (tlists s') u = aval (tlists s) u) \<and>
     (\<forall>l. acont (tlists s') t \<noteq> Some l \<longrightarrow> alist (tlists s') l = filter (\<lambda>u. u \<noteq> t) (alist (tlists s) l))"

text \<open>
  What the application promises of its callbacks: they return and leave the timer lists and the
  timers' data to the daemon (commands go through the queue); \<open>log\<close> reads from the
  application's part of the state which timers' callbacks have run.
\<close>

definition callbacks_ok :: "'a callbacks \<Rightarrow> ('a \<Rightarrow> nat list) \<Rightarrow> bool" where
  "callbacks_ok cb log \<longleftrightarrow>
     (\<forall>f t s. \<exists>s'. cb f t s = Some s' \<and> tlists s' = tlists s \<and> same_timers s s' \<and>
        log (tkernel.more s') = log (tkernel.more s) @ [t])"

lemma run_callback_ok:
  assumes "callbacks_ok cb log"
  obtains s' where "run_callback cb t s = Some s'" and "tlists s' = tlists s" and "same_timers s s'"
    and "log (tkernel.more s') = log (tkernel.more s) @ [t]"
  using assms unfolding callbacks_ok_def run_callback_def by blast

lemma same_timers_refl [simp]: "same_timers s s"
  by (simp add: same_timers_def)

lemma same_timers_trans: "same_timers s s' \<Longrightarrow> same_timers s' s'' \<Longrightarrow> same_timers s s''"
  by (simp add: same_timers_def)

lemma tlists_ok_cong: "tlists s' = tlists s \<Longrightarrow> same_timers s s' \<Longrightarrow> tlists_ok s' = tlists_ok s"
  by (simp add: tlists_ok_def same_timers_def)

text \<open>Inserting a timer that is on no list.\<close>

lemma insert_ok:
  assumes ok: "tlists_ok s" and free: "acont (tlists s) t = None" and p: "xTimerPeriodInTicks (timers s t) > 0"
    and le: "tc \<le> tn" and lt: "tn < tc + w32"
  defines "next \<equiv> of_nat tc + xTimerPeriodInTicks (timers s t)"
  obtains s' where "prvInsertTimerInActiveList t next (of_nat tn) (of_nat tc) s =
      (s', tc + unat (xTimerPeriodInTicks (timers s t)) \<le> tn)"
    and "tlists_ok s'" and "same_timers s s'" and "tkernel.more s' = tkernel.more s" and "others_same t s s'"
    and "tc + unat (xTimerPeriodInTicks (timers s t)) \<le> tn \<Longrightarrow> acont (tlists s') t = None"
    and "tn < tc + unat (xTimerPeriodInTicks (timers s t)) \<Longrightarrow> acont (tlists s') t \<noteq> None \<and>
      expiry (tn div w32) s' t = tc + unat (xTimerPeriodInTicks (timers s t))"
proof -
  let ?p = "xTimerPeriodInTicks (timers s t)" and ?a = "a_set_value t next (tlists s)"
  note d = insert_decision [OF p le lt, folded next_def]
  have a: "awf UNIV ?a" "acont ?a t = None" "vsorted ?a (pxCurrentTimerList s)" "vsorted ?a (pxOverflowTimerList s)"
    using ok free by (simp_all add: tlists_ok_def)
  have nt: "t \<notin> set (alist (tlists s) l)" for l
    using ok free set_alist [of "tlists s" t l] by (simp add: tlists_ok_def)
  have oth: "others_same t s (s\<lparr>tlists := b\<rparr>)"
    if "acont b = (acont (tlists s))(t := c)" "aval b = (aval (tlists s))(t := v)"
      "\<And>l. c \<noteq> Some l \<Longrightarrow> alist b l = alist (tlists s) l" for b c v
  proof -
    have "filter (\<lambda>u. u \<noteq> t) (alist (tlists s) l) = alist (tlists s) l" for l
      using nt by (auto simp: filter_id_conv)
    then show ?thesis using that by (simp add: others_same_def)
  qed
  show ?thesis
  proof (cases "tc + unat ?p \<le> tn")
    case True
    let ?s' = "s\<lparr>tlists := ?a\<rparr>"
    have "prvInsertTimerInActiveList t next (of_nat tn) (of_nat tc) s = (?s', True)"
      using True d(1) by (auto simp: prvInsertTimerInActiveList_def Let_def split: if_splits)
    moreover have "tlists_ok ?s'" using ok a by (simp add: tlists_ok_def)
    moreover have "others_same t s ?s'" by (rule oth [of _ None]) (use free in auto)
    ultimately show ?thesis using that [of ?s'] True a by (simp add: same_timers_def)
  next
    case False
    let ?l = "if next \<le> of_nat tn then pxOverflowTimerList s else pxCurrentTimerList s"
    let ?s' = "s\<lparr>tlists := a_insert ?l t ?a\<rparr>"
    have "prvInsertTimerInActiveList t next (of_nat tn) (of_nat tc) s = (?s', False)"
      using False d(1) by (auto simp: prvInsertTimerInActiveList_def Let_def split: if_splits)
    moreover have "tlists_ok ?s'" using ok a p by (auto simp: tlists_ok_def)
    moreover have "others_same t s ?s'" by (rule oth [of _ "Some ?l"]) auto
    moreover have "expiry (tn div w32) ?s' t = tc + unat ?p"
      using d(2,3) False ok by (auto simp: expiry_def tlists_ok_def)
    ultimately show ?thesis using that [of ?s'] False by (simp add: same_timers_def)
  qed
qed

text \<open>Reloading runs the callback once for every period that has passed and keeps the phase.\<close>

lemma reload_ok:
  assumes cb: "callbacks_ok cb log" and "tlists_ok s" and "acont (tlists s) t = None"
    and "xTimerPeriodInTicks (timers s t) > 0" and "tx \<le> tn" and "tn < tx + w32"
  shows "\<exists>s'. prvReloadTimer cb t (of_nat tx) (of_nat tn) s = Some s' \<and> tlists_ok s' \<and> same_timers s s' \<and>
    others_same t s s' \<and> acont (tlists s') t \<noteq> None \<and>
    log (tkernel.more s') = log (tkernel.more s) @
      replicate ((tn - tx) div unat (xTimerPeriodInTicks (timers s t))) t \<and>
    expiry (tn div w32) s' t = tx + Suc ((tn - tx) div unat (xTimerPeriodInTicks (timers s t))) *
      unat (xTimerPeriodInTicks (timers s t))"
  using assms(2-)
proof (induction "tn - tx" arbitrary: tx s rule: less_induct)
  case less
  let ?p = "unat (xTimerPeriodInTicks (timers s t))"
  have p: "0 < ?p" using less.prems(3) by (simp add: unat_gt_0 word_gt_0)
  obtain u where u: "prvInsertTimerInActiveList t (of_nat tx + xTimerPeriodInTicks (timers s t)) (of_nat tn) (of_nat tx) s =
      (u, tx + ?p \<le> tn)" "tlists_ok u" "same_timers s u" "tkernel.more u = tkernel.more s" "others_same t s u"
    and c: "tx + ?p \<le> tn \<Longrightarrow> acont (tlists u) t = None"
    and e: "tn < tx + ?p \<Longrightarrow> acont (tlists u) t \<noteq> None \<and> expiry (tn div w32) u t = tx + ?p"
    by (rule insert_ok [OF less.prems]) blast
  show ?case
  proof (cases "tx + ?p \<le> tn")
    case False
    then have "tn - tx < ?p" using less.prems(4) by linarith
    then have "(tn - tx) div ?p = 0" by simp
    moreover have "prvReloadTimer cb t (of_nat tx) (of_nat tn) s = Some u"
      using u(1) False by (subst prvReloadTimer.simps) simp
    ultimately show ?thesis using u(2-5) e False by simp
  next
    case True
    obtain w where w: "run_callback cb t u = Some w" "tlists w = tlists u" "same_timers u w"
      "log (tkernel.more w) = log (tkernel.more u) @ [t]" by (rule run_callback_ok [OF cb])
    have sw: "same_timers s w" by (rule same_timers_trans [OF u(3) w(3)])
    then have pw: "xTimerPeriodInTicks (timers w t) = xTimerPeriodInTicks (timers s t)" by (simp add: same_timers_def)
    have pu: "xTimerPeriodInTicks (timers u t) = xTimerPeriodInTicks (timers s t)" using u(3) by (simp add: same_timers_def)
    have wf: "tlists_ok w" using tlists_ok_cong [OF w(2,3)] u(2) by simp
    have "tn - (tx + ?p) < tn - tx" using True p by simp
    moreover have "acont (tlists w) t = None" using c True w(2) by simp
    ultimately obtain s' where s': "prvReloadTimer cb t (of_nat (tx + ?p)) (of_nat tn) w = Some s'" "tlists_ok s'" "same_timers w s'"
      "others_same t w s'" "acont (tlists s') t \<noteq> None"
      "log (tkernel.more s') = log (tkernel.more w) @ replicate ((tn - (tx + ?p)) div ?p) t"
      "expiry (tn div w32) s' t = tx + ?p + Suc ((tn - (tx + ?p)) div ?p) * ?p"
      using less.hyps [of "tx + ?p" w] wf less.prems(3,5) True pw by auto
    have dv: "(tn - tx) div ?p = Suc ((tn - (tx + ?p)) div ?p)"
      using True p by (metis add_leD1 diff_diff_left le_add_diff_inverse le_div_geq le_diff_conv2 add.commute)
    have "of_nat (tx + ?p) = of_nat tx + xTimerPeriodInTicks (timers s t)" by simp
    then have "prvReloadTimer cb t (of_nat tx) (of_nat tn) s = Some s'"
      using u(1) True w(1) s'(1) pu by (subst prvReloadTimer.simps) (simp add: Let_def)
    moreover have "same_timers s s'" by (rule same_timers_trans [OF sw s'(3)])
    moreover have "others_same t s s'" using u(5) s'(4) w(2) c [OF True] by (simp add: others_same_def)
    ultimately show ?thesis using s' dv u(4) w(4) by (simp add: algebra_simps)
  qed
qed

section \<open>Processing expired timers\<close>

definition auto_reload :: "nat \<Rightarrow> 'a tkernel_scheme \<Rightarrow> bool" where
  "auto_reload t s \<longleftrightarrow> status_bit t tmrSTATUS_IS_AUTORELOAD s"

text \<open>How often a timer that expires at \<open>tx\<close> is due up to \<open>tn\<close>.\<close>

definition due_times :: "nat \<Rightarrow> nat \<Rightarrow> nat \<Rightarrow> 'a tkernel_scheme \<Rightarrow> nat" where
  "due_times tx tn t s =
     (if auto_reload t s then Suc ((tn - tx) div unat (xTimerPeriodInTicks (timers s t))) else 1)"

lemma status_bit_disjoint [simp]:
  "(x AND NOT tmrSTATUS_IS_ACTIVE) AND tmrSTATUS_IS_AUTORELOAD = x AND tmrSTATUS_IS_AUTORELOAD"
  "(x AND NOT tmrSTATUS_IS_ACTIVE) AND tmrSTATUS_IS_ACTIVE = 0"
  by (simp_all add: and.assoc tmrSTATUS_IS_ACTIVE_def tmrSTATUS_IS_AUTORELOAD_def)

text \<open>What processing may change: timer lists, and the active flag of \<open>t\<close>.\<close>

definition only_timer :: "nat \<Rightarrow> 'a tkernel_scheme \<Rightarrow> 'a tkernel_scheme \<Rightarrow> bool" where
  "only_timer t s s' \<longleftrightarrow>
     (\<forall>u. u \<noteq> t \<longrightarrow> timers s' u = timers s u) \<and>
     xTimerPeriodInTicks (timers s' t) = xTimerPeriodInTicks (timers s t) \<and> auto_reload t s' = auto_reload t s \<and>
     pxCurrentTimerList s' = pxCurrentTimerList s \<and> pxOverflowTimerList s' = pxOverflowTimerList s \<and>
     xLastTime s' = xLastTime s \<and> xTimerQueue s' = xTimerQueue s"

lemma same_only: "same_timers s s' \<Longrightarrow> only_timer t s s'"
  by (simp add: same_timers_def only_timer_def auto_reload_def status_bit_def)

lemma only_timer_trans: "only_timer t s s' \<Longrightarrow> only_timer t s' s'' \<Longrightarrow> only_timer t s s''"
  by (simp add: only_timer_def)

lemma process_ok:
  assumes cb: "callbacks_ok cb log" and ok: "tlists_ok s"
    and hd: "alist (tlists s) (pxCurrentTimerList s) = t # ts"
    and tx: "expiry (tn div w32) s t = tx" and le: "tx \<le> tn"
  obtains s' where "prvProcessExpiredTimer cb (aval (tlists s) t) (of_nat tn) s = Some s'" and "tlists_ok s'"
    and "only_timer t s s'" and "others_same t s s'"
    and "log (tkernel.more s') = log (tkernel.more s) @ replicate (due_times tx tn t s) t"
    and "auto_reload t s \<Longrightarrow> acont (tlists s') t \<noteq> None \<and>
      expiry (tn div w32) s' t = tx + due_times tx tn t s * unat (xTimerPeriodInTicks (timers s t))"
    and "\<not> auto_reload t s \<Longrightarrow> acont (tlists s') t = None \<and> \<not> status_bit t tmrSTATUS_IS_ACTIVE s'"
proof -
  let ?c = "pxCurrentTimerList s"
  have ct: "acont (tlists s) t = Some ?c"
    using hd ok set_alist [of "tlists s" t ?c] by (simp add: tlists_ok_def)
  then have px: "tx = tn div w32 * w32 + unat (aval (tlists s) t)" using tx by (simp add: expiry_def)
  have lt: "tn < tx + w32" using mod_less_divisor [of w32 tn] div_mult_mod_eq [of tn w32] px w32_pos by linarith
  have av: "of_nat tx = aval (tlists s) t"
  proof -
    have "(of_nat (tn div w32 * w32) :: u32) = 0" unfolding word_of_nat_eq_0_iff by (simp add: w32_def)
    then show ?thesis by (simp add: px)
  qed
  let ?r = "s\<lparr>tlists := a_remove t (tlists s)\<rparr>"
  have r: "timer_remove t s = Some ?r" using ct by (simp add: timer_remove_def)
  have okr: "tlists_ok ?r" using ok by (auto simp: tlists_ok_def split: if_splits)
  have pr: "xTimerPeriodInTicks (timers s t) > 0" using ok ct by (simp add: tlists_ok_def)
  have rm: "others_same t s ?r"
  proof -
    have d: "distinct (alist (tlists s) l)" "t \<in> set (alist (tlists s) l) \<longleftrightarrow> l = ?c" for l
      using ok ct set_alist [of "tlists s" t l] by (auto simp: tlists_ok_def awf_def)
    then show ?thesis using ct by (auto simp: others_same_def distinct_remove1_removeAll removeAll_filter_not_eq filter_id_conv
        intro!: filter_cong filter_True [symmetric])
  qed
  have rest: "others_same t s w" if "others_same t ?r w" for w
    using that rm by (auto simp: others_same_def)
  show ?thesis
  proof (cases "auto_reload t s")
    case True
    obtain u where u: "prvReloadTimer cb t (of_nat tx) (of_nat tn) ?r = Some u" "tlists_ok u" "same_timers ?r u"
      "others_same t ?r u" "acont (tlists u) t \<noteq> None"
      "log (tkernel.more u) = log (tkernel.more ?r) @ replicate ((tn - tx) div unat (xTimerPeriodInTicks (timers ?r t))) t"
      "expiry (tn div w32) u t = tx + Suc ((tn - tx) div unat (xTimerPeriodInTicks (timers ?r t))) *
        unat (xTimerPeriodInTicks (timers ?r t))"
      using reload_ok [OF cb okr _ _ le lt, of t] pr by auto
    obtain w where w: "run_callback cb t u = Some w" "tlists w = tlists u" "same_timers u w"
      "log (tkernel.more w) = log (tkernel.more u) @ [t]" by (rule run_callback_ok [OF cb])
    have su: "same_timers s u" using u(3) by (simp add: same_timers_def)
    have ex: "expiry e w t = expiry e u t" for e using w(2,3) by (simp add: expiry_def same_timers_def)
    have "prvProcessExpiredTimer cb (aval (tlists s) t) (of_nat tn) s = Some w"
      using hd r u(1) w(1) True av by (simp add: prvProcessExpiredTimer_def auto_reload_def status_bit_def)
    moreover have "tlists_ok w" using tlists_ok_cong [OF w(2,3)] u(2) by simp
    moreover have "only_timer t s w" by (rule same_only [OF same_timers_trans [OF su w(3)]])
    moreover have "others_same t s w" by (rule rest) (use u(4) w(2) in \<open>simp add: others_same_def\<close>)
    moreover have "log (tkernel.more w) = log (tkernel.more s) @ replicate (due_times tx tn t s) t"
      using True u(6) w(4) by (simp add: due_times_def replicate_append_same)
    ultimately show ?thesis using that [of w] True u(5,7) w(2) ex by (simp add: due_times_def)
  next
    case False
    let ?u = "clear_status t tmrSTATUS_IS_ACTIVE ?r"
    obtain w where w: "run_callback cb t ?u = Some w" "tlists w = tlists ?u" "same_timers ?u w"
      "log (tkernel.more w) = log (tkernel.more ?u) @ [t]" by (rule run_callback_ok [OF cb])
    have uf: "tlists ?u = a_remove t (tlists s)" "tkernel.more ?u = tkernel.more s"
      by (simp_all add: clear_status_def upd_timer_def)
    have ou: "only_timer t s ?u" by (simp add: only_timer_def clear_status_def upd_timer_def auto_reload_def status_bit_def)
    have "prvProcessExpiredTimer cb (aval (tlists s) t) (of_nat tn) s = Some w"
      using hd r w(1) False by (simp add: prvProcessExpiredTimer_def auto_reload_def status_bit_def)
    moreover have "tlists_ok w"
    proof -
      have "tlists_ok ?u" using okr by (simp add: tlists_ok_def clear_status_def upd_timer_def)
      then show ?thesis using tlists_ok_cong [OF w(2,3)] by simp
    qed
    moreover have "only_timer t s w" by (rule only_timer_trans [OF ou same_only [OF w(3)]])
    moreover have "others_same t s w" using rm w(2) uf(1) by (simp add: others_same_def)
    moreover have "\<not> status_bit t tmrSTATUS_IS_ACTIVE w"
      using w(3) by (simp add: same_timers_def status_bit_def clear_status_def upd_timer_def)
    ultimately show ?thesis using that [of w] False w(2,4) uf by (simp add: due_times_def)
  qed
qed

section \<open>The overflow of the tick count\<close>

text \<open>
  At the overflow of epoch \<open>ep\<close> everything left in the current list is processed as of the last
  tick of the epoch, then the lists change roles.
\<close>

definition last_tick :: "nat \<Rightarrow> nat" where
  "last_tick ep = ep * w32 + (w32 - 1)"

lemma last_tick_word: "of_nat (last_tick ep) = tmrMAX_TIME_BEFORE_OVERFLOW"
proof -
  have "unat (of_nat (last_tick ep) :: u32) = unat (- 1 :: u32)"
    by (simp only: tick_parts last_tick_def) (simp add: w32_def unsigned_minus_1_eq_mask mask_eq_exp_minus_1)
  then show ?thesis unfolding tmrMAX_TIME_BEFORE_OVERFLOW_def by (rule word_unat_eq_iff [THEN iffD2])
qed

lemma last_tick_epoch: "last_tick ep div w32 = ep"
  by (simp add: last_tick_def w32_def)

definition drained :: "nat \<Rightarrow> nat \<Rightarrow> 'a tkernel_scheme \<Rightarrow> 'a tkernel_scheme \<Rightarrow> bool" where
  "drained ep t s s' \<longleftrightarrow>
     (if auto_reload t s
      then acont (tlists s') t = Some (pxOverflowTimerList s) \<and>
        expiry ep s' t = expiry ep s t + due_times (expiry ep s t) (last_tick ep) t s * unat (xTimerPeriodInTicks (timers s t))
      else acont (tlists s') t = None \<and> \<not> status_bit t tmrSTATUS_IS_ACTIVE s')"

lemma switch_loop_ok:
  assumes cb: "callbacks_ok cb log" and "tlists_ok s" and "alist (tlists s) (pxCurrentTimerList s) = ts"
  shows "\<exists>s'. switch_loop cb s = Some s' \<and> tlists_ok s' \<and> alist (tlists s') (pxCurrentTimerList s') = [] \<and>
    pxCurrentTimerList s' = pxCurrentTimerList s \<and> pxOverflowTimerList s' = pxOverflowTimerList s \<and>
    xLastTime s' = xLastTime s \<and> xTimerQueue s' = xTimerQueue s \<and>
    (\<forall>u. u \<notin> set ts \<longrightarrow> timers s' u = timers s u \<and> acont (tlists s') u = acont (tlists s) u \<and> aval (tlists s') u = aval (tlists s) u) \<and>
    (\<forall>u. xTimerPeriodInTicks (timers s' u) = xTimerPeriodInTicks (timers s u) \<and> auto_reload u s' = auto_reload u s) \<and>
    (\<forall>t \<in> set ts. drained ep t s s') \<and>
    log (tkernel.more s') = log (tkernel.more s) @
      concat (map (\<lambda>t. replicate (due_times (expiry ep s t) (last_tick ep) t s) t) ts)"
  using assms(2-)
proof (induction ts arbitrary: s)
  case Nil
  then show ?case by (subst switch_loop.simps) simp
next
  case (Cons t ts)
  let ?c = "pxCurrentTimerList s" and ?m = "last_tick ep"
  let ?tx = "expiry ep s t"
  have mem: "u \<in> set (t # ts) \<longleftrightarrow> acont (tlists s) u = Some ?c" for u
    using Cons.prems set_alist [of "tlists s" u ?c] by (simp add: tlists_ok_def)
  have d: "distinct (t # ts)" using Cons.prems by (simp add: tlists_ok_def awf_def) (metis distinct.simps(2))
  have ct: "acont (tlists s) t = Some ?c" using mem [of t] by simp
  have tx: "?tx = ep * w32 + unat (aval (tlists s) t)" using ct by (simp add: expiry_def)
  have le: "?tx \<le> ?m" using unat_u32 [of "aval (tlists s) t"] by (simp add: tx last_tick_def w32_def)
  have tx': "expiry (?m div w32) s t = ?tx" by (simp add: last_tick_epoch)
  obtain w where w: "prvProcessExpiredTimer cb (aval (tlists s) t) (of_nat ?m) s = Some w" "tlists_ok w"
    "only_timer t s w" "others_same t s w"
    "log (tkernel.more w) = log (tkernel.more s) @ replicate (due_times ?tx ?m t s) t"
    and a: "auto_reload t s \<Longrightarrow> acont (tlists w) t \<noteq> None \<and>
      expiry (?m div w32) w t = ?tx + due_times ?tx ?m t s * unat (xTimerPeriodInTicks (timers s t))"
    and n: "\<not> auto_reload t s \<Longrightarrow> acont (tlists w) t = None \<and> \<not> status_bit t tmrSTATUS_IS_ACTIVE w"
    by (rule process_ok [OF cb Cons.prems tx' le]) blast
  have sel: "pxCurrentTimerList w = ?c" "pxOverflowTimerList w = pxOverflowTimerList s" "xLastTime w = xLastTime s"
    "xTimerQueue w = xTimerQueue s"
    using w(3) by (simp_all add: only_timer_def)
  have off: "acont (tlists w) t \<noteq> Some ?c"
  proof
    assume c: "acont (tlists w) t = Some ?c"
    then have r: "auto_reload t s" using n by auto
    have p: "0 < unat (xTimerPeriodInTicks (timers s t))"
      using Cons.prems(1) ct by (simp add: tlists_ok_def unat_gt_0 word_gt_0)
    have "?m < ?tx + due_times ?tx ?m t s * unat (xTimerPeriodInTicks (timers s t))"
      using r p le dividend_less_times_div [OF p, of "?m - ?tx"] by (simp add: due_times_def) (simp add: algebra_simps)
    then have "?m < expiry ep w t" using a [OF r] by (simp add: last_tick_epoch)
    moreover have "expiry ep w t \<le> ?m"
      using c sel unat_u32 [of "aval (tlists w) t"] by (simp add: expiry_def last_tick_def w32_def)
    ultimately show False by simp
  qed
  have tl: "alist (tlists w) (pxCurrentTimerList w) = ts"
    using w(4) off Cons.prems(2) d sel by (auto simp: others_same_def filter_id_conv)
  have ds: "drained ep t s w"
  proof (cases "auto_reload t s")
    case True
    then obtain l where l: "acont (tlists w) t = Some l" using a by auto
    then have "l = pxOverflowTimerList s"
      using off Cons.prems(1) by (cases l; cases ?c; cases "pxOverflowTimerList s") (auto simp: tlists_ok_def)
    then show ?thesis using a True l by (simp add: drained_def last_tick_epoch)
  qed (use n in \<open>simp add: drained_def\<close>)
  obtain s' where s': "switch_loop cb w = Some s'" "tlists_ok s'" "alist (tlists s') (pxCurrentTimerList s') = []"
    "pxCurrentTimerList s' = pxCurrentTimerList w" "pxOverflowTimerList s' = pxOverflowTimerList w"
    "xLastTime s' = xLastTime w" "xTimerQueue s' = xTimerQueue w"
    "\<forall>u. u \<notin> set ts \<longrightarrow> timers s' u = timers w u \<and> acont (tlists s') u = acont (tlists w) u \<and> aval (tlists s') u = aval (tlists w) u"
    "\<forall>u. xTimerPeriodInTicks (timers s' u) = xTimerPeriodInTicks (timers w u) \<and> auto_reload u s' = auto_reload u w"
    "\<forall>t \<in> set ts. drained ep t w s'"
    "log (tkernel.more s') = log (tkernel.more w) @ concat (map (\<lambda>t. replicate (due_times (expiry ep w t) (last_tick ep) t w) t) ts)"
    using Cons.IH [OF w(2) tl] by blast
  have same: "expiry ep w u = expiry ep s u" "due_times x y u w = due_times x y u s" "auto_reload u w = auto_reload u s"
    "xTimerPeriodInTicks (timers w u) = xTimerPeriodInTicks (timers s u)" if "u \<noteq> t" for u x y
    using that w(3,4) by (simp_all add: expiry_def others_same_def only_timer_def due_times_def auto_reload_def status_bit_def)
  have nt: "t \<notin> set ts" using d by simp
  have "switch_loop cb s = switch_loop cb w"
    using Cons.prems(2) w(1) by (subst switch_loop.simps) (simp add: last_tick_word)
  moreover have "drained ep u s s'" if "u \<in> set (t # ts)" for u
  proof (cases "u = t")
    case True
    have e: "expiry ep s' t = expiry ep w t" "acont (tlists s') t = acont (tlists w) t" "timers s' t = timers w t"
      using s'(4,8) nt by (simp_all add: expiry_def)
    show ?thesis using ds unfolding True drained_def e status_bit_def .
  next
    case False
    then show ?thesis using that s'(10) same [OF False] sel by (auto simp: drained_def)
  qed
  moreover have "log (tkernel.more s') = log (tkernel.more s) @
      concat (map (\<lambda>t. replicate (due_times (expiry ep s t) (last_tick ep) t s) t) (t # ts))"
  proof -
    have m: "concat (map (\<lambda>t. replicate (due_times (expiry ep w t) (last_tick ep) t w) t) ts) =
        concat (map (\<lambda>t. replicate (due_times (expiry ep s t) (last_tick ep) t s) t) ts)"
    proof (rule arg_cong [where f = concat], rule map_cong [OF HOL.refl])
      fix u assume "u \<in> set ts"
      then have u: "u \<noteq> t" using nt by auto
      show "replicate (due_times (expiry ep w u) (last_tick ep) u w) u = replicate (due_times (expiry ep s u) (last_tick ep) u s) u"
        by (simp only: same(1,2) [OF u])
    qed
    show ?thesis unfolding s'(11) w(5) m by simp
  qed
  moreover have "\<forall>u. u \<notin> set (t # ts) \<longrightarrow> timers s' u = timers s u \<and> acont (tlists s') u = acont (tlists s) u \<and>
      aval (tlists s') u = aval (tlists s) u"
    using s'(8) w(3,4) by (simp add: only_timer_def others_same_def)
  moreover have "xTimerPeriodInTicks (timers s' u) = xTimerPeriodInTicks (timers s u) \<and> auto_reload u s' = auto_reload u s" for u
    using s'(9) w(3) same by (cases "u = t") (simp_all add: only_timer_def)
  ultimately show ?case using s'(1-7) sel by simp
qed

section \<open>Properties\<close>

text \<open>C22: A timer is put in the right list with the right time whatever the tick count, across its
  overflow too: for a command given at tick \<open>tc\<close> and handled at tick \<open>tn\<close>, less than one turn of
  the counter later, the timer is reported as expired exactly if its period has passed, and
  otherwise joins the sorted list of the epoch in which it will expire.\<close>

theorem prvInsertTimerInActiveList_correct:
  assumes "tlists_ok s" and "acont (tlists s) t = None" and "xTimerPeriodInTicks (timers s t) > 0"
    and "tc \<le> tn" and "tn < tc + w32"
  shows "\<exists>s' b. prvInsertTimerInActiveList t (of_nat tc + xTimerPeriodInTicks (timers s t)) (of_nat tn) (of_nat tc) s = (s', b) \<and>
    (b \<longleftrightarrow> tc + unat (xTimerPeriodInTicks (timers s t)) \<le> tn) \<and> tlists_ok s' \<and>
    (if b then acont (tlists s') t = None
     else acont (tlists s') t \<noteq> None \<and> expiry (tn div w32) s' t = tc + unat (xTimerPeriodInTicks (timers s t)))"
proof -
  obtain s' where "prvInsertTimerInActiveList t (of_nat tc + xTimerPeriodInTicks (timers s t)) (of_nat tn) (of_nat tc) s =
      (s', tc + unat (xTimerPeriodInTicks (timers s t)) \<le> tn)"
    "tlists_ok s'"
    and "tc + unat (xTimerPeriodInTicks (timers s t)) \<le> tn \<Longrightarrow> acont (tlists s') t = None"
    and "tn < tc + unat (xTimerPeriodInTicks (timers s t)) \<Longrightarrow> acont (tlists s') t \<noteq> None \<and>
      expiry (tn div w32) s' t = tc + unat (xTimerPeriodInTicks (timers s t))"
    by (rule insert_ok [OF assms]) blast
  then show ?thesis
    by (intro exI [of _ s'] exI [of _ "tc + unat (xTimerPeriodInTicks (timers s t)) \<le> tn"]) auto
qed

text \<open>C23: A late daemon loses no expiry and no phase: an auto-reload timer that was due at \<open>tx\<close> and is
  processed at \<open>tn\<close> runs its callback once for every period since, and is next due at the first
  multiple of its period after \<open>tn\<close>; a one-shot timer runs its callback once and is dormant; the
  other timers keep their expiry times.\<close>

theorem prvProcessExpiredTimer_correct:
  assumes "callbacks_ok cb log" and "tlists_ok s" and "alist (tlists s) (pxCurrentTimerList s) = t # ts"
    and "expiry (tn div w32) s t = tx" and "tx \<le> tn"
  shows "\<exists>s'. prvProcessExpiredTimer cb (aval (tlists s) t) (of_nat tn) s = Some s' \<and> tlists_ok s' \<and>
    log (tkernel.more s') = log (tkernel.more s) @ replicate (due_times tx tn t s) t \<and>
    (if auto_reload t s
     then tn < expiry (tn div w32) s' t \<and>
       expiry (tn div w32) s' t = tx + due_times tx tn t s * unat (xTimerPeriodInTicks (timers s t))
     else acont (tlists s') t = None \<and> \<not> status_bit t tmrSTATUS_IS_ACTIVE s') \<and>
    (\<forall>u. u \<noteq> t \<longrightarrow> acont (tlists s') u = acont (tlists s) u \<and> expiry (tn div w32) s' u = expiry (tn div w32) s u)"
proof -
  let ?p = "unat (xTimerPeriodInTicks (timers s t))"
  obtain s' where s': "prvProcessExpiredTimer cb (aval (tlists s) t) (of_nat tn) s = Some s'" "tlists_ok s'"
    "only_timer t s s'" "others_same t s s'"
    "log (tkernel.more s') = log (tkernel.more s) @ replicate (due_times tx tn t s) t"
    and a: "auto_reload t s \<Longrightarrow> acont (tlists s') t \<noteq> None \<and> expiry (tn div w32) s' t = tx + due_times tx tn t s * ?p"
    and n: "\<not> auto_reload t s \<Longrightarrow> acont (tlists s') t = None \<and> \<not> status_bit t tmrSTATUS_IS_ACTIVE s'"
    by (rule process_ok [OF assms]) blast
  have "acont (tlists s) t = Some (pxCurrentTimerList s)"
    using assms(2,3) set_alist [of "tlists s" t "pxCurrentTimerList s"] by (simp add: tlists_ok_def)
  then have p: "0 < ?p" using assms(2) by (simp add: tlists_ok_def unat_gt_0 word_gt_0)
  have "tn < tx + due_times tx tn t s * ?p" if "auto_reload t s"
    using that assms(5) dividend_less_times_div [OF p, of "tn - tx"] by (simp add: due_times_def) (simp add: algebra_simps)
  then show ?thesis using s' a n by (cases "auto_reload t s") (auto simp: others_same_def expiry_def only_timer_def)
qed

text \<open>C24: At an overflow of the tick count the switch of the lists ends, runs every callback that was
  still due in the old epoch, in the order of expiry and as often as periods had passed, and
  afterwards every timer on a list has the expiry time it should have: the timers of the overflow
  list the one they had, the reloaded ones the next one in phase.\<close>

theorem prvSwitchTimerLists_correct:
  assumes "callbacks_ok cb log" and "tlists_ok s" and "alist (tlists s) (pxCurrentTimerList s) = ts"
  shows "\<exists>s'. prvSwitchTimerLists cb s = Some s' \<and> tlists_ok s' \<and>
    pxCurrentTimerList s' = pxOverflowTimerList s \<and> alist (tlists s') (pxOverflowTimerList s') = [] \<and>
    log (tkernel.more s') = log (tkernel.more s) @
      concat (map (\<lambda>t. replicate (due_times (expiry ep s t) (last_tick ep) t s) t) ts) \<and>
    (\<forall>t \<in> set ts.
       if auto_reload t s
       then acont (tlists s') t \<noteq> None \<and>
         expiry (Suc ep) s' t = expiry ep s t + due_times (expiry ep s t) (last_tick ep) t s * unat (xTimerPeriodInTicks (timers s t))
       else acont (tlists s') t = None \<and> \<not> status_bit t tmrSTATUS_IS_ACTIVE s') \<and>
    (\<forall>t. acont (tlists s) t = Some (pxOverflowTimerList s) \<longrightarrow>
       acont (tlists s') t \<noteq> None \<and> expiry (Suc ep) s' t = expiry ep s t)"
proof -
  obtain u where u: "switch_loop cb s = Some u" "tlists_ok u" "alist (tlists u) (pxCurrentTimerList u) = []"
    "pxCurrentTimerList u = pxCurrentTimerList s" "pxOverflowTimerList u = pxOverflowTimerList s"
    "xLastTime u = xLastTime s" "xTimerQueue u = xTimerQueue s"
    "\<forall>w. w \<notin> set ts \<longrightarrow> timers u w = timers s w \<and> acont (tlists u) w = acont (tlists s) w \<and> aval (tlists u) w = aval (tlists s) w"
    "\<forall>w. xTimerPeriodInTicks (timers u w) = xTimerPeriodInTicks (timers s w) \<and> auto_reload w u = auto_reload w s"
    "\<forall>t \<in> set ts. drained ep t s u"
    "log (tkernel.more u) = log (tkernel.more s) @
      concat (map (\<lambda>t. replicate (due_times (expiry ep s t) (last_tick ep) t s) t) ts)"
    using switch_loop_ok [OF assms, of ep] by blast
  define s' where "s' = u\<lparr>pxCurrentTimerList := pxOverflowTimerList u, pxOverflowTimerList := pxCurrentTimerList u\<rparr>"
  have f: "tlists s' = tlists u" "timers s' = timers u" "tkernel.more s' = tkernel.more u"
    "pxCurrentTimerList s' = pxOverflowTimerList s" "pxOverflowTimerList s' = pxCurrentTimerList s"
    using u(4,5) by (simp_all add: s'_def)
  have ne: "pxOverflowTimerList s \<noteq> pxCurrentTimerList s" using assms(2) unfolding tlists_ok_def by metis
  have "tlists_ok s'" using u(2,4,5) f by (auto simp: tlists_ok_def)
  moreover have "if auto_reload t s
       then acont (tlists s') t \<noteq> None \<and>
         expiry (Suc ep) s' t = expiry ep s t + due_times (expiry ep s t) (last_tick ep) t s * unat (xTimerPeriodInTicks (timers s t))
       else acont (tlists s') t = None \<and> \<not> status_bit t tmrSTATUS_IS_ACTIVE s'" if t: "t \<in> set ts" for t
  proof (cases "auto_reload t s")
    case True
    then have c: "acont (tlists u) t = Some (pxOverflowTimerList s)"
      and e: "expiry ep u t = expiry ep s t + due_times (expiry ep s t) (last_tick ep) t s * unat (xTimerPeriodInTicks (timers s t))"
      using u(10) t by (auto simp: drained_def)
    have "expiry (Suc ep) s' t = expiry ep u t" using c ne u(4,5) f by (simp add: expiry_def)
    then show ?thesis using True c e f by simp
  qed (use u(10) t f in \<open>auto simp: drained_def status_bit_def\<close>)
  moreover have "acont (tlists s') t \<noteq> None \<and> expiry (Suc ep) s' t = expiry ep s t"
    if t: "acont (tlists s) t = Some (pxOverflowTimerList s)" for t
  proof -
    have "t \<notin> set ts" using t ne assms(2,3) set_alist [of "tlists s" t "pxCurrentTimerList s"] by (auto simp: tlists_ok_def)
    then show ?thesis using u(5,8) t ne f by (simp add: expiry_def)
  qed
  moreover have "prvSwitchTimerLists cb s = Some s'" using u(1) by (simp add: prvSwitchTimerLists_def s'_def)
  moreover have "alist (tlists s') (pxOverflowTimerList s') = []" using u(3,4) f by simp
  moreover note f(4) u(11) [folded f(3)]
  ultimately show ?thesis by blast
qed

section \<open>Commands through the queue\<close>

definition valid_message :: "daemon_message \<Rightarrow> bool" where
  "valid_message m \<longleftrightarrow> - (2 ^ 31) \<le> xMessageID m \<and> xMessageID m < 2 ^ 31 \<and> pxTimer m < w32"

lemma message_round_trip: "valid_message m \<Longrightarrow> message_of (message_bytes m) = m"
  by (cases m) (simp add: valid_message_def message_of_def message_bytes_def signed_of_int unat_of_nat w32_def
      signed_take_bit_int_eq_self)

lemma length_message_bytes: "length (message_bytes m) = sizeof_message"
  by (simp add: message_bytes_def sizeof_message_def)

lemma wake_first_more: "wake_first l portYIELD s = Some s' \<Longrightarrow> kernel.more s' = kernel.more s"
  by (auto simp: wake_first_def wkeep_def portYIELD_def split: if_splits bind_splits dest!: signal_wkeep)

lemma qkernel_more: "kernel.more s' = kernel.more s \<Longrightarrow> qkernel.more s' = qkernel.more s"
  by (cases s; cases s') simp

lemma copy_more: "qkernel.more (prvCopyDataToQueue q x pos s) = qkernel.more s"
  by (simp add: prvCopyDataToQueue_def heap_store_def upd_queue_def Let_def)

lemma send_more:
  assumes "xQueueGenericSend_try q x n pos t s = Some (s', r)"
  shows "qkernel.more s' = qkernel.more s"
proof -
  have "qkernel.more s' = qkernel.more (prvCopyDataToQueue q (bytes_of x) pos s) \<or> s' = s"
    using assms by (auto simp: xQueueGenericSend_try_def split: if_splits bind_splits dest!: wake_first_more intro: qkernel_more)
  then show ?thesis using copy_more [of q "bytes_of x" pos s] by auto
qed

lemma more_timer_queue: "qkernel.more s' = qkernel.more s \<Longrightarrow> xTimerQueue s' = xTimerQueue s"
  by (cases s; cases s') simp

text \<open>C25: A command reaches the daemon as it was given: with room in the queue the call succeeds
  without waiting, and the messages the daemon will read, decoded from the bytes in the queue, are
  those that were there, in their order, and then this one.\<close>

theorem timer_command_delivered:
  assumes inv: "qsys S E (xTimerQueue s) sizeof_message c s" and room: "uxMessagesWaiting (queues s (xTimerQueue s)) < c"
    and t: "t \<noteq> 0" "t < w32" and id: "0 \<le> i" "i < tmrFIRST_FROM_ISR_COMMAND"
  shows "let ms = map message_of (qitems (xTimerQueue s) s) @ [\<lparr>xMessageID = i, xMessageValue = v, pxTimer = t\<rparr>] in
    \<exists>s' u x. xTimerGenericCommand_try t i v n s = Some (s', Returned True) \<and>
      qsys S E (xTimerQueue s') sizeof_message c s' \<and> map message_of (qitems (xTimerQueue s') s') = ms \<and>
      xQueueReceive_try (xTimerQueue s') 0 None s' = Some (u, Returned True, x) \<and> message_of x = hd ms"
proof -
  let ?q = "xTimerQueue s" and ?m = "\<lparr>xMessageID = i, xMessageValue = v, pxTimer = t\<rparr>"
  let ?n = "if xTaskGetSchedulerState s = taskSCHEDULER_RUNNING then n else 0"
  have z: "0 < sizeof_message" by (simp add: sizeof_message_def)
  obtain s' where s': "xQueueGenericSend_try ?q (Some (message_bytes ?m)) ?n queueSEND_TO_BACK None s = Some (s', Returned True)"
    "done_and_woken S E ?q sizeof_message c (WaitingToReceive ?q) (Suc (uxMessagesWaiting (queues s ?q)))
      (added queueSEND_TO_BACK (message_bytes ?m) (qitems ?q s)) s s'"
    using xQueueGenericSend_try_ok [OF inv length_message_bytes [of ?m] _ room, of queueSEND_TO_BACK ?n None] by blast
  have q': "xTimerQueue s' = ?q" by (rule more_timer_queue [OF send_more [OF s'(1)]])
  have w: "qsys S E ?q sizeof_message c s'" "qitems ?q s' = qitems ?q s @ [message_bytes ?m]"
    "uxMessagesWaiting (queues s' ?q) > 0"
    using s'(2) z by (simp_all add: done_and_woken_def added_def)
  obtain u x where u: "xQueueReceive_try ?q 0 None s' = Some (u, Returned True, x)" "x = hd (qitems ?q s')"
    by (rule xQueueReceive_try_ok [OF w(1,3)]) (use z in blast)
  have m: "message_of (message_bytes ?m) = ?m"
    by (rule message_round_trip) (use t id in \<open>simp add: valid_message_def tmrFIRST_FROM_ISR_COMMAND_def\<close>)
  have "xTimerGenericCommand_try t i v n s = Some (s', Returned True)"
    using s'(1) t inv
    by (auto simp: xTimerGenericCommand_try_def xQueueGenericSend_asserts_def configASSERT_def buffer_ok_def may_wait_def
        qsys_def Let_def)
  moreover have "message_of x = hd (map message_of (qitems ?q s) @ [?m])"
    using u(2) w(2) m by (cases "qitems ?q s") simp_all
  ultimately show ?thesis using q' w u(1) m by (simp add: Let_def)
qed

section \<open>A concrete timer system\<close>

text \<open>The demonstration kernel with two timers of period 10 on the current list, due at tick 5; the
  application's state is the list of callbacks that have run.\<close>

definition demo_timer :: "u8 \<Rightarrow> timer_t" where
  "demo_timer b = \<lparr>pcTimerName = ''tmr'', xTimerPeriodInTicks = 10, pvTimerID = 0, pxCallbackFunction = 4096, ucStatus = b\<rparr>"

definition demo_tlists :: "(timer_list, nat) astore" where
  "demo_tlists = a_insert xActiveTimerList1 3200 (a_insert xActiveTimerList1 3100
     (a_set_value 3200 5 (a_set_value 3100 5 empty_store)))"

definition demo_timers :: "(timer_list, nat) astore \<Rightarrow> heap \<Rightarrow> nat list tkernel_scheme" where
  "demo_timers a h = ekernel.extend (demo_group 0 h)
     (tkernel_ext a ((\<lambda>_. demo_timer 0)(3100 := demo_timer 5, 3200 := demo_timer 1))
        xActiveTimerList1 xActiveTimerList2 2000 1344 0 [])"

definition demo_callback :: "nat list callbacks" where
  "demo_callback f t s = Some (tkernel.more_update (\<lambda>ts. ts @ [t]) s)"

lemma demo_timers_sel [simp]:
  "tlists (demo_timers a h) = a" "timers (demo_timers a h) = (\<lambda>_. demo_timer 0)(3100 := demo_timer 5, 3200 := demo_timer 1)"
  "pxCurrentTimerList (demo_timers a h) = xActiveTimerList1" "pxOverflowTimerList (demo_timers a h) = xActiveTimerList2"
  "xTimerQueue (demo_timers a h) = 2000" "tkernel.more (demo_timers a h) = []"
  by (simp_all add: demo_timers_def ekernel.defs)

lemma demo_callbacks_ok: "callbacks_ok demo_callback (\<lambda>x. x)"
  by (simp add: callbacks_ok_def demo_callback_def same_timers_def)

lemma demo_tlists_sel:
  "alist demo_tlists xActiveTimerList1 = [3100, 3200]" "alist demo_tlists xActiveTimerList2 = []"
  "acont demo_tlists t = (if t = 3100 \<or> t = 3200 then Some xActiveTimerList1 else None)"
  "aval demo_tlists t = (if t = 3100 \<or> t = 3200 then 5 else 0)"
  "awf UNIV demo_tlists" "vsorted demo_tlists l"
proof -
  show "alist demo_tlists xActiveTimerList1 = [3100, 3200]" "alist demo_tlists xActiveTimerList2 = []"
    by (simp_all add: demo_tlists_def a_insert_def a_put_def a_set_value_def Let_def)
  show "acont demo_tlists t = (if t = 3100 \<or> t = 3200 then Some xActiveTimerList1 else None)"
    "aval demo_tlists t = (if t = 3100 \<or> t = 3200 then 5 else 0)"
    by (simp_all add: demo_tlists_def)
  show "awf UNIV demo_tlists" by (simp add: demo_tlists_def)
  show "vsorted demo_tlists l"
    by (cases l) (simp_all add: demo_tlists_def)
qed

lemma demo_tlists_ok: "tlists_ok (demo_timers demo_tlists h)"
  by (simp add: tlists_ok_def demo_tlists_sel demo_timer_def)

theorem prvInsertTimerInActiveList_correct_witness:
  "\<exists>s' b. prvInsertTimerInActiveList 3300 (of_nat 4294967290 + 20) (of_nat 4294967291) (of_nat 4294967290)
     ((upd_timer 3300 (xTimerPeriodInTicks_update (\<lambda>_. 20)) (demo_timers demo_tlists demo_heap)) :: nat list tkernel_scheme) = (s', b) \<and>
     \<not> b \<and> expiry 0 s' 3300 = 4294967310"
proof -
  let ?s = "(upd_timer 3300 (xTimerPeriodInTicks_update (\<lambda>_. 20)) (demo_timers demo_tlists demo_heap)) :: nat list tkernel_scheme"
  have "tlists_ok ?s" using demo_tlists_ok [of demo_heap] by (simp add: tlists_ok_def upd_timer_def)
  moreover have "acont (tlists ?s) 3300 = None" "xTimerPeriodInTicks (timers ?s 3300) = 20"
    by (simp_all add: upd_timer_def demo_tlists_sel)
  ultimately show ?thesis
    using prvInsertTimerInActiveList_correct [of ?s 3300 4294967290 4294967291] by (auto simp: w32_value)
qed

theorem prvProcessExpiredTimer_correct_witness:
  "\<exists>s'. prvProcessExpiredTimer demo_callback 5 (of_nat 27) (demo_timers demo_tlists demo_heap) = Some s' \<and>
     tkernel.more s' = [3100, 3100, 3100] \<and> expiry 0 s' 3100 = 35"
proof -
  let ?s = "demo_timers demo_tlists demo_heap"
  have e: "expiry (27 div w32) ?s 3100 = 5" "due_times 5 27 3100 ?s = 3" "auto_reload 3100 ?s"
    by (simp_all add: expiry_def demo_tlists_sel due_times_def auto_reload_def status_bit_def demo_timer_def
        tmrSTATUS_IS_AUTORELOAD_def w32_value)
  have l: "alist (tlists ?s) (pxCurrentTimerList ?s) = 3100 # [3200]" by (simp add: demo_tlists_sel)
  from prvProcessExpiredTimer_correct [OF demo_callbacks_ok demo_tlists_ok l, of 27 5] show ?thesis
    unfolding e(2) using e(1,3) by (auto simp: demo_tlists_sel demo_timer_def numeral_3_eq_3 w32_value)
qed

theorem prvSwitchTimerLists_correct_witness:
  "\<exists>s'. prvSwitchTimerLists demo_callback (demo_timers demo_tlists demo_heap) = Some s' \<and>
     alist (tlists s') (pxOverflowTimerList s') = []"
proof -
  let ?s = "demo_timers demo_tlists demo_heap"
  have l: "alist (tlists ?s) (pxCurrentTimerList ?s) = [3100, 3200]" by (simp add: demo_tlists_sel)
  from prvSwitchTimerLists_correct [OF demo_callbacks_ok demo_tlists_ok l, of 0] show ?thesis by blast
qed

definition demo_command_ring :: queue_t where
  "demo_command_ring =
     \<lparr>pcHead = 2072, pcWriteTo = 2072, pcTail = 2192, pcReadFrom = 2180, uxMessagesWaiting = 0,
      uxLength = 10, uxItemSize = 12, cRxLock = - 1, cTxLock = - 1\<rparr>"


lemma demo_command_ready: "qready 12 10 demo_command_ring"
proof -
  have "ring demo_command_ring"
    unfolding ring_def by (intro conjI exI [of _ 9]) (simp_all add: demo_command_ring_def slot_addr_def w32_value)
  then show ?thesis by (simp add: qready_def) (simp add: demo_command_ring_def w32_value)
qed

lemma demo_timers_qsys:
  obtains h where "qsys 1024 5112 2000 12 10 (upd_queue 2000 (\<lambda>_. demo_command_ring) (demo_timers demo_tlists h))"
proof -
  obtain h ts where "egsys 1024 5112 (demo_group 0 h)" by (rule demo_group_egsys)
  then have "tinv 1024 5112 (demo_group 0 h)" by (simp add: egsys_def)
  then have t: "tinv 1024 5112 (demo_timers demo_tlists h)"
    by (simp add: demo_timers_def tinv_def kinv_def kinv0_def places_def delays_def readies_def unblock_times_def
        none_pending_def owned_def owned_by_def counted_def ktasks_def terminated_def is_ready_def
        waiting_free_def ekernel.defs)
  have n: "uxCurrentNumberOfTasks (demo_timers demo_tlists h) = 3"
    by (simp add: demo_timers_def ekernel.defs demo_group_def qkernel.defs demo_queue_def kernel.defs)
  show ?thesis
    by (rule that [of h]) (use upd_queue_tinv [OF t] n demo_command_ready in \<open>simp add: qsys_def upd_queue_def\<close>)
qed

theorem timer_command_delivered_witness:
  "\<exists>h s' u x. xTimerGenericCommand_try 3100 tmrCOMMAND_START 77 0
       (upd_queue 2000 (\<lambda>_. demo_command_ring) (demo_timers demo_tlists h)) = Some (s', Returned True) \<and>
     xQueueReceive_try (xTimerQueue s') 0 None s' = Some (u, Returned True, x) \<and>
     message_of x = \<lparr>xMessageID = 1, xMessageValue = 77, pxTimer = 3100\<rparr>"
proof -
  obtain h where q: "qsys 1024 5112 2000 12 10 (upd_queue 2000 (\<lambda>_. demo_command_ring) (demo_timers demo_tlists h))"
    by (rule demo_timers_qsys)
  let ?s = "upd_queue 2000 (\<lambda>_. demo_command_ring) (demo_timers demo_tlists h)"
  have s: "xTimerQueue ?s = 2000" "uxMessagesWaiting (queues ?s 2000) = 0" "qitems 2000 ?s = []"
    by (simp_all add: upd_queue_def demo_command_ring_def qitems_def contents_def)
  show ?thesis
    using timer_command_delivered [of 1024 5112 ?s 10 3100 tmrCOMMAND_START 77 0] q s
    by (auto simp: sizeof_message_def tmrCOMMAND_START_def tmrFIRST_FROM_ISR_COMMAND_def w32_value Let_def)
qed

end
