(* ===== verification/StreamBuffer.thy ===== *)
theory StreamBuffer
  imports Timers
begin

text \<open>
  The stream and message buffers of \<open>stream_buffer.c\<close>: a ring of bytes for one writer and one
  reader, without locks around the copying.  A message buffer stores every message after its
  length.  The calls that may block are cut where another task or an interrupt may come in
  between: registering as the waiting task, the wait for a notification, the look at the free
  space or at the bytes stored, the copy, and the notification of the other side.
\<close>

section \<open>State\<close>

text \<open>\<open>StreamBuffer_t\<close>; the bytes lie in the heap's memory behind it.\<close>

record stream_buffer =
  xTail :: nat
  xHead :: nat
  xLength :: nat
  xTriggerLevelBytes :: nat
  xTaskWaitingToReceive :: nat
  xTaskWaitingToSend :: nat
  pucBuffer :: nat
  ucFlags :: u8

record skernel = tkernel +
  stream_buffers :: "nat \<Rightarrow> stream_buffer"

definition sbBYTES_TO_STORE_MESSAGE_LENGTH :: nat where
  "sbBYTES_TO_STORE_MESSAGE_LENGTH = 4"

definition sbFLAGS_IS_MESSAGE_BUFFER :: u8 where
  "sbFLAGS_IS_MESSAGE_BUFFER = 1"

definition sbFLAGS_IS_STATICALLY_ALLOCATED :: u8 where
  "sbFLAGS_IS_STATICALLY_ALLOCATED = 2"

text \<open>\<open>sizeof( StreamBuffer_t )\<close>: seven words and a byte, rounded to words.\<close>

definition sizeof_StreamBuffer :: nat where
  "sizeof_StreamBuffer = 32"

definition upd_sb :: "nat \<Rightarrow> (stream_buffer \<Rightarrow> stream_buffer) \<Rightarrow> 'a skernel_scheme \<Rightarrow> 'a skernel_scheme" where
  "upd_sb b f s = s\<lparr>stream_buffers := (stream_buffers s)(b := f (stream_buffers s b))\<rparr>"

definition is_message :: "stream_buffer \<Rightarrow> bool" where
  "is_message B \<longleftrightarrow> ucFlags B AND sbFLAGS_IS_MESSAGE_BUFFER \<noteq> 0"

definition length_bytes :: "stream_buffer \<Rightarrow> nat" where
  "length_bytes B = (if is_message B then sbBYTES_TO_STORE_MESSAGE_LENGTH else 0)"

section \<open>Creation, deletion, reset\<close>

definition zero_buffer :: stream_buffer where
  "zero_buffer =
     \<lparr>xTail = 0, xHead = 0, xLength = 0, xTriggerLevelBytes = 0, xTaskWaitingToReceive = 0,
      xTaskWaitingToSend = 0, pucBuffer = 0, ucFlags = 0\<rparr>"

definition prvInitialiseNewStreamBuffer ::
  "nat \<Rightarrow> nat \<Rightarrow> nat \<Rightarrow> nat \<Rightarrow> u8 \<Rightarrow> 'a skernel_scheme \<Rightarrow> 'a skernel_scheme" where
  "prvInitialiseNewStreamBuffer b puc xBufferSizeBytes trigger flags s =
     (let s = heap_store puc (replicate xBufferSizeBytes 0x55) s;
          s = upd_sb b (\<lambda>_. zero_buffer) s
      in upd_sb b (\<lambda>B. B\<lparr>pucBuffer := puc, xLength := xBufferSizeBytes, xTriggerLevelBytes := trigger, ucFlags := flags\<rparr>) s)"

definition xStreamBufferGenericCreate ::
  "nat \<Rightarrow> nat \<Rightarrow> bool \<Rightarrow> 'a skernel_scheme \<Rightarrow> ('a skernel_scheme \<times> nat) option" where
  "xStreamBufferGenericCreate xBufferSizeBytes trigger xIsMessageBuffer s =
     do {
       configASSERT (xBufferSizeBytes > (if xIsMessageBuffer then sbBYTES_TO_STORE_MESSAGE_LENGTH else 0));
       let flags = (if xIsMessageBuffer then sbFLAGS_IS_MESSAGE_BUFFER else 0);
       configASSERT (trigger \<le> xBufferSizeBytes);
       let trigger = (if trigger = 0 then 1 else trigger);
       (s, b, n) \<leftarrow>
         (if xBufferSizeBytes < wadd (wadd xBufferSizeBytes 1) sizeof_StreamBuffer
          then do {
            let n = wadd xBufferSizeBytes 1;
            (s, b) \<leftarrow> kernel_malloc (wadd n sizeof_StreamBuffer) s;
            Some (s, b, n)
          }
          else Some (s, 0, xBufferSizeBytes));
       Some (if b \<noteq> 0 then prvInitialiseNewStreamBuffer b (wadd b sizeof_StreamBuffer) n trigger flags s else s, b)
     }"

definition vStreamBufferDelete :: "nat \<Rightarrow> 'a skernel_scheme \<Rightarrow> 'a skernel_scheme option" where
  "vStreamBufferDelete b s =
     do {
       configASSERT (b \<noteq> 0);
       if ucFlags (stream_buffers s b) AND sbFLAGS_IS_STATICALLY_ALLOCATED = 0 then kernel_free b s
       else Some (upd_sb b (\<lambda>_. zero_buffer) s)
     }"

definition xStreamBufferReset :: "nat \<Rightarrow> 'a skernel_scheme \<Rightarrow> ('a skernel_scheme \<times> bool) option" where
  "xStreamBufferReset b s =
     do {
       configASSERT (b \<noteq> 0);
       let B = stream_buffers s b;
       Some (if xTaskWaitingToReceive B = 0 \<and> xTaskWaitingToSend B = 0
             then (prvInitialiseNewStreamBuffer b (pucBuffer B) (xLength B) (xTriggerLevelBytes B) (ucFlags B) s, True)
             else (s, False))
     }"

definition xStreamBufferSetTriggerLevel :: "nat \<Rightarrow> nat \<Rightarrow> 'a skernel_scheme \<Rightarrow> ('a skernel_scheme \<times> bool) option" where
  "xStreamBufferSetTriggerLevel b xTriggerLevel s =
     do {
       configASSERT (b \<noteq> 0);
       let t = (if xTriggerLevel = 0 then 1 else xTriggerLevel);
       Some (if t < xLength (stream_buffers s b) then (upd_sb b (xTriggerLevelBytes_update (\<lambda>_. t)) s, True)
             else (s, False))
     }"

section \<open>Fill level\<close>

definition prvBytesInBuffer :: "stream_buffer \<Rightarrow> nat" where
  "prvBytesInBuffer B =
     (let xCount = wsub (wadd (xLength B) (xHead B)) (xTail B)
      in if xCount \<ge> xLength B then wsub xCount (xLength B) else xCount)"

text \<open>The loop of the code re-reads \<open>xTail\<close> until it reads the same twice; here it is read once.\<close>

definition xStreamBufferSpacesAvailable :: "nat \<Rightarrow> 'a skernel_scheme \<Rightarrow> nat option" where
  "xStreamBufferSpacesAvailable b s =
     do {
       configASSERT (b \<noteq> 0);
       let B = stream_buffers s b;
       let xSpace = wsub (wadd (xLength B) (xTail B)) (xHead B);
       let xSpace = wsub xSpace 1;
       Some (if xSpace \<ge> xLength B then wsub xSpace (xLength B) else xSpace)
     }"

definition xStreamBufferBytesAvailable :: "nat \<Rightarrow> 'a skernel_scheme \<Rightarrow> nat option" where
  "xStreamBufferBytesAvailable b s = do { configASSERT (b \<noteq> 0); Some (prvBytesInBuffer (stream_buffers s b)) }"

definition xStreamBufferIsEmpty :: "nat \<Rightarrow> 'a skernel_scheme \<Rightarrow> bool option" where
  "xStreamBufferIsEmpty b s =
     do { configASSERT (b \<noteq> 0); Some (xHead (stream_buffers s b) = xTail (stream_buffers s b)) }"

definition xStreamBufferIsFull :: "nat \<Rightarrow> 'a skernel_scheme \<Rightarrow> bool option" where
  "xStreamBufferIsFull b s =
     do {
       configASSERT (b \<noteq> 0);
       n \<leftarrow> xStreamBufferSpacesAvailable b s;
       Some (n \<le> length_bytes (stream_buffers s b))
     }"

section \<open>Copying\<close>

text \<open>The state with the bytes stored, and the next head; \<open>xHead\<close> itself is not written.\<close>

definition prvWriteBytesToBuffer :: "nat \<Rightarrow> u8 list \<Rightarrow> nat \<Rightarrow> 'a skernel_scheme \<Rightarrow> ('a skernel_scheme \<times> nat) option" where
  "prvWriteBytesToBuffer b data head s =
     do {
       let B = stream_buffers s b;
       let xCount = length data;
       configASSERT (xCount > 0);
       let xFirstLength = min (wsub (xLength B) head) xCount;
       configASSERT (wadd head xFirstLength \<le> xLength B);
       let s = heap_store (wadd (pucBuffer B) head) (take xFirstLength data) s;
       s \<leftarrow> (if xCount > xFirstLength
             then do {
               configASSERT (xCount - xFirstLength \<le> xLength B);
               Some (heap_store (pucBuffer B) (drop xFirstLength data) s)
             }
             else Some s);
       let head = wadd head xCount;
       Some (s, if head \<ge> xLength B then wsub head (xLength B) else head)
     }"

text \<open>The bytes copied and the next tail.\<close>

definition prvReadBytesFromBuffer :: "nat \<Rightarrow> nat \<Rightarrow> nat \<Rightarrow> 'a skernel_scheme \<Rightarrow> (u8 list \<times> nat) option" where
  "prvReadBytesFromBuffer b xCount tail s =
     do {
       let B = stream_buffers s b;
       configASSERT (xCount \<noteq> 0);
       let xFirstLength = min (wsub (xLength B) tail) xCount;
       configASSERT (xFirstLength \<le> xCount);
       configASSERT (wadd tail xFirstLength \<le> xLength B);
       let m = payload (kheap s);
       let data = load_bytes (wadd (pucBuffer B) tail) xFirstLength m @
         (if xCount > xFirstLength then load_bytes (pucBuffer B) (xCount - xFirstLength) m else []);
       let tail = wadd tail xCount;
       Some (data, if tail \<ge> xLength B then wsub tail (xLength B) else tail)
     }"

definition prvWriteMessageToBuffer ::
  "nat \<Rightarrow> u8 list \<Rightarrow> nat \<Rightarrow> nat \<Rightarrow> 'a skernel_scheme \<Rightarrow> ('a skernel_scheme \<times> nat) option" where
  "prvWriteMessageToBuffer b data xSpace xRequiredSpace s =
     do {
       let B = stream_buffers s b;
       (s, xNextHead, n) \<leftarrow>
         (if is_message B
          then do {
            let xMessageLength = (of_nat (length data) :: u32);
            configASSERT (unat xMessageLength = length data);
            if xSpace \<ge> xRequiredSpace
            then do {
              (s, xNextHead) \<leftarrow> prvWriteBytesToBuffer b (le_bytes xMessageLength) (xHead B) s;
              Some (s, xNextHead, length data)
            }
            else Some (s, xHead B, 0)
          }
          else Some (s, xHead B, min (length data) xSpace));
       if n \<noteq> 0
       then do {
         (s, h) \<leftarrow> prvWriteBytesToBuffer b (take n data) xNextHead s;
         Some (upd_sb b (xHead_update (\<lambda>_. h)) s, n)
       }
       else Some (s, n)
     }"

text \<open>The state and the bytes copied to the caller's buffer of \<open>xBufferLengthBytes\<close> bytes.\<close>

definition prvReadMessageFromBuffer ::
  "nat \<Rightarrow> nat \<Rightarrow> nat \<Rightarrow> 'a skernel_scheme \<Rightarrow> ('a skernel_scheme \<times> u8 list) option" where
  "prvReadMessageFromBuffer b xBufferLengthBytes xBytesAvailable s =
     do {
       let B = stream_buffers s b;
       (xNextTail, xNextMessageLength, xBytesAvailable) \<leftarrow>
         (if is_message B
          then do {
            (x, xNextTail) \<leftarrow> prvReadBytesFromBuffer b sbBYTES_TO_STORE_MESSAGE_LENGTH (xTail B) s;
            let n = unat (of_le_bytes x);
            Some (xNextTail, if n > xBufferLengthBytes then 0 else n,
                  wsub xBytesAvailable sbBYTES_TO_STORE_MESSAGE_LENGTH)
          }
          else Some (xTail B, xBufferLengthBytes, xBytesAvailable));
       let xCount = min xNextMessageLength xBytesAvailable;
       if xCount \<noteq> 0
       then do {
         (data, t) \<leftarrow> prvReadBytesFromBuffer b xCount xNextTail s;
         Some (upd_sb b (xTail_update (\<lambda>_. t)) s, data)
       }
       else Some (s, [])
     }"

section \<open>Notifying the other side\<close>

definition prvSEND_COMPLETED :: "nat \<Rightarrow> 'a skernel_scheme \<Rightarrow> 'a skernel_scheme option" where
  "prvSEND_COMPLETED b s =
     do {
       let s = vTaskSuspendAll s;
       let t = xTaskWaitingToReceive (stream_buffers s b);
       s \<leftarrow> (if t \<noteq> 0
             then do {
               (s, _) \<leftarrow> xTaskGenericNotify t 0 0 eNoAction s;
               Some (upd_sb b (xTaskWaitingToReceive_update (\<lambda>_. 0)) s)
             }
             else Some s);
       (s, _) \<leftarrow> xTaskResumeAll s;
       Some s
     }"

definition prvRECEIVE_COMPLETED :: "nat \<Rightarrow> 'a skernel_scheme \<Rightarrow> 'a skernel_scheme option" where
  "prvRECEIVE_COMPLETED b s =
     do {
       let s = vTaskSuspendAll s;
       let t = xTaskWaitingToSend (stream_buffers s b);
       s \<leftarrow> (if t \<noteq> 0
             then do {
               (s, _) \<leftarrow> xTaskGenericNotify t 0 0 eNoAction s;
               Some (upd_sb b (xTaskWaitingToSend_update (\<lambda>_. 0)) s)
             }
             else Some s);
       (s, _) \<leftarrow> xTaskResumeAll s;
       Some s
     }"

text \<open>In interrupts; the result tells whether a task was waiting, the flag is \<open>*pxHigherPriorityTaskWoken\<close>.\<close>

definition xStreamBufferSendCompletedFromISR ::
  "nat \<Rightarrow> bool \<Rightarrow> 'a skernel_scheme \<Rightarrow> ('a skernel_scheme \<times> bool \<times> bool) option" where
  "xStreamBufferSendCompletedFromISR b woken s =
     do {
       configASSERT (b \<noteq> 0);
       let t = xTaskWaitingToReceive (stream_buffers s b);
       if t \<noteq> 0
       then do {
         (s, _, _, w) \<leftarrow> xTaskGenericNotifyFromISR t 0 0 eNoAction s;
         Some (upd_sb b (xTaskWaitingToReceive_update (\<lambda>_. 0)) s, True, if w then True else woken)
       }
       else Some (s, False, woken)
     }"

definition xStreamBufferReceiveCompletedFromISR ::
  "nat \<Rightarrow> bool \<Rightarrow> 'a skernel_scheme \<Rightarrow> ('a skernel_scheme \<times> bool \<times> bool) option" where
  "xStreamBufferReceiveCompletedFromISR b woken s =
     do {
       configASSERT (b \<noteq> 0);
       let t = xTaskWaitingToSend (stream_buffers s b);
       if t \<noteq> 0
       then do {
         (s, _, _, w) \<leftarrow> xTaskGenericNotifyFromISR t 0 0 eNoAction s;
         Some (upd_sb b (xTaskWaitingToSend_update (\<lambda>_. 0)) s, True, if w then True else woken)
       }
       else Some (s, False, woken)
     }"

definition prvSEND_COMPLETE_FROM_ISR :: "nat \<Rightarrow> bool \<Rightarrow> 'a skernel_scheme \<Rightarrow> ('a skernel_scheme \<times> bool) option" where
  "prvSEND_COMPLETE_FROM_ISR b woken s =
     do {
       let t = xTaskWaitingToReceive (stream_buffers s b);
       if t \<noteq> 0
       then do {
         (s, _, _, w) \<leftarrow> xTaskGenericNotifyFromISR t 0 0 eNoAction s;
         Some (upd_sb b (xTaskWaitingToReceive_update (\<lambda>_. 0)) s, if w then True else woken)
       }
       else Some (s, woken)
     }"

definition prvRECEIVE_COMPLETED_FROM_ISR :: "nat \<Rightarrow> bool \<Rightarrow> 'a skernel_scheme \<Rightarrow> ('a skernel_scheme \<times> bool) option" where
  "prvRECEIVE_COMPLETED_FROM_ISR b woken s =
     do {
       let t = xTaskWaitingToSend (stream_buffers s b);
       if t \<noteq> 0
       then do {
         (s, _, _, w) \<leftarrow> xTaskGenericNotifyFromISR t 0 0 eNoAction s;
         Some (upd_sb b (xTaskWaitingToSend_update (\<lambda>_. 0)) s, if w then True else woken)
       }
       else Some (s, woken)
     }"

section \<open>Sending\<close>

text \<open>The start of \<open>xStreamBufferSend\<close>: the space to wait for and the time to wait.\<close>

definition xStreamBufferSend_enter ::
  "nat \<Rightarrow> u8 list option \<Rightarrow> u32 \<Rightarrow> 'a skernel_scheme \<Rightarrow> (nat \<times> u32) option" where
  "xStreamBufferSend_enter b pvTxData xTicksToWait s =
     do {
       configASSERT (pvTxData \<noteq> None);
       configASSERT (b \<noteq> 0);
       let B = stream_buffers s b;
       let n = length (bytes_of pvTxData);
       let xMaxReportedSpace = wsub (xLength B) 1;
       if is_message B
       then do {
         let xRequiredSpace = wadd n sbBYTES_TO_STORE_MESSAGE_LENGTH;
         configASSERT (xRequiredSpace > n);
         Some (xRequiredSpace, if xRequiredSpace > xMaxReportedSpace then 0 else xTicksToWait)
       }
       else Some (if n > xMaxReportedSpace then xMaxReportedSpace else n, xTicksToWait)
     }"

text \<open>
  The critical section of its loop: the task leaves the loop with the space it found, or is
  registered as the waiting one and goes on to wait.
\<close>

definition xStreamBufferSend_register :: "nat \<Rightarrow> nat \<Rightarrow> 'a skernel_scheme \<Rightarrow> ('a skernel_scheme \<times> nat) option" where
  "xStreamBufferSend_register b xRequiredSpace s =
     do {
       xSpace \<leftarrow> xStreamBufferSpacesAvailable b s;
       if xSpace < xRequiredSpace
       then do {
         (s, _) \<leftarrow> xTaskGenericNotifyStateClear 0 0 s;
         configASSERT (xTaskWaitingToSend (stream_buffers s b) = 0);
         Some (upd_sb b (xTaskWaitingToSend_update (\<lambda>_. pxCurrentTCB s)) s, xSpace)
       }
       else Some (s, xSpace)
     }"

definition xStreamBufferSend_wait :: "u32 \<Rightarrow> 'a skernel_scheme \<Rightarrow> 'a skernel_scheme option" where
  "xStreamBufferSend_wait xTicksToWait s = xTaskGenericNotifyWait_wait 0 0 xTicksToWait s"

text \<open>After the wait: the flag tells whether the time-out has expired, which ends the loop.\<close>

definition xStreamBufferSend_wake ::
  "nat \<Rightarrow> time_out \<Rightarrow> u32 \<Rightarrow> 'a skernel_scheme \<Rightarrow> 'a skernel_scheme \<times> bool \<times> time_out \<times> u32" where
  "xStreamBufferSend_wake b t xTicksToWait s =
     (let (s, _) = xTaskGenericNotifyWait_end 0 0 s;
          s = upd_sb b (xTaskWaitingToSend_update (\<lambda>_. 0)) s
      in (s, xTaskCheckForTimeOut t xTicksToWait s))"

text \<open>The space with which the copy is made.\<close>

definition xStreamBufferSend_space :: "nat \<Rightarrow> nat \<Rightarrow> 'a skernel_scheme \<Rightarrow> nat option" where
  "xStreamBufferSend_space b xSpace s = (if xSpace = 0 then xStreamBufferSpacesAvailable b s else Some xSpace)"

definition xStreamBufferSend_complete :: "nat \<Rightarrow> nat \<Rightarrow> 'a skernel_scheme \<Rightarrow> 'a skernel_scheme option" where
  "xStreamBufferSend_complete b xReturn s =
     (if xReturn > 0 \<and> prvBytesInBuffer (stream_buffers s b) \<ge> xTriggerLevelBytes (stream_buffers s b)
      then prvSEND_COMPLETED b s else Some s)"

text \<open>The whole call when it does not wait.\<close>

definition xStreamBufferSend_now ::
  "nat \<Rightarrow> u8 list option \<Rightarrow> 'a skernel_scheme \<Rightarrow> ('a skernel_scheme \<times> nat) option" where
  "xStreamBufferSend_now b pvTxData s =
     do {
       (xRequiredSpace, _) \<leftarrow> xStreamBufferSend_enter b pvTxData 0 s;
       xSpace \<leftarrow> xStreamBufferSend_space b 0 s;
       (s, n) \<leftarrow> prvWriteMessageToBuffer b (bytes_of pvTxData) xSpace xRequiredSpace s;
       s \<leftarrow> xStreamBufferSend_complete b n s;
       Some (s, n)
     }"

definition xStreamBufferSendFromISR ::
  "nat \<Rightarrow> u8 list option \<Rightarrow> bool \<Rightarrow> 'a skernel_scheme \<Rightarrow> ('a skernel_scheme \<times> nat \<times> bool) option" where
  "xStreamBufferSendFromISR b pvTxData woken s =
     do {
       configASSERT (pvTxData \<noteq> None);
       configASSERT (b \<noteq> 0);
       let n = length (bytes_of pvTxData);
       let xRequiredSpace =
         (if is_message (stream_buffers s b) then wadd n sbBYTES_TO_STORE_MESSAGE_LENGTH else n);
       xSpace \<leftarrow> xStreamBufferSpacesAvailable b s;
       (s, n) \<leftarrow> prvWriteMessageToBuffer b (bytes_of pvTxData) xSpace xRequiredSpace s;
       (s, woken) \<leftarrow>
         (if n > 0 \<and> prvBytesInBuffer (stream_buffers s b) \<ge> xTriggerLevelBytes (stream_buffers s b)
          then prvSEND_COMPLETE_FROM_ISR b woken s else Some (s, woken));
       Some (s, n, woken)
     }"

section \<open>Receiving\<close>

text \<open>The critical section of \<open>xStreamBufferReceive\<close>: the bytes found, and the task registered if they are too few.\<close>

definition xStreamBufferReceive_register :: "nat \<Rightarrow> 'a skernel_scheme \<Rightarrow> ('a skernel_scheme \<times> nat) option" where
  "xStreamBufferReceive_register b s =
     do {
       let n = prvBytesInBuffer (stream_buffers s b);
       if n \<le> length_bytes (stream_buffers s b)
       then do {
         (s, _) \<leftarrow> xTaskGenericNotifyStateClear 0 0 s;
         configASSERT (xTaskWaitingToReceive (stream_buffers s b) = 0);
         Some (upd_sb b (xTaskWaitingToReceive_update (\<lambda>_. pxCurrentTCB s)) s, n)
       }
       else Some (s, n)
     }"

definition xStreamBufferReceive_wait :: "u32 \<Rightarrow> 'a skernel_scheme \<Rightarrow> 'a skernel_scheme option" where
  "xStreamBufferReceive_wait xTicksToWait s = xTaskGenericNotifyWait_wait 0 0 xTicksToWait s"

definition xStreamBufferReceive_wake :: "nat \<Rightarrow> 'a skernel_scheme \<Rightarrow> 'a skernel_scheme" where
  "xStreamBufferReceive_wake b s =
     (let (s, _) = xTaskGenericNotifyWait_end 0 0 s
      in upd_sb b (xTaskWaitingToReceive_update (\<lambda>_. 0)) s)"

definition xStreamBufferReceive_read ::
  "nat \<Rightarrow> nat \<Rightarrow> nat \<Rightarrow> 'a skernel_scheme \<Rightarrow> ('a skernel_scheme \<times> u8 list) option" where
  "xStreamBufferReceive_read b xBufferLengthBytes xBytesAvailable s =
     (if xBytesAvailable > length_bytes (stream_buffers s b)
      then prvReadMessageFromBuffer b xBufferLengthBytes xBytesAvailable s else Some (s, []))"

definition xStreamBufferReceive_complete :: "nat \<Rightarrow> nat \<Rightarrow> 'a skernel_scheme \<Rightarrow> 'a skernel_scheme option" where
  "xStreamBufferReceive_complete b xReceivedLength s =
     (if xReceivedLength \<noteq> 0 then prvRECEIVE_COMPLETED b s else Some s)"

text \<open>The whole call when it does not wait; \<open>given\<close> tells whether the buffer is not null.\<close>

definition xStreamBufferReceive_now ::
  "nat \<Rightarrow> bool \<Rightarrow> nat \<Rightarrow> 'a skernel_scheme \<Rightarrow> ('a skernel_scheme \<times> u8 list) option" where
  "xStreamBufferReceive_now b given xBufferLengthBytes s =
     do {
       configASSERT given;
       configASSERT (b \<noteq> 0);
       (s, x) \<leftarrow> xStreamBufferReceive_read b xBufferLengthBytes (prvBytesInBuffer (stream_buffers s b)) s;
       s \<leftarrow> xStreamBufferReceive_complete b (length x) s;
       Some (s, x)
     }"

definition xStreamBufferReceiveFromISR ::
  "nat \<Rightarrow> bool \<Rightarrow> nat \<Rightarrow> bool \<Rightarrow> 'a skernel_scheme \<Rightarrow> ('a skernel_scheme \<times> u8 list \<times> bool) option" where
  "xStreamBufferReceiveFromISR b given xBufferLengthBytes woken s =
     do {
       configASSERT given;
       configASSERT (b \<noteq> 0);
       (s, x) \<leftarrow> xStreamBufferReceive_read b xBufferLengthBytes (prvBytesInBuffer (stream_buffers s b)) s;
       (s, woken) \<leftarrow> (if length x \<noteq> 0 then prvRECEIVE_COMPLETED_FROM_ISR b woken s else Some (s, woken));
       Some (s, x, woken)
     }"

definition xStreamBufferNextMessageLengthBytes :: "nat \<Rightarrow> 'a skernel_scheme \<Rightarrow> nat option" where
  "xStreamBufferNextMessageLengthBytes b s =
     do {
       configASSERT (b \<noteq> 0);
       let B = stream_buffers s b;
       if is_message B
       then if prvBytesInBuffer B > sbBYTES_TO_STORE_MESSAGE_LENGTH
            then do {
              (x, _) \<leftarrow> prvReadBytesFromBuffer b sbBYTES_TO_STORE_MESSAGE_LENGTH (xTail B) s;
              Some (unat (of_le_bytes x))
            }
            else do { configASSERT (prvBytesInBuffer B = 0); Some 0 }
       else Some 0
     }"


section \<open>The ring of bytes\<close>

text \<open>
  \<open>cell B i\<close> is the address of position \<open>i\<close> counted round the ring.  One cell is always free, so
  that head and tail tell an empty buffer from a full one.
\<close>

definition sb_ok :: "stream_buffer \<Rightarrow> bool" where
  "sb_ok B \<longleftrightarrow>
     xHead B < xLength B \<and> xTail B < xLength B \<and> 1 < xLength B \<and> 2 * xLength B < w32 \<and>
     0 < pucBuffer B \<and> pucBuffer B + xLength B < w32 \<and>
     0 < xTriggerLevelBytes B \<and> xTriggerLevelBytes B < xLength B"

definition used :: "stream_buffer \<Rightarrow> nat" where
  "used B = (if xTail B \<le> xHead B then xHead B - xTail B else xLength B + xHead B - xTail B)"

definition cell :: "stream_buffer \<Rightarrow> nat \<Rightarrow> nat" where
  "cell B i = pucBuffer B + i mod xLength B"

definition ring_bytes :: "stream_buffer \<Rightarrow> (nat \<Rightarrow> u8) \<Rightarrow> nat \<Rightarrow> nat \<Rightarrow> u8 list" where
  "ring_bytes B m t n = map (\<lambda>i. m (cell B (t + i))) [0..<n]"

definition stored :: "stream_buffer \<Rightarrow> (nat \<Rightarrow> u8) \<Rightarrow> u8 list" where
  "stored B m = ring_bytes B m (xTail B) (used B)"

lemma length_ring_bytes [simp]: "length (ring_bytes B m t n) = n"
  by (simp add: ring_bytes_def)

lemma length_stored [simp]: "length (stored B m) = used B"
  by (simp add: stored_def)

lemma used_less: "sb_ok B \<Longrightarrow> used B < xLength B"
  by (auto simp: sb_ok_def used_def)

lemma bytes_in_buffer: "sb_ok B \<Longrightarrow> prvBytesInBuffer B = used B"
  by (auto simp: prvBytesInBuffer_def sb_ok_def used_def Let_def)

lemma spaces_available:
  "sb_ok (stream_buffers s b) \<Longrightarrow> b \<noteq> 0 \<Longrightarrow>
   xStreamBufferSpacesAvailable b s = Some (xLength (stream_buffers s b) - 1 - used (stream_buffers s b))"
  by (auto simp: xStreamBufferSpacesAvailable_def configASSERT_def sb_ok_def used_def Let_def)

lemma head_position: "sb_ok B \<Longrightarrow> (xTail B + used B) mod xLength B = xHead B"
  by (auto simp: sb_ok_def used_def)

lemma ring_bytes_append: "ring_bytes B m t (a + b) = ring_bytes B m t a @ ring_bytes B m (t + a) b"
  by (rule nth_equalityI) (auto simp: ring_bytes_def nth_append add.assoc)

lemma ring_bytes_cong: "t mod xLength B = t' mod xLength B \<Longrightarrow> ring_bytes B m t n = ring_bytes B m t' n"
proof -
  assume e: "t mod xLength B = t' mod xLength B"
  have "(t + i) mod xLength B = (t' + i) mod xLength B" for i
    using mod_add_left_eq [of t "xLength B" i] mod_add_left_eq [of t' "xLength B" i] by (simp add: e)
  then show ?thesis by (simp add: ring_bytes_def cell_def)
qed

lemma wrap_mod: "a < 2 * l \<Longrightarrow> a mod l = (if a < l then a else a - l)" for a :: nat
  by (simp add: mod_if)

lemma set_head:
  assumes "sb_ok B" and "n < xLength B"
  shows "sb_ok (B\<lparr>xHead := (xTail B + n) mod xLength B\<rparr>)" and "used (B\<lparr>xHead := (xTail B + n) mod xLength B\<rparr>) = n"
  using assms wrap_mod [of "xTail B + n" "xLength B"] by (auto simp: sb_ok_def used_def)

lemma set_tail:
  assumes "sb_ok B" and "n \<le> used B"
  shows "sb_ok (B\<lparr>xTail := (xTail B + n) mod xLength B\<rparr>)"
    and "used (B\<lparr>xTail := (xTail B + n) mod xLength B\<rparr>) = used B - n"
  using assms wrap_mod [of "xTail B + n" "xLength B"] by (auto simp: sb_ok_def used_def split: if_splits)

lemma ring_bytes_shape [simp]:
  "ring_bytes (B\<lparr>xHead := h\<rparr>) m t n = ring_bytes B m t n" "ring_bytes (B\<lparr>xTail := u\<rparr>) m t n = ring_bytes B m t n"
  by (simp_all add: ring_bytes_def cell_def)

lemma stored_set_tail:
  assumes "sb_ok B" and "n \<le> used B"
  shows "stored (B\<lparr>xTail := (xTail B + n) mod xLength B\<rparr>) m = drop n (stored B m)"
proof -
  have "ring_bytes B m ((xTail B + n) mod xLength B) (used B - n) = ring_bytes B m (xTail B + n) (used B - n)"
    by (rule ring_bytes_cong) simp
  moreover have "stored B m = ring_bytes B m (xTail B) n @ ring_bytes B m (xTail B + n) (used B - n)"
    using assms ring_bytes_append [of B m "xTail B" n "used B - n"] by (simp add: stored_def)
  ultimately show ?thesis using set_tail(2) [OF assms] by (simp add: stored_def)
qed

definition set_payload :: "(nat \<Rightarrow> u8) \<Rightarrow> 'a kernel_scheme \<Rightarrow> 'a kernel_scheme" where
  "set_payload m s = s\<lparr>kheap := (kheap s)\<lparr>payload := m\<rparr>\<rparr>"

lemma heap_store_payload: "heap_store d bs s = set_payload (store_bytes d bs (payload (kheap s))) s"
  by (simp add: heap_store_def set_payload_def)

lemma set_payload_twice [simp]:
  "set_payload m (set_payload m' s) = set_payload m s" "payload (kheap (set_payload m s)) = m"
  by (simp_all add: set_payload_def)

text \<open>Memory after the bytes are stored: they wrap round at the end of the ring.\<close>

definition ring_store :: "stream_buffer \<Rightarrow> nat \<Rightarrow> u8 list \<Rightarrow> (nat \<Rightarrow> u8) \<Rightarrow> nat \<Rightarrow> u8" where
  "ring_store B h data m =
     (let f = min (xLength B - h) (length data)
      in store_bytes (pucBuffer B) (drop f data) (store_bytes (pucBuffer B + h) (take f data) m))"

lemma store_no_bytes [simp]: "store_bytes d [] m = m"
  unfolding store_bytes_def by (rule ext) (auto dest: order_le_less_trans)

lemma ring_store_cell:
  assumes "h < xLength B" and "i < length data" and "length data \<le> xLength B"
  shows "ring_store B h data m (cell B (h + i)) = data ! i"
proof (cases "h + i < xLength B")
  case True
  then show ?thesis
    using assms by (auto simp: ring_store_def store_bytes_def cell_def Let_def min_def)
next
  case False
  then have c: "(h + i) mod xLength B = h + i - xLength B" using assms by (simp add: mod_if)
  show ?thesis
    using False assms by (auto simp: ring_store_def store_bytes_def cell_def c Let_def min_def)
qed

lemma ring_store_other:
  assumes "h < xLength B" and "length data \<le> xLength B" and "\<And>i. i < length data \<Longrightarrow> a \<noteq> cell B (h + i)"
  shows "ring_store B h data m a = m a"
proof -
  let ?f = "min (xLength B - h) (length data)"
  have one: "\<not> (pucBuffer B + h \<le> a \<and> a < pucBuffer B + h + ?f)"
  proof
    assume a: "pucBuffer B + h \<le> a \<and> a < pucBuffer B + h + ?f"
    then have "a - pucBuffer B < xLength B" using assms(1) by linarith
    then have "(h + (a - pucBuffer B - h)) mod xLength B = a - pucBuffer B" using a by simp
    then have "a = cell B (h + (a - pucBuffer B - h))" using a by (simp add: cell_def)
    moreover have "a - pucBuffer B - h < length data" using a by linarith
    ultimately show False using assms(3) by blast
  qed
  have two: "\<not> (pucBuffer B \<le> a \<and> a < pucBuffer B + (length data - ?f))"
  proof
    assume a: "pucBuffer B \<le> a \<and> a < pucBuffer B + (length data - ?f)"
    then obtain d where d0: "a = pucBuffer B + d" using le_Suc_ex by blast
    then have d: "a = pucBuffer B + d" "d < length data - ?f" using a by simp_all
    have i: "d + (xLength B - h) < length data" using d(2) assms(1) by linarith
    have "h + (d + (xLength B - h)) = xLength B + d" using assms(1) by simp
    moreover have "d < xLength B" using d(2) assms(2) by linarith
    ultimately have "a = cell B (h + (d + (xLength B - h)))" using d(1) by (simp add: cell_def)
    then show False using assms(3) i by blast
  qed
  have len: "length (take ?f data) = ?f" "length (drop ?f data) = length data - ?f" by simp_all
  show ?thesis
    using one two unfolding ring_store_def Let_def store_bytes_def len by (simp only: if_False)
qed

lemma ring_store_outside:
  assumes "h < xLength B" and "length data \<le> xLength B" and "a < pucBuffer B \<or> pucBuffer B + xLength B \<le> a"
  shows "ring_store B h data m a = m a"
proof (rule ring_store_other)
  fix i
  have "(h + i) mod xLength B < xLength B" using assms(1) by simp
  then show "a \<noteq> cell B (h + i)" using assms(3) unfolding cell_def by linarith
qed (use assms in simp_all)

text \<open>Storing behind \<open>k\<close> bytes that start at \<open>t\<close> appends to them.\<close>

lemma ring_store_append:
  assumes "0 < xLength B" and "k + length data \<le> xLength B"
  shows "ring_bytes B (ring_store B ((t + k) mod xLength B) data m) t (k + length data) = ring_bytes B m t k @ data"
proof (rule nth_equalityI)
  fix i assume "i < length (ring_bytes B (ring_store B ((t + k) mod xLength B) data m) t (k + length data))"
  then have i: "i < k + length data" by simp
  let ?h = "(t + k) mod xLength B" and ?l = "xLength B"
  have h: "?h < ?l" using assms(1) by simp
  have c: "cell B (?h + j) = cell B (t + (k + j))" for j
    using mod_add_left_eq [of "t + k" ?l j] by (simp add: cell_def add.assoc)
  show "ring_bytes B (ring_store B ?h data m) t (k + length data) ! i = (ring_bytes B m t k @ data) ! i"
  proof (cases "i < k")
    case True
    have "cell B (t + i) \<noteq> cell B (?h + j)" if "j < length data" for j
      unfolding c using mod_add_neq [of i "k + j" ?l t] True that assms(2) by (simp add: cell_def)
    then show ?thesis
      using True i ring_store_other [OF h, of data "cell B (t + i)" m] assms(2)
      by (simp add: ring_bytes_def nth_append)
  next
    case False
    then obtain j where "i = k + j" using le_Suc_ex [of k i] by auto
    then have j: "i = k + j" "j < length data" using i by simp_all
    then show ?thesis
      using ring_store_cell [OF h j(2), of m] assms(2) c by (simp add: ring_bytes_def nth_append)
  qed
qed simp

lemma prvWriteBytesToBuffer_ok:
  assumes B: "sb_ok B" "stream_buffers s b = B" and h: "h < xLength B" and n: "data \<noteq> []" "length data \<le> xLength B"
  shows "prvWriteBytesToBuffer b data h s =
    Some (set_payload (ring_store B h data (payload (kheap s))) s, (h + length data) mod xLength B)"
proof -
  define f where "f = min (xLength B - h) (length data)"
  let ?s1 = "heap_store (pucBuffer B + h) (take f data) s"
  have w: "wsub (xLength B) h = xLength B - h" "wadd (pucBuffer B) h = pucBuffer B + h" "wadd h f = h + f"
    "wadd h (length data) = h + length data" "h + f \<le> xLength B" "f \<le> length data"
    using B h n by (auto simp: sb_ok_def f_def)
  have e: "(if h + length data \<ge> xLength B then wsub (h + length data) (xLength B) else h + length data) =
      (h + length data) mod xLength B"
    using B h n wrap_mod [of "h + length data" "xLength B"] by (auto simp: sb_ok_def)
  have "(if length data > f then do { configASSERT (length data - f \<le> xLength B); Some (heap_store (pucBuffer B) (drop f data) ?s1) }
      else Some ?s1) = Some (set_payload (ring_store B h data (payload (kheap s))) s)"
  proof (cases "length data > f")
    case False
    then show ?thesis by (simp add: heap_store_payload ring_store_def f_def [symmetric] Let_def)
  qed (use n in \<open>simp add: configASSERT_def heap_store_payload ring_store_def f_def [symmetric] Let_def\<close>)
  moreover have "length data > 0" using n by simp
  ultimately show ?thesis
    unfolding prvWriteBytesToBuffer_def Let_def B(2) w(1,2,4) f_def [symmetric] w(3) e using w(5)
    by (simp only: configASSERT_def bind.bind_lunit if_True simp_thms bind_eq_Some_conv prod.case)
qed

lemma prvReadBytesFromBuffer_ok:
  assumes B: "sb_ok B" "stream_buffers s b = B" and t: "t < xLength B" and n: "0 < n" "n \<le> xLength B"
  shows "prvReadBytesFromBuffer b n t s = Some (ring_bytes B (payload (kheap s)) t n, (t + n) mod xLength B)"
proof -
  let ?f = "min (xLength B - t) n" and ?m = "payload (kheap s)"
  have w: "wsub (xLength B) t = xLength B - t" "wadd (pucBuffer B) t = pucBuffer B + t" "wadd t ?f = t + ?f"
    "wadd t n = t + n" "t + ?f \<le> xLength B"
    using B t n by (auto simp: sb_ok_def)
  have e: "(if t + n \<ge> xLength B then wsub (t + n) (xLength B) else t + n) = (t + n) mod xLength B"
    using B t n by (auto simp: sb_ok_def mod_if)
  have "ring_bytes B ?m t n = load_bytes (pucBuffer B + t) ?f ?m @ (if n > ?f then load_bytes (pucBuffer B) (n - ?f) ?m else [])"
  proof (rule nth_equalityI)
    fix i assume i: "i < length (ring_bytes B ?m t n)"
    have "(t + i) mod xLength B = (if t + i < xLength B then t + i else t + i - xLength B)"
      by (rule wrap_mod) (use t n i in simp)
    then show "ring_bytes B ?m t n ! i = (load_bytes (pucBuffer B + t) ?f ?m @
        (if n > ?f then load_bytes (pucBuffer B) (n - ?f) ?m else [])) ! i"
      using i t n by (auto simp: ring_bytes_def load_bytes_def cell_def nth_append ac_simps)
  qed (simp add: load_bytes_def)
  then show ?thesis
    using n w B(2) e by (simp add: prvReadBytesFromBuffer_def configASSERT_def Let_def)
qed


section \<open>Storing and taking bytes and messages\<close>

definition sbytes :: "nat \<Rightarrow> 'a skernel_scheme \<Rightarrow> u8 list" where
  "sbytes b s = stored (stream_buffers s b) (payload (kheap s))"

definition free_cells :: "stream_buffer \<Rightarrow> nat" where
  "free_cells B = xLength B - 1 - used B"

lemma sb_ok_word: "sb_ok B \<Longrightarrow> xLength B < w32"
  by (simp add: sb_ok_def)

lemma upd_sb_sel [simp]:
  "stream_buffers (upd_sb b f s) b = f (stream_buffers s b)" "kheap (upd_sb b f s) = kheap s"
  "c \<noteq> b \<Longrightarrow> stream_buffers (upd_sb b f s) c = stream_buffers s c"
  "stream_buffers (set_payload m s) = stream_buffers s"
  by (simp_all add: upd_sb_def set_payload_def)

lemma upd_sb_same: "f (stream_buffers s b) = stream_buffers s b \<Longrightarrow> upd_sb b f s = s"
  by (simp add: upd_sb_def)

text \<open>
  \<open>appended b xs s s'\<close>: only the head and the ring's memory have changed, and \<open>xs\<close> is stored
  behind the bytes that were there; \<open>removed b n s s'\<close>: only the tail has moved, past \<open>n\<close> bytes.
\<close>

definition appended :: "nat \<Rightarrow> u8 list \<Rightarrow> 'a skernel_scheme \<Rightarrow> 'a skernel_scheme \<Rightarrow> bool" where
  "appended b xs s s' \<longleftrightarrow>
     (\<exists>h m. s' = upd_sb b (xHead_update (\<lambda>_. h)) (set_payload m s) \<and>
        (\<forall>a. a < pucBuffer (stream_buffers s b) \<or> pucBuffer (stream_buffers s b) + xLength (stream_buffers s b) \<le> a \<longrightarrow>
           m a = payload (kheap s) a)) \<and>
     sb_ok (stream_buffers s' b) \<and> sbytes b s' = sbytes b s @ xs"

definition removed :: "nat \<Rightarrow> nat \<Rightarrow> 'a skernel_scheme \<Rightarrow> 'a skernel_scheme \<Rightarrow> bool" where
  "removed b n s s' \<longleftrightarrow>
     (\<exists>t. s' = upd_sb b (xTail_update (\<lambda>_. t)) s) \<and> sb_ok (stream_buffers s' b) \<and>
     sbytes b s' = drop n (sbytes b s)"

lemma length_sbytes [simp]: "length (sbytes b s) = used (stream_buffers s b)"
  by (simp add: sbytes_def)

lemma payload_same: "set_payload (payload (kheap s)) s = s"
  by (simp add: set_payload_def)

lemma appended_none: "sb_ok (stream_buffers s b) \<Longrightarrow> appended b [] s s"
  unfolding appended_def
  by (intro conjI exI [of _ "xHead (stream_buffers s b)"] exI [of _ "payload (kheap s)"])
    (simp_all add: payload_same upd_sb_same)

lemma removed_none: "sb_ok (stream_buffers s b) \<Longrightarrow> removed b 0 s s"
  unfolding removed_def
  by (intro conjI exI [of _ "xTail (stream_buffers s b)"]) (simp_all add: upd_sb_same)

text \<open>New memory in which \<open>xs\<close> follows the stored bytes, and the head moved behind it.\<close>

lemma appendedI:
  assumes B: "sb_ok B" "stream_buffers s b = B" and n: "used B + length xs < xLength B"
    and m: "ring_bytes B m (xTail B) (used B + length xs) = sbytes b s @ xs"
    and out: "\<And>a. a < pucBuffer B \<or> pucBuffer B + xLength B \<le> a \<Longrightarrow> m a = payload (kheap s) a"
  shows "appended b xs s (upd_sb b (xHead_update (\<lambda>_. (xHead B + length xs) mod xLength B)) (set_payload m s))"
proof -
  have "(xHead B + length xs) mod xLength B = (xTail B + (used B + length xs)) mod xLength B"
    using head_position [OF B(1)] mod_add_left_eq [of "xTail B + used B" "xLength B" "length xs"] by (simp add: add.assoc)
  then have h: "B\<lparr>xHead := (xHead B + length xs) mod xLength B\<rparr> = B\<lparr>xHead := (xTail B + (used B + length xs)) mod xLength B\<rparr>"
    by simp
  have "sbytes b (upd_sb b (xHead_update (\<lambda>_. (xHead B + length xs) mod xLength B)) (set_payload m s)) = sbytes b s @ xs"
    using set_head [OF B(1) n] m h B(2) by (simp add: sbytes_def stored_def)
  then show ?thesis
    unfolding appended_def using set_head(1) [OF B(1) n] h out B(2) by auto
qed

lemma write_head:
  assumes B: "sb_ok B" "stream_buffers s b = B" and n: "used B + length xs < xLength B"
  shows "ring_bytes B (ring_store B (xHead B) xs (payload (kheap s))) (xTail B) (used B + length xs) = sbytes b s @ xs"
proof -
  have p: "0 < xLength B" "used B + length xs \<le> xLength B" using n by simp_all
  show ?thesis
    using ring_store_append [OF p, of "xTail B" "payload (kheap s)"] head_position [OF B(1)] B(2)
    by (simp add: sbytes_def stored_def)
qed

lemma write_stream_ok:
  assumes B: "sb_ok B" "stream_buffers s b = B" "\<not> is_message B" and sp: "xSpace \<le> free_cells B"
  shows "\<exists>s'. prvWriteMessageToBuffer b data xSpace req s = Some (s', min (length data) xSpace) \<and>
    appended b (take xSpace data) s s'"
proof (cases "min (length data) xSpace = 0")
  case True
  then have "take xSpace data = []" by (auto simp: min_def split: if_splits)
  moreover have "appended b [] s s" using B appended_none [of s b] by simp
  ultimately show ?thesis using B True by (intro exI [of _ s] conjI) (simp_all only: prvWriteMessageToBuffer_def Let_def if_False bind.bind_lunit prod.case simp_thms)
next
  case False
  let ?x = "take xSpace data" and ?n = "min (length data) xSpace"
  have n: "take ?n data = ?x" "length ?x = ?n" by (simp_all add: min_def)
  have fit: "used B + length ?x < xLength B" using sp used_less [OF B(1)] by (simp add: free_cells_def)
  have h: "xHead B < xLength B" and ne: "?x \<noteq> []" and le: "length ?x \<le> xLength B"
    using B(1) False fit by (auto simp: sb_ok_def)
  note w = prvWriteBytesToBuffer_ok [OF B(1,2) h ne le]
  let ?m = "ring_store B (xHead B) ?x (payload (kheap s))"
  have "prvWriteMessageToBuffer b data xSpace req s =
      Some (upd_sb b (xHead_update (\<lambda>_. (xHead B + length ?x) mod xLength B)) (set_payload ?m s), ?n)"
    using False B(2,3) w n by (simp add: prvWriteMessageToBuffer_def)
  moreover have "appended b ?x s (upd_sb b (xHead_update (\<lambda>_. (xHead B + length ?x) mod xLength B)) (set_payload ?m s))"
    by (rule appendedI [OF B(1,2) fit write_head [OF B(1,2) fit] ring_store_outside [OF h le]]) simp
  ultimately show ?thesis by blast
qed

text \<open>A message is stored after its length, or not at all.\<close>

definition framed :: "u8 list \<Rightarrow> u8 list" where
  "framed x = le_bytes (of_nat (length x)) @ x"

lemma length_framed [simp]: "length (framed x) = 4 + length x"
  by (simp add: framed_def)

lemma write_message_ok:
  assumes B: "sb_ok B" "stream_buffers s b = B" "is_message B" and sp: "xSpace \<le> free_cells B"
    and d: "length data < w32" and req: "req = length data + 4"
  shows "\<exists>s'. prvWriteMessageToBuffer b data xSpace req s = Some (s', if req \<le> xSpace then length data else 0) \<and>
    appended b (if req \<le> xSpace \<and> data \<noteq> [] then framed data else []) s s'"
proof (cases "req \<le> xSpace")
  case False
  then show ?thesis
    using B d appended_none [of s b]
    by (simp add: prvWriteMessageToBuffer_def configASSERT_def unat_of_nat w32_def)
next
  case True
  let ?l = "of_nat (length data) :: u32"
  let ?hdr = "le_bytes ?l" and ?t = "xTail B" and ?u = "used B"
  let ?m1 = "ring_store B (xHead B) ?hdr (payload (kheap s))" and ?h1 = "(xHead B + 4) mod xLength B"
  let ?s1 = "set_payload ?m1 s"
  have l: "unat ?l = length data" using d by (simp add: unat_of_nat w32_def)
  have fit: "?u + 4 + length data < xLength B" using True sp req used_less [OF B(1)] by (simp add: free_cells_def)
  have h: "xHead B < xLength B" using B(1) by (simp add: sb_ok_def)
  have hdr: "?hdr \<noteq> []" "length ?hdr \<le> xLength B" using fit length_le_bytes [of ?l] by (auto simp del: length_le_bytes)
  have m1: "ring_bytes B ?m1 ?t (?u + 4) = sbytes b s @ ?hdr"
    using write_head [OF B(1,2), of ?hdr] fit by simp
  have w1: "prvWriteBytesToBuffer b ?hdr (xHead B) s = Some (?s1, ?h1)"
    using prvWriteBytesToBuffer_ok [OF B(1,2) h hdr] by simp
  have out1: "?m1 a = payload (kheap s) a" if "a < pucBuffer B \<or> pucBuffer B + xLength B \<le> a" for a
    by (rule ring_store_outside [OF h hdr(2) that])
  show ?thesis
  proof (cases "data = []")
    case e: True
    have "ring_bytes B ?m1 ?t (?u + 4) = ring_bytes B ?m1 ?t ?u @ ring_bytes B ?m1 (?t + ?u) 4"
      by (rule ring_bytes_append)
    then have "ring_bytes B ?m1 ?t (?u + length []) = sbytes b s @ []" using m1 B(2) by simp
    from appendedI [OF B(1,2) _ this out1] have "appended b [] s ?s1"
      using used_less [OF B(1)] h B(2) by (simp add: upd_sb_same)
    then show ?thesis
      using True e B l w1 by (simp add: prvWriteMessageToBuffer_def configASSERT_def)
  next
    case False
    let ?m2 = "ring_store B ?h1 data ?m1"
    have h1: "?h1 < xLength B" and le: "length data \<le> xLength B" using fit by simp_all
    have B1: "stream_buffers ?s1 b = B" using B(2) by simp
    have w2: "prvWriteBytesToBuffer b data ?h1 ?s1 = Some (set_payload ?m2 s, (?h1 + length data) mod xLength B)"
      using prvWriteBytesToBuffer_ok [OF B(1) B1 h1 False le] by simp
    have hd: "?h1 = (?t + (?u + 4)) mod xLength B"
      using head_position [OF B(1)] mod_add_left_eq [of "?t + ?u" "xLength B" 4] by (simp add: add.assoc)
    have p: "0 < xLength B" "?u + 4 + length data \<le> xLength B" using fit by simp_all
    have "ring_bytes B ?m2 ?t (?u + 4 + length data) = sbytes b s @ ?hdr @ data"
      using ring_store_append [OF p, of ?t ?m1] m1 by (simp add: hd)
    then have m2: "ring_bytes B ?m2 ?t (?u + length (framed data)) = sbytes b s @ framed data"
      by (simp add: framed_def add.assoc)
    have out2: "?m2 a = payload (kheap s) a" if "a < pucBuffer B \<or> pucBuffer B + xLength B \<le> a" for a
      using ring_store_outside [OF h1 le that] out1 [OF that] by simp
    have fit2: "?u + length (framed data) < xLength B" using fit by simp
    have "(?h1 + length data) mod xLength B = (xHead B + length (framed data)) mod xLength B"
      using mod_add_left_eq [of "xHead B + 4" "xLength B" "length data"] by (simp add: add.assoc)
    then have "prvWriteMessageToBuffer b data xSpace req s =
        Some (upd_sb b (xHead_update (\<lambda>_. (xHead B + length (framed data)) mod xLength B)) (set_payload ?m2 s), length data)"
      using True False B l w1 w2 by (simp add: prvWriteMessageToBuffer_def configASSERT_def)
    then show ?thesis using appendedI [OF B(1,2) fit2 m2 out2] True False by auto
  qed
qed

lemma removedI:
  assumes B: "sb_ok B" "stream_buffers s b = B" and n: "n \<le> used B"
  shows "removed b n s (upd_sb b (xTail_update (\<lambda>_. (xTail B + n) mod xLength B)) s)"
  unfolding removed_def
  using set_tail(1) [OF B(1) n] stored_set_tail [OF B(1) n] B(2) by (auto simp: sbytes_def)

lemma read_window:
  "n \<le> used (stream_buffers s b) \<Longrightarrow>
   ring_bytes (stream_buffers s b) (payload (kheap s)) (xTail (stream_buffers s b)) n = take n (sbytes b s)"
  using ring_bytes_append [of "stream_buffers s b" _ _ n "used (stream_buffers s b) - n"]
  by (simp add: sbytes_def stored_def)

lemma read_stream_ok:
  assumes B: "sb_ok B" "stream_buffers s b = B" "\<not> is_message B" and av: "xBytesAvailable \<le> used B"
  shows "\<exists>s'. prvReadMessageFromBuffer b len xBytesAvailable s = Some (s', take (min len xBytesAvailable) (sbytes b s)) \<and>
    removed b (min len xBytesAvailable) s s'"
proof (cases "min len xBytesAvailable = 0")
  case True
  then show ?thesis using B removed_none [of s b] unfolding prvReadMessageFromBuffer_def Let_def by (intro exI [of _ s]) auto
next
  case False
  let ?n = "min len xBytesAvailable"
  have n: "?n \<le> used B" "0 < ?n" "?n \<le> xLength B" and t: "xTail B < xLength B"
    using av False used_less [OF B(1)] B(1) by (auto simp: sb_ok_def)
  have "prvReadBytesFromBuffer b ?n (xTail B) s = Some (take ?n (sbytes b s), (xTail B + ?n) mod xLength B)"
    using prvReadBytesFromBuffer_ok [OF B(1,2) t n(2,3)] read_window [of ?n s b] B(2) n(1) by simp
  then have "prvReadMessageFromBuffer b len xBytesAvailable s =
      Some (upd_sb b (xTail_update (\<lambda>_. (xTail B + ?n) mod xLength B)) s, take ?n (sbytes b s))"
    using False B(2,3) by (simp add: prvReadMessageFromBuffer_def Let_def)
  then show ?thesis using removedI [OF B(1,2) n(1)] by blast
qed

text \<open>The first stored message is delivered whole, or left where it is if the buffer given is too small.\<close>

lemma read_message_ok:
  assumes B: "sb_ok B" "stream_buffers s b = B" "is_message B" and av: "xBytesAvailable \<le> used B"
    and st: "sbytes b s = framed x @ rest" and x: "x \<noteq> []" "length x < w32" and all: "length (framed x) \<le> xBytesAvailable"
  shows "\<exists>s'. prvReadMessageFromBuffer b len xBytesAvailable s = Some (s', if length x \<le> len then x else []) \<and>
    removed b (if length x \<le> len then length (framed x) else 0) s s'"
proof -
  let ?t = "xTail B" and ?m = "payload (kheap s)" and ?n = "length x"
  have u: "4 + ?n \<le> used B" "used B < xLength B" using av all used_less [OF B(1)] by simp_all
  have t: "?t < xLength B" using B(1) by (simp add: sb_ok_def)
  have w: "ring_bytes B ?m ?t (4 + ?n) = framed x"
    using read_window [of "4 + ?n" s b] u(1) st B(2) by simp
  then have w12: "ring_bytes B ?m ?t 4 = le_bytes (of_nat ?n)" "ring_bytes B ?m (?t + 4) ?n = x"
    using ring_bytes_append [of B ?m ?t 4 ?n] by (simp_all add: framed_def)
  have four: "4 \<le> xLength B" using u by simp
  have r1: "prvReadBytesFromBuffer b 4 ?t s = Some (le_bytes (of_nat ?n), (?t + 4) mod xLength B)"
    using prvReadBytesFromBuffer_ok [OF B(1,2) t _ four] w12(1) by simp
  have l: "unat (of_nat ?n :: u32) = ?n" using x(2) by (simp add: unat_of_nat w32_def)
  have sub: "wsub xBytesAvailable 4 = xBytesAvailable - 4" using all av u sb_ok_word [OF B(1)] by simp
  show ?thesis
  proof (cases "?n \<le> len")
    case False
    then show ?thesis
      using B r1 l removed_none [of s b]
      by (simp add: prvReadMessageFromBuffer_def sbBYTES_TO_STORE_MESSAGE_LENGTH_def Let_def)
  next
    case True
    have t4: "(?t + 4) mod xLength B < xLength B" using t by simp
    have n: "0 < ?n" "?n \<le> xLength B" "min ?n (xBytesAvailable - 4) = ?n" "4 < xBytesAvailable"
      using x(1) u all length_greater_0_conv [of x] by (simp_all, linarith)
    have "ring_bytes B ?m ((?t + 4) mod xLength B) ?n = x"
      using ring_bytes_cong [of "(?t + 4) mod xLength B" B "?t + 4" ?m ?n] w12(2) by simp
    then have r2: "prvReadBytesFromBuffer b ?n ((?t + 4) mod xLength B) s = Some (x, (?t + (4 + ?n)) mod xLength B)"
      using prvReadBytesFromBuffer_ok [OF B(1,2) t4 n(1,2)] mod_add_left_eq [of "?t + 4" "xLength B" ?n]
      by (simp add: add.assoc)
    have "prvReadMessageFromBuffer b len xBytesAvailable s =
        Some (upd_sb b (xTail_update (\<lambda>_. (?t + (4 + ?n)) mod xLength B)) s, x)"
      using True B(2,3) r1 r2 l n x(1) sub
      by (simp add: prvReadMessageFromBuffer_def sbBYTES_TO_STORE_MESSAGE_LENGTH_def Let_def)
    then show ?thesis using removedI [OF B(1,2) u(1)] True by auto
  qed
qed

end
