(* ===== verification/StreamSystem.thy ===== *)
theory StreamSystem
  imports StreamBuffer
begin

text \<open>
  The kernel below a stream buffer: what ticks, context switches, and the waiting and waking of a
  side by task notifications change, and what they leave as it is.
\<close>

section \<open>What the kernel's part of a step may change\<close>

text \<open>
  \<open>kframe T s s'\<close>: no memory of a buffer, no task dies, and but for the tasks in \<open>T\<close> a ready
  task stays ready and the notification states are as they were.
\<close>

definition kframe :: "nat set \<Rightarrow> 'a kernel_scheme \<Rightarrow> 'a kernel_scheme \<Rightarrow> bool" where
  "kframe T s s' \<longleftrightarrow>
     kernel.more s' = kernel.more s \<and> payload (kheap s') = payload (kheap s) \<and>
     uxSchedulerSuspended s' = uxSchedulerSuspended s \<and> xIdleTaskHandle s' = xIdleTaskHandle s \<and>
     (\<forall>t. valid_task s t \<longrightarrow> valid_task s' t) \<and>
     (\<forall>t. t \<notin> T \<longrightarrow> (is_ready s t \<longrightarrow> is_ready s' t) \<and> ucNotifyState (tcb s' t) 0 = ucNotifyState (tcb s t) 0)"

lemma kframe_refl [simp]: "kframe T s s"
  by (simp add: kframe_def)

lemma kframe_trans: "kframe T s s' \<Longrightarrow> kframe T s' s'' \<Longrightarrow> kframe T s s''"
  by (simp add: kframe_def)

lemma kframe_mono: "kframe T s s' \<Longrightarrow> T \<subseteq> U \<Longrightarrow> kframe U s s'"
  by (auto simp: kframe_def)

lemma more_buffers: "kernel.more s' = kernel.more s \<Longrightarrow> stream_buffers s' = stream_buffers s"
  by (cases s; cases s') simp

lemma kframe_buffers: "kframe T s s' \<Longrightarrow> stream_buffers s' = stream_buffers s"
  by (rule more_buffers) (simp add: kframe_def)

lemma kframe_sbytes: "kframe T s s' \<Longrightarrow> sbytes b s' = sbytes b s"
  using kframe_buffers [of T s s'] by (simp add: sbytes_def kframe_def)

lemma sframe_kept:
  assumes "sframe s s'"
  shows "is_ready s t \<Longrightarrow> is_ready s' t" and "valid_task s t \<Longrightarrow> valid_task s' t"
proof -
  have a: "acont (lists s') (StateItem t) = acont (lists s) (StateItem t) \<or>
      acont (lists s') (StateItem t) = Some (Ready (uxPriority (tcb s t)))" and b: "tcb s' = tcb s"
    using assms by (auto simp: sframe_def)
  show "is_ready s t \<Longrightarrow> is_ready s' t" "valid_task s t \<Longrightarrow> valid_task s' t"
    using a b by (auto simp: is_ready_def valid_task_def ktasks_def terminated_def)
qed

lemma sframe_kframe:
  assumes "sframe s s'" and "uxSchedulerSuspended s' = uxSchedulerSuspended s"
  shows "kframe {} s s'"
  using assms sframe_kept [OF assms(1)] by (simp add: kframe_def sframe_def)

lemma kframe_yield [simp]: "kframe T s (portYIELD s') = kframe T s s'"
  by (simp add: kframe_def portYIELD_def valid_task_def ktasks_def terminated_def is_ready_def)

lemma tick_kframe:
  assumes "tinv S E s" and "SysTick_Handler s = Some s'"
  shows "kframe {} s s'"
proof (cases "uxSchedulerSuspended s = 0")
  case True
  have k: "kinv s" using assms(1) by (rule tinv_kinv)
  have "kframe {} s (tick_result s)" by (rule sframe_kframe [OF sframe_tick [OF k]]) simp
  then show ?thesis
    using assms(2) by (auto simp: SysTick_Handler_def xTaskIncrementTick_result [OF k True] split: if_splits)
next
  case False
  then show ?thesis
    using assms(2)
    by (auto simp: SysTick_Handler_def xTaskIncrementTick_def kframe_def valid_task_def ktasks_def terminated_def is_ready_def
        split: if_splits)
qed

lemma switch_kframe:
  assumes "PendSV_Handler s = Some s'"
  shows "kframe {} s s'"
  using switch_frame_lists [OF assms [unfolded PendSV_Handler_def]] switch_more [OF assms]
  by (simp add: kframe_def valid_task_def ktasks_def terminated_def is_ready_def)

text \<open>A notification without action: the state of \<open>t\<close> becomes \<open>RECEIVED\<close>, and \<open>t\<close> ready if it waited.\<close>

definition notified_ready :: "nat \<Rightarrow> 'a kernel_scheme \<Rightarrow> 'a kernel_scheme \<Rightarrow> bool" where
  "notified_ready t s s' \<longleftrightarrow>
     ucNotifyState (tcb s' t) 0 = taskNOTIFICATION_RECEIVED \<and>
     (is_ready s t \<or> ucNotifyState (tcb s t) 0 = taskWAITING_NOTIFICATION \<longrightarrow> is_ready s' t)"

lemma set_notify_kframe [simp]: "kframe {t} s (set_notify t i n s)"
  by (auto simp: kframe_def set_notify_def upd_tcb_def valid_task_def ktasks_def terminated_def is_ready_def)

lemma unblock_kframe:
  assumes "valid_task s t"
  shows "kframe {t} s (unblock t s)" and "is_ready (unblock t s) t"
  using assms
  by (auto simp: kframe_def unblock_def valid_task_def ktasks_def terminated_def is_ready_def)

lemma notify_no_action: "notify_action eNoAction t i v orig s = (s, True)"
  by (simp add: notify_action_def)

lemma notify_kframe:
  assumes inv: "tinv S E s" and t: "valid_task s t"
  obtains s' r where "xTaskGenericNotify t 0 v eNoAction s = Some (s', r)" and "tinv S E s'"
    and "kframe {t} s s'" and "notified_ready t s s'"
proof -
  obtain s' r where s': "xTaskGenericNotify t 0 v eNoAction s = Some (s', r)" "tinv S E s'"
    using xTaskGenericNotify_ok [OF inv t, of v eNoAction] by blast
  let ?q = "set_notify t 0 taskNOTIFICATION_RECEIVED s" and ?o = "ucNotifyState (tcb s t) 0"
  have nz: "t \<noteq> 0" and st: "acont (lists s) (StateItem t) \<noteq> None"
    using t ktasks_nz [OF tinv_kinv [OF inv]] by (simp_all add: valid_task_def ktasks_def)
  have q: "valid_task ?q t" using t by simp
  have "kframe {t} s s' \<and> notified_ready t s s'"
  proof (cases "?o = taskWAITING_NOTIFICATION")
    case True
    then have free: "acont (lists ?q) (EventItem t) = None"
      using inv by (simp add: tinv_def waiting_free_def)
    have rdy: "listREMOVE_ITEM (StateItem t) ?q = Some (?q\<lparr>lists := a_remove (StateItem t) (lists ?q)\<rparr>)"
      "prvAddTaskToReadyList t (?q\<lparr>lists := a_remove (StateItem t) (lists ?q)\<rparr>) = unblock t ?q"
      using st free by (simp_all add: listREMOVE_ITEM_eq prvAddTaskToReadyList_eq unblock_def a_remove_None)
    have s1: "s' = unblock t ?q \<or> s' = portYIELD (unblock t ?q)"
      using s'(1) nz True rdy
      by (auto simp: xTaskGenericNotify_def notify_no_action configASSERT_def configTASK_NOTIFICATION_ARRAY_ENTRIES_def
          listLIST_ITEM_CONTAINER_def unblock_cont Let_def split: if_splits)
    moreover have "kframe {t} s (unblock t ?q)"
      using kframe_trans set_notify_kframe unblock_kframe(1) [OF q] by blast
    ultimately have "kframe {t} s s'" by auto
    moreover have "notified_ready t s s'"
      using s1 unblock_kframe(2) [OF q] by (auto simp: notified_ready_def is_ready_def portYIELD_def unblock_def)
    ultimately show ?thesis by simp
  next
    case False
    then have "s' = ?q"
      using s'(1) nz by (simp add: xTaskGenericNotify_def notify_no_action configASSERT_def
          configTASK_NOTIFICATION_ARRAY_ENTRIES_def Let_def)
    then show ?thesis using False by (simp add: notified_ready_def is_ready_def)
  qed
  then show ?thesis using that s' by blast
qed

lemma notify_isr_kframe:
  assumes inv: "tinv S E s" and t: "valid_task s t" and run: "uxSchedulerSuspended s = 0"
  obtains s' r w where "xTaskGenericNotifyFromISR t 0 v eNoAction s = Some (s', r, w)" and "tinv S E s'"
    and "kframe {t} s s'" and "notified_ready t s s'"
proof -
  obtain s' r w where s': "xTaskGenericNotifyFromISR t 0 v eNoAction s = Some (s', r, w)" "tinv S E s'"
    using xTaskGenericNotifyFromISR_ok [OF inv t, of v eNoAction] by blast
  let ?q = "set_notify t 0 taskNOTIFICATION_RECEIVED s" and ?o = "ucNotifyState (tcb s t) 0"
  have nz: "t \<noteq> 0" using t ktasks_nz [OF tinv_kinv [OF inv]] by (simp add: valid_task_def)
  have q: "valid_task ?q t" "tinv S E ?q" using t set_notify_tinv [OF inv] by simp_all
  have "kframe {t} s s' \<and> notified_ready t s s'"
  proof (cases "?o = taskWAITING_NOTIFICATION")
    case True
    then have free: "acont (lists ?q) (EventItem t) = None"
      using inv by (simp add: tinv_def waiting_free_def)
    have "s' = unblock t ?q \<or> s' = set_yield True (unblock t ?q)"
      using s'(1) nz True run make_ready_tinv(1,2) [OF q(2,1) free] free
      by (auto simp: xTaskGenericNotifyFromISR_def notify_wake_from_isr_def notify_no_action configASSERT_def
          configTASK_NOTIFICATION_ARRAY_ENTRIES_def listLIST_ITEM_CONTAINER_def set_yield_def Let_def split: if_splits)
    moreover have "kframe {t} s (unblock t ?q)"
      using kframe_trans set_notify_kframe unblock_kframe(1) [OF q(1)] by blast
    moreover have "ucNotifyState (tcb (unblock t ?q) t) 0 = taskNOTIFICATION_RECEIVED" by (simp add: unblock_def)
    moreover have "kframe {t} s (set_yield True u) = kframe {t} s u" for u
      by (simp add: kframe_def set_yield_def valid_task_def ktasks_def terminated_def is_ready_def)
    ultimately show ?thesis
      using unblock_kframe(2) [OF q(1)] by (auto simp: notified_ready_def is_ready_def set_yield_def)
  next
    case False
    then have "s' = ?q"
      using s'(1) nz by (simp add: xTaskGenericNotifyFromISR_def notify_no_action configASSERT_def
          configTASK_NOTIFICATION_ARRAY_ENTRIES_def Let_def)
    then show ?thesis using False by (simp add: notified_ready_def is_ready_def)
  qed
  then show ?thesis using that s' by blast
qed

text \<open>The wait for a notification and its end concern the running task only.\<close>

lemma block_kframe:
  assumes "prvAddCurrentTaskToDelayedList n ind s = Some s'" and "valid_task s (pxCurrentTCB s)" and inv: "kinv s"
  shows "kframe {pxCurrentTCB s} s s' \<and> tcb s' = tcb s"
proof -
  have "pxDelayedTaskList s \<noteq> TasksWaitingTermination" "pxOverflowDelayedTaskList s \<noteq> TasksWaitingTermination"
    using inv by (auto simp: kinv_def kinv0_def delays_def)
  then show ?thesis
    using assms
    by (auto simp: prvAddCurrentTaskToDelayedList_def klist_ops listREMOVE_ITEM_def Let_def kframe_def valid_task_def
      ktasks_def terminated_def is_ready_def split: if_splits bind_splits)
qed

lemma set_nvalue_kframe [simp]: "kframe T s (set_nvalue t i v s)"
  by (auto simp: kframe_def set_nvalue_def upd_tcb_def valid_task_def ktasks_def terminated_def is_ready_def)


lemma wait_kframe:
  assumes inv: "tinv S E s" and run: "running s" and susp: "uxSchedulerSuspended s = 0"
    and cur: "pxCurrentTCB s \<noteq> xIdleTaskHandle s"
  obtains s' where "xTaskGenericNotifyWait_wait 0 0 n s = Some s'" and "tinv S E s'" and "kframe {pxCurrentTCB s} s s'"
    and "ucNotifyState (tcb s (pxCurrentTCB s)) 0 = taskNOTIFICATION_RECEIVED \<Longrightarrow> s' = s"
    and "ucNotifyState (tcb s (pxCurrentTCB s)) 0 \<noteq> taskNOTIFICATION_RECEIVED \<Longrightarrow>
      ucNotifyState (tcb s' (pxCurrentTCB s)) 0 = taskWAITING_NOTIFICATION"
proof -
  let ?c = "pxCurrentTCB s"
  obtain s' where s': "xTaskGenericNotifyWait_wait 0 0 n s = Some s'" "tinv S E s'"
    using xTaskGenericNotifyWait_wait_ok [OF inv run susp cur] by blast
  show ?thesis
  proof (cases "ucNotifyState (tcb s ?c) 0 = taskNOTIFICATION_RECEIVED")
    case True
    then have "s' = s"
      using s'(1) by (simp add: xTaskGenericNotifyWait_wait_def configASSERT_def configTASK_NOTIFICATION_ARRAY_ENTRIES_def Let_def)
    then show ?thesis using that s' True by simp
  next
    case False
    let ?q = "set_notify ?c 0 taskWAITING_NOTIFICATION (set_nvalue ?c 0 (ulNotifiedValue (tcb s ?c) 0 AND NOT 0) s)"
    have q: "kframe {?c} s ?q" by (rule kframe_trans [OF set_nvalue_kframe set_notify_kframe])
    have k: "kinv ?q"
      by (rule tinv_kinv, rule set_notify_tinv [OF set_nvalue_tinv [OF inv]]) (simp add: current_free [OF inv run susp])
    have v: "valid_task ?q (pxCurrentTCB ?q)" using running_valid [OF run] by simp
    have "s' = ?q \<or> (\<exists>u. prvAddCurrentTaskToDelayedList n True ?q = Some u \<and> s' = portYIELD u)"
      using s'(1) False
      by (auto simp: xTaskGenericNotifyWait_wait_def configASSERT_def configTASK_NOTIFICATION_ARRAY_ENTRIES_def Let_def
          split: if_splits bind_splits)
    then have "kframe {?c} s s' \<and> ucNotifyState (tcb s' ?c) 0 = taskWAITING_NOTIFICATION"
    proof
      assume "\<exists>u. prvAddCurrentTaskToDelayedList n True ?q = Some u \<and> s' = portYIELD u"
      then obtain u where u: "prvAddCurrentTaskToDelayedList n True ?q = Some u" "s' = portYIELD u" by blast
      have "kframe {?c} ?q u" "tcb u = tcb ?q" using block_kframe [OF u(1) v k] by simp_all
      then have "kframe {?c} s s'" using kframe_trans [OF q] u(2) by simp
      then show ?thesis using u(2) \<open>tcb u = tcb ?q\<close> by (simp add: portYIELD_def)
    qed (use q in simp)
    then show ?thesis using that s' False by blast
  qed
qed

lemma wait_end_kframe:
  assumes "tinv S E s" and "xTaskGenericNotifyWait_end 0 0 s = (s', x)"
  shows "tinv S E s'" and "kframe {pxCurrentTCB s} s s'"
proof -
  show "tinv S E s'" using xTaskGenericNotifyWait_end_tinv [OF assms(1), of 0 0] assms(2) by simp
  have "kframe {pxCurrentTCB s} s (set_notify (pxCurrentTCB s) 0 n (set_nvalue (pxCurrentTCB s) 0 v s))" for n v
    by (rule kframe_trans [OF set_nvalue_kframe set_notify_kframe])
  then show "kframe {pxCurrentTCB s} s s'"
    using assms(2) by (auto simp: xTaskGenericNotifyWait_end_def Let_def)
qed

lemma clear_kframe:
  assumes "tinv S E s"
  obtains s' y where "xTaskGenericNotifyStateClear 0 0 s = Some (s', y)" and "tinv S E s'"
    and "kframe {pxCurrentTCB s} s s'" and "pxCurrentTCB s' = pxCurrentTCB s"
    and "ucNotifyState (tcb s' (pxCurrentTCB s)) 0 \<noteq> taskNOTIFICATION_RECEIVED"
proof -
  let ?c = "pxCurrentTCB s" and ?q = "set_notify (pxCurrentTCB s) 0 taskNOT_WAITING_NOTIFICATION s"
  have q: "tinv S E ?q" by (rule set_notify_tinv [OF assms]) simp
  have "xTaskGenericNotifyStateClear 0 0 s =
      Some (if ucNotifyState (tcb s ?c) 0 = taskNOTIFICATION_RECEIVED then (?q, True) else (s, False))"
    by (simp add: xTaskGenericNotifyStateClear_def configASSERT_def configTASK_NOTIFICATION_ARRAY_ENTRIES_def
        prvGetTCBFromHandle_def)
  then show ?thesis using that [of ?q True] that [of s False] q assms by (simp split: if_splits)
qed

lemma ksame_upd_sb [simp]: "ksame s (upd_sb b f s)"
  by (simp add: ksame_def upd_sb_def) (metis heap.surjective heap.update_convs(5))

lemma ksame_set_payload [simp]: "ksame s (set_payload m s)"
  unfolding ksame_def set_payload_def by (auto simp: exI [of _ m])

lemma upd_sb_kernel [simp]:
  "tcb (upd_sb b f s) = tcb s" "lists (upd_sb b f s) = lists s" "pxCurrentTCB (upd_sb b f s) = pxCurrentTCB s"
  "uxSchedulerSuspended (upd_sb b f s) = uxSchedulerSuspended s" "xIdleTaskHandle (upd_sb b f s) = xIdleTaskHandle s"
  "xSchedulerRunning (upd_sb b f s) = xSchedulerRunning s" "is_ready (upd_sb b f s) t = is_ready s t"
  "valid_task (upd_sb b f s) t = valid_task s t"
  by (simp_all add: upd_sb_def is_ready_def valid_task_def ktasks_def terminated_def)

lemma set_payload_kernel [simp]:
  "tcb (set_payload m s) = tcb s" "lists (set_payload m s) = lists s" "pxCurrentTCB (set_payload m s) = pxCurrentTCB s"
  "uxSchedulerSuspended (set_payload m s) = uxSchedulerSuspended s" "xIdleTaskHandle (set_payload m s) = xIdleTaskHandle s"
  "xSchedulerRunning (set_payload m s) = xSchedulerRunning s" "is_ready (set_payload m s) t = is_ready s t"
  "valid_task (set_payload m s) t = valid_task s t"
  by (simp_all add: set_payload_def is_ready_def valid_task_def ktasks_def terminated_def)

lemma upd_sb_tinv: "tinv S E s \<Longrightarrow> tinv S E (upd_sb b f s)"
  by (erule tinv_ksame) simp

lemma set_payload_tinv: "tinv S E s \<Longrightarrow> tinv S E (set_payload m s)"
  by (erule tinv_ksame) simp

text \<open>The notification of the waiting task between suspending and resuming the scheduler.\<close>

lemma suspended_notify:
  fixes s :: "'a skernel_scheme"
  assumes inv: "tinv S E s" and run: "uxSchedulerSuspended s = 0" and t: "valid_task s t"
  obtains u r s' y where "xTaskGenericNotify t 0 0 eNoAction (vTaskSuspendAll s) = Some (u, r)"
    and "xTaskResumeAll (upd_sb b f u) = Some (s', y)" and "tinv S E s'" and "kframe {t} (upd_sb b f s) s'"
    and "notified_ready t s s'"
proof -
  let ?s = "vTaskSuspendAll s"
  have i: "tinv S E ?s" by (rule suspend_all_tinv [OF inv]) (simp add: run)
  have t': "valid_task ?s t" using t by (simp add: valid_task_def ktasks_def terminated_def vTaskSuspendAll_def)
  obtain u r where u: "xTaskGenericNotify t 0 0 eNoAction ?s = Some (u, r)" "tinv S E u" "kframe {t} ?s u" "notified_ready t ?s u"
    by (rule notify_kframe [OF i t'])
  let ?u = "upd_sb b f u"
  have susp: "uxSchedulerSuspended u = 1" using u(3) run by (simp add: kframe_def vTaskSuspendAll_def)
  have nz: "uxSchedulerSuspended ?u \<noteq> 0" by (simp add: susp)
  obtain s' y where s': "xTaskResumeAll ?u = Some (s', y)" "tinv S E s'" "sframe ?u s'"
    "uxSchedulerSuspended s' = uxSchedulerSuspended ?u - 1"
    by (rule resume_tinv [OF upd_sb_tinv [OF u(2)] nz])
  have sb: "stream_buffers u = stream_buffers s"
    by (rule more_buffers) (use u(3) in \<open>simp add: kframe_def vTaskSuspendAll_def\<close>)
  have m: "kernel.more ?u = kernel.more (upd_sb b f s)"
    using u(3) sb by (cases u; cases s) (simp add: kframe_def vTaskSuspendAll_def upd_sb_def)
  have f: "tcb s' = tcb u" "kheap s' = kheap u" "kernel.more s' = kernel.more ?u" "xIdleTaskHandle s' = xIdleTaskHandle u"
    using s'(3) by (simp_all add: sframe_def)
  have v: "vTaskSuspendAll s = s\<lparr>uxSchedulerSuspended := uxSchedulerSuspended s + 1\<rparr>" by (simp add: vTaskSuspendAll_def)
  have r0: "is_ready ?s x = is_ready s x" "valid_task ?s x = valid_task s x" for x
    by (simp_all add: v is_ready_def valid_task_def ktasks_def terminated_def)
  have kr: "is_ready u x \<Longrightarrow> is_ready s' x" "valid_task u x \<Longrightarrow> valid_task s' x" for x
    using sframe_kept [OF s'(3), of x] by simp_all
  have "kframe {t} (upd_sb b f s) s'"
    using u(3) f m r0 kr s'(4) susp run by (simp add: kframe_def v) 
  moreover have "notified_ready t s s'"
    using u(4) f(1) r0 kr by (simp add: notified_ready_def v)
  ultimately show ?thesis using that u(1) s'(1,2) by blast
qed

lemma suspend_resume:
  assumes inv: "tinv S E s" and run: "uxSchedulerSuspended s = 0"
  obtains s' y where "xTaskResumeAll (vTaskSuspendAll s) = Some (s', y)" and "tinv S E s'" and "kframe {} s s'"
proof -
  let ?s = "vTaskSuspendAll s"
  have i: "tinv S E ?s" by (rule suspend_all_tinv [OF inv]) (simp add: run)
  have nz: "uxSchedulerSuspended ?s \<noteq> 0" by (simp add: run)
  obtain s' y where s': "xTaskResumeAll ?s = Some (s', y)" "tinv S E s'" "sframe ?s s'"
    "uxSchedulerSuspended s' = uxSchedulerSuspended ?s - 1"
    by (rule resume_tinv [OF i nz])
  have "sframe s s'" using s'(3) by (simp add: sframe_def vTaskSuspendAll_def)
  then have "kframe {} s s'" by (rule sframe_kframe) (use s'(4) run in simp)
  then show ?thesis using that s'(1,2) by blast
qed

end
