(* ===== verification/StreamSpec.thy ===== *)
theory StreamSpec
  imports StreamSystem
begin

text \<open>
  What a stream buffer promises to one writer and one reader: the contracts \<open>stepwise\<close> and \<open>fifo_channel\<close>, the
  calls of both sides cut into steps that interleave, the invariant of that system, and its
  properties: no step fails, nothing is lost, reordered or made up, and no side waits for
  something that is already there.
\<close>

section \<open>The contract of a channel\<close>

text \<open>
  A step accepts some elements and delivers others.  \<open>run_steps\<close> collects both along a list of
  steps; \<open>allowed\<close> says that every step is one its caller may make when its turn comes.
\<close>

fun run_steps :: "('o \<Rightarrow> 's \<Rightarrow> ('s \<times> 'i list \<times> 'i list) option) \<Rightarrow> 'o list \<Rightarrow> 's \<Rightarrow> ('s \<times> 'i list \<times> 'i list) option" where
  "run_steps ex [] s = Some (s, [], [])"
| "run_steps ex (p # ps) s =
     do { (s, a, d) \<leftarrow> ex p s; (s, as, ds) \<leftarrow> run_steps ex ps s; Some (s, a @ as, d @ ds) }"

fun allowed :: "('o \<Rightarrow> 's \<Rightarrow> bool) \<Rightarrow> ('o \<Rightarrow> 's \<Rightarrow> ('s \<times> 'i list \<times> 'i list) option) \<Rightarrow> 'o list \<Rightarrow> 's \<Rightarrow> bool" where
  "allowed may ex [] s = True"
| "allowed may ex (p # ps) s =
     (may p s \<and> (case ex p s of None \<Rightarrow> True | Some (s', _) \<Rightarrow> allowed may ex ps s'))"

lemma allowed_none [simp]: "(case x of None \<Rightarrow> True | Some (s', _) \<Rightarrow> allowed may ex [] s') = True"
  by (simp split: option.split)

locale stepwise =
  fixes inv :: "'s \<Rightarrow> bool" and may :: "'o \<Rightarrow> 's \<Rightarrow> bool"
    and ex :: "'o \<Rightarrow> 's \<Rightarrow> ('s \<times> 'i list \<times> 'i list) option"
  assumes progress: "inv s \<Longrightarrow> may p s \<Longrightarrow> \<exists>s' a d. ex p s = Some (s', a, d) \<and> inv s'"
begin

lemma never_fails:
  "inv s \<Longrightarrow> allowed may ex ps s \<Longrightarrow> \<exists>s' as ds. run_steps ex ps s = Some (s', as, ds) \<and> inv s'"
proof (induction ps arbitrary: s)
  case (Cons p ps)
  obtain s1 a d where s1: "ex p s = Some (s1, a, d)" "inv s1"
    using progress [OF Cons.prems(1), of p] Cons.prems(2) by auto
  then obtain s' as ds where "run_steps ex ps s1 = Some (s', as, ds)" "inv s'"
    using Cons.IH [OF s1(2)] Cons.prems(2) by auto
  then show ?case using s1(1) by auto
qed simp

end

text \<open>
  A channel holds elements: what was delivered followed by what it holds is what it held followed
  by what was accepted.  \<open>flat\<close> reads the elements off the chunks the steps report.
\<close>

locale fifo_channel = stepwise inv may ex
  for inv :: "'s \<Rightarrow> bool" and may :: "'o \<Rightarrow> 's \<Rightarrow> bool"
    and ex :: "'o \<Rightarrow> 's \<Rightarrow> ('s \<times> 'i list \<times> 'i list) option" +
  fixes elems :: "'s \<Rightarrow> 'e list" and flat :: "'i list \<Rightarrow> 'e list"
  assumes flat_none: "flat [] = []" and flat_append: "flat (xs @ ys) = flat xs @ flat ys"
    and conserve: "inv s \<Longrightarrow> may p s \<Longrightarrow> ex p s = Some (s', a, d) \<Longrightarrow> flat d @ elems s' = elems s @ flat a"
begin

lemma conserved:
  "inv s \<Longrightarrow> allowed may ex ps s \<Longrightarrow> run_steps ex ps s = Some (s', as, ds) \<Longrightarrow>
   flat ds @ elems s' = elems s @ flat as"
proof (induction ps arbitrary: s s' as ds)
  case Nil
  then show ?case by (simp add: flat_none)
next
  case (Cons p ps)
  obtain s1 a d where s1: "ex p s = Some (s1, a, d)" "inv s1"
    using progress [OF Cons.prems(1), of p] Cons.prems(2) by auto
  obtain as1 ds1 where r: "run_steps ex ps s1 = Some (s', as1, ds1)" "as = a @ as1" "ds = d @ ds1"
    using Cons.prems(3) s1(1) by (auto split: bind_splits)
  have "flat d @ elems s1 = elems s @ flat a" using conserve [OF Cons.prems(1) _ s1(1)] Cons.prems(2) by simp
  moreover have "flat ds1 @ elems s' = elems s1 @ flat as1"
    using Cons.IH [OF s1(2) _ r(1)] Cons.prems(2) s1(1) by simp
  ultimately show ?case unfolding r(2,3) flat_append by (metis append.assoc)
qed

lemma in_order:
  assumes "inv s" and "allowed may ex ps s"
  shows "\<exists>s' as ds. run_steps ex ps s = Some (s', as, ds) \<and> inv s' \<and> flat ds @ elems s' = elems s @ flat as"
  using never_fails [OF assms] conserved [OF assms] by blast

end

section \<open>Both sides as interleaved steps\<close>

text \<open>
  Where the writer is in \<open>xStreamBufferSend\<close>, with its local variables: the data, the space it
  needs, the time-out, the ticks to wait, \<open>xSpace\<close>, or the result.
\<close>

datatype writer_pc =
    WIdle
  | WTry "u8 list" nat time_out u32
  | WRegistered "u8 list" nat time_out u32 nat
  | WWaiting "u8 list" nat time_out u32 nat
  | WLeft "u8 list" nat nat
  | WCopy "u8 list" nat nat
  | WCopied nat

text \<open>Where the reader is in \<open>xStreamBufferReceive\<close>: the buffer length, the ticks, \<open>xBytesAvailable\<close>, or the result.\<close>

datatype reader_pc =
    RIdle
  | RTry nat u32
  | RRegistered nat u32
  | RWaiting nat
  | RLeft nat
  | RGot nat nat
  | RCopied nat

record 'a sbsys =
  kst :: "'a skernel_scheme"
  wpc :: writer_pc
  rpc :: reader_pc

text \<open>A side starts a call or goes on with the next part of its call; or an interrupt plays its part.\<close>

datatype writer_op = WStart "u8 list" u32 | WGo | SendISR "u8 list"

datatype reader_op = RStart nat u32 | RGo | ReceiveISR nat

datatype sb_op = Writer writer_op | Reader reader_op | SetTrigger nat | SbTick | SbSwitch

text \<open>The third component is what the step accepts, or delivers.\<close>

fun writer_go ::
  "nat \<Rightarrow> writer_pc \<Rightarrow> 'a skernel_scheme \<Rightarrow> ('a skernel_scheme \<times> writer_pc \<times> u8 list list) option" where
  "writer_go b WIdle k = None"
| "writer_go b (WTry data req t n) k =
     do {
       (k, xSpace) \<leftarrow> xStreamBufferSend_register b req k;
       Some (k, if xSpace < req then WRegistered data req t n xSpace else WLeft data req xSpace, [])
     }"
| "writer_go b (WRegistered data req t n xSpace) k =
     do { k \<leftarrow> xStreamBufferSend_wait n k; Some (k, WWaiting data req t n xSpace, []) }"
| "writer_go b (WWaiting data req t n xSpace) k =
     (let (k, expired, t, n) = xStreamBufferSend_wake b t n k
      in Some (k, if expired then WLeft data req xSpace else WTry data req t n, []))"
| "writer_go b (WLeft data req xSpace) k =
     do { xSpace \<leftarrow> xStreamBufferSend_space b xSpace k; Some (k, WCopy data req xSpace, []) }"
| "writer_go b (WCopy data req xSpace) k =
     do {
       (k, n) \<leftarrow> prvWriteMessageToBuffer b data xSpace req k;
       Some (k, WCopied n, if n > 0 then [take n data] else [])
     }"
| "writer_go b (WCopied n) k = do { k \<leftarrow> xStreamBufferSend_complete b n k; Some (k, WIdle, []) }"

fun writer_step ::
  "nat \<Rightarrow> writer_op \<Rightarrow> writer_pc \<Rightarrow> 'a skernel_scheme \<Rightarrow> ('a skernel_scheme \<times> writer_pc \<times> u8 list list) option" where
  "writer_step b (WStart data n) pc k =
     do {
       (req, n) \<leftarrow> xStreamBufferSend_enter b (Some data) n k;
       Some (k, if n \<noteq> 0 then WTry data req (vTaskInternalSetTimeOutState k) n else WLeft data req 0, [])
     }"
| "writer_step b WGo pc k = writer_go b pc k"
| "writer_step b (SendISR data) pc k =
     do {
       (k, n, _) \<leftarrow> xStreamBufferSendFromISR b (Some data) False k;
       Some (k, pc, if n > 0 then [take n data] else [])
     }"

fun reader_go ::
  "nat \<Rightarrow> reader_pc \<Rightarrow> 'a skernel_scheme \<Rightarrow> ('a skernel_scheme \<times> reader_pc \<times> u8 list list) option" where
  "reader_go b RIdle k = None"
| "reader_go b (RTry len n) k =
     do {
       (k, av) \<leftarrow> xStreamBufferReceive_register b k;
       Some (k, if av \<le> length_bytes (stream_buffers k b) then RRegistered len n else RGot len av, [])
     }"
| "reader_go b (RRegistered len n) k = do { k \<leftarrow> xStreamBufferReceive_wait n k; Some (k, RWaiting len, []) }"
| "reader_go b (RWaiting len) k = Some (xStreamBufferReceive_wake b k, RLeft len, [])"
| "reader_go b (RLeft len) k = Some (k, RGot len (prvBytesInBuffer (stream_buffers k b)), [])"
| "reader_go b (RGot len av) k =
     do {
       (k, x) \<leftarrow> xStreamBufferReceive_read b len av k;
       Some (k, RCopied (length x), if x \<noteq> [] then [x] else [])
     }"
| "reader_go b (RCopied n) k = do { k \<leftarrow> xStreamBufferReceive_complete b n k; Some (k, RIdle, []) }"

fun reader_step ::
  "nat \<Rightarrow> reader_op \<Rightarrow> reader_pc \<Rightarrow> 'a skernel_scheme \<Rightarrow> ('a skernel_scheme \<times> reader_pc \<times> u8 list list) option" where
  "reader_step b (RStart len n) pc k =
     do { configASSERT (b \<noteq> 0); Some (k, if n \<noteq> 0 then RTry len n else RLeft len, []) }"
| "reader_step b RGo pc k = reader_go b pc k"
| "reader_step b (ReceiveISR len) pc k =
     do {
       (k, x, _) \<leftarrow> xStreamBufferReceiveFromISR b True len False k;
       Some (k, pc, if x \<noteq> [] then [x] else [])
     }"

text \<open>A step of the system: what it accepts and what it delivers.\<close>

fun sb_exec :: "nat \<Rightarrow> sb_op \<Rightarrow> 'a sbsys \<Rightarrow> ('a sbsys \<times> u8 list list \<times> u8 list list) option" where
  "sb_exec b (Writer p) x =
     do { (k, pc, a) \<leftarrow> writer_step b p (wpc x) (kst x); Some (x\<lparr>kst := k, wpc := pc\<rparr>, a, []) }"
| "sb_exec b (Reader p) x =
     do { (k, pc, d) \<leftarrow> reader_step b p (rpc x) (kst x); Some (x\<lparr>kst := k, rpc := pc\<rparr>, [], d) }"
| "sb_exec b (SetTrigger n) x =
     do { (k, _) \<leftarrow> xStreamBufferSetTriggerLevel b n (kst x); Some (x\<lparr>kst := k\<rparr>, [], []) }"
| "sb_exec b SbTick x = do { k \<leftarrow> SysTick_Handler (kst x); Some (x\<lparr>kst := k\<rparr>, [], []) }"
| "sb_exec b SbSwitch x = do { k \<leftarrow> PendSV_Handler (kst x); Some (x\<lparr>kst := k\<rparr>, [], []) }"

text \<open>
  A step of a side is made by its task when it runs and is at that point of the call; a call is
  given data that fits into memory with its length.  An interrupt sends or receives when the
  task of that side is not in a call; the trigger level is changed when no receive is under way.
\<close>

definition sendable :: "u8 list \<Rightarrow> bool" where
  "sendable data \<longleftrightarrow> length data + sbBYTES_TO_STORE_MESSAGE_LENGTH < w32"

definition runs :: "nat \<Rightarrow> 'a kernel_scheme \<Rightarrow> bool" where
  "runs t s \<longleftrightarrow> running s \<and> pxCurrentTCB s = t"

fun sb_may :: "nat \<Rightarrow> nat \<Rightarrow> sb_op \<Rightarrow> 'a sbsys \<Rightarrow> bool" where
  "sb_may w r (Writer (WStart data n)) x = (wpc x = WIdle \<and> sendable data \<and> runs w (kst x))"
| "sb_may w r (Writer WGo) x = (wpc x \<noteq> WIdle \<and> runs w (kst x))"
| "sb_may w r (Writer (SendISR data)) x = (wpc x = WIdle \<and> sendable data)"
| "sb_may w r (Reader (RStart len n)) x = (rpc x = RIdle \<and> runs r (kst x))"
| "sb_may w r (Reader RGo) x = (rpc x \<noteq> RIdle \<and> runs r (kst x))"
| "sb_may w r (Reader (ReceiveISR len)) x = (rpc x = RIdle)"
| "sb_may w r (SetTrigger n) x = (rpc x = RIdle)"
| "sb_may w r SbTick x = True"
| "sb_may w r SbSwitch x = True"

section \<open>Messages in the bytes\<close>

function unframe :: "u8 list \<Rightarrow> u8 list list" where
  "unframe bs =
     (if length bs \<le> 4 then []
      else let n = unat (of_le_bytes (take 4 bs)) in take n (drop 4 bs) # unframe (drop (4 + n) bs))"
  by pat_completeness auto
termination
  by (relation "measure length") auto

declare unframe.simps [simp del]

definition whole_message :: "u8 list \<Rightarrow> bool" where
  "whole_message x \<longleftrightarrow> x \<noteq> [] \<and> length x < w32"

definition framing :: "u8 list \<Rightarrow> bool" where
  "framing bs \<longleftrightarrow> (\<exists>ms. bs = concat (map framed ms) \<and> (\<forall>x \<in> set ms. whole_message x))"

lemma unframe_none [simp]: "unframe [] = []"
  by (subst unframe.simps) simp

lemma unframe_framed:
  "whole_message x \<Longrightarrow> unframe (framed x @ bs) = x # unframe bs"
  by (subst unframe.simps)
    (auto simp: whole_message_def framed_def unat_of_nat w32_def Let_def simp flip: length_greater_0_conv)

lemma unframe_all: "\<forall>x \<in> set ms. whole_message x \<Longrightarrow> unframe (concat (map framed ms) @ bs) = ms @ unframe bs"
  by (induction ms) (simp_all add: unframe_framed)

lemma framing_none [simp]: "framing []"
  unfolding framing_def by (rule exI [of _ "[]"]) simp

lemma framing_append:
  assumes "framing bs" and "whole_message x"
  shows "framing (bs @ framed x)" and "unframe (bs @ framed x) = unframe bs @ [x]"
proof -
  obtain ms where ms: "bs = concat (map framed ms)" "\<forall>x \<in> set ms. whole_message x"
    using assms(1) by (auto simp: framing_def)
  show "framing (bs @ framed x)"
    unfolding framing_def by (rule exI [of _ "ms @ [x]"]) (use ms assms(2) in simp)
  show "unframe (bs @ framed x) = unframe bs @ [x]"
    using unframe_all [OF ms(2), of "framed x"] unframe_all [OF ms(2), of "[]"] unframe_framed [OF assms(2), of "[]"] ms(1) by simp
qed

lemma framing_first:
  assumes "framing bs" and "bs \<noteq> []"
  obtains x rest where "bs = framed x @ rest" and "whole_message x" and "framing rest"
proof -
  obtain ms where ms: "bs = concat (map framed ms)" "\<forall>x \<in> set ms. whole_message x"
    using assms(1) by (auto simp: framing_def)
  then obtain y ys where "ms = y # ys" using assms(2) by (cases ms) auto
  then show ?thesis using that [of y "concat (map framed ys)"] ms by (auto simp: framing_def)
qed


section \<open>The invariant\<close>

lemma set_waiting_shape [simp]:
  "sb_ok (B\<lparr>xTaskWaitingToSend := t\<rparr>) = sb_ok B" "sb_ok (B\<lparr>xTaskWaitingToReceive := t\<rparr>) = sb_ok B"
  "used (B\<lparr>xTaskWaitingToSend := t\<rparr>) = used B" "used (B\<lparr>xTaskWaitingToReceive := t\<rparr>) = used B"
  "free_cells (B\<lparr>xTaskWaitingToSend := t\<rparr>) = free_cells B" "free_cells (B\<lparr>xTaskWaitingToReceive := t\<rparr>) = free_cells B"
  "is_message (B\<lparr>xTaskWaitingToSend := t\<rparr>) = is_message B" "is_message (B\<lparr>xTaskWaitingToReceive := t\<rparr>) = is_message B"
  "stored (B\<lparr>xTaskWaitingToSend := t\<rparr>) m = stored B m" "stored (B\<lparr>xTaskWaitingToReceive := t\<rparr>) m = stored B m"
  by (simp_all add: sb_ok_def used_def free_cells_def is_message_def stored_def ring_bytes_def cell_def)

definition sys_ok :: "nat \<Rightarrow> nat \<Rightarrow> nat \<Rightarrow> nat \<Rightarrow> nat \<Rightarrow> bool \<Rightarrow> 'a skernel_scheme \<Rightarrow> bool" where
  "sys_ok S E b w r msg k \<longleftrightarrow>
     tinv S E k \<and> uxSchedulerSuspended k = 0 \<and> b \<noteq> 0 \<and> sb_ok (stream_buffers k b) \<and>
     is_message (stream_buffers k b) = msg \<and> (msg \<longrightarrow> framing (sbytes b k)) \<and>
     valid_task k w \<and> valid_task k r \<and> w \<noteq> r \<and> w \<noteq> xIdleTaskHandle k \<and> r \<noteq> xIdleTaskHandle k"

text \<open>
  The side of task \<open>t\<close>, whose handle is in the buffer as \<open>h\<close>: a handle in the buffer is that of a
  side on its way to wait or waiting, for something that is not there yet (\<open>low\<close>); a side on its
  way to wait is registered or has been notified; a side that waits is ready to go on, or is
  registered and will be woken by a notification.
\<close>

definition waiter :: "'a kernel_scheme \<Rightarrow> nat \<Rightarrow> nat \<Rightarrow> bool \<Rightarrow> bool \<Rightarrow> bool \<Rightarrow> bool" where
  "waiter k t h registered waits low \<longleftrightarrow>
     (h \<noteq> 0 \<longrightarrow> h = t \<and> (registered \<or> waits) \<and> low) \<and>
     (registered \<longrightarrow> h = t \<or> ucNotifyState (tcb k t) 0 = taskNOTIFICATION_RECEIVED) \<and>
     (waits \<longrightarrow> is_ready k t \<or> h = t \<and> ucNotifyState (tcb k t) 0 = taskWAITING_NOTIFICATION)"

fun w_registered :: "writer_pc \<Rightarrow> bool" where
  "w_registered (WRegistered data req t n xSpace) = True" | "w_registered _ = False"

fun w_waits :: "writer_pc \<Rightarrow> bool" where
  "w_waits (WWaiting data req t n xSpace) = True" | "w_waits _ = False"

fun w_wants :: "writer_pc \<Rightarrow> nat" where
  "w_wants (WRegistered data req t n xSpace) = req" | "w_wants (WWaiting data req t n xSpace) = req" | "w_wants _ = 0"

fun w_will_notify :: "writer_pc \<Rightarrow> bool" where
  "w_will_notify (WCopied n) = (n > 0)" | "w_will_notify _ = False"

fun r_registered :: "reader_pc \<Rightarrow> bool" where
  "r_registered (RRegistered len n) = True" | "r_registered _ = False"

fun r_waits :: "reader_pc \<Rightarrow> bool" where
  "r_waits (RWaiting len) = True" | "r_waits _ = False"

fun r_will_notify :: "reader_pc \<Rightarrow> bool" where
  "r_will_notify (RCopied n) = (n > 0)" | "r_will_notify _ = False"

definition fits :: "bool \<Rightarrow> u8 list \<Rightarrow> nat \<Rightarrow> bool" where
  "fits msg data req \<longleftrightarrow> (msg \<longrightarrow> length data < w32 \<and> req = length data + 4)"

text \<open>A look at the space or the bytes may be old, but errs on the safe side.\<close>

fun writer_ok :: "bool \<Rightarrow> stream_buffer \<Rightarrow> writer_pc \<Rightarrow> bool" where
  "writer_ok msg B WIdle = True"
| "writer_ok msg B (WTry data req t n) = fits msg data req"
| "writer_ok msg B (WRegistered data req t n xSpace) = (fits msg data req \<and> xSpace \<le> free_cells B)"
| "writer_ok msg B (WWaiting data req t n xSpace) = (fits msg data req \<and> xSpace \<le> free_cells B)"
| "writer_ok msg B (WLeft data req xSpace) = (fits msg data req \<and> xSpace \<le> free_cells B)"
| "writer_ok msg B (WCopy data req xSpace) = (fits msg data req \<and> xSpace \<le> free_cells B)"
| "writer_ok msg B (WCopied n) = True"

lemma writer_ok_waiting [simp]:
  "writer_ok msg (B\<lparr>xTaskWaitingToSend := t\<rparr>) wp = writer_ok msg B wp"
  "writer_ok msg (B\<lparr>xTaskWaitingToReceive := t\<rparr>) wp = writer_ok msg B wp"
  by (cases wp; simp)+

definition first_fits :: "u8 list \<Rightarrow> nat \<Rightarrow> bool" where
  "first_fits bs n \<longleftrightarrow> (\<exists>x rest. bs = framed x @ rest \<and> whole_message x \<and> framing rest \<and> length (framed x) \<le> n)"

fun reader_ok :: "bool \<Rightarrow> u8 list \<Rightarrow> reader_pc \<Rightarrow> bool" where
  "reader_ok msg bs (RGot len av) = (av \<le> length bs \<and> (msg \<longrightarrow> av > 4 \<longrightarrow> first_fits bs av))"
| "reader_ok msg bs _ = True"

definition sb_inv ::
  "nat \<Rightarrow> nat \<Rightarrow> nat \<Rightarrow> nat \<Rightarrow> nat \<Rightarrow> bool \<Rightarrow> 'a skernel_scheme \<Rightarrow> writer_pc \<Rightarrow> reader_pc \<Rightarrow> bool" where
  "sb_inv S E b w r msg k wp rp \<longleftrightarrow>
     sys_ok S E b w r msg k \<and> writer_ok msg (stream_buffers k b) wp \<and> reader_ok msg (sbytes b k) rp \<and>
     waiter k r (xTaskWaitingToReceive (stream_buffers k b)) (r_registered rp) (r_waits rp)
       (used (stream_buffers k b) < xTriggerLevelBytes (stream_buffers k b) \<or> w_will_notify wp) \<and>
     waiter k w (xTaskWaitingToSend (stream_buffers k b)) (w_registered wp) (w_waits wp)
       (free_cells (stream_buffers k b) < w_wants wp \<or> r_will_notify rp)"

text \<open>What a step accepts and delivers, as bytes or as messages.\<close>

definition flows :: "bool \<Rightarrow> u8 list \<Rightarrow> u8 list list \<Rightarrow> u8 list list \<Rightarrow> u8 list \<Rightarrow> bool" where
  "flows msg bs a d bs' \<longleftrightarrow>
     (if msg then d @ unframe bs' = unframe bs @ a else concat d @ bs' = bs @ concat a)"

lemma flows_none [simp]: "flows msg bs [] [] bs"
  by (simp add: flows_def)

lemma waiter_idle [simp]: "waiter k t 0 False False low"
  by (simp add: waiter_def)

lemma waiter_none: "waiter k t h False False low \<longleftrightarrow> h = 0"
  by (auto simp: waiter_def)

lemma waiter_kframe: "waiter k t h i j low \<Longrightarrow> kframe T k k' \<Longrightarrow> t \<notin> T \<Longrightarrow> waiter k' t h i j low"
  by (auto simp: waiter_def kframe_def)

lemma waiter_low: "waiter k t h i j low \<Longrightarrow> (h \<noteq> 0 \<Longrightarrow> low \<Longrightarrow> low') \<Longrightarrow> waiter k t h i j low'"
  by (auto simp: waiter_def)

lemma waiter_notified: "waiter k t h i j low \<Longrightarrow> notified_ready t k k' \<Longrightarrow> waiter k' t 0 i j low'"
  by (auto simp: waiter_def notified_ready_def)

lemma waiter_goes_on: "waiter k t h True False low \<Longrightarrow> is_ready k t \<Longrightarrow> waiter k t h False True low"
  by (auto simp: waiter_def)

lemma waiter_blocks:
  "waiter k t h True False low \<Longrightarrow> ucNotifyState (tcb k t) 0 \<noteq> taskNOTIFICATION_RECEIVED \<Longrightarrow>
   ucNotifyState (tcb k' t) 0 = taskWAITING_NOTIFICATION \<Longrightarrow> waiter k' t h False True low"
  unfolding waiter_def by blast

lemma waiter_upd [simp]: "waiter (upd_sb b f k) t h i j low = waiter k t h i j low"
  "waiter (set_payload m k) t h i j low = waiter k t h i j low"
  by (simp_all add: waiter_def)

lemma sys_kframe:
  assumes "sys_ok S E b w r msg k" and "tinv S E k'" and "kframe T k k'"
  shows "sys_ok S E b w r msg k'"
  using assms kframe_buffers [OF assms(3)] kframe_sbytes [OF assms(3), of b] by (auto simp: sys_ok_def kframe_def)

lemma sys_set_waiting:
  "sys_ok S E b w r msg k \<Longrightarrow> sys_ok S E b w r msg (upd_sb b (xTaskWaitingToSend_update (\<lambda>_. t)) k)"
  "sys_ok S E b w r msg k \<Longrightarrow> sys_ok S E b w r msg (upd_sb b (xTaskWaitingToReceive_update (\<lambda>_. t)) k)"
  by (simp_all add: sys_ok_def upd_sb_tinv sbytes_def)

lemma sbytes_set_waiting [simp]:
  "sbytes b (upd_sb b (xTaskWaitingToSend_update f) k) = sbytes b k"
  "sbytes b (upd_sb b (xTaskWaitingToReceive_update f) k) = sbytes b k"
  by (simp_all add: sbytes_def stored_def ring_bytes_def cell_def used_def)

text \<open>A step of the kernel alone.\<close>

lemma sb_inv_kframe:
  assumes "sb_inv S E b w r msg k wp rp" and "tinv S E k'" and "kframe {} k k'"
  shows "sb_inv S E b w r msg k' wp rp" and "sbytes b k' = sbytes b k"
  using assms sys_kframe [OF _ assms(2,3)] kframe_buffers [OF assms(3)] kframe_sbytes [OF assms(3), of b]
    waiter_kframe [OF _ assms(3)]
  by (simp_all add: sb_inv_def)

lemma sb_inv_sys: "sb_inv S E b w r msg k wp rp \<Longrightarrow> sys_ok S E b w r msg k"
  by (simp add: sb_inv_def)

lemma runs_writer:
  assumes "sys_ok S E b w r msg k" and "runs w k"
  shows "tinv S E k" and "running k" and "uxSchedulerSuspended k = 0" and "pxCurrentTCB k \<noteq> xIdleTaskHandle k"
    and "pxCurrentTCB k = w" and "w \<noteq> 0" and "w \<noteq> r" and "b \<noteq> 0" and "sb_ok (stream_buffers k b)"
  using assms ktasks_nz [OF tinv_kinv, of S E k w] by (auto simp: sys_ok_def runs_def valid_task_def)

lemma runs_reader:
  assumes "sys_ok S E b w r msg k" and "runs r k"
  shows "tinv S E k" and "running k" and "uxSchedulerSuspended k = 0" and "pxCurrentTCB k \<noteq> xIdleTaskHandle k"
    and "pxCurrentTCB k = r" and "r \<noteq> 0" and "w \<noteq> r" and "b \<noteq> 0" and "sb_ok (stream_buffers k b)"
  using assms ktasks_nz [OF tinv_kinv, of S E k r] by (auto simp: sys_ok_def runs_def valid_task_def)

section \<open>The steps of the writer\<close>

lemma space_eq:
  "sys_ok S E b w r msg k \<Longrightarrow> xStreamBufferSpacesAvailable b k = Some (free_cells (stream_buffers k b))"
  by (simp add: sys_ok_def spaces_available free_cells_def)

lemma start_ok:
  assumes inv: "sb_inv S E b w r msg k WIdle rp" and d: "sendable data"
  shows "\<exists>pc. writer_step b (WStart data n) WIdle k = Some (k, pc, []) \<and> sb_inv S E b w r msg k pc rp"
proof -
  let ?B = "stream_buffers k b"
  have s: "b \<noteq> 0" "sb_ok ?B" "is_message ?B = msg" using inv by (simp_all add: sb_inv_def sys_ok_def)
  have l: "length data + 4 < w32" using d by (simp add: sendable_def sbBYTES_TO_STORE_MESSAGE_LENGTH_def)
  obtain req m where e: "xStreamBufferSend_enter b (Some data) n k = Some (req, m)" and f: "fits msg data req"
    using s l by (auto simp: xStreamBufferSend_enter_def configASSERT_def fits_def bytes_of_def
        sbBYTES_TO_STORE_MESSAGE_LENGTH_def Let_def)
  have h: "xTaskWaitingToSend ?B = 0" using inv by (simp add: sb_inv_def waiter_none)
  show ?thesis using e f inv h by (auto simp: sb_inv_def)
qed

lemma register_writer_ok:
  assumes inv: "sb_inv S E b w r msg k (WTry data req t n) rp" and run: "runs w k"
  shows "\<exists>k' pc. writer_go b (WTry data req t n) k = Some (k', pc, []) \<and> sb_inv S E b w r msg k' pc rp \<and> sbytes b k' = sbytes b k"
proof (cases "free_cells (stream_buffers k b) < req")
  case False
  then show ?thesis
    using inv space_eq [OF sb_inv_sys [OF inv]]
    by (auto simp: xStreamBufferSend_register_def sb_inv_def waiter_none)
next
  case True
  note sys = sb_inv_sys [OF inv]
  note c = runs_writer [OF sys run]
  let ?B = "stream_buffers k b"
  have h: "xTaskWaitingToSend ?B = 0" using inv by (simp add: sb_inv_def waiter_none)
  obtain u y where u: "xTaskGenericNotifyStateClear 0 0 k = Some (u, y)" "tinv S E u" "kframe {w} k u"
    "pxCurrentTCB u = w" "ucNotifyState (tcb u w) 0 \<noteq> taskNOTIFICATION_RECEIVED"
    using clear_kframe [OF c(1)] c(5) by metis
  note su = sys_kframe [OF sys u(2,3)] and bu = kframe_buffers [OF u(3)] kframe_sbytes [OF u(3)]
  let ?k = "upd_sb b (xTaskWaitingToSend_update (\<lambda>_. w)) u"
  have "writer_go b (WTry data req t n) k = Some (?k, WRegistered data req t n (free_cells ?B), [])"
    using True u bu h space_eq [OF sys] by (simp add: xStreamBufferSend_register_def configASSERT_def)
  moreover have "waiter ?k r (xTaskWaitingToReceive ?B) (r_registered rp) (r_waits rp) (used ?B < xTriggerLevelBytes ?B)"
    using inv waiter_kframe [OF _ u(3)] c(7) by (simp add: sb_inv_def)
  then have "sb_inv S E b w r msg ?k (WRegistered data req t n (free_cells ?B)) rp"
    using inv sys_set_waiting(1) [OF su] bu True by (simp add: sb_inv_def waiter_def [of _ w])
  ultimately show ?thesis using bu by simp
qed

lemma wait_writer_ok:
  assumes inv: "sb_inv S E b w r msg k (WRegistered data req t n sp) rp" and run: "runs w k"
  shows "\<exists>k' pc. writer_go b (WRegistered data req t n sp) k = Some (k', pc, []) \<and> sb_inv S E b w r msg k' pc rp \<and>
    sbytes b k' = sbytes b k"
proof -
  note sys = sb_inv_sys [OF inv]
  note c = runs_writer [OF sys run]
  obtain u where u: "xTaskGenericNotifyWait_wait 0 0 n k = Some u" "tinv S E u" "kframe {w} k u"
    and rec: "ucNotifyState (tcb k w) 0 = taskNOTIFICATION_RECEIVED \<Longrightarrow> u = k"
    and blk: "ucNotifyState (tcb k w) 0 \<noteq> taskNOTIFICATION_RECEIVED \<Longrightarrow> ucNotifyState (tcb u w) 0 = taskWAITING_NOTIFICATION"
    by (rule wait_kframe [OF c(1-4), of n]) (simp add: c(5))
  note su = sys_kframe [OF sys u(2,3)] and bu = kframe_buffers [OF u(3)] kframe_sbytes [OF u(3)]
  let ?B = "stream_buffers k b"
  have rdy: "is_ready k w" using run by (auto simp: runs_def running_def)
  have wt: "waiter k w (xTaskWaitingToSend ?B) True False (free_cells ?B < req \<or> r_will_notify rp)"
    using inv by (simp add: sb_inv_def)
  have "waiter u w (xTaskWaitingToSend ?B) False True (free_cells ?B < req \<or> r_will_notify rp)"
  proof (cases "ucNotifyState (tcb k w) 0 = taskNOTIFICATION_RECEIVED")
    case True
    then show ?thesis using rec waiter_goes_on [OF wt rdy] by simp
  next
    case False
    show ?thesis by (rule waiter_blocks [OF wt False blk [OF False]])
  qed
  moreover have "waiter u r (xTaskWaitingToReceive ?B) (r_registered rp) (r_waits rp) (used ?B < xTriggerLevelBytes ?B)"
    using inv waiter_kframe [OF _ u(3)] c(7) by (simp add: sb_inv_def)
  ultimately have "sb_inv S E b w r msg u (WWaiting data req t n sp) rp"
    using inv su bu by (simp add: sb_inv_def)
  then show ?thesis using u(1) bu by (simp add: xStreamBufferSend_wait_def)
qed

lemma wake_writer_ok:
  assumes inv: "sb_inv S E b w r msg k (WWaiting data req t n sp) rp" and run: "runs w k"
  shows "\<exists>k' pc. writer_go b (WWaiting data req t n sp) k = Some (k', pc, []) \<and> sb_inv S E b w r msg k' pc rp \<and>
    sbytes b k' = sbytes b k"
proof -
  note sys = sb_inv_sys [OF inv]
  note c = runs_writer [OF sys run]
  obtain u y where u: "xTaskGenericNotifyWait_end 0 0 k = (u, y)" by (metis surj_pair)
  note v = wait_end_kframe [OF c(1) u, unfolded c(5)]
  note su = sys_kframe [OF sys v] and bu = kframe_buffers [OF v(2)] kframe_sbytes [OF v(2)]
  let ?k = "upd_sb b (xTaskWaitingToSend_update (\<lambda>_. 0)) u" and ?B = "stream_buffers k b"
  obtain e t' n' where e: "xTaskCheckForTimeOut t n ?k = (e, t', n')" by (cases "xTaskCheckForTimeOut t n ?k")
  let ?pc = "if e then WLeft data req sp else WTry data req t' n'"
  have "waiter ?k r (xTaskWaitingToReceive ?B) (r_registered rp) (r_waits rp) (used ?B < xTriggerLevelBytes ?B)"
    using inv waiter_kframe [OF _ v(2)] c(7) by (simp add: sb_inv_def)
  then have "sb_inv S E b w r msg ?k ?pc rp"
    using inv sys_set_waiting(1) [OF su] bu by (auto simp: sb_inv_def waiter_none)
  then show ?thesis using u e bu by (simp add: xStreamBufferSend_wake_def)
qed

lemma space_writer_ok:
  assumes inv: "sb_inv S E b w r msg k (WLeft data req sp) rp"
  shows "\<exists>pc. writer_go b (WLeft data req sp) k = Some (k, pc, []) \<and> sb_inv S E b w r msg k pc rp"
  using inv space_eq [OF sb_inv_sys [OF inv]]
  by (auto simp: xStreamBufferSend_space_def sb_inv_def)


text \<open>Storing and taking change the buffer only.\<close>

lemma appended_fields:
  assumes "appended b xs k k'"
  shows "tcb k' = tcb k" and "is_ready k' t = is_ready k t" and "valid_task k' t = valid_task k t"
    and "pxCurrentTCB k' = pxCurrentTCB k" and "uxSchedulerSuspended k' = uxSchedulerSuspended k"
    and "xIdleTaskHandle k' = xIdleTaskHandle k" and "tinv S E k \<Longrightarrow> tinv S E k'"
    and "is_message (stream_buffers k' b) = is_message (stream_buffers k b)"
    and "xTaskWaitingToReceive (stream_buffers k' b) = xTaskWaitingToReceive (stream_buffers k b)"
    and "xTaskWaitingToSend (stream_buffers k' b) = xTaskWaitingToSend (stream_buffers k b)"
    and "xTriggerLevelBytes (stream_buffers k' b) = xTriggerLevelBytes (stream_buffers k b)"
    and "xLength (stream_buffers k' b) = xLength (stream_buffers k b)"
    and "used (stream_buffers k' b) = used (stream_buffers k b) + length xs"
    and "waiter k' t h i j low = waiter k t h i j low"
proof -
  obtain hd m where k': "k' = upd_sb b (xHead_update (\<lambda>_. hd)) (set_payload m k)" and x: "sbytes b k' = sbytes b k @ xs"
    using assms by (auto simp: appended_def)
  show "tcb k' = tcb k" "is_ready k' t = is_ready k t" "valid_task k' t = valid_task k t" "pxCurrentTCB k' = pxCurrentTCB k"
    "uxSchedulerSuspended k' = uxSchedulerSuspended k" "xIdleTaskHandle k' = xIdleTaskHandle k"
    "is_message (stream_buffers k' b) = is_message (stream_buffers k b)"
    "xTaskWaitingToReceive (stream_buffers k' b) = xTaskWaitingToReceive (stream_buffers k b)"
    "xTaskWaitingToSend (stream_buffers k' b) = xTaskWaitingToSend (stream_buffers k b)"
    "xTriggerLevelBytes (stream_buffers k' b) = xTriggerLevelBytes (stream_buffers k b)"
    "xLength (stream_buffers k' b) = xLength (stream_buffers k b)" "waiter k' t h i j low = waiter k t h i j low"
    using k' by (simp_all add: is_message_def)
  show "tinv S E k \<Longrightarrow> tinv S E k'" using k' upd_sb_tinv set_payload_tinv by blast
  show "used (stream_buffers k' b) = used (stream_buffers k b) + length xs"
    using arg_cong [OF x, of length] by simp
qed

lemma removed_fields:
  assumes "removed b n k k'"
  shows "tcb k' = tcb k" and "is_ready k' t = is_ready k t" and "valid_task k' t = valid_task k t"
    and "pxCurrentTCB k' = pxCurrentTCB k" and "uxSchedulerSuspended k' = uxSchedulerSuspended k"
    and "xIdleTaskHandle k' = xIdleTaskHandle k" and "tinv S E k \<Longrightarrow> tinv S E k'"
    and "is_message (stream_buffers k' b) = is_message (stream_buffers k b)"
    and "xTaskWaitingToReceive (stream_buffers k' b) = xTaskWaitingToReceive (stream_buffers k b)"
    and "xTaskWaitingToSend (stream_buffers k' b) = xTaskWaitingToSend (stream_buffers k b)"
    and "xTriggerLevelBytes (stream_buffers k' b) = xTriggerLevelBytes (stream_buffers k b)"
    and "xLength (stream_buffers k' b) = xLength (stream_buffers k b)"
    and "used (stream_buffers k' b) = used (stream_buffers k b) - n"
    and "waiter k' t h i j low = waiter k t h i j low"
proof -
  obtain u where k': "k' = upd_sb b (xTail_update (\<lambda>_. u)) k" and x: "sbytes b k' = drop n (sbytes b k)"
    using assms by (auto simp: removed_def)
  show "tcb k' = tcb k" "is_ready k' t = is_ready k t" "valid_task k' t = valid_task k t" "pxCurrentTCB k' = pxCurrentTCB k"
    "uxSchedulerSuspended k' = uxSchedulerSuspended k" "xIdleTaskHandle k' = xIdleTaskHandle k"
    "is_message (stream_buffers k' b) = is_message (stream_buffers k b)"
    "xTaskWaitingToReceive (stream_buffers k' b) = xTaskWaitingToReceive (stream_buffers k b)"
    "xTaskWaitingToSend (stream_buffers k' b) = xTaskWaitingToSend (stream_buffers k b)"
    "xTriggerLevelBytes (stream_buffers k' b) = xTriggerLevelBytes (stream_buffers k b)"
    "xLength (stream_buffers k' b) = xLength (stream_buffers k b)" "waiter k' t h i j low = waiter k t h i j low"
    using k' by (simp_all add: is_message_def)
  show "tinv S E k \<Longrightarrow> tinv S E k'" using k' upd_sb_tinv by blast
  show "used (stream_buffers k' b) = used (stream_buffers k b) - n"
    using arg_cong [OF x, of length] by simp
qed

lemma sb_ok_after: "appended b xs k k' \<Longrightarrow> sb_ok (stream_buffers k' b)" "removed b n k k' \<Longrightarrow> sb_ok (stream_buffers k' b)"
  by (simp_all add: appended_def removed_def)

lemma sbytes_after: "appended b xs k k' \<Longrightarrow> sbytes b k' = sbytes b k @ xs" "removed b n k k' \<Longrightarrow> sbytes b k' = drop n (sbytes b k)"
  by (simp_all add: appended_def removed_def)

text \<open>What a write adds: the data it takes, as bytes, or a whole message.\<close>

lemma write_ok:
  assumes sys: "sys_ok S E b w r msg k" and f: "fits msg data req" and sp: "sp \<le> free_cells (stream_buffers k b)"
  obtains k' n xs where "prvWriteMessageToBuffer b data sp req k = Some (k', n)" and "appended b xs k k'"
    and "sys_ok S E b w r msg k'" and "flows msg (sbytes b k) (if n > 0 then [take n data] else []) [] (sbytes b k')"
    and "n = 0 \<longleftrightarrow> xs = []" and "n = 0 \<longrightarrow> used (stream_buffers k' b) = used (stream_buffers k b)"
proof -
  let ?B = "stream_buffers k b"
  have B: "sb_ok ?B" "is_message ?B = msg" "msg \<longrightarrow> framing (sbytes b k)" using sys by (simp_all add: sys_ok_def)
  have step: "sys_ok S E b w r msg k'" if "appended b xs k k'" "msg \<longrightarrow> framing (sbytes b k')" for k' xs
    using sys that(2) sb_ok_after(1) [OF that(1)] appended_fields [OF that(1)] by (simp add: sys_ok_def)
  show ?thesis
  proof (cases msg)
    case False
    obtain k' where k': "prvWriteMessageToBuffer b data sp req k = Some (k', min (length data) sp)"
      "appended b (take sp data) k k'"
      using write_stream_ok [OF B(1) HOL.refl _ sp] B(2) False by blast
    have e: "take (min (length data) sp) data = take sp data" by (simp add: min_def)
    have z: "min (length data) sp = 0 \<longleftrightarrow> take sp data = []" by (auto simp: min_def)
    have "flows msg (sbytes b k) (if min (length data) sp > 0 then [take (min (length data) sp) data] else []) [] (sbytes b k')"
      using False sbytes_after(1) [OF k'(2)] z e by (auto simp: flows_def)
    moreover have "sys_ok S E b w r msg k'" by (rule step [OF k'(2)]) (use False in simp)
    ultimately show ?thesis using that [OF k'] z appended_fields(13) [OF k'(2)] by simp
  next
    case True
    then have d: "length data < w32" "req = length data + 4" using f by (simp_all add: fits_def)
    let ?xs = "if req \<le> sp \<and> data \<noteq> [] then framed data else []" and ?n = "if req \<le> sp then length data else 0"
    obtain k' where k': "prvWriteMessageToBuffer b data sp req k = Some (k', ?n)" "appended b ?xs k k'"
      using write_message_ok [OF B(1) HOL.refl _ sp d] B(2) True by blast
    have z: "?n = 0 \<longleftrightarrow> ?xs = []" by (auto simp: framed_def le_bytes_def)
    have fr: "framing (sbytes b k')"
      and fl: "flows msg (sbytes b k) (if ?n > 0 then [take ?n data] else []) [] (sbytes b k')"
      using True B(3) d sbytes_after(1) [OF k'(2)] framing_append [of "sbytes b k" data]
      by (auto simp: whole_message_def flows_def)
    show ?thesis using that [OF k' step [OF k'(2)] fl z] fr z appended_fields(13) [OF k'(2)] by simp
  qed
qed

lemma first_fits_append:
  assumes "first_fits bs n" and "framing (bs @ xs)"
  shows "first_fits (bs @ xs) n"
proof -
  obtain x rest where x: "bs = framed x @ rest" "whole_message x" "length (framed x) \<le> n"
    using assms(1) by (auto simp: first_fits_def)
  obtain ms where ms: "framed x @ rest @ xs = concat (map framed ms)" "\<forall>x \<in> set ms. whole_message x"
    using assms(2) x(1) by (auto simp: framing_def)
  have u: "unframe (framed x @ rest @ xs) = ms" using unframe_all [OF ms(2), of "[]"] ms(1) by simp
  then have "ms = x # tl ms" using unframe_framed [OF x(2), of "rest @ xs"] by (cases ms) auto
  then have "framed x @ rest @ xs = framed x @ concat (map framed (tl ms))" and "\<forall>x \<in> set (tl ms). whole_message x"
    using ms by (metis concat.simps(2) list.simps(9), metis ms(2) list.set_sel(2) list.sel(2))
  then have "framing (rest @ xs)" by (auto simp: framing_def)
  then show ?thesis using x unfolding first_fits_def by (intro exI [of _ x] exI [of _ "rest @ xs"]) simp
qed


lemma reader_ok_append: "reader_ok msg bs rp \<Longrightarrow> (msg \<Longrightarrow> framing (bs @ xs)) \<Longrightarrow> reader_ok msg (bs @ xs) rp"
  by (cases rp) (auto intro: first_fits_append)

lemma write_writer_ok:
  assumes inv: "sb_inv S E b w r msg k (WCopy data req sp) rp"
  shows "\<exists>k' n. prvWriteMessageToBuffer b data sp req k = Some (k', n) \<and> sb_inv S E b w r msg k' (WCopied n) rp \<and>
    flows msg (sbytes b k) (if n > 0 then [take n data] else []) [] (sbytes b k')"
proof -
  let ?B = "stream_buffers k b"
  have f: "fits msg data req" "sp \<le> free_cells ?B" using inv by (simp_all add: sb_inv_def)
  obtain k' n xs where k': "prvWriteMessageToBuffer b data sp req k = Some (k', n)" "appended b xs k k'" "sys_ok S E b w r msg k'"
    "flows msg (sbytes b k) (if n > 0 then [take n data] else []) [] (sbytes b k')" "n = 0 \<longleftrightarrow> xs = []"
    "n = 0 \<longrightarrow> used (stream_buffers k' b) = used ?B"
    by (rule write_ok [OF sb_inv_sys [OF inv] f])
  note af = appended_fields [OF k'(2)]
  have fr: "msg \<Longrightarrow> framing (sbytes b k')" using k'(3) by (simp add: sys_ok_def)
  have "reader_ok msg (sbytes b k') rp"
    using inv reader_ok_append [of msg "sbytes b k" rp xs] fr by (simp add: sb_inv_def sbytes_after(1) [OF k'(2)])
  moreover have "waiter k r (xTaskWaitingToReceive ?B) (r_registered rp) (r_waits rp) (used ?B < xTriggerLevelBytes ?B)"
    using inv by (simp add: sb_inv_def)
  then have "waiter k r (xTaskWaitingToReceive ?B) (r_registered rp) (r_waits rp)
      (used (stream_buffers k' b) < xTriggerLevelBytes ?B \<or> 0 < n)"
    by (rule waiter_low) (use k'(6) in auto)
  moreover have "xTaskWaitingToSend ?B = 0" using inv by (simp add: sb_inv_def waiter_none)
  ultimately have "sb_inv S E b w r msg k' (WCopied n) rp"
    using k'(3) by (simp add: sb_inv_def af)
  then show ?thesis using k'(1,4) by blast
qed

text \<open>After telling the reader, nobody is registered to receive; the same for the writer.\<close>

definition told_reader :: "nat \<Rightarrow> nat \<Rightarrow> nat \<Rightarrow> nat \<Rightarrow> nat \<Rightarrow> bool \<Rightarrow> 'a skernel_scheme \<Rightarrow> 'a skernel_scheme \<Rightarrow> bool" where
  "told_reader S E b w r msg k k' \<longleftrightarrow>
     sys_ok S E b w r msg k' \<and> stream_buffers k' b = (stream_buffers k b)\<lparr>xTaskWaitingToReceive := 0\<rparr> \<and>
     sbytes b k' = sbytes b k \<and>
     (\<forall>i j low low'. waiter k r (xTaskWaitingToReceive (stream_buffers k b)) i j low \<longrightarrow> waiter k' r 0 i j low') \<and>
     (\<forall>h i j low. waiter k w h i j low \<longrightarrow> waiter k' w h i j low)"

definition told_writer :: "nat \<Rightarrow> nat \<Rightarrow> nat \<Rightarrow> nat \<Rightarrow> nat \<Rightarrow> bool \<Rightarrow> 'a skernel_scheme \<Rightarrow> 'a skernel_scheme \<Rightarrow> bool" where
  "told_writer S E b w r msg k k' \<longleftrightarrow>
     sys_ok S E b w r msg k' \<and> stream_buffers k' b = (stream_buffers k b)\<lparr>xTaskWaitingToSend := 0\<rparr> \<and>
     sbytes b k' = sbytes b k \<and>
     (\<forall>i j low low'. waiter k w (xTaskWaitingToSend (stream_buffers k b)) i j low \<longrightarrow> waiter k' w 0 i j low') \<and>
     (\<forall>h i j low. waiter k r h i j low \<longrightarrow> waiter k' r h i j low)"

lemma waiter_unregistered: "waiter k t 0 i j low \<Longrightarrow> waiter k t 0 i j low'"
  by (simp add: waiter_def)

text \<open>A step of the kernel alone, when nobody is registered.\<close>

lemma told_nobody:
  assumes "sys_ok S E b w r msg k" and "tinv S E k'" and "kframe {} k k'"
  shows "xTaskWaitingToReceive (stream_buffers k b) = 0 \<Longrightarrow> told_reader S E b w r msg k k'"
    and "xTaskWaitingToSend (stream_buffers k b) = 0 \<Longrightarrow> told_writer S E b w r msg k k'"
proof -
  have wk: "waiter k t h i j low \<Longrightarrow> waiter k' t h i j low" for t h i j low
    by (rule waiter_kframe [OF _ assms(3)]) simp_all
  have clear: "B\<lparr>xTaskWaitingToReceive := 0\<rparr> = B" if "xTaskWaitingToReceive B = 0" for B
    using that by (cases B) simp
  have clear': "B\<lparr>xTaskWaitingToSend := 0\<rparr> = B" if "xTaskWaitingToSend B = 0" for B
    using that by (cases B) simp
  note f = sys_kframe [OF assms] kframe_buffers [OF assms(3)] kframe_sbytes [OF assms(3), of b]
  show "told_reader S E b w r msg k k'" if z: "xTaskWaitingToReceive (stream_buffers k b) = 0"
    unfolding told_reader_def f(2,3) clear [OF z] z using f(1) wk waiter_unregistered by blast
  show "told_writer S E b w r msg k k'" if z: "xTaskWaitingToSend (stream_buffers k b) = 0"
    unfolding told_writer_def f(2,3) clear' [OF z] z using f(1) wk waiter_unregistered by blast
qed

text \<open>A notification of the registered task, and the handle cleared.\<close>

lemma told_registered:
  assumes sys: "sys_ok S E b w r msg k" and inv: "tinv S E k'"
  shows "kframe {r} (upd_sb b (xTaskWaitingToReceive_update (\<lambda>_. 0)) k) k' \<Longrightarrow> notified_ready r k k' \<Longrightarrow>
      told_reader S E b w r msg k k'"
    and "kframe {w} (upd_sb b (xTaskWaitingToSend_update (\<lambda>_. 0)) k) k' \<Longrightarrow> notified_ready w k k' \<Longrightarrow>
      told_writer S E b w r msg k k'"
proof -
  have ne: "w \<noteq> r" using sys by (simp add: sys_ok_def)
  show "told_reader S E b w r msg k k'"
    if f: "kframe {r} (upd_sb b (xTaskWaitingToReceive_update (\<lambda>_. 0)) k) k'" and n: "notified_ready r k k'"
  proof -
    have "waiter k' w h i j low" if "waiter k w h i j low" for h i j low
      by (rule waiter_kframe [OF _ f]) (use that ne in simp_all)
    moreover have "waiter k' r 0 i j low'" if "waiter k r h i j low" for h i j low low'
      by (rule waiter_notified [OF that n])
    ultimately show ?thesis
      using sys_kframe [OF sys_set_waiting(2) [OF sys] inv f] kframe_buffers [OF f] kframe_sbytes [OF f, of b]
      by (auto simp: told_reader_def)
  qed
  show "told_writer S E b w r msg k k'"
    if f: "kframe {w} (upd_sb b (xTaskWaitingToSend_update (\<lambda>_. 0)) k) k'" and n: "notified_ready w k k'"
  proof -
    have "waiter k' r h i j low" if "waiter k r h i j low" for h i j low
      by (rule waiter_kframe [OF _ f]) (use that ne in simp_all)
    moreover have "waiter k' w 0 i j low'" if "waiter k w h i j low" for h i j low low'
      by (rule waiter_notified [OF that n])
    ultimately show ?thesis
      using sys_kframe [OF sys_set_waiting(1) [OF sys] inv f] kframe_buffers [OF f] kframe_sbytes [OF f, of b]
      by (auto simp: told_writer_def)
  qed
qed

lemma sys_notify:
  assumes "sys_ok S E b w r msg k"
  shows "tinv S E k" and "uxSchedulerSuspended k = 0" and "valid_task k r" and "valid_task k w" and "r \<noteq> 0" and "w \<noteq> 0" and "b \<noteq> 0"
  using assms ktasks_nz [OF tinv_kinv, of S E k] by (auto simp: sys_ok_def valid_task_def)

lemma prvSEND_COMPLETED_ok:
  assumes sys: "sys_ok S E b w r msg k" and h: "xTaskWaitingToReceive (stream_buffers k b) \<in> {0, r}"
  shows "\<exists>k'. prvSEND_COMPLETED b k = Some k' \<and> told_reader S E b w r msg k k'"
proof -
  note c = sys_notify [OF sys]
  have sb: "stream_buffers (vTaskSuspendAll k) = stream_buffers k" by (simp add: vTaskSuspendAll_def)
  show ?thesis
  proof (cases "xTaskWaitingToReceive (stream_buffers k b) = 0")
    case True
    obtain k' y where "xTaskResumeAll (vTaskSuspendAll k) = Some (k', y)" "tinv S E k'" "kframe {} k k'"
      by (rule suspend_resume [OF c(1,2)])
    then show ?thesis using True told_nobody(1) [OF sys] by (simp add: prvSEND_COMPLETED_def sb Let_def)
  next
    case False
    then have hr: "xTaskWaitingToReceive (stream_buffers k b) = r" using h by simp
    obtain u q k' y where "xTaskGenericNotify r 0 0 eNoAction (vTaskSuspendAll k) = Some (u, q)"
      "xTaskResumeAll (upd_sb b (xTaskWaitingToReceive_update (\<lambda>_. 0)) u) = Some (k', y)" "tinv S E k'"
      "kframe {r} (upd_sb b (xTaskWaitingToReceive_update (\<lambda>_. 0)) k) k'" "notified_ready r k k'"
      by (rule suspended_notify [OF c(1-3), where b = b and f = "xTaskWaitingToReceive_update (\<lambda>_. 0)"])
    then show ?thesis using c hr told_registered(1) [OF sys] by (simp add: prvSEND_COMPLETED_def sb Let_def)
  qed
qed

lemma prvRECEIVE_COMPLETED_ok:
  assumes sys: "sys_ok S E b w r msg k" and h: "xTaskWaitingToSend (stream_buffers k b) \<in> {0, w}"
  shows "\<exists>k'. prvRECEIVE_COMPLETED b k = Some k' \<and> told_writer S E b w r msg k k'"
proof -
  note c = sys_notify [OF sys]
  have sb: "stream_buffers (vTaskSuspendAll k) = stream_buffers k" by (simp add: vTaskSuspendAll_def)
  show ?thesis
  proof (cases "xTaskWaitingToSend (stream_buffers k b) = 0")
    case True
    obtain k' y where "xTaskResumeAll (vTaskSuspendAll k) = Some (k', y)" "tinv S E k'" "kframe {} k k'"
      by (rule suspend_resume [OF c(1,2)])
    then show ?thesis using True told_nobody(2) [OF sys] by (simp add: prvRECEIVE_COMPLETED_def sb Let_def)
  next
    case False
    then have hr: "xTaskWaitingToSend (stream_buffers k b) = w" using h by simp
    obtain u q k' y where "xTaskGenericNotify w 0 0 eNoAction (vTaskSuspendAll k) = Some (u, q)"
      "xTaskResumeAll (upd_sb b (xTaskWaitingToSend_update (\<lambda>_. 0)) u) = Some (k', y)" "tinv S E k'"
      "kframe {w} (upd_sb b (xTaskWaitingToSend_update (\<lambda>_. 0)) k) k'" "notified_ready w k k'"
      by (rule suspended_notify [OF c(1,2,4), where b = b and f = "xTaskWaitingToSend_update (\<lambda>_. 0)"])
    then show ?thesis using c hr told_registered(2) [OF sys] by (simp add: prvRECEIVE_COMPLETED_def sb Let_def)
  qed
qed

text \<open>The same in interrupts.\<close>

lemma kframe_upd_sb:
  fixes k u :: "'a skernel_scheme"
  assumes "kframe T k u"
  shows "kframe T (upd_sb b f k) (upd_sb b f u)"
proof -
  have "kernel.more (upd_sb b f u) = kernel.more (upd_sb b f k)"
    using assms kframe_buffers [OF assms] by (cases u; cases k) (simp add: kframe_def upd_sb_def)
  then show ?thesis using assms by (simp add: kframe_def)
qed

lemma notified_upd_sb [simp]: "notified_ready t k (upd_sb b f u) = notified_ready t k u"
  by (simp add: notified_ready_def)

lemma isr_send_ok:
  assumes sys: "sys_ok S E b w r msg k" and h: "xTaskWaitingToReceive (stream_buffers k b) \<in> {0, r}"
  shows "\<exists>k' y. prvSEND_COMPLETE_FROM_ISR b woken k = Some (k', y) \<and> told_reader S E b w r msg k k'"
proof (cases "xTaskWaitingToReceive (stream_buffers k b) = 0")
  case True
  then show ?thesis
    using told_nobody(1) [OF sys sys_notify(1) [OF sys] kframe_refl] by (simp add: prvSEND_COMPLETE_FROM_ISR_def)
next
  case False
  note c = sys_notify [OF sys]
  have hr: "xTaskWaitingToReceive (stream_buffers k b) = r" using False h by simp
  obtain u q y where u: "xTaskGenericNotifyFromISR r 0 0 eNoAction k = Some (u, q, y)" "tinv S E u" "kframe {r} k u"
    "notified_ready r k u"
    by (rule notify_isr_kframe [OF c(1,3,2)])
  let ?k = "upd_sb b (xTaskWaitingToReceive_update (\<lambda>_. 0)) u"
  have "told_reader S E b w r msg k ?k"
    by (rule told_registered(1) [OF sys upd_sb_tinv [OF u(2)] kframe_upd_sb [OF u(3)]]) (use u(4) in simp)
  then show ?thesis using u(1) hr c by (cases y) (auto simp: prvSEND_COMPLETE_FROM_ISR_def)
qed

lemma isr_receive_ok:
  assumes sys: "sys_ok S E b w r msg k" and h: "xTaskWaitingToSend (stream_buffers k b) \<in> {0, w}"
  shows "\<exists>k' y. prvRECEIVE_COMPLETED_FROM_ISR b woken k = Some (k', y) \<and> told_writer S E b w r msg k k'"
proof (cases "xTaskWaitingToSend (stream_buffers k b) = 0")
  case True
  then show ?thesis
    using told_nobody(2) [OF sys sys_notify(1) [OF sys] kframe_refl] by (simp add: prvRECEIVE_COMPLETED_FROM_ISR_def)
next
  case False
  note c = sys_notify [OF sys]
  have hr: "xTaskWaitingToSend (stream_buffers k b) = w" using False h by simp
  obtain u q y where u: "xTaskGenericNotifyFromISR w 0 0 eNoAction k = Some (u, q, y)" "tinv S E u" "kframe {w} k u"
    "notified_ready w k u"
    by (rule notify_isr_kframe [OF c(1,4,2)])
  let ?k = "upd_sb b (xTaskWaitingToSend_update (\<lambda>_. 0)) u"
  have "told_writer S E b w r msg k ?k"
    by (rule told_registered(2) [OF sys upd_sb_tinv [OF u(2)] kframe_upd_sb [OF u(3)]]) (use u(4) in simp)
  then show ?thesis using u(1) hr c by (cases y) (auto simp: prvRECEIVE_COMPLETED_FROM_ISR_def)
qed


lemma handles:
  assumes "sb_inv S E b w r msg k wp rp"
  shows "xTaskWaitingToReceive (stream_buffers k b) \<in> {0, r}" and "xTaskWaitingToSend (stream_buffers k b) \<in> {0, w}"
    and "prvBytesInBuffer (stream_buffers k b) = used (stream_buffers k b)"
  using assms by (auto simp: sb_inv_def sys_ok_def waiter_def bytes_in_buffer)

text \<open>The writer has told the reader, or had nothing to tell it.\<close>

lemma writer_told:
  assumes inv: "sb_inv S E b w r msg k (WCopied n) rp"
  shows "told_reader S E b w r msg k k' \<Longrightarrow> sb_inv S E b w r msg k' WIdle rp"
    and "\<not> (n > 0 \<and> used (stream_buffers k b) \<ge> xTriggerLevelBytes (stream_buffers k b)) \<Longrightarrow> sb_inv S E b w r msg k WIdle rp"
proof -
  let ?B = "stream_buffers k b"
  have wr: "waiter k r (xTaskWaitingToReceive ?B) (r_registered rp) (r_waits rp) (used ?B < xTriggerLevelBytes ?B \<or> n > 0)"
    and h: "xTaskWaitingToSend ?B = 0" and rd: "reader_ok msg (sbytes b k) rp"
    using inv by (simp_all add: sb_inv_def waiter_none)
  show "sb_inv S E b w r msg k' WIdle rp" if t: "told_reader S E b w r msg k k'"
  proof -
    have "waiter k' r 0 (r_registered rp) (r_waits rp) low" for low
      using t wr unfolding told_reader_def by blast
    then show ?thesis using t h rd by (simp add: told_reader_def sb_inv_def)
  qed
  show "sb_inv S E b w r msg k WIdle rp"
    if n: "\<not> (n > 0 \<and> used ?B \<ge> xTriggerLevelBytes ?B)"
  proof -
    have "waiter k r (xTaskWaitingToReceive ?B) (r_registered rp) (r_waits rp) (used ?B < xTriggerLevelBytes ?B)"
      by (rule waiter_low [OF wr]) (use n in auto)
    then show ?thesis using inv h by (simp add: sb_inv_def)
  qed
qed

lemma told_sbytes: "told_reader S E b w r msg k k' \<Longrightarrow> sbytes b k' = sbytes b k"
  "told_writer S E b w r msg k k' \<Longrightarrow> sbytes b k' = sbytes b k"
  by (simp_all add: told_reader_def told_writer_def)

lemma notify_writer_ok:
  assumes inv: "sb_inv S E b w r msg k (WCopied n) rp"
  shows "\<exists>k'. writer_go b (WCopied n) k = Some (k', WIdle, []) \<and> sb_inv S E b w r msg k' WIdle rp \<and> sbytes b k' = sbytes b k"
proof -
  note hd = handles [OF inv]
  show ?thesis
  proof (cases "n > 0 \<and> used (stream_buffers k b) \<ge> xTriggerLevelBytes (stream_buffers k b)")
    case True
    obtain k' where k': "prvSEND_COMPLETED b k = Some k'" "told_reader S E b w r msg k k'"
      using prvSEND_COMPLETED_ok [OF sb_inv_sys [OF inv] hd(1)] by blast
    then show ?thesis
      using True hd(3) writer_told(1) [OF inv k'(2)] told_sbytes(1) by (auto simp: xStreamBufferSend_complete_def)
  next
    case False
    then show ?thesis using hd(3) writer_told(2) [OF inv] by (auto simp: xStreamBufferSend_complete_def)
  qed
qed

lemma isr_writer_ok:
  assumes inv: "sb_inv S E b w r msg k WIdle rp" and d: "sendable data"
  shows "\<exists>k' a. writer_step b (SendISR data) WIdle k = Some (k', WIdle, a) \<and> sb_inv S E b w r msg k' WIdle rp \<and>
    flows msg (sbytes b k) a [] (sbytes b k')"
proof -
  let ?B = "stream_buffers k b" and ?n = "length data"
  let ?req = "if is_message ?B then wadd ?n sbBYTES_TO_STORE_MESSAGE_LENGTH else ?n" and ?sp = "free_cells ?B"
  note sys = sb_inv_sys [OF inv]
  have m: "is_message ?B = msg" and nz: "b \<noteq> 0" using sys by (simp_all add: sys_ok_def)
  have f: "fits msg data ?req"
    using d m by (simp add: fits_def sendable_def sbBYTES_TO_STORE_MESSAGE_LENGTH_def)
  then have i: "sb_inv S E b w r msg k (WCopy data ?req ?sp) rp"
    using inv by (simp add: sb_inv_def waiter_none)
  obtain k1 n where k1: "prvWriteMessageToBuffer b data ?sp ?req k = Some (k1, n)" "sb_inv S E b w r msg k1 (WCopied n) rp"
    "flows msg (sbytes b k) (if n > 0 then [take n data] else []) [] (sbytes b k1)"
    using write_writer_ok [OF i] by blast
  note hd = handles [OF k1(2)]
  show ?thesis
  proof (cases "n > 0 \<and> used (stream_buffers k1 b) \<ge> xTriggerLevelBytes (stream_buffers k1 b)")
    case True
    obtain k' y where k': "prvSEND_COMPLETE_FROM_ISR b False k1 = Some (k', y)" "told_reader S E b w r msg k1 k'"
      using isr_send_ok [OF sb_inv_sys [OF k1(2)] hd(1)] by blast
    have "xStreamBufferSendFromISR b (Some data) False k = Some (k', n, y)"
      using k1(1) k'(1) True hd(3) nz space_eq [OF sys]
      by (simp add: xStreamBufferSendFromISR_def configASSERT_def bytes_of_def Let_def)
    then show ?thesis using writer_told(1) [OF k1(2) k'(2)] told_sbytes(1) [OF k'(2)] k1(3) by simp
  next
    case False
    have "xStreamBufferSendFromISR b (Some data) False k = Some (k1, n, False)"
      using k1(1) False hd(3) nz space_eq [OF sys]
      by (auto simp: xStreamBufferSendFromISR_def configASSERT_def bytes_of_def Let_def)
    then show ?thesis using writer_told(2) [OF k1(2) False] k1(3) by simp
  qed
qed

lemma writer_go_ok:
  assumes inv: "sb_inv S E b w r msg k wp rp" and run: "runs w k" and pc: "wp \<noteq> WIdle"
  shows "\<exists>k' pc a. writer_go b wp k = Some (k', pc, a) \<and> sb_inv S E b w r msg k' pc rp \<and>
    flows msg (sbytes b k) a [] (sbytes b k')"
proof (cases wp)
  case (WTry data req t n)
  then show ?thesis using register_writer_ok [of S E b w r msg k data req t n rp] inv run by (metis flows_none)
next
  case (WRegistered data req t n sp)
  then show ?thesis using wait_writer_ok [of S E b w r msg k data req t n sp rp] inv run by (metis flows_none)
next
  case (WWaiting data req t n sp)
  then show ?thesis using wake_writer_ok [of S E b w r msg k data req t n sp rp] inv run by (metis flows_none)
next
  case (WLeft data req sp)
  then show ?thesis using space_writer_ok [of S E b w r msg k data req sp rp] inv by (metis flows_none)
next
  case (WCopy data req sp)
  then show ?thesis using write_writer_ok [of S E b w r msg k data req sp rp] inv by auto
next
  case (WCopied n)
  then show ?thesis using notify_writer_ok [of S E b w r msg k n rp] inv by (metis flows_none)
qed (use pc in simp)

section \<open>The steps of the reader\<close>

lemma stored_fits:
  assumes sys: "sys_ok S E b w r msg k" and "msg" and "used (stream_buffers k b) > 0"
  shows "first_fits (sbytes b k) (used (stream_buffers k b))"
proof -
  have ne: "sbytes b k \<noteq> []" using assms(3) length_sbytes [of b k] by (metis list.size(3) less_numeral_extra(3))
  have fr: "framing (sbytes b k)" using sys assms(2) by (simp add: sys_ok_def)
  obtain x rest where x: "sbytes b k = framed x @ rest" "whole_message x" "framing rest"
    by (rule framing_first [OF fr ne])
  then have "length (framed x) \<le> used (stream_buffers k b)" using length_sbytes [of b k] by (metis length_append le_add1)
  then show ?thesis unfolding first_fits_def using x by blast
qed

lemma register_reader_ok:
  assumes inv: "sb_inv S E b w r msg k wp (RTry len n)" and run: "runs r k"
  shows "\<exists>k' pc. reader_go b (RTry len n) k = Some (k', pc, []) \<and> sb_inv S E b w r msg k' wp pc \<and> sbytes b k' = sbytes b k"
proof -
  let ?B = "stream_buffers k b"
  note sys = sb_inv_sys [OF inv]
  have B: "is_message ?B = msg" "msg \<longrightarrow> framing (sbytes b k)" using sys by (simp_all add: sys_ok_def)
  have h: "xTaskWaitingToReceive ?B = 0" using inv by (simp add: sb_inv_def waiter_none)
  have ff: "first_fits (sbytes b k) (used ?B)" if "msg" "used ?B > 0"
    using stored_fits [OF sys] that .
  show ?thesis
  proof (cases "used ?B \<le> length_bytes ?B")
    case False
    then show ?thesis
      using inv handles(3) [OF inv] ff B(1) h
      by (auto simp: xStreamBufferReceive_register_def sb_inv_def Let_def)
  next
    case True
    note c = runs_reader [OF sys run]
    have z: "used ?B = 0"
    proof (rule ccontr)
      assume p: "used ?B \<noteq> 0"
      show False
      proof (cases msg)
        case m: True
        with ff p obtain x where "whole_message x" "length (framed x) \<le> used ?B" by (auto simp: first_fits_def)
        then have "4 < used ?B" by (auto simp: whole_message_def simp flip: length_greater_0_conv)
        then show False using True m B(1) by (simp add: length_bytes_def sbBYTES_TO_STORE_MESSAGE_LENGTH_def)
      qed (use True p B(1) in \<open>simp add: length_bytes_def\<close>)
    qed
    obtain u y where u: "xTaskGenericNotifyStateClear 0 0 k = Some (u, y)" "tinv S E u" "kframe {r} k u"
      "pxCurrentTCB u = r" "ucNotifyState (tcb u r) 0 \<noteq> taskNOTIFICATION_RECEIVED"
      using clear_kframe [OF c(1)] c(5) by metis
    note su = sys_kframe [OF sys u(2,3)] and bu = kframe_buffers [OF u(3)] kframe_sbytes [OF u(3)]
    let ?k = "upd_sb b (xTaskWaitingToReceive_update (\<lambda>_. r)) u"
    have lb: "length_bytes (?B\<lparr>xTaskWaitingToReceive := r\<rparr>) = length_bytes ?B" by (simp add: length_bytes_def)
    have "reader_go b (RTry len n) k = Some (?k, RRegistered len n, [])"
      using True u bu h handles(3) [OF inv] lb by (simp add: xStreamBufferReceive_register_def configASSERT_def Let_def)
    moreover have "waiter ?k w (xTaskWaitingToSend ?B) (w_registered wp) (w_waits wp) (free_cells ?B < w_wants wp)"
      using inv waiter_kframe [OF _ u(3)] c(7) by (simp add: sb_inv_def)
    moreover have "used ?B < xTriggerLevelBytes ?B" using z c(9) by (simp add: sb_ok_def)
    ultimately show ?thesis
      using inv sys_set_waiting(2) [OF su] bu by (simp add: sb_inv_def waiter_def [of _ r])
  qed
qed

lemma wait_reader_ok:
  assumes inv: "sb_inv S E b w r msg k wp (RRegistered len n)" and run: "runs r k"
  shows "\<exists>k' pc. reader_go b (RRegistered len n) k = Some (k', pc, []) \<and> sb_inv S E b w r msg k' wp pc \<and> sbytes b k' = sbytes b k"
proof -
  note sys = sb_inv_sys [OF inv]
  note c = runs_reader [OF sys run]
  obtain u where u: "xTaskGenericNotifyWait_wait 0 0 n k = Some u" "tinv S E u" "kframe {r} k u"
    and rec: "ucNotifyState (tcb k r) 0 = taskNOTIFICATION_RECEIVED \<Longrightarrow> u = k"
    and blk: "ucNotifyState (tcb k r) 0 \<noteq> taskNOTIFICATION_RECEIVED \<Longrightarrow> ucNotifyState (tcb u r) 0 = taskWAITING_NOTIFICATION"
    by (rule wait_kframe [OF c(1-4), of n]) (simp add: c(5))
  note su = sys_kframe [OF sys u(2,3)] and bu = kframe_buffers [OF u(3)] kframe_sbytes [OF u(3)]
  let ?B = "stream_buffers k b"
  have rdy: "is_ready k r" using run by (auto simp: runs_def running_def)
  have wt: "waiter k r (xTaskWaitingToReceive ?B) True False (used ?B < xTriggerLevelBytes ?B \<or> w_will_notify wp)"
    using inv by (simp add: sb_inv_def)
  have "waiter u r (xTaskWaitingToReceive ?B) False True (used ?B < xTriggerLevelBytes ?B \<or> w_will_notify wp)"
  proof (cases "ucNotifyState (tcb k r) 0 = taskNOTIFICATION_RECEIVED")
    case True
    then show ?thesis using rec waiter_goes_on [OF wt rdy] by simp
  next
    case False
    show ?thesis by (rule waiter_blocks [OF wt False blk [OF False]])
  qed
  moreover have "waiter u w (xTaskWaitingToSend ?B) (w_registered wp) (w_waits wp) (free_cells ?B < w_wants wp)"
    using inv waiter_kframe [OF _ u(3)] c(7) by (simp add: sb_inv_def)
  ultimately have "sb_inv S E b w r msg u wp (RWaiting len)"
    using inv su bu by (simp add: sb_inv_def)
  then show ?thesis using u(1) bu by (simp add: xStreamBufferReceive_wait_def)
qed

lemma wake_reader_ok:
  assumes inv: "sb_inv S E b w r msg k wp (RWaiting len)" and run: "runs r k"
  shows "\<exists>k' pc. reader_go b (RWaiting len) k = Some (k', pc, []) \<and> sb_inv S E b w r msg k' wp pc \<and> sbytes b k' = sbytes b k"
proof -
  note sys = sb_inv_sys [OF inv]
  note c = runs_reader [OF sys run]
  obtain u y where u: "xTaskGenericNotifyWait_end 0 0 k = (u, y)" by (metis surj_pair)
  note v = wait_end_kframe [OF c(1) u, unfolded c(5)]
  note su = sys_kframe [OF sys v] and bu = kframe_buffers [OF v(2)] kframe_sbytes [OF v(2)]
  let ?k = "upd_sb b (xTaskWaitingToReceive_update (\<lambda>_. 0)) u" and ?B = "stream_buffers k b"
  have "waiter ?k w (xTaskWaitingToSend ?B) (w_registered wp) (w_waits wp) (free_cells ?B < w_wants wp)"
    using inv waiter_kframe [OF _ v(2)] c(7) by (simp add: sb_inv_def)
  then have "sb_inv S E b w r msg ?k wp (RLeft len)"
    using inv sys_set_waiting(2) [OF su] bu by (auto simp: sb_inv_def waiter_none)
  then show ?thesis using u bu by (simp add: xStreamBufferReceive_wake_def)
qed


lemma sample_reader_ok:
  assumes inv: "sb_inv S E b w r msg k wp (RLeft len)"
  shows "\<exists>pc. reader_go b (RLeft len) k = Some (k, pc, []) \<and> sb_inv S E b w r msg k wp pc"
proof -
  have "first_fits (sbytes b k) (used (stream_buffers k b))" if "msg" "used (stream_buffers k b) > 4"
    using stored_fits [OF sb_inv_sys [OF inv]] that by simp
  then show ?thesis using inv handles(3) [OF inv] by (simp add: sb_inv_def)
qed

text \<open>What a read takes: some bytes, or a whole message that fits into the buffer given.\<close>

lemma read_ok:
  assumes sys: "sys_ok S E b w r msg k" and rd: "reader_ok msg (sbytes b k) (RGot len av)"
  obtains k' x n where "xStreamBufferReceive_read b len av k = Some (k', x)" and "removed b n k k'"
    and "sys_ok S E b w r msg k'" and "flows msg (sbytes b k) [] (if x \<noteq> [] then [x] else []) (sbytes b k')"
    and "x = [] \<longleftrightarrow> n = 0"
proof -
  let ?B = "stream_buffers k b"
  have B: "sb_ok ?B" "is_message ?B = msg" using sys by (simp_all add: sys_ok_def)
  have av: "av \<le> used ?B" using rd by simp
  have step: "sys_ok S E b w r msg k'" if "removed b n k k'" "msg \<longrightarrow> framing (sbytes b k')" for k' n
    using sys that(2) sb_ok_after(2) [OF that(1)] removed_fields [OF that(1)] by (simp add: sys_ok_def)
  show ?thesis
  proof (cases "av > length_bytes ?B")
    case False
    have "xStreamBufferReceive_read b len av k = Some (k, [])" using False by (simp add: xStreamBufferReceive_read_def)
    then show ?thesis using that [of k "[]" 0] removed_none [OF B(1)] sys by simp
  next
    case True
    then have rr: "xStreamBufferReceive_read b len av k = prvReadMessageFromBuffer b len av k"
      by (simp add: xStreamBufferReceive_read_def)
    show ?thesis
    proof (cases msg)
      case False
      let ?n = "min len av"
      obtain k' where k': "prvReadMessageFromBuffer b len av k = Some (k', take ?n (sbytes b k))" "removed b ?n k k'"
        using read_stream_ok [OF B(1) HOL.refl _ av] B(2) False by blast
      have z: "take ?n (sbytes b k) = [] \<longleftrightarrow> ?n = 0" using av length_sbytes [of b k] by (auto simp del: length_sbytes)
      have "flows msg (sbytes b k) [] (if take ?n (sbytes b k) \<noteq> [] then [take ?n (sbytes b k)] else []) (sbytes b k')"
        using False sbytes_after(2) [OF k'(2)] by (auto simp: flows_def)
      then show ?thesis using that [OF _ k'(2) _ _ z, unfolded rr] k'(1) step [OF k'(2)] False by blast
    next
      case m: True
      then have four: "av > 4" using True B(2) by (simp add: length_bytes_def sbBYTES_TO_STORE_MESSAGE_LENGTH_def)
      obtain x rest where x: "sbytes b k = framed x @ rest" "whole_message x" "framing rest" "length (framed x) \<le> av"
        using rd m four by (auto simp: first_fits_def)
      let ?y = "if length x \<le> len then x else []" and ?n = "if length x \<le> len then length (framed x) else 0"
      have xs: "x \<noteq> []" "length x < w32" using x(2) by (simp_all add: whole_message_def)
      obtain k' where k': "prvReadMessageFromBuffer b len av k = Some (k', ?y)" "removed b ?n k k'"
        using read_message_ok [OF B(1) HOL.refl _ av x(1) xs x(4), of len] B(2) m by blast
      have sb: "sbytes b k' = (if length x \<le> len then rest else sbytes b k)"
        using sbytes_after(2) [OF k'(2)] x(1) by simp
      have fr: "framing (sbytes b k')" using sb x(3) sys m by (simp add: sys_ok_def)
      have fl: "flows msg (sbytes b k) [] (if ?y \<noteq> [] then [?y] else []) (sbytes b k')"
        using m sb x(1) unframe_framed [OF x(2)] xs(1) by (simp add: flows_def)
      have z: "?y = [] \<longleftrightarrow> ?n = 0" using xs(1) by (simp add: framed_def)
      show ?thesis by (rule that [OF k'(1) [folded rr] k'(2) step [OF k'(2)] fl z]) (use fr in simp)
    qed
  qed
qed

lemma free_after:
  assumes "removed b n k k'" and "sb_ok (stream_buffers k b)"
  shows "free_cells (stream_buffers k b) \<le> free_cells (stream_buffers k' b)"
    and "n = 0 \<Longrightarrow> free_cells (stream_buffers k' b) = free_cells (stream_buffers k b)"
  using removed_fields(12,13) [OF assms(1)] by (simp_all add: free_cells_def)

lemma writer_ok_mono: "writer_ok msg B wp \<Longrightarrow> free_cells B \<le> free_cells B' \<Longrightarrow> writer_ok msg B' wp"
  by (cases wp) auto

lemma read_reader_ok:
  assumes inv: "sb_inv S E b w r msg k wp (RGot len av)"
  shows "\<exists>k' x. xStreamBufferReceive_read b len av k = Some (k', x) \<and> sb_inv S E b w r msg k' wp (RCopied (length x)) \<and>
    flows msg (sbytes b k) [] (if x \<noteq> [] then [x] else []) (sbytes b k')"
proof -
  let ?B = "stream_buffers k b"
  have rd: "reader_ok msg (sbytes b k) (RGot len av)" and B: "sb_ok ?B" using inv by (simp_all add: sb_inv_def sys_ok_def)
  obtain k' x n where k': "xStreamBufferReceive_read b len av k = Some (k', x)" "removed b n k k'" "sys_ok S E b w r msg k'"
    "flows msg (sbytes b k) [] (if x \<noteq> [] then [x] else []) (sbytes b k')" "x = [] \<longleftrightarrow> n = 0"
    by (rule read_ok [OF sb_inv_sys [OF inv] rd])
  note rf = removed_fields [OF k'(2)] and fa = free_after [OF k'(2) B]
  have h: "xTaskWaitingToReceive ?B = 0" using inv by (simp add: sb_inv_def waiter_none)
  have "waiter k w (xTaskWaitingToSend ?B) (w_registered wp) (w_waits wp) (free_cells ?B < w_wants wp)"
    using inv by (simp add: sb_inv_def)
  then have "waiter k w (xTaskWaitingToSend ?B) (w_registered wp) (w_waits wp)
      (free_cells (stream_buffers k' b) < w_wants wp \<or> length x > 0)"
    by (rule waiter_low) (use k'(5) fa(2) in auto)
  moreover have "writer_ok msg (stream_buffers k' b) wp"
    using inv writer_ok_mono [OF _ fa(1)] by (simp add: sb_inv_def)
  ultimately have "sb_inv S E b w r msg k' wp (RCopied (length x))"
    using k'(3) h by (simp add: sb_inv_def rf)
  then show ?thesis using k'(1,4) by blast
qed

lemma reader_told:
  assumes inv: "sb_inv S E b w r msg k wp (RCopied n)"
  shows "told_writer S E b w r msg k k' \<Longrightarrow> sb_inv S E b w r msg k' wp RIdle"
    and "n = 0 \<Longrightarrow> sb_inv S E b w r msg k wp RIdle"
proof -
  let ?B = "stream_buffers k b"
  have wr: "waiter k w (xTaskWaitingToSend ?B) (w_registered wp) (w_waits wp) (free_cells ?B < w_wants wp \<or> n > 0)"
    and h: "xTaskWaitingToReceive ?B = 0" and wd: "writer_ok msg ?B wp"
    using inv by (simp_all add: sb_inv_def waiter_none)
  show "sb_inv S E b w r msg k' wp RIdle" if t: "told_writer S E b w r msg k k'"
  proof -
    have "waiter k' w 0 (w_registered wp) (w_waits wp) low" for low
      using t wr unfolding told_writer_def by blast
    then show ?thesis using t h wd by (simp add: told_writer_def sb_inv_def)
  qed
  show "sb_inv S E b w r msg k wp RIdle" if "n = 0"
    using inv h that by (simp add: sb_inv_def)
qed

lemma notify_reader_ok:
  assumes inv: "sb_inv S E b w r msg k wp (RCopied n)"
  shows "\<exists>k'. reader_go b (RCopied n) k = Some (k', RIdle, []) \<and> sb_inv S E b w r msg k' wp RIdle \<and> sbytes b k' = sbytes b k"
proof (cases "n = 0")
  case True
  then show ?thesis using reader_told(2) [OF inv] by (simp add: xStreamBufferReceive_complete_def)
next
  case False
  obtain k' where k': "prvRECEIVE_COMPLETED b k = Some k'" "told_writer S E b w r msg k k'"
    using prvRECEIVE_COMPLETED_ok [OF sb_inv_sys [OF inv] handles(2) [OF inv]] by blast
  then show ?thesis
    using False reader_told(1) [OF inv k'(2)] told_sbytes(2) by (auto simp: xStreamBufferReceive_complete_def)
qed

lemma isr_reader_ok:
  assumes inv: "sb_inv S E b w r msg k wp RIdle"
  shows "\<exists>k' d. reader_step b (ReceiveISR len) RIdle k = Some (k', RIdle, d) \<and> sb_inv S E b w r msg k' wp RIdle \<and>
    flows msg (sbytes b k) [] d (sbytes b k')"
proof -
  let ?B = "stream_buffers k b"
  note sys = sb_inv_sys [OF inv] and av = handles(3) [OF inv]
  have nz: "b \<noteq> 0" using sys by (simp add: sys_ok_def)
  have "sb_inv S E b w r msg k wp (RLeft len)" using inv by (simp add: sb_inv_def)
  then have i: "sb_inv S E b w r msg k wp (RGot len (used ?B))"
    using sample_reader_ok [of S E b w r msg k wp len] av by auto
  obtain k1 x where k1: "xStreamBufferReceive_read b len (used ?B) k = Some (k1, x)" "sb_inv S E b w r msg k1 wp (RCopied (length x))"
    "flows msg (sbytes b k) [] (if x \<noteq> [] then [x] else []) (sbytes b k1)"
    using read_reader_ok [OF i] by blast
  show ?thesis
  proof (cases "x = []")
    case True
    have "xStreamBufferReceiveFromISR b True len False k = Some (k1, x, False)"
      using k1(1) True nz av by (simp add: xStreamBufferReceiveFromISR_def configASSERT_def)
    then show ?thesis using reader_told(2) [OF k1(2)] k1(3) True by simp
  next
    case False
    obtain k' y where k': "prvRECEIVE_COMPLETED_FROM_ISR b False k1 = Some (k', y)" "told_writer S E b w r msg k1 k'"
      using isr_receive_ok [OF sb_inv_sys [OF k1(2)] handles(2) [OF k1(2)]] by blast
    have "xStreamBufferReceiveFromISR b True len False k = Some (k', x, y)"
      using k1(1) k'(1) False nz av by (simp add: xStreamBufferReceiveFromISR_def configASSERT_def)
    then show ?thesis using reader_told(1) [OF k1(2) k'(2)] told_sbytes(2) [OF k'(2)] k1(3) False by simp
  qed
qed

lemma reader_go_ok:
  assumes inv: "sb_inv S E b w r msg k wp rp" and run: "runs r k" and pc: "rp \<noteq> RIdle"
  shows "\<exists>k' pc d. reader_go b rp k = Some (k', pc, d) \<and> sb_inv S E b w r msg k' wp pc \<and>
    flows msg (sbytes b k) [] d (sbytes b k')"
proof (cases rp)
  case (RTry len n)
  then show ?thesis using register_reader_ok [of S E b w r msg k wp len n] inv run by (metis flows_none)
next
  case (RRegistered len n)
  then show ?thesis using wait_reader_ok [of S E b w r msg k wp len n] inv run by (metis flows_none)
next
  case (RWaiting len)
  then show ?thesis using wake_reader_ok [of S E b w r msg k wp len] inv run by (metis flows_none)
next
  case (RLeft len)
  then show ?thesis using sample_reader_ok [of S E b w r msg k wp len] inv by (metis flows_none)
next
  case (RGot len av)
  then show ?thesis using read_reader_ok [of S E b w r msg k wp len av] inv by auto
next
  case (RCopied n)
  then show ?thesis using notify_reader_ok [of S E b w r msg k wp n] inv by (metis flows_none)
qed (use pc in simp)

section \<open>Every step\<close>

lemma set_trigger_ok:
  assumes inv: "sb_inv S E b w r msg k wp RIdle"
  shows "\<exists>k' y. xStreamBufferSetTriggerLevel b n k = Some (k', y) \<and> sb_inv S E b w r msg k' wp RIdle \<and> sbytes b k' = sbytes b k"
proof -
  let ?B = "stream_buffers k b" and ?t = "if n = 0 then 1 else n"
  have nz: "b \<noteq> 0" using inv by (simp add: sb_inv_def sys_ok_def)
  have h: "xTaskWaitingToReceive ?B = 0" using inv by (simp add: sb_inv_def waiter_none)
  let ?k = "upd_sb b (xTriggerLevelBytes_update (\<lambda>_. ?t)) k"
  have sh: "sbytes b ?k = sbytes b k" "is_message (?B\<lparr>xTriggerLevelBytes := t\<rparr>) = is_message ?B" "used (?B\<lparr>xTriggerLevelBytes := t\<rparr>) = used ?B"
    "free_cells (?B\<lparr>xTriggerLevelBytes := t\<rparr>) = free_cells ?B" for t
    by (simp_all add: sbytes_def stored_def ring_bytes_def cell_def used_def is_message_def free_cells_def)
  have wo: "writer_ok msg (?B\<lparr>xTriggerLevelBytes := t\<rparr>) wp = writer_ok msg ?B wp" for t
    by (cases wp) (simp_all add: sh)
  show ?thesis
  proof (cases "?t < xLength ?B")
    case True
    have "sb_ok (?B\<lparr>xTriggerLevelBytes := ?t\<rparr>)" using inv True by (simp add: sb_inv_def sys_ok_def sb_ok_def)
    then have "sb_inv S E b w r msg ?k wp RIdle"
      using inv sh wo h by (simp add: sb_inv_def sys_ok_def upd_sb_tinv)
    moreover have "xStreamBufferSetTriggerLevel b n k = Some (?k, True)"
      using True nz by (simp add: xStreamBufferSetTriggerLevel_def configASSERT_def Let_def)
    ultimately show ?thesis using sh(1) by blast
  next
    case False
    then have "xStreamBufferSetTriggerLevel b n k = Some (k, False)"
      using nz by (simp add: xStreamBufferSetTriggerLevel_def configASSERT_def Let_def)
    then show ?thesis using inv by blast
  qed
qed

definition channel_inv :: "nat \<Rightarrow> nat \<Rightarrow> nat \<Rightarrow> nat \<Rightarrow> nat \<Rightarrow> bool \<Rightarrow> 'a sbsys \<Rightarrow> bool" where
  "channel_inv S E b w r msg x \<longleftrightarrow> sb_inv S E b w r msg (kst x) (wpc x) (rpc x)"

lemma kernel_step_ok:
  assumes inv: "sb_inv S E b w r msg k wp rp"
  shows "\<exists>k'. SysTick_Handler k = Some k' \<and> sb_inv S E b w r msg k' wp rp \<and> sbytes b k' = sbytes b k"
    and "\<exists>k'. PendSV_Handler k = Some k' \<and> sb_inv S E b w r msg k' wp rp \<and> sbytes b k' = sbytes b k"
proof -
  note ti = sys_notify(1) [OF sb_inv_sys [OF inv]]
  show "\<exists>k'. SysTick_Handler k = Some k' \<and> sb_inv S E b w r msg k' wp rp \<and> sbytes b k' = sbytes b k"
    using tick_tinv [OF ti] tick_kframe [OF ti] sb_inv_kframe [OF inv] by metis
  show "\<exists>k'. PendSV_Handler k = Some k' \<and> sb_inv S E b w r msg k' wp rp \<and> sbytes b k' = sbytes b k"
    using switch_tinv [OF ti] switch_kframe [of k] sb_inv_kframe [OF inv] by metis
qed

lemma sb_exec_ok:
  assumes inv: "channel_inv S E b w r msg x" and may: "sb_may w r p x"
  shows "\<exists>x' a d. sb_exec b p x = Some (x', a, d) \<and> channel_inv S E b w r msg x' \<and>
    flows msg (sbytes b (kst x)) a d (sbytes b (kst x'))"
proof -
  have i: "sb_inv S E b w r msg (kst x) (wpc x) (rpc x)" using inv by (simp add: channel_inv_def)
  show ?thesis
  proof (cases p)
    case (Writer q)
    have "\<exists>k' pc a. writer_step b q (wpc x) (kst x) = Some (k', pc, a) \<and> sb_inv S E b w r msg k' pc (rpc x) \<and>
      flows msg (sbytes b (kst x)) a [] (sbytes b k')"
    proof (cases q)
      case (WStart data n)
      then show ?thesis using start_ok [of S E b w r msg "kst x" "rpc x" data n] i may Writer by (metis flows_none sb_may.simps(1))
    next
      case WGo
      then show ?thesis using writer_go_ok [OF i] may Writer by simp
    next
      case (SendISR data)
      then show ?thesis using isr_writer_ok [of S E b w r msg "kst x" "rpc x" data] i may Writer by (metis sb_may.simps(3))
    qed
    then show ?thesis using Writer by (auto simp: channel_inv_def)
  next
    case (Reader q)
    have "\<exists>k' pc d. reader_step b q (rpc x) (kst x) = Some (k', pc, d) \<and> sb_inv S E b w r msg k' (wpc x) pc \<and>
      flows msg (sbytes b (kst x)) [] d (sbytes b k')"
    proof (cases q)
      case (RStart len n)
      then have idle: "rpc x = RIdle" using may Reader by simp
      moreover have "xTaskWaitingToReceive (stream_buffers (kst x) b) = 0" "b \<noteq> 0"
        using i idle by (simp_all add: sb_inv_def waiter_none sys_ok_def)
      ultimately show ?thesis using i RStart by (simp add: configASSERT_def sb_inv_def waiter_none)
    next
      case RGo
      then show ?thesis using reader_go_ok [OF i] may Reader by simp
    next
      case (ReceiveISR len)
      then show ?thesis using isr_reader_ok [of S E b w r msg "kst x" "wpc x" len] i may Reader by (metis sb_may.simps(6))
    qed
    then show ?thesis using Reader by (auto simp: channel_inv_def)
  next
    case (SetTrigger n)
    then have "rpc x = RIdle" using may by simp
    then show ?thesis using set_trigger_ok [of S E b w r msg "kst x" "wpc x" n] i SetTrigger by (auto simp: channel_inv_def)
  next
    case SbTick
    then show ?thesis using kernel_step_ok(1) [OF i] by (auto simp: channel_inv_def)
  next
    case SbSwitch
    then show ?thesis using kernel_step_ok(2) [OF i] by (auto simp: channel_inv_def)
  qed
qed

interpretation steps: stepwise "channel_inv S E b w r msg" "sb_may w r" "sb_exec b" for S E b w r msg
  by unfold_locales (use sb_exec_ok in blast)

lemma sb_exec_flows:
  assumes "channel_inv S E b w r msg x" and "sb_may w r p x" and "sb_exec b p x = Some (x', a, d)"
  shows "flows msg (sbytes b (kst x)) a d (sbytes b (kst x'))"
  using sb_exec_ok [OF assms(1,2)] assms(3) by auto

interpretation bytes: fifo_channel "channel_inv S E b w r False" "sb_may w r" "sb_exec b"
  "\<lambda>x. sbytes b (kst x)" concat for S E b w r
  by unfold_locales (auto dest: sb_exec_flows simp: flows_def)

interpretation messages: fifo_channel "channel_inv S E b w r True" "sb_may w r" "sb_exec b"
  "\<lambda>x. unframe (sbytes b (kst x))" "\<lambda>x. x" for S E b w r
  by unfold_locales (auto dest: sb_exec_flows simp: flows_def)

section \<open>Properties\<close>

lemma wait_has_reason:
  assumes "channel_inv S E b w r msg x"
  shows "r_waits (rpc x) \<Longrightarrow> \<not> is_ready (kst x) r \<Longrightarrow>
      xTaskWaitingToReceive (stream_buffers (kst x) b) = r \<and>
      (used (stream_buffers (kst x) b) < xTriggerLevelBytes (stream_buffers (kst x) b) \<or> w_will_notify (wpc x))"
    and "w_waits (wpc x) \<Longrightarrow> \<not> is_ready (kst x) w \<Longrightarrow>
      xTaskWaitingToSend (stream_buffers (kst x) b) = w \<and>
      (free_cells (stream_buffers (kst x) b) < w_wants (wpc x) \<or> r_will_notify (rpc x))"
proof -
  have i: "sb_inv S E b w r msg (kst x) (wpc x) (rpc x)" using assms by (simp add: channel_inv_def)
  then have "valid_task (kst x) w" "valid_task (kst x) r" "tinv S E (kst x)" by (simp_all add: sb_inv_def sys_ok_def)
  then have "w \<noteq> 0" "r \<noteq> 0" using ktasks_nz [OF tinv_kinv] by (auto simp: valid_task_def)
  with i show "r_waits (rpc x) \<Longrightarrow> \<not> is_ready (kst x) r \<Longrightarrow>
      xTaskWaitingToReceive (stream_buffers (kst x) b) = r \<and>
      (used (stream_buffers (kst x) b) < xTriggerLevelBytes (stream_buffers (kst x) b) \<or> w_will_notify (wpc x))"
    and "w_waits (wpc x) \<Longrightarrow> \<not> is_ready (kst x) w \<Longrightarrow>
      xTaskWaitingToSend (stream_buffers (kst x) b) = w \<and>
      (free_cells (stream_buffers (kst x) b) < w_wants (wpc x) \<or> r_will_notify (rpc x))"
    unfolding sb_inv_def waiter_def by blast+
qed

text \<open>C26: However the steps of one writer and one reader, of interrupts that send or receive, of
  ticks and of context switches interleave, none of them fails; and a side that waits and has not
  been woken is registered in the buffer, and waits for bytes or space that is not there, unless
  the other side is about to notify it.\<close>

theorem stream_buffer_never_stalls:
  assumes inv: "channel_inv S E b w r msg x" and ok: "allowed (sb_may w r) (sb_exec b) ps x"
  shows "\<exists>x' as ds. run_steps (sb_exec b) ps x = Some (x', as, ds) \<and> channel_inv S E b w r msg x' \<and>
    (let B = stream_buffers (kst x') b in
     sb_ok B \<and>
     (r_waits (rpc x') \<and> \<not> is_ready (kst x') r \<longrightarrow>
       xTaskWaitingToReceive B = r \<and> (prvBytesInBuffer B < xTriggerLevelBytes B \<or> w_will_notify (wpc x'))) \<and>
     (w_waits (wpc x') \<and> \<not> is_ready (kst x') w \<longrightarrow>
       xTaskWaitingToSend B = w \<and> (free_cells B < w_wants (wpc x') \<or> r_will_notify (rpc x'))))"
proof -
  obtain x' as ds where x': "run_steps (sb_exec b) ps x = Some (x', as, ds)" "channel_inv S E b w r msg x'"
    using steps.never_fails [OF inv ok] by blast
  have "sb_ok (stream_buffers (kst x') b)" using x'(2) by (simp add: channel_inv_def sb_inv_def sys_ok_def)
  then show ?thesis using x' wait_has_reason [OF x'(2)] by (simp add: bytes_in_buffer)
qed

text \<open>C27: A stream buffer is a first-in first-out sequence of bytes: after any interleaving of the
  steps of writer and reader, the bytes the reader got followed by the bytes in the buffer are the
  bytes the buffer held followed by the bytes the sends accepted.\<close>

theorem stream_bytes_in_order:
  assumes inv: "channel_inv S E b w r False x" and ok: "allowed (sb_may w r) (sb_exec b) ps x"
  shows "\<exists>x' as ds. run_steps (sb_exec b) ps x = Some (x', as, ds) \<and>
    concat ds @ sbytes b (kst x') = sbytes b (kst x) @ concat as"
  using bytes.in_order [OF inv ok] by blast

text \<open>C28: A message buffer delivers whole messages in the order they were accepted, each exactly as
  it was sent: none is cut, merged, lost or made up.\<close>

theorem messages_in_order:
  assumes inv: "channel_inv S E b w r True x" and ok: "allowed (sb_may w r) (sb_exec b) ps x"
  shows "\<exists>x' as ds. run_steps (sb_exec b) ps x = Some (x', as, ds) \<and>
    ds @ unframe (sbytes b (kst x')) = unframe (sbytes b (kst x)) @ as"
  using messages.in_order [OF inv ok] by blast

lemma init_ok:
  assumes l: "1 < n" "2 * n < w32" and p: "0 < puc" "puc + n < w32" and t: "0 < trigger" "trigger < n"
  shows "sb_ok (stream_buffers (prvInitialiseNewStreamBuffer b puc n trigger flags s) b)"
    and "sbytes b (prvInitialiseNewStreamBuffer b puc n trigger flags s) = []"
    and "free_cells (stream_buffers (prvInitialiseNewStreamBuffer b puc n trigger flags s) b) = n - 1"
  using assms
  by (simp_all add: prvInitialiseNewStreamBuffer_def sb_ok_def zero_buffer_def sbytes_def stored_def used_def
      ring_bytes_def free_cells_def)

lemma init_fields:
  "stream_buffers (prvInitialiseNewStreamBuffer b puc n trigger flags s) b =
     zero_buffer\<lparr>pucBuffer := puc, xLength := n, xTriggerLevelBytes := trigger, ucFlags := flags\<rparr>"
  "b' \<noteq> b \<Longrightarrow> stream_buffers (prvInitialiseNewStreamBuffer b puc n trigger flags s) b' = stream_buffers s b'"
  by (simp_all add: prvInitialiseNewStreamBuffer_def upd_sb_def heap_store_def)

lemma init_tinv:
  "tinv S E s \<Longrightarrow> tinv S E (prvInitialiseNewStreamBuffer b puc n trigger flags s)"
  by (simp add: prvInitialiseNewStreamBuffer_def heap_store_payload upd_sb_tinv set_payload_tinv Let_def)

lemma init_heap_ok:
  "heap_ok (kheap (prvInitialiseNewStreamBuffer b puc n trigger flags s)) S ts = heap_ok (kheap s) S ts"
  by (simp add: prvInitialiseNewStreamBuffer_def heap_store_def upd_sb_def)

text \<open>C29: A created stream or message buffer is well formed: it is empty, has room for exactly the
  bytes asked for, and its record and its bytes lie in a heap region of its own; or no memory was
  left and the handle is null.  The other buffers are as before.\<close>

theorem xStreamBufferGenericCreate_correct:
  fixes s :: "'a skernel_scheme"
  assumes inv: "tinv S E s" and susp: "uxSchedulerSuspended s + 1 \<noteq> 0"
    and heap: "heap_ok (kheap s) S ts" "owned_by S ts s"
    and n: "(if msg then 4 else 0) < n" "trigger \<le> n" "n + 33 < 2 ^ 31"
  shows "\<exists>s' b. xStreamBufferGenericCreate n trigger msg s = Some (s', b) \<and> tinv S E s' \<and>
    (b \<noteq> 0 \<longrightarrow>
      (let B = stream_buffers s' b in
       sb_ok B \<and> is_message B = msg \<and> xTaskWaitingToReceive B = 0 \<and> xTaskWaitingToSend B = 0 \<and>
       sbytes b s' = [] \<and> xStreamBufferSpacesAvailable b s' = Some n \<and>
       (\<exists>ts' m. heap_ok (kheap s') S ts' \<and> live_regions S ts' = insert (b, m) (live_regions S ts) \<and>
         (b, m) \<notin> live_regions S ts \<and> pucBuffer B = b + sizeof_StreamBuffer \<and> pucBuffer B + xLength B \<le> b + m))) \<and>
    (\<forall>b'. b' \<noteq> b \<longrightarrow> stream_buffers s' b' = stream_buffers s b')"
proof -
  let ?t = "if trigger = 0 then 1 else trigger"
  let ?f = "if msg then sbFLAGS_IS_MESSAGE_BUFFER else 0"
  have total: "n + 33 < w32" using n(3) by (simp add: w32_def)
  have w: "wadd (wadd n 1) sizeof_StreamBuffer = n + 33" "wadd n 1 = n + 1" "n < n + 33"
    using total by (simp_all add: sizeof_StreamBuffer_def)
  obtain s1 b ts1 h where m: "kernel_malloc (n + 33) s = Some (s1, b)" "tinv S E s1"
    "heap_ok (kheap s1) S ts1" "owned_by S ts1 s1" "sframe (s\<lparr>kheap := h\<rparr>) s1"
    and l: "if b = 0 then live_regions S ts1 = live_regions S ts
      else \<exists>m \<ge> n + 33. live_regions S ts1 = insert (b, m) (live_regions S ts) \<and> (b, m) \<notin> live_regions S ts"
    by (rule malloc_tinv [OF inv susp heap total])
  have same: "stream_buffers s1 = stream_buffers s"
    by (rule more_buffers) (use m(5) in \<open>simp add: sframe_def\<close>)
  have res: "xStreamBufferGenericCreate n trigger msg s =
    Some (if b \<noteq> 0 then prvInitialiseNewStreamBuffer b (wadd b sizeof_StreamBuffer) (n + 1) ?t ?f s1 else s1, b)"
    using n m(1) w
    by (simp add: xStreamBufferGenericCreate_def configASSERT_def sbBYTES_TO_STORE_MESSAGE_LENGTH_def Let_def split: if_splits)
  show ?thesis
  proof (cases "b = 0")
    case True
    then show ?thesis using res m(2) same by simp
  next
    case False
    then obtain k where k: "n + 33 \<le> k" "live_regions S ts1 = insert (b, k) (live_regions S ts)"
      "(b, k) \<notin> live_regions S ts" using l by auto
    have "S + 8 \<le> b" "b + k \<le> E" "E < w32"
      using live_bounds [OF m(3), of b k] k(2) m(2,3) by (auto simp: tinv_def owned_def heap_ok_def heap_layout_def)
    then have a: "wadd b sizeof_StreamBuffer = b + 32" "b + 32 + (n + 1) < w32"
      using k(1) by (simp_all add: sizeof_StreamBuffer_def)
    let ?i = "prvInitialiseNewStreamBuffer b (b + 32) (n + 1) ?t ?f s1"
    have ok: "sb_ok (stream_buffers ?i b)" "sbytes b ?i = []" "free_cells (stream_buffers ?i b) = n"
      using init_ok [of "n + 1" "b + 32" ?t b ?f s1] a(2) n by (auto simp: w32_def)
    moreover have "is_message (stream_buffers ?i b) = msg"
      by (simp add: init_fields is_message_def sbFLAGS_IS_MESSAGE_BUFFER_def)
    moreover have "xStreamBufferSpacesAvailable b ?i = Some n"
      using spaces_available [OF ok(1)] False ok(3) by (simp add: free_cells_def)
    moreover have "\<exists>ts' m. heap_ok (kheap ?i) S ts' \<and> live_regions S ts' = insert (b, m) (live_regions S ts) \<and>
        (b, m) \<notin> live_regions S ts \<and> b + 32 + (n + 1) \<le> b + m"
      using m(3) k by (intro exI [of _ ts1] exI [of _ k]) (simp add: init_heap_ok)
    moreover have "stream_buffers ?i b' = stream_buffers s b'" if "b' \<noteq> b" for b'
      using init_fields(2) [OF that, of "b + 32" "n + 1" ?t ?f s1] same by simp
    ultimately show ?thesis
      using res False a(1) init_tinv [OF m(2)]
      by (intro exI [of _ ?i] exI [of _ b])
        (simp add: init_fields(1) zero_buffer_def sizeof_StreamBuffer_def Let_def del: if_split)
  qed
qed

section \<open>A concrete system\<close>

text \<open>
  The demonstration task system with a buffer of seven bytes at 3000: task 1344 runs and is the
  writer; task 1552, which waits for a notification, is the reader.
\<close>

definition demo_bytes :: "u8 \<Rightarrow> nat \<Rightarrow> stream_buffer" where
  "demo_bytes flags h = zero_buffer\<lparr>pucBuffer := 3032, xLength := 8, xTriggerLevelBytes := 1,
     xTaskWaitingToReceive := h, ucFlags := flags\<rparr>"

definition demo_skernel :: "stream_buffer \<Rightarrow> heap \<Rightarrow> skernel" where
  "demo_skernel B h = ekernel.extend (demo_group 0 h)
     (tkernel_ext demo_tlists (\<lambda>_. demo_timer 0) xActiveTimerList1 xActiveTimerList2 2000 1344 0 (skernel_ext (\<lambda>_. B) ()))"

definition demo_stream :: "u8 \<Rightarrow> nat \<Rightarrow> reader_pc \<Rightarrow> heap \<Rightarrow> unit sbsys" where
  "demo_stream flags t pc h = \<lparr>kst = demo_skernel (demo_bytes flags t) h, wpc = WIdle, rpc = pc\<rparr>"

lemma demo_skernel_sel [simp]:
  "stream_buffers (demo_skernel B h) = (\<lambda>_. B)" "lists (demo_skernel B h) = lists (demo_system h)"
  "tcb (demo_skernel B h) = tcb (demo_system h)" "pxCurrentTCB (demo_skernel B h) = 1344"
  "uxSchedulerSuspended (demo_skernel B h) = 0" "xSchedulerRunning (demo_skernel B h) = True"
  "xIdleTaskHandle (demo_skernel B h) = 1136" "kheap (demo_skernel B h) = h"
  by (simp_all add: demo_skernel_def demo_group_def demo_queue_def kernel.defs qkernel.defs ekernel.defs demo_system_def)

lemma demo_skernel_tinv:
  obtains h ts where "tinv 1024 5112 (demo_skernel B h)" and "heap_ok h 1024 ts"
    and "owned_by 1024 ts (demo_skernel B h)"
proof -
  obtain h ts where e: "egsys 1024 5112 (demo_group 0 h)" "heap_ok h 1024 ts" "owned_by 1024 ts (demo_group 0 h)"
    by (rule demo_group_egsys)
  then have "tinv 1024 5112 (demo_group 0 h)" by (simp add: egsys_def)
  then have "tinv 1024 5112 (demo_skernel B h)"
    by (simp add: demo_skernel_def tinv_def kinv_def kinv0_def places_def delays_def readies_def unblock_times_def
        none_pending_def owned_def owned_by_def counted_def ktasks_def terminated_def is_ready_def
        waiting_free_def ekernel.defs)
  moreover have "owned_by 1024 ts (demo_skernel B h)"
    using e(3) unfolding owned_by_def ktasks_def demo_skernel_sel(2,3) demo_group_sel(2,3) .
  ultimately show ?thesis using that e(2) by blast
qed

lemma demo_bytes_ok [simp]:
  "sb_ok (demo_bytes f t)" "sb_ok (demo_bytes f t)" "used (demo_bytes f t) = 0" "free_cells (demo_bytes f t) = 7"
  "is_message (demo_bytes 0 t) = False" "is_message (demo_bytes 1 t) = True"
  "xTaskWaitingToReceive (demo_bytes f t) = t" "xTaskWaitingToSend (demo_bytes f t) = 0"
  "xTriggerLevelBytes (demo_bytes f t) = 1" "xLength (demo_bytes f t) = 8" "xHead (demo_bytes f t) = 0"
  "pucBuffer (demo_bytes f t) = 3032" "sbytes b (demo_skernel (demo_bytes f t) h) = []"
  by (simp_all add: demo_bytes_def zero_buffer_def sb_ok_def used_def free_cells_def is_message_def
      sbFLAGS_IS_MESSAGE_BUFFER_def w32_def sbytes_def stored_def ring_bytes_def)

lemma demo_stream_inv:
  assumes "tinv 1024 5112 (demo_skernel (demo_bytes f t) h)" and "f = (if msg then 1 else 0)"
    and "t = 0 \<and> pc = RIdle \<or> t = 1552 \<and> pc = RWaiting n"
  shows "channel_inv 1024 5112 3000 1344 1552 msg (demo_stream f t pc h)"
  using assms by (auto simp: channel_inv_def demo_stream_def sb_inv_def sys_ok_def waiter_def valid_task_def
      ktasks_def terminated_def)

text \<open>The writer sends without waiting: it starts, looks for space and copies.\<close>

definition demo_send :: "u8 list \<Rightarrow> sb_op list" where
  "demo_send data = [Writer (WStart data 0), Writer WGo, Writer WGo]"

lemma demo_allowed:
  assumes "f = 0 \<and> length data = 3 \<or> f = 1 \<and> length data = 2"
  shows "allowed (sb_may 1344 r) (sb_exec 3000) (demo_send data) (demo_stream f t pc h)"
  using assms by (auto simp: demo_send_def demo_stream_def sendable_def sbBYTES_TO_STORE_MESSAGE_LENGTH_def w32_def
      runs_def running_def is_ready_def xStreamBufferSend_enter_def configASSERT_def Let_def bytes_of_def xStreamBufferSend_space_def
      spaces_available free_cells_def)

theorem stream_buffer_never_stalls_witness:
  "\<exists>h x' as ds. run_steps (sb_exec 3000) (demo_send [1, 2, 3]) (demo_stream 0 1552 (RWaiting 4) h) = Some (x', as, ds) \<and>
     sb_ok (stream_buffers (kst x') 3000)"
proof -
  obtain h ts where "tinv 1024 5112 (demo_skernel (demo_bytes 0 1552) h)" by (rule demo_skernel_tinv)
  then have i: "channel_inv 1024 5112 3000 1344 1552 False (demo_stream 0 1552 (RWaiting 4) h)"
    using demo_stream_inv [of 0 1552 h False "RWaiting 4" 4] by simp
  have "allowed (sb_may 1344 1552) (sb_exec 3000) (demo_send [1, 2, 3]) (demo_stream 0 1552 (RWaiting 4) h)"
    by (rule demo_allowed) simp
  from stream_buffer_never_stalls [OF i this] show ?thesis by (auto simp: Let_def)
qed

theorem stream_bytes_in_order_witness:
  "\<exists>h x' as ds. run_steps (sb_exec 3000) (demo_send [1, 2, 3]) (demo_stream 0 0 RIdle h) = Some (x', as, ds) \<and>
     concat ds @ sbytes 3000 (kst x') = concat as"
proof -
  obtain h ts where "tinv 1024 5112 (demo_skernel (demo_bytes 0 0) h)" by (rule demo_skernel_tinv)
  then have i: "channel_inv 1024 5112 3000 1344 1552 False (demo_stream 0 0 RIdle h)"
    using demo_stream_inv [of 0 0 h False RIdle 4] by simp
  have "allowed (sb_may 1344 1552) (sb_exec 3000) (demo_send [1, 2, 3]) (demo_stream 0 0 RIdle h)"
    by (rule demo_allowed) simp
  from stream_bytes_in_order [OF i this] show ?thesis by (auto simp: demo_stream_def)
qed

theorem messages_in_order_witness:
  "\<exists>h x' as ds. run_steps (sb_exec 3000) (demo_send [8, 9]) (demo_stream 1 0 RIdle h) = Some (x', as, ds) \<and>
     ds @ unframe (sbytes 3000 (kst x')) = as"
proof -
  obtain h ts where "tinv 1024 5112 (demo_skernel (demo_bytes 1 0) h)" by (rule demo_skernel_tinv)
  then have i: "channel_inv 1024 5112 3000 1344 1552 True (demo_stream 1 0 RIdle h)"
    using demo_stream_inv [of 1 0 h True RIdle 4] by simp
  have "allowed (sb_may 1344 1552) (sb_exec 3000) (demo_send [8, 9]) (demo_stream 1 0 RIdle h)"
    by (rule demo_allowed) simp
  from messages_in_order [OF i this] show ?thesis by (auto simp: demo_stream_def)
qed

theorem xStreamBufferGenericCreate_correct_witness:
  "\<exists>h s' b. xStreamBufferGenericCreate 16 4 True (demo_skernel (demo_bytes 0 0) h) = Some (s', b)"
proof -
  obtain h ts where t: "tinv 1024 5112 (demo_skernel (demo_bytes 0 0) h)" "heap_ok h 1024 ts"
    "owned_by 1024 ts (demo_skernel (demo_bytes 0 0) h)"
    by (rule demo_skernel_tinv)
  have o: "uxSchedulerSuspended (demo_skernel (demo_bytes 0 0) h) + 1 \<noteq> 0" "heap_ok (kheap (demo_skernel (demo_bytes 0 0) h)) 1024 ts"
    using t(2) by simp_all
  from xStreamBufferGenericCreate_correct [OF t(1) o t(3), of True 16 4] show ?thesis by auto
qed

end
