(* ===== verification/Boot.thy ===== *)
theory Boot
  imports Timers
begin

text \<open>
  How the kernel starts: \<open>vTaskStartScheduler\<close>, the idle task and its hook, and the entry points of
  the Arduino core in \<open>port.c\<close>, \<open>_start_freertos_on_header_inclusion_impl\<close>, \<open>delay\<close> and \<open>yield\<close>.
  From the reset state every board's heap is large enough for the start to succeed, and the started
  system satisfies the invariants of the other theories.
\<close>

section \<open>Model\<close>

definition configMINIMAL_STACK_SIZE :: nat where
  "configMINIMAL_STACK_SIZE = 128"

definition configTICK_RATE_HZ :: u32 where
  "configTICK_RATE_HZ = 1000"

definition pdMS_TO_TICKS :: "u32 \<Rightarrow> u32" where
  "pdMS_TO_TICKS xTimeInMs = xTimeInMs * configTICK_RATE_HZ div 1000"

text \<open>
  \<open>prvIdleTask\<close> and \<open>prvTimerTask\<close> are the addresses of the functions of these names.  Interrupts
  are disabled until the port starts the first task, the running task of the state.
\<close>

definition vTaskStartScheduler :: "port_cfg \<Rightarrow> u32 \<Rightarrow> u32 \<Rightarrow> 'a tkernel_scheme \<Rightarrow> 'a tkernel_scheme option" where
  "vTaskStartScheduler cfg prvIdleTask prvTimerTask s =
     do {
       (s, t) \<leftarrow> xTaskCreate cfg prvIdleTask ''IDLE'' configMINIMAL_STACK_SIZE 0 0 s;
       let s = (if t \<noteq> 0 then s\<lparr>xIdleTaskHandle := t\<rparr> else s);
       s \<leftarrow> (if t \<noteq> 0 then xTimerCreateTimerTask cfg prvTimerTask s else Some s);
       configASSERT (t \<noteq> 0);
       let s = s\<lparr>xNextTaskUnblockTime := portMAX_DELAY\<rparr>;
       let s = s\<lparr>xSchedulerRunning := True\<rparr>;
       Some (s\<lparr>xTickCount := 0\<rparr>)
     }"

text \<open>The port cannot stop: \<open>vPortEndScheduler\<close> is an unrecoverable error.\<close>

definition vPortEndScheduler :: "'a kernel_scheme \<Rightarrow> 'a kernel_scheme option" where
  "vPortEndScheduler s = None"

definition vTaskEndScheduler :: "'a kernel_scheme \<Rightarrow> 'a kernel_scheme option" where
  "vTaskEndScheduler s = vPortEndScheduler (s\<lparr>xSchedulerRunning := False\<rparr>)"

text \<open>
  The idle hook suspends the scheduler and sleeps until an interrupt; \<open>interrupts\<close> is what the
  interrupts taken meanwhile do to the state.  The processor does not sleep while a reset for an
  upload is under way.
\<close>

definition vApplicationIdleHook ::
  "bool \<Rightarrow> ('a kernel_scheme \<Rightarrow> 'a kernel_scheme option) \<Rightarrow> 'a kernel_scheme \<Rightarrow> 'a kernel_scheme option" where
  "vApplicationIdleHook is_watchdog_reset_in_progress_for_upload interrupts s =
     do {
       let s = vTaskSuspendAll s;
       s \<leftarrow> (if \<not> is_watchdog_reset_in_progress_for_upload then interrupts s else Some s);
       (s, _) \<leftarrow> xTaskResumeAll s;
       Some s
     }"

text \<open>One round of the endless loop of \<open>prvIdleTask\<close>.\<close>

definition prvIdleTask_round ::
  "bool \<Rightarrow> ('a kernel_scheme \<Rightarrow> 'a kernel_scheme option) \<Rightarrow> 'a kernel_scheme \<Rightarrow> 'a kernel_scheme option" where
  "prvIdleTask_round upload interrupts s =
     do {
       s \<leftarrow> prvCheckTasksWaitingTermination s;
       let s = (if length (items s (Ready 0)) > 1 then portYIELD s else s);
       vApplicationIdleHook upload interrupts s
     }"

text \<open>
  The Arduino core starts the kernel when a sketch includes the header.  \<open>sketch\<close> is the address of
  \<open>sketch_thread_func\<close>.
\<close>

definition start_freertos_on_header_inclusion_impl ::
  "port_cfg \<Rightarrow> u32 \<Rightarrow> u32 \<Rightarrow> u32 \<Rightarrow> bool \<Rightarrow> 'a tkernel_scheme \<Rightarrow> 'a tkernel_scheme option" where
  "start_freertos_on_header_inclusion_impl cfg sketch prvIdleTask prvTimerTask early_start s =
     (if xTaskGetSchedulerState s \<noteq> taskSCHEDULER_RUNNING
      then do {
        (s, sketch_task) \<leftarrow> xTaskCreate cfg sketch ''Sketch Thread'' (4096 div 4) (if early_start then 1 else 0) 4 s;
        vTaskStartScheduler cfg prvIdleTask prvTimerTask s
      }
      else Some s)"

text \<open>\<open>R_BSP_SoftwareDelay\<close> belongs to the board support package: it is the parameter \<open>busy_wait\<close>.\<close>

definition delay ::
  "(u32 \<Rightarrow> 'a kernel_scheme \<Rightarrow> 'a kernel_scheme option) \<Rightarrow> u32 \<Rightarrow> 'a kernel_scheme \<Rightarrow> 'a kernel_scheme option" where
  "delay busy_wait ms s =
     (if xTaskGetSchedulerState s = taskSCHEDULER_RUNNING then vTaskDelay (pdMS_TO_TICKS ms) s
      else busy_wait ms s)"

definition arduino_yield :: "'a kernel_scheme \<Rightarrow> 'a kernel_scheme" where
  "arduino_yield s = portYIELD s"

section \<open>Before the scheduler runs\<close>

text \<open>Nothing is pending when the scheduler is resumed, so allocation changes only the heap.\<close>

definition quiet :: "'a kernel_scheme \<Rightarrow> bool" where
  "quiet s \<longleftrightarrow>
     uxSchedulerSuspended s = 0 \<and> xPendedTicks s = 0 \<and> \<not> xYieldPending s \<and> items s PendingReadyList = []"

lemma quiet_malloc:
  assumes "quiet s" and "pvPortMalloc n (kheap s) = Some (h, p)"
  shows "kernel_malloc n s = Some (s\<lparr>kheap := h\<rparr>, p)"
proof -
  have "ready_pending False u = Some (u, False)" if "items u PendingReadyList = []" for u :: "'a kernel_scheme"
    using that by (subst ready_pending.simps) simp
  moreover have "s\<lparr>uxSchedulerSuspended := 0, kheap := h\<rparr> = s\<lparr>kheap := h\<rparr>"
    using assms(1) by (cases s) (simp add: quiet_def)
  ultimately show ?thesis
    using assms by (simp add: kernel_malloc_def quiet_def vTaskSuspendAll_def xTaskResumeAll_def configASSERT_def
        items_def Let_def)
qed

text \<open>Allocation at the end of a heap that has only been allocated from.\<close>

definition filled :: "nat list \<Rightarrow> nat \<Rightarrow> tile list" where
  "filled ns n = map Used ns @ [Free n]"

definition block_size :: "nat \<Rightarrow> nat" where
  "block_size m = (m + 15) div 8 * 8"

lemma live_filled:
  "live_regions S (filled (ns @ [w]) k) = insert (S + tsizes (map Used ns) + 8, w - 8) (live_regions S (filled ns n))"
  by (simp add: filled_def live_regions_def used_at_append)

lemma filled_fresh:
  assumes "heap_ok h S (filled (ns @ [w]) k)"
  shows "(S + tsizes (map Used ns) + 8, m) \<notin> live_regions S (filled ns n)"
proof -
  have "distinct (map fst (used_at S (filled (ns @ [w]) k)))"
    using assms blocks_in_distinct [OF used_at_blocks [OF tiles_ok_pos]] by (simp add: heap_ok_def)
  then show ?thesis by (force simp: filled_def live_regions_def used_at_append)
qed

lemma malloc_last:
  assumes h: "heap_ok h S (filled ns n)" and m: "0 < m" "m + 40 < n"
  obtains h' p where "pvPortMalloc m h = Some (h', p)" and "p \<noteq> 0"
    and "heap_ok h' S (filled (ns @ [block_size m]) (n - block_size m))" and "pxEnd h' = pxEnd h"
    and "live_regions S (filled (ns @ [block_size m]) (n - block_size m)) =
      insert (p, block_size m - 8) (live_regions S (filled ns n))"
    and "(p, block_size m - 8) \<notin> live_regions S (filled ns n)"
proof -
  let ?w = "block_size m" and ?p = "S + tsizes (map Used ns) + 8"
  have "S + n \<le> pxEnd h" "pxEnd h < w32"
    using h by (auto simp: heap_ok_def heap_layout_def filled_def)
  then have w: "wanted m = ?w" "?w + 16 < n" "m < w32" "0 < ?w" "16 < n - ?w"
    using m by (auto simp: wanted_def block_size_def Let_def)
  have "first_fit ?w (map Used ns @ [Free n]) = Some (map Used ns, n, [])"
    using w(2) by (induction ns) auto
  then have t: "tile_malloc m (filled ns n) = (filled (ns @ [?w]) (n - ?w), Some (tsizes (map Used ns)))"
    using w m by (simp add: tile_malloc_def take_tile_def filled_def)
  obtain h' where h': "pvPortMalloc m h = Some (h', ?p)" "heap_ok h' S (filled (ns @ [?w]) (n - ?w))" "pxEnd h' = pxEnd h"
    using pvPortMalloc_ok [OF h w(3) t] by (auto simp: result_addr_def)
  show ?thesis
    by (rule that [OF h'(1) _ h'(2,3) live_filled filled_fresh [OF h'(2)]]) simp
qed

lemma block_size_bounds: "m + 8 \<le> block_size m" "block_size m \<le> m + 15"
  by (simp_all add: block_size_def)

text \<open>
  The state between reset and the start of the scheduler: every task is ready, and with any of them
  in the part of the idle task the invariant holds.
\<close>

definition reset_state :: "'a kernel_scheme \<Rightarrow> bool" where
  "reset_state s \<longleftrightarrow>
     lists s = empty_store \<and> pxCurrentTCB s = 0 \<and> uxDeletedTasksWaitingCleanUp s = 0 \<and>
     uxCurrentNumberOfTasks s = 0 \<and> xTickCount s = 0 \<and> uxTopReadyPriority s = 0 \<and> \<not> xSchedulerRunning s \<and>
     xPendedTicks s = 0 \<and> \<not> xYieldPending s \<and> xNextTaskUnblockTime s = 0 \<and> uxSchedulerSuspended s = 0 \<and>
     pxEnd (kheap s) = 0"

definition prestart :: "nat \<Rightarrow> nat \<Rightarrow> nat list \<Rightarrow> nat \<Rightarrow> nat \<Rightarrow> 'a kernel_scheme \<Rightarrow> bool" where
  "prestart S E ns n i s \<longleftrightarrow>
     quiet s \<and> \<not> xSchedulerRunning s \<and>
     (\<forall>t l. acont (lists s) t = Some l \<longrightarrow> (\<exists>p. l = Ready p)) \<and>
     heap_ok (kheap s) S (filled ns n) \<and> pxEnd (kheap s) = E \<and> owned_by S (filled ns n) s \<and>
     tinv S E (s\<lparr>xIdleTaskHandle := i\<rparr>)"

lemma initialise_empty_lists:
  assumes "alist (lists s) = (\<lambda>_. [])" and "aidx (lists s) = (\<lambda>_. None)"
  shows "prvInitialiseTaskLists s = s\<lparr>pxDelayedTaskList := DelayedTaskList1, pxOverflowDelayedTaskList := DelayedTaskList2\<rparr>"
proof -
  have i: "init_list l s = s" for l
    using assms by (simp add: init_list_def a_initialise_def fun_upd_idem)
  have "fold (\<lambda>p. init_list (Ready p)) ps s = s" for ps
    by (induction ps) (simp_all add: i)
  then show ?thesis by (simp add: prvInitialiseTaskLists_def i Let_def)
qed

lemma fresh_malloc: "heap_fresh h \<Longrightarrow> pvPortMalloc m h = pvPortMalloc m (prvHeapInit h)"
proof -
  assume f: "heap_fresh h"
  have "pxEnd (prvHeapInit h) \<noteq> 0" by (rule heap_ok_initialised [OF prvHeapInit_ok [OF f]])
  then show ?thesis using f by (simp add: pvPortMalloc_def heap_fresh_def Let_def)
qed

lemma fresh_start:
  assumes "heap_fresh h"
  shows "heap_ok (prvHeapInit h) (heap_base h) (filled [] (heap_top h - heap_base h))" and "pxEnd (prvHeapInit h) = heap_top h"
proof -
  show "heap_ok (prvHeapInit h) (heap_base h) (filled [] (heap_top h - heap_base h))"
    using prvHeapInit_ok [OF assms] by (simp add: filled_def)
  then show "pxEnd (prvHeapInit h) = heap_top h"
    using heap_top_bounds [OF assms] by (auto simp: heap_ok_def heap_layout_def filled_def)
qed

text \<open>The two blocks of a new task, and the state in which it is added to its ready list.\<close>

lemma task_blocks:
  assumes q: "quiet s" and m: "initial_frame \<le> depth" "depth * 4 + 200 < n" and prio: "prio < configMAX_PRIORITIES"
    and h: "heap_ok h S (filled ns n)" and first: "pvPortMalloc (depth * 4) (kheap s) = pvPortMalloc (depth * 4) h"
    and free: "\<And>p. (\<And>k. (p, k) \<notin> live_regions S (filled ns n)) \<Longrightarrow>
      acont (lists s) (StateItem p) = None \<and> acont (lists s) (EventItem p) = None"
  obtains h2 stk new c mm ns' n' where
    "xTaskCreate cfg code name depth par prio s =
      Some (prvAddNewTaskToReadyList new
        ((set_item_value (EventItem new) (of_nat configMAX_PRIORITIES - of_nat prio) (s\<lparr>kheap := h2\<rparr>))
          \<lparr>tcb := (tcb s)(new := c), stack_mem := mm\<rparr>), new)"
    and "uxPriority c = prio" and "pxStack c = stk" and "ucNotifyState c 0 = taskNOT_WAITING_NOTIFICATION"
    and "new \<noteq> 0" and "stk \<noteq> new" and "heap_ok h2 S (filled ns' n')" and "pxEnd h2 = pxEnd h"
    and "\<And>k. (stk, k) \<notin> live_regions S (filled ns n)" and "\<And>k. (new, k) \<notin> live_regions S (filled ns n)"
    and "\<exists>k \<ge> initial_frame * 4. (stk, k) \<in> live_regions S (filled ns' n')"
    and "\<exists>k \<ge> sizeof_TCB. (new, k) \<in> live_regions S (filled ns' n')"
    and "live_regions S (filled ns n) \<subseteq> live_regions S (filled ns' n')" and "n \<le> n' + depth * 4 + 126"
proof -
  obtain h1 stk where b1: "pvPortMalloc (depth * 4) h = Some (h1, stk)" "stk \<noteq> 0"
      "heap_ok h1 S (filled (ns @ [block_size (depth * 4)]) (n - block_size (depth * 4)))" "pxEnd h1 = pxEnd h"
      "live_regions S (filled (ns @ [block_size (depth * 4)]) (n - block_size (depth * 4))) =
        insert (stk, block_size (depth * 4) - 8) (live_regions S (filled ns n))"
      "(stk, block_size (depth * 4) - 8) \<notin> live_regions S (filled ns n)"
    by (rule malloc_last [OF h, of "depth * 4"]) (use m in \<open>auto simp: initial_frame_def\<close>)
  let ?ns = "ns @ [block_size (depth * 4)]" and ?n = "n - block_size (depth * 4)"
  note bs = block_size_bounds [of "depth * 4"]
  obtain h2 new where b2: "pvPortMalloc sizeof_TCB h1 = Some (h2, new)" "new \<noteq> 0"
      "heap_ok h2 S (filled (?ns @ [block_size sizeof_TCB]) (?n - block_size sizeof_TCB))" "pxEnd h2 = pxEnd h1"
      "live_regions S (filled (?ns @ [block_size sizeof_TCB]) (?n - block_size sizeof_TCB)) =
        insert (new, block_size sizeof_TCB - 8) (live_regions S (filled ?ns ?n))"
      "(new, block_size sizeof_TCB - 8) \<notin> live_regions S (filled ?ns ?n)"
    by (rule malloc_last [OF b1(3), of sizeof_TCB]) (use m bs in \<open>auto simp: sizeof_TCB_def\<close>)
  have l1: "(stk, k) \<notin> live_regions S (filled ns n)" for k
    using live_fun [OF b1(3), of stk k] b1(5,6) by auto
  have l2: "(new, k) \<notin> live_regions S (filled ?ns ?n)" for k
    using live_fun [OF b2(3), of new k] b2(5,6) by auto
  then have l3: "(new, k) \<notin> live_regions S (filled ns n)" for k using b1(5) by auto
  have sn: "stk \<noteq> new" using l2 b1(5) by auto
  have "S + n \<le> pxEnd h" "pxEnd h < w32"
    using h by (auto simp: heap_ok_def heap_layout_def filled_def)
  then have w: "wmul depth 4 = depth * 4" using m by simp
  have k1: "kernel_malloc (wmul depth 4) s = Some (s\<lparr>kheap := h1\<rparr>, stk)"
    using quiet_malloc [OF q] first b1(1) w by simp
  have "quiet (s\<lparr>kheap := h1\<rparr>)" using q by (simp add: quiet_def items_def)
  then have k2: "kernel_malloc sizeof_TCB (s\<lparr>kheap := h1\<rparr>) = Some (s\<lparr>kheap := h2\<rparr>, new)"
    using quiet_malloc [of "s\<lparr>kheap := h1\<rparr>"] b2(1) by simp
  let ?u = "upd_tcb new (\<lambda>_. zero_tcb\<lparr>pxStack := stk\<rparr>) (s\<lparr>kheap := h2\<rparr>)"
  have fr: "acont (lists ?u) (StateItem new) = None" "acont (lists ?u) (EventItem new) = None"
    using free [OF l3] by (simp_all add: upd_tcb_def)
  have hu: "heap_ok (kheap ?u) S (filled (?ns @ [block_size sizeof_TCB]) (?n - block_size sizeof_TCB))"
    "(pxStack (tcb ?u new), block_size (depth * 4) - 8) \<in>
      live_regions S (filled (?ns @ [block_size sizeof_TCB]) (?n - block_size sizeof_TCB))"
    using b2(3,5) b1(5) by (simp_all add: upd_tcb_def zero_tcb_def)
  have st: "initial_frame \<le> depth" "depth * 4 < w32" "depth * 4 \<le> block_size (depth * 4) - 8"
    using m \<open>S + n \<le> pxEnd h\<close> \<open>pxEnd h < w32\<close> bs by simp_all
  obtain c mm where init: "prvInitialiseNewTask cfg code name depth par prio new ?u =
      Some ((set_item_value (EventItem new) (of_nat configMAX_PRIORITIES - of_nat prio) ?u)
        \<lparr>tcb := (tcb ?u)(new := c), stack_mem := mm\<rparr>)"
    and c: "uxPriority c = prio" "pxStack c = pxStack (tcb ?u new)" "ucNotifyState c = ucNotifyState (tcb ?u new)"
    using prvInitialiseNewTask_free [OF prio fr hu st, of cfg code name par] by metis
  have eq: "(set_item_value (EventItem new) v ?u)\<lparr>tcb := (tcb ?u)(new := c), stack_mem := mm\<rparr> =
      (set_item_value (EventItem new) v (s\<lparr>kheap := h2\<rparr>))\<lparr>tcb := (tcb s)(new := c), stack_mem := mm\<rparr>" for v
    by (simp add: upd_tcb_def set_item_value_def)
  have create: "xTaskCreate cfg code name depth par prio s =
      Some (prvAddNewTaskToReadyList new
        ((set_item_value (EventItem new) (of_nat configMAX_PRIORITIES - of_nat prio) (s\<lparr>kheap := h2\<rparr>))
          \<lparr>tcb := (tcb s)(new := c), stack_mem := mm\<rparr>), new)"
    using k1 k2 b1(2) b2(2) init by (simp add: xTaskCreate_def eq)
  have regions: "\<exists>k \<ge> initial_frame * 4. (stk, k) \<in> live_regions S (filled (?ns @ [block_size sizeof_TCB]) (?n - block_size sizeof_TCB))"
    "\<exists>k \<ge> sizeof_TCB. (new, k) \<in> live_regions S (filled (?ns @ [block_size sizeof_TCB]) (?n - block_size sizeof_TCB))"
    unfolding b2(5) b1(5) using st block_size_bounds [of sizeof_TCB]
    by (intro exI [of _ "block_size (depth * 4) - 8"] exI [of _ "block_size sizeof_TCB - 8"]; simp)+
  show ?thesis
    by (rule that [OF create _ _ _ _ _ _ _ _ _ regions]) (use c b1 b2 l1 l3 sn m bs block_size_bounds [of sizeof_TCB] in
      \<open>auto simp: upd_tcb_def zero_tcb_def sizeof_TCB_def\<close>)
qed

lemma set_idle [simp]:
  "kinv (s\<lparr>xIdleTaskHandle := i\<rparr>) = kinv s" "ktasks (s\<lparr>xIdleTaskHandle := i\<rparr>) = ktasks s"
  "terminated (s\<lparr>xIdleTaskHandle := i\<rparr>) = terminated s" "owned_by S ts (s\<lparr>xIdleTaskHandle := i\<rparr>) = owned_by S ts s"
  by (simp_all add: kinv_def kinv0_def places_def delays_def readies_def unblock_times_def none_pending_def
      ktasks_def terminated_def owned_by_def)

lemma first_task:
  assumes r: "reset_state s" and f: "heap_fresh (kheap s)" and prio: "prio < configMAX_PRIORITIES"
    and m: "initial_frame \<le> depth" "depth * 4 + 200 < heap_top (kheap s) - heap_base (kheap s)"
  obtains s' t ns n where "xTaskCreate cfg code name depth par prio s = Some (s', t)"
    and "prestart (heap_base (kheap s)) (heap_top (kheap s)) ns n t s'" and "ktasks s' = {t}" and "t \<noteq> 0"
    and "pxCurrentTCB s' = t" and "uxPriority (tcb s' t) = prio" and "kernel.more s' = kernel.more s"
    and "heap_top (kheap s) - heap_base (kheap s) \<le> n + depth * 4 + 126"
proof -
  let ?S = "heap_base (kheap s)" and ?E = "heap_top (kheap s)"
  have q: "quiet s" and ls: "lists s = empty_store" using r by (simp_all add: reset_state_def quiet_def items_def)
  obtain h2 stk new c mm ns' n' where
    res: "xTaskCreate cfg code name depth par prio s =
      Some (prvAddNewTaskToReadyList new
        ((set_item_value (EventItem new) (of_nat configMAX_PRIORITIES - of_nat prio) (s\<lparr>kheap := h2\<rparr>))
          \<lparr>tcb := (tcb s)(new := c), stack_mem := mm\<rparr>), new)"
    and c: "uxPriority c = prio" "pxStack c = stk" "ucNotifyState c 0 = taskNOT_WAITING_NOTIFICATION"
    and nz: "new \<noteq> 0" "stk \<noteq> new" and h: "heap_ok h2 ?S (filled ns' n')" "pxEnd h2 = pxEnd (prvHeapInit (kheap s))"
    and lv: "\<exists>k \<ge> initial_frame * 4. (stk, k) \<in> live_regions ?S (filled ns' n')"
      "\<exists>k \<ge> sizeof_TCB. (new, k) \<in> live_regions ?S (filled ns' n')"
    and n': "heap_top (kheap s) - heap_base (kheap s) \<le> n' + depth * 4 + 126"
    by (rule task_blocks [OF q m prio fresh_start(1) [OF f] fresh_malloc [OF f]]) (simp_all add: ls)
  let ?s4 = "(set_item_value (EventItem new) (of_nat configMAX_PRIORITIES - of_nat prio) (s\<lparr>kheap := h2\<rparr>))
    \<lparr>tcb := (tcb s)(new := c), stack_mem := mm\<rparr>"
  let ?r = "prvAddNewTaskToReadyList new ?s4"
  have l4: "alist (lists ?s4) = (\<lambda>_. [])" "aidx (lists ?s4) = (\<lambda>_. None)" "acont (lists ?s4) = (\<lambda>_. None)"
    using ls by (auto simp: set_item_value_def a_set_value_def fun_eq_iff)
  have i: "prvInitialiseTaskLists (?s4\<lparr>uxCurrentNumberOfTasks := 1, pxCurrentTCB := new\<rparr>) =
      ?s4\<lparr>uxCurrentNumberOfTasks := 1, pxCurrentTCB := new, pxDelayedTaskList := DelayedTaskList1,
        pxOverflowDelayedTaskList := DelayedTaskList2\<rparr>"
    by (subst initialise_empty_lists) (use l4 in simp_all)
  have z: "pxCurrentTCB ?s4 = 0" "uxCurrentNumberOfTasks ?s4 = 0" "\<not> xSchedulerRunning ?s4"
    "uxTopReadyPriority ?s4 = 0" "tcb ?s4 new = c"
    using r by (simp_all add: reset_state_def set_item_value_def)
  have eq: "?r = ?s4\<lparr>uxCurrentNumberOfTasks := 1, pxCurrentTCB := new, pxDelayedTaskList := DelayedTaskList1,
      pxOverflowDelayedTaskList := DelayedTaskList2, uxTaskNumber := uxTaskNumber ?s4 + 1,
      uxTopReadyPriority := prio, lists := a_insert_end (Ready prio) (StateItem new) (lists ?s4)\<rparr>"
    using z i c(1) by (simp add: prvAddNewTaskToReadyList_def prvAddTaskToReadyList_eq Let_def)
  have w: "awf UNIV (lists ?r)" unfolding eq using l4 ls by (simp add: set_item_value_def)
  have a: "acont (lists ?r) = (\<lambda>_. None)(StateItem new := Some (Ready prio))"
    "alist (lists ?r) l = (if l = Ready prio then [StateItem new] else [])" for l
    using l4 by (auto simp: eq fun_eq_iff a_insert_end_def a_put_def)
  have g: "tcb ?r = (tcb s)(new := c)" "pxCurrentTCB ?r = new" "kheap ?r = h2" "uxCurrentNumberOfTasks ?r = 1"
    "uxDeletedTasksWaitingCleanUp ?r = 0" "pxDelayedTaskList ?r = DelayedTaskList1" "kernel.more ?r = kernel.more s"
    "pxOverflowDelayedTaskList ?r = DelayedTaskList2" "uxTopReadyPriority ?r = prio" "\<not> xSchedulerRunning ?r"
    "uxSchedulerSuspended ?r = 0" "xPendedTicks ?r = 0" "\<not> xYieldPending ?r"
    using r unfolding eq by (simp_all add: reset_state_def set_item_value_def)
  have k: "ktasks ?r = {new}" "terminated ?r = {}" by (auto simp: ktasks_def terminated_def a)
  have ki: "kinv ?r"
    unfolding kinv_def kinv0_def places_def delays_def readies_def unblock_times_def none_pending_def vsorted_def
    using w prio nz c by (simp add: a g)
  have o: "owned_by ?S (filled ns' n') ?r"
    unfolding owned_by_def k g using lv nz c by simp
  have "tinv ?S ?E (?r\<lparr>xIdleTaskHandle := new\<rparr>)"
    using ki o h fresh_start(2) [OF f] c
    by (auto simp: tinv_def owned_def counted_def waiting_free_def is_ready_def a g k)
  moreover have "quiet ?r" by (simp add: quiet_def items_def a g)
  ultimately have "prestart ?S ?E ns' n' new ?r"
    using h fresh_start(2) [OF f] o by (auto simp: prestart_def a g k)
  then show ?thesis by (rule that [OF res]) (use k nz g c n' in simp_all)
qed

lemma add_new_task_record:
  assumes "pxCurrentTCB x \<noteq> 0" and "\<not> xSchedulerRunning x"
  shows "prvAddNewTaskToReadyList new x =
    x\<lparr>uxCurrentNumberOfTasks := uxCurrentNumberOfTasks x + 1,
      pxCurrentTCB := (if uxPriority (tcb x (pxCurrentTCB x)) \<le> uxPriority (tcb x new) then new else pxCurrentTCB x),
      uxTaskNumber := uxTaskNumber x + 1, uxTopReadyPriority := max (uxTopReadyPriority x) (uxPriority (tcb x new)),
      lists := a_insert_end (Ready (uxPriority (tcb x new))) (StateItem new) (lists x)\<rparr>"
  using assms by (simp add: prvAddNewTaskToReadyList_def prvAddTaskToReadyList_eq Let_def)

lemma add_new_task_idle:
  assumes "pxCurrentTCB x \<noteq> 0" and "\<not> xSchedulerRunning x"
  shows "prvAddNewTaskToReadyList new (x\<lparr>xIdleTaskHandle := i\<rparr>) =
    (prvAddNewTaskToReadyList new x)\<lparr>xIdleTaskHandle := i\<rparr>"
  using assms by (subst (1 2) add_new_task_record) (simp_all del: if_split)

lemma add_new_task_sel:
  assumes "pxCurrentTCB x \<noteq> 0" and "\<not> xSchedulerRunning x"
  shows "pxCurrentTCB (prvAddNewTaskToReadyList new x) =
      (if uxPriority (tcb x (pxCurrentTCB x)) \<le> uxPriority (tcb x new) then new else pxCurrentTCB x)"
    and "kernel.more (prvAddNewTaskToReadyList new x) = kernel.more x"
    and "xIdleTaskHandle (prvAddNewTaskToReadyList new x) = xIdleTaskHandle x"
    and "kheap (prvAddNewTaskToReadyList new x) = kheap x"
    and "acont (lists (prvAddNewTaskToReadyList new x)) =
      (acont (lists x))(StateItem new := Some (Ready (uxPriority (tcb x new))))"
    and "l \<noteq> Ready (uxPriority (tcb x new)) \<Longrightarrow> items (prvAddNewTaskToReadyList new x) l = items x l"
    and "quiet x \<Longrightarrow> quiet (prvAddNewTaskToReadyList new x)"
    and "\<not> xSchedulerRunning (prvAddNewTaskToReadyList new x)"
  unfolding add_new_task_record [OF assms] using assms(2) by (simp_all add: quiet_def items_def)

lemma prestart_tasks:
  assumes "prestart S E ns n i s"
  shows "kinv s" and "pxCurrentTCB s \<in> ktasks s" and "pxCurrentTCB s \<noteq> 0" and "finite (ktasks s)"
    and "t \<in> ktasks s \<Longrightarrow> is_ready s t" and "quiet s" and "\<not> xSchedulerRunning s"
proof -
  have t: "tinv S E (s\<lparr>xIdleTaskHandle := i\<rparr>)" and r: "\<And>t l. acont (lists s) t = Some l \<Longrightarrow> \<exists>p. l = Ready p"
    using assms by (auto simp: prestart_def)
  show k: "kinv s" using tinv_kinv [OF t] by simp
  show c: "pxCurrentTCB s \<in> ktasks s" by (rule kinv_current [OF k])
  show "pxCurrentTCB s \<noteq> 0" using ktasks_nz [OF k c] .
  show "finite (ktasks s)" using t by (simp add: tinv_def counted_def)
  show "t \<in> ktasks s \<Longrightarrow> is_ready s t"
    using k r by (fastforce simp: kinv_def kinv0_def places_def is_ready_def ktasks_def)
  show "quiet s" "\<not> xSchedulerRunning s" using assms by (simp_all add: prestart_def)
qed

lemma next_task:
  assumes p: "prestart S E ns n i s" and prio: "prio < configMAX_PRIORITIES"
    and m: "initial_frame \<le> depth" "depth * 4 + 200 < n"
  obtains s' t ns' n' where "xTaskCreate cfg code name depth par prio s = Some (s', t)"
    and "prestart S E ns' n' i s'" and "ktasks s' = insert t (ktasks s)" and "t \<notin> ktasks s" and "t \<noteq> 0"
    and "pxCurrentTCB s' = (if uxPriority (tcb s (pxCurrentTCB s)) \<le> prio then t else pxCurrentTCB s)"
    and "uxPriority (tcb s' t) = prio" and "\<forall>u \<in> ktasks s. tcb s' u = tcb s u" and "kernel.more s' = kernel.more s"
    and "xIdleTaskHandle s' = xIdleTaskHandle s" and "n \<le> n' + depth * 4 + 126"
proof -
  have h: "heap_ok (kheap s) S (filled ns n)" "pxEnd (kheap s) = E" "owned_by S (filled ns n) s"
    and ti: "tinv S E (s\<lparr>xIdleTaskHandle := i\<rparr>)"
    and rd: "\<And>t l. acont (lists s) t = Some l \<Longrightarrow> \<exists>p. l = Ready p" using p by (auto simp: prestart_def)
  note ps = prestart_tasks [OF p]
  have free: "acont (lists s) (StateItem x) = None \<and> acont (lists s) (EventItem x) = None"
    if "\<And>k. (x, k) \<notin> live_regions S (filled ns n)" for x
  proof -
    have "x \<notin> ktasks s" using that h(3) by (auto simp: owned_by_def)
    then show ?thesis using event_of_task [OF ps(1)] by (simp add: ktasks_def)
  qed
  obtain h2 stk new c mm ns' n' where
    res: "xTaskCreate cfg code name depth par prio s =
      Some (prvAddNewTaskToReadyList new
        ((set_item_value (EventItem new) (of_nat configMAX_PRIORITIES - of_nat prio) (s\<lparr>kheap := h2\<rparr>))
          \<lparr>tcb := (tcb s)(new := c), stack_mem := mm\<rparr>), new)"
    and c: "uxPriority c = prio" "pxStack c = stk" "ucNotifyState c 0 = taskNOT_WAITING_NOTIFICATION"
    and nz: "new \<noteq> 0" "stk \<noteq> new" and h2: "heap_ok h2 S (filled ns' n')" "pxEnd h2 = pxEnd (kheap s)"
    and fr: "\<And>k. (stk, k) \<notin> live_regions S (filled ns n)" "\<And>k. (new, k) \<notin> live_regions S (filled ns n)"
    and lv: "\<exists>k \<ge> initial_frame * 4. (stk, k) \<in> live_regions S (filled ns' n')"
      "\<exists>k \<ge> sizeof_TCB. (new, k) \<in> live_regions S (filled ns' n')"
    and mono: "live_regions S (filled ns n) \<subseteq> live_regions S (filled ns' n')" and n': "n \<le> n' + depth * 4 + 126"
    by (rule task_blocks [where cfg = cfg and code = code and name = name and par = par,
        OF ps(6) m prio h(1) HOL.refl free]) simp_all
  let ?v = "of_nat configMAX_PRIORITIES - of_nat prio :: u32"
  let ?s2 = "s\<lparr>xIdleTaskHandle := i, kheap := h2\<rparr>"
  let ?x = "(set_item_value (EventItem new) ?v (s\<lparr>kheap := h2\<rparr>))\<lparr>tcb := (tcb s)(new := c), stack_mem := mm\<rparr>"
  let ?y = "(set_item_value (EventItem new) ?v ?s2)\<lparr>tcb := (tcb ?s2)(new := c), stack_mem := mm\<rparr>"
  define X where "X = ?x"
  define R where "R = prvAddNewTaskToReadyList new X"
  have o: "owned_by S (filled ns' n') s" by (rule owned_by_mono [OF h(3) mono])
  have t2: "tinv S E ?s2"
    using tinv_heap [OF ti h2(1)] h2(2) h(2) o by simp
  have new: "new \<notin> ktasks s" using free [OF fr(2)] by (simp add: ktasks_def)
  have nu: "new \<notin> ktasks ?s2" "owned_by S (filled ns' n') ?s2" "heap_ok (kheap ?s2) S (filled ns' n')"
    using new o h2(1) by simp_all
  have ap: "\<forall>t \<in> ktasks ?s2. t \<noteq> stk \<and> pxStack (tcb ?s2 t) \<noteq> stk \<and> pxStack (tcb ?s2 t) \<noteq> new"
    using h(3) fr by (fastforce simp: owned_by_def)
  obtain k1 k2 where lk: "(new, k1) \<in> live_regions S (filled ns' n')" "sizeof_TCB \<le> k1" "initial_frame * 4 \<le> k2"
      "(stk, k2) \<in> live_regions S (filled ns' n')"
    using lv by blast
  have cc: "uxPriority c < configMAX_PRIORITIES" using c prio by simp
  note nt = new_task_tinv [OF t2 nu(3,2,1) nz(1) lk nz(2) ap cc c(2,3) HOL.refl, where v = ?v and mm = mm]
  have xy: "?y = X\<lparr>xIdleTaskHandle := i\<rparr>" by (simp add: X_def set_item_value_def)
  have cx: "pxCurrentTCB X = pxCurrentTCB s" "\<not> xSchedulerRunning X" "tcb X = (tcb s)(new := c)" "kheap X = h2"
    "acont (lists X) = acont (lists s)" "kernel.more X = kernel.more s" "xIdleTaskHandle X = xIdleTaskHandle s"
    using ps(7) by (simp_all add: X_def set_item_value_def)
  then have cz: "pxCurrentTCB X \<noteq> 0" using ps(3) by simp
  note sel = add_new_task_sel [where new = new, OF cz cx(2), folded R_def]
  have ry: "prvAddNewTaskToReadyList new ?y = R\<lparr>xIdleTaskHandle := i\<rparr>" unfolding xy R_def by (rule add_new_task_idle [OF cz cx(2)])
  have qx: "quiet X" using ps(6) by (simp add: X_def quiet_def items_def set_item_value_def a_set_value_def)
  have kr: "ktasks R = insert new (ktasks s)" using nt(2) unfolding ry by simp
  have tr: "tcb R = (tcb s)(new := c)" using nt(4) unfolding ry by simp
  have "owned_by S (filled ns' n') R"
    by (rule owned_by_add [OF o lk nz(2) _ c(2) kr tr]) (use ap in simp)
  moreover have "\<forall>t l. acont (lists R) t = Some l \<longrightarrow> (\<exists>p. l = Ready p)" using rd by (simp add: sel(5) cx)
  ultimately have "prestart S E ns' n' i R"
    using nt(1) sel qx h2 h(2) cx unfolding prestart_def ry by simp
  moreover have "pxCurrentTCB s \<noteq> new" using ps(2) new by auto
  ultimately show ?thesis
    by (intro that [OF res [folded X_def R_def]]) (use kr new nz(1) sel(1-3) cx tr c(1) n' in simp_all)
qed

text \<open>A queue created before the scheduler runs, as the queue of the timer task is.\<close>

lemma prestart_ready:
  assumes "prestart S E ns n i s"
  shows "(\<And>p. l \<noteq> Ready p) \<Longrightarrow> acont (lists s) j \<noteq> Some l"
  using assms by (auto simp: prestart_def)

lemma init_list_fields [simp]:
  "tcb (init_list l s) = tcb s" "pxCurrentTCB (init_list l s) = pxCurrentTCB s" "kheap (init_list l s) = kheap s"
  "xIdleTaskHandle (init_list l s) = xIdleTaskHandle s" "kernel.more (init_list l s) = kernel.more s"
  "acont (lists (init_list l s)) = acont (lists s)" "xSchedulerRunning (init_list l s) = xSchedulerRunning s"
  "l \<noteq> PendingReadyList \<Longrightarrow> quiet (init_list l s) = quiet s" "ktasks (init_list l s) = ktasks s"
  by (simp_all add: init_list_def a_initialise_def quiet_def items_def ktasks_def)

lemma prestart_own:
  "prestart S E ns n (xIdleTaskHandle s) s \<longleftrightarrow>
     quiet s \<and> \<not> xSchedulerRunning s \<and> (\<forall>t l. acont (lists s) t = Some l \<longrightarrow> (\<exists>p. l = Ready p)) \<and>
     heap_ok (kheap s) S (filled ns n) \<and> pxEnd (kheap s) = E \<and> owned_by S (filled ns n) s \<and> tinv S E s"
  by (simp add: prestart_def)

lemma prestart_list:
  assumes p: "prestart S E ns n (xIdleTaskHandle s) s" and l: "\<And>p. l \<noteq> Ready p" "l \<noteq> PendingReadyList"
  shows "prestart S E ns n (xIdleTaskHandle (init_list l s)) (init_list l s)"
proof -
  have "tinv S E s" using p unfolding prestart_own by blast
  then have t: "tinv S E (init_list l s)" by (rule init_list_tinv(1) [OF _ prestart_ready [OF p l(1)]])
  have "owned_by S (filled ns n) (init_list l s) = owned_by S (filled ns n) s" by (simp add: owned_by_def)
  then show ?thesis using p t l(2) unfolding prestart_own by simp
qed

lemma prestart_ksame:
  assumes p: "prestart S E ns n (xIdleTaskHandle s) s" and k: "ksame s s'" and h: "kheap s' = kheap s"
    and x: "xPendedTicks s' = xPendedTicks s" "xYieldPending s' = xYieldPending s"
  shows "prestart S E ns n (xIdleTaskHandle s') s'"
proof -
  have "tinv S E s" using p unfolding prestart_own by blast
  then have "tinv S E s'" by (rule tinv_ksame [OF _ k])
  then show ?thesis
    using p k h x unfolding prestart_own by (simp add: ksame_def quiet_def items_def owned_by_def ktasks_def)
qed

lemma prestart_heap:
  assumes p: "prestart S E ns n (xIdleTaskHandle s) s" and h: "heap_ok h S (filled ns' n')" "pxEnd h = E"
    and m: "live_regions S (filled ns n) \<subseteq> live_regions S (filled ns' n')"
  shows "prestart S E ns' n' (xIdleTaskHandle (s\<lparr>kheap := h\<rparr>)) (s\<lparr>kheap := h\<rparr>)"
proof -
  have o: "owned_by S (filled ns' n') s" using p owned_by_mono [OF _ m] by (auto simp: prestart_def)
  have "tinv S E s" using p unfolding prestart_own by blast
  then have "tinv S E (s\<lparr>kheap := h\<rparr>)" by (rule tinv_heap [OF _ h o])
  then show ?thesis using p h o unfolding prestart_own by (simp add: quiet_def items_def)
qed

lemma queue_prestart:
  fixes s :: "'a qkernel_scheme"
  assumes p: "prestart S E ns n (xIdleTaskHandle s) s" and len: "0 < len" "len < w32" "72 + len * z + 40 < n" and base: "z \<le> S"
  obtains s' q ns' n' where "xQueueGenericCreate len z s = Some (s', q)" and "q \<noteq> 0"
    and "prestart S E ns' n' (xIdleTaskHandle s') s'" and "qready z len (queues s' q)" and "ktasks s' = ktasks s"
    and "tcb s' = tcb s" and "pxCurrentTCB s' = pxCurrentTCB s" and "xIdleTaskHandle s' = xIdleTaskHandle s"
    and "qkernel.more s' = qkernel.more s" and "n \<le> n' + len * z + 87"
proof -
  have h: "heap_ok (kheap s) S (filled ns n)" "pxEnd (kheap s) = E" using p by (simp_all add: prestart_def)
  note ps = prestart_tasks [OF p]
  let ?m = "72 + len * z"
  obtain h1 q where b: "pvPortMalloc ?m (kheap s) = Some (h1, q)" "q \<noteq> 0"
      "heap_ok h1 S (filled (ns @ [block_size ?m]) (n - block_size ?m))" "pxEnd h1 = pxEnd (kheap s)"
      "live_regions S (filled (ns @ [block_size ?m]) (n - block_size ?m)) =
        insert (q, block_size ?m - 8) (live_regions S (filled ns n))"
    by (rule malloc_last [OF h(1), of ?m]) (use len in auto)
  note bs = block_size_bounds [of ?m]
  have "S + n \<le> E" "E < w32" using h by (auto simp: heap_ok_def heap_layout_def filled_def)
  moreover have "S + 8 \<le> q" "q + (block_size ?m - 8) \<le> E"
    using live_bounds [OF b(3), of q "block_size ?m - 8"] b(4,5) h(2) by auto
  ultimately have bnd: "q + ?m < w32" "z \<le> q" "len * z < w32" "?m < w32"
    using len bs base by linarith+
  then have w: "wmul len z = len * z" "wadd sizeof_Queue (len * z) = ?m" "wadd q sizeof_Queue = q + 72"
    by (simp_all add: sizeof_Queue_def)
  have g: "heapSIZE_MAX div len \<ge> z" "heapSIZE_MAX - sizeof_Queue \<ge> wmul len z"
    using bnd len w(1) by (simp_all add: heapSIZE_MAX_def sizeof_Queue_def less_eq_div_iff_mult_less_eq mult.commute)
  have k: "kernel_malloc ?m s = Some (s\<lparr>kheap := h1\<rparr>, q)" by (rule quiet_malloc [OF ps(6) b(1)])
  have p1: "prestart S E (ns @ [block_size ?m]) (n - block_size ?m) (xIdleTaskHandle (s\<lparr>kheap := h1\<rparr>)) (s\<lparr>kheap := h1\<rparr>)"
    by (rule prestart_heap [OF p b(3)]) (use b(4,5) h(2) in auto)
  let ?h = "if z = 0 then q else q + 72"
  let ?f = "\<lambda>Q. reset_pointers (Q\<lparr>pcHead := ?h, uxItemSize := z, uxLength := len\<rparr>)"
  let ?u = "upd_queue q ?f (s\<lparr>kheap := h1\<rparr>)"
  let ?w = "init_list (WaitingToReceive q) (init_list (WaitingToSend q) ?u)"
  have "prestart S E (ns @ [block_size ?m]) (n - block_size ?m) (xIdleTaskHandle ?u) ?u"
    by (rule prestart_ksame [OF p1 ksame_upd_queue]) (simp_all add: upd_queue_def)
  from prestart_list [OF prestart_list [OF this], of "WaitingToSend q" "WaitingToReceive q"]
  have pw: "prestart S E (ns @ [block_size ?m]) (n - block_size ?m) (xIdleTaskHandle ?w) ?w" by simp
  have "heapSIZE_MAX div uxLength (?f (queues s q)) \<ge> uxItemSize (?f (queues s q))"
    using g by (simp add: reset_pointers_def)
  then have res: "xQueueGenericCreate len z s = Some (?w, q)"
    using len g k w b(2)
    by (simp add: xQueueGenericCreate_def prvInitialiseNewQueue_def xQueueGenericReset_def configASSERT_def
        upd_queue_def Let_def)
  have "qready z len (?f (queues s q))"
    by (rule fresh_queue_ready(1) [where h = ?h]) (use len bnd b(2) in auto)
  then have "qready z len (queues ?w q)" by (simp add: init_list_def upd_queue_def)
  then show ?thesis
    by (intro that [OF res b(2) pw]) (use bs in \<open>simp_all add: upd_queue_def init_list_def ktasks_def a_initialise_def\<close>)
qed

lemma registry_prestart:
  assumes "prestart S E ns n (xIdleTaskHandle s) s" and "q \<noteq> 0"
  obtains s' where "vQueueAddToRegistry q name s = Some s'" and "prestart S E ns n (xIdleTaskHandle s') s'"
    and "tcb s' = tcb s" and "ktasks s' = ktasks s" and "pxCurrentTCB s' = pxCurrentTCB s"
    and "xIdleTaskHandle s' = xIdleTaskHandle s" and "queues s' = queues s" and "qkernel.more s' = qkernel.more s"
proof -
  let ?e = "if name \<noteq> None then registry_slot q None 0 (xQueueRegistry s) else None"
  let ?u = "case ?e of None \<Rightarrow> s | Some ux \<Rightarrow> s\<lparr>xQueueRegistry := (xQueueRegistry s)[ux := \<lparr>pcQueueName = name, xHandle = q\<rparr>]\<rparr>"
  have r: "vQueueAddToRegistry q name s = Some ?u" using assms(2) by (simp add: vQueueAddToRegistry_def configASSERT_def)
  have k: "ksame s ?u" "kheap ?u = kheap s" "xPendedTicks ?u = xPendedTicks s" "xYieldPending ?u = xYieldPending s"
    by (auto simp: ksame_def split: option.split intro!: exI [of _ "payload (kheap s)"])
  show ?thesis
    by (rule that [OF r prestart_ksame [OF assms(1) k]]) (auto simp: ktasks_def split: option.split)
qed

lemma timer_task_prestart:
  fixes s :: "'a tkernel_scheme"
  assumes p: "prestart S E ns n (xIdleTaskHandle s) s" and z: "xTimerQueue s = 0" and n: "1100 < n" and base: "12 \<le> S"
  obtains s' ns' n' where "xTimerCreateTimerTask cfg code s = Some s'" and "prestart S E ns' n' (xIdleTaskHandle s') s'"
    and "xTimerQueue s' \<noteq> 0" and "qready 12 10 (queues s' (xTimerQueue s'))"
    and "ktasks s' = insert (xTimerTaskHandle s') (ktasks s)" and "xTimerTaskHandle s' \<notin> ktasks s"
    and "uxPriority (tcb s' (xTimerTaskHandle s')) = 3" and "\<forall>u \<in> ktasks s. tcb s' u = tcb s u"
    and "pxCurrentTCB s' =
      (if uxPriority (tcb s (pxCurrentTCB s)) \<le> 3 then xTimerTaskHandle s' else pxCurrentTCB s)"
    and "xIdleTaskHandle s' = xIdleTaskHandle s"
proof -
  let ?s1 = "s\<lparr>tlists := a_initialise xActiveTimerList2 (a_initialise xActiveTimerList1 (tlists s)),
    pxCurrentTimerList := xActiveTimerList1, pxOverflowTimerList := xActiveTimerList2\<rparr>"
  have k1: "ksame s ?s1" by (simp add: ksame_def exI [of _ "payload (kheap s)"])
  have p1: "prestart S E ns n (xIdleTaskHandle ?s1) ?s1" by (rule prestart_ksame [OF p k1]) simp_all
  obtain s2 q ns2 n2 where q: "xQueueGenericCreate 10 12 ?s1 = Some (s2, q)" "q \<noteq> 0"
    and p2: "prestart S E ns2 n2 (xIdleTaskHandle s2) s2" and f2: "qready 12 10 (queues s2 q)" "ktasks s2 = ktasks ?s1"
    "tcb s2 = tcb ?s1" "pxCurrentTCB s2 = pxCurrentTCB ?s1" "xIdleTaskHandle s2 = xIdleTaskHandle ?s1"
    and n2: "n \<le> n2 + 10 * 12 + 87"
    by (rule queue_prestart [OF p1, of 10 12]) (use n base in \<open>auto simp: w32_def\<close>)
  have p2': "prestart S E ns2 n2 (xIdleTaskHandle (s2\<lparr>xTimerQueue := q\<rparr>)) (s2\<lparr>xTimerQueue := q\<rparr>)"
    by (rule prestart_ksame [OF p2]) (simp_all add: ksame_def exI [of _ "payload (kheap s2)"])
  obtain s3 where r: "vQueueAddToRegistry q (Some ''TmrQ'') (s2\<lparr>xTimerQueue := q\<rparr>) = Some s3"
    and p3: "prestart S E ns2 n2 (xIdleTaskHandle s3) s3"
    and f3: "tcb s3 = tcb s2" "ktasks s3 = ktasks s2" "pxCurrentTCB s3 = pxCurrentTCB s2"
    "xIdleTaskHandle s3 = xIdleTaskHandle s2" "queues s3 = queues s2" "qkernel.more s3 = qkernel.more (s2\<lparr>xTimerQueue := q\<rparr>)"
    by (rule registry_prestart [OF p2' q(2), of "Some ''TmrQ''"]) (simp add: ktasks_def)
  have tq: "xTimerQueue s3 = q" using f3(6) by (cases s3; cases s2) simp
  obtain s4 t ns4 n4 where c: "xTaskCreate cfg code ''Tmr Svc'' 128 0 3 s3 = Some (s4, t)"
    and p4: "prestart S E ns4 n4 (xIdleTaskHandle s3) s4" and f4: "ktasks s4 = insert t (ktasks s3)" "t \<notin> ktasks s3" "t \<noteq> 0"
    "pxCurrentTCB s4 = (if uxPriority (tcb s3 (pxCurrentTCB s3)) \<le> 3 then t else pxCurrentTCB s3)"
    "uxPriority (tcb s4 t) = 3" "\<forall>u \<in> ktasks s3. tcb s4 u = tcb s3 u" "kernel.more s4 = kernel.more s3"
    "xIdleTaskHandle s4 = xIdleTaskHandle s3"
    by (rule next_task [OF p3, of 3 128]) (use n n2 in \<open>auto simp: initial_frame_def configMAX_PRIORITIES_def\<close>)
  have m4: "queues s4 = queues s3" "xTimerQueue s4 = xTimerQueue s3" using f4(7) by (cases s4; cases s3; simp)+
  let ?s5 = "s4\<lparr>xTimerTaskHandle := t\<rparr>"
  have p5: "prestart S E ns4 n4 (xIdleTaskHandle ?s5) ?s5"
    by (rule prestart_ksame [of S E ns4 n4 s4])
      (use p4 f4(8) in \<open>simp_all add: ksame_def exI [of _ "payload (kheap s4)"]\<close>)
  have res: "xTimerCreateTimerTask cfg code s = Some ?s5"
    using z q r c f4(3) tq
    by (simp add: xTimerCreateTimerTask_def prvCheckForValidListAndQueue_def configTIMER_QUEUE_LENGTH_def
        sizeof_message_def configTIMER_TASK_PRIORITY_def configTIMER_TASK_STACK_DEPTH_def configASSERT_def Let_def)
  show ?thesis
    by (rule that [OF res p5]) (use f2 f3 f4 m4 tq q(2) in \<open>simp_all add: ktasks_def\<close>)
qed

lemma prestart_idle:
  assumes p: "prestart S E ns n i s" and t: "t \<in> ktasks s"
  shows "prestart S E ns n (xIdleTaskHandle (s\<lparr>xIdleTaskHandle := t\<rparr>)) (s\<lparr>xIdleTaskHandle := t\<rparr>)"
proof -
  have "is_ready s t" by (rule prestart_tasks(5) [OF p t])
  then have "tinv S E (s\<lparr>xIdleTaskHandle := t\<rparr>)"
    using p by (auto simp: prestart_def tinv_def owned_def counted_def waiting_free_def is_ready_def)
  then show ?thesis using p unfolding prestart_own by (simp add: prestart_def quiet_def items_def)
qed

text \<open>With nobody delayed, the tick count and the next unblock time can be set.\<close>

lemma start_running:
  assumes p: "prestart S E ns n (xIdleTaskHandle s) s"
  shows "tinv S E (s\<lparr>xNextTaskUnblockTime := v, xSchedulerRunning := True, xTickCount := c\<rparr>)"
    and "running (s\<lparr>xNextTaskUnblockTime := v, xSchedulerRunning := True, xTickCount := c\<rparr>)"
proof -
  let ?r = "s\<lparr>xNextTaskUnblockTime := v, xSchedulerRunning := True, xTickCount := c\<rparr>"
  have t: "tinv S E s" using p unfolding prestart_own by blast
  have dl: "pxDelayedTaskList s \<noteq> Ready q" "pxOverflowDelayedTaskList s \<noteq> Ready q" for q
    using tinv_kinv [OF t] by (auto simp: kinv_def kinv0_def delays_def)
  have "acont (lists s) j \<noteq> Some (pxDelayedTaskList s)" "acont (lists s) j \<noteq> Some (pxOverflowDelayedTaskList s)" for j
    using prestart_ready [OF p, of _ j] dl by blast+
  then have "kinv ?r"
    using tinv_kinv [OF t] by (simp add: kinv_def kinv0_def places_def delays_def readies_def unblock_times_def none_pending_def)
  then show "tinv S E ?r"
    using t by (simp add: tinv_def owned_def owned_by_def counted_def ktasks_def terminated_def is_ready_def waiting_free_def)
  show "running ?r"
    using prestart_tasks(5) [OF p prestart_tasks(2) [OF p]] by (simp add: running_def is_ready_def)
qed

lemma vTaskStartScheduler_ok:
  fixes s :: "'a tkernel_scheme"
  assumes p: "prestart S E ns n i s" and z: "xTimerQueue s = 0" and n: "1800 < n" and base: "12 \<le> S"
    and cur: "uxPriority (tcb s (pxCurrentTCB s)) > 3"
  shows "\<exists>s'. vTaskStartScheduler cfg idle timer s = Some s' \<and> tinv S E s' \<and> running s' \<and>
    pxCurrentTCB s' = pxCurrentTCB s \<and> xTickCount s' = 0 \<and> uxSchedulerSuspended s' = 0 \<and>
    xIdleTaskHandle s' \<notin> ktasks s \<and> uxPriority (tcb s' (xIdleTaskHandle s')) = 0 \<and>
    xTimerTaskHandle s' \<notin> insert (xIdleTaskHandle s') (ktasks s) \<and> uxPriority (tcb s' (xTimerTaskHandle s')) = 3 \<and>
    ktasks s' = insert (xTimerTaskHandle s') (insert (xIdleTaskHandle s') (ktasks s)) \<and>
    (\<forall>t \<in> ktasks s. tcb s' t = tcb s t) \<and>
    xTimerQueue s' \<noteq> 0 \<and> qready 12 10 (queues s' (xTimerQueue s'))"
proof -
  obtain s1 t ns1 n1 where c: "xTaskCreate cfg idle ''IDLE'' 128 0 0 s = Some (s1, t)"
    and p1: "prestart S E ns1 n1 i s1" and f1: "ktasks s1 = insert t (ktasks s)" "t \<notin> ktasks s" "t \<noteq> 0"
    "pxCurrentTCB s1 = (if uxPriority (tcb s (pxCurrentTCB s)) \<le> 0 then t else pxCurrentTCB s)"
    "uxPriority (tcb s1 t) = 0" "\<forall>u \<in> ktasks s. tcb s1 u = tcb s u" "kernel.more s1 = kernel.more s"
    and n1: "n \<le> n1 + 128 * 4 + 126"
    by (rule next_task [OF p, of 0 128]) (use n in \<open>auto simp: initial_frame_def configMAX_PRIORITIES_def\<close>)
  let ?s1 = "s1\<lparr>xIdleTaskHandle := t\<rparr>"
  have p1': "prestart S E ns1 n1 (xIdleTaskHandle ?s1) ?s1" by (rule prestart_idle [OF p1]) (simp add: f1(1))
  have z1: "xTimerQueue ?s1 = 0" using f1(7) z by (cases s; cases s1) simp
  obtain s2 ns2 n2 where d: "xTimerCreateTimerTask cfg timer ?s1 = Some s2" and p2: "prestart S E ns2 n2 (xIdleTaskHandle s2) s2"
    and f2: "xTimerQueue s2 \<noteq> 0" "qready 12 10 (queues s2 (xTimerQueue s2))"
    "ktasks s2 = insert (xTimerTaskHandle s2) (ktasks ?s1)" "xTimerTaskHandle s2 \<notin> ktasks ?s1"
    "uxPriority (tcb s2 (xTimerTaskHandle s2)) = 3" "\<forall>u \<in> ktasks ?s1. tcb s2 u = tcb ?s1 u"
    "pxCurrentTCB s2 = (if uxPriority (tcb ?s1 (pxCurrentTCB ?s1)) \<le> 3 then xTimerTaskHandle s2 else pxCurrentTCB ?s1)"
    "xIdleTaskHandle s2 = xIdleTaskHandle ?s1"
    by (rule timer_task_prestart [OF p1' z1]) (use n n1 base in auto)
  let ?r = "s2\<lparr>xNextTaskUnblockTime := portMAX_DELAY, xSchedulerRunning := True, xTickCount := 0\<rparr>"
  have res: "vTaskStartScheduler cfg idle timer s = Some ?r"
    using c d f1(3) by (simp add: vTaskStartScheduler_def configMINIMAL_STACK_SIZE_def configASSERT_def Let_def)
  have cs: "pxCurrentTCB s \<in> ktasks s" by (rule prestart_tasks(2) [OF p])
  have k2: "ktasks s2 = insert (xTimerTaskHandle s2) (insert t (ktasks s))" "xTimerTaskHandle s2 \<notin> insert t (ktasks s)"
    using f2(3,4) f1(1) by simp_all
  have kr: "ktasks ?r = ktasks s2" by (simp add: ktasks_def)
  have c2: "pxCurrentTCB s2 = pxCurrentTCB s" using f1(4,6) f2(7) cur cs by simp
  have su: "uxSchedulerSuspended s2 = 0" using p2 by (simp add: prestart_def quiet_def)
  have tc: "\<forall>u \<in> insert t (ktasks s). tcb s2 u = tcb s1 u" using f2(6) f1(1) by simp
  show ?thesis
    by (intro exI [of _ ?r]) (use res start_running [OF p2] f1 f2 k2 kr c2 su tc in simp)
qed

text \<open>C30: Every board boots: from the state after reset, with a heap of the configured sizes, the
  entry point of the Arduino core creates the sketch, idle and timer tasks and the timer queue,
  fails no assertion, and leaves a running system that satisfies the invariant of the task system,
  with the sketch, the task of the highest priority, as the running task.\<close>

theorem arduino_boots:
  fixes s :: "'a tkernel_scheme"
  assumes reset: "reset_state s" "xTimerQueue s = 0" and heap: "heap_fresh (kheap s)" "12 \<le> ucHeap (kheap s)"
    and board: "configTOTAL_HEAP_SIZE (kheap s) \<ge> 0x2000"
  shows "\<exists>s'. start_freertos_on_header_inclusion_impl cfg sketch idle timer early s = Some s' \<and>
    tinv (heap_base (kheap s)) (heap_top (kheap s)) s' \<and> running s' \<and> xTickCount s' = 0 \<and> uxSchedulerSuspended s' = 0 \<and>
    ktasks s' = {xTimerTaskHandle s', xIdleTaskHandle s', pxCurrentTCB s'} \<and> card (ktasks s') = 3 \<and>
    uxPriority (tcb s' (pxCurrentTCB s')) = 4 \<and> uxPriority (tcb s' (xIdleTaskHandle s')) = 0 \<and>
    uxPriority (tcb s' (xTimerTaskHandle s')) = 3 \<and>
    xTimerQueue s' \<noteq> 0 \<and> qready 12 10 (queues s' (xTimerQueue s'))"
proof -
  let ?S = "heap_base (kheap s)" and ?E = "heap_top (kheap s)"
  have sz: "0x2000 \<le> ?E - ?S + 30" "12 \<le> ?S"
    using board heap(2) by (simp_all add: heap_base_def heap_top_def)
  obtain s1 t ns n where c: "xTaskCreate cfg sketch ''Sketch Thread'' (4096 div 4) (if early then 1 else 0) 4 s = Some (s1, t)"
    and p: "prestart ?S ?E ns n t s1" and f: "ktasks s1 = {t}" "t \<noteq> 0" "pxCurrentTCB s1 = t" "uxPriority (tcb s1 t) = 4"
    "kernel.more s1 = kernel.more s" and n: "?E - ?S \<le> n + 4096 div 4 * 4 + 126"
    by (rule first_task [OF reset(1) heap(1), of 4 "4096 div 4"]) (use sz in \<open>auto simp: initial_frame_def configMAX_PRIORITIES_def\<close>)
  have z: "xTimerQueue s1 = 0" using f(5) reset(2) by (cases s; cases s1) simp
  have "1800 < n" "uxPriority (tcb s1 (pxCurrentTCB s1)) > 3" using n sz f by simp_all
  note v = vTaskStartScheduler_ok [OF p z this(1) sz(2) this(2), of cfg idle timer]
  have "xTaskGetSchedulerState s \<noteq> taskSCHEDULER_RUNNING"
    using reset(1) by (simp add: reset_state_def xTaskGetSchedulerState_def)
  then have "start_freertos_on_header_inclusion_impl cfg sketch idle timer early s = vTaskStartScheduler cfg idle timer s1"
    using c by (simp add: start_freertos_on_header_inclusion_impl_def)
  then show ?thesis using v f by auto
qed

section \<open>Delays and the idle task\<close>

lemma vTaskDelay_blocks:
  assumes inv: "tinv S E s" and block: "may_block s" and n: "n > 0" and none: "xPendedTicks s = 0"
  shows "\<exists>s'. vTaskDelay n s = Some s' \<and> tinv S E s' \<and>
    (\<forall>k. \<exists>s2 sw. run_ticks k s' = Some (s2, sw) \<and> (is_ready s2 (pxCurrentTCB s) \<longleftrightarrow> unat n \<le> k))"
proof -
  have c: "running s" "uxSchedulerSuspended s = 0" "pxCurrentTCB s \<noteq> xIdleTaskHandle s"
    using block by (simp_all add: may_block_def)
  obtain s1 r y where b: "prvAddCurrentTaskToDelayedList n False (vTaskSuspendAll s) = Some s1"
      "xTaskResumeAll s1 = Some (r, y)" "xTickCount r = xTickCount s" "uxSchedulerSuspended r = 0"
      "aval (lists r) (StateItem (pxCurrentTCB s)) = xTickCount s + n"
      "acont (lists r) (StateItem (pxCurrentTCB s)) = Some DelayedTaskList1 \<or>
       acont (lists r) (StateItem (pxCurrentTCB s)) = Some DelayedTaskList2"
    by (rule block_and_resume [OF inv block n none])
  let ?s' = "if \<not> y then portYIELD r else r"
  have f: "uxSchedulerSuspended ?s' = 0" "xTickCount ?s' = xTickCount s" "lists ?s' = lists r" using b(3,4) by simp_all
  have res: "vTaskDelay n s = Some ?s'" using n c(2) b(1,2) by (simp add: vTaskDelay_def configASSERT_def)
  then have t: "tinv S E ?s'" using vTaskDelay_ok [OF inv c, of n] by simp
  have d: "acont (lists ?s') (StateItem (pxCurrentTCB s)) = Some DelayedTaskList1 \<or>
      acont (lists ?s') (StateItem (pxCurrentTCB s)) = Some DelayedTaskList2" using b(6) f(3) by simp
  have "\<exists>s2 sw. run_ticks k ?s' = Some (s2, sw) \<and> (is_ready s2 (pxCurrentTCB s) \<longleftrightarrow> unat n \<le> k)" for k
    using run_ticks_state [OF tinv_kinv [OF t] f(1), of k] ticks_wake [OF tinv_kinv [OF t] d, of k] b(5) f(2,3) by auto
  then show ?thesis using res t by blast
qed

lemma ms_to_ticks: "unat (pdMS_TO_TICKS ms) = (unat ms * 1000) mod 2 ^ 32 div 1000"
  by (simp add: pdMS_TO_TICKS_def configTICK_RATE_HZ_def unat_div unat_word_ariths)

lemma may_block_running: "may_block s \<Longrightarrow> xTaskGetSchedulerState s = taskSCHEDULER_RUNNING"
  by (simp add: may_block_def running_def xTaskGetSchedulerState_def)

text \<open>C31: Up to 4294967 milliseconds, \<open>delay\<close> in a running task blocks it for exactly the time asked for:
  the task is ready after that many ticks of a millisecond and not before, across a tick overflow too.\<close>

theorem delay_exact:
  assumes inv: "tinv S E s" and block: "may_block s" and none: "xPendedTicks s = 0"
    and ms: "0 < ms" "unat ms \<le> 4294967"
  shows "\<exists>s'. delay busy_wait ms s = Some s' \<and> tinv S E s' \<and>
    (\<forall>k. \<exists>s2 sw. run_ticks k s' = Some (s2, sw) \<and> (is_ready s2 (pxCurrentTCB s) \<longleftrightarrow> unat ms \<le> k))"
proof -
  have u: "unat (pdMS_TO_TICKS ms) = unat ms" using ms(2) by (simp add: ms_to_ticks)
  then have "pdMS_TO_TICKS ms > 0" using ms(1) by (simp add: word_less_nat_alt)
  from vTaskDelay_blocks [OF inv block this none] show ?thesis
    using u may_block_running [OF block] by (simp add: delay_def)
qed

text \<open>From 4294968 milliseconds on, a little over 71 minutes, the conversion to ticks overflows, and
  \<open>delay\<close> returns too early: the task is ready again after fewer ticks than asked for, and at most 4294967.\<close>

theorem delay_overflows:
  assumes inv: "tinv S E s" and block: "may_block s" and none: "xPendedTicks s = 0" and ms: "unat ms > 4294967"
  shows "\<exists>s' k s2 sw. delay busy_wait ms s = Some s' \<and> k \<le> 4294967 \<and> k < unat ms \<and>
    run_ticks k s' = Some (s2, sw) \<and> is_ready s2 (pxCurrentTCB s)"
proof (cases "pdMS_TO_TICKS ms = 0")
  case True
  have "is_ready s (pxCurrentTCB s)" using block by (simp add: may_block_def running_def)
  then have "delay busy_wait ms s = Some (portYIELD s)" "run_ticks 0 (portYIELD s) = Some (portYIELD s, False)"
    "is_ready (portYIELD s) (pxCurrentTCB s)"
    using True may_block_running [OF block] by (simp_all add: delay_def vTaskDelay_def is_ready_def)
  then show ?thesis using ms by force
next
  case False
  then have "pdMS_TO_TICKS ms > 0" by (simp add: word_gt_0)
  from vTaskDelay_blocks [OF inv block this none] obtain s' where
    "delay busy_wait ms s = Some s'"
    "\<And>k. \<exists>s2 sw. run_ticks k s' = Some (s2, sw) \<and> (is_ready s2 (pxCurrentTCB s) \<longleftrightarrow> unat (pdMS_TO_TICKS ms) \<le> k)"
    using may_block_running [OF block] by (auto simp: delay_def)
  moreover have "unat (pdMS_TO_TICKS ms) \<le> 4294967" by (simp add: ms_to_ticks)
  ultimately show ?thesis using ms by (metis le_less_trans order_refl)
qed

lemma suspended_ticks_tinv:
  assumes "tinv S E s" and "uxSchedulerSuspended s \<noteq> 0"
  shows "\<exists>s'. map_option fst (run_ticks n s) = Some s' \<and> tinv S E s' \<and> sframe s s' \<and>
    uxSchedulerSuspended s' = uxSchedulerSuspended s"
proof -
  have "tinv S E (set_pended k s)" for k
    by (rule sframe_tinv [OF assms(1) _ sframe_fields(2)]) (use tinv_kinv [OF assms(1)] in simp)
  then show ?thesis using run_ticks_suspended [OF assms(2), of n] by simp
qed

text \<open>C32: One round of the idle task, with any number of ticks while the processor sleeps in the idle hook,
  ends without a failed assertion: the deleted tasks are gone and exactly their memory is free, no
  other task is lost, and the scheduler is not suspended.\<close>

theorem prvIdleTask_round_correct:
  assumes inv: "tinv S E s" and run: "running s" and susp: "uxSchedulerSuspended s = 0"
    and heap: "heap_ok (kheap s) S ts" "owned_by S ts s"
  shows "\<exists>s' ts'. prvIdleTask_round upload (\<lambda>s. map_option fst (run_ticks n s)) s = Some s' \<and> tinv S E s' \<and>
    terminated s' = {} \<and> ktasks s' = ktasks s - terminated s \<and> uxSchedulerSuspended s' = 0 \<and>
    heap_ok (kheap s') S ts' \<and> live_regions S ts' = freed S ts s (terminated s)"
proof -
  obtain u ts' where u: "prvCheckTasksWaitingTermination s = Some u" "tinv S E u" "terminated u = {}"
      "ktasks u = ktasks s - terminated s" "heap_ok (kheap u) S ts'" "live_regions S ts' = freed S ts s (terminated s)"
      "uxSchedulerSuspended u = uxSchedulerSuspended s"
    using prvCheckTasksWaitingTermination_ok [OF inv current_not_terminated [OF run] _ heap] susp by auto
  let ?v = "if length (items u (Ready 0)) > 1 then portYIELD u else u"
  have v: "tinv S E ?v" "sframe u ?v" "uxSchedulerSuspended ?v = 0" using u(2,7) susp portYIELD_tinv by auto
  let ?w = "vTaskSuspendAll ?v"
  have w: "tinv S E ?w" "uxSchedulerSuspended ?w = 1" "sframe u ?w"
    using suspend_all_tinv [OF v(1)] v(3) sframe_trans [OF v(2) sframe_fields(6)] by simp_all
  obtain x where x: "(if \<not> upload then map_option fst (run_ticks n ?w) else Some ?w) = Some x" "tinv S E x"
    "uxSchedulerSuspended x = 1" "sframe u x"
    using suspended_ticks_tinv [OF w(1), of n] w sframe_trans [OF w(3)] by (cases upload) auto
  obtain s' b where s': "xTaskResumeAll x = Some (s', b)" "tinv S E s'" "sframe x s'" "uxSchedulerSuspended s' = 0"
    by (rule resume_tinv [OF x(2)]) (use x(3) in auto)
  have f: "sframe u s'" by (rule sframe_trans [OF x(4) s'(3)])
  have res: "prvIdleTask_round upload (\<lambda>s. map_option fst (run_ticks n s)) s = Some s'"
    using u(1) x(1) s'(1) unfolding prvIdleTask_round_def vApplicationIdleHook_def Let_def by simp
  have "kheap s' = kheap u" using f by (simp add: sframe_def)
  then show ?thesis
    using res s' u sframe_ktasks [OF f] sframe_terminated [OF f] by (intro exI [of _ s'] exI [of _ ts']) simp
qed

section \<open>A concrete system\<close>

text \<open>A board with 8 kilobytes of heap after reset.\<close>

definition board_heap :: heap where
  "board_heap = demo_heap\<lparr>ucHeap := 0x20001000, configTOTAL_HEAP_SIZE := 0x2000\<rparr>"

definition after_reset :: "nat list tkernel_scheme" where
  "after_reset = (demo_timers empty_store board_heap)
     \<lparr>lists := empty_store, pxCurrentTCB := 0, uxDeletedTasksWaitingCleanUp := 0, uxCurrentNumberOfTasks := 0,
      xTickCount := 0, uxTopReadyPriority := 0, xSchedulerRunning := False, xPendedTicks := 0, xYieldPending := False,
      xNextTaskUnblockTime := 0, uxSchedulerSuspended := 0, kheap := board_heap, xTimerQueue := 0\<rparr>"

theorem arduino_boots_witness:
  "\<exists>s'. start_freertos_on_header_inclusion_impl \<lparr>task_return = 0, psplim = True\<rparr> 4096 8192 12288 True after_reset = Some s' \<and>
     card (ktasks s') = 3"
proof -
  have r: "reset_state after_reset" "xTimerQueue after_reset = 0"
    by (simp_all add: after_reset_def reset_state_def board_heap_def demo_heap_def)
  have h: "heap_fresh (kheap after_reset)" "12 \<le> ucHeap (kheap after_reset)" "configTOTAL_HEAP_SIZE (kheap after_reset) \<ge> 0x2000"
    by (simp_all add: after_reset_def board_heap_def demo_heap_def heap_fresh_def w32_value)
  from arduino_boots [OF r h] show ?thesis by blast
qed

lemma demo_may_block: "may_block (demo_system h)" "xPendedTicks (demo_system h) = 0"
  by (simp_all add: may_block_def running_def is_ready_def)

theorem delay_exact_witness:
  "\<exists>h s' s2 sw. delay (\<lambda>_. Some) 250 (demo_system h) = Some s' \<and> run_ticks 250 s' = Some (s2, sw) \<and> is_ready s2 1344"
proof -
  obtain h ts where t: "tinv 1024 5112 (demo_system h)" by (rule demo_system_tinv)
  from delay_exact [OF t demo_may_block, of 250 "\<lambda>_. Some"] obtain s' where
    s': "delay (\<lambda>_. Some) 250 (demo_system h) = Some s'"
    and k: "\<And>k. \<exists>s2 sw. run_ticks k s' = Some (s2, sw) \<and> (is_ready s2 1344 \<longleftrightarrow> 250 \<le> k)"
    by auto
  from k [of 250] s' show ?thesis by auto
qed

theorem delay_overflows_witness:
  "\<exists>h s' k s2 sw. delay (\<lambda>_. Some) 4294968 (demo_system h) = Some s' \<and> k \<le> 4294967 \<and>
     run_ticks k s' = Some (s2, sw) \<and> is_ready s2 1344"
proof -
  obtain h ts where t: "tinv 1024 5112 (demo_system h)" by (rule demo_system_tinv)
  have "unat (4294968 :: u32) > 4294967" "pxCurrentTCB (demo_system h) = 1344" by simp_all
  from delay_overflows [OF t demo_may_block this(1), of "\<lambda>_. Some", unfolded this(2)] show ?thesis by blast
qed

theorem prvIdleTask_round_correct_witness:
  "\<exists>h s'. prvIdleTask_round False (\<lambda>s. map_option fst (run_ticks 3 s)) (demo_system h) = Some s' \<and> terminated s' = {}"
proof -
  obtain h ts where t: "tinv 1024 5112 (demo_system h)" "heap_ok h 1024 ts" "owned_by 1024 ts (demo_system h)"
    by (rule demo_system_tinv)
  have "running (demo_system h)" "uxSchedulerSuspended (demo_system h) = 0" "heap_ok (kheap (demo_system h)) 1024 ts"
    using t(2) by (simp_all add: running_def is_ready_def)
  from prvIdleTask_round_correct [OF t(1) this t(3)] show ?thesis by blast
qed

end
