(* ===== verification/Port.thy ===== *)
theory Port
  imports Prelude "HOL-Library.Monad_Syntax"
begin

text \<open>
  The nesting critical sections of \<open>port.c\<close>, on a core with the BASEPRI register: the state is
  that register and the two static variables, \<open>vectactive\<close> the number of the active interrupt
  in the status register, zero in a task.  \<open>None\<close> is a failed assertion.
\<close>

section \<open>Operations\<close>

record port =
  BASEPRI :: u32
  uxCriticalNesting :: u32
  g_mask_level_before_disable :: u32

definition NVIC_PRIO_BITS :: nat where
  "NVIC_PRIO_BITS = 4"

definition configLIBRARY_MAX_SYSCALL_INTERRUPT_PRIORITY :: u32 where
  "configLIBRARY_MAX_SYSCALL_INTERRUPT_PRIORITY = 1"

definition configMAX_SYSCALL_INTERRUPT_PRIORITY :: u32 where
  "configMAX_SYSCALL_INTERRUPT_PRIORITY =
     push_bit (8 - NVIC_PRIO_BITS) configLIBRARY_MAX_SYSCALL_INTERRUPT_PRIORITY"

definition portSET_INTERRUPT_MASK :: "port \<Rightarrow> u32 \<times> port" where
  "portSET_INTERRUPT_MASK s = (BASEPRI s, s\<lparr>BASEPRI := configMAX_SYSCALL_INTERRUPT_PRIORITY\<rparr>)"

definition portCLEAR_INTERRUPT_MASK :: "u32 \<Rightarrow> port \<Rightarrow> port" where
  "portCLEAR_INTERRUPT_MASK x s = s\<lparr>BASEPRI := x\<rparr>"

definition port_reset :: port where
  "port_reset = \<lparr>BASEPRI = 0, uxCriticalNesting = 0, g_mask_level_before_disable = 0\<rparr>"

definition vPortEnterCritical :: "u32 \<Rightarrow> port \<Rightarrow> port option" where
  "vPortEnterCritical vectactive s =
     (let (old_mask_level, s) = portSET_INTERRUPT_MASK s;
          s = s\<lparr>uxCriticalNesting := uxCriticalNesting s + 1\<rparr>
      in if uxCriticalNesting s = 1
         then let s = s\<lparr>g_mask_level_before_disable := old_mask_level\<rparr>
              in if vectactive = 0 then Some s else None
         else Some s)"

definition vPortExitCritical :: "port \<Rightarrow> port option" where
  "vPortExitCritical s =
     (if uxCriticalNesting s = 0 then None
      else let s = s\<lparr>uxCriticalNesting := uxCriticalNesting s - 1\<rparr>
           in if uxCriticalNesting s = 0
              then Some (portCLEAR_INTERRUPT_MASK (g_mask_level_before_disable s) s)
              else Some s)"

section \<open>Sequences of calls\<close>

datatype critical_call = Enter | Exit

primrec critical_step :: "critical_call \<Rightarrow> port \<Rightarrow> port option" where
  "critical_step Enter s = vPortEnterCritical 0 s"
| "critical_step Exit s = vPortExitCritical s"

primrec critical_run :: "critical_call list \<Rightarrow> port \<Rightarrow> port option" where
  "critical_run [] s = Some s"
| "critical_run (c # cs) s = critical_step c s \<bind> critical_run cs"

text \<open>The depth after a sequence, if no call leaves more sections than were entered.\<close>

fun depth :: "critical_call list \<Rightarrow> nat \<Rightarrow> nat option" where
  "depth [] d = Some d"
| "depth (Enter # cs) d = depth cs (Suc d)"
| "depth (Exit # cs) 0 = None"
| "depth (Exit # cs) (Suc d) = depth cs d"

text \<open>The invariant: \<open>d\<close> sections are open, and the mask before the first of them was \<open>m\<close>.\<close>

definition nested :: "nat \<Rightarrow> u32 \<Rightarrow> port \<Rightarrow> bool" where
  "nested d m s \<longleftrightarrow> unat (uxCriticalNesting s) = d \<and>
     (if d = 0 then BASEPRI s = m
      else BASEPRI s = configMAX_SYSCALL_INTERRUPT_PRIORITY \<and> g_mask_level_before_disable s = m)"

lemma nested_Enter:
  assumes "nested d m s" and "Suc d < 2 ^ 32"
  shows "\<exists>s'. critical_step Enter s = Some s' \<and> nested (Suc d) m s'"
proof -
  have "unat (uxCriticalNesting s + 1) = Suc d"
    using assms by (simp add: nested_def unat_word_ariths)
  moreover from this have "uxCriticalNesting s + 1 = 1 \<longleftrightarrow> d = 0"
    by (metis One_nat_def Suc_inject unat_1 unsigned_word_eqI)
  ultimately show ?thesis
    using assms(1) by (auto simp: nested_def vPortEnterCritical_def portSET_INTERRUPT_MASK_def Let_def)
qed

lemma nested_Exit:
  assumes "nested (Suc d) m s"
  shows "\<exists>s'. critical_step Exit s = Some s' \<and> nested d m s'"
proof -
  have n: "unat (uxCriticalNesting s) = Suc d" using assms by (simp add: nested_def)
  then have nz: "uxCriticalNesting s \<noteq> 0" by auto
  then have "unat (uxCriticalNesting s - 1) = d" using n by (simp add: unat_minus_one)
  moreover from this have "uxCriticalNesting s - 1 = 0 \<longleftrightarrow> d = 0" by (metis unat_0 unat_eq_zero)
  ultimately show ?thesis
    using assms nz by (auto simp: nested_def vPortExitCritical_def portCLEAR_INTERRUPT_MASK_def Let_def)
qed

lemma nested_run:
  "nested d m s \<Longrightarrow> depth cs d = Some d' \<Longrightarrow> d + length cs < 2 ^ 32 \<Longrightarrow>
   \<exists>s'. critical_run cs s = Some s' \<and> nested d' m s'"
proof (induction cs d arbitrary: s rule: depth.induct)
  case (1 d)
  then show ?case by simp
next
  case (2 cs d)
  obtain s1 where "critical_step Enter s = Some s1" "nested (Suc d) m s1"
    using nested_Enter [of d m s] "2.prems" by auto
  then show ?case using "2.IH" [of s1] "2.prems" by auto
next
  case (3 cs)
  then show ?case by simp
next
  case (4 cs d)
  obtain s1 where "critical_step Exit s = Some s1" "nested d m s1"
    using nested_Exit [of d m s] "4.prems" by auto
  then show ?case using "4.IH" [of s1] "4.prems" by auto
qed

text \<open>C39: However critical sections nest in a task, no call fails an assertion as long as none
  leaves a section that was not entered; inside, the interrupts that may call the kernel are
  masked, and behind the outermost section the interrupt mask is what it was before it.\<close>

theorem critical_sections_nest:
  assumes "uxCriticalNesting s = 0" and "depth cs 0 = Some d" and "length cs < 2 ^ 32"
  shows "\<exists>s'. critical_run cs s = Some s' \<and> unat (uxCriticalNesting s') = d \<and>
           BASEPRI s' = (if d = 0 then BASEPRI s else configMAX_SYSCALL_INTERRUPT_PRIORITY)"
proof -
  have "nested 0 (BASEPRI s) s" using assms(1) by (simp add: nested_def)
  from nested_run [OF this assms(2)] assms(3) show ?thesis by (auto simp: nested_def)
qed

theorem critical_sections_nest_witness:
  "\<exists>s'. critical_run [Enter, Enter, Exit, Exit, Enter, Exit] (port_reset\<lparr>BASEPRI := 64\<rparr>) = Some s' \<and>
        BASEPRI s' = 64"
  using critical_sections_nest [of "port_reset\<lparr>BASEPRI := 64\<rparr>" "[Enter, Enter, Exit, Exit, Enter, Exit]" 0]
  by (auto simp: port_reset_def)

end
