(* ===== verification/ContextSwitch.thy ===== *)
theory ContextSwitch
  imports TaskSystem Port
begin

text \<open>
  The context switch of \<open>port.c\<close> as the processor executes it: \<open>PendSV_Handler\<close>,
  \<open>rm_freertos_port_restore_task_stackless\<close>, \<open>SVC_Handler\<close> and the start of the first task,
  instruction by instruction, for the two kinds of core of the boards (Cortex-M4 without and
  Cortex-M33 with a stack limit register), both with a floating point unit, without TrustZone and
  without the hardware stack monitor, as \<open>FreeRTOSConfig.h\<close> has it.  The processor state is the
  registers; the memory is the stack words of the kernel state, the variable \<open>pxCurrentTCB\<close> and
  the first member of the control blocks.  Exception entry and return push and pop their frames
  as the ARM architecture manuals define them, with lazy stacking as if it were immediate.
  The C function that the handler calls may leave anything in the registers (\<open>after_call\<close>).
\<close>

section \<open>The processor\<close>

datatype sreg = sPSP | sMSP | sPSPLIM | sBASEPRI

text \<open>
  \<open>gpr\<close> holds R0 to R12 and, as register 14, LR; \<open>fpr\<close> S0 to S31; \<open>fpca\<close> and \<open>spsel\<close> are the
  bits of CONTROL that tell whether the thread uses the floating point unit and whether it runs
  on the process stack.
\<close>

record cpu =
  gpr :: "nat \<Rightarrow> u32"
  fpr :: "nat \<Rightarrow> u32"
  fpscr :: u32
  pc :: u32
  xpsr :: u32
  sreg :: "sreg \<Rightarrow> u32"
  fpca :: bool
  spsel :: bool

abbreviation LR :: nat where "LR \<equiv> 14"

definition set_gpr :: "nat \<Rightarrow> u32 \<Rightarrow> cpu \<Rightarrow> cpu" where
  "set_gpr r v c = c\<lparr>gpr := (gpr c)(r := v)\<rparr>"

definition set_sreg :: "sreg \<Rightarrow> u32 \<Rightarrow> cpu \<Rightarrow> cpu" where
  "set_sreg r v c = c\<lparr>sreg := (sreg c)(r := v)\<rparr>"

text \<open>\<open>pcfg\<close> is the configuration of the port, \<open>tcb_var\<close> the address of \<open>pxCurrentTCB\<close>.\<close>

record arm_cfg =
  pcfg :: port_cfg
  tcb_var :: u32
  after_call :: "nat \<Rightarrow> u32"
  after_call_fp :: "nat \<Rightarrow> u32"

section \<open>Memory\<close>

definition load :: "arm_cfg \<Rightarrow> 'a kernel_scheme \<Rightarrow> u32 \<Rightarrow> u32" where
  "load cfg k a =
     (if a = tcb_var cfg then of_nat (pxCurrentTCB k)
      else if unat a = pxCurrentTCB k then of_nat (pxTopOfStack (tcb k (unat a)))
      else stack_mem k (unat a))"

definition store :: "arm_cfg \<Rightarrow> u32 \<Rightarrow> u32 \<Rightarrow> 'a kernel_scheme \<Rightarrow> 'a kernel_scheme" where
  "store cfg a v k =
     (if a = tcb_var cfg then k\<lparr>pxCurrentTCB := unat v\<rparr>
      else if unat a = pxCurrentTCB k then upd_tcb (unat a) (pxTopOfStack_update (\<lambda>_. unat v)) k
      else k\<lparr>stack_mem := (stack_mem k)(unat a := v)\<rparr>)"

primrec load_list :: "arm_cfg \<Rightarrow> 'a kernel_scheme \<Rightarrow> u32 \<Rightarrow> nat \<Rightarrow> u32 list" where
  "load_list cfg k a 0 = []"
| "load_list cfg k a (Suc n) = load cfg k a # load_list cfg k (a + 4) n"

primrec store_list :: "arm_cfg \<Rightarrow> u32 \<Rightarrow> u32 list \<Rightarrow> 'a kernel_scheme \<Rightarrow> 'a kernel_scheme" where
  "store_list cfg a [] k = k"
| "store_list cfg a (w # ws) k = store_list cfg (a + 4) ws (store cfg a w k)"

fun assign :: "nat list \<Rightarrow> u32 list \<Rightarrow> (nat \<Rightarrow> u32) \<Rightarrow> nat \<Rightarrow> u32" where
  "assign (r # rs) (w # ws) f = assign rs ws (f(r := w))"
| "assign rs ws f = f"

section \<open>Exceptions\<close>

definition frame_size :: "bool \<Rightarrow> u32" where
  "frame_size fp = (if fp then 0x68 else 0x20)"

definition thread_sp :: "bool \<Rightarrow> sreg" where
  "thread_sp sel = (if sel then sPSP else sMSP)"

definition exc_return :: "bool \<Rightarrow> bool \<Rightarrow> u32" where
  "exc_return fp sel = (if fp then 0xFFFFFFE9 else 0xFFFFFFF9) OR (if sel then 4 else 0)"

definition exception_entry :: "arm_cfg \<Rightarrow> cpu \<times> 'a kernel_scheme \<Rightarrow> cpu \<times> 'a kernel_scheme" where
  "exception_entry cfg = (\<lambda>(c, k).
     let s = thread_sp (spsel c); sp = sreg c s;
         frame = (sp - frame_size (fpca c)) AND NOT 4;
         x = (if bit sp 2 then set_bit 9 (xpsr c) else unset_bit 9 (xpsr c));
         k = store_list cfg frame (map (gpr c) [0, 1, 2, 3, 12, LR] @ [pc c, x]) k;
         k = (if fpca c then store_list cfg (frame + 0x20) (map (fpr c) [0..<16] @ [fpscr c]) k else k)
     in (set_gpr LR (exc_return (fpca c) (spsel c)) (set_sreg s frame (c\<lparr>fpca := False, spsel := False\<rparr>)), k))"

text \<open>A branch to a value that is none of the four is a fault.\<close>

definition exception_return :: "arm_cfg \<Rightarrow> u32 \<Rightarrow> cpu \<times> 'a kernel_scheme \<Rightarrow> (cpu \<times> 'a kernel_scheme) option" where
  "exception_return cfg v = (\<lambda>(c, k).
     if v \<notin> {0xFFFFFFE9, 0xFFFFFFED, 0xFFFFFFF9, 0xFFFFFFFD} then None
     else let fp = (\<not> bit v 4); sel = bit v 2; s = thread_sp sel; frame = sreg c s;
              ws = load_list cfg k frame 8; x = ws ! 7;
              fs = load_list cfg k (frame + 0x20) 17;
              c = set_sreg s ((frame + frame_size fp) OR (if bit x 9 then 4 else 0)) c;
              c = c\<lparr>gpr := assign [0, 1, 2, 3, 12, LR] ws (gpr c), pc := ws ! 6, xpsr := unset_bit 9 x,
                     fpca := fp, spsel := sel\<rparr>;
              c = (if fp then c\<lparr>fpr := assign [0..<16] fs (fpr c), fpscr := fs ! 16\<rparr> else c)
          in Some (c, k))"

section \<open>Instructions\<close>

datatype instr =
    LDR_lit nat u32 | LDR nat nat | STR_to nat nat | MOV_imm nat u32
  | MRS nat sreg | MSR sreg nat | TST nat u32
  | IT_EQ instr | IT_NE instr
  | STMDB nat "nat list" | LDMIA nat "nat list"
  | VSTMDB nat "nat list" | VLDMIA nat "nat list"
  | DSB | ISB | BL_vTaskSwitchContext | BX nat

text \<open>
  The multiple loads and stores write their base register back; the mnemonics with \<open>EQ\<close> are
  the instruction behind \<open>IT_EQ\<close>.  Bit 30 of xPSR is the flag Z.
\<close>

primrec exec1 :: "arm_cfg \<Rightarrow> instr \<Rightarrow> cpu \<times> 'a kernel_scheme \<Rightarrow> (cpu \<times> 'a kernel_scheme) option" where
  "exec1 cfg (LDR_lit r v) = (\<lambda>(c, k). Some (set_gpr r v c, k))"
| "exec1 cfg (LDR r b) = (\<lambda>(c, k). Some (set_gpr r (load cfg k (gpr c b)) c, k))"
| "exec1 cfg (STR_to r b) = (\<lambda>(c, k). Some (c, store cfg (gpr c b) (gpr c r) k))"
| "exec1 cfg (MOV_imm r v) = (\<lambda>(c, k). Some (set_gpr r v c, k))"
| "exec1 cfg (MRS r s) = (\<lambda>(c, k). Some (set_gpr r (sreg c s) c, k))"
| "exec1 cfg (MSR s r) = (\<lambda>(c, k). Some (set_sreg s (gpr c r) c, k))"
| "exec1 cfg (TST r v) = (\<lambda>(c, k).
     Some (c\<lparr>xpsr := (if gpr c r AND v = 0 then set_bit 30 (xpsr c) else unset_bit 30 (xpsr c))\<rparr>, k))"
| "exec1 cfg (IT_EQ i) = (\<lambda>(c, k). if bit (xpsr c) 30 then exec1 cfg i (c, k) else Some (c, k))"
| "exec1 cfg (IT_NE i) = (\<lambda>(c, k). if bit (xpsr c) 30 then Some (c, k) else exec1 cfg i (c, k))"
| "exec1 cfg (STMDB b rs) = (\<lambda>(c, k).
     let a = gpr c b - 4 * of_nat (length rs)
     in Some (set_gpr b a c, store_list cfg a (map (gpr c) rs) k))"
| "exec1 cfg (LDMIA b rs) = (\<lambda>(c, k).
     let a = gpr c b
     in Some (c\<lparr>gpr := assign rs (load_list cfg k a (length rs)) ((gpr c)(b := a + 4 * of_nat (length rs)))\<rparr>, k))"
| "exec1 cfg (VSTMDB b rs) = (\<lambda>(c, k).
     let a = gpr c b - 4 * of_nat (length rs)
     in Some (set_gpr b a c, store_list cfg a (map (fpr c) rs) k))"
| "exec1 cfg (VLDMIA b rs) = (\<lambda>(c, k).
     let a = gpr c b
     in Some (set_gpr b (a + 4 * of_nat (length rs)) (c\<lparr>fpr := assign rs (load_list cfg k a (length rs)) (fpr c)\<rparr>), k))"
| "exec1 cfg DSB = Some"
| "exec1 cfg ISB = Some"
| "exec1 cfg BL_vTaskSwitchContext = (\<lambda>(c, k).
     map_option (\<lambda>k. (c\<lparr>gpr := after_call cfg, fpr := after_call_fp cfg\<rparr>, k)) (vTaskSwitchContext k))"
| "exec1 cfg (BX r) = (\<lambda>(c, k). exception_return cfg (gpr c r) (c, k))"

primrec exec :: "arm_cfg \<Rightarrow> instr list \<Rightarrow> cpu \<times> 'a kernel_scheme \<Rightarrow> (cpu \<times> 'a kernel_scheme) option" where
  "exec cfg [] x = Some x"
| "exec cfg (i # is) x = exec1 cfg i x \<bind> exec cfg is"

section \<open>The handlers\<close>

definition rm_freertos_port_restore_task_stackless :: "arm_cfg \<Rightarrow> instr list" where
  "rm_freertos_port_restore_task_stackless cfg =
     [LDR_lit 0 (tcb_var cfg), LDR 1 0, LDR 2 1] @
     (if psplim (pcfg cfg) then [LDMIA 2 [1], MSR sPSPLIM 1] else []) @
     [LDMIA 2 [4, 5, 6, 7, 8, 9, 10, 11, LR], TST LR 0x10, IT_EQ (VLDMIA 2 [16..<32]), MSR sPSP 2, BX LR]"

definition save_code :: "arm_cfg \<Rightarrow> instr list" where
  "save_code cfg =
     [LDR_lit 3 (tcb_var cfg), LDR 1 3, MRS 2 sPSP, TST LR 0x10, IT_EQ (VSTMDB 2 [16..<32]),
      STMDB 2 [4, 5, 6, 7, 8, 9, 10, 11, LR]] @
     (if psplim (pcfg cfg) then [MRS 3 sPSPLIM, STMDB 2 [3]] else []) @ [STR_to 2 1]"

definition select_code :: "instr list" where
  "select_code = [LDR_lit 0 configMAX_SYSCALL_INTERRUPT_PRIORITY, MSR sBASEPRI 0, DSB, ISB,
     BL_vTaskSwitchContext, MOV_imm 0 0, MSR sBASEPRI 0]"

definition PendSV_code :: "arm_cfg \<Rightarrow> instr list" where
  "PendSV_code cfg = save_code cfg @ select_code @ rm_freertos_port_restore_task_stackless cfg"

text \<open>The exception as a whole: the hardware clears the pending bit when it takes it.\<close>

definition PendSV_exception :: "arm_cfg \<Rightarrow> cpu \<times> 'a kernel_scheme \<Rightarrow> (cpu \<times> 'a kernel_scheme) option" where
  "PendSV_exception cfg = (\<lambda>(c, k). exec cfg (PendSV_code cfg) (exception_entry cfg (c, k\<lparr>pendsv := False\<rparr>)))"

section \<open>Words in memory\<close>

primrec words :: "(nat \<Rightarrow> u32) \<Rightarrow> nat \<Rightarrow> nat \<Rightarrow> u32 list" where
  "words m a 0 = []"
| "words m a (Suc n) = m a # words m (a + 4) n"

primrec put_words :: "nat \<Rightarrow> u32 list \<Rightarrow> (nat \<Rightarrow> u32) \<Rightarrow> nat \<Rightarrow> u32" where
  "put_words a [] m = m"
| "put_words a (w # ws) m = put_words (a + 4) ws (m(a := w))"

lemma length_words [simp]: "length (words m a n) = n"
  by (induction n arbitrary: a) auto

lemma words_nth: "i < n \<Longrightarrow> words m a n ! i = m (a + 4 * i)"
  by (induction n arbitrary: a i) (auto simp: nth_Cons add.assoc split: nat.split)

lemma put_words_other: "x < a \<or> a + 4 * length ws \<le> x \<Longrightarrow> put_words a ws m x = m x"
  by (induction ws arbitrary: a m) auto

lemma words_cong: "(\<And>x. a \<le> x \<Longrightarrow> x < a + 4 * n \<Longrightarrow> m x = m' x) \<Longrightarrow> words m a n = words m' a n"
  by (induction n arbitrary: a) auto

lemma words_put [simp]: "n = length ws \<Longrightarrow> words (put_words a ws m) a n = ws"
  by (induction ws arbitrary: a m n) (auto simp: put_words_other)

lemma words_put_other:
  "a + 4 * n \<le> b \<or> b + 4 * length ws \<le> a \<Longrightarrow> words (put_words b ws m) a n = words m a n"
  by (rule words_cong) (auto simp: put_words_other)

lemma put_words_hd: "put_words a (w # ws) m a = w"
  by (simp add: put_words_other)

text \<open>Addresses that hold neither the variable \<open>pxCurrentTCB\<close> nor the current control block.\<close>

definition plain :: "arm_cfg \<Rightarrow> 'a kernel_scheme \<Rightarrow> nat \<Rightarrow> nat \<Rightarrow> bool" where
  "plain cfg k lo hi \<longleftrightarrow> (\<forall>x. lo \<le> x \<longrightarrow> x < hi \<longrightarrow> x \<noteq> unat (tcb_var cfg) \<and> x \<noteq> pxCurrentTCB k)"

lemma plain_sub: "plain cfg k lo hi \<Longrightarrow> lo \<le> lo' \<Longrightarrow> hi' \<le> hi \<Longrightarrow> plain cfg k lo' hi'"
  by (simp add: plain_def)

lemma plain_mem [simp]: "plain cfg (k\<lparr>stack_mem := m\<rparr>) lo hi = plain cfg k lo hi"
  by (simp add: plain_def)

lemma unat_plus_4:
  fixes a :: u32
  assumes "unat a + 4 < 2 ^ 32"
  shows "unat (a + 4) = unat a + 4"
  using assms by (simp add: unat_word_ariths)

lemma load_list_plain:
  "plain cfg k (unat a) (unat a + 4 * n) \<Longrightarrow> unat a + 4 * n < 2 ^ 32 \<Longrightarrow>
   load_list cfg k a n = words (stack_mem k) (unat a) n"
proof (induction n arbitrary: a)
  case (Suc n)
  have u: "unat (a + 4) = unat a + 4" using Suc.prems(2) by (intro unat_plus_4) simp
  have "load cfg k a = stack_mem k (unat a)" using Suc.prems(1) by (auto simp: plain_def load_def)
  moreover have "load_list cfg k (a + 4) n = words (stack_mem k) (unat (a + 4)) n"
    by (rule Suc.IH) (use Suc.prems u in \<open>auto intro: plain_sub\<close>)
  ultimately show ?case by (simp add: u)
qed simp

lemma store_list_plain:
  "plain cfg k (unat a) (unat a + 4 * length ws) \<Longrightarrow> unat a + 4 * length ws < 2 ^ 32 \<Longrightarrow>
   store_list cfg a ws k = k\<lparr>stack_mem := put_words (unat a) ws (stack_mem k)\<rparr>"
proof (induction ws arbitrary: a k)
  case (Cons w ws)
  have u: "unat (a + 4) = unat a + 4" using Cons.prems(2) by (intro unat_plus_4) simp
  have s: "store cfg a w k = k\<lparr>stack_mem := (stack_mem k)(unat a := w)\<rparr>"
    using Cons.prems(1) by (auto simp: plain_def store_def)
  have "store_list cfg (a + 4) ws (store cfg a w k) =
      (store cfg a w k)\<lparr>stack_mem := put_words (unat (a + 4)) ws (stack_mem (store cfg a w k))\<rparr>"
    by (rule Cons.IH) (use Cons.prems u in \<open>auto simp: s intro: plain_sub\<close>)
  then show ?case by (simp add: u s)
qed simp

section \<open>Contexts\<close>

text \<open>
  The context of a thread: R0 to R12 and LR, the program counter and status, the stack pointer
  and its limit, and the floating point registers if it uses them.
\<close>

record thread_context =
  core :: "u32 list"
  cx_pc :: u32
  cx_xpsr :: u32
  cx_sp :: u32
  cx_limit :: u32
  cx_fp :: "(u32 list \<times> u32) option"

definition cpu_context :: "arm_cfg \<Rightarrow> cpu \<Rightarrow> thread_context" where
  "cpu_context cfg c =
     \<lparr>core = map (gpr c) [0, 1, 2, 3, 4, 5, 6, 7, 8, 9, 10, 11, 12, LR], cx_pc = pc c, cx_xpsr = xpsr c,
      cx_sp = sreg c sPSP, cx_limit = (if psplim (pcfg cfg) then sreg c sPSPLIM else 0),
      cx_fp = (if fpca c then Some (map (fpr c) [0..<32], fpscr c) else None)\<rparr>"

text \<open>
  The layout of a saved context, from its address upwards: the stack limit, R4 to R11 with the
  EXC_RETURN value, S16 to S31, and the frame of the hardware.
\<close>

definition limit_words :: "arm_cfg \<Rightarrow> nat" where
  "limit_words cfg = (if psplim (pcfg cfg) then 1 else 0)"

definition saved_exc :: "arm_cfg \<Rightarrow> (nat \<Rightarrow> u32) \<Rightarrow> nat \<Rightarrow> u32" where
  "saved_exc cfg m p = words m (p + 4 * limit_words cfg) 9 ! 8"

definition saved_fp :: "arm_cfg \<Rightarrow> (nat \<Rightarrow> u32) \<Rightarrow> nat \<Rightarrow> bool" where
  "saved_fp cfg m p \<longleftrightarrow> \<not> bit (saved_exc cfg m p) 4"

definition saved_frame :: "arm_cfg \<Rightarrow> (nat \<Rightarrow> u32) \<Rightarrow> nat \<Rightarrow> nat" where
  "saved_frame cfg m p = p + 4 * limit_words cfg + 36 + (if saved_fp cfg m p then 64 else 0)"

definition saved_end :: "arm_cfg \<Rightarrow> (nat \<Rightarrow> u32) \<Rightarrow> nat \<Rightarrow> nat" where
  "saved_end cfg m p = saved_frame cfg m p + unat (frame_size (saved_fp cfg m p))"

definition saved_context :: "arm_cfg \<Rightarrow> (nat \<Rightarrow> u32) \<Rightarrow> nat \<Rightarrow> thread_context" where
  "saved_context cfg m p =
     (let hi = words m (p + 4 * limit_words cfg) 9; f = saved_frame cfg m p; lo = words m f 8;
          fs = words m (f + 32) 17
      in \<lparr>core = take 4 lo @ take 8 hi @ [lo ! 4, lo ! 5], cx_pc = lo ! 6, cx_xpsr = unset_bit 9 (lo ! 7),
          cx_sp = of_nat (saved_end cfg m p) OR (if bit (lo ! 7) 9 then 4 else 0),
          cx_limit = (if psplim (pcfg cfg) then m p else 0),
          cx_fp = (if saved_fp cfg m p
                   then Some (take 16 fs @ words m (p + 4 * limit_words cfg + 36) 16, fs ! 16) else None)\<rparr>)"

lemma saved_context_cong:
  assumes "\<And>x. p \<le> x \<Longrightarrow> x < saved_end cfg m p \<Longrightarrow> m x = m' x"
  shows "saved_context cfg m p = saved_context cfg m' p" and "saved_end cfg m p = saved_end cfg m' p"
    and "saved_exc cfg m p = saved_exc cfg m' p"
proof -
  have w: "words m a n = words m' a n" if "p \<le> a" "a + 4 * n \<le> saved_end cfg m p" for a n
    using that assms by (intro words_cong) auto
  have e: "saved_exc cfg m p = saved_exc cfg m' p"
    unfolding saved_exc_def by (subst w) (auto simp: saved_end_def saved_frame_def)
  then have f: "saved_fp cfg m p = saved_fp cfg m' p" "saved_frame cfg m p = saved_frame cfg m' p"
      "saved_end cfg m p = saved_end cfg m' p"
    by (auto simp: saved_fp_def saved_frame_def saved_end_def)
  note d = saved_end_def saved_frame_def frame_size_def
  have h: "words m (p + 4 * limit_words cfg) 9 = words m' (p + 4 * limit_words cfg) 9"
    by (rule w) (simp_all add: d)
  have l: "words m (saved_frame cfg m' p) 8 = words m' (saved_frame cfg m' p) 8"
    using f by (intro w) (simp_all add: d)
  have g: "words m (saved_frame cfg m' p + 32) 17 = words m' (saved_frame cfg m' p + 32) 17"
      "words m (p + 4 * limit_words cfg + 36) 16 = words m' (p + 4 * limit_words cfg + 36) 16" if "saved_fp cfg m' p"
    using f that by (intro w; simp add: d)+
  have "psplim (pcfg cfg) \<Longrightarrow> m p = m' p" using assms [of p] by (simp add: d limit_words_def)
  then show "saved_context cfg m p = saved_context cfg m' p"
    using g by (cases "saved_fp cfg m' p") (simp_all add: saved_context_def Let_def f h l)
  show "saved_end cfg m p = saved_end cfg m' p" "saved_exc cfg m p = saved_exc cfg m' p" by (fact f e)+
qed

section \<open>Restoring a context\<close>

lemma load_list_at:
  assumes "plain cfg k q (q + 4 * n)" and "q + 4 * n < 2 ^ 32"
  shows "load_list cfg k (of_nat q) n = words (stack_mem k) q n"
  using load_list_plain [of cfg k "of_nat q" n] assms by (simp add: unat_of_nat)

lemma assign_other: "r \<notin> set rs \<Longrightarrow> assign rs ws f r = f r"
  by (induction rs ws f rule: assign.induct) auto

lemma map_assign:
  "distinct rs \<Longrightarrow> length rs \<le> length ws \<Longrightarrow> map (assign rs ws f) rs = take (length rs) ws"
  by (induction rs ws f rule: assign.induct) (auto simp: assign_other)

lemma length_8D: "length xs = 8 \<Longrightarrow> \<exists>a b c d e f g h. xs = [a, b, c, d, e, f, g, h]"
  by (auto simp: length_Suc_conv eval_nat_numeral)

lemma length_9D: "length xs = 9 \<Longrightarrow> \<exists>a b c d e f g h i. xs = [a, b, c, d, e, f, g, h, i]"
  by (auto simp: length_Suc_conv eval_nat_numeral)

text \<open>The task at which \<open>pxCurrentTCB\<close> points has a well-formed saved context at its stack pointer.\<close>

definition restorable :: "arm_cfg \<Rightarrow> 'a kernel_scheme \<Rightarrow> bool" where
  "restorable cfg k \<longleftrightarrow>
     (let t = pxCurrentTCB k; p = pxTopOfStack (tcb k t); e = saved_end cfg (stack_mem k) p
      in t < 2 ^ 32 \<and> t \<noteq> unat (tcb_var cfg) \<and> e < 2 ^ 32 \<and> plain cfg k p e \<and>
         saved_exc cfg (stack_mem k) p \<in> {0xFFFFFFED, 0xFFFFFFFD})"

lemma load_current:
  assumes "pxCurrentTCB k < 2 ^ 32" and "pxCurrentTCB k \<noteq> unat (tcb_var cfg)"
  shows "load cfg k (tcb_var cfg) = of_nat (pxCurrentTCB k)"
    and "load cfg k (of_nat (pxCurrentTCB k)) = of_nat (pxTopOfStack (tcb k (pxCurrentTCB k)))"
proof -
  have u: "unat (of_nat (pxCurrentTCB k) :: u32) = pxCurrentTCB k" using assms(1) by (simp add: unat_of_nat)
  then have "(of_nat (pxCurrentTCB k) :: u32) \<noteq> tcb_var cfg" using assms(2) by auto
  then show "load cfg k (of_nat (pxCurrentTCB k)) = of_nat (pxTopOfStack (tcb k (pxCurrentTCB k)))"
    by (simp add: load_def u)
qed (simp add: load_def)

lemma bind_exec_nil [simp]: "x \<bind> exec cfg [] = x"
  by (cases x) auto

lemma exec_append [simp]: "exec cfg (xs @ ys) x = exec cfg xs x \<bind> exec cfg ys"
proof (induction xs arbitrary: x)
  case (Cons i xs)
  then show ?case by (cases "exec1 cfg i x") auto
qed simp

text \<open>The head of the routine brings the address behind the stack limit to R2.\<close>

lemma restore_head:
  assumes "restorable cfg k" and p: "p = pxTopOfStack (tcb k (pxCurrentTCB k))"
  shows "\<exists>c'. exec cfg ([LDR_lit 0 (tcb_var cfg), LDR 1 0, LDR 2 1] @
        (if psplim (pcfg cfg) then [LDMIA 2 [1], MSR sPSPLIM 1] else [])) (c, k) = Some (c', k) \<and>
     gpr c' 2 = of_nat (p + 4 * limit_words cfg) \<and>
     sreg c' = (if psplim (pcfg cfg) then (sreg c)(sPSPLIM := stack_mem k p) else sreg c)"
proof -
  note l = load_current [of k cfg]
  have "load_list cfg k (of_nat p) 1 = words (stack_mem k) p 1"
    if "psplim (pcfg cfg)"
    using assms(1) that unfolding p
    by (intro load_list_at) (auto simp: restorable_def Let_def saved_end_def saved_frame_def limit_words_def intro: plain_sub)
  then show ?thesis
    using assms l by (auto simp: restorable_def Let_def set_gpr_def set_sreg_def limit_words_def)
qed

declare load_list.simps [simp del] store_list.simps [simp del]

text \<open>The registers that the routine itself loads, and the frame that the exception return loads.\<close>

lemma restore_registers:
  assumes r2: "gpr c 2 = of_nat q" and v: "words (stack_mem k) q 9 ! 8 = v" "v \<in> {0xFFFFFFED, 0xFFFFFFFD}"
    and fp: "fp \<longleftrightarrow> \<not> bit v 4" and f: "f = q + 36 + (if fp then 64 else 0)"
    and pl: "plain cfg k q f" "f < 2 ^ 32"
  shows "\<exists>c'. exec cfg [LDMIA 2 [4, 5, 6, 7, 8, 9, 10, 11, LR], TST LR 0x10, IT_EQ (VLDMIA 2 [16..<32]), MSR sPSP 2] (c, k) =
      Some (c', k) \<and> map (gpr c') [4, 5, 6, 7, 8, 9, 10, 11, LR] = words (stack_mem k) q 9 \<and>
    sreg c' = (sreg c)(sPSP := of_nat f) \<and>
    (fp \<longrightarrow> map (fpr c') [16..<32] = words (stack_mem k) (q + 36) 16)"
proof -
  let ?m = "stack_mem k"
  obtain r4 r5 r6 r7 r8 r9 r10 r11 w where hi: "words ?m q 9 = [r4, r5, r6, r7, r8, r9, r10, r11, w]"
    using length_9D [of "words ?m q 9"] by auto
  with v(1) have w: "w = v" by simp
  have l9: "load_list cfg k (of_nat q) 9 = [r4, r5, r6, r7, r8, r9, r10, r11, v]"
    using load_list_at [of cfg k q 9] plain_sub [OF pl(1), of q "q + 36"] pl f hi w by simp
  have l9S: "load_list cfg k (of_nat q) (Suc (Suc (Suc (Suc (Suc (Suc (Suc (Suc (Suc 0))))))))) =
      [r4, r5, r6, r7, r8, r9, r10, r11, v]"
    using l9 by (simp add: eval_nat_numeral)
  define g where "g x = (gpr c)(2 := x, 4 := r4, 5 := r5, 6 := r6, 7 := r7, 8 := r8, 9 := r9,
    10 := r10, 11 := r11, LR := v)" for x
  have g: "g x 2 = x" "g x LR = v" "(g x)(2 := y) = g y" for x y
    by (auto simp: g_def fun_eq_iff)
  define y where "y = (of_nat (q + 36) :: u32)"
  have s1: "exec1 cfg (LDMIA 2 [4, 5, 6, 7, 8, 9, 10, 11, LR]) (c, k) = Some (c\<lparr>gpr := g y\<rparr>, k)"
    using l9S by (simp add: r2 g_def Let_def y_def)
  define x2 where "x2 = (if fp then set_bit 30 (xpsr c) else unset_bit 30 (xpsr c))"
  have s2: "exec1 cfg (TST LR 0x10) (c\<lparr>gpr := g y\<rparr>, k) = Some (c\<lparr>gpr := g y, xpsr := x2\<rparr>, k)"
    using v(2) fp by (auto simp: g x2_def)
  define hs where "hs = [16..<32::nat]"
  have hs: "length hs = 16" "distinct hs" by (simp_all add: hs_def)
  define c3 where "c3 = c\<lparr>gpr := g (of_nat f), xpsr := x2, fpr := (if fp then assign hs (words ?m (q + 36) 16) (fpr c) else fpr c)\<rparr>"
  have "load_list cfg k y 16 = words ?m (q + 36) 16" if fp
    unfolding y_def using that pl f by (intro load_list_at) (auto intro: plain_sub)
  then have s3: "exec1 cfg (IT_EQ (VLDMIA 2 hs)) (c\<lparr>gpr := g y, xpsr := x2\<rparr>, k) = Some (c3, k)"
    by (simp add: c3_def x2_def bit_simps Let_def hs g f set_gpr_def y_def)
  have s4: "exec1 cfg (MSR sPSP 2) (c3, k) = Some (set_sreg sPSP (of_nat f) c3, k)"
    by (simp add: c3_def g)
  have "map (assign hs (words ?m (q + 36) 16) h) hs = words ?m (q + 36) 16" for h
    using map_assign [of hs "words ?m (q + 36) 16" h] hs by simp
  then have "fp \<longrightarrow> map (fpr (set_sreg sPSP (of_nat f) c3)) hs = words ?m (q + 36) 16"
    by (simp add: set_sreg_def c3_def)
  moreover have "map (gpr (set_sreg sPSP (of_nat f) c3)) [4, 5, 6, 7, 8, 9, 10, 11, LR] = words ?m q 9"
    by (simp add: set_sreg_def c3_def g_def hi w)
  moreover have "sreg (set_sreg sPSP (of_nat f) c3) = (sreg c)(sPSP := of_nat f)" by (simp add: set_sreg_def c3_def)
  moreover have "exec cfg [LDMIA 2 [4, 5, 6, 7, 8, 9, 10, 11, LR], TST LR 0x10, IT_EQ (VLDMIA 2 hs), MSR sPSP 2] (c, k) =
      Some (set_sreg sPSP (of_nat f) c3, k)"
    by (simp add: s1 s2 s3 s4 del: exec1.simps)
  ultimately show ?thesis unfolding hs_def [symmetric] by blast
qed

lemma return_restores:
  assumes sp: "sreg c sPSP = of_nat f" and v: "v = (if fp then 0xFFFFFFED else 0xFFFFFFFD)"
    and e: "e = f + unat (frame_size fp)" and pl: "plain cfg k f e" "e < 2 ^ 32"
  defines "lo \<equiv> words (stack_mem k) f 8" and "fs \<equiv> words (stack_mem k) (f + 32) 17"
  shows "\<exists>c'. exception_return cfg v (c, k) = Some (c', k) \<and>
    map (gpr c') [0, 1, 2, 3, 12, LR] = take 6 lo \<and> (\<forall>r. r \<notin> {0, 1, 2, 3, 12, LR} \<longrightarrow> gpr c' r = gpr c r) \<and>
    pc c' = lo ! 6 \<and> xpsr c' = unset_bit 9 (lo ! 7) \<and> fpca c' = fp \<and> spsel c' \<and>
    sreg c' = (sreg c)(sPSP := of_nat e OR (if bit (lo ! 7) 9 then 4 else 0)) \<and>
    (fp \<longrightarrow> map (fpr c') [0..<16] = take 16 fs \<and> fpscr c' = fs ! 16) \<and> (\<forall>r \<ge> 16. fpr c' r = fpr c r)"
proof -
  have l8: "load_list cfg k (of_nat f) 8 = lo"
    unfolding lo_def using pl e by (intro load_list_at) (auto simp: frame_size_def split: if_splits intro: plain_sub)
  have l17: "load_list cfg k (of_nat f + 32) 17 = fs" if fp
  proof -
    have e': "e = f + 104" using e that by (simp add: frame_size_def)
    then have "plain cfg k (f + 32) (f + 32 + 4 * 17)" by (intro plain_sub [OF pl(1)]) simp_all
    then show ?thesis using load_list_at [of cfg k "f + 32" 17] pl(2) e' by (simp add: fs_def)
  qed
  define c1 where "c1 = (set_sreg sPSP (of_nat e OR (if bit (lo ! 7) 9 then 4 else 0)) c)
    \<lparr>gpr := assign [0, 1, 2, 3, 12, LR] lo (gpr c), pc := lo ! 6, xpsr := unset_bit 9 (lo ! 7), fpca := fp, spsel := True\<rparr>"
  define c2 where "c2 = (if fp then c1\<lparr>fpr := assign [0..<16] fs (fpr c1), fpscr := fs ! 16\<rparr> else c1)"
  have "bit v 2" "(\<not> bit v 4) = fp" "v \<in> {0xFFFFFFE9, 0xFFFFFFED, 0xFFFFFFF9, 0xFFFFFFFD}" by (simp_all add: v)
  then have "exception_return cfg v (c, k) = Some (c2, k)"
    using l8 l17 e
    by (auto simp: exception_return_def thread_sp_def set_sreg_def Let_def c1_def c2_def sp simp del: upt_rec_numeral)
  moreover have "map (gpr c2) [0, 1, 2, 3, 12, LR] = take 6 lo"
    using map_assign [of "[0, 1, 2, 3, 12, LR]" lo "gpr c"]
    by (simp add: c2_def c1_def lo_def) (simp add: eval_nat_numeral)
  moreover have "gpr c2 r = gpr c r" if "r \<notin> {0, 1, 2, 3, 12, LR}" for r
    using that by (simp add: c2_def c1_def set_sreg_def assign_other)
  moreover have "map (assign [0..<16] fs h) [0..<16] = take 16 fs" for h
    using map_assign [of "[0..<16]" fs h] by (simp add: fs_def del: upt_rec_numeral)
  moreover have "fpr c2 r = fpr c r" if "r \<ge> 16" for r
    using that by (simp add: c2_def c1_def set_sreg_def assign_other del: upt_rec_numeral)
  ultimately show ?thesis
    by (intro exI [of _ c2]) (auto simp: c2_def c1_def set_sreg_def simp del: upt_rec_numeral)
qed

lemma restore_correct:
  assumes r: "restorable cfg k" and p: "p = pxTopOfStack (tcb k (pxCurrentTCB k))"
  shows "\<exists>c'. exec cfg (rm_freertos_port_restore_task_stackless cfg) (c, k) = Some (c', k) \<and>
     cpu_context cfg c' = saved_context cfg (stack_mem k) p \<and> spsel c' \<and>
     sreg c' sBASEPRI = sreg c sBASEPRI \<and> sreg c' sMSP = sreg c sMSP"
proof -
  let ?m = "stack_mem k"
  define q f e fp v where "q = p + 4 * limit_words cfg" and "f = saved_frame cfg ?m p" and "e = saved_end cfg ?m p"
    and "fp = saved_fp cfg ?m p" and "v = saved_exc cfg ?m p"
  note d = q_def f_def e_def fp_def v_def
  have e: "e < 2 ^ 32" "plain cfg k p e" and v: "v \<in> {0xFFFFFFED, 0xFFFFFFFD}"
    using r p by (auto simp: restorable_def Let_def e_def v_def)
  have fp: "fp \<longleftrightarrow> \<not> bit v 4" and v8: "words ?m q 9 ! 8 = v" by (simp_all add: d saved_fp_def saved_exc_def)
  have f: "f = q + 36 + (if fp then 64 else 0)" and fe: "e = f + unat (frame_size fp)" and "p \<le> q"
    by (simp_all add: d saved_frame_def saved_end_def)
  obtain c1 where c1: "exec cfg ([LDR_lit 0 (tcb_var cfg), LDR 1 0, LDR 2 1] @
        (if psplim (pcfg cfg) then [LDMIA 2 [1], MSR sPSPLIM 1] else [])) (c, k) = Some (c1, k)"
    "gpr c1 2 = of_nat q" "sreg c1 = (if psplim (pcfg cfg) then (sreg c)(sPSPLIM := ?m p) else sreg c)"
    using restore_head [OF assms, of c] unfolding q_def by blast
  have "plain cfg k q f" "f < 2 ^ 32" "plain cfg k f e"
    using e fe f \<open>p \<le> q\<close> by (auto intro: plain_sub)
  note pl = this
  from restore_registers [OF c1(2) v8 v fp f pl(1,2)] obtain c2 where
    c2: "exec cfg [LDMIA 2 [4, 5, 6, 7, 8, 9, 10, 11, LR], TST LR 0x10, IT_EQ (VLDMIA 2 [16..<32]), MSR sPSP 2] (c1, k) =
      Some (c2, k)" and g2: "map (gpr c2) [4, 5, 6, 7, 8, 9, 10, 11, LR] = words ?m q 9"
    and r2: "sreg c2 = (sreg c1)(sPSP := of_nat f)" "fp \<Longrightarrow> map (fpr c2) [16..<32] = words ?m (q + 36) 16"
    by blast
  have "v = (if fp then 0xFFFFFFED else 0xFFFFFFFD)" using v fp by auto
  from return_restores [OF _ this fe pl(3) e(1), of c2] r2 obtain c3 where
    c3: "exception_return cfg v (c2, k) = Some (c3, k)" "map (gpr c3) [0, 1, 2, 3, 12, LR] = take 6 (words ?m f 8)"
      "\<And>r. r \<notin> {0, 1, 2, 3, 12, LR} \<Longrightarrow> gpr c3 r = gpr c2 r" "pc c3 = words ?m f 8 ! 6"
      "xpsr c3 = unset_bit 9 (words ?m f 8 ! 7)" "fpca c3 = fp" "spsel c3"
      "sreg c3 = (sreg c2)(sPSP := of_nat e OR (if bit (words ?m f 8 ! 7) 9 then 4 else 0))"
      "fp \<Longrightarrow> map (fpr c3) [0..<16] = take 16 (words ?m (f + 32) 17) \<and> fpscr c3 = words ?m (f + 32) 17 ! 16"
      "\<And>r. r \<ge> 16 \<Longrightarrow> fpr c3 r = fpr c2 r"
    by auto
  have lr: "gpr c2 LR = v" using arg_cong [OF g2, of "\<lambda>xs. xs ! 8"] v8 by simp
  have split: "rm_freertos_port_restore_task_stackless cfg = ([LDR_lit 0 (tcb_var cfg), LDR 1 0, LDR 2 1] @
      (if psplim (pcfg cfg) then [LDMIA 2 [1], MSR sPSPLIM 1] else [])) @
      [LDMIA 2 [4, 5, 6, 7, 8, 9, 10, 11, LR], TST LR 0x10, IT_EQ (VLDMIA 2 [16..<32]), MSR sPSP 2] @ [BX LR]"
    unfolding rm_freertos_port_restore_task_stackless_def by simp
  have "exec cfg (rm_freertos_port_restore_task_stackless cfg) (c, k) = Some (c3, k)"
    unfolding split
    by (subst exec_append, subst c1(1), subst bind.bind_lunit, subst exec_append, subst c2) (simp add: lr c3(1))
  moreover have "cpu_context cfg c3 = saved_context cfg ?m p"
  proof -
    have hi: "map (gpr c3) [4, 5, 6, 7, 8, 9, 10, 11] = take 8 (words ?m q 9)"
      using arg_cong [OF g2, of "take 8"] by (simp add: c3(3))
    obtain f0 f1 f2 f3 f4 f5 f6 f7 where lo: "words ?m f 8 = [f0, f1, f2, f3, f4, f5, f6, f7]"
      using length_8D [of "words ?m f 8"] by auto
    have core: "map (gpr c3) [0, 1, 2, 3, 4, 5, 6, 7, 8, 9, 10, 11, 12, LR] =
        take 4 (words ?m f 8) @ take 8 (words ?m q 9) @ [words ?m f 8 ! 4, words ?m f 8 ! 5]"
      using hi c3(2) lo by simp
    have "[0..<32] = [0..<16] @ [16..<32::nat]" using upt_add_eq_append [of 0 16 16] by simp
    moreover have "map (fpr c3) [16..<32] = map (fpr c2) [16..<32]" using c3(10) by (intro map_cong) auto
    ultimately have "fp \<Longrightarrow> map (fpr c3) [0..<32] = take 16 (words ?m (f + 32) 17) @ words ?m (q + 36) 16"
      using c3(9) r2(2) by (simp del: upt_rec_numeral)
    then show ?thesis
      using core c3(4-9) r2(1) c1(3) unfolding cpu_context_def saved_context_def Let_def d [symmetric] by simp
  qed
  ultimately show ?thesis using c3(7,8) r2(1) c1(3) by (intro exI [of _ c3]) simp
qed

section \<open>Saving a context\<close>

text \<open>The frame is aligned to eight bytes; bit 9 of the saved status says whether a word was left out.\<close>

lemma bit_2_odd: "bit (w::u32) 2 \<longleftrightarrow> odd (unat w div 4)"
proof -
  have "bit w 2 = bit (uint w) 2" by (simp add: bit_uint_iff)
  also have "\<dots> = odd (uint w div 4)" by (simp add: bit_iff_odd)
  also have "uint w div 4 = int (unat w div 4)" by (simp add: zdiv_int)
  finally show ?thesis by simp
qed

lemma bit_4_iff: "bit (4 :: u32) n \<longleftrightarrow> n = 2"
  using bit_exp_iff [of 2 n, where ?'a="u32"] by auto

lemma and_not_4: "w AND NOT 4 = w - (if bit w 2 then 4 else 0)" for w :: "u32"
proof (cases "bit w 2")
  case True
  have "w - 4 = w AND NOT 4" by (rule disjunctive_diff) (metis True bit_4_iff)
  then show ?thesis using True by (simp only: if_True)
next
  case False
  have "bit (w AND NOT 4) n = bit w n" if "n < LENGTH(32)" for n using False that bit_4_iff [of n] by (cases "n = 2") (simp_all only: bit_and_iff bit_not_iff, simp_all)
  then have "w AND NOT 4 = w" by (rule bit_word_eqI)
  then show ?thesis using False by (simp only: if_False diff_zero)
qed

lemma unat_and_not_4: "unat (w AND NOT 4) = unat w - (if bit w 2 then 4 else 0)" for w :: "u32"
proof (cases "bit w 2")
  case True
  then have "unat w div 4 \<noteq> 0" using bit_2_odd [of w] by presburger
  then have "4 \<le> unat w" by simp
  then have "4 \<le> w" by (simp add: word_le_nat_alt)
  then have "unat (w - 4) = unat w - 4" by (simp add: unat_sub)
  then show ?thesis using True by (simp only: and_not_4 if_True)
qed (simp only: and_not_4 if_False diff_zero)

lemma or_4: "w OR 4 = w + 4" if "8 dvd unat w" for w :: "u32"
proof -
  have "\<not> bit w 2" using that by (auto simp: bit_2_odd dvd_def)
  then have "w + 4 = w OR 4" by (intro disjunctive_add) (metis bit_4_iff)
  then show ?thesis by simp
qed
lemma frame_address:
  fixes sp :: u32
  assumes "4 dvd unat sp" and "unat (frame_size fp) + 4 \<le> unat sp"
  defines "frame \<equiv> (sp - frame_size fp) AND NOT 4"
  shows "unat frame = unat sp - unat (frame_size fp) - (if bit sp 2 then 4 else 0)"
    and "8 dvd unat frame"
    and "(of_nat (unat frame + unat (frame_size fp)) :: u32) OR (if bit sp 2 then 4 else 0) = sp"
proof -
  have sz: "8 dvd unat (frame_size fp)" by (simp add: frame_size_def)
  have u: "unat (sp - frame_size fp) = unat sp - unat (frame_size fp)"
    using assms(2) by (simp add: unat_sub word_le_nat_alt)
  have "odd (unat (sp - frame_size fp) div 4) = odd (unat sp div 4)"
    unfolding u using assms(2) by (simp add: frame_size_def split: if_splits; presburger)
  then have b: "bit (sp - frame_size fp) 2 = bit sp 2" by (simp add: bit_2_odd)
  show f: "unat frame = unat sp - unat (frame_size fp) - (if bit sp 2 then 4 else 0)"
    unfolding frame_def unat_and_not_4 b u ..
  have d8: "8 dvd (unat sp - (if bit sp 2 then 4 else 0))"
    using assms(1) bit_2_odd [of sp] by (auto simp: dvd_def) presburger+
  then have "8 dvd (unat sp - (if bit sp 2 then 4 else 0)) - unat (frame_size fp)"
    using sz by (rule dvd_diff_nat)
  then show d: "8 dvd unat frame" unfolding f by (simp add: diff_right_commute add.commute)
  have e: "unat frame + unat (frame_size fp) = unat sp - (if bit sp 2 then 4 else 0)"
    using f assms(2) by simp
  show "(of_nat (unat frame + unat (frame_size fp)) :: u32) OR (if bit sp 2 then 4 else 0) = sp"
  proof (cases "bit sp 2")
    case True
    have "4 \<le> sp" using assms(2) by (simp add: word_le_nat_alt)
    then have "(of_nat (unat sp - 4) :: u32) = sp - 4" and "unat (sp - 4) = unat sp - 4"
      using assms(2) by (simp_all add: unat_sub of_nat_diff)
    then show ?thesis using True e d8 or_4 [of "sp - 4"] by simp
  qed (simp add: e)
qed

declare words.simps [simp del] put_words.simps [simp del]

lemma saved_pushed:
  assumes F: "F = p + 4 * limit_words cfg + 36 + (if fpca c then 64 else 0)"
    and m1: "m1 = put_words F (map (gpr c) [0, 1, 2, 3, 12, LR] @ [pc c, x]) m0"
    and m2: "m2 = (if fpca c then put_words (F + 32) (map (fpr c) [0..<16] @ [fpscr c]) m1 else m1)"
    and m3: "m3 = (if fpca c then put_words (F - 64) (map (fpr c) [16..<32]) m2 else m2)"
    and m4: "m4 = put_words (p + 4 * limit_words cfg)
               (map (gpr c) [4, 5, 6, 7, 8, 9, 10, 11] @ [exc_return (fpca c) True]) m3"
    and m5: "m5 = (if psplim (pcfg cfg) then put_words p [sreg c sPSPLIM] m4 else m4)"
    and sp: "(of_nat (F + unat (frame_size (fpca c))) OR (if bit x 9 then 4 else 0)) = sreg c sPSP"
    and x: "unset_bit 9 x = xpsr c"
  shows "saved_exc cfg m5 p = exc_return (fpca c) True" and "saved_frame cfg m5 p = F"
    and "saved_context cfg m5 p = cpu_context cfg c"
    and "a < p \<or> F + unat (frame_size (fpca c)) \<le> a \<Longrightarrow> m5 a = m0 a"
proof -
  have same: "a = b \<Longrightarrow> n = length ws \<Longrightarrow> words (put_words b ws m) a n = ws" for a b n m ws by simp
  note o = words_put_other put_words_other same
  have h: "words m5 (p + 4 * limit_words cfg) 9 =
      map (gpr c) [4, 5, 6, 7, 8, 9, 10, 11] @ [exc_return (fpca c) True]"
    by (simp add: m5 m4 o limit_words_def)
  have l: "words m5 F 8 = map (gpr c) [0, 1, 2, 3, 12, LR] @ [pc c, x]"
    by (simp add: m5 m4 m3 m2 m1 o limit_words_def F)
  have fp: "words m5 (F + 32) 17 = map (fpr c) [0..<16] @ [fpscr c]"
      "words m5 (p + 4 * limit_words cfg + 36) 16 = map (fpr c) [16..<32]" if "fpca c"
    using that by (simp_all add: m5 m4 m3 m2 o limit_words_def F del: upt_rec_numeral)
  have p: "psplim (pcfg cfg) \<Longrightarrow> m5 p = sreg c sPSPLIM" by (simp add: m5 put_words_hd)
  show e: "saved_exc cfg m5 p = exc_return (fpca c) True"
    by (simp add: saved_exc_def h)
  then have f: "saved_fp cfg m5 p = fpca c" by (simp add: saved_fp_def exc_return_def)
  then show sf: "saved_frame cfg m5 p = F" by (simp add: saved_frame_def F)
  have "[0..<32] = [0..<16] @ [16..<32::nat]" using upt_add_eq_append [of 0 16 16] by simp
  then show "saved_context cfg m5 p = cpu_context cfg c"
    using sp x fp p
    by (simp add: saved_context_def cpu_context_def Let_def h l f sf saved_end_def nth_append del: upt_rec_numeral)
  show "m5 a = m0 a" if "a < p \<or> F + unat (frame_size (fpca c)) \<le> a"
    using that by (auto simp: m5 m4 m3 m2 m1 o F frame_size_def limit_words_def simp del: upt_rec_numeral split: if_splits)
qed

text \<open>The most bytes that a context takes on the stack.\<close>

definition context_size :: "bool \<Rightarrow> nat" where
  "context_size fp = unat (frame_size fp) + (if fp then 64 else 0) + 36 + 8"

lemma store_list_at:
  assumes "plain cfg k lo hi" and "lo \<le> unat a" and "unat a + 4 * length ws \<le> hi" and "hi < 2 ^ 32"
  shows "store_list cfg a ws (k\<lparr>stack_mem := m\<rparr>) = k\<lparr>stack_mem := put_words (unat a) ws m\<rparr>"
  using store_list_plain [of cfg "k\<lparr>stack_mem := m\<rparr>" a ws] assms by (auto intro: plain_sub)

lemma entry_correct:
  assumes sel: "spsel c" and al: "4 dvd unat (sreg c sPSP)" and room: "lo + context_size (fpca c) \<le> unat (sreg c sPSP)"
    and pl: "plain cfg k lo (unat (sreg c sPSP))"
  defines "x \<equiv> (if bit (sreg c sPSP) 2 then set_bit 9 (xpsr c) else unset_bit 9 (xpsr c))"
    and "frame \<equiv> (sreg c sPSP - frame_size (fpca c)) AND NOT 4"
  defines "m1 \<equiv> put_words (unat frame) (map (gpr c) [0, 1, 2, 3, 12, LR] @ [pc c, x]) (stack_mem k)"
  shows "exception_entry cfg (c, k) =
    (set_gpr LR (exc_return (fpca c) True) (set_sreg sPSP frame (c\<lparr>fpca := False, spsel := False\<rparr>)),
     k\<lparr>stack_mem := (if fpca c then put_words (unat frame + 32) (map (fpr c) [0..<16] @ [fpscr c]) m1 else m1)\<rparr>)"
proof -
  let ?sp = "sreg c sPSP"
  have sz: "unat (frame_size (fpca c)) + 4 \<le> unat ?sp" using room by (simp add: frame_size_def context_size_def)
  note f = frame_address [OF al sz, folded frame_def]
  have hi: "unat ?sp < 2 ^ 32" by (rule unat_u32)
  have len: "length (map (gpr c) [0, 1, 2, 3, 12, LR] @ [pc c, x]) = 8"
      "length (map (fpr c) [0..<16] @ [fpscr c]) = 17" by simp_all
  have "store_list cfg frame (map (gpr c) [0, 1, 2, 3, 12, LR] @ [pc c, x]) (k\<lparr>stack_mem := stack_mem k\<rparr>) =
      k\<lparr>stack_mem := m1\<rparr>"
    unfolding m1_def by (rule store_list_at [OF pl _ _ hi]) (use f room len in \<open>auto simp: frame_size_def context_size_def\<close>)
  moreover have "store_list cfg (frame + 0x20) (map (fpr c) [0..<16] @ [fpscr c]) (k\<lparr>stack_mem := m1\<rparr>) =
      k\<lparr>stack_mem := put_words (unat frame + 32) (map (fpr c) [0..<16] @ [fpscr c]) m1\<rparr>" if fp: "fpca c"
  proof -
    have u: "unat (frame + 0x20) = unat frame + 32"
      using f(1) room hi fp by (subst unat_add_lem [THEN iffD1]) (auto simp: frame_size_def context_size_def)
    show ?thesis
      unfolding u [symmetric]
      by (rule store_list_at [OF pl _ _ hi]) (use f room fp u len in \<open>auto simp: frame_size_def context_size_def\<close>)
  qed
  moreover have "frame = ((sreg c sPSP - frame_size (fpca c)) AND - 5)" by (simp add: frame_def)
  ultimately show ?thesis
    using sel by (cases "fpca c")
      (simp_all add: exception_entry_def thread_sp_def Let_def x_def [symmetric] del: upt_rec_numeral)
qed

text \<open>What the handler needs of the interrupted thread: its stack from \<open>lo\<close> on has the room.\<close>

definition preemptible :: "arm_cfg \<Rightarrow> nat \<Rightarrow> cpu \<Rightarrow> 'a kernel_scheme \<Rightarrow> bool" where
  "preemptible cfg lo c k \<longleftrightarrow>
     spsel c \<and> 4 dvd unat (sreg c sPSP) \<and> lo + context_size (fpca c) \<le> unat (sreg c sPSP) \<and>
     plain cfg k lo (unat (sreg c sPSP)) \<and> \<not> bit (xpsr c) 9 \<and>
     pxCurrentTCB k < 2 ^ 32 \<and> pxCurrentTCB k \<noteq> unat (tcb_var cfg)"

lemma unset_set_9: "\<not> bit x 9 \<Longrightarrow> unset_bit 9 (if b then set_bit 9 x else unset_bit 9 x) = x"
    and bit_set_9: "bit (if b then set_bit 9 x else unset_bit 9 x) 9 = b" for x :: u32
  by (auto intro!: bit_word_eqI simp: bit_simps)

text \<open>The pushes of the handler itself, below the frame of the hardware down to \<open>P\<close>.\<close>

lemma unat_eqD: "unat w = n \<Longrightarrow> w = of_nat n" for w :: u32
  by auto

lemma unat_of_nat_small: "n < 2 ^ 32 \<Longrightarrow> unat (of_nat n :: u32) = n"
  by (simp add: unat_of_nat)

lemma push_fp:
  assumes z: "bit (xpsr c) 30 = fp" and r2: "gpr c 2 = frame" and G: "unat frame = G + (if fp then 64 else 0)"
    and pl: "plain cfg k lo (unat frame)" "lo \<le> G"
  shows "exec1 cfg (IT_EQ (VSTMDB 2 [16..<32])) (c, k\<lparr>stack_mem := m\<rparr>) =
    Some (set_gpr 2 (of_nat G) c, k\<lparr>stack_mem := (if fp then put_words G (map (fpr c) [16..<32]) m else m)\<rparr>)"
proof (cases fp)
  case True
  have hi: "unat frame < 2 ^ 32" by (rule unat_u32)
  define hs where "hs = [16..<32::nat]"
  have hs: "length hs = 16" by (simp add: hs_def)
  have "64 \<le> frame" using G True by (simp add: word_le_nat_alt)
  then have u: "unat (frame - 64) = G" using G True by (simp add: unat_sub)
  then have w: "frame - 64 = of_nat G" by (rule unat_eqD)
  have "store_list cfg (frame - 64) (map (fpr c) hs) (k\<lparr>stack_mem := m\<rparr>) = k\<lparr>stack_mem := put_words G (map (fpr c) hs) m\<rparr>"
    using store_list_at [OF pl(1) _ _ hi, of "frame - 64" "map (fpr c) hs" m] u G pl(2) hs True by simp
  then show ?thesis using True z r2 w unfolding hs_def [symmetric] by (simp add: hs)
next
  case False
  then have "of_nat G = frame" using G unat_eqD [of frame G] by simp
  moreover have "set_gpr 2 frame c = c" using r2 by (auto simp: set_gpr_def)
  ultimately show ?thesis using False z by simp
qed

lemma push_one:
  assumes r: "unat (gpr c 2) = P + 4 * length rs" and pl: "plain cfg k lo (P + 4 * length rs)" "lo \<le> P"
  shows "exec1 cfg (STMDB 2 rs) (c, k\<lparr>stack_mem := m\<rparr>) =
    Some (set_gpr 2 (of_nat P) c, k\<lparr>stack_mem := put_words P (map (gpr c) rs) m\<rparr>)"
proof -
  have hi: "unat (gpr c 2) < 2 ^ 32" by (rule unat_u32)
  have "gpr c 2 = of_nat (P + 4 * length rs)" using r by (rule unat_eqD)
  then have w: "gpr c 2 - 4 * of_nat (length rs) = of_nat P" by simp
  have "unat (of_nat P :: u32) = P" using hi r by (simp add: unat_of_nat)
  then show ?thesis
    using store_list_at [OF pl(1), of "of_nat P" "map (gpr c) rs" m] hi r pl(2) by (simp add: w Let_def)
qed

lemma save_registers:
  assumes F: "unat frame = P + 4 * limit_words cfg + 36 + (if fp then 64 else 0)" and lo: "lo \<le> P"
    and pl: "plain cfg k lo (unat frame)" and t: "pxCurrentTCB k < 2 ^ 32" "pxCurrentTCB k \<noteq> unat (tcb_var cfg)"
    and c: "sreg c sPSP = frame" "gpr c LR = exc" "fp \<longleftrightarrow> exc AND 0x10 = 0"
    and m3: "m3 = (if fp then put_words (unat frame - 64) (map (fpr c) [16..<32]) m2 else m2)"
    and m4: "m4 = put_words (P + 4 * limit_words cfg) (map (gpr c) [4, 5, 6, 7, 8, 9, 10, 11] @ [exc]) m3"
    and m5: "m5 = (if psplim (pcfg cfg) then put_words P [sreg c sPSPLIM] m4 else m4)"
  shows "\<exists>c'. exec cfg (save_code cfg) (c, k\<lparr>stack_mem := m2\<rparr>) =
      Some (c', upd_tcb (pxCurrentTCB k) (pxTopOfStack_update (\<lambda>_. P)) (k\<lparr>stack_mem := m5\<rparr>)) \<and> sreg c' = sreg c"
proof -
  let ?t = "pxCurrentTCB k" and ?v = "tcb_var cfg" and ?Q = "P + 4 * limit_words cfg"
  have hi: "unat frame < 2 ^ 32" by (rule unat_u32)
  define x2 where "x2 = (if fp then set_bit 30 (xpsr c) else unset_bit 30 (xpsr c))"
  define c1 where "c1 = c\<lparr>gpr := (gpr c)(3 := ?v, 1 := of_nat ?t, 2 := frame), xpsr := x2\<rparr>"
  have e1: "exec cfg [LDR_lit 3 ?v, LDR 1 3, MRS 2 sPSP, TST LR 0x10] (c, k\<lparr>stack_mem := m2\<rparr>) = Some (c1, k\<lparr>stack_mem := m2\<rparr>)"
    using c by (simp add: c1_def x2_def set_gpr_def load_def)
  define c2 where "c2 = set_gpr 2 (of_nat (?Q + 36)) c1"
  have e2: "exec1 cfg (IT_EQ (VSTMDB 2 [16..<32])) (c1, k\<lparr>stack_mem := m2\<rparr>) = Some (c2, k\<lparr>stack_mem := m3\<rparr>)"
  proof -
    have "bit (xpsr c1) 30 = fp" "gpr c1 2 = frame" "fpr c1 = fpr c" by (simp_all add: c1_def x2_def bit_simps)
    moreover have "unat frame - 64 = ?Q + 36" if fp using F that by simp
    then have "(if fp then put_words (?Q + 36) (map (fpr c) [16..<32]) m2 else m2) = m3"
      by (cases fp) (simp_all only: m3 if_True if_False)
    ultimately show ?thesis
      using push_fp [of c1 fp frame "?Q + 36" cfg k lo m2] F pl lo unfolding c2_def by (simp only:)
  qed
  define c3 where "c3 = set_gpr 2 (of_nat ?Q) c2"
  have u2: "unat (gpr c2 2) = ?Q + 36"
    using unat_of_nat_small [of "?Q + 36"] F hi by (simp add: c2_def set_gpr_def)
  have e3: "exec1 cfg (STMDB 2 [4, 5, 6, 7, 8, 9, 10, 11, LR]) (c2, k\<lparr>stack_mem := m3\<rparr>) = Some (c3, k\<lparr>stack_mem := m4\<rparr>)"
    using push_one [of c2 ?Q "[4, 5, 6, 7, 8, 9, 10, 11, LR]" cfg k lo m3] u2 lo F plain_sub [OF pl, of lo "?Q + 36"] c(2)
    by (simp add: c3_def m4 c2_def c1_def set_gpr_def)
  have "\<exists>c4. exec cfg (if psplim (pcfg cfg) then [MRS 3 sPSPLIM, STMDB 2 [3]] else []) (c3, k\<lparr>stack_mem := m4\<rparr>) =
      Some (c4, k\<lparr>stack_mem := m5\<rparr>) \<and> gpr c4 2 = of_nat P \<and> gpr c4 1 = of_nat ?t \<and> sreg c4 = sreg c"
  proof (cases "psplim (pcfg cfg)")
    case True
    let ?c = "set_gpr 3 (sreg c sPSPLIM) c3"
    have "unat (gpr ?c 2) = P + 4" 
      using unat_of_nat_small [of "P + 4"] True F hi by (simp add: c3_def set_gpr_def limit_words_def)
    from push_one [of ?c P "[3]" cfg k lo m4] this lo F True plain_sub [OF pl, of lo "P + 4"] show ?thesis
      by (simp add: m5 limit_words_def) (simp add: set_gpr_def c3_def c2_def c1_def)
  qed (simp add: m5 c3_def c2_def c1_def set_gpr_def limit_words_def)
  then obtain c4 where e4: "exec cfg (if psplim (pcfg cfg) then [MRS 3 sPSPLIM, STMDB 2 [3]] else []) (c3, k\<lparr>stack_mem := m4\<rparr>) =
      Some (c4, k\<lparr>stack_mem := m5\<rparr>)" "gpr c4 2 = of_nat P" "gpr c4 1 = of_nat ?t" "sreg c4 = sreg c" by blast
  have ut: "unat (of_nat ?t :: u32) = ?t" using t by (simp add: unat_of_nat)
  then have "(of_nat ?t :: u32) \<noteq> ?v" using t(2) by auto
  moreover have "unat (of_nat P :: u32) = P" using F hi by (simp add: unat_of_nat)
  ultimately have e5: "exec1 cfg (STR_to 2 1) (c4, k\<lparr>stack_mem := m5\<rparr>) =
      Some (c4, upd_tcb ?t (pxTopOfStack_update (\<lambda>_. P)) (k\<lparr>stack_mem := m5\<rparr>))"
    using ut e4(2) e4(3) [unfolded One_nat_def] by (simp add: store_def)
  have split: "save_code cfg = [LDR_lit 3 ?v, LDR 1 3, MRS 2 sPSP, TST LR 0x10] @
      [IT_EQ (VSTMDB 2 [16..<32]), STMDB 2 [4, 5, 6, 7, 8, 9, 10, 11, LR]] @
      (if psplim (pcfg cfg) then [MRS 3 sPSPLIM, STMDB 2 [3]] else []) @ [STR_to 2 1]"
    unfolding save_code_def by simp
  have "exec cfg (save_code cfg) (c, k\<lparr>stack_mem := m2\<rparr>) =
      Some (c4, upd_tcb ?t (pxTopOfStack_update (\<lambda>_. P)) (k\<lparr>stack_mem := m5\<rparr>))"
    unfolding split
    by (subst exec_append, subst e1) (simp only: bind.bind_lunit append_Cons append_Nil exec.simps e2 e3 exec_append e4(1) e5)
  then show ?thesis using e4(4) by blast
qed

lemma save_correct:
  assumes pre: "preemptible cfg lo c k"
  shows "\<exists>c' m p. exec cfg (save_code cfg) (exception_entry cfg (c, k)) =
      Some (c', upd_tcb (pxCurrentTCB k) (pxTopOfStack_update (\<lambda>_. p)) (k\<lparr>stack_mem := m\<rparr>)) \<and>
    sreg c' sMSP = sreg c sMSP \<and> lo \<le> p \<and> saved_context cfg m p = cpu_context cfg c \<and>
    saved_exc cfg m p \<in> {0xFFFFFFED, 0xFFFFFFFD} \<and> saved_end cfg m p \<le> unat (sreg c sPSP) \<and>
    (\<forall>a. a < lo \<or> unat (sreg c sPSP) \<le> a \<longrightarrow> m a = stack_mem k a)"
proof -
  let ?sp = "sreg c sPSP"
  have sel: "spsel c" and al: "4 dvd unat ?sp" and room: "lo + context_size (fpca c) \<le> unat ?sp"
    and pl: "plain cfg k lo (unat ?sp)" and b9: "\<not> bit (xpsr c) 9"
    and t: "pxCurrentTCB k < 2 ^ 32" "pxCurrentTCB k \<noteq> unat (tcb_var cfg)"
    using pre by (auto simp: preemptible_def)
  define x where "x = (if bit ?sp 2 then set_bit 9 (xpsr c) else unset_bit 9 (xpsr c))"
  define frame where "frame = (?sp - frame_size (fpca c)) AND NOT 4"
  define m1 where "m1 = put_words (unat frame) (map (gpr c) [0, 1, 2, 3, 12, LR] @ [pc c, x]) (stack_mem k)"
  define m2 where "m2 = (if fpca c then put_words (unat frame + 32) (map (fpr c) [0..<16] @ [fpscr c]) m1 else m1)"
  define exc where "exc = exc_return (fpca c) True"
  define c0 where "c0 = set_gpr LR exc (set_sreg sPSP frame (c\<lparr>fpca := False, spsel := False\<rparr>))"
  have entry: "exception_entry cfg (c, k) = (c0, k\<lparr>stack_mem := m2\<rparr>)"
    using entry_correct [OF sel al room pl] by (simp only: c0_def m2_def m1_def x_def frame_def exc_def)
  have sz: "unat (frame_size (fpca c)) + 4 \<le> unat ?sp" using room by (simp add: frame_size_def context_size_def)
  note f = frame_address [OF al sz, folded frame_def]
  define P where "P = unat frame - (if fpca c then 64 else 0) - 36 - 4 * limit_words cfg"
  have FP: "unat frame = P + 4 * limit_words cfg + 36 + (if fpca c then 64 else 0)" "lo \<le> P" "unat frame \<le> unat ?sp"
    using f(1) room by (auto simp: P_def limit_words_def frame_size_def context_size_def split: if_splits)
  define m3 where "m3 = (if fpca c then put_words (unat frame - 64) (map (fpr c) [16..<32]) m2 else m2)"
  define m4 where "m4 = put_words (P + 4 * limit_words cfg) (map (gpr c) [4, 5, 6, 7, 8, 9, 10, 11] @ [exc]) m3"
  define m5 where "m5 = (if psplim (pcfg cfg) then put_words P [sreg c sPSPLIM] m4 else m4)"
  have c0: "sreg c0 sPSP = frame" "gpr c0 LR = exc" "fpca c \<longleftrightarrow> exc AND 0x10 = 0" "fpr c0 = fpr c"
      "map (gpr c0) [4, 5, 6, 7, 8, 9, 10, 11] = map (gpr c) [4, 5, 6, 7, 8, 9, 10, 11]"
      "sreg c0 sPSPLIM = sreg c sPSPLIM" "sreg c0 sMSP = sreg c sMSP"
    by (simp_all add: c0_def exc_def exc_return_def set_gpr_def set_sreg_def)
  obtain c5 where run: "exec cfg (save_code cfg) (exception_entry cfg (c, k)) =
      Some (c5, upd_tcb (pxCurrentTCB k) (pxTopOfStack_update (\<lambda>_. P)) (k\<lparr>stack_mem := m5\<rparr>))" "sreg c5 = sreg c0"
    using save_registers [OF FP(1,2) plain_sub [OF pl _ FP(3)] t c0(1-3), of m3 m2 m4 m5, unfolded c0(4-6), OF _ m3_def m4_def m5_def]
    unfolding entry by blast
  have x: "unset_bit 9 x = xpsr c" "bit x 9 = bit ?sp 2" using b9 unset_set_9 bit_set_9 by (auto simp: x_def)
  note s = saved_pushed [OF FP(1) m1_def m2_def m3_def m4_def [unfolded exc_def] m5_def _ x(1), unfolded x(2), OF f(3)]
  have "saved_fp cfg m5 P = fpca c" using s(1) by (simp add: saved_fp_def exc_return_def)
  then have "saved_end cfg m5 P \<le> unat ?sp" using s(2) f(1) sz by (simp add: saved_end_def)
  moreover have "saved_exc cfg m5 P \<in> {0xFFFFFFED, 0xFFFFFFFD}" using s(1) by (simp add: exc_return_def)
  moreover have "m5 a = stack_mem k a" if "a < lo \<or> unat ?sp \<le> a" for a
    by (rule s(4)) (use that FP(2) f(1) sz in \<open>auto split: if_splits\<close>)
  ultimately show ?thesis using run s(3) FP(2) c0(7) by auto
qed

section \<open>The switch as a whole\<close>

text \<open>The kernel does not look at the stacks when it selects a task.\<close>

definition restack :: "(nat \<Rightarrow> u32) \<Rightarrow> (nat \<Rightarrow> nat) \<Rightarrow> 'a kernel_scheme \<Rightarrow> 'a kernel_scheme" where
  "restack m tops k = k\<lparr>stack_mem := m, tcb := (\<lambda>t. (tcb k t)\<lparr>pxTopOfStack := tops t\<rparr>)\<rparr>"

lemma restack_simps [simp]:
  "lists (restack m p k) = lists k" "items (restack m p k) l = items k l"
  "pxCurrentTCB (restack m p k) = pxCurrentTCB k" "uxTopReadyPriority (restack m p k) = uxTopReadyPriority k"
  "uxSchedulerSuspended (restack m p k) = uxSchedulerSuspended k"
  "stack_mem (restack m p k) = m" "tcb (restack m p k) t = (tcb k t)\<lparr>pxTopOfStack := p t\<rparr>"
  "kheap (restack m p k) = kheap k" "ktasks (restack m p k) = ktasks k"
  "(restack m p k)\<lparr>pendsv := b\<rparr> = restack m p (k\<lparr>pendsv := b\<rparr>)"
  by (simp_all add: restack_def items_def ktasks_def)

lemma find_top_restack [simp]: "find_top n (restack m p k) = find_top n k"
  by (induction n "restack m p k" rule: find_top.induct) (auto split: nat.split)

lemma restack_set:
  "(restack m p k)\<lparr>lists := l, pxCurrentTCB := t, uxTopReadyPriority := n\<rparr> =
   restack m p (k\<lparr>lists := l, pxCurrentTCB := t, uxTopReadyPriority := n\<rparr>)"
  by (simp add: restack_def)

lemma vTaskSwitchContext_restack:
  "vTaskSwitchContext (restack m p k) = map_option (restack m p) (vTaskSwitchContext k)"
proof (cases "uxSchedulerSuspended k \<noteq> 0")
  case True
  then show ?thesis by (simp add: vTaskSwitchContext_def restack_def)
next
  case False
  have r: "(restack m p k)\<lparr>xYieldPending := False\<rparr> = restack m p (k\<lparr>xYieldPending := False\<rparr>)"
    by (simp add: restack_def)
  have "taskSELECT_HIGHEST_PRIORITY_TASK (restack m p k) =
      map_option (restack m p) (taskSELECT_HIGHEST_PRIORITY_TASK k)" for k :: "'a kernel_scheme"
  proof (cases "find_top (uxTopReadyPriority k) k")
    case (Some n)
    then show ?thesis
      by (cases "snd (a_next_entry (Ready n) (lists k))")
        (simp_all add: taskSELECT_HIGHEST_PRIORITY_TASK_def case_prod_unfold Let_def restack_set del: find_top.simps)
  qed (simp add: taskSELECT_HIGHEST_PRIORITY_TASK_def del: find_top.simps)
  then show ?thesis using False by (simp add: vTaskSwitchContext_def r)
qed

lemma kinv_restack: "kinv s \<Longrightarrow> kinv (restack m p s)"
  by (rule kinv_congI [where s = s]) (simp_all add: kinv_current, simp_all add: restack_def)

lemma tinv_restack: "tinv S E s \<Longrightarrow> tinv S E (restack m p s)"
  by (rule tinv_update [where s = s])
    (auto simp: tinv_def kinv_restack terminated_def is_ready_def waiting_free_def, auto simp: restack_def)

text \<open>The context of a task: in the processor if it runs, else on its stack.\<close>

definition task_context :: "arm_cfg \<Rightarrow> cpu \<times> 'a kernel_scheme \<Rightarrow> nat \<Rightarrow> thread_context" where
  "task_context cfg = (\<lambda>(c, k) t.
     if t = pxCurrentTCB k then cpu_context cfg c
     else saved_context cfg (stack_mem k) (pxTopOfStack (tcb k t)))"

definition saved_ok :: "arm_cfg \<Rightarrow> (nat \<Rightarrow> u32) \<Rightarrow> nat \<Rightarrow> nat \<Rightarrow> nat \<Rightarrow> bool" where
  "saved_ok cfg m p lo hi \<longleftrightarrow>
     lo \<le> p \<and> saved_end cfg m p \<le> hi \<and> saved_exc cfg m p \<in> {0xFFFFFFED, 0xFFFFFFFD} \<and>
     unat (cx_sp (saved_context cfg m p)) \<le> hi \<and> 4 dvd unat (cx_sp (saved_context cfg m p))"

text \<open>
  The invariant: the kernel's; the stack of every task is the heap region from \<open>pxStack\<close> to
  \<open>hi\<close>; the running task uses its own stack, as a thread that the switch may interrupt, and the
  others have a saved context on theirs.  The variable \<open>pxCurrentTCB\<close> is outside the heap.
\<close>

definition running_ok :: "nat \<Rightarrow> cpu \<Rightarrow> bool" where
  "running_ok hi c \<longleftrightarrow> spsel c \<and> 4 dvd unat (sreg c sPSP) \<and> unat (sreg c sPSP) \<le> hi \<and> \<not> bit (xpsr c) 9"

definition stacks_in :: "nat \<Rightarrow> (nat \<Rightarrow> nat) \<Rightarrow> 'a kernel_scheme \<Rightarrow> tile list \<Rightarrow> bool" where
  "stacks_in S hi k ts \<longleftrightarrow>
     heap_ok (kheap k) S ts \<and> owned_by S ts k \<and>
     (\<forall>t \<in> ktasks k. (pxStack (tcb k t), hi t - pxStack (tcb k t)) \<in> live_regions S ts \<and> pxStack (tcb k t) \<le> hi t)"

definition minv :: "arm_cfg \<Rightarrow> nat \<Rightarrow> nat \<Rightarrow> (nat \<Rightarrow> nat) \<Rightarrow> cpu \<times> 'a kernel_scheme \<Rightarrow> bool" where
  "minv cfg S E hi = (\<lambda>(c, k).
     tinv S E k \<and> (\<exists>ts. stacks_in S hi k ts) \<and>
     (unat (tcb_var cfg) < S \<or> E < unat (tcb_var cfg)) \<and>
     running_ok (hi (pxCurrentTCB k)) c \<and>
     (\<forall>t \<in> ktasks k. t \<noteq> pxCurrentTCB k \<longrightarrow>
        saved_ok cfg (stack_mem k) (pxTopOfStack (tcb k t)) (pxStack (tcb k t)) (hi t)))"

lemma stacks_in_bounds:
  assumes "stacks_in S hi k ts" and "pxEnd (kheap k) = E" and t: "t \<in> ktasks k"
  shows "S \<le> pxStack (tcb k t)" and "hi t \<le> E" and "hi t < 2 ^ 32" and "t < 2 ^ 32" and "S \<le> t" and "t \<le> E"
proof -
  have h: "heap_ok (kheap k) S ts" using assms(1) by (simp add: stacks_in_def)
  have e: "E + 8 \<le> 2 ^ 32" using h assms(2) by (simp add: heap_ok_def heap_layout_def w32_def)
  have r: "(pxStack (tcb k t), hi t - pxStack (tcb k t)) \<in> live_regions S ts" "pxStack (tcb k t) \<le> hi t"
    using assms(1) t by (auto simp: stacks_in_def)
  from live_bounds [OF h r(1)] r(2) assms(2) show "S \<le> pxStack (tcb k t)" and hi: "hi t \<le> E" by simp_all
  then show "hi t < 2 ^ 32" using e by simp
  obtain n where "(t, n) \<in> live_regions S ts" using assms(1) t by (auto simp: stacks_in_def owned_by_def)
  from live_bounds [OF h this] assms(2) show "S \<le> t" and te: "t \<le> E" by simp_all
  then show "t < 2 ^ 32" using e by simp
qed

lemma stacks_apart:
  assumes "stacks_in S hi k ts" and t: "t \<in> ktasks k" and u: "u \<in> ktasks k"
  shows "t \<noteq> u \<Longrightarrow> hi t \<le> pxStack (tcb k u) \<or> hi u \<le> pxStack (tcb k t)"
    and "u < pxStack (tcb k t) \<or> hi t \<le> u"
proof -
  have h: "heap_ok (kheap k) S ts" and o: "owned_by S ts k" using assms(1) by (simp_all add: stacks_in_def)
  have r: "(pxStack (tcb k v), hi v - pxStack (tcb k v)) \<in> live_regions S ts" "pxStack (tcb k v) \<le> hi v"
    if "v \<in> ktasks k" for v
    using assms(1) that by (auto simp: stacks_in_def)
  note ap = heap4.live_apart [of "kheap k" S ts "pxEnd (kheap k)"]
  show "hi t \<le> pxStack (tcb k u) \<or> hi u \<le> pxStack (tcb k t)" if "t \<noteq> u"
  proof -
    have "pxStack (tcb k t) \<noteq> pxStack (tcb k u)" using o t u that by (auto simp: owned_by_def)
    then show ?thesis
      using ap [OF _ r(1) [OF t] r(1) [OF u]] h r(2) [OF t] r(2) [OF u] by (auto simp: apart_def)
  qed
  obtain n where n: "(u, n) \<in> live_regions S ts" using o u by (auto simp: owned_by_def)
  have "pxStack (tcb k t) \<noteq> u" using o t u by (auto simp: owned_by_def)
  then show "u < pxStack (tcb k t) \<or> hi t \<le> u"
    using ap [OF _ r(1) [OF t] n] h r(2) [OF t] by (auto simp: apart_def)
qed

lemma stacks_plain:
  assumes st: "stacks_in S hi k ts" and "pxEnd (kheap k) = E" and "pxCurrentTCB k \<in> ktasks k"
    and "unat (tcb_var cfg) < S \<or> E < unat (tcb_var cfg)" and t: "t \<in> ktasks k"
  shows "plain cfg k (pxStack (tcb k t)) (hi t)"
  using stacks_in_bounds [OF st assms(2) t] stacks_apart(2) [OF st t assms(3)] assms(4)
  unfolding plain_def by (auto simp: not_less)

lemma saved_ok_cong:
  assumes "saved_ok cfg m p lo hi" and "\<And>x. lo \<le> x \<Longrightarrow> x < hi \<Longrightarrow> m x = m' x"
  shows "saved_ok cfg m' p lo hi" and "saved_context cfg m' p = saved_context cfg m p"
    and "saved_end cfg m' p = saved_end cfg m p" and "saved_exc cfg m' p = saved_exc cfg m p"
proof -
  have e: "m x = m' x" if "p \<le> x" "x < saved_end cfg m p" for x
    using assms that by (auto simp: saved_ok_def)
  note c = saved_context_cong [OF e]
  show "saved_context cfg m' p = saved_context cfg m p" "saved_end cfg m' p = saved_end cfg m p"
      "saved_exc cfg m' p = saved_exc cfg m p"
    using c by simp_all
  then show "saved_ok cfg m' p lo hi" using assms(1) by (simp add: saved_ok_def)
qed

lemma saved_xpsr [simp]: "\<not> bit (cx_xpsr (saved_context cfg m p)) 9"
  by (simp add: saved_context_def Let_def bit_simps)

lemma running_ok_restored:
  assumes "cpu_context cfg c = saved_context cfg m p" and "spsel c" and "saved_ok cfg m p lo hi"
  shows "running_ok hi c"
proof -
  have "sreg c sPSP = cx_sp (saved_context cfg m p)" "xpsr c = cx_xpsr (saved_context cfg m p)"
    by (simp_all add: assms(1) [symmetric] cpu_context_def)
  then show ?thesis using assms(2,3) by (simp add: running_ok_def saved_ok_def)
qed

lemma select_correct:
  assumes "vTaskSwitchContext k = Some k'"
  shows "\<exists>c'. exec cfg select_code (c, k) = Some (c', k') \<and> sreg c' = (sreg c)(sBASEPRI := 0)"
  using assms by (auto simp: select_code_def set_gpr_def set_sreg_def)

lemma context_switch_step:
  assumes inv: "minv cfg S E hi (c, k)"
    and room: "pxStack (tcb k (pxCurrentTCB k)) + context_size (fpca c) \<le> unat (sreg c sPSP)"
    and s: "PendSV_Handler k = Some s" "tinv S E s"
  shows "\<exists>c' m tops. PendSV_exception cfg (c, k) = Some (c', restack m tops s) \<and>
    minv cfg S E hi (c', restack m tops s) \<and> sreg c' sBASEPRI = 0 \<and> sreg c' sMSP = sreg c sMSP \<and>
    (\<forall>t \<in> ktasks k. task_context cfg (c', restack m tops s) t = task_context cfg (c, k) t)"
proof -
  let ?t = "pxCurrentTCB k" and ?k = "k\<lparr>pendsv := False\<rparr>"
  let ?lo = "pxStack (tcb k ?t)"
  have ti: "tinv S E k" and var: "unat (tcb_var cfg) < S \<or> E < unat (tcb_var cfg)"
    and ro: "running_ok (hi ?t) c"
    and so: "\<And>u. u \<in> ktasks k \<Longrightarrow> u \<noteq> ?t \<Longrightarrow>
        saved_ok cfg (stack_mem k) (pxTopOfStack (tcb k u)) (pxStack (tcb k u)) (hi u)"
    using inv by (auto simp: minv_def)
  obtain ts where st: "stacks_in S hi k ts" using inv by (auto simp: minv_def)
  have E: "pxEnd (kheap k) = E" using ti by (auto simp: tinv_def owned_def)
  have t: "?t \<in> ktasks k" using kinv_current [OF tinv_kinv [OF ti]] .
  note b = stacks_in_bounds [OF st E t]
  have "plain cfg ?k ?lo (hi ?t)" using stacks_plain [OF st E t var t] by (simp add: plain_def)
  then have pre: "preemptible cfg ?lo c ?k"
    using ro room b var by (auto simp: preemptible_def running_ok_def intro: plain_sub)
  from save_correct [OF pre] obtain c1 m p where save: "exec cfg (save_code cfg) (exception_entry cfg (c, ?k)) =
      Some (c1, upd_tcb ?t (pxTopOfStack_update (\<lambda>_. p)) (?k\<lparr>stack_mem := m\<rparr>))"
    and msp: "sreg c1 sMSP = sreg c sMSP" and p: "?lo \<le> p" "saved_context cfg m p = cpu_context cfg c"
    "saved_exc cfg m p \<in> {0xFFFFFFED, 0xFFFFFFFD}" "saved_end cfg m p \<le> unat (sreg c sPSP)"
    and mem: "\<And>a. a < ?lo \<or> unat (sreg c sPSP) \<le> a \<Longrightarrow> m a = stack_mem k a"
    by auto
  define tops where "tops = (\<lambda>u. if u = ?t then p else pxTopOfStack (tcb k u))"
  have k1: "upd_tcb ?t (pxTopOfStack_update (\<lambda>_. p)) (?k\<lparr>stack_mem := m\<rparr>) = restack m tops ?k"
    by (auto simp: upd_tcb_def restack_def tops_def fun_eq_iff)
  have sw: "vTaskSwitchContext ?k = Some s" using s(1) by (simp add: PendSV_Handler_def)
  have f: "tcb s = tcb k" "kheap s = kheap k" "ktasks s = ktasks k"
    using switch_frame_lists [OF sw] by (simp_all add: ktasks_def)
  obtain c2 where sel: "exec cfg select_code (c1, restack m tops ?k) = Some (c2, restack m tops s)"
      "sreg c2 = (sreg c1)(sBASEPRI := 0)"
    using select_correct [of "restack m tops ?k" "restack m tops s" cfg c1] sw
    by (auto simp: vTaskSwitchContext_restack)
  have same: "m x = stack_mem k x" if "u \<in> ktasks k" "u \<noteq> ?t" "pxStack (tcb k u) \<le> x" "x < hi u" for u x
  proof (rule mem)
    show "x < ?lo \<or> unat (sreg c sPSP) \<le> x"
      using stacks_apart(1) [OF st t that(1)] that ro by (auto simp: running_ok_def)
  qed
  have ok: "saved_ok cfg m (tops u) (pxStack (tcb k u)) (hi u) \<and>
      saved_context cfg m (tops u) = task_context cfg (c, k) u" if u: "u \<in> ktasks k" for u
  proof (cases "u = ?t")
    case True
    have "cx_sp (saved_context cfg m p) = sreg c sPSP" by (simp add: p(2) cpu_context_def)
    then show ?thesis
      using True p ro by (simp add: saved_ok_def tops_def task_context_def running_ok_def)
  next
    case False
    have e: "stack_mem k x = m x" if "pxStack (tcb k u) \<le> x" "x < hi u" for x
      using same [OF u False that] by simp
    note so = saved_ok_cong [OF so [OF u False] e]
    show ?thesis using so(1,2) False by (simp add: tops_def task_context_def)
  qed
  let ?u = "pxCurrentTCB s"
  have u: "?u \<in> ktasks k" using kinv_current [OF tinv_kinv [OF s(2)]] f by simp
  have st': "stacks_in S hi (restack m tops s) ts"
    using st f by (simp add: stacks_in_def owned_by_def)
  have "restorable cfg (restack m tops s)"
    using ok [OF u] stacks_plain [OF st' _ _ var, of ?u] E u f var stacks_in_bounds [OF st E u]
    by (auto simp: restorable_def Let_def saved_ok_def intro: plain_sub)
  from restore_correct [OF this HOL.refl, of c2] obtain c' where
    r: "exec cfg (rm_freertos_port_restore_task_stackless cfg) (c2, restack m tops s) = Some (c', restack m tops s)"
      "cpu_context cfg c' = saved_context cfg m (tops ?u)" "spsel c'"
      "sreg c' sBASEPRI = 0" "sreg c' sMSP = sreg c sMSP"
    using sel(2) msp by auto
  have "PendSV_exception cfg (c, k) = Some (c', restack m tops s)"
    unfolding PendSV_exception_def PendSV_code_def prod.case exec_append
    by (simp add: save k1 sel(1) r(1) del: exec_append)
  moreover have running: "running_ok (hi ?u) c'" using running_ok_restored [OF r(2,3)] ok [OF u] by blast
  moreover have "minv cfg S E hi (c', restack m tops s)"
    using tinv_restack [OF s(2)] st' var ok f running by (auto simp: minv_def)
  moreover have "task_context cfg (c', restack m tops s) t = task_context cfg (c, k) t" if "t \<in> ktasks k" for t
    using ok [OF that] r(2) by (cases "t = ?u") (auto simp: task_context_def)
  ultimately show ?thesis using r(4,5) by blast
qed

section \<open>Starting a task\<close>

text \<open>\<open>pxPortInitialiseStack\<close> leaves a saved context in which the task is about to enter its function.\<close>

lemma stack_init_frame:
  "pxPortInitialiseStack cfg sp lim fn par k = Some (k', p) \<Longrightarrow> \<exists>m. k' = k\<lparr>stack_mem := m\<rparr>"
  unfolding pxPortInitialiseStack_def store_word_def
  by (clarsimp simp: Let_def split: if_splits bind_splits) (rule exI, rule HOL.refl)+

lemma stack_initial:
  assumes i: "pxPortInitialiseStack (pcfg cfg) sp lim fn par k = Some (k', p)"
    and al: "8 dvd sp" and sp: "lo + 72 \<le> sp" "sp < 2 ^ 32"
  shows "saved_ok cfg (stack_mem k') p lo sp" and "lo \<le> p"
    and "cx_pc (saved_context cfg (stack_mem k') p) = fn AND portSTART_ADDRESS_MASK"
    and "core (saved_context cfg (stack_mem k') p) ! 0 = par"
    and "core (saved_context cfg (stack_mem k') p) ! 13 = task_return (pcfg cfg)"
    and "cx_xpsr (saved_context cfg (stack_mem k') p) = portINITIAL_XPSR"
    and "cx_sp (saved_context cfg (stack_mem k') p) = of_nat sp"
    and "cx_limit (saved_context cfg (stack_mem k') p) =
      (if psplim (pcfg cfg) then of_nat (wadd lim (psplim_offset (pcfg cfg))) else 0)"
    and "cx_fp (saved_context cfg (stack_mem k') p) = None"
proof -
  have p: "sp = p + 4 * limit_words cfg + 68"
    using i sp by (auto simp: pxPortInitialiseStack_def store_word_def limit_words_def w32_value Let_def split: if_splits bind_splits)
  let ?q = "p + 4 * limit_words cfg" and ?m = "stack_mem k'"
  have m: "?m (?q + 64) = portINITIAL_XPSR" "?m (?q + 60) = fn AND portSTART_ADDRESS_MASK"
      "?m (?q + 56) = task_return (pcfg cfg)" "?m (?q + 36) = par" "?m (?q + 32) = portINITIAL_EXC_RETURN"
      "psplim (pcfg cfg) \<Longrightarrow> ?m p = of_nat (wadd lim (psplim_offset (pcfg cfg)))"
    using i sp p by (auto simp: pxPortInitialiseStack_def store_word_def limit_words_def w32_value Let_def split: if_splits bind_splits)
  have e: "saved_exc cfg ?m p = 0xFFFFFFFD"
    using m(5) by (simp add: saved_exc_def words_nth portINITIAL_EXC_RETURN_def)
  then have f: "\<not> saved_fp cfg ?m p" by (simp add: saved_fp_def)
  then have sf: "saved_frame cfg ?m p = ?q + 36" "saved_end cfg ?m p = sp"
    by (simp_all add: saved_frame_def saved_end_def frame_size_def p)
  have lo8: "words ?m (?q + 36) 8 ! 7 = portINITIAL_XPSR" "words ?m (?q + 36) 8 ! 6 = fn AND portSTART_ADDRESS_MASK"
      "words ?m (?q + 36) 8 ! 5 = task_return (pcfg cfg)" "words ?m (?q + 36) 8 ! 0 = par"
    using m by (simp_all add: words_nth add.assoc)
  have x: "\<not> bit portINITIAL_XPSR 9" "unset_bit 9 portINITIAL_XPSR = portINITIAL_XPSR"
    by (simp_all add: portINITIAL_XPSR_def unset_bit_eq_and_not)
  let ?c = "saved_context cfg ?m p"
  have tk: "take 4 (words ?m (?q + 36) 8) ! 0 = par" using lo8(4) by simp
  show "cx_pc ?c = fn AND portSTART_ADDRESS_MASK" "core ?c ! 0 = par" "core ?c ! 13 = task_return (pcfg cfg)"
    "cx_xpsr ?c = portINITIAL_XPSR" and c: "cx_sp ?c = of_nat sp"
    and "cx_limit ?c = (if psplim (pcfg cfg) then of_nat (wadd lim (psplim_offset (pcfg cfg))) else 0)"
    and "cx_fp ?c = None"
    using lo8 x m(6) tk by (simp_all add: saved_context_def Let_def sf f nth_append)
  show "lo \<le> p" using p sp by (simp add: limit_words_def split: if_splits)
  then show "saved_ok cfg ?m p lo sp"
    using e sf c sp al by (auto simp: saved_ok_def unat_of_nat)
qed

text \<open>The context of a task that has not run yet: \<open>fn\<close> is about to be called with \<open>par\<close>.\<close>

definition entering :: "arm_cfg \<Rightarrow> u32 \<Rightarrow> u32 \<Rightarrow> thread_context \<Rightarrow> bool" where
  "entering cfg fn par x \<longleftrightarrow>
     cx_pc x = fn AND portSTART_ADDRESS_MASK \<and> core x ! 0 = par \<and> core x ! 13 = task_return (pcfg cfg) \<and>
     cx_xpsr x = portINITIAL_XPSR \<and> cx_fp x = None \<and> 8 dvd unat (cx_sp x)"

lemma new_task_context:
  assumes i: "prvInitialiseNewTask (pcfg cfg) fn name stksize par prio new s = Some s'"
    and al: "8 dvd pxStack (tcb s new)" and d: "20 \<le> stksize" "pxStack (tcb s new) + 4 * stksize \<le> 2 ^ 32"
  defines "p \<equiv> pxTopOfStack (tcb s' new)"
  shows "saved_ok cfg (stack_mem s') p (pxStack (tcb s new)) (pxStack (tcb s new) + 4 * stksize)"
    and "entering cfg fn par (saved_context cfg (stack_mem s') p)"
    and "cx_sp (saved_context cfg (stack_mem s') p) = of_nat ((pxStack (tcb s new) + 4 * (stksize - 1)) div 8 * 8)"
    and "\<And>t. t \<noteq> new \<Longrightarrow> tcb s' t = tcb s t"
proof -
  let ?lo = "pxStack (tcb s new)"
  let ?sp = "(?lo + 4 * (stksize - 1)) div 8 * 8"
  have "?lo + 4 * (stksize - 1) < 2 ^ 32" using d by simp
  then have sp: "wadd ?lo (wmul (wsub stksize 1) 4) AND 4294967288 = ?sp"
    using d align_down_nat [of "?lo + 4 * (stksize - 1)"] by (simp add: w32_value mult.commute minus_mod_eq_div_mult)
  have b: "?lo + 72 \<le> ?sp" "?sp \<le> ?lo + 4 * stksize" "?sp < 2 ^ 32"
    using d al by (auto simp: dvd_def) 
  define u where "u = set_item_value (EventItem new) (of_nat configMAX_PRIORITIES - of_nat prio)
    (init_item (EventItem new) (init_item (StateItem new) (upd_tcb new (uxPriority_update (\<lambda>_. prio))
      (upd_tcb new (pcTaskName_update (\<lambda>_. take (configMAX_TASK_NAME_LEN - 1) name)) s))))"
  have tu: "tcb u = (tcb s)(new := (tcb s new)\<lparr>pcTaskName := take (configMAX_TASK_NAME_LEN - 1) name, uxPriority := prio\<rparr>)"
    by (simp add: u_def upd_tcb_def init_item_def set_item_value_def)
  have "prio < configMAX_PRIORITIES" using i by (simp add: prvInitialiseNewTask_def configASSERT_def Let_def split: if_splits bind_splits)
  then obtain k1 p1 where init: "pxPortInitialiseStack (pcfg cfg) ?sp ?lo fn par u = Some (k1, p1)"
    and s': "s' = upd_tcb new (pxTopOfStack_update (\<lambda>_. p1)) k1"
    using i sp tu by (auto simp: prvInitialiseNewTask_def configASSERT_def align_down_mod Let_def
        u_def upd_tcb_def init_item_def set_item_value_def split: if_splits bind_splits)
  obtain m where "k1 = u\<lparr>stack_mem := m\<rparr>" using stack_init_frame [OF init] by blast
  then have r: "stack_mem s' = stack_mem k1" "p = p1" "\<And>t. t \<noteq> new \<Longrightarrow> tcb s' t = tcb s t"
    using tu s' by (simp_all add: p_def upd_tcb_def)
  have un: "unat (of_nat ?sp :: u32) = ?sp" using b(3) by (simp only: unat_of_nat) simp
  have "8 dvd ?sp" by simp
  note c = stack_initial [OF init this b(1,3), folded r(1,2)]
  show "entering cfg fn par (saved_context cfg (stack_mem s') p)"
    using c(3-6,9) un by (simp only: entering_def c(7) dvd_triv_right)
  show "saved_ok cfg (stack_mem s') p ?lo (?lo + 4 * stksize)"
    using c(1) b by (auto simp: saved_ok_def)
  show "cx_sp (saved_context cfg (stack_mem s') p) = of_nat ?sp" by (rule c(7))
  show "tcb s' t = tcb s t" if "t \<noteq> new" for t by (rule r(3) [OF that])
qed

section \<open>Starting the scheduler\<close>

definition portSVC_START_SCHEDULER :: u8 where
  "portSVC_START_SCHEDULER = 2"

definition portSVC_RAISE_PRIVILEGE :: u8 where
  "portSVC_RAISE_PRIVILEGE = 3"

text \<open>
  \<open>code\<close> is the program memory by byte.  The branch of the stub to the C function is its end
  here; the C function leaves its default case by returning from the exception.
\<close>

definition SVC_Handler :: "instr list" where
  "SVC_Handler = [TST LR 4, IT_EQ (MRS 0 sMSP), IT_NE (MRS 0 sPSP)]"

definition vPortSVCHandler_C ::
  "arm_cfg \<Rightarrow> (nat \<Rightarrow> u8) \<Rightarrow> u32 \<Rightarrow> cpu \<times> 'a kernel_scheme \<Rightarrow> (cpu \<times> 'a kernel_scheme) option" where
  "vPortSVCHandler_C cfg code pulCallerStackAddress = (\<lambda>(c, k).
     let ulPC = load cfg k (pulCallerStackAddress + 4 * 6); ucSVCNumber = code (unat (ulPC - 2))
     in if ucSVCNumber = portSVC_START_SCHEDULER
        then exec cfg (rm_freertos_port_restore_task_stackless cfg) (c\<lparr>gpr := after_call cfg\<rparr>, k)
        else if ucSVCNumber \<le> portSVC_RAISE_PRIVILEGE then exception_return cfg (gpr c LR) (c, k) else None)"

definition SVC_exception ::
  "arm_cfg \<Rightarrow> (nat \<Rightarrow> u8) \<Rightarrow> cpu \<times> 'a kernel_scheme \<Rightarrow> (cpu \<times> 'a kernel_scheme) option" where
  "SVC_exception cfg code x =
     exec cfg SVC_Handler (exception_entry cfg x) \<bind> (\<lambda>(c, k). vPortSVCHandler_C cfg code (gpr c 0) (c, k))"

text \<open>
  \<open>prvPortStartFirstTask\<close> clears the floating point bit of CONTROL by way of R12 and executes
  the SVC instruction, whose number is the byte two before the address after it.
\<close>

definition prvPortStartFirstTask ::
  "arm_cfg \<Rightarrow> (nat \<Rightarrow> u8) \<Rightarrow> u32 \<Rightarrow> cpu \<times> 'a kernel_scheme \<Rightarrow> (cpu \<times> 'a kernel_scheme) option" where
  "prvPortStartFirstTask cfg code after_svc = (\<lambda>(c, k).
     SVC_exception cfg code
       (set_gpr 12 (if spsel c then 2 else 0) (c\<lparr>fpca := False, pc := after_svc\<rparr>), k))"

text \<open>The frame of the SVC goes to the main stack, below its pointer.\<close>

lemma entry_main_stack:
  assumes sel: "\<not> spsel c" and fp: "\<not> fpca c" and al: "4 dvd unat (sreg c sMSP)" and room: "36 \<le> unat (sreg c sMSP)"
    and pl: "plain cfg k (unat (sreg c sMSP) - 36) (unat (sreg c sMSP))"
  shows "\<exists>frame m. exception_entry cfg (c, k) =
      (set_gpr LR 0xFFFFFFF9 (set_sreg sMSP frame (c\<lparr>fpca := False, spsel := False\<rparr>)), k\<lparr>stack_mem := m\<rparr>) \<and>
    load cfg (k\<lparr>stack_mem := m\<rparr>) (frame + 24) = pc c \<and>
    (\<forall>x. x < unat (sreg c sMSP) - 36 \<or> unat (sreg c sMSP) \<le> x \<longrightarrow> m x = stack_mem k x)"
proof -
  let ?sp = "sreg c sMSP"
  define frame where "frame = (?sp - frame_size False) AND NOT 4"
  have sz: "unat (frame_size False) + 4 \<le> unat ?sp" using room by (simp add: frame_size_def)
  note f = frame_address [OF al sz, folded frame_def]
  have hi: "unat ?sp < 2 ^ 32" by (rule unat_u32)
  have fr: "unat ?sp - 36 \<le> unat frame" "unat frame + 32 \<le> unat ?sp"
    using f(1) room by (auto simp: frame_size_def)
  define x where "x = (if bit ?sp 2 then set_bit 9 (xpsr c) else unset_bit 9 (xpsr c))"
  define ws where "ws = map (gpr c) [0, 1, 2, 3, 12, LR] @ [pc c, x]"
  have ws: "length ws = 8" "ws ! 6 = pc c" by (simp_all add: ws_def)
  define m where "m = put_words (unat frame) ws (stack_mem k)"
  have st: "store_list cfg frame ws k = k\<lparr>stack_mem := m\<rparr>"
    using store_list_at [OF pl _ _ hi, of frame ws "stack_mem k"] fr ws(1) by (simp add: m_def)
  have "frame = ((?sp - frame_size False) AND - 5)" by (simp add: frame_def)
  then have "exception_entry cfg (c, k) =
      (set_gpr LR 0xFFFFFFF9 (set_sreg sMSP frame (c\<lparr>fpca := False, spsel := False\<rparr>)), k\<lparr>stack_mem := m\<rparr>)"
    using sel fp st
    by (simp add: exception_entry_def thread_sp_def Let_def x_def [symmetric] exc_return_def ws_def)
  moreover have "load cfg (k\<lparr>stack_mem := m\<rparr>) (frame + 24) = pc c"
  proof -
    have u: "unat (frame + 24) = unat frame + 24"
      using fr hi by (subst unat_add_lem [THEN iffD1]) auto
    have "m (unat frame + 24) = words m (unat frame) 8 ! 6" by (simp add: words_nth)
    also have "\<dots> = pc c" using ws by (simp add: m_def)
    finally have "m (unat frame + 24) = pc c" .
    moreover have "unat frame + 24 \<noteq> unat (tcb_var cfg) \<and> unat frame + 24 \<noteq> pxCurrentTCB k"
      using pl fr by (auto simp: plain_def)
    then have "frame + 24 \<noteq> tcb_var cfg" "unat (frame + 24) \<noteq> pxCurrentTCB k" using u by auto
    ultimately show ?thesis by (simp add: load_def u)
  qed
  moreover have "m y = stack_mem k y" if "y < unat ?sp - 36 \<or> unat ?sp \<le> y" for y
    unfolding m_def using that fr ws(1) by (intro put_words_other) auto
  ultimately show ?thesis by blast
qed

lemma start_restores:
  assumes sel: "\<not> spsel c" and al: "4 dvd unat (sreg c sMSP)" and room: "36 \<le> unat (sreg c sMSP)"
    and pl: "plain cfg k (unat (sreg c sMSP) - 36) (unat (sreg c sMSP))"
    and r: "restorable cfg k" and p: "p = pxTopOfStack (tcb k (pxCurrentTCB k))"
    and dis: "saved_end cfg (stack_mem k) p \<le> unat (sreg c sMSP) - 36 \<or> unat (sreg c sMSP) \<le> p"
    and svc: "code (unat (after_svc - 2)) = portSVC_START_SCHEDULER"
  shows "\<exists>c' k'. prvPortStartFirstTask cfg code after_svc (c, k) = Some (c', k') \<and> spsel c' \<and>
    cpu_context cfg c' = saved_context cfg (stack_mem k) p \<and> k' = k\<lparr>stack_mem := stack_mem k'\<rparr>"
proof -
  let ?c = "set_gpr 12 0 (c\<lparr>fpca := False, pc := after_svc\<rparr>)"
  have "\<not> spsel ?c" "\<not> fpca ?c" "sreg ?c = sreg c" "pc ?c = after_svc" using sel by (simp_all add: set_gpr_def)
  note c = this
  obtain frame m where e: "exception_entry cfg (?c, k) =
      (set_gpr LR 0xFFFFFFF9 (set_sreg sMSP frame (?c\<lparr>fpca := False, spsel := False\<rparr>)), k\<lparr>stack_mem := m\<rparr>)"
    and l: "load cfg (k\<lparr>stack_mem := m\<rparr>) (frame + 24) = after_svc"
    and mem: "\<And>x. x < unat (sreg c sMSP) - 36 \<or> unat (sreg c sMSP) \<le> x \<Longrightarrow> m x = stack_mem k x"
    using entry_main_stack [OF c(1,2), of cfg k, unfolded c(3,4), OF al room pl] by auto
  have agree: "stack_mem k x = m x" if "p \<le> x" "x < saved_end cfg (stack_mem k) p" for x
    using mem [of x] dis that by auto
  note s = saved_context_cong [of p cfg "stack_mem k" m, OF agree]
  have r': "restorable cfg (k\<lparr>stack_mem := m\<rparr>)"
    using r s p by (simp add: restorable_def Let_def)
  obtain c1 where c1: "exec cfg SVC_Handler (exception_entry cfg (?c, k)) = Some (c1, k\<lparr>stack_mem := m\<rparr>)"
      "gpr c1 0 = frame"
    unfolding e by (simp add: SVC_Handler_def set_gpr_def set_sreg_def bit_simps)
  obtain c' where c': "exec cfg (rm_freertos_port_restore_task_stackless cfg) (c1\<lparr>gpr := after_call cfg\<rparr>, k\<lparr>stack_mem := m\<rparr>) =
      Some (c', k\<lparr>stack_mem := m\<rparr>)" "cpu_context cfg c' = saved_context cfg m p" "spsel c'"
    using restore_correct [OF r', of p "c1\<lparr>gpr := after_call cfg\<rparr>"] p by auto
  have "prvPortStartFirstTask cfg code after_svc (c, k) = Some (c', k\<lparr>stack_mem := m\<rparr>)"
    using sel svc by (simp add: prvPortStartFirstTask_def SVC_exception_def c1 vPortSVCHandler_C_def Let_def l c'(1))
  then show ?thesis using c' s by simp
qed

section \<open>Threads that are interrupted at any time\<close>

text \<open>
  The running task executes: anything that leaves the stacks and stack pointers of the other
  tasks alone, in the kernel too, from which it returns as the running task.
\<close>

definition own_step :: "nat \<Rightarrow> nat \<Rightarrow> (nat \<Rightarrow> nat) \<Rightarrow> kernel \<Rightarrow> cpu \<times> kernel \<Rightarrow> bool" where
  "own_step S E hi k = (\<lambda>(c', k').
     tinv S E k' \<and> ktasks k' = ktasks k \<and> pxCurrentTCB k' = pxCurrentTCB k \<and> kheap k' = kheap k \<and>
     running_ok (hi (pxCurrentTCB k)) c' \<and> (\<forall>t. pxStack (tcb k' t) = pxStack (tcb k t)) \<and>
     (\<forall>t \<in> ktasks k. t \<noteq> pxCurrentTCB k \<longrightarrow> pxTopOfStack (tcb k' t) = pxTopOfStack (tcb k t) \<and>
        (\<forall>x. pxStack (tcb k t) \<le> x \<longrightarrow> x < hi t \<longrightarrow> stack_mem k' x = stack_mem k x)))"

datatype cs_event = Own cpu kernel | Preempt

primrec cs_step :: "arm_cfg \<Rightarrow> cs_event \<Rightarrow> cpu \<times> kernel \<Rightarrow> (cpu \<times> kernel) option" where
  "cs_step cfg (Own c' k') x = Some (c', k')"
| "cs_step cfg Preempt x = PendSV_exception cfg x"

primrec cs_permitted :: "nat \<Rightarrow> nat \<Rightarrow> (nat \<Rightarrow> nat) \<Rightarrow> cs_event \<Rightarrow> cpu \<times> kernel \<Rightarrow> bool" where
  "cs_permitted S E hi (Own c' k') x \<longleftrightarrow> own_step S E hi (snd x) (c', k')"
| "cs_permitted S E hi Preempt x \<longleftrightarrow>
     pxStack (tcb (snd x) (pxCurrentTCB (snd x))) + context_size (fpca (fst x)) \<le> unat (sreg (fst x) sPSP)"

primrec cs_run :: "arm_cfg \<Rightarrow> cs_event list \<Rightarrow> cpu \<times> kernel \<Rightarrow> (cpu \<times> kernel) option" where
  "cs_run cfg [] x = Some x"
| "cs_run cfg (e # es) x = cs_step cfg e x \<bind> cs_run cfg es"

primrec cs_allowed :: "arm_cfg \<Rightarrow> nat \<Rightarrow> nat \<Rightarrow> (nat \<Rightarrow> nat) \<Rightarrow> cs_event list \<Rightarrow> cpu \<times> kernel \<Rightarrow> bool" where
  "cs_allowed cfg S E hi [] x \<longleftrightarrow> True"
| "cs_allowed cfg S E hi (e # es) x \<longleftrightarrow>
     cs_permitted S E hi e x \<and> (\<forall>x'. cs_step cfg e x = Some x' \<longrightarrow> cs_allowed cfg S E hi es x')"

text \<open>What the tasks should see: the context of a task changes when it runs itself, and only then.\<close>

definition seen :: "arm_cfg \<Rightarrow> cs_event \<Rightarrow> kernel \<Rightarrow> (nat \<Rightarrow> thread_context) \<Rightarrow> nat \<Rightarrow> thread_context" where
  "seen cfg e k f = (case e of Own c' k' \<Rightarrow> f(pxCurrentTCB k := cpu_context cfg c') | Preempt \<Rightarrow> f)"

primrec own_contexts ::
  "arm_cfg \<Rightarrow> cs_event list \<Rightarrow> cpu \<times> kernel \<Rightarrow> (nat \<Rightarrow> thread_context) \<Rightarrow> nat \<Rightarrow> thread_context" where
  "own_contexts cfg [] x f = f"
| "own_contexts cfg (e # es) x f =
     (case cs_step cfg e x of None \<Rightarrow> f | Some x' \<Rightarrow> own_contexts cfg es x' (seen cfg e (snd x) f))"

lemma cs_step_ok:
  assumes inv: "minv cfg S E hi x" and per: "cs_permitted S E hi e x"
  shows "\<exists>x'. cs_step cfg e x = Some x' \<and> minv cfg S E hi x' \<and> ktasks (snd x') = ktasks (snd x) \<and>
    (\<forall>t \<in> ktasks (snd x). task_context cfg x' t = seen cfg e (snd x) (task_context cfg x) t)"
proof (cases e)
  case Preempt
  obtain c k where x: "x = (c, k)" by force
  have ti: "tinv S E k" using inv by (simp add: minv_def x)
  from switch_tinv [OF this] obtain s where s: "PendSV_Handler k = Some s" "tinv S E s" by blast
  have "ktasks s = ktasks k"
    using switch_frame_lists [of "k\<lparr>pendsv := False\<rparr>" s] s(1) by (simp add: PendSV_Handler_def ktasks_def)
  then show ?thesis
    using context_switch_step [OF inv [unfolded x] _ s] per by (auto simp: Preempt x seen_def)
next
  case (Own c' k')
  obtain c k where x: "x = (c, k)" by force
  have own: "own_step S E hi k (c', k')" using per by (simp add: Own x)
  obtain ts where st: "stacks_in S hi k ts" using inv by (auto simp: minv_def x)
  have ok: "saved_ok cfg (stack_mem k') (pxTopOfStack (tcb k' t)) (pxStack (tcb k' t)) (hi t) \<and>
      saved_context cfg (stack_mem k') (pxTopOfStack (tcb k' t)) =
        saved_context cfg (stack_mem k) (pxTopOfStack (tcb k t))" if "t \<in> ktasks k" "t \<noteq> pxCurrentTCB k" for t
  proof -
    have so: "saved_ok cfg (stack_mem k) (pxTopOfStack (tcb k t)) (pxStack (tcb k t)) (hi t)"
      using inv that by (auto simp: minv_def x)
    have "stack_mem k y = stack_mem k' y" if "pxStack (tcb k t) \<le> y" "y < hi t" for y
      using own that \<open>t \<in> ktasks k\<close> \<open>t \<noteq> pxCurrentTCB k\<close> by (auto simp: own_step_def)
    from saved_ok_cong [OF so this] show ?thesis using own that by (simp add: own_step_def)
  qed
  have "stacks_in S hi k' ts" using st own by (auto simp: stacks_in_def owned_by_def own_step_def)
  then have "minv cfg S E hi (c', k')" using inv own ok by (auto simp: minv_def x own_step_def)
  then show ?thesis using own ok by (auto simp: Own x seen_def task_context_def own_step_def)
qed

lemma own_contexts_cong:
  "(\<And>t. t \<in> A \<Longrightarrow> f t = g t) \<Longrightarrow> t \<in> A \<Longrightarrow> own_contexts cfg es x f t = own_contexts cfg es x g t"
proof (induction es arbitrary: x f g)
  case (Cons e es)
  have "own_contexts cfg es x' (seen cfg e (snd x) f) t = own_contexts cfg es x' (seen cfg e (snd x) g) t" for x'
    by (rule Cons.IH) (use Cons.prems in \<open>auto simp: seen_def split: cs_event.split\<close>)
  then show ?case using Cons.prems by (auto split: option.split)
qed simp

section \<open>Properties\<close>

text \<open>C10: The context switch, instruction by instruction, implements the switch of the kernel: the
  handler never fails, selects the task that \<open>vTaskSwitchContext\<close> selects, leaves that task's
  context in the processor, and changes the context of no task, with or without floating point
  registers in use on either side, if the interrupted stack has the room.\<close>

theorem context_switch_preserves:
  assumes inv: "minv cfg S E hi (c, k)"
    and room: "pxStack (tcb k (pxCurrentTCB k)) + context_size (fpca c) \<le> unat (sreg c sPSP)"
  shows "\<exists>c' k' s. PendSV_exception cfg (c, k) = Some (c', k') \<and> PendSV_Handler k = Some s \<and>
    k' = s\<lparr>stack_mem := stack_mem k', tcb := tcb k'\<rparr> \<and> minv cfg S E hi (c', k') \<and>
    cpu_context cfg c' = task_context cfg (c, k) (pxCurrentTCB s) \<and>
    (\<forall>t \<in> ktasks k. task_context cfg (c', k') t = task_context cfg (c, k) t)"
proof -
  have ti: "tinv S E k" using inv by (simp add: minv_def)
  from switch_tinv [OF ti] obtain s where s: "PendSV_Handler k = Some s" "tinv S E s" by blast
  have "ktasks s = ktasks k"
    using switch_frame_lists [of "k\<lparr>pendsv := False\<rparr>" s] s(1) by (simp add: PendSV_Handler_def ktasks_def)
  then have cur: "pxCurrentTCB s \<in> ktasks k" using kinv_current [OF tinv_kinv [OF s(2)]] by simp
  from context_switch_step [OF inv room s] obtain c' m tops where
    r: "PendSV_exception cfg (c, k) = Some (c', restack m tops s)" "minv cfg S E hi (c', restack m tops s)"
    and ctx: "\<forall>t \<in> ktasks k. task_context cfg (c', restack m tops s) t = task_context cfg (c, k) t"
    by blast
  have "cpu_context cfg c' = task_context cfg (c, k) (pxCurrentTCB s)"
    using bspec [OF ctx cur] by (simp add: task_context_def)
  moreover have "restack m tops s = s\<lparr>stack_mem := stack_mem (restack m tops s), tcb := tcb (restack m tops s)\<rparr>"
    by (simp add: restack_def)
  ultimately show ?thesis using r ctx s(1) by blast
qed


text \<open>C12: The first task enters its function: what \<open>prvInitialiseNewTask\<close> put on the stack of the
  task that is selected first, \<open>prvPortStartFirstTask\<close> loads through the SVC exception, so that
  the processor is at the task's function with its argument in R0, returns to
  \<open>prvTaskExitError\<close>, and runs on an aligned process stack inside the task's memory.\<close>

theorem first_task_enters:
  assumes new: "prvInitialiseNewTask (pcfg cfg) fn name stksize par prio t s = Some s'"
    and lo: "lo = pxStack (tcb s t)" "8 dvd lo" "20 \<le> stksize" "lo + 4 * stksize < 2 ^ 32"
    and cur: "pxCurrentTCB k = t" "pxTopOfStack (tcb k t) = pxTopOfStack (tcb s' t)" "t < 2 ^ 32" "t \<noteq> unat (tcb_var cfg)"
    and mem: "\<And>x. lo \<le> x \<Longrightarrow> x < lo + 4 * stksize \<Longrightarrow> stack_mem k x = stack_mem s' x"
    and pl: "plain cfg k lo (lo + 4 * stksize)"
    and c: "\<not> spsel c" "4 dvd unat (sreg c sMSP)" "36 \<le> unat (sreg c sMSP)"
      "plain cfg k (unat (sreg c sMSP) - 36) (unat (sreg c sMSP))"
    and dis: "lo + 4 * stksize \<le> unat (sreg c sMSP) - 36 \<or> unat (sreg c sMSP) \<le> lo"
    and svc: "code (unat (after_svc - 2)) = portSVC_START_SCHEDULER"
  shows "\<exists>c' k'. prvPortStartFirstTask cfg code after_svc (c, k) = Some (c', k') \<and> spsel c' \<and>
    entering cfg fn par (cpu_context cfg c') \<and> lo < unat (sreg c' sPSP) \<and> unat (sreg c' sPSP) \<le> lo + 4 * stksize"
proof -
  let ?p = "pxTopOfStack (tcb s' t)" and ?hi = "lo + 4 * stksize"
  note n = new_task_context [OF new, folded lo(1), OF lo(2,3)]
  have so: "saved_ok cfg (stack_mem s') ?p lo ?hi" and en: "entering cfg fn par (saved_context cfg (stack_mem s') ?p)"
    and sp: "cx_sp (saved_context cfg (stack_mem s') ?p) = of_nat ((lo + 4 * (stksize - 1)) div 8 * 8)"
    using n lo(4) by auto
  note k = saved_ok_cong [OF so mem [symmetric]]
  have r: "restorable cfg k"
    using k(1) cur pl so lo(4) by (auto simp: restorable_def Let_def saved_ok_def intro: plain_sub)
  have "saved_end cfg (stack_mem k) ?p \<le> unat (sreg c sMSP) - 36 \<or> unat (sreg c sMSP) \<le> ?p"
    using dis k(1) by (auto simp: saved_ok_def)
  from start_restores [where code = code, OF c r _ this svc] obtain c' k' where
    st: "prvPortStartFirstTask cfg code after_svc (c, k) = Some (c', k')" "spsel c'"
      "cpu_context cfg c' = saved_context cfg (stack_mem s') ?p"
    using cur k(2) by auto
  have "sreg c' sPSP = cx_sp (saved_context cfg (stack_mem s') ?p)"
    by (simp add: st(3) [symmetric] cpu_context_def)
  moreover have "unat (of_nat ((lo + 4 * (stksize - 1)) div 8 * 8) :: u32) = (lo + 4 * (stksize - 1)) div 8 * 8"
    using lo(4) by (simp only: unat_of_nat) simp
  ultimately have "lo < unat (sreg c' sPSP)" "unat (sreg c' sPSP) \<le> ?hi"
    using sp lo(2,3) by (auto simp: dvd_def)
  then show ?thesis using st en by auto
qed

section \<open>A running machine\<close>

text \<open>
  The system of \<open>TaskSystem\<close> with the idle task 1136 running, the ready task 1344 of higher
  priority about to continue at 8192, and the task 1552; the stacks end at 1128, 1336 and 1544.
\<close>

definition demo_cfg :: arm_cfg where
  "demo_cfg = \<lparr>pcfg = \<lparr>task_return = 4100, psplim = False\<rparr>, tcb_var = 256,
     after_call = (\<lambda>r. 77), after_call_fp = (\<lambda>r. 78)\<rparr>"

definition demo_cpu :: cpu where
  "demo_cpu = \<lparr>gpr = of_nat, fpr = (\<lambda>_. 0), fpscr = 0, pc = 12288, xpsr = 0x01000000,
     sreg = (\<lambda>_. 0)(sPSP := 1124, sMSP := 800), fpca = False, spsel = True\<rparr>"

definition demo_stacks :: "nat \<Rightarrow> u32" where
  "demo_stacks = (\<lambda>_. 0)(1300 := 0xFFFFFFFD, 1328 := 8192, 1508 := 0xFFFFFFFD)"

definition demo_end :: "nat \<Rightarrow> nat" where
  "demo_end t = (if t = 1136 then 1128 else if t = 1344 then 1336 else 1544)"

definition demo_machine :: "heap \<Rightarrow> kernel" where
  "demo_machine h = restack demo_stacks ((\<lambda>_. 0)(1344 := 1268, 1552 := 1476)) ((demo_system h)\<lparr>pxCurrentTCB := 1136\<rparr>)"

lemma demo_machine_simps [simp]:
  "pxCurrentTCB (demo_machine h) = 1136" "ktasks (demo_machine h) = {1136, 1344, 1552}"
  "stack_mem (demo_machine h) = demo_stacks" "kheap (demo_machine h) = h"
  "pxTopOfStack (tcb (demo_machine h) t) = (if t = 1344 then 1268 else if t = 1552 then 1476 else 0)"
  "pxStack (tcb (demo_machine h) t) = (if t = 1136 then 1032 else if t = 1344 then 1240 else if t = 1552 then 1448 else 0)"
  "acont (lists (demo_machine h)) = acont (lists (demo_system h))"
  "uxPriority (tcb (demo_machine h) t) = uxPriority (tcb (demo_system h) t)"
  "uxSchedulerSuspended (demo_machine h) = 0"
  using demo_system_tasks(1) [of h] by (auto simp: demo_machine_def ktasks_def)

lemma demo_saved:
  assumes "p + 68 = e" and "8 dvd e" and "e < 2 ^ 32" and "demo_stacks (p + 32) = 0xFFFFFFFD" and "demo_stacks (p + 64) = 0"
  shows "saved_ok demo_cfg demo_stacks p p e" and "cx_pc (saved_context demo_cfg demo_stacks p) = demo_stacks (p + 60)"
proof -
  have x: "saved_exc demo_cfg demo_stacks p = 0xFFFFFFFD" "limit_words demo_cfg = 0"
    using assms(4) by (simp_all add: saved_exc_def limit_words_def demo_cfg_def words_nth)
  then have f: "\<not> saved_fp demo_cfg demo_stacks p" "saved_frame demo_cfg demo_stacks p = p + 36"
    by (simp_all add: saved_fp_def saved_frame_def)
  then have e: "saved_end demo_cfg demo_stacks p = e" using assms(1) by (simp add: saved_end_def frame_size_def)
  have w: "words demo_stacks (p + 36) 8 ! 7 = 0" using assms(5) by (simp add: words_nth add.commute [of p])
  then have "cx_sp (saved_context demo_cfg demo_stacks p) = of_nat e"
    by (simp add: saved_context_def Let_def f e)
  then show "saved_ok demo_cfg demo_stacks p p e"
    using assms x e by (auto simp: saved_ok_def unat_of_nat)
  show "cx_pc (saved_context demo_cfg demo_stacks p) = demo_stacks (p + 60)"
    by (simp add: saved_context_def Let_def f words_nth add.commute [of p])
qed

lemma current_irrelevant:
  "owned_by S ts (s\<lparr>pxCurrentTCB := t\<rparr>) = owned_by S ts s" "counted (s\<lparr>pxCurrentTCB := t\<rparr>) = counted s"
  "ktasks (s\<lparr>pxCurrentTCB := t\<rparr>) = ktasks s"
  by (simp_all add: owned_by_def counted_def ktasks_def terminated_def)

lemma demo_machine_minv:
  obtains h where "minv demo_cfg 1024 5112 demo_end (demo_cpu, demo_machine h)"
    and "tinv 1024 5112 (demo_machine h)"
proof -
  let ?ts = "[Used 104, Used 104, Used 104, Used 104, Used 104, Used 104, Free 3464]"
  obtain h where h: "heap_ok h 1024 ?ts" "pxEnd h = 5112" by (rule demo_blocks)
  have o: "owned_by 1024 ?ts (demo_system h)"
    by (auto simp: owned_by_def demo_system_tasks live_regions_def sizeof_TCB_def initial_frame_def)
  let ?s = "(demo_system h)\<lparr>pxCurrentTCB := 1136\<rparr>"
  have "kinv ?s"
    by (rule kinv_congI [OF demo_system_kinv [of h]]) (simp_all add: demo_system_tasks del: demo_system_fields)
  moreover have "counted (demo_system h)" by (simp add: counted_def demo_system_tasks)
  ultimately have "tinv 1024 5112 ?s"
    using h o by (auto simp: tinv_def owned_def current_irrelevant is_ready_def waiting_free_def)
  then have ti: "tinv 1024 5112 (demo_machine h)" unfolding demo_machine_def by (rule tinv_restack)
  have "stacks_in 1024 demo_end (demo_machine h) ?ts"
    using h(1) by (auto simp: stacks_in_def owned_by_def live_regions_def demo_end_def sizeof_TCB_def initial_frame_def)
  moreover have "running_ok 1128 demo_cpu"
    by (simp add: running_ok_def demo_cpu_def bit_iff_odd)
  moreover have "saved_ok demo_cfg demo_stacks 1268 1240 1336" "saved_ok demo_cfg demo_stacks 1476 1448 1544"
    using demo_saved(1) [of 1268 1336] demo_saved(1) [of 1476 1544] by (auto simp: demo_stacks_def saved_ok_def)
  ultimately have "minv demo_cfg 1024 5112 demo_end (demo_cpu, demo_machine h)"
    using ti by (auto simp: minv_def demo_end_def demo_cfg_def)
  then show ?thesis using that ti by blast
qed

lemma demo_switch:
  assumes ti: "tinv 1024 5112 (demo_machine h)" and s: "PendSV_Handler (demo_machine h) = Some s"
  shows "pxCurrentTCB s = 1344"
proof -
  let ?k = "(demo_machine h)\<lparr>pendsv := False\<rparr>"
  have "kinv ?k" by (rule kinv_congI [OF tinv_kinv [OF ti]]) simp_all
  moreover have "uxSchedulerSuspended ?k = 0" "is_ready ?k 1344" by (simp_all add: is_ready_def)
  ultimately obtain p t where r: "vTaskSwitchContext ?k = Some ((set_yield False ?k)\<lparr>lists := fst (a_next_entry (Ready p) (lists ?k)),
      pxCurrentTCB := t, uxTopReadyPriority := p\<rparr>)" "is_ready ?k t" "uxPriority (tcb ?k t) = p"
    "\<And>w. is_ready ?k w \<Longrightarrow> uxPriority (tcb ?k w) \<le> p"
    by (rule vTaskSwitchContext_result) metis
  have "2 \<le> p" using r(4) [of 1344] by (simp add: is_ready_def)
  then have "t = 1344" using r(2,3) by (auto simp: is_ready_def split: if_splits)
  then show ?thesis using r(1) s by (auto simp: PendSV_Handler_def)
qed

theorem context_switch_preserves_witness:
  "\<exists>h c' k'. PendSV_exception demo_cfg (demo_cpu, demo_machine h) = Some (c', k') \<and> pxCurrentTCB k' = 1344 \<and>
     pc c' = 8192 \<and> task_context demo_cfg (c', k') 1136 = cpu_context demo_cfg demo_cpu"
proof -
  obtain h where m: "minv demo_cfg 1024 5112 demo_end (demo_cpu, demo_machine h)" and ti: "tinv 1024 5112 (demo_machine h)"
    by (rule demo_machine_minv)
  have "pxStack (tcb (demo_machine h) (pxCurrentTCB (demo_machine h))) + context_size (fpca demo_cpu) \<le> unat (sreg demo_cpu sPSP)"
    by (simp add: demo_cpu_def context_size_def frame_size_def)
  from context_switch_preserves [OF m this] obtain c' k' s where
    r: "PendSV_exception demo_cfg (demo_cpu, demo_machine h) = Some (c', k')" "PendSV_Handler (demo_machine h) = Some s"
      "k' = s\<lparr>stack_mem := stack_mem k', tcb := tcb k'\<rparr>"
      "cpu_context demo_cfg c' = task_context demo_cfg (demo_cpu, demo_machine h) (pxCurrentTCB s)"
      "\<forall>t \<in> ktasks (demo_machine h). task_context demo_cfg (c', k') t = task_context demo_cfg (demo_cpu, demo_machine h) t"
    by blast
  have cur: "pxCurrentTCB s = 1344" by (rule demo_switch [OF ti r(2)])
  have "pxCurrentTCB k' = 1344" by (subst r(3)) (simp add: cur)
  moreover have "cx_pc (cpu_context demo_cfg c') = 8192"
    using demo_saved(2) [of 1268 1336] by (simp add: r(4) cur task_context_def demo_stacks_def)
  then have "pc c' = 8192" by (simp add: cpu_context_def)
  moreover have "task_context demo_cfg (c', k') 1136 = cpu_context demo_cfg demo_cpu"
    using r(5) by (simp add: task_context_def)
  ultimately show ?thesis using r(1) by blast
qed


theorem first_task_enters_witness:
  "\<exists>(k :: kernel) c' k'. prvPortStartFirstTask demo_cfg (\<lambda>_. 2) 600 (demo_cpu\<lparr>spsel := False\<rparr>, k) = Some (c', k') \<and> pc c' = 4096"
proof -
  let ?ts = "[Used 104, Used 104, Used 104, Used 104, Used 104, Used 104, Free 3464]"
  obtain h where h: "heap_ok h 1024 ?ts" by (rule demo_blocks)
  let ?s = "(demo_machine h)\<lparr>lists := empty_store\<rparr>" and ?c = "demo_cpu\<lparr>spsel := False\<rparr>"
  have "(pxStack (tcb ?s 1344), 96) \<in> live_regions 1024 ?ts" "heap_ok (kheap ?s) 1024 ?ts"
    using h by (simp_all add: live_regions_def)
  then obtain s' where s': "prvInitialiseNewTask (pcfg demo_cfg) 4097 ''main'' 24 99 1 1344 ?s = Some s'"
    using prvInitialiseNewTask_free [of 1 ?s 1344 1024 ?ts 96 24 "pcfg demo_cfg" 4097 "''main''" 99]
    by (auto simp: configMAX_PRIORITIES_def initial_frame_def w32_value)
  let ?k = "s'\<lparr>pxCurrentTCB := 1344\<rparr>"
  obtain c' k' where r: "prvPortStartFirstTask demo_cfg (\<lambda>_. 2) 600 (?c, ?k) = Some (c', k')"
      "entering demo_cfg 4097 99 (cpu_context demo_cfg c')"
    using first_task_enters [OF s', of 1240 ?k ?c "\<lambda>_. 2" 600]
    by (auto simp: demo_cfg_def demo_cpu_def plain_def portSVC_START_SCHEDULER_def)
  have "pc c' = 4096" using r(2) by (simp add: entering_def cpu_context_def portSTART_ADDRESS_MASK_def)
  then show ?thesis using r(1) by blast
qed

end
