(* ===== verification/Bytes.thy ===== *)
theory Bytes
  imports Prelude "HOL-Library.Monad_Syntax"
begin

text \<open>
  Access to a piece of memory, a list of bytes: reading a byte, copying bytes to an offset, and
  writing through a pointer that moves on.  An access outside the list is \<open>None\<close>.
\<close>

definition byte_at :: "u8 list \<Rightarrow> nat \<Rightarrow> u8 option" where
  "byte_at m i = (if i < length m then Some (m ! i) else None)"

text \<open>\<open>memcpy\<close> and \<open>memset\<close> into the buffer.\<close>

definition store_at :: "nat \<Rightarrow> u8 list \<Rightarrow> u8 list \<Rightarrow> u8 list option" where
  "store_at i bs m =
     (if i + length bs \<le> length m then Some (take i m @ bs @ drop (i + length bs) m) else None)"

text \<open>\<open>*optptr++ = b\<close>, once and for a sequence of bytes.\<close>

definition put :: "u8 \<Rightarrow> u8 list \<times> nat \<Rightarrow> (u8 list \<times> nat) option" where
  "put b mp = (case mp of (m, p) \<Rightarrow> if p < length m then Some (m[p := b], Suc p) else None)"

primrec puts :: "u8 list \<Rightarrow> u8 list \<times> nat \<Rightarrow> (u8 list \<times> nat) option" where
  "puts [] mp = Some mp"
| "puts (b # bs) mp = put b mp \<bind> puts bs"

lemma puts_append: "puts (as @ bs) mp = puts as mp \<bind> puts bs"
  by (induction as arbitrary: mp) (auto split: bind_splits)

lemma puts_eq:
  "p + length bs \<le> length m \<Longrightarrow>
   puts bs (m, p) = Some (take p m @ bs @ drop (p + length bs) m, p + length bs)"
  by (induction bs arbitrary: m p)
    (auto simp: put_def take_Suc_conv_app_nth list_update_append upd_conv_take_nth_drop add.commute)

lemma byte_at_prefix: "drop p m = bs @ r \<Longrightarrow> i < length bs \<Longrightarrow> byte_at m (p + i) = Some (bs ! i)"
proof -
  assume *: "drop p m = bs @ r" "i < length bs"
  then have "length m - p = length bs + length r" by (metis length_append length_drop)
  with *(2) have "p + i < length m" by linarith
  moreover have "m ! (p + i) = drop p m ! i" using calculation by simp
  ultimately show ?thesis using * by (simp add: byte_at_def nth_append)
qed

end
