(* ===== verification/Dhcp.thy ===== *)
theory Dhcp
  imports Bytes
begin

text \<open>
  The DHCP server of the lwIP wrapper, \<open>lwipDhcpServer.c\<close>: it receives a packet, copies it
  into a message buffer, looks through its options and turns the same buffer into the reply.
  The buffer is a list of bytes and every access of the code is checked against its length;
  an access outside the buffer, or through a null pointer, is \<open>None\<close>.  lwIP itself is not
  part of the repository: what its functions return is a parameter, and the calls made to it
  are recorded in the state.
\<close>

section \<open>Constants\<close>

definition DHCP_BOOTREPLY :: u8 where "DHCP_BOOTREPLY = 2"
definition DHCP_HTYPE_ETHERNET :: u8 where "DHCP_HTYPE_ETHERNET = 1"
definition DHCP_DISCOVER :: u8 where "DHCP_DISCOVER = 1"
definition DHCP_OFFER :: u8 where "DHCP_OFFER = 2"
definition DHCP_REQUEST :: u8 where "DHCP_REQUEST = 3"
definition DHCP_DECLINE :: u8 where "DHCP_DECLINE = 4"
definition DHCP_ACK :: u8 where "DHCP_ACK = 5"
definition DHCP_NAK :: u8 where "DHCP_NAK = 6"
definition DHCP_RELEASE :: u8 where "DHCP_RELEASE = 7"
definition DHCP_OPTION_SUBNET_MASK :: u8 where "DHCP_OPTION_SUBNET_MASK = 1"
definition DHCP_OPTION_ROUTER :: u8 where "DHCP_OPTION_ROUTER = 3"
definition DHCP_OPTION_DNS_SERVER :: u8 where "DHCP_OPTION_DNS_SERVER = 6"
definition DHCP_OPTION_MTU :: u8 where "DHCP_OPTION_MTU = 26"
definition DHCP_OPTION_PERFORM_ROUTER_DISCOVERY :: u8 where
  "DHCP_OPTION_PERFORM_ROUTER_DISCOVERY = 31"
definition DHCP_OPTION_REQUESTED_IP :: u8 where "DHCP_OPTION_REQUESTED_IP = 50"
definition DHCP_OPTION_LEASE_TIME :: u8 where "DHCP_OPTION_LEASE_TIME = 51"
definition DHCP_OPTION_MESSAGE_TYPE :: u8 where "DHCP_OPTION_MESSAGE_TYPE = 53"
definition DHCP_OPTION_SERVER_ID :: u8 where "DHCP_OPTION_SERVER_ID = 54"
definition DHCP_OPTION_END :: u8 where "DHCP_OPTION_END = 255"

definition DHCPS_STATE_OFFER :: u8 where "DHCPS_STATE_OFFER = 1"
definition DHCPS_STATE_ACK :: u8 where "DHCPS_STATE_ACK = 3"
definition DHCPS_STATE_NAK :: u8 where "DHCPS_STATE_NAK = 4"
definition DHCPS_STATE_IDLE :: u8 where "DHCPS_STATE_IDLE = 5"
definition DHCPS_STATE_RELEASE :: u8 where "DHCPS_STATE_RELEASE = 6"

text \<open>The option numbers of the configuration interface, from the enumeration \<open>dhcp_msg_option\<close>.\<close>

definition DOMAIN_NAME_SERVER :: u8 where "DOMAIN_NAME_SERVER = 6"
definition ROUTER_SOLICITATION_ADDRESS :: u8 where "ROUTER_SOLICITATION_ADDRESS = 32"
definition REQUESTED_IP_ADDRESS :: u8 where "REQUESTED_IP_ADDRESS = 50"
definition IP_ADDRESS_LEASE_TIME :: u8 where "IP_ADDRESS_LEASE_TIME = 51"

definition DHCPS_LEASE_TIME_DEF :: u32 where "DHCPS_LEASE_TIME_DEF = 120"
definition DHCPS_LEASE_UNIT :: u32 where "DHCPS_LEASE_UNIT = 60"
definition OFFER_ROUTER :: u8 where "OFFER_ROUTER = 1"
definition OFFER_DNS :: u8 where "OFFER_DNS = 2"
definition DHCPS_SERVER_PORT :: u16 where "DHCPS_SERVER_PORT = 67"
definition DHCPS_CLIENT_PORT :: u16 where "DHCPS_CLIENT_PORT = 68"
definition magic_cookie :: u32 where "magic_cookie = 0x63538263"

lemmas dhcp_numbers =
  DHCP_BOOTREPLY_def DHCP_HTYPE_ETHERNET_def DHCP_DISCOVER_def DHCP_OFFER_def DHCP_REQUEST_def
  DHCP_DECLINE_def DHCP_ACK_def DHCP_NAK_def DHCP_RELEASE_def DHCP_OPTION_SUBNET_MASK_def
  DHCP_OPTION_ROUTER_def DHCP_OPTION_DNS_SERVER_def DHCP_OPTION_MTU_def
  DHCP_OPTION_PERFORM_ROUTER_DISCOVERY_def DHCP_OPTION_REQUESTED_IP_def
  DHCP_OPTION_LEASE_TIME_def DHCP_OPTION_MESSAGE_TYPE_def DHCP_OPTION_SERVER_ID_def
  DHCP_OPTION_END_def DHCPS_STATE_OFFER_def DHCPS_STATE_ACK_def DHCPS_STATE_NAK_def
  DHCPS_STATE_IDLE_def DHCPS_STATE_RELEASE_def

section \<open>State\<close>

text \<open>
  \<open>struct dhcps_msg\<close>: the offset and the size of each field.
\<close>

datatype msg_field =
  Op | Htype | Hlen | Hops | Xid | Secs | Flags | Ciaddr | Yiaddr | Siaddr | Giaddr | Chaddr
  | Sname | File | Options

fun field_size :: "msg_field \<Rightarrow> nat" where
  "field_size Op = 1" | "field_size Htype = 1" | "field_size Hlen = 1" | "field_size Hops = 1"
| "field_size Xid = 4" | "field_size Secs = 2" | "field_size Flags = 2"
| "field_size Ciaddr = 4" | "field_size Yiaddr = 4" | "field_size Siaddr = 4"
| "field_size Giaddr = 4" | "field_size Chaddr = 16" | "field_size Sname = 64"
| "field_size File = 128" | "field_size Options = 312"

fun field_offset :: "msg_field \<Rightarrow> nat" where
  "field_offset Op = 0" | "field_offset Htype = 1" | "field_offset Hlen = 2"
| "field_offset Hops = 3" | "field_offset Xid = 4" | "field_offset Secs = 8"
| "field_offset Flags = 10" | "field_offset Ciaddr = 12" | "field_offset Yiaddr = 16"
| "field_offset Siaddr = 20" | "field_offset Giaddr = 24" | "field_offset Chaddr = 28"
| "field_offset Sname = 44" | "field_offset File = 108" | "field_offset Options = 236"

definition sizeof_dhcps_msg :: nat where
  "sizeof_dhcps_msg = field_offset Options + field_size Options"

lemma sizeof_dhcps_msg_value: "sizeof_dhcps_msg = 548"
  by (simp add: sizeof_dhcps_msg_def)

text \<open>An \<open>ip4_addr_t\<close> is a word in network byte order: its bytes in memory are the address.\<close>

record DHCP_Address =
  Broadcast_Address :: u32
  DNS_Server_Address :: u32
  Client_Address :: u32
  DHCP_Server_Address :: u32
  Gateway_Address :: u32

record dhcps_lease_t =
  lease_enable :: bool
  start_ip :: u32
  end_ip :: u32

record netif =
  netif_ip_addr :: u32
  netif_gw :: u32

text \<open>The calls to lwIP; a \<open>udp_pcb\<close> is known by its address.\<close>

datatype lwip_call =
  Mem_malloc nat bool | Mem_free
| Pbuf_alloc u16 bool | Pbuf_free_packet | Pbuf_free_reply
| Udp_sendto nat "u8 list" u32 u16 | Set_netif_idx nat nat
| Udp_new | Udp_remove nat | Udp_disconnect nat | Udp_bind "nat option" u32 u16
| Udp_recv "nat option"

text \<open>What lwIP answers, which may depend on all calls before.\<close>

record lwip =
  mem_malloc_ok :: "lwip_call list \<Rightarrow> nat \<Rightarrow> bool"
  pbuf_alloc_lens :: "lwip_call list \<Rightarrow> u16 \<Rightarrow> nat list option"
  pbuf_ref :: "lwip_call list \<Rightarrow> nat"
  udp_new_pcb :: "lwip_call list \<Rightarrow> nat option"

text \<open>A received \<open>struct pbuf\<close>: its total length and the payloads of its chain.\<close>

record pbuf =
  tot_len :: u16
  payloads :: "u8 list list"

text \<open>The static variables, and the calls made so far, the latest first.\<close>

record dhcps =
  dhcps_netif :: "netif option"
  dhcps_pcb :: "nat option"
  dhcp_address :: DHCP_Address
  dhcps_poll :: dhcps_lease_t
  dhcps_lease_time :: u32
  dhcps_offer :: u8
  dhcps_dns :: u8
  dhcps_cb :: "nat option"
  calls :: "lwip_call list"

definition dhcps_reset :: dhcps where
  "dhcps_reset =
     \<lparr>dhcps_netif = None, dhcps_pcb = None, dhcp_address = \<lparr>Broadcast_Address = 0,
      DNS_Server_Address = 0, Client_Address = 0, DHCP_Server_Address = 0, Gateway_Address = 0\<rparr>,
      dhcps_poll = \<lparr>lease_enable = False, start_ip = 0, end_ip = 0\<rparr>,
      dhcps_lease_time = DHCPS_LEASE_TIME_DEF, dhcps_offer = 0xFF, dhcps_dns = 0xFF,
      dhcps_cb = None, calls = []\<rparr>"

definition call :: "lwip_call \<Rightarrow> dhcps \<Rightarrow> dhcps" where
  "call c s = s\<lparr>calls := c # calls s\<rparr>"

section \<open>Configuration\<close>

text \<open>\<open>dhcps_option_info\<close> returns the address of one of the variables, or null.\<close>

datatype option_var = Lease_time_var | Poll_var | Offer_var | Dns_var

definition dhcps_option_info :: "u8 \<Rightarrow> nat \<Rightarrow> option_var option" where
  "dhcps_option_info op_id opt_len =
     (if op_id = IP_ADDRESS_LEASE_TIME then
        (if opt_len = 4 then Some Lease_time_var else None)
      else if op_id = REQUESTED_IP_ADDRESS then
        (if opt_len = 12 then Some Poll_var else None)
      else if op_id = ROUTER_SOLICITATION_ADDRESS then
        (if opt_len = 1 then Some Offer_var else None)
      else if op_id = DOMAIN_NAME_SERVER then
        (if opt_len = 1 then Some Dns_var else None)
      else None)"

text \<open>Reading a \<open>dhcps_lease_t\<close> from memory: a boolean, padding, and two addresses.\<close>

definition read_lease :: "u8 list \<Rightarrow> dhcps_lease_t" where
  "read_lease b = \<lparr>lease_enable = (b ! 0 \<noteq> 0), start_ip = of_le_bytes (take 4 (drop 4 b)),
                   end_ip = of_le_bytes (take 4 (drop 8 b))\<rparr>"

text \<open>
  \<open>opt_info\<close> is a pointer to some memory, whose bytes the model has; the code reads as many
  as the variable has, and reading more than there are is \<open>None\<close>.
\<close>

definition dhcps_set_option_info :: "u8 \<Rightarrow> u8 list option \<Rightarrow> nat \<Rightarrow> dhcps \<Rightarrow> dhcps option" where
  "dhcps_set_option_info op_id opt_info opt_len s =
     (case opt_info of None \<Rightarrow> Some s
      | Some b \<Rightarrow>
          if op_id = IP_ADDRESS_LEASE_TIME then
            (if opt_len = 4
             then (if 4 \<le> length b then Some (s\<lparr>dhcps_lease_time := of_le_bytes b\<rparr>) else None)
             else Some s)
          else if op_id = REQUESTED_IP_ADDRESS then
            (if opt_len = 12
             then (if 12 \<le> length b then Some (s\<lparr>dhcps_poll := read_lease b\<rparr>) else None)
             else Some s)
          else if op_id = ROUTER_SOLICITATION_ADDRESS then
            (if opt_len = 1
             then (if 1 \<le> length b then Some (s\<lparr>dhcps_offer := b ! 0\<rparr>) else None)
             else Some s)
          else if op_id = DOMAIN_NAME_SERVER then
            (if opt_len = 1
             then (if 1 \<le> length b then Some (s\<lparr>dhcps_dns := b ! 0\<rparr>) else None)
             else Some s)
          else Some s)"

definition dhcps_set_new_lease_cb :: "nat option \<Rightarrow> dhcps \<Rightarrow> dhcps" where
  "dhcps_set_new_lease_cb cb s = s\<lparr>dhcps_cb := cb\<rparr>"

text \<open>The argument is null or points to an address; \<open>IP_ADDR_ANY\<close> is all zero.\<close>

definition dhcps_dns_setserver :: "u32 option \<Rightarrow> dhcps \<Rightarrow> dhcps" where
  "dhcps_dns_setserver dnsserver s =
     (case dnsserver of
        Some a \<Rightarrow> s\<lparr>dhcp_address := dhcp_address s\<lparr>DNS_Server_Address := a\<rparr>\<rparr>
      | None \<Rightarrow> s\<lparr>dhcp_address := dhcp_address s\<lparr>DNS_Server_Address := 0\<rparr>\<rparr>)"

definition dhcps_dns_getserver :: "dhcps \<Rightarrow> u32" where
  "dhcps_dns_getserver s = DNS_Server_Address (dhcp_address s)"

section \<open>Building a reply\<close>

definition dhcps_router_enabled :: "u8 \<Rightarrow> bool" where
  "dhcps_router_enabled offer \<longleftrightarrow> offer AND OFFER_ROUTER \<noteq> 0"

definition dhcps_dns_enabled :: "u8 \<Rightarrow> bool" where
  "dhcps_dns_enabled offer \<longleftrightarrow> offer AND OFFER_DNS \<noteq> 0"

definition ip4_addr_byte :: "u32 \<Rightarrow> nat \<Rightarrow> u8" where
  "ip4_addr_byte a idx = le_bytes a ! idx"

definition add_msg_type :: "u8 \<Rightarrow> u8 list \<times> nat \<Rightarrow> (u8 list \<times> nat) option" where
  "add_msg_type ty = puts [DHCP_OPTION_MESSAGE_TYPE, 1, ty]"

definition add_address :: "u32 \<Rightarrow> u8 list \<times> nat \<Rightarrow> (u8 list \<times> nat) option" where
  "add_address a = puts [ip4_addr_byte a 0, ip4_addr_byte a 1, ip4_addr_byte a 2, ip4_addr_byte a 3]"

definition add_offer_options :: "dhcps \<Rightarrow> u8 list \<times> nat \<Rightarrow> (u8 list \<times> nat) option" where
  "add_offer_options s mp = do {
     let a = dhcp_address s;
     mp \<leftarrow> puts [DHCP_OPTION_SUBNET_MASK, 4, 255, 255, 255, 0] mp;
     let t = dhcps_lease_time s * DHCPS_LEASE_UNIT;
     mp \<leftarrow> puts [DHCP_OPTION_LEASE_TIME, 4,
                 ucast (drop_bit 24 t AND 0xFF), ucast (drop_bit 16 t AND 0xFF),
                 ucast (drop_bit 8 t AND 0xFF), ucast (t AND 0xFF)] mp;
     mp \<leftarrow> puts [DHCP_OPTION_SERVER_ID, 4] mp;
     mp \<leftarrow> add_address (Gateway_Address a) mp;
     mp \<leftarrow> (if dhcps_router_enabled (dhcps_offer s) \<and> Gateway_Address a \<noteq> 0
            then puts [DHCP_OPTION_ROUTER, 4] mp \<bind> add_address (Gateway_Address a)
            else Some mp);
     mp \<leftarrow> puts [DHCP_OPTION_DNS_SERVER, 4] mp;
     mp \<leftarrow> (if dhcps_dns_enabled (dhcps_dns s)
            then add_address (DNS_Server_Address a) mp
            else add_address (DHCP_Server_Address a) mp);
     mp \<leftarrow> puts [DHCP_OPTION_MTU, 2, 0x05, 0xdc] mp;
     mp \<leftarrow> puts [DHCP_OPTION_PERFORM_ROUTER_DISCOVERY, 1, 0x00] mp;
     puts [43, 6, 0x01, 4, 0x00, 0x00, 0x00, 0x02] mp
   }"

definition add_end :: "u8 list \<times> nat \<Rightarrow> (u8 list \<times> nat) option" where
  "add_end = puts [DHCP_OPTION_END]"

definition store_field :: "msg_field \<Rightarrow> u8 list \<Rightarrow> u8 list \<Rightarrow> u8 list option" where
  "store_field f bs = store_at (field_offset f) bs"

definition clear_field :: "msg_field \<Rightarrow> u8 list \<Rightarrow> u8 list option" where
  "clear_field f = store_field f (replicate (field_size f) 0)"

definition create_msg :: "dhcps \<Rightarrow> u8 list \<Rightarrow> u8 list option" where
  "create_msg s m = do {
     m \<leftarrow> store_field Op [DHCP_BOOTREPLY] m;
     m \<leftarrow> store_field Htype [DHCP_HTYPE_ETHERNET] m;
     m \<leftarrow> store_field Hlen [6] m;
     m \<leftarrow> store_field Hops [0] m;
     m \<leftarrow> clear_field Secs m;
     m \<leftarrow> clear_field Flags m;
     m \<leftarrow> store_field Yiaddr (le_bytes (Client_Address (dhcp_address s))) m;
     m \<leftarrow> clear_field Ciaddr m;
     m \<leftarrow> store_field Siaddr (le_bytes (DHCP_Server_Address (dhcp_address s))) m;
     m \<leftarrow> clear_field Giaddr m;
     m \<leftarrow> clear_field Sname m;
     m \<leftarrow> clear_field File m;
     m \<leftarrow> clear_field Options m;
     store_field Options (le_bytes magic_cookie) m
   }"

section \<open>Sending\<close>

text \<open>
  The copying loop of \<open>send_offer\<close>, \<open>send_nak\<close> and \<open>send_ack\<close>: over the buffers of the
  chain, and over the bytes of each, with a 16-bit counter into the message.
\<close>

primrec copy_bytes :: "u8 list \<Rightarrow> nat \<Rightarrow> u16 \<Rightarrow> (u8 list \<times> u16) option" where
  "copy_bytes m 0 cnt = Some ([], cnt)"
| "copy_bytes m (Suc n) cnt = do {
     b \<leftarrow> byte_at m (unat cnt);
     (bs, cnt) \<leftarrow> copy_bytes m n (cnt + 1);
     Some (b # bs, cnt)
   }"

fun copy_chain :: "u8 list \<Rightarrow> nat list \<Rightarrow> u16 \<Rightarrow> u8 list option" where
  "copy_chain m [] cnt = Some []"
| "copy_chain m (n # ns) cnt = do {
     (bs, cnt) \<leftarrow> copy_bytes m n cnt;
     rest \<leftarrow> copy_chain m ns cnt;
     Some (bs @ rest)
   }"

text \<open>
  The common rest of the three functions: \<open>dhcps_pbuf_alloc\<close>, the copy, \<open>udp_sendto\<close> to the
  broadcast address, and \<open>pbuf_free\<close> unless the reference count is zero.
\<close>

definition send_reply :: "lwip \<Rightarrow> u8 list \<Rightarrow> u16 \<Rightarrow> dhcps \<Rightarrow> dhcps option" where
  "send_reply L m len s =
     (let p = pbuf_alloc_lens L (calls s) len; s = call (Pbuf_alloc len (p \<noteq> None)) s
      in case p of None \<Rightarrow> Some s
         | Some lens \<Rightarrow> do {
             data \<leftarrow> copy_chain m lens 0;
             pcb \<leftarrow> dhcps_pcb s;
             let s = call (Set_netif_idx pcb 1) s;
             let s = call (Udp_sendto pcb data (Broadcast_Address (dhcp_address s)) DHCPS_CLIENT_PORT) s;
             Some (if pbuf_ref L (calls s) \<noteq> 0 then call Pbuf_free_reply s else s)
           })"

definition send_offer :: "lwip \<Rightarrow> u8 list \<Rightarrow> dhcps \<Rightarrow> dhcps option" where
  "send_offer L m s = do {
     m \<leftarrow> create_msg s m;
     mp \<leftarrow> add_msg_type DHCP_OFFER (m, field_offset Options + 4);
     mp \<leftarrow> add_offer_options s mp;
     (m, e) \<leftarrow> add_end mp;
     send_reply L m (of_nat e) s
   }"

definition send_nak :: "lwip \<Rightarrow> u8 list \<Rightarrow> u16 \<Rightarrow> dhcps \<Rightarrow> dhcps option" where
  "send_nak L m len s = do {
     m \<leftarrow> create_msg s m;
     mp \<leftarrow> add_msg_type DHCP_NAK (m, field_offset Options + 4);
     (m, e) \<leftarrow> add_end mp;
     send_reply L m len s
   }"

definition send_ack :: "lwip \<Rightarrow> u8 list \<Rightarrow> dhcps \<Rightarrow> dhcps option" where
  "send_ack L m s = do {
     m \<leftarrow> create_msg s m;
     mp \<leftarrow> add_msg_type DHCP_ACK (m, field_offset Options + 4);
     mp \<leftarrow> add_offer_options s mp;
     (m, e) \<leftarrow> add_end mp;
     send_reply L m (of_nat e) s
   }"

section \<open>Receiving\<close>

lemma parse_decreases: "int p < e \<Longrightarrow> nat (e - int (p + n + 2)) < nat (e - int p)"
  by simp

text \<open>
  The loop of \<open>parse_options\<close>, from offset \<open>p\<close> to the end pointer \<open>e\<close>: the message type
  found, and the state.
\<close>

function parse_loop :: "u8 list \<Rightarrow> int \<Rightarrow> nat \<Rightarrow> u16 \<Rightarrow> u8 \<Rightarrow> (u16 \<times> u8) option" where
  "parse_loop m e p ty st =
     (if int p < e
      then (case byte_at m p of None \<Rightarrow> None
            | Some code \<Rightarrow>
                (case (if code = DHCP_OPTION_MESSAGE_TYPE then map_option ucast (byte_at m (p + 2))
                       else Some ty) of None \<Rightarrow> None
                 | Some ty' \<Rightarrow>
                     let st' = (if code = DHCP_OPTION_REQUESTED_IP then DHCPS_STATE_ACK else st)
                     in if code = DHCP_OPTION_END then Some (ty', st')
                        else (case byte_at m (p + 1) of None \<Rightarrow> None
                              | Some l \<Rightarrow> parse_loop m e (p + unat l + 2) ty' st')))
      else Some (ty, st))"
  by pat_completeness auto

termination
  by (relation "measure (\<lambda>(m, e, p, ty, st). nat (e - int p))")
    (simp_all only: in_measure wf_measure split parse_decreases)

declare parse_loop.simps [simp del]

text \<open>The \<open>switch\<close> over the message type at the end of \<open>parse_options\<close>.\<close>

definition state_of_type :: "u16 \<Rightarrow> u8 \<Rightarrow> u8" where
  "state_of_type ty st =
     (if ty = ucast DHCP_DISCOVER then DHCPS_STATE_OFFER
      else if ty = ucast DHCP_REQUEST then DHCPS_STATE_ACK
      else if ty = ucast DHCP_DECLINE then DHCPS_STATE_IDLE
      else if ty = ucast DHCP_RELEASE then DHCPS_STATE_RELEASE
      else st)"

definition parse_options :: "u8 list \<Rightarrow> nat \<Rightarrow> 16 word \<Rightarrow> u8 option" where
  "parse_options m p len = do {
     (ty, st) \<leftarrow> parse_loop m (int p + sint len) p 0 DHCPS_STATE_IDLE;
     Some (state_of_type ty st)
   }"

definition parse_msg :: "u8 list \<Rightarrow> u16 \<Rightarrow> u8 option" where
  "parse_msg m len =
     (if field_offset Options + 4 \<le> length m
      then if take 4 (drop (field_offset Options) m) = le_bytes magic_cookie
           then parse_options m (field_offset Options + 4) (len - 240)
           else Some 0
      else None)"

text \<open>The copying loop of \<open>handle_dhcp\<close>, for the rest of the chain after the first buffer.\<close>

fun copy_in :: "u8 list list \<Rightarrow> u16 \<Rightarrow> 16 word \<Rightarrow> u8 list \<Rightarrow> u8 list option" where
  "copy_in [] copied malloc_len m = Some m"
| "copy_in (b # bs) copied malloc_len m = do {
     m \<leftarrow> store_at (unat copied) b m;
     let copied = copied + of_nat (length b);
     if int (unat copied) < sint malloc_len then copy_in bs copied malloc_len m else Some m
   }"

text \<open>The \<open>switch\<close> of \<open>handle_dhcp\<close> over what \<open>parse_msg\<close> returned.\<close>

definition react :: "lwip \<Rightarrow> u8 list \<Rightarrow> 16 word \<Rightarrow> u8 \<Rightarrow> dhcps \<Rightarrow> dhcps option" where
  "react L m malloc_len st s =
     (if st = DHCPS_STATE_OFFER then send_offer L m s
      else if st = DHCPS_STATE_ACK then send_ack L m s
      else if st = DHCPS_STATE_NAK then send_nak L m malloc_len s
      else Some s)"

definition handle_dhcp :: "lwip \<Rightarrow> pbuf option \<Rightarrow> dhcps \<Rightarrow> dhcps option" where
  "handle_dhcp L p s =
     (case p of None \<Rightarrow> Some s
      | Some p \<Rightarrow>
          let malloc_len = (of_nat sizeof_dhcps_msg :: 16 word);
              malloc_len = (if sint malloc_len < int (unat (tot_len p)) then tot_len p else malloc_len);
              n = unat (scast malloc_len :: u32);
              ok = mem_malloc_ok L (calls s) n;
              s = call (Mem_malloc n ok) s
          in if \<not> ok then Some (call Pbuf_free_packet s)
             else do {
               m \<leftarrow> copy_in (payloads p) 0 malloc_len (replicate n 0);
               let s = call Pbuf_free_packet s;
               st \<leftarrow> parse_msg m (tot_len p);
               s \<leftarrow> react L m malloc_len st s;
               Some (call Mem_free s)
             })"

section \<open>Starting and stopping\<close>

definition IP4_ADDR :: "u8 \<Rightarrow> u8 \<Rightarrow> u8 \<Rightarrow> u8 \<Rightarrow> u32" where
  "IP4_ADDR a b c d = of_le_bytes [a, b, c, d]"

definition dhcps_start :: "lwip \<Rightarrow> netif option \<Rightarrow> dhcps \<Rightarrow> dhcps option" where
  "dhcps_start L nif s = do {
     let s = s\<lparr>dhcps_netif := nif\<rparr>;
     let s = (case dhcps_pcb s of Some pcb \<Rightarrow> call (Udp_remove pcb) s | None \<Rightarrow> s);
     let pcb = udp_new_pcb L (calls s);
     let s = (call Udp_new s)\<lparr>dhcps_pcb := pcb\<rparr>;
     let s = s\<lparr>dhcp_address := dhcp_address s\<lparr>Broadcast_Address := IP4_ADDR 255 255 255 255\<rparr>\<rparr>;
     n \<leftarrow> nif;
     let s = s\<lparr>dhcp_address := dhcp_address s\<lparr>DHCP_Server_Address := netif_ip_addr n,
                Gateway_Address := netif_gw n,
                Client_Address := IP4_ADDR (ip4_addr_byte (netif_ip_addr n) 0)
                  (ip4_addr_byte (netif_ip_addr n) 1) (ip4_addr_byte (netif_ip_addr n) 2) 100\<rparr>\<rparr>;
     let s = call (Udp_bind pcb (netif_ip_addr n) DHCPS_SERVER_PORT) s;
     Some (call (Udp_recv pcb) s)
   }"

definition dhcps_stop :: "netif option \<Rightarrow> dhcps \<Rightarrow> dhcps" where
  "dhcps_stop nif s =
     (case nif of None \<Rightarrow> s
      | Some _ \<Rightarrow>
          (case dhcps_pcb s of None \<Rightarrow> s
           | Some pcb \<Rightarrow> (call (Udp_remove pcb) (call (Udp_disconnect pcb) s))\<lparr>dhcps_pcb := None\<rparr>))"

section \<open>The reply\<close>

text \<open>Options as RFC 2132 has them: a code, a length and as many bytes.\<close>

definition tlv :: "(u8 \<times> u8 list) list \<Rightarrow> u8 list" where
  "tlv opts = concat (map (\<lambda>(c, v). c # of_nat (length v) # v) opts)"

lemma tlv_simps [simp]:
  "tlv [] = []"
  "tlv ((c, v) # opts) = c # of_nat (length v) # v @ tlv opts"
  "tlv (xs @ ys) = tlv xs @ tlv ys"
  by (simp_all add: tlv_def)

text \<open>The decoder of the RFC: zero is a padding byte without length, 255 ends the options.\<close>

function rfc_options :: "u8 list \<Rightarrow> (u8 \<times> u8 list) list option" where
  "rfc_options [] = None"
| "rfc_options (c # bs) =
     (if c = 0 then rfc_options bs
      else if c = 255 then Some []
      else (case bs of [] \<Rightarrow> None
            | l # r \<Rightarrow> if length r < unat l then None
                      else map_option ((#) (c, take (unat l) r)) (rfc_options (drop (unat l) r))))"
  by pat_completeness auto

termination
  by (relation "measure length") auto

definition valid_option :: "u8 \<times> u8 list \<Rightarrow> bool" where
  "valid_option o1 \<longleftrightarrow> fst o1 \<noteq> 0 \<and> fst o1 \<noteq> 255 \<and> length (snd o1) \<le> 255 \<and>
     (fst o1 = DHCP_OPTION_MESSAGE_TYPE \<longrightarrow> snd o1 \<noteq> [])"

lemma unat_of_nat_u8: "n \<le> 255 \<Longrightarrow> unat (of_nat n :: u8) = n"
  by (simp add: unat_of_nat)

lemma rfc_options_tlv:
  "list_all valid_option opts \<Longrightarrow> rfc_options (tlv opts @ 255 # rest) = Some opts"
  by (induction opts) (auto simp: valid_option_def unat_of_nat_u8)

text \<open>
  What a reply of type \<open>ty\<close> says, with the option codes of RFC 2132: message type, subnet mask,
  lease time in seconds, server identifier, router, name server, MTU, no router discovery, and
  vendor data.  The server identifier is the configured gateway, not the address of the server,
  which stands in the header only.
\<close>

definition reply_options :: "dhcps \<Rightarrow> u8 \<Rightarrow> (u8 \<times> u8 list) list" where
  "reply_options s ty =
     (let a = dhcp_address s
      in [(53, [ty]),
          (1, [255, 255, 255, 0]),
          (51, rev (le_bytes (60 * dhcps_lease_time s))),
          (54, le_bytes (Gateway_Address a))] @
         (if dhcps_router_enabled (dhcps_offer s) \<and> Gateway_Address a \<noteq> 0
          then [(3, le_bytes (Gateway_Address a))] else []) @
         [(6, le_bytes (if dhcps_dns_enabled (dhcps_dns s) then DNS_Server_Address a else DHCP_Server_Address a)),
          (26, [0x05, 0xdc]),
          (31, [0]),
          (43, [1, 4, 0, 0, 0, 2])])"

definition reply_header :: "dhcps \<Rightarrow> u8 list \<Rightarrow> u8 list" where
  "reply_header s m =
     [2, 1, 6, 0] @ take 4 (drop 4 m) @ replicate 8 0 @
     le_bytes (Client_Address (dhcp_address s)) @ le_bytes (DHCP_Server_Address (dhcp_address s)) @
     replicate 4 0 @ take 16 (drop 28 m) @ replicate 192 0"

definition reply_bytes :: "dhcps \<Rightarrow> u8 list \<Rightarrow> u8 \<Rightarrow> u8 list" where
  "reply_bytes s m ty =
     reply_header s m @ le_bytes magic_cookie @ tlv (reply_options s ty) @ [DHCP_OPTION_END]"

lemma reply_options_valid: "list_all valid_option (reply_options s ty)"
  by (simp add: reply_options_def Let_def valid_option_def dhcp_numbers)

lemma length_reply_options: "length (tlv (reply_options s ty)) \<le> 48"
  by (simp add: reply_options_def Let_def)

lemma length_reply_header: "44 \<le> length m \<Longrightarrow> length (reply_header s m) = 236"
  by (simp add: reply_header_def)

lemma store_at_skip:
  "length a \<le> i \<Longrightarrow> store_at i bs (a @ r) = map_option ((@) a) (store_at (i - length a) bs r)"
  by (auto simp: store_at_def)

lemma store_at_skip1:
  "0 < i \<Longrightarrow> store_at i bs (x # r) = map_option ((#) x) (store_at (i - 1) bs r)"
  by (cases i) (auto simp: store_at_def)

lemma store_at_here: "length bs = length c \<Longrightarrow> store_at 0 bs (c @ r) = Some (bs @ r)"
  by (simp add: store_at_def)

lemma split_sizes:
  "sum_list ns \<le> length m \<Longrightarrow> \<exists>as r. m = concat as @ r \<and> map length as = ns"
proof (induction ns arbitrary: m)
  case Nil
  show ?case by (rule exI [of _ "[]"]) simp
next
  case (Cons n ns)
  have "sum_list ns \<le> length (drop n m)" using Cons.prems by simp
  then obtain as r where d: "drop n m = concat as @ r \<and> map length as = ns"
    using Cons.IH by blast
  then have "m = concat (take n m # as) @ r" by (metis append.assoc append_take_drop_id concat.simps(2))
  moreover have "map length (take n m # as) = n # ns" using d Cons.prems by simp
  ultimately show ?case by (intro exI conjI)
qed

text \<open>\<open>create_msg\<close> keeps the transaction and the hardware address and sets everything else.\<close>

lemma create_msg_eq:
  assumes "sizeof_dhcps_msg \<le> length m"
  shows "create_msg s m =
           Some (reply_header s m @ le_bytes magic_cookie @ replicate 308 0 @ drop 548 m)"
proof -
  have "sum_list [1, 1, 1, 1, 4, 2, 2, 4, 4, 4, 4, 16, 64, 128, 4, 308] \<le> length m"
    using assms by (simp add: sizeof_dhcps_msg_value)
  then obtain as r where m: "m = concat as @ r"
    and as: "map length as = [1, 1, 1, 1, 4, 2, 2, 4, 4, 4, 4, 16, 64, 128, 4, 308]"
    by (rule split_sizes [THEN exE]) (elim exE conjE, rule that)
  from as obtain op ht hl ho xid se fl ci yi si gi ch sn fi co ot where
    "as = [op, ht, hl, ho, xid, se, fl, ci, yi, si, gi, ch, sn, fi, co, ot]"
    by (auto simp: map_eq_Cons_conv)
  with as m have m: "m = op @ ht @ hl @ ho @ xid @ se @ fl @ ci @ yi @ si @ gi @ ch @ sn @ fi @ co @ ot @ r"
    and len: "length op = 1" "length ht = 1" "length hl = 1" "length ho = 1" "length xid = 4"
      "length se = 2" "length fl = 2" "length ci = 4" "length yi = 4" "length si = 4"
      "length gi = 4" "length ch = 16" "length sn = 64" "length fi = 128" "length co = 4"
      "length ot = 308" by simp_all
  have opts: "store_at 0 (replicate 312 0) (co @ ot @ r) = Some (replicate 312 0 @ r)"
    using len store_at_here [of "replicate 312 0" "co @ ot" r] by simp
  have cookie: "store_at 0 (le_bytes magic_cookie) (replicate 312 0 @ r) =
                  Some (le_bytes magic_cookie @ replicate 308 0 @ r)"
    using store_at_here [of "le_bytes magic_cookie" "replicate 4 0" "replicate 308 0 @ r"]
    by (simp flip: replicate_add append_assoc)
  have zeros: "replicate 8 0 = replicate 2 0 @ replicate 2 0 @ replicate 4 (0 :: u8)"
    "replicate 192 0 = replicate 64 0 @ replicate 128 (0 :: u8)"
    by (simp_all flip: replicate_add)
  show ?thesis
    unfolding create_msg_def store_field_def clear_field_def reply_header_def zeros m
    by (simp add: store_at_skip store_at_skip1 store_at_here opts cookie len
        DHCP_BOOTREPLY_def DHCP_HTYPE_ETHERNET_def)
qed

lemma and_0xFF: "ucast (x AND 0xFF :: u32) = (ucast x :: u8)"
proof -
  have m: "(0xFF :: u32) = mask 8" by (simp add: mask_eq_exp_minus_1)
  show ?thesis unfolding m by (rule bit_word_eqI) (auto simp: bit_simps)
qed

lemma message_options_eq:
  "add_msg_type ty mp \<bind> (\<lambda>mp. add_offer_options s mp \<bind> add_end) =
     puts (tlv (reply_options s ty) @ [DHCP_OPTION_END]) mp"
  unfolding add_msg_type_def add_offer_options_def add_address_def add_end_def
      reply_options_def ip4_addr_byte_def and_0xFF DHCPS_LEASE_UNIT_def Let_def
  by (cases "dhcps_router_enabled (dhcps_offer s)"; cases "Gateway_Address (dhcp_address s) = 0";
      cases "dhcps_dns_enabled (dhcps_dns s)")
    (simp_all add: le_bytes_def mult.commute puts_append [symmetric] dhcp_numbers del: puts.simps)

lemma copy_bytes_eq:
  "unat cnt + n \<le> length m \<Longrightarrow> unat cnt + n < 2 ^ 16 \<Longrightarrow>
   copy_bytes m n cnt = Some (take n (drop (unat cnt) m), cnt + of_nat n)"
proof (induction n arbitrary: cnt)
  case 0
  show ?case by simp
next
  case (Suc n)
  then have "unat (cnt + 1) = unat cnt + 1"
    by (simp add: unat_word_ariths)
  with Suc show ?case
    by (simp add: byte_at_def Cons_nth_drop_Suc [symmetric] add.assoc)
qed

lemma copy_chain_eq:
  "unat cnt + sum_list ns \<le> length m \<Longrightarrow> unat cnt + sum_list ns < 2 ^ 16 \<Longrightarrow>
   copy_chain m ns cnt = Some (take (sum_list ns) (drop (unat cnt) m))"
proof (induction ns arbitrary: cnt)
  case Nil
  show ?case by simp
next
  case (Cons n ns)
  then have "unat (cnt + of_nat n) = unat cnt + n"
    by (simp add: unat_word_ariths unat_of_nat)
  with Cons show ?case
    by (simp add: copy_bytes_eq take_add drop_drop add.commute)
qed

text \<open>
  What lwIP promises: a buffer allocated with a length has that length over its chain, and
  \<open>udp_sendto\<close> leaves the caller its reference.
\<close>

definition lwip_ok :: "lwip \<Rightarrow> bool" where
  "lwip_ok L \<longleftrightarrow>
     (\<forall>h len ns. pbuf_alloc_lens L h len = Some ns \<longrightarrow> sum_list ns = unat len) \<and>
     (\<forall>h. pbuf_ref L h \<noteq> 0)"

definition send_calls :: "nat \<Rightarrow> u8 list \<Rightarrow> dhcps \<Rightarrow> lwip_call list" where
  "send_calls pcb data s =
     [Pbuf_free_reply, Udp_sendto pcb data (Broadcast_Address (dhcp_address s)) DHCPS_CLIENT_PORT,
      Set_netif_idx pcb 1]"

lemma send_reply_eq:
  assumes "lwip_ok L" and "dhcps_pcb s = Some pcb" and "unat len \<le> length m"
  shows "send_reply L m len s =
           (let ok = pbuf_alloc_lens L (calls s) len \<noteq> None
            in Some (s\<lparr>calls := (if ok then send_calls pcb (take (unat len) m) s else []) @
                                Pbuf_alloc len ok # calls s\<rparr>))"
proof (cases "pbuf_alloc_lens L (calls s) len")
  case None
  then show ?thesis by (simp add: send_reply_def call_def)
next
  case (Some ns)
  with assms(1) have ns: "sum_list ns = unat len" by (simp add: lwip_ok_def)
  have "unat len < 2 ^ 16" using unsigned_less [of len, where ?'a = nat] by simp
  then have "copy_chain m ns 0 = Some (take (unat len) m)"
    using copy_chain_eq [of 0 ns m] ns assms(3) by simp
  with Some assms show ?thesis
    by (simp add: send_reply_def call_def Let_def send_calls_def lwip_ok_def)
qed

lemma build_reply:
  assumes "sizeof_dhcps_msg \<le> length m"
  shows "\<exists>tail. (create_msg s m \<bind> (\<lambda>m. add_msg_type ty (m, field_offset Options + 4) \<bind>
            (\<lambda>mp. add_offer_options s mp \<bind> add_end))) =
           Some (reply_bytes s m ty @ tail, length (reply_bytes s m ty))"
proof -
  let ?h = "reply_header s m @ le_bytes magic_cookie"
  have len: "length ?h = 240" using assms by (simp add: length_reply_header sizeof_dhcps_msg_value)
  have "create_msg s m = Some (?h @ replicate 308 0 @ drop 548 m)"
    using create_msg_eq [OF assms] by simp
  moreover have "puts (tlv (reply_options s ty) @ [DHCP_OPTION_END]) (?h @ replicate 308 0 @ drop 548 m, 240) =
      Some (?h @ (tlv (reply_options s ty) @ [DHCP_OPTION_END]) @
            drop (length (tlv (reply_options s ty)) + 1) (replicate 308 0 @ drop 548 m),
            240 + length (tlv (reply_options s ty) @ [DHCP_OPTION_END]))"
    using len length_reply_options [of s ty] assms
    by (subst puts_eq) (simp_all add: sizeof_dhcps_msg_value)
  ultimately show ?thesis
    using len by (simp add: message_options_eq reply_bytes_def)
qed

lemma length_reply_bytes: "44 \<le> length m \<Longrightarrow> length (reply_bytes s m ty) \<le> 289"
  using length_reply_options [of s ty] by (simp add: reply_bytes_def length_reply_header)

text \<open>The two answers the server gives, and the one it could give.\<close>

definition reply_calls :: "lwip \<Rightarrow> nat \<Rightarrow> u8 list \<Rightarrow> dhcps \<Rightarrow> lwip_call list" where
  "reply_calls L pcb data s =
     (let len = of_nat (length data); ok = pbuf_alloc_lens L (calls s) len \<noteq> None
      in (if ok then send_calls pcb data s else []) @ [Pbuf_alloc len ok])"

definition reply_result :: "lwip \<Rightarrow> nat \<Rightarrow> u8 list \<Rightarrow> dhcps \<Rightarrow> dhcps" where
  "reply_result L pcb data s = s\<lparr>calls := reply_calls L pcb data s @ calls s\<rparr>"

lemma send_reply_bytes:
  assumes "lwip_ok L" and "dhcps_pcb s = Some pcb" and "length data < 2 ^ 16"
  shows "send_reply L (data @ tail) (of_nat (length data)) s = Some (reply_result L pcb data s)"
  using assms
  by (subst send_reply_eq) (auto simp: reply_result_def reply_calls_def Let_def unat_of_nat)

lemma send_offer_eq:
  assumes "lwip_ok L" and "dhcps_pcb s = Some pcb" and m: "sizeof_dhcps_msg \<le> length m"
  shows "send_offer L m s = Some (reply_result L pcb (reply_bytes s m DHCP_OFFER) s)"
    and "send_ack L m s = Some (reply_result L pcb (reply_bytes s m DHCP_ACK) s)"
proof -
  have len: "length (reply_bytes s m ty) < 2 ^ 16" for ty
    using length_reply_bytes [of m s ty] m by (simp add: sizeof_dhcps_msg_value)
  have *: "(create_msg s m \<bind> (\<lambda>m. add_msg_type ty (m, field_offset Options + 4) \<bind>
             (\<lambda>mp. add_offer_options s mp \<bind> (\<lambda>mp. add_end mp \<bind>
             (\<lambda>(m, e). send_reply L m (of_nat e) s))))) =
           Some (reply_result L pcb (reply_bytes s m ty) s)" for ty
  proof -
    obtain tail where "(create_msg s m \<bind> (\<lambda>m. add_msg_type ty (m, field_offset Options + 4) \<bind>
            (\<lambda>mp. add_offer_options s mp \<bind> add_end))) =
           Some (reply_bytes s m ty @ tail, length (reply_bytes s m ty))"
      using build_reply [OF m] by blast
    then have "(create_msg s m \<bind> (\<lambda>m. add_msg_type ty (m, field_offset Options + 4) \<bind>
            (\<lambda>mp. add_offer_options s mp \<bind> add_end))) \<bind> (\<lambda>(m, e). send_reply L m (of_nat e) s) =
           send_reply L (reply_bytes s m ty @ tail) (of_nat (length (reply_bytes s m ty))) s" by simp
    then show ?thesis using send_reply_bytes [OF assms(1,2) len] by simp
  qed
  show "send_offer L m s = Some (reply_result L pcb (reply_bytes s m DHCP_OFFER) s)"
    and "send_ack L m s = Some (reply_result L pcb (reply_bytes s m DHCP_ACK) s)"
    using * by (simp_all add: send_offer_def send_ack_def)
qed

section \<open>Receiving a packet\<close>

text \<open>\<open>tot_len\<close> is the sum of the lengths over the chain, as \<open>pbuf.h\<close> documents.\<close>

definition packet :: "pbuf \<Rightarrow> u8 list" where
  "packet p = concat (payloads p)"

definition pbuf_ok :: "pbuf \<Rightarrow> bool" where
  "pbuf_ok p \<longleftrightarrow> unat (tot_len p) = length (packet p)"

lemma copy_in_eq:
  assumes "unat c = length pre" and "sint ml = int (length pre + k)"
    and "length (concat bs) \<le> k"
  shows "copy_in bs c ml (pre @ replicate k 0) =
           Some (pre @ concat bs @ replicate (k - length (concat bs)) 0)"
  using assms
proof (induction bs arbitrary: c pre k)
  case Nil
  then show ?case by simp
next
  case (Cons b bs)
  let ?c = "c + of_nat (length b)"
  have "sint ml < 32768" using sint_less [of ml] by simp
  then have "length pre + k < 32768" using Cons.prems(2) by linarith
  then have c: "unat ?c = length (pre @ b)"
    using Cons.prems by (simp add: unat_word_ariths unat_of_nat)
  have st: "store_at (unat c) b (pre @ replicate k 0) =
      Some ((pre @ b) @ replicate (k - length b) 0)"
    using Cons.prems by (simp add: store_at_def)
  have IH: "copy_in bs ?c ml ((pre @ b) @ replicate (k - length b) 0) =
      Some ((pre @ b) @ concat bs @ replicate (k - length b - length (concat bs)) 0)"
    using Cons.prems c by (intro Cons.IH) auto
  have "concat bs = []" if "\<not> int (unat ?c) < sint ml"
  proof -
    have "k \<le> length b" using that c Cons.prems(2) by simp
    moreover have "length b + length (concat bs) \<le> k" using Cons.prems(3) by simp
    ultimately have "length (concat bs) = 0" by linarith
    then show ?thesis by (simp only: length_0_conv)
  qed
  then have "int (unat ?c) < sint ml \<or> concat bs = []" by blast
  with st IH show ?case by (elim disjE) (simp_all add: Let_def del: concat_eq_Nil_conv)
qed

definition message_buffer :: "u8 list \<Rightarrow> u8 list" where
  "message_buffer pkt = pkt @ replicate (max sizeof_dhcps_msg (length pkt) - length pkt) 0"

lemma length_message_buffer:
  "length (message_buffer pkt) = max sizeof_dhcps_msg (length pkt)"
  by (simp add: message_buffer_def)

lemma bind_Some_map: "x \<bind> (\<lambda>y. Some (f y)) = map_option f x"
  by (cases x) simp_all

lemma handle_dhcp_eq:
  assumes "pbuf_ok p" and small: "length (packet p) < 2 ^ 15"
    and n: "n = max sizeof_dhcps_msg (length (packet p))"
  shows "handle_dhcp L (Some p) s =
           (if mem_malloc_ok L (calls s) n
            then (let m = message_buffer (packet p)
                  in parse_msg m (tot_len p) \<bind>
                     (\<lambda>st. map_option (call Mem_free) (react L m (of_nat n) st
                       (call Pbuf_free_packet (call (Mem_malloc n True) s)))))
            else Some (call Pbuf_free_packet (call (Mem_malloc n False) s)))"
proof -
  let ?ml = "of_nat n :: 16 word"
  have tl: "unat (tot_len p) = length (packet p)" using assms by (simp add: pbuf_ok_def)
  then have tl': "tot_len p = of_nat (length (packet p))" by (simp flip: tl)
  have n15: "n < 2 ^ 15" using small n by (simp add: sizeof_dhcps_msg_value)
  have sml: "sint ?ml = int n"
    using n15 by (simp add: signed_of_nat signed_take_bit_int_eq_self)
  have ml: "(if sint (of_nat sizeof_dhcps_msg :: 16 word) < int (unat (tot_len p)) then tot_len p
             else of_nat sizeof_dhcps_msg) = ?ml"
    using n tl tl' by (auto simp: sizeof_dhcps_msg_value max_def)
  have un: "unat (scast ?ml :: u32) = n"
    using sml n15 by (simp add: scast_eq unat_of_nat)
  have "copy_in (payloads p) 0 ?ml ([] @ replicate n 0) =
      Some ([] @ concat (payloads p) @ replicate (n - length (concat (payloads p))) 0)"
    using sml n by (intro copy_in_eq) (simp_all add: packet_def)
  then have cp: "copy_in (payloads p) 0 ?ml (replicate n 0) = Some (message_buffer (packet p))"
    using n by (simp add: message_buffer_def packet_def)
  show ?thesis
    unfolding handle_dhcp_def option.case Let_def ml un
    by (simp add: cp bind_Some_map)
qed

text \<open>What the loop makes of a well-formed option area: the last message type counts.\<close>

fun scan_options :: "(u8 \<times> u8 list) list \<Rightarrow> u16 \<times> u8 \<Rightarrow> u16 \<times> u8" where
  "scan_options [] r = r"
| "scan_options ((c, v) # opts) (ty, st) =
     scan_options opts
       (if c = DHCP_OPTION_MESSAGE_TYPE then ucast (v ! 0) else ty,
        if c = DHCP_OPTION_REQUESTED_IP then DHCPS_STATE_ACK else st)"

lemma parse_loop_skip:
  "list_all valid_option opts \<Longrightarrow> drop p m = tlv opts @ rest \<Longrightarrow>
   int (p + length (tlv opts)) \<le> e \<Longrightarrow>
   parse_loop m e p ty st =
     (case scan_options opts (ty, st) of (ty, st) \<Rightarrow> parse_loop m e (p + length (tlv opts)) ty st)"
proof (induction opts arbitrary: p ty st)
  case Nil
  show ?case by simp
next
  case (Cons cv opts)
  obtain c v where cv: "cv = (c, v)" by (cases cv)
  let ?bs = "c # of_nat (length v) # v @ tlv opts"
  have d: "drop p m = ?bs @ rest" using Cons.prems(2) cv by simp
  have v: "c \<noteq> DHCP_OPTION_END" "length v \<le> 255" "c = DHCP_OPTION_MESSAGE_TYPE \<Longrightarrow> v \<noteq> []"
    using Cons.prems(1) cv by (auto simp: valid_option_def DHCP_OPTION_END_def)
  have b: "byte_at m p = Some c" "byte_at m (p + 1) = Some (of_nat (length v))"
    "c = DHCP_OPTION_MESSAGE_TYPE \<Longrightarrow> byte_at m (p + 2) = Some (v ! 0)"
    using byte_at_prefix [OF d, of 0] byte_at_prefix [OF d, of 1] byte_at_prefix [OF d, of 2] v(3)
    by (simp_all add: nth_append)
  have l: "unat (of_nat (length v) :: u8) = length v" using v(2) by (rule unat_of_nat_u8)
  have "drop (p + length v + 2) m = drop (length v + 2) (drop p m)" by (simp add: add.commute add.left_commute)
  then have d': "drop (p + length v + 2) m = tlv opts @ rest"
    by (simp add: d)
  have "int p < e" using Cons.prems(3) cv by simp
  moreover have "parse_loop m e (p + length v + 2) ty' st' =
      (case scan_options opts (ty', st') of (ty, st) \<Rightarrow>
         parse_loop m e (p + length (tlv (cv # opts))) ty st)" for ty' st'
    using Cons.IH [OF _ d', of ty' st'] Cons.prems cv by (simp add: add.assoc)
  ultimately show ?case
    using v b l by (subst parse_loop.simps) (auto simp: cv Let_def)
qed

lemma parse_loop_tlv:
  assumes "list_all valid_option opts" and d: "drop p m = tlv opts @ DHCP_OPTION_END # rest"
    and e: "int (p + length (tlv opts)) < e"
  shows "parse_loop m e p ty st = Some (scan_options opts (ty, st))"
proof -
  have "drop (p + length (tlv opts)) m = drop (length (tlv opts)) (drop p m)" by (simp add: add.commute)
  then have "drop (p + length (tlv opts)) m = [DHCP_OPTION_END] @ rest" by (simp add: d)
  from byte_at_prefix [OF this, of 0]
  have "parse_loop m e (p + length (tlv opts)) ty' st' = Some (ty', st')" for ty' st'
    using e by (subst parse_loop.simps) (simp add: dhcp_numbers)
  then show ?thesis
    using parse_loop_skip [OF assms(1) d, of e ty st] e by (simp split: prod.splits)
qed

lemma parse_loop_safe:
  "e + 2 \<le> int (length m) \<Longrightarrow> parse_loop m e p ty st \<noteq> None"
proof (induction m e p ty st rule: parse_loop.induct)
  case (1 m e p ty st)
  show ?case
  proof (cases "int p < e")
    case True
    then have p: "p + 2 < length m" using "1.prems" by linarith
    then have b: "byte_at m p = Some (m ! p)" "byte_at m (p + 1) = Some (m ! (p + 1))"
      "byte_at m (p + 2) = Some (m ! (p + 2))" by (simp_all add: byte_at_def)
    show ?thesis
      using True b "1.prems" "1.IH" by (subst parse_loop.simps) (auto simp: Let_def)
  next
    case False
    then show ?thesis by (subst parse_loop.simps) simp
  qed
qed

lemma parse_loop_state:
  "parse_loop m e p ty st = Some (ty', st') \<Longrightarrow> st' = st \<or> st' = DHCPS_STATE_ACK"
proof (induction m e p ty st rule: parse_loop.induct)
  case (1 m e p ty st)
  from "1.prems" show ?case
    by (subst (asm) parse_loop.simps)
      (auto simp: Let_def split: if_splits option.splits dest: "1.IH")
qed

lemma parse_msg_eq:
  assumes "unat len = length pkt" and "length pkt < 2 ^ 15"
  shows "parse_msg (message_buffer pkt) len =
           (if take 4 (drop 236 (message_buffer pkt)) = le_bytes magic_cookie
            then map_option (\<lambda>(ty, st). state_of_type ty st)
                   (parse_loop (message_buffer pkt) (int (length pkt)) 240 0 DHCPS_STATE_IDLE)
            else Some 0)"
proof -
  have tl: "len = of_nat (length pkt)" by (simp flip: assms(1))
  have "(of_nat (length pkt) - 240 :: 16 word) = word_of_int (int (length pkt) - 240)" by simp
  then have "sint (len - 240) = int (length pkt) - 240"
    using assms(2) unfolding tl by (simp only: sint_sbintrunc') (simp add: signed_take_bit_int_eq_self)
  then show ?thesis
    by (simp add: parse_msg_def parse_options_def length_message_buffer sizeof_dhcps_msg_value
        case_prod_unfold bind_Some_map le_max_iff_disj)
qed

text \<open>No packet makes the parser ask for a refusal.\<close>

lemma parse_msg_not_nak:
  assumes "unat len = length pkt" and "length pkt < 2 ^ 15"
    and "parse_msg (message_buffer pkt) len = Some st"
  shows "st \<noteq> DHCPS_STATE_NAK"
  using assms(3) parse_loop_state [of "message_buffer pkt" "int (length pkt)" 240 0 DHCPS_STATE_IDLE]
  unfolding parse_msg_eq [OF assms(1,2)]
  by (auto simp: state_of_type_def dhcp_numbers split: if_splits)

lemma react_eq:
  assumes "lwip_ok L" and "dhcps_pcb s = Some pcb" and "st \<noteq> DHCPS_STATE_NAK"
  shows "react L (message_buffer pkt) ml st s =
           Some (if st = DHCPS_STATE_OFFER
                 then reply_result L pcb (reply_bytes s (message_buffer pkt) DHCP_OFFER) s
                 else if st = DHCPS_STATE_ACK
                 then reply_result L pcb (reply_bytes s (message_buffer pkt) DHCP_ACK) s
                 else s)"
  using assms by (simp add: react_def send_offer_eq length_message_buffer)

text \<open>The datagrams sent, the latest first, and counting calls.\<close>

fun datagrams :: "lwip_call list \<Rightarrow> (u8 list \<times> u32 \<times> u16) list" where
  "datagrams [] = []"
| "datagrams (Udp_sendto pcb data addr port # cs) = (data, addr, port) # datagrams cs"
| "datagrams (_ # cs) = datagrams cs"

definition count_calls :: "(lwip_call \<Rightarrow> bool) \<Rightarrow> lwip_call list \<Rightarrow> nat" where
  "count_calls P cs = length (filter P cs)"

fun is_malloc :: "lwip_call \<Rightarrow> bool" where
  "is_malloc (Mem_malloc _ ok) = ok"
| "is_malloc _ = False"

fun is_pbuf_alloc :: "lwip_call \<Rightarrow> bool" where
  "is_pbuf_alloc (Pbuf_alloc _ ok) = ok"
| "is_pbuf_alloc _ = False"

definition balanced :: "lwip_call list \<Rightarrow> bool" where
  "balanced cs \<longleftrightarrow>
     count_calls is_malloc cs = count_calls (\<lambda>c. c = Mem_free) cs \<and>
     count_calls is_pbuf_alloc cs = count_calls (\<lambda>c. c = Pbuf_free_reply) cs \<and>
     count_calls (\<lambda>c. c = Pbuf_free_packet) cs = 1"

lemmas call_count_defs = balanced_def count_calls_def send_calls_def

lemma datagrams_append [simp]: "datagrams (xs @ ys) = datagrams xs @ datagrams ys"
  by (induction xs rule: datagrams.induct) simp_all

lemma reply_bytes_calls [simp]: "reply_bytes (s\<lparr>calls := cs\<rparr>) m ty = reply_bytes s m ty"
  by (simp add: reply_bytes_def reply_header_def reply_options_def Let_def)

lemma length_reply_message_buffer: "length (reply_bytes s (message_buffer pkt) ty) \<le> 289"
  by (rule length_reply_bytes) (simp add: length_message_buffer sizeof_dhcps_msg_value)

text \<open>C34: Every packet of at most 546 bytes, whatever is in it, is handled without an access
  outside the message buffer or through a null pointer; every block and every buffer that was
  allocated is freed again, the packet exactly once; the configuration stays as it is; and at
  most one datagram of at most 289 bytes is sent, to port 68 of the broadcast address.\<close>

theorem handle_dhcp_safe:
  assumes "lwip_ok L" and "pbuf_ok p" and "length (packet p) \<le> 546" and "dhcps_pcb s = Some pcb"
  shows "\<exists>new. handle_dhcp L (Some p) s = Some (s\<lparr>calls := new @ calls s\<rparr>) \<and> balanced new \<and>
           length (datagrams new) \<le> 1 \<and>
           (\<forall>(data, addr, port) \<in> set (datagrams new). length data \<le> 289 \<and>
              addr = Broadcast_Address (dhcp_address s) \<and> port = 68)"
proof (cases "mem_malloc_ok L (calls s) (max sizeof_dhcps_msg (length (packet p)))")
  case False
  then show ?thesis
    using handle_dhcp_eq [OF assms(2) _ HOL.refl, of L s] assms(3)
    by (intro exI [of _ "[Pbuf_free_packet, Mem_malloc (max sizeof_dhcps_msg (length (packet p))) False]"])
      (simp add: call_def call_count_defs)
next
  case True
  let ?n = "max sizeof_dhcps_msg (length (packet p))" and ?m = "message_buffer (packet p)"
  let ?s = "call Pbuf_free_packet (call (Mem_malloc ?n True) s)"
  have tl: "unat (tot_len p) = length (packet p)" using assms(2) by (simp add: pbuf_ok_def)
  have small: "length (packet p) < 2 ^ 15" using assms(3) by simp
  have "parse_loop ?m (int (length (packet p))) 240 0 DHCPS_STATE_IDLE \<noteq> None"
    using assms(3) by (intro parse_loop_safe) (simp add: length_message_buffer sizeof_dhcps_msg_value)
  then have "parse_msg ?m (tot_len p) \<noteq> None"
    unfolding parse_msg_eq [OF tl small] by (simp split: if_splits)
  then obtain st where st: "parse_msg ?m (tot_len p) = Some st" by blast
  have "dhcps_pcb ?s = Some pcb" using assms(4) by (simp add: call_def)
  from react_eq [OF assms(1) this parse_msg_not_nak [OF tl small st]]
  have h: "handle_dhcp L (Some p) s =
      Some (call Mem_free (if st = DHCPS_STATE_OFFER then reply_result L pcb (reply_bytes ?s ?m DHCP_OFFER) ?s
              else if st = DHCPS_STATE_ACK then reply_result L pcb (reply_bytes ?s ?m DHCP_ACK) ?s
              else ?s))"
    using handle_dhcp_eq [OF assms(2) small HOL.refl, of L s] True st by (simp add: Let_def)
  define answer where "answer =
      (if st = DHCPS_STATE_OFFER then reply_calls L pcb (reply_bytes s ?m DHCP_OFFER) ?s
       else if st = DHCPS_STATE_ACK then reply_calls L pcb (reply_bytes s ?m DHCP_ACK) ?s else [])"
  have "handle_dhcp L (Some p) s =
      Some (s\<lparr>calls := (Mem_free # answer @ [Pbuf_free_packet, Mem_malloc ?n True]) @ calls s\<rparr>)"
    unfolding h answer_def by (simp add: call_def reply_result_def)
  moreover have "balanced (Mem_free # answer @ [Pbuf_free_packet, Mem_malloc ?n True])"
    by (simp add: answer_def reply_calls_def Let_def call_count_defs)
  moreover have "length (datagrams answer) \<le> 1 \<and> (\<forall>(data, addr, port) \<in> set (datagrams answer).
      length data \<le> 289 \<and> addr = Broadcast_Address (dhcp_address s) \<and> port = 68)"
    using length_reply_message_buffer [of s "packet p"]
    by (simp add: answer_def reply_calls_def Let_def send_calls_def call_def DHCPS_CLIENT_PORT_def)
  ultimately show ?thesis
    by (intro exI [of _ "Mem_free # answer @ [Pbuf_free_packet, Mem_malloc ?n True]"]) simp
qed

text \<open>An lwIP with memory, a server on 192.168.4.1, and the packets of the examples.\<close>

definition demo_lwip :: lwip where
  "demo_lwip = \<lparr>mem_malloc_ok = \<lambda>_ _. True, pbuf_alloc_lens = \<lambda>_ n. Some [unat n],
                pbuf_ref = \<lambda>_. 1, udp_new_pcb = \<lambda>_. Some 7\<rparr>"

definition demo_netif :: netif where
  "demo_netif = \<lparr>netif_ip_addr = IP4_ADDR 192 168 4 1, netif_gw = IP4_ADDR 192 168 4 1\<rparr>"

definition demo_server :: dhcps where
  "demo_server = (case dhcps_start demo_lwip (Some demo_netif) dhcps_reset of
                    Some s \<Rightarrow> s | None \<Rightarrow> dhcps_reset)"

definition demo_packet :: "u8 list \<Rightarrow> pbuf" where
  "demo_packet opts = (let b = replicate 236 1 @ le_bytes magic_cookie @ opts
                       in \<lparr>tot_len = of_nat (length b), payloads = [b]\<rparr>)"

lemma demo_lwip_ok: "lwip_ok demo_lwip"
  by (simp add: lwip_ok_def demo_lwip_def)

lemma demo_packet_ok: "length opts \<le> 1000 \<Longrightarrow> pbuf_ok (demo_packet opts)"
  by (simp add: pbuf_ok_def packet_def demo_packet_def unat_of_nat unat_word_ariths)

lemma packet_demo: "packet (demo_packet opts) = replicate 236 1 @ le_bytes magic_cookie @ opts"
  by (simp add: packet_def demo_packet_def)

lemma demo_server_pcb: "dhcps_pcb demo_server = Some 7"
  by (simp add: demo_server_def dhcps_start_def demo_lwip_def demo_netif_def dhcps_reset_def call_def Let_def)

theorem handle_dhcp_safe_witness:
  "\<exists>new. handle_dhcp demo_lwip (Some (demo_packet [53, 200, 1])) demo_server =
           Some (demo_server\<lparr>calls := new @ calls demo_server\<rparr>) \<and> balanced new \<and>
           length (datagrams new) \<le> 1 \<and>
           (\<forall>(data, addr, port) \<in> set (datagrams new). length data \<le> 289 \<and>
              addr = Broadcast_Address (dhcp_address demo_server) \<and> port = 68)"
  by (rule handle_dhcp_safe [OF demo_lwip_ok demo_packet_ok _ demo_server_pcb]) (simp_all add: packet_demo)

section \<open>The protocol\<close>

text \<open>The reply to a message with the options \<open>opts\<close>, by the last message type in it.\<close>

definition expected_reply :: "(u8 \<times> u8 list) list \<Rightarrow> u8 option" where
  "expected_reply opts =
     (let ty = (case map_of (rev opts) 53 of None \<Rightarrow> 0 | Some v \<Rightarrow> v ! 0)
      in if ty = 1 then Some 2
         else if ty = 3 then Some 5
         else if ty = 4 \<or> ty = 7 then None
         else if 50 \<in> fst ` set opts then Some 5 else None)"

lemma scan_options_eq:
  "scan_options opts (ty, st) =
     (case map_of (rev opts) 53 of None \<Rightarrow> ty | Some v \<Rightarrow> ucast (v ! 0),
      if 50 \<in> fst ` set opts then DHCPS_STATE_ACK else st)"
  by (induction opts "(ty, st)" arbitrary: ty st rule: scan_options.induct)
    (auto simp: dhcp_numbers map_add_def split: option.splits)

lemma ucast_u8_u16_eq: "(ucast (a :: u8) :: u16) = ucast b \<longleftrightarrow> a = b"
proof -
  have "n < 8 \<and> n < 16" if "bit (x :: u8) n" for x n using bit_imp_le_length [OF that] by simp
  then show ?thesis by (auto simp: bit_eq_iff bit_simps)
qed

lemma state_of_type_ucast:
  "state_of_type (ucast (t :: u8)) st =
     (if t = 1 then DHCPS_STATE_OFFER else if t = 3 then DHCPS_STATE_ACK
      else if t = 4 then DHCPS_STATE_IDLE else if t = 7 then DHCPS_STATE_RELEASE else st)"
  unfolding state_of_type_def ucast_u8_u16_eq
  by (simp add: DHCP_DISCOVER_def DHCP_REQUEST_def DHCP_DECLINE_def DHCP_RELEASE_def)

lemma state_of_scan:
  "(case scan_options opts (0, DHCPS_STATE_IDLE) of (ty, st) \<Rightarrow> state_of_type ty st) = st \<Longrightarrow>
   (st = DHCPS_STATE_OFFER \<longleftrightarrow> expected_reply opts = Some DHCP_OFFER) \<and>
   (st = DHCPS_STATE_ACK \<longleftrightarrow> expected_reply opts = Some DHCP_ACK)"
proof -
  define t where "t = (case map_of (rev opts) 53 of None \<Rightarrow> 0 | Some v \<Rightarrow> v ! 0)"
  have "(case map_of (rev opts) 53 of None \<Rightarrow> 0 | Some v \<Rightarrow> ucast (v ! 0)) = (ucast t :: u16)"
    by (simp add: t_def split: option.splits)
  then show "(case scan_options opts (0, DHCPS_STATE_IDLE) of (ty, st) \<Rightarrow> state_of_type ty st) = st \<Longrightarrow>
     (st = DHCPS_STATE_OFFER \<longleftrightarrow> expected_reply opts = Some DHCP_OFFER) \<and>
     (st = DHCPS_STATE_ACK \<longleftrightarrow> expected_reply opts = Some DHCP_ACK)"
    unfolding expected_reply_def t_def [symmetric] scan_options_eq
    by (auto simp: state_of_type_ucast Let_def dhcp_numbers split: if_splits)
qed

text \<open>C33: The server answers a message whose options are well formed and contain no padding bytes:
  while lwIP has memory, a DISCOVER is answered by an OFFER and a REQUEST by an ACK, a DECLINE or a
  RELEASE by nothing, a message without one of these types by an ACK if it asks for an address.
  The reply goes to the broadcast address, repeats the transaction id and the hardware address of
  the client, and the decoder of the RFC reads exactly \<open>reply_options\<close> from it: the message type,
  the subnet mask, the lease time in seconds, the configured gateway as server identifier and, if
  enabled, as router, the name server, and the constants.\<close>

theorem handle_dhcp_answers:
  assumes "lwip_ok L" and "\<forall>h n. mem_malloc_ok L h n" and "\<forall>h n. pbuf_alloc_lens L h n \<noteq> None"
    and "pbuf_ok p" and "length (packet p) < 2 ^ 15" and "dhcps_pcb s = Some pcb"
    and "take 4 (drop 236 (packet p)) = le_bytes magic_cookie"
    and "drop 240 (packet p) = tlv opts @ DHCP_OPTION_END # rest" and "list_all valid_option opts"
  shows "\<exists>s'. handle_dhcp L (Some p) s = Some s' \<and>
     (case expected_reply opts of
        None \<Rightarrow> datagrams (calls s') = datagrams (calls s)
      | Some ty \<Rightarrow> \<exists>data.
          datagrams (calls s') = (data, Broadcast_Address (dhcp_address s), 68) # datagrams (calls s) \<and>
          take 236 data = reply_header s (packet p) \<and>
          take 4 (drop 236 data) = le_bytes magic_cookie \<and>
          rfc_options (drop 240 data) = Some (reply_options s ty))"
proof -
  let ?n = "max sizeof_dhcps_msg (length (packet p))" and ?m = "message_buffer (packet p)"
  let ?s = "call Pbuf_free_packet (call (Mem_malloc ?n True) s)"
  have tl: "unat (tot_len p) = length (packet p)" using assms(4) by (simp add: pbuf_ok_def)
  have len: "length (drop 240 (packet p)) = length (packet p) - 240" by simp
  then have long: "240 + length (tlv opts) < length (packet p)" unfolding assms(8) by simp
  have area: "drop 240 ?m = tlv opts @ DHCP_OPTION_END # (rest @ replicate (?n - length (packet p)) 0)"
    using long assms(8) by (simp add: message_buffer_def)
  have cookie: "take 4 (drop 236 ?m) = le_bytes magic_cookie"
    using long assms(7) by (simp add: message_buffer_def)
  define st where "st = (case scan_options opts (0, DHCPS_STATE_IDLE) of (ty, st) \<Rightarrow> state_of_type ty st)"
  have "parse_loop ?m (int (length (packet p))) 240 0 DHCPS_STATE_IDLE =
      Some (scan_options opts (0, DHCPS_STATE_IDLE))"
    using long area by (intro parse_loop_tlv [OF assms(9)]) simp_all
  then have st: "parse_msg ?m (tot_len p) = Some st"
    unfolding parse_msg_eq [OF tl assms(5)] using cookie by (simp add: st_def split: prod.splits)
  have pcb: "dhcps_pcb ?s = Some pcb" using assms(6) by (simp add: call_def)
  define ty where "ty = expected_reply opts"
  note react = react_eq [OF assms(1) pcb parse_msg_not_nak [OF tl assms(5) st]]
  have st_ty: "st = DHCPS_STATE_OFFER \<longleftrightarrow> ty = Some DHCP_OFFER" "st = DHCPS_STATE_ACK \<longleftrightarrow> ty = Some DHCP_ACK"
    using state_of_scan [of opts st] by (simp_all add: st_def ty_def)
  have ty: "ty = None \<or> ty = Some DHCP_OFFER \<or> ty = Some DHCP_ACK"
    by (simp add: ty_def expected_reply_def Let_def dhcp_numbers)
  have h: "handle_dhcp L (Some p) s = Some (call Mem_free (case ty of None \<Rightarrow> ?s
      | Some t \<Rightarrow> reply_result L pcb (reply_bytes s ?m t) ?s))"
    using handle_dhcp_eq [OF assms(4,5) HOL.refl, of L s] assms(2) st react ty st_ty
    by (auto simp: Let_def call_def dhcp_numbers)
  have header: "reply_header s ?m = reply_header s (packet p)"
    using long by (simp add: reply_header_def message_buffer_def)
  have d: "take 236 (reply_bytes s ?m t) = reply_header s (packet p)"
    "take 4 (drop 236 (reply_bytes s ?m t)) = le_bytes magic_cookie"
    "rfc_options (drop 240 (reply_bytes s ?m t)) = Some (reply_options s t)" for t
    using long length_reply_header [of "packet p" s] rfc_options_tlv [OF reply_options_valid, of s t "[]"]
    by (simp_all add: reply_bytes_def header DHCP_OPTION_END_def)
  show ?thesis
    unfolding h ty_def [symmetric] using ty assms(3) d
    by (auto simp: call_def reply_result_def reply_calls_def Let_def send_calls_def DHCPS_CLIENT_PORT_def
        simp del: reply_bytes_calls)
qed

theorem handle_dhcp_answers_witness:
  "\<exists>s'. handle_dhcp demo_lwip (Some (demo_packet [12, 2, 65, 66, 53, 1, 3, 255])) demo_server = Some s' \<and>
     (\<exists>data. datagrams (calls s') = [(data, Broadcast_Address (dhcp_address demo_server), 68)] \<and>
        rfc_options (drop 240 data) = Some (reply_options demo_server 5))"
proof -
  let ?p = "demo_packet [12, 2, 65, 66, 53, 1, 3, 255]" and ?opts = "[(12, [65, 66]), (53, [3])]"
  have e: "expected_reply ?opts = Some 5" by (simp add: expected_reply_def)
  have c: "datagrams (calls demo_server) = []"
    by (simp add: demo_server_def dhcps_start_def demo_lwip_def demo_netif_def dhcps_reset_def call_def Let_def)
  have "\<exists>s'. handle_dhcp demo_lwip (Some ?p) demo_server = Some s' \<and>
     (case expected_reply ?opts of
        None \<Rightarrow> datagrams (calls s') = datagrams (calls demo_server)
      | Some ty \<Rightarrow> \<exists>data.
          datagrams (calls s') = (data, Broadcast_Address (dhcp_address demo_server), 68) # datagrams (calls demo_server) \<and>
          take 236 data = reply_header demo_server (packet ?p) \<and>
          take 4 (drop 236 data) = le_bytes magic_cookie \<and>
          rfc_options (drop 240 data) = Some (reply_options demo_server ty))"
    by (rule handle_dhcp_answers [OF demo_lwip_ok _ _ demo_packet_ok _ demo_server_pcb, where rest = "[]"])
      (simp_all add: demo_lwip_def packet_demo valid_option_def dhcp_numbers)
  then show ?thesis unfolding e c by auto
qed

section \<open>Where the parser leaves the protocol\<close>

text \<open>C35: A packet as long as the message buffer or longer whose options are not closed by an END
  but break off after an option code makes the parser read beyond the allocated memory.\<close>

theorem handle_dhcp_overread:
  assumes "\<forall>h n. mem_malloc_ok L h n" and "pbuf_ok p"
    and "sizeof_dhcps_msg \<le> length (packet p)" and "length (packet p) < 2 ^ 15"
    and "take 4 (drop 236 (packet p)) = le_bytes magic_cookie"
    and "drop 240 (packet p) = tlv opts @ [c]" and "list_all valid_option opts"
    and "c \<noteq> DHCP_OPTION_END"
  shows "handle_dhcp L (Some p) s = None"
proof -
  let ?pkt = "packet p"
  have tl: "unat (tot_len p) = length ?pkt" using assms(2) by (simp add: pbuf_ok_def)
  have m: "message_buffer ?pkt = ?pkt" using assms(3) by (simp add: message_buffer_def)
  have "length (drop 240 ?pkt) = length (tlv opts) + 1" unfolding assms(6) by simp
  then have e: "length ?pkt = 240 + length (tlv opts) + 1"
    using assms(3) by (simp add: sizeof_dhcps_msg_value)
  have "drop (240 + length (tlv opts)) ?pkt = drop (length (tlv opts)) (drop 240 ?pkt)"
    by (simp add: add.commute)
  then have "drop (240 + length (tlv opts)) ?pkt = [c] @ []" by (simp add: assms(6))
  from byte_at_prefix [OF this, of 0]
  have "parse_loop ?pkt (int (length ?pkt)) (240 + length (tlv opts)) ty st = None" for ty st
    using assms(8) e by (subst parse_loop.simps) (simp add: byte_at_def split: option.split)
  then have "parse_loop ?pkt (int (length ?pkt)) 240 0 DHCPS_STATE_IDLE = None"
    using parse_loop_skip [OF assms(7,6), of "int (length ?pkt)" 0 DHCPS_STATE_IDLE] e
    by (simp split: prod.splits)
  then have "parse_msg (message_buffer ?pkt) (tot_len p) = None"
    using parse_msg_eq [OF tl assms(4)] assms(5) by (simp add: m)
  then show ?thesis
    using handle_dhcp_eq [OF assms(2,4) HOL.refl, of L s] assms(1) by (simp add: Let_def)
qed

theorem handle_dhcp_overread_witness:
  "handle_dhcp demo_lwip (Some (demo_packet (concat (replicate 152 [12, 0]) @ [12, 1, 5, 12]))) demo_server = None"
  by (rule handle_dhcp_overread [OF _ demo_packet_ok, where c = 12 and
        opts = "replicate 152 (12, []) @ [(12, [5])]"])
    (simp_all add: demo_lwip_def packet_demo tlv_def valid_option_def dhcp_numbers sizeof_dhcps_msg_value
      length_concat sum_list_replicate list_all_iff)

text \<open>An option area that starts with a padding byte hides the message type from the server:
  the options decode to this one message type, and the packet is not answered.\<close>

theorem padding_hides_message_type:
  assumes "pbuf_ok p" and "length (packet p) \<le> 295"
    and "drop 240 (packet p) = [0, 53, 1, ty, 255] @ rest"
  shows "rfc_options (drop 240 (packet p)) = Some [(53, [ty])] \<and>
         (\<exists>s'. handle_dhcp L (Some p) s = Some s' \<and> datagrams (calls s') = datagrams (calls s))"
proof -
  let ?pkt = "packet p" and ?m = "message_buffer (packet p)"
  have tl: "unat (tot_len p) = length ?pkt" using assms(1) by (simp add: pbuf_ok_def)
  have small: "length ?pkt < 2 ^ 15" using assms(2) by simp
  have "length (drop 240 ?pkt) = 5 + length rest" unfolding assms(3) by simp
  then have long: "245 \<le> length ?pkt" by simp
  then have "drop 240 ?m = [0, 53, 1, ty, 255] @ rest @ replicate (max sizeof_dhcps_msg (length ?pkt) - length ?pkt) 0"
    using assms(3) by (simp add: message_buffer_def)
  from byte_at_prefix [OF this, of 0] byte_at_prefix [OF this, of 1]
  have "byte_at ?m 240 = Some 0" "byte_at ?m 241 = Some 53" by simp_all
  moreover have "parse_loop ?m (int (length ?pkt)) 295 0 DHCPS_STATE_IDLE = Some (0, DHCPS_STATE_IDLE)"
    using assms(2) by (subst parse_loop.simps) simp
  ultimately have "parse_loop ?m (int (length ?pkt)) 240 0 DHCPS_STATE_IDLE = Some (0, DHCPS_STATE_IDLE)"
    using long by (subst parse_loop.simps) (simp add: dhcp_numbers Let_def)
  then have "parse_msg ?m (tot_len p) =
      Some (if take 4 (drop 236 ?m) = le_bytes magic_cookie then DHCPS_STATE_IDLE else 0)"
    unfolding parse_msg_eq [OF tl small] using state_of_type_ucast [of 0 DHCPS_STATE_IDLE] by simp
  then obtain st where st: "parse_msg ?m (tot_len p) = Some st" "st \<noteq> DHCPS_STATE_OFFER"
    "st \<noteq> DHCPS_STATE_ACK" "st \<noteq> DHCPS_STATE_NAK"
    by (rule that) (simp_all add: dhcp_numbers)
  then have "react L ?m ml st s' = Some s'" for ml s' by (simp add: react_def)
  then have "\<exists>s'. handle_dhcp L (Some p) s = Some s' \<and> datagrams (calls s') = datagrams (calls s)"
    unfolding handle_dhcp_eq [OF assms(1) small HOL.refl, of L s] by (simp add: st(1) call_def Let_def)
  moreover have "rfc_options (drop 240 ?pkt) = Some [(53, [ty])]" unfolding assms(3) by simp
  ultimately show ?thesis by blast
qed

theorem padding_hides_message_type_witness:
  "rfc_options (drop 240 (packet (demo_packet [0, 53, 1, 1, 255]))) = Some [(53, [1])] \<and>
   (\<exists>s'. handle_dhcp demo_lwip (Some (demo_packet [0, 53, 1, 1, 255])) demo_server = Some s' \<and>
      datagrams (calls s') = datagrams (calls demo_server))"
  by (rule padding_hides_message_type [OF demo_packet_ok, where rest = "[]"]) (simp_all add: packet_demo)

end
