(* ===== verification/Itoa.thy ===== *)
theory Itoa
  imports Bytes
begin

text \<open>
  The conversions of \<open>itoa.c\<close>.  \<open>int\<close> and \<open>long\<close> have 32 bits.  The target of the text is null
  or some memory, given by its bytes; the functions return null (\<open>Some None\<close>) or the target
  with the text in it, and a write outside the target or outside the local array \<open>tmp\<close> is
  \<open>None\<close>.  The negation of the least \<open>long\<close> wraps around, as it does on the machine.
\<close>

section \<open>The conversions\<close>

definition digit_char :: "u32 \<Rightarrow> u8" where
  "digit_char i = (if i < 10 then ucast (i + 48) else ucast (i + 97 - 10))"

text \<open>The loop that writes the digits into \<open>tmp\<close>, the last digit first.\<close>

function digit_loop :: "u32 \<Rightarrow> u32 \<Rightarrow> u8 list \<Rightarrow> nat \<Rightarrow> (u8 list \<times> nat) option" where
  "digit_loop radix v tmp tp =
     (if v \<noteq> 0 \<or> tp = 0
      then (if tp < length tmp
            then digit_loop radix (v div radix) (tmp[tp := digit_char (v mod radix)]) (Suc tp)
            else None)
      else Some (tmp, tp))"
  by pat_completeness auto

termination
  by (relation "measure (\<lambda>(radix, v, tmp, tp). length tmp - tp)") auto

declare digit_loop.simps [simp del]

text \<open>\<open>while (tp > tmp) *sp++ = *--tp;\<close>\<close>

primrec copy_back :: "u8 list \<Rightarrow> nat \<Rightarrow> u8 list \<times> nat \<Rightarrow> (u8 list \<times> nat) option" where
  "copy_back tmp 0 sp = Some sp"
| "copy_back tmp (Suc tp) sp = do {
     b \<leftarrow> byte_at tmp tp;
     sp \<leftarrow> put b sp;
     copy_back tmp tp sp
   }"

text \<open>The array \<open>tmp\<close> of 33 characters; what is in it at first does not matter.\<close>

definition tmp_array :: "u8 list" where
  "tmp_array = replicate 33 0"

definition bad_radix :: "32 word \<Rightarrow> bool" where
  "bad_radix radix \<longleftrightarrow> sint radix > 36 \<or> sint radix \<le> 1"

definition ltoa :: "32 word \<Rightarrow> u8 list option \<Rightarrow> 32 word \<Rightarrow> u8 list option option" where
  "ltoa value string radix =
     (case string of None \<Rightarrow> Some None
      | Some mem \<Rightarrow>
          if bad_radix radix then Some None
          else do {
            let sign = (sint radix = 10 \<and> sint value < 0);
            let v = (if sign then - value else value);
            (tmp, tp) \<leftarrow> digit_loop radix v tmp_array 0;
            sp \<leftarrow> (if sign then put 45 (mem, 0) else Some (mem, 0));
            sp \<leftarrow> copy_back tmp tp sp;
            (mem, _) \<leftarrow> put 0 sp;
            Some (Some mem)
          })"

definition ultoa :: "32 word \<Rightarrow> u8 list option \<Rightarrow> 32 word \<Rightarrow> u8 list option option" where
  "ultoa value string radix =
     (case string of None \<Rightarrow> Some None
      | Some mem \<Rightarrow>
          if bad_radix radix then Some None
          else do {
            (tmp, tp) \<leftarrow> digit_loop radix value tmp_array 0;
            sp \<leftarrow> copy_back tmp tp (mem, 0);
            (mem, _) \<leftarrow> put 0 sp;
            Some (Some mem)
          })"

definition itoa :: "32 word \<Rightarrow> u8 list option \<Rightarrow> 32 word \<Rightarrow> u8 list option option" where
  "itoa value string radix = ltoa value string radix"

definition utoa :: "32 word \<Rightarrow> u8 list option \<Rightarrow> 32 word \<Rightarrow> u8 list option option" where
  "utoa value string radix = ultoa value string radix"

section \<open>Reading numbers\<close>

text \<open>Digits up to 9 and small letters, and a minus sign in front.\<close>

definition digit_value :: "u8 \<Rightarrow> nat option" where
  "digit_value c =
     (if 48 \<le> unat c \<and> unat c \<le> 57 then Some (unat c - 48)
      else if 97 \<le> unat c \<and> unat c \<le> 122 then Some (unat c - 87) else None)"

fun read_digits :: "nat \<Rightarrow> nat \<Rightarrow> u8 list \<Rightarrow> nat option" where
  "read_digits r acc [] = Some acc"
| "read_digits r acc (c # cs) =
     (case digit_value c of None \<Rightarrow> None
      | Some d \<Rightarrow> if d < r then read_digits r (acc * r + d) cs else None)"

definition read_number :: "nat \<Rightarrow> u8 list \<Rightarrow> int option" where
  "read_number r cs =
     (if cs = [] \<or> cs = [45] then None
      else if hd cs = 45 then map_option (\<lambda>n. - int n) (read_digits r 0 (tl cs))
      else map_option int (read_digits r 0 cs))"

definition c_string :: "u8 list \<Rightarrow> u8 list" where
  "c_string mem = takeWhile (\<lambda>c. c \<noteq> 0) mem"

section \<open>Digits\<close>

text \<open>The digits of a number, the last first; none for zero.\<close>

fun rdigits :: "nat \<Rightarrow> nat \<Rightarrow> nat list" where
  "rdigits r v = (if v = 0 \<or> r < 2 then [] else v mod r # rdigits r (v div r))"

declare rdigits.simps [simp del]

definition text_of :: "nat \<Rightarrow> nat \<Rightarrow> u8 list" where
  "text_of r v = map (\<lambda>d. digit_char (of_nat d)) (if v = 0 then [0] else rev (rdigits r v))"

lemma rdigits_less: "d \<in> set (rdigits r v) \<Longrightarrow> d < r"
  by (induction r v rule: rdigits.induct) (subst (asm) (2) rdigits.simps, auto split: if_splits)

lemma length_rdigits: "v < b ^ n \<Longrightarrow> b \<le> r \<Longrightarrow> length (rdigits r v) \<le> n"
proof (induction n arbitrary: v)
  case 0
  then show ?case by (simp add: rdigits.simps)
next
  case (Suc n)
  show ?case
  proof (cases "v = 0 \<or> r < 2")
    case True
    then show ?thesis by (subst rdigits.simps) simp
  next
    case False
    then have "0 < b" using Suc.prems(1) by (cases b) auto
    then have "v div r \<le> v div b" using Suc.prems(2) by (intro div_le_mono2) simp_all
    also have "v div b < b ^ n" using Suc.prems(1) by (intro less_mult_imp_div_less) (simp add: mult.commute)
    finally have "length (rdigits r (v div r)) \<le> n" using Suc.prems(2) by (intro Suc.IH)
    with False show ?thesis by (subst rdigits.simps) simp
  qed
qed

lemma digit_value_char: "d < 36 \<Longrightarrow> digit_value (digit_char (of_nat d)) = Some d"
proof -
  assume d: "d < 36"
  show ?thesis
  proof (cases "d < 10")
    case True
    then have "unat (digit_char (of_nat d)) = d + 48"
      by (simp add: digit_char_def word_less_nat_alt unat_of_nat unsigned_ucast_eq unat_word_ariths
          take_bit_eq_mod)
    then show ?thesis using True by (simp add: digit_value_def)
  next
    case False
    then have "unat (digit_char (of_nat d)) = d + 87"
      using d by (simp add: digit_char_def word_less_nat_alt unat_of_nat unsigned_ucast_eq unat_word_ariths
          take_bit_eq_mod)
    then show ?thesis using False d by (simp add: digit_value_def)
  qed
qed

lemma read_digits_append:
  "read_digits r acc (xs @ ys) = read_digits r acc xs \<bind> (\<lambda>acc. read_digits r acc ys)"
  by (induction xs arbitrary: acc) (auto split: option.splits)

lemma read_digits_rdigits:
  "2 \<le> r \<Longrightarrow> r \<le> 36 \<Longrightarrow>
   read_digits r 0 (map (\<lambda>d. digit_char (of_nat d)) (rev (rdigits r v))) = Some v"
proof (induction r v rule: rdigits.induct)
  case (1 r v)
  show ?case
  proof (cases "v = 0")
    case True
    then show ?thesis by (simp add: rdigits.simps)
  next
    case False
    have "v mod r < r" "v mod r < 36" using "1.prems" by (simp_all add: order_less_le_trans [of _ r 36])
    with False "1.IH" "1.prems" show ?thesis
      by (subst rdigits.simps) (simp add: read_digits_append digit_value_char)
  qed
qed

lemma unat_div_mod_u32:
  "unat (v div r :: u32) = unat v div unat r" "unat (v mod r :: u32) = unat v mod unat r"
  by (simp_all add: unat_div unat_mod)

lemma digit_char_unat: "digit_char i = digit_char (of_nat (unat i))"
  by simp

lemma digit_loop_more:
  "0 < tp \<Longrightarrow> tp + length (rdigits (unat r) (unat v)) \<le> length tmp \<Longrightarrow> 2 \<le> unat r \<Longrightarrow>
   digit_loop r v tmp tp =
     Some (take tp tmp @ map (\<lambda>d. digit_char (of_nat d)) (rdigits (unat r) (unat v)) @
           drop (tp + length (rdigits (unat r) (unat v))) tmp,
           tp + length (rdigits (unat r) (unat v)))"
proof (induction r v tmp tp rule: digit_loop.induct)
  case (1 r v tmp tp)
  let ?ds = "rdigits (unat r) (unat v)" and ?rs = "rdigits (unat r) (unat (v div r))"
  show ?case
  proof (cases "v = 0")
    case True
    then show ?thesis using "1.prems" by (subst digit_loop.simps) (simp add: rdigits.simps)
  next
    case False
    then have ds: "?ds = unat v mod unat r # ?rs"
      using "1.prems"(3) by (subst rdigits.simps) (simp add: unat_div_mod_u32 unat_eq_zero)
    have c: "digit_char (v mod r) = digit_char (of_nat (unat v mod unat r))"
      by (subst digit_char_unat) (simp add: unat_div_mod_u32)
    have t: "tp < length tmp" using "1.prems"(2) ds by simp
    then have "take (Suc tp) (tmp[tp := digit_char (v mod r)]) = take tp tmp @ [digit_char (v mod r)]"
      by (simp add: take_Suc_conv_app_nth)
    moreover have "digit_loop r (v div r) (tmp[tp := digit_char (v mod r)]) (Suc tp) =
      Some (take (Suc tp) (tmp[tp := digit_char (v mod r)]) @ map (\<lambda>d. digit_char (of_nat d)) ?rs @
            drop (Suc tp + length ?rs) (tmp[tp := digit_char (v mod r)]), Suc tp + length ?rs)"
      using False t "1.prems" ds by (intro "1.IH") simp_all
    ultimately show ?thesis
      using False t ds c by (subst digit_loop.simps) simp
  qed
qed

lemma length_text_of: "v < b ^ n \<Longrightarrow> b \<le> r \<Longrightarrow> 0 < n \<Longrightarrow> length (text_of r v) \<le> n"
  using length_rdigits [of v b n r] by (simp add: text_of_def)

lemma digit_loop_text:
  assumes "2 \<le> unat r"
  shows "\<exists>rest. digit_loop r v tmp_array 0 =
           Some (rev (text_of (unat r) (unat v)) @ rest, length (text_of (unat r) (unat v)))"
proof -
  let ?t = "tmp_array[0 := digit_char (v mod r)]"
  have len: "length (rdigits (unat r) (unat v)) \<le> 32"
    using unsigned_less [of v, where ?'a = nat] assms by (intro length_rdigits [of _ 2]) simp_all
  have c: "digit_char (v mod r) = digit_char (of_nat (unat v mod unat r))"
    by (subst digit_char_unat) (simp add: unat_div_mod_u32)
  have t: "length ?t = 33" "take 1 ?t = [digit_char (v mod r)]"
    by (simp_all add: tmp_array_def take_Suc_conv_app_nth)
  have ds: "rdigits (unat r) (unat v) =
      (if v = 0 then [] else unat v mod unat r # rdigits (unat r) (unat (v div r)))"
    using assms by (subst rdigits.simps) (auto simp: unat_div_mod_u32 unat_eq_zero)
  have z: "rdigits (unat r) 0 = []" by (simp add: rdigits.simps)
  then have more: "digit_loop r (v div r) ?t 1 =
      Some (take 1 ?t @ map (\<lambda>d. digit_char (of_nat d)) (rdigits (unat r) (unat (v div r))) @
            drop (1 + length (rdigits (unat r) (unat (v div r)))) ?t,
            1 + length (rdigits (unat r) (unat (v div r))))"
    using assms len ds by (intro digit_loop_more) (auto simp: t(1) tmp_array_def split: if_splits)
  have "digit_loop r v tmp_array 0 = digit_loop r (v div r) ?t 1"
    by (subst digit_loop.simps) (simp add: tmp_array_def)
  moreover have chars: "rev (text_of (unat r) (unat v)) =
      [digit_char (v mod r)] @ map (\<lambda>d. digit_char (of_nat d)) (rdigits (unat r) (unat (v div r)))"
    using ds c z by (simp add: text_of_def rev_map [symmetric] unat_eq_zero)
  moreover have "length (text_of (unat r) (unat v)) = 1 + length (rdigits (unat r) (unat (v div r)))"
    using arg_cong [OF chars, of length] by simp
  ultimately show ?thesis using more unfolding t(2) by simp
qed

lemma copy_back_eq:
  "n \<le> length tmp \<Longrightarrow> copy_back tmp n sp = puts (rev (take n tmp)) sp"
  by (induction n arbitrary: sp) (simp_all add: byte_at_def take_Suc_conv_app_nth)

lemma copy_back_text:
  "copy_back (rev t @ rest) (length t) sp = puts t sp"
  by (simp add: copy_back_eq)

lemma good_radix: "2 \<le> sint (r :: 32 word) \<Longrightarrow> int (unat r) = sint r"
  using sint_less [of r] by (simp add: uint_sint take_bit_int_eq_self)

lemma radix_10: "r = 10 \<longleftrightarrow> sint (r :: 32 word) = 10"
proof
  assume "sint r = 10"
  then have "uint r = uint (10 :: 32 word)" by (simp add: uint_sint)
  then show "r = 10" by (rule word_uint_eq_iff [THEN iffD2])
qed simp

lemma uint_neg_sint: "sint (w :: 32 word) < 0 \<Longrightarrow> uint (- w) = - sint w"
proof -
  assume "sint w < 0"
  moreover have "- 2147483648 \<le> sint w" using sint_greater_eq [of w] by simp
  ultimately have "take_bit 32 (- sint w) = - sint w" by (simp add: take_bit_int_eq_self)
  moreover have "- w = word_of_int (- sint w)" by simp
  ultimately show ?thesis by (simp only: uint_word_of_int_eq) simp
qed

section \<open>What is written\<close>

text \<open>The text of a number with its sign, as \<open>ltoa\<close> and \<open>ultoa\<close> write it.\<close>

lemma ultoa_eq:
  assumes "2 \<le> sint radix" and "sint radix \<le> 36"
    and "length (text_of (unat radix) (unat value)) < length mem"
  shows "ultoa value (Some mem) radix =
           Some (Some (text_of (unat radix) (unat value) @ 0 #
             drop (Suc (length (text_of (unat radix) (unat value)))) mem))"
proof -
  let ?t = "text_of (unat radix) (unat value)"
  obtain rest where "digit_loop radix value tmp_array 0 = Some (rev ?t @ rest, length ?t)"
    using digit_loop_text [of radix "value"] good_radix [OF assms(1)] assms(1) by auto
  then have "ultoa value (Some mem) radix =
      puts ?t (mem, 0) \<bind> (\<lambda>sp. put 0 sp \<bind> (\<lambda>(mem, _). Some (Some mem)))"
    using assms(1,2) by (simp add: ultoa_def bad_radix_def copy_back_text)
  also have "puts ?t (mem, 0) = Some (?t @ drop (length ?t) mem, length ?t)"
    using puts_eq [of 0 ?t mem] assms(3) by simp
  finally show ?thesis
    using assms(3) by (simp add: put_def list_update_append Cons_nth_drop_Suc [symmetric])
qed

lemma ltoa_eq:
  assumes "2 \<le> sint radix" and "sint radix \<le> 36"
    and sign: "sign \<longleftrightarrow> sint radix = 10 \<and> sint value < 0"
    and t: "t = (if sign then [45] else []) @ text_of (unat radix) (unat (if sign then - value else value))"
    and "length t < length mem"
  shows "ltoa value (Some mem) radix = Some (Some (t @ 0 # drop (Suc (length t)) mem))"
proof -
  let ?v = "if sign then - value else value"
  let ?t = "text_of (unat radix) (unat ?v)"
  obtain rest where "digit_loop radix ?v tmp_array 0 = Some (rev ?t @ rest, length ?t)"
    using digit_loop_text [of radix ?v] good_radix [OF assms(1)] assms(1) by auto
  then have "ltoa value (Some mem) radix =
      puts (if sign then [45] else []) (mem, 0) \<bind> puts ?t \<bind> (\<lambda>sp. put 0 sp \<bind> (\<lambda>(mem, _). Some (Some mem)))"
    using assms(1,2) sign by (simp add: ltoa_def bad_radix_def copy_back_text Let_def)
  also have "\<dots> = puts t (mem, 0) \<bind> (\<lambda>sp. put 0 sp \<bind> (\<lambda>(mem, _). Some (Some mem)))"
    by (simp add: t puts_append)
  also have "puts t (mem, 0) = Some (t @ drop (length t) mem, length t)"
    using puts_eq [of 0 t mem] assms(5) by simp
  finally show ?thesis
    using assms(5) by (simp add: put_def list_update_append Cons_nth_drop_Suc [symmetric])
qed

lemma text_of_chars:
  assumes "2 \<le> r" and "r \<le> 36"
  shows "text_of r v \<noteq> []" and "c \<in> set (text_of r v) \<Longrightarrow> digit_value c \<noteq> None"
    and "read_digits r 0 (text_of r v) = Some v"
proof -
  have "rdigits r v \<noteq> []" if "v \<noteq> 0"
    using that assms(1) by (subst rdigits.simps) simp
  then show "text_of r v \<noteq> []" by (simp add: text_of_def)
  show "digit_value c \<noteq> None" if c: "c \<in> set (text_of r v)"
  proof -
    obtain d where d: "d \<in> set (if v = 0 then [0] else rev (rdigits r v))" "c = digit_char (of_nat d)"
      using c unfolding text_of_def by auto
    then have "d < r" using assms(1) rdigits_less [of d r v] by (simp split: if_splits)
    then have "d < 36" using assms(2) by simp
    with d(2) show ?thesis using digit_value_char by simp
  qed
  show "read_digits r 0 (text_of r v) = Some v"
    using assms digit_value_char [of 0] read_digits_rdigits [of r v] by (simp add: text_of_def)
qed

lemma c_string_text: "0 \<notin> set t \<Longrightarrow> c_string (t @ 0 # rest) = t"
  unfolding c_string_def by (rule takeWhile_neq_append)

lemma read_text:
  assumes "2 \<le> r" and "r \<le> 36"
  shows "0 \<notin> set (text_of r v)" and "read_number r (text_of r v) = Some (int v)"
    and "read_number r (45 # text_of r v) = Some (- int v)"
proof -
  note tc = text_of_chars [OF assms, where v = v]
  have "digit_value 0 = None" "digit_value 45 = None" by (simp_all add: digit_value_def)
  with tc(2) have "0 \<notin> set (text_of r v)" and "45 \<notin> set (text_of r v)" by blast+
  moreover from this(2) have "hd (text_of r v) \<noteq> 45" using hd_in_set [OF tc(1)] by metis
  ultimately show "0 \<notin> set (text_of r v)" and "read_number r (text_of r v) = Some (int v)"
    and "read_number r (45 # text_of r v) = Some (- int v)"
    using tc(1,3) by (auto simp: read_number_def)
qed

lemma tail_kept:
  assumes "length t \<le> 32" and "33 \<le> length mem"
  shows "length (t @ 0 # drop (Suc (length t)) mem) = length mem"
    and "drop 33 (t @ 0 # drop (Suc (length t)) mem) = drop 33 mem"
proof -
  have "33 - length t = Suc (32 - length t)" using assms(1) by simp
  then show "drop 33 (t @ 0 # drop (Suc (length t)) mem) = drop 33 mem"
    using assms(1) by simp
qed (use assms in simp)

text \<open>C36: With room for 33 bytes, \<open>itoa\<close> and \<open>utoa\<close> write a text, ended by a zero byte within
  the first 33 bytes and without leaving \<open>tmp\<close>, from which the number can be read again in the
  same radix: \<open>utoa\<close> the unsigned number, \<open>itoa\<close> the signed number in radix 10, the least one
  included, and the bits as an unsigned number in every other radix.\<close>

theorem itoa_roundtrip:
  assumes "2 \<le> sint radix" and "sint radix \<le> 36" and "33 \<le> length mem"
  shows "\<exists>m n. itoa value (Some mem) radix = Some (Some m) \<and> utoa value (Some mem) radix = Some (Some n) \<and>
           length m = length mem \<and> drop 33 m = drop 33 mem \<and>
           length n = length mem \<and> drop 33 n = drop 33 mem \<and>
           read_number (unat radix) (c_string m) =
             Some (if radix = 10 then sint value else int (unat value)) \<and>
           read_number (unat radix) (c_string n) = Some (int (unat value))"
proof -
  define sign where "sign \<longleftrightarrow> sint radix = 10 \<and> sint value < 0"
  define v where "v = (if sign then - value else value)"
  let ?r = "unat radix"
  define t where "t = (if sign then [45] else []) @ text_of ?r (unat v)"
  have r: "2 \<le> ?r" "?r \<le> 36" using good_radix [OF assms(1)] assms(1,2) by linarith+
  have less: "unat w < 2 ^ 32" for w :: u32 using unsigned_less [of w, where ?'a = nat] by simp
  have u: "length (text_of ?r (unat w)) \<le> 32" for w :: u32
    using less [of w] r by (intro length_text_of [of _ 2]) simp_all
  have ten: "?r = 10" if sign
    using that good_radix [OF assms(1)] unfolding sign_def by linarith
  have len: "length t \<le> 32"
  proof (cases sign)
    case True
    have "length (text_of ?r (unat v)) \<le> 10"
      using less [of v] ten [OF True] by (intro length_text_of [of _ 10]) simp_all
    then show ?thesis by (simp add: t_def)
  next
    case False
    then show ?thesis using u by (simp add: t_def)
  qed
  have i: "itoa value (Some mem) radix = Some (Some (t @ 0 # drop (Suc (length t)) mem))"
    unfolding itoa_def using assms len
    by (intro ltoa_eq [OF _ _ sign_def]) (simp_all add: t_def v_def)
  have n: "utoa value (Some mem) radix =
      Some (Some (text_of ?r (unat value) @ 0 # drop (Suc (length (text_of ?r (unat value)))) mem))"
    unfolding utoa_def using assms u [of "value"] by (intro ultoa_eq) simp_all
  have neg: "- int (unat (- value)) = sint value" if sign
    using that by (simp add: sign_def uint_neg_sint)
  have z: "0 \<notin> set t" using read_text(1) [OF r] by (simp add: t_def)
  have "read_number ?r t = Some (if radix = 10 then sint value else int (unat value))"
    using read_text [OF r, of "unat v"] neg ten sint_less [of "value"]
    by (cases sign) (auto simp: t_def v_def sign_def radix_10 uint_sint take_bit_int_eq_self)
  then show ?thesis
    using i n len u [of "value"] assms(3) z read_text [OF r, of "unat value"]
    by (simp add: c_string_text tail_kept [OF _ assms(3)] del: drop_append length_append)
qed

theorem itoa_roundtrip_witness:
  "\<exists>m n. itoa (- 2147483648) (Some (replicate 40 7)) 10 = Some (Some m) \<and>
     utoa (- 2147483648) (Some (replicate 40 7)) 10 = Some (Some n) \<and>
     read_number 10 (c_string m) = Some (- 2147483648) \<and> read_number 10 (c_string n) = Some 2147483648"
  using itoa_roundtrip [of 10 "replicate 40 7" "- 2147483648"] by auto

end
