(* ===== verification/Backtrace.thy ===== *)
theory Backtrace
  imports Bytes
begin

text \<open>
  The fault report of \<open>cm_backtrace.c\<close>, configured for a Cortex-M4 without an operating system
  and with the stack dump: what a fault handler prints, and the call stack it finds by going
  through the words of the stack.  Memory is a function from addresses to bytes; reading where
  there is none is \<open>None\<close>, as is a failed assertion, which stops the program, and a loop that
  does not end.  The system registers are values read when the handler runs.  What is printed
  is kept as a list of lines.
\<close>

section \<open>State\<close>

type_synonym memory = "u32 \<Rightarrow> u8 option"

definition load16 :: "memory \<Rightarrow> u32 \<Rightarrow> u16 option" where
  "load16 M a = do { b0 \<leftarrow> M a; b1 \<leftarrow> M (a + 1); Some (ucast b0 OR push_bit 8 (ucast b1)) }"

definition load32 :: "memory \<Rightarrow> u32 \<Rightarrow> u32 option" where
  "load32 M a = do { b0 \<leftarrow> M a; b1 \<leftarrow> M (a + 1); b2 \<leftarrow> M (a + 2); b3 \<leftarrow> M (a + 3);
                     Some (of_le_bytes [b0, b1, b2, b3]) }"

text \<open>The messages, and the lines they are printed in.\<close>

datatype print_info =
  PRINT_MAIN_STACK_CFG_ERROR | PRINT_FIRMWARE_INFO | PRINT_THREAD_STACK_INFO
| PRINT_THREAD_STACK_OVERFLOW | PRINT_MAIN_STACK_OVERFLOW | PRINT_CALL_STACK_INFO
| PRINT_CALL_STACK_ERR | PRINT_FAULT_ON_HANDLER | PRINT_REGS_TITLE | PRINT_HFSR_VECTBL
| PRINT_MFSR_IACCVIOL | PRINT_MFSR_DACCVIOL | PRINT_MFSR_MUNSTKERR | PRINT_MFSR_MSTKERR
| PRINT_MFSR_MLSPERR | PRINT_BFSR_IBUSERR | PRINT_BFSR_PRECISERR | PRINT_BFSR_IMPREISERR
| PRINT_BFSR_UNSTKERR | PRINT_BFSR_STKERR | PRINT_BFSR_LSPERR | PRINT_UFSR_UNDEFINSTR
| PRINT_UFSR_INVSTATE | PRINT_UFSR_INVPC | PRINT_UFSR_NOCP | PRINT_UFSR_UNALIGNED
| PRINT_UFSR_DIVBYZERO0 | PRINT_DFSR_HALTED | PRINT_DFSR_BKPT | PRINT_DFSR_DWTTRAP
| PRINT_DFSR_VCATCH | PRINT_DFSR_EXTERNAL | PRINT_MMAR | PRINT_BFAR

datatype line =
  Info print_info | Info_value print_info u32 | Info_text print_info "u8 list"
| Stack_word u32 u32 | Registers "u32 list" | Rule | Empty_line

record saved_regs =
  r0 :: u32
  r1 :: u32
  r2 :: u32
  r3 :: u32
  r12 :: u32
  lr :: u32
  pc :: u32
  psr :: u32

text \<open>The system control registers, in the width the code reads them.\<close>

record fault_regs =
  syshndctrl :: u32
  mfsr :: u8
  mmar :: u32
  bfsr :: u8
  bfar :: u32
  ufsr :: u16
  hfsr :: u32
  dfsr :: u16
  afsr :: u16

text \<open>The symbols of the linker script.\<close>

record image =
  HeapLimit :: u32
  StackTop :: u32
  ROM_Start :: u32
  ROM_End :: u32

record cmb =
  main_stack_start_addr :: u32
  main_stack_size :: u32
  code_start_addr :: u32
  code_size :: u32
  init_ok :: bool
  on_fault :: bool
  stack_is_overflow :: bool
  on_thread_before_fault :: bool
  statck_has_fpu_regs :: bool
  saved :: saved_regs
  fregs :: fault_regs
  call_stack_info :: "u8 list"
  printed :: "line list"

definition CMB_CALL_STACK_MAX_DEPTH :: nat where
  "CMB_CALL_STACK_MAX_DEPTH = 16"

definition cmb_println :: "line \<Rightarrow> cmb \<Rightarrow> cmb" where
  "cmb_println l s = s\<lparr>printed := printed s @ [l]\<rparr>"

definition CMB_ASSERT :: "bool \<Rightarrow> unit option" where
  "CMB_ASSERT b = (if b then Some () else None)"

definition cmb_reset :: cmb where
  "cmb_reset =
     \<lparr>main_stack_start_addr = 0, main_stack_size = 0, code_start_addr = 0, code_size = 0,
      init_ok = False, on_fault = False, stack_is_overflow = False,
      on_thread_before_fault = False, statck_has_fpu_regs = False,
      saved = \<lparr>r0 = 0, r1 = 0, r2 = 0, r3 = 0, r12 = 0, lr = 0, pc = 0, psr = 0\<rparr>,
      fregs = \<lparr>syshndctrl = 0, mfsr = 0, mmar = 0, bfsr = 0, bfar = 0, ufsr = 0, hfsr = 0,
               dfsr = 0, afsr = 0\<rparr>,
      call_stack_info = replicate (CMB_CALL_STACK_MAX_DEPTH * (8 + 1)) 0, printed = []\<rparr>"

section \<open>Operations\<close>

definition cm_backtrace_init :: "image \<Rightarrow> cmb \<Rightarrow> cmb" where
  "cm_backtrace_init im s =
     (let s = s\<lparr>main_stack_start_addr := HeapLimit im,
                main_stack_size := StackTop im - HeapLimit im,
                code_start_addr := ROM_Start im,
                code_size := ROM_End im - ROM_Start im\<rparr>
      in if main_stack_size s = 0 then cmb_println (Info PRINT_MAIN_STACK_CFG_ERROR) s
         else s\<lparr>init_ok := True\<rparr>)"

definition cm_backtrace_firmware_info :: "cmb \<Rightarrow> cmb" where
  "cm_backtrace_firmware_info = cmb_println (Info PRINT_FIRMWARE_INFO)"

text \<open>The stack pointer moved to the nearer end of the stack if it is outside of it.\<close>

definition clamp_sp :: "u32 \<Rightarrow> u32 \<Rightarrow> u32 \<Rightarrow> u32" where
  "clamp_sp start sz sp =
     (if sp < start then start else if sp > start + sz then start + sz else sp)"

text \<open>The loop of \<open>dump_stack\<close>, which prints the words from \<open>p\<close> up to the end \<open>e\<close> of the stack.\<close>

partial_function (option) dump_loop :: "memory \<Rightarrow> u32 \<Rightarrow> u32 \<Rightarrow> cmb \<Rightarrow> cmb option" where
  "dump_loop M e p s =
     (if p < e
      then (case load32 M p of None \<Rightarrow> None
            | Some w \<Rightarrow> dump_loop M e (p + 4) (cmb_println (Stack_word p w) s))
      else Some s)"

definition dump_stack :: "memory \<Rightarrow> u32 \<Rightarrow> u32 \<Rightarrow> u32 \<Rightarrow> cmb \<Rightarrow> cmb option" where
  "dump_stack M start sz sp s = do {
     let s = (if stack_is_overflow s
              then cmb_println (Info_value (if on_thread_before_fault s then PRINT_THREAD_STACK_OVERFLOW
                                            else PRINT_MAIN_STACK_OVERFLOW) sp) s
              else s);
     let sp = (if stack_is_overflow s then clamp_sp start sz sp else sp);
     let s = cmb_println (Info PRINT_THREAD_STACK_INFO) s;
     s \<leftarrow> dump_loop M (start + sz) sp s;
     Some (cmb_println Rule s)
   }"

definition disassembly_ins_is_bl_blx :: "memory \<Rightarrow> u32 \<Rightarrow> bool option" where
  "disassembly_ins_is_bl_blx M addr = do {
     ins1 \<leftarrow> load16 M addr;
     ins2 \<leftarrow> load16 M (addr + 2);
     Some (if ins2 AND 0xF800 = 0xF800 \<and> ins1 AND 0xF800 = 0xF000 then True
           else if ins2 AND 0xFF00 = 0x4700 then True
           else False)
   }"

text \<open>
  The loop of \<open>cm_backtrace_call_stack\<close>: the stack pointer, and the entries \<open>buf\<close> written
  so far, whose number is \<open>depth\<close>; \<open>sz\<close> entries fit into the buffer.
\<close>

partial_function (option) call_stack_loop ::
  "memory \<Rightarrow> cmb \<Rightarrow> nat \<Rightarrow> bool \<Rightarrow> u32 \<Rightarrow> u32 \<Rightarrow> u32 list \<Rightarrow> u32 list option" where
  "call_stack_loop M s sz lr_valid e sp buf =
     (if sp < e
      then (case load32 M sp of None \<Rightarrow> None
            | Some w \<Rightarrow>
                if (w - 4) mod 2 = 0 then call_stack_loop M s sz lr_valid e (sp + 4) buf
                else if w - 1 \<ge> code_start_addr s + 4 \<and> w - 1 \<le> code_start_addr s + code_size s \<and>
                        length buf < CMB_CALL_STACK_MAX_DEPTH
                then (case disassembly_ins_is_bl_blx M (w - 1 - 4) of None \<Rightarrow> None
                      | Some bl \<Rightarrow>
                          if bl \<and> length buf < sz
                          then (if length buf = 2 \<and> lr_valid \<and> w - 1 = buf ! 1
                                then call_stack_loop M s sz lr_valid e (sp + 4) buf
                                else call_stack_loop M s sz lr_valid e (sp + 4) (buf @ [w - 1]))
                          else call_stack_loop M s sz lr_valid e (sp + 4) buf)
                else call_stack_loop M s sz lr_valid e (sp + 4) buf)
      else Some buf)"

text \<open>\<open>buffer[depth++] = v\<close>\<close>

definition push_entry :: "nat \<Rightarrow> u32 \<Rightarrow> u32 list \<Rightarrow> u32 list option" where
  "push_entry sz v buf = (if length buf < sz then Some (buf @ [v]) else None)"

definition cm_backtrace_call_stack :: "memory \<Rightarrow> nat \<Rightarrow> u32 \<Rightarrow> cmb \<Rightarrow> u32 list option" where
  "cm_backtrace_call_stack M sz sp s = do {
     (buf, lr_valid) \<leftarrow>
       (if on_fault s \<and> \<not> stack_is_overflow s
        then do {
          buf \<leftarrow> push_entry sz (pc (saved s)) [];
          let p = lr (saved s) - 1;
          if p \<ge> code_start_addr s \<and> p \<le> code_start_addr s + code_size s \<and>
             length buf < CMB_CALL_STACK_MAX_DEPTH \<and> length buf < sz
          then do { buf \<leftarrow> push_entry sz p buf; Some (buf, True) }
          else Some (buf, False)
        }
        else Some ([], False));
     let start = main_stack_start_addr s;
     let sp = (if stack_is_overflow s then clamp_sp start (main_stack_size s) sp else sp);
     call_stack_loop M s sz lr_valid (start + main_stack_size s) sp buf
   }"

text \<open>\<open>sprintf\<close> with \<open>%08lx\<close>: eight hexadecimal digits and a zero byte.\<close>

definition hex_digit :: "u32 \<Rightarrow> u8" where
  "hex_digit d = (if d < 10 then ucast d + 48 else ucast d + 87)"

definition hex8 :: "u32 \<Rightarrow> u8 list" where
  "hex8 w = map (\<lambda>i. hex_digit (drop_bit (4 * i) w AND 15)) [7, 6, 5, 4, 3, 2, 1, 0]"

fun print_entries :: "u32 list \<Rightarrow> nat \<Rightarrow> u8 list \<Rightarrow> u8 list option" where
  "print_entries [] i info = Some info"
| "print_entries (v # vs) i info = do {
     info \<leftarrow> store_at (i * (8 + 1)) (hex8 v @ [0]) info;
     info \<leftarrow> store_at (i * (8 + 1) + 8) [32] info;
     print_entries vs (Suc i) info
   }"

definition print_call_stack :: "memory \<Rightarrow> u32 \<Rightarrow> cmb \<Rightarrow> cmb option" where
  "print_call_stack M sp s = do {
     buf \<leftarrow> cm_backtrace_call_stack M CMB_CALL_STACK_MAX_DEPTH sp s;
     info \<leftarrow> print_entries buf 0 (call_stack_info s);
     if buf \<noteq> []
     then do {
       info \<leftarrow> store_at (length buf * (8 + 1) - 1) [0] info;
       Some (cmb_println (Info_text PRINT_CALL_STACK_INFO (takeWhile (\<lambda>c. c \<noteq> 0) info))
              (s\<lparr>call_stack_info := info\<rparr>))
     }
     else Some (cmb_println (Info PRINT_CALL_STACK_ERR) (s\<lparr>call_stack_info := info\<rparr>))
   }"

definition cm_backtrace_assert :: "memory \<Rightarrow> u32 \<Rightarrow> cmb \<Rightarrow> cmb option" where
  "cm_backtrace_assert M sp s = do {
     CMB_ASSERT (init_ok s);
     let s = cm_backtrace_firmware_info (cmb_println Empty_line s);
     s \<leftarrow> dump_stack M (main_stack_start_addr s) (main_stack_size s) sp s;
     print_call_stack M sp s
   }"

definition print_if :: "bool \<Rightarrow> line \<Rightarrow> cmb \<Rightarrow> cmb" where
  "print_if b l s = (if b then cmb_println l s else s)"

text \<open>The parts of \<open>fault_diagnosis\<close> for the four kinds of faults.\<close>

definition memory_diagnosis :: "fault_regs \<Rightarrow> cmb \<Rightarrow> cmb" where
  "memory_diagnosis r s =
     (if mfsr r \<noteq> 0
      then let s = print_if (bit (mfsr r) 0) (Info PRINT_MFSR_IACCVIOL) s;
               s = print_if (bit (mfsr r) 1) (Info PRINT_MFSR_DACCVIOL) s;
               s = print_if (bit (mfsr r) 3) (Info PRINT_MFSR_MUNSTKERR) s;
               s = print_if (bit (mfsr r) 4) (Info PRINT_MFSR_MSTKERR) s;
               s = print_if (bit (mfsr r) 5) (Info PRINT_MFSR_MLSPERR) s
           in if bit (mfsr r) 7
              then print_if (bit (mfsr r) 0 \<or> bit (mfsr r) 1) (Info_value PRINT_MMAR (mmar r)) s
              else s
      else s)"

definition bus_diagnosis :: "fault_regs \<Rightarrow> cmb \<Rightarrow> cmb" where
  "bus_diagnosis r s =
     (if bfsr r \<noteq> 0
      then let s = print_if (bit (bfsr r) 0) (Info PRINT_BFSR_IBUSERR) s;
               s = print_if (bit (bfsr r) 1) (Info PRINT_BFSR_PRECISERR) s;
               s = print_if (bit (bfsr r) 2) (Info PRINT_BFSR_IMPREISERR) s;
               s = print_if (bit (bfsr r) 3) (Info PRINT_BFSR_UNSTKERR) s;
               s = print_if (bit (bfsr r) 4) (Info PRINT_BFSR_STKERR) s;
               s = print_if (bit (bfsr r) 5) (Info PRINT_BFSR_LSPERR) s
           in if bit (bfsr r) 7
              then print_if (bit (bfsr r) 1) (Info_value PRINT_BFAR (bfar r)) s
              else s
      else s)"

definition usage_diagnosis :: "fault_regs \<Rightarrow> cmb \<Rightarrow> cmb" where
  "usage_diagnosis r s =
     (if ufsr r \<noteq> 0
      then let s = print_if (bit (ufsr r) 0) (Info PRINT_UFSR_UNDEFINSTR) s;
               s = print_if (bit (ufsr r) 1) (Info PRINT_UFSR_INVSTATE) s;
               s = print_if (bit (ufsr r) 2) (Info PRINT_UFSR_INVPC) s;
               s = print_if (bit (ufsr r) 3) (Info PRINT_UFSR_NOCP) s;
               s = print_if (bit (ufsr r) 8) (Info PRINT_UFSR_UNALIGNED) s
           in print_if (bit (ufsr r) 9) (Info PRINT_UFSR_DIVBYZERO0) s
      else s)"

definition debug_diagnosis :: "fault_regs \<Rightarrow> cmb \<Rightarrow> cmb" where
  "debug_diagnosis r s =
     (if dfsr r \<noteq> 0
      then let s = print_if (bit (dfsr r) 0) (Info PRINT_DFSR_HALTED) s;
               s = print_if (bit (dfsr r) 1) (Info PRINT_DFSR_BKPT) s;
               s = print_if (bit (dfsr r) 2) (Info PRINT_DFSR_DWTTRAP) s;
               s = print_if (bit (dfsr r) 3) (Info PRINT_DFSR_VCATCH) s
           in print_if (bit (dfsr r) 4) (Info PRINT_DFSR_EXTERNAL) s
      else s)"

definition fault_diagnosis :: "cmb \<Rightarrow> cmb" where
  "fault_diagnosis s =
     (let r = fregs s;
          s = print_if (bit (hfsr r) 1) (Info PRINT_HFSR_VECTBL) s;
          s = (if bit (hfsr r) 30 then usage_diagnosis r (bus_diagnosis r (memory_diagnosis r s)) else s)
      in if bit (hfsr r) 31 then debug_diagnosis r s else s)"

definition statck_del_fpu_regs :: "u32 \<Rightarrow> u32 \<Rightarrow> cmb \<Rightarrow> u32 \<times> cmb" where
  "statck_del_fpu_regs fault_handler_lr sp s =
     (let fpu = (fault_handler_lr AND push_bit 4 1 = 0)
      in (if fpu then sp + 4 * 18 else sp, s\<lparr>statck_has_fpu_regs := fpu\<rparr>))"

text \<open>The registers that the processor saved at \<open>a\<close>.\<close>

definition load_saved :: "memory \<Rightarrow> u32 \<Rightarrow> saved_regs option" where
  "load_saved M a = do {
     w0 \<leftarrow> load32 M a; w1 \<leftarrow> load32 M (a + 4); w2 \<leftarrow> load32 M (a + 8); w3 \<leftarrow> load32 M (a + 12);
     w4 \<leftarrow> load32 M (a + 16); w5 \<leftarrow> load32 M (a + 20); w6 \<leftarrow> load32 M (a + 24); w7 \<leftarrow> load32 M (a + 28);
     Some \<lparr>r0 = w0, r1 = w1, r2 = w2, r3 = w3, r12 = w4, lr = w5, pc = w6, psr = w7\<rparr>
   }"

definition cm_backtrace_fault :: "memory \<Rightarrow> fault_regs \<Rightarrow> u32 \<Rightarrow> u32 \<Rightarrow> cmb \<Rightarrow> cmb option" where
  "cm_backtrace_fault M hw fault_handler_lr fault_handler_sp s = do {
     let start = main_stack_start_addr s;
     let sz = main_stack_size s;
     CMB_ASSERT (init_ok s);
     CMB_ASSERT (\<not> on_fault s);
     let s = s\<lparr>on_fault := True\<rparr>;
     let s = cm_backtrace_firmware_info (cmb_println Empty_line s);
     let s = cmb_println (Info PRINT_FAULT_ON_HANDLER) s;
     let sp = fault_handler_sp + 4 * 8;
     let (sp, s) = statck_del_fpu_regs fault_handler_lr sp s;
     let s = (if sp < start \<or> sp > start + sz then s\<lparr>stack_is_overflow := True\<rparr> else s);
     s \<leftarrow> dump_stack M start sz sp s;
     s \<leftarrow> (if \<not> stack_is_overflow s
          then do {
            let s = cmb_println (Info PRINT_REGS_TITLE) s;
            r \<leftarrow> load_saved M fault_handler_sp;
            let s = s\<lparr>saved := r\<rparr>;
            let s = cmb_println (Registers [r0 r, r1 r, r2 r, r3 r]) s;
            let s = cmb_println (Registers [r12 r, lr r, pc r, psr r]) s;
            Some (cmb_println Rule s)
          }
          else Some s);
     let s = s\<lparr>fregs := hw\<rparr>;
     print_call_stack M sp (fault_diagnosis s)
   }"

section \<open>The call stack\<close>

text \<open>
  The words of the stack from \<open>sp\<close> to its end, and which of them the report takes for return
  addresses: odd, into the code, and behind an instruction that may have been a call.
\<close>

definition stack_end :: "cmb \<Rightarrow> u32" where
  "stack_end s = main_stack_start_addr s + main_stack_size s"

definition stack_addrs :: "u32 \<Rightarrow> u32 \<Rightarrow> u32 list" where
  "stack_addrs sp e = map (\<lambda>i. sp + of_nat (4 * i)) [0..<(unat e - unat sp) div 4]"

definition word_at :: "memory \<Rightarrow> u32 \<Rightarrow> u32" where
  "word_at M a = the (load32 M a)"

definition in_code :: "cmb \<Rightarrow> u32 \<Rightarrow> bool" where
  "in_code s p \<longleftrightarrow> code_start_addr s \<le> p \<and> p \<le> code_start_addr s + code_size s"

text \<open>
  What the instruction before the address \<open>r\<close> is, by the Thumb encodings of the ARM manual, byte by
  byte.  \<open>BL\<close> is a halfword \<open>11110...\<close> followed by a halfword \<open>11111...\<close> (the form for targets
  within four megabytes); \<open>BX\<close> and \<open>BLX\<close> with a register are both halfwords \<open>01000111...\<close>.
  The low byte of a halfword comes first.
\<close>

definition behind_bl :: "memory \<Rightarrow> u32 \<Rightarrow> bool" where
  "behind_bl M r \<longleftrightarrow>
     (case (M (r - 3), M (r - 1)) of
        (Some h1, Some h2) \<Rightarrow> h1 div 8 = 30 \<and> h2 div 8 = 31
      | _ \<Rightarrow> False)"

definition behind_bx_blx :: "memory \<Rightarrow> u32 \<Rightarrow> bool" where
  "behind_bx_blx M r \<longleftrightarrow> M (r - 1) = Some 0x47"

definition is_return :: "memory \<Rightarrow> cmb \<Rightarrow> u32 \<Rightarrow> bool" where
  "is_return M s w \<longleftrightarrow> w mod 2 \<noteq> 0 \<and> code_start_addr s + 4 \<le> w - 1 \<and>
     w - 1 \<le> code_start_addr s + code_size s \<and> (behind_bl M (w - 1) \<or> behind_bx_blx M (w - 1))"

definition return_addrs :: "memory \<Rightarrow> cmb \<Rightarrow> u32 \<Rightarrow> u32 list" where
  "return_addrs M s sp =
     map (\<lambda>w. w - 1) (filter (is_return M s) (map (word_at M) (stack_addrs sp (stack_end s))))"

text \<open>
  After a fault the program counter comes first, and the link register second if it points
  into the code; copies of it at the top of the stack are left out.
\<close>

definition expected_stack :: "memory \<Rightarrow> cmb \<Rightarrow> u32 \<Rightarrow> u32 list" where
  "expected_stack M s sp =
     (let rs = return_addrs M s sp; p = lr (saved s) - 1
      in if on_fault s \<and> \<not> stack_is_overflow s
         then pc (saved s) # (if in_code s p then p # dropWhile (\<lambda>r. r = p) rs else rs)
         else rs)"

text \<open>Where memory is, and the image laid out in the address space without wrap-around.\<close>

definition readable :: "memory \<Rightarrow> u32 \<Rightarrow> u32 \<Rightarrow> bool" where
  "readable M lo hi \<longleftrightarrow> (\<forall>a. lo \<le> a \<and> a < hi \<longrightarrow> M a \<noteq> None)"

definition layout_ok :: "memory \<Rightarrow> cmb \<Rightarrow> bool" where
  "layout_ok M s \<longleftrightarrow>
     unat (main_stack_start_addr s) + unat (main_stack_size s) + 4 \<le> 2 ^ 32 \<and>
     unat (code_start_addr s) + unat (code_size s) + 4 < 2 ^ 32 \<and>
     4 dvd unat (main_stack_start_addr s) \<and> 4 dvd unat (stack_end s) \<and>
     readable M (main_stack_start_addr s) (stack_end s) \<and>
     readable M (code_start_addr s) (code_start_addr s + code_size s)"

lemma load32_readable:
  assumes "readable M lo hi" and "lo \<le> a" and "unat a + 4 \<le> unat hi"
  shows "load32 M a = Some (word_at M a)"
proof -
  have h: "unat hi < 2 ^ 32" using unsigned_less [of hi, where ?'a = nat] by simp
  have "M (a + of_nat i) \<noteq> None" if "i < 4" for i
  proof -
    have "unat (a + of_nat i) = unat a + i"
      using assms(3) that h by (simp add: unat_word_ariths unat_of_nat)
    then have "lo \<le> a + of_nat i \<and> a + of_nat i < hi"
      using assms(2,3) that by (simp add: word_le_nat_alt word_less_nat_alt)
    then show ?thesis using assms(1) by (simp add: readable_def)
  qed
  from this [of 0] this [of 1] this [of 2] this [of 3] show ?thesis
    by (auto simp: word_at_def load32_def)
qed

text \<open>The masks of the code pick these encodings out of the two halfwords.\<close>

lemma and_F800: "x AND 0xF800 = push_bit 11 (drop_bit 11 x)" for x :: u16
proof (rule bit_word_eqI)
  fix n assume n: "n < LENGTH(16)"
  have "(0xF800 :: u16) = push_bit 11 (mask 5)" by (simp add: mask_eq_exp_minus_1)
  then have "bit (0xF800 :: u16) n \<longleftrightarrow> 11 \<le> n"
    using n by (simp only: bit_push_bit_iff bit_mask_iff) auto
  with n show "bit (x AND 0xF800) n = bit (push_bit 11 (drop_bit 11 x)) n"
    by (auto simp: bit_simps)
qed

lemma and_FF00: "x AND 0xFF00 = push_bit 8 (drop_bit 8 x)" for x :: u16
proof (rule bit_word_eqI)
  fix n assume n: "n < LENGTH(16)"
  have "(0xFF00 :: u16) = push_bit 8 (mask 8)" by (simp add: mask_eq_exp_minus_1)
  then have "bit (0xFF00 :: u16) n \<longleftrightarrow> 8 \<le> n"
    using n by (simp only: bit_push_bit_iff bit_mask_iff) auto
  with n show "bit (x AND 0xFF00) n = bit (push_bit 8 (drop_bit 8 x)) n"
    by (auto simp: bit_simps)
qed

lemma drop_halfword:
  "8 \<le> k \<Longrightarrow> drop_bit k (ucast (a :: u8) OR push_bit 8 (ucast (b :: u8)) :: u16) = ucast (drop_bit (k - 8) b)"
  by (rule bit_word_eqI) (auto simp: bit_simps dest: bit_imp_le_length)

lemma halfword_fields:
  fixes a b :: u8
  defines "h \<equiv> ucast a OR push_bit 8 (ucast b) :: u16"
  shows "h AND 0xF800 = 0xF800 \<longleftrightarrow> b div 8 = 31" and "h AND 0xF800 = 0xF000 \<longleftrightarrow> b div 8 = 30"
    and "h AND 0xFF00 = 0x4700 \<longleftrightarrow> b = 0x47"
proof -
  have d: "drop_bit 3 b = b div 8" by (simp add: drop_bit_eq_div)
  have lt: "unat (drop_bit 3 b) < 32"
    using unsigned_less [of b, where ?'a = nat] by (simp add: drop_bit_eq_div unat_div less_mult_imp_div_less)
  have inj: "push_bit 11 (ucast (drop_bit 3 b) :: u16) = push_bit 11 (of_nat c) \<longleftrightarrow> unat (drop_bit 3 b) = c"
    if "c < 32" for c
    using lt that by (simp add: word_unat_eq_iff push_bit_eq_mult unat_word_ariths unat_of_nat unsigned_ucast_eq take_bit_eq_mod)
  show "h AND 0xF800 = 0xF800 \<longleftrightarrow> b div 8 = 31"
    using inj [of 31] unfolding and_F800 h_def by (subst drop_halfword) (simp_all add: d word_unat_eq_iff)
  show "h AND 0xF800 = 0xF000 \<longleftrightarrow> b div 8 = 30"
    using inj [of 30] unfolding and_F800 h_def by (subst drop_halfword) (simp_all add: d word_unat_eq_iff)
  have lb: "unat b < 256" using unsigned_less [of b, where ?'a = nat] by simp
  have "push_bit 8 (ucast b :: u16) = 0x4700 \<longleftrightarrow> unat b = 0x47"
    using lb by (simp add: word_unat_eq_iff push_bit_eq_mult unat_word_ariths unat_of_nat unsigned_ucast_eq take_bit_eq_mod)
  then show "h AND 0xFF00 = 0x4700 \<longleftrightarrow> b = 0x47"
    unfolding and_FF00 h_def by (subst drop_halfword) (simp_all add: word_unat_eq_iff)
qed

lemma bl_blx_readable:
  assumes "readable M lo hi" and "unat lo + 4 \<le> unat p" and "p \<le> hi"
  shows "disassembly_ins_is_bl_blx M (p - 4) = Some (behind_bl M p \<or> behind_bx_blx M p)"
proof -
  have p: "unat (p - 4) = unat p - 4"
    using assms(2) by (simp add: unat_sub word_le_nat_alt)
  have hi: "unat p \<le> unat hi" using assms(3) by (simp add: word_le_nat_alt)
  have h: "unat hi < 2 ^ 32" using unsigned_less [of hi, where ?'a = nat] by simp
  have "M (p - 4 + of_nat i) \<noteq> None" if "i < 4" for i
  proof -
    have "unat (p - 4 + of_nat i) = unat p - 4 + i"
      using assms(2) that h hi p by (simp add: unat_word_ariths(1) unat_of_nat)
    then have "lo \<le> p - 4 + of_nat i \<and> p - 4 + of_nat i < hi"
      using assms(2) hi that by (simp add: word_le_nat_alt word_less_nat_alt) linarith
    then show ?thesis using assms(1) by (simp add: readable_def)
  qed
  from this [of 0] this [of 1] this [of 2] this [of 3] obtain b0 b1 b2 b3 where
    "M (p - 4) = Some b0" "M (p - 3) = Some b1" "M (p - 2) = Some b2" "M (p - 1) = Some b3"
    by auto
  then show ?thesis
    by (auto simp: disassembly_ins_is_bl_blx_def load16_def behind_bl_def behind_bx_blx_def halfword_fields)
qed

lemma stack_addrs_step:
  assumes "4 dvd unat sp" and "4 dvd unat e" and "sp < e" and "unat e + 4 \<le> 2 ^ 32"
  shows "unat (sp + 4) = unat sp + 4" and "4 dvd unat (sp + 4)" and "unat sp + 4 \<le> unat e"
    and "stack_addrs sp e = sp # stack_addrs (sp + 4) e"
proof -
  have l: "unat sp < unat e" using assms(3) by (simp add: word_less_nat_alt)
  then show le: "unat sp + 4 \<le> unat e" using assms(1,2) by (auto elim!: dvdE)
  show u: "unat (sp + 4) = unat sp + 4"
    using l assms(4) by (simp add: unat_word_ariths)
  then show "4 dvd unat (sp + 4)" using assms(1) by simp
  have "(unat e - unat sp) div 4 = Suc ((unat e - unat (sp + 4)) div 4)"
    using le u by (simp add: div_if)
  then show "stack_addrs sp e = sp # stack_addrs (sp + 4) e"
    by (simp add: stack_addrs_def upt_conv_Cons map_Suc_upt [symmetric] add.assoc del: upt_Suc)
qed

lemma stack_addrs_done: "\<not> sp < e \<Longrightarrow> stack_addrs sp e = []"
  by (simp add: stack_addrs_def word_less_nat_alt)

text \<open>One turn of the loop, as a function on the entries.\<close>

definition add_entry :: "memory \<Rightarrow> cmb \<Rightarrow> nat \<Rightarrow> bool \<Rightarrow> u32 \<Rightarrow> u32 list \<Rightarrow> u32 list" where
  "add_entry M s sz lr_valid w buf =
     (if is_return M s w \<and> length buf < min CMB_CALL_STACK_MAX_DEPTH sz \<and>
         \<not> (length buf = 2 \<and> lr_valid \<and> w - 1 = buf ! 1)
      then buf @ [w - 1] else buf)"

lemma odd_word: "(w - 4) mod 2 = 0 \<longleftrightarrow> w mod 2 = (0 :: u32)"
proof -
  have "(w - 4) mod 2 = 0 \<longleftrightarrow> \<not> bit (w - 4) 0" and "w mod 2 = 0 \<longleftrightarrow> \<not> bit w 0" for w :: u32
    by (simp_all add: bit_0 even_iff_mod_2_eq_zero)
  moreover have "bit (w - 4) 0 = bit w 0" by (simp add: bit_0)
  ultimately show ?thesis by simp
qed

lemma call_stack_loop_fold:
  assumes "layout_ok M s"
  shows "4 dvd unat sp \<Longrightarrow> main_stack_start_addr s \<le> sp \<Longrightarrow>
    call_stack_loop M s sz lr_valid (stack_end s) sp buf =
      Some (fold (add_entry M s sz lr_valid) (map (word_at M) (stack_addrs sp (stack_end s))) buf)"
proof (induction "unat (stack_end s) - unat sp" arbitrary: sp buf rule: less_induct)
  case (less sp buf)
  let ?e = "stack_end s"
  have lay: "4 dvd unat ?e" "readable M (main_stack_start_addr s) ?e"
    "readable M (code_start_addr s) (code_start_addr s + code_size s)"
    "unat (code_start_addr s) + unat (code_size s) + 4 < 2 ^ 32"
    using assms by (simp_all add: layout_ok_def)
  have e: "unat ?e + 4 \<le> 2 ^ 32"
    using assms by (simp add: layout_ok_def stack_end_def unat_word_ariths)
  show ?case
  proof (cases "sp < ?e")
    case False
    then show ?thesis by (subst call_stack_loop.simps) (simp add: stack_addrs_done)
  next
    case True
    note st = stack_addrs_step [OF less.prems(1) lay(1) True e]
    let ?w = "word_at M sp"
    have w: "load32 M sp = Some ?w"
      using load32_readable [OF lay(2) less.prems(2) st(3)] .
    have ih: "call_stack_loop M s sz lr_valid ?e (sp + 4) b =
        Some (fold (add_entry M s sz lr_valid) (map (word_at M) (stack_addrs (sp + 4) ?e)) b)" for b
      using st less.prems True by (intro less.hyps) (simp_all add: word_le_nat_alt word_less_nat_alt)
    have "call_stack_loop M s sz lr_valid ?e sp buf =
        call_stack_loop M s sz lr_valid ?e (sp + 4) (add_entry M s sz lr_valid ?w buf)"
    proof (cases "code_start_addr s + 4 \<le> ?w - 1 \<and> ?w - 1 \<le> code_start_addr s + code_size s")
      case True
      have "unat (code_start_addr s + 4) = unat (code_start_addr s) + 4"
        using lay(4) by (simp add: unat_word_ariths)
      then have "disassembly_ins_is_bl_blx M (?w - 1 - 4) = Some (behind_bl M (?w - 1) \<or> behind_bx_blx M (?w - 1))"
        using True by (intro bl_blx_readable [OF lay(3)]) (simp_all add: word_le_nat_alt)
      then have "disassembly_ins_is_bl_blx M (?w - 5) = Some (behind_bl M (?w - 1) \<or> behind_bx_blx M (?w - 1))" by simp
      then show ?thesis
        using \<open>sp < ?e\<close> w True
        by (subst call_stack_loop.simps) (auto simp: add_entry_def is_return_def odd_word)
    next
      case False
      then show ?thesis
        using \<open>sp < ?e\<close> w
        by (subst call_stack_loop.simps) (auto simp: add_entry_def is_return_def odd_word)
    qed
    with ih st(4) show ?thesis by simp
  qed
qed

lemma fold_add_entry:
  assumes "length buf \<le> min CMB_CALL_STACK_MAX_DEPTH sz" and "\<not> (lr_valid \<and> length buf = 2)"
    and "lr_valid \<Longrightarrow> 2 \<le> length buf"
  shows "fold (add_entry M s sz lr_valid) ws buf =
           take (min CMB_CALL_STACK_MAX_DEPTH sz) (buf @ map (\<lambda>w. w - 1) (filter (is_return M s) ws))"
  using assms
proof (induction ws arbitrary: buf)
  case Nil
  then show ?case by simp
next
  case (Cons w ws)
  show ?case
  proof (cases "is_return M s w")
    case False
    then show ?thesis using Cons by (simp add: add_entry_def)
  next
    case True
    show ?thesis
    proof (cases "length buf < min CMB_CALL_STACK_MAX_DEPTH sz")
      case less: True
      then have "add_entry M s sz lr_valid w buf = buf @ [w - 1]"
        using True Cons.prems by (auto simp: add_entry_def)
      moreover have "fold (add_entry M s sz lr_valid) ws (buf @ [w - 1]) =
        take (min CMB_CALL_STACK_MAX_DEPTH sz) ((buf @ [w - 1]) @ map (\<lambda>w. w - 1) (filter (is_return M s) ws))"
        using less Cons.prems by (intro Cons.IH) auto
      ultimately show ?thesis using True by simp
    next
      case full: False
      then have l: "length buf = min CMB_CALL_STACK_MAX_DEPTH sz" using Cons.prems(1) by linarith
      then have "add_entry M s sz lr_valid w buf = buf" by (simp add: add_entry_def)
      then show ?thesis using Cons.IH [OF Cons.prems] l by simp
    qed
  qed
qed

lemma fold_add_entry_lr:
  assumes "length buf = 2" and "2 \<le> sz"
  shows "fold (add_entry M s sz True) ws buf =
           take (min CMB_CALL_STACK_MAX_DEPTH sz)
             (buf @ dropWhile (\<lambda>r. r = buf ! 1) (map (\<lambda>w. w - 1) (filter (is_return M s) ws)))"
proof (induction ws)
  case Nil
  then show ?case using assms by (simp add: CMB_CALL_STACK_MAX_DEPTH_def)
next
  case (Cons w ws)
  show ?case
  proof (cases "is_return M s w \<and> w - 1 \<noteq> buf ! 1")
    case False
    then have "add_entry M s sz True w buf = buf" using assms(1) by (auto simp: add_entry_def)
    then show ?thesis using Cons False by auto
  next
    case True
    show ?thesis
    proof (cases "2 < sz")
      case True': True
      then have "add_entry M s sz True w buf = buf @ [w - 1]"
        using True assms by (simp add: add_entry_def CMB_CALL_STACK_MAX_DEPTH_def)
      moreover have "fold (add_entry M s sz True) ws (buf @ [w - 1]) =
          take (min CMB_CALL_STACK_MAX_DEPTH sz) ((buf @ [w - 1]) @ map (\<lambda>w. w - 1) (filter (is_return M s) ws))"
        using True' assms by (intro fold_add_entry) (simp_all add: CMB_CALL_STACK_MAX_DEPTH_def)
      ultimately show ?thesis using True by simp
    next
      case False
      then have "sz = 2" using assms(2) by simp
      then have "add_entry M s sz True w buf = buf" using assms(1) by (simp add: add_entry_def)
      then show ?thesis using Cons True assms \<open>sz = 2\<close> by (simp add: CMB_CALL_STACK_MAX_DEPTH_def)
    qed
  qed
qed

definition start_sp :: "cmb \<Rightarrow> u32 \<Rightarrow> u32" where
  "start_sp s sp =
     (if stack_is_overflow s then clamp_sp (main_stack_start_addr s) (main_stack_size s) sp else sp)"

lemma cm_backtrace_call_stack_loop:
  "cm_backtrace_call_stack M sz sp s =
     (let p = lr (saved s) - 1
      in if on_fault s \<and> \<not> stack_is_overflow s
         then if 0 < sz
              then if in_code s p \<and> 1 < sz
                   then call_stack_loop M s sz True (stack_end s) (start_sp s sp) [pc (saved s), p]
                   else call_stack_loop M s sz False (stack_end s) (start_sp s sp) [pc (saved s)]
              else None
         else call_stack_loop M s sz False (stack_end s) (start_sp s sp) [])"
  by (simp add: cm_backtrace_call_stack_def push_entry_def in_code_def stack_end_def start_sp_def
      CMB_CALL_STACK_MAX_DEPTH_def Let_def)

lemma call_stack_eq:
  assumes "layout_ok M s" and "4 dvd unat sp" and "\<not> stack_is_overflow s \<Longrightarrow> main_stack_start_addr s \<le> sp"
    and "0 < sz"
  shows "cm_backtrace_call_stack M sz sp s =
           Some (take (min 16 sz) (expected_stack M s (start_sp s sp)))"
proof -
  let ?sp = "start_sp s sp"
  have le: "main_stack_start_addr s \<le> stack_end s"
    using assms(1) by (simp add: layout_ok_def stack_end_def word_le_nat_alt unat_word_ariths)
  have sp: "4 dvd unat ?sp" "main_stack_start_addr s \<le> ?sp"
    using assms le by (auto simp: start_sp_def clamp_sp_def layout_ok_def stack_end_def [symmetric])
  let ?ws = "map (word_at M) (stack_addrs ?sp (stack_end s))"
  note loop = call_stack_loop_fold [OF assms(1) sp]
  note [simp] = CMB_CALL_STACK_MAX_DEPTH_def
  have nil: "fold (add_entry M s sz False) ?ws [] = take (min 16 sz) (return_addrs M s ?sp)"
    using fold_add_entry [of "[]" sz False M s ?ws] by (simp add: return_addrs_def)
  have one: "fold (add_entry M s sz False) ?ws [v] = take (min 16 sz) (v # return_addrs M s ?sp)" if "0 < sz" for v
    using fold_add_entry [of "[v]" sz False M s ?ws] that by (simp add: return_addrs_def)
  have two: "fold (add_entry M s sz True) ?ws [v, r] =
      take (min 16 sz) (v # r # dropWhile (\<lambda>x. x = r) (return_addrs M s ?sp))" if "1 < sz" for v r
    using fold_add_entry_lr [of "[v, r]" sz M s ?ws] that by (simp add: return_addrs_def)
  have short: "take (min 16 sz) (v # xs) = [v]" if "0 < sz" "\<not> 1 < sz" for v :: u32 and xs
    using that by (cases sz) simp_all
  show ?thesis
    unfolding cm_backtrace_call_stack_loop expected_stack_def Let_def loop
    using assms(4) nil one two short by (cases "in_code s (lr (saved s) - 1)"; cases "1 < sz") simp_all
qed

lemma call_stack_exact_16:
  assumes "layout_ok M s" and "4 dvd unat sp" and "\<not> stack_is_overflow s \<Longrightarrow> main_stack_start_addr s \<le> sp"
  shows "cm_backtrace_call_stack M 16 sp s = Some (take 16 (expected_stack M s (start_sp s sp)))"
  using call_stack_eq [OF assms, of 16] by simp


text \<open>
  An example: code at 4096, with a \<open>BL\<close> before 4116 and a \<open>BX LR\<close> before 4132; on the stack lie the
  return address behind the \<open>BL\<close> and a pointer to the function behind the \<open>BX LR\<close>.
\<close>

definition demo_memory :: memory where
  "demo_memory a =
     (if 4096 \<le> a \<and> a < 4352
      then Some (if a = 4113 then 0xF0 else if a = 4115 then 0xF8 else if a = 4130 then 0x70 else if a = 4131 then 0x47 else 0)
      else if 8192 \<le> a \<and> a < 8256
      then Some (if a = 8228 then 0x15 else if a = 8229 then 0x10 else if a = 8240 then 0x25 else if a = 8241 then 0x10 else 0)
      else None)"

definition demo_cmb :: cmb where
  "demo_cmb = cm_backtrace_init \<lparr>HeapLimit = 8192, StackTop = 8256, ROM_Start = 4096, ROM_End = 4352\<rparr> cmb_reset"

lemma demo_cmb_fields:
  "main_stack_start_addr demo_cmb = 8192" "main_stack_size demo_cmb = 64" "code_start_addr demo_cmb = 4096"
  "code_size demo_cmb = 256" "init_ok demo_cmb" "\<not> on_fault demo_cmb" "\<not> stack_is_overflow demo_cmb"
  "\<not> on_thread_before_fault demo_cmb" "length (call_stack_info demo_cmb) = 144"
  by (simp_all add: demo_cmb_def cm_backtrace_init_def cmb_reset_def Let_def CMB_CALL_STACK_MAX_DEPTH_def)

lemma demo_layout: "layout_ok demo_memory demo_cmb"
  by (simp add: layout_ok_def readable_def demo_memory_def stack_end_def demo_cmb_fields)


section \<open>The fault report\<close>

text \<open>The causes by the register bits that stand for them, in the order of the report.\<close>

definition memory_causes :: "fault_regs \<Rightarrow> (bool \<times> line) list" where
  "memory_causes r =
     [(bit (mfsr r) 0, Info PRINT_MFSR_IACCVIOL), (bit (mfsr r) 1, Info PRINT_MFSR_DACCVIOL),
      (bit (mfsr r) 3, Info PRINT_MFSR_MUNSTKERR), (bit (mfsr r) 4, Info PRINT_MFSR_MSTKERR),
      (bit (mfsr r) 5, Info PRINT_MFSR_MLSPERR),
      (bit (mfsr r) 7 \<and> (bit (mfsr r) 0 \<or> bit (mfsr r) 1), Info_value PRINT_MMAR (mmar r))]"

definition bus_causes :: "fault_regs \<Rightarrow> (bool \<times> line) list" where
  "bus_causes r =
     [(bit (bfsr r) 0, Info PRINT_BFSR_IBUSERR), (bit (bfsr r) 1, Info PRINT_BFSR_PRECISERR),
      (bit (bfsr r) 2, Info PRINT_BFSR_IMPREISERR), (bit (bfsr r) 3, Info PRINT_BFSR_UNSTKERR),
      (bit (bfsr r) 4, Info PRINT_BFSR_STKERR), (bit (bfsr r) 5, Info PRINT_BFSR_LSPERR),
      (bit (bfsr r) 7 \<and> bit (bfsr r) 1, Info_value PRINT_BFAR (bfar r))]"

definition usage_causes :: "fault_regs \<Rightarrow> (bool \<times> line) list" where
  "usage_causes r =
     [(bit (ufsr r) 0, Info PRINT_UFSR_UNDEFINSTR), (bit (ufsr r) 1, Info PRINT_UFSR_INVSTATE),
      (bit (ufsr r) 2, Info PRINT_UFSR_INVPC), (bit (ufsr r) 3, Info PRINT_UFSR_NOCP),
      (bit (ufsr r) 8, Info PRINT_UFSR_UNALIGNED), (bit (ufsr r) 9, Info PRINT_UFSR_DIVBYZERO0)]"

definition debug_causes :: "fault_regs \<Rightarrow> (bool \<times> line) list" where
  "debug_causes r =
     [(bit (dfsr r) 0, Info PRINT_DFSR_HALTED), (bit (dfsr r) 1, Info PRINT_DFSR_BKPT),
      (bit (dfsr r) 2, Info PRINT_DFSR_DWTTRAP), (bit (dfsr r) 3, Info PRINT_DFSR_VCATCH),
      (bit (dfsr r) 4, Info PRINT_DFSR_EXTERNAL)]"

definition causes :: "fault_regs \<Rightarrow> (bool \<times> line) list" where
  "causes r =
     [(bit (hfsr r) 1, Info PRINT_HFSR_VECTBL)] @
     (if bit (hfsr r) 30 then memory_causes r @ bus_causes r @ usage_causes r else []) @
     (if bit (hfsr r) 31 then debug_causes r else [])"

definition holding :: "(bool \<times> line) list \<Rightarrow> line list" where
  "holding cs = map snd (filter fst cs)"

text \<open>Printing some of the lines one after the other.\<close>

definition print_lines :: "(bool \<times> line) list \<Rightarrow> cmb \<Rightarrow> cmb" where
  "print_lines cs s = s\<lparr>printed := printed s @ holding cs\<rparr>"

lemma print_lines_Nil: "print_lines [] s = s"
  by (simp add: print_lines_def holding_def)

lemma print_if_lines: "print_if b l s = print_lines [(b, l)] s"
  by (simp add: print_if_def print_lines_def holding_def cmb_println_def)

lemma print_lines_append: "print_lines ds (print_lines cs s) = print_lines (cs @ ds) s"
  by (simp add: print_lines_def holding_def)

lemma print_lines_unless: "(if b then print_lines cs s else s) = print_lines (if b then cs else []) s"
  by (simp add: print_lines_Nil)

lemma print_lines_if: "(if b then print_lines cs s else print_lines ds s) = print_lines (if b then cs else ds) s"
  by simp

lemma print_lines_cong: "holding cs = holding ds \<Longrightarrow> print_lines cs s = print_lines ds s"
  by (simp add: print_lines_def)

lemma holding_append: "holding (cs @ ds) = holding cs @ holding ds"
  by (simp add: holding_def)

lemma holding_if: "holding (if b then cs else ds) = (if b then holding cs else holding ds)"
  by simp

text \<open>A register that is zero has no bit set, so the guards of the code for it change nothing.\<close>

lemma zero_guards:
  "mfsr r = 0 \<Longrightarrow> holding (memory_causes r) = []" "bfsr r = 0 \<Longrightarrow> holding (bus_causes r) = []"
  "ufsr r = 0 \<Longrightarrow> holding (usage_causes r) = []" "dfsr r = 0 \<Longrightarrow> holding (debug_causes r) = []"
  by (simp_all add: holding_def memory_causes_def bus_causes_def usage_causes_def debug_causes_def)

lemma diagnosis_parts:
  "memory_diagnosis r s = print_lines (memory_causes r) s"
  "bus_diagnosis r s = print_lines (bus_causes r) s"
  "usage_diagnosis r s = print_lines (usage_causes r) s"
  "debug_diagnosis r s = print_lines (debug_causes r) s"
proof -
  note defs = Let_def print_if_lines print_lines_append print_lines_def holding_def
  have b: "mfsr r = 0 \<Longrightarrow> print_lines (memory_causes r) s = s" "bfsr r = 0 \<Longrightarrow> print_lines (bus_causes r) s = s"
    "ufsr r = 0 \<Longrightarrow> print_lines (usage_causes r) s = s" "dfsr r = 0 \<Longrightarrow> print_lines (debug_causes r) s = s"
    by (simp_all add: print_lines_def zero_guards)
  show "memory_diagnosis r s = print_lines (memory_causes r) s"
    using b(1) unfolding memory_diagnosis_def Let_def print_if_lines print_lines_append memory_causes_def
    by (cases "bit (mfsr r) 7") (auto intro!: print_lines_cong simp: holding_def)
  show "bus_diagnosis r s = print_lines (bus_causes r) s"
    using b(2) unfolding bus_diagnosis_def Let_def print_if_lines print_lines_append bus_causes_def
    by (cases "bit (bfsr r) 7") (auto intro!: print_lines_cong simp: holding_def)
  show "usage_diagnosis r s = print_lines (usage_causes r) s"
    using b(3) unfolding usage_diagnosis_def Let_def print_if_lines print_lines_append usage_causes_def
    by simp
  show "debug_diagnosis r s = print_lines (debug_causes r) s"
    using b(4) unfolding debug_diagnosis_def Let_def print_if_lines print_lines_append debug_causes_def
    by simp
qed

lemma fault_diagnosis_eq: "fault_diagnosis s = print_lines (causes (fregs s)) s"
  by (simp add: fault_diagnosis_def Let_def print_if_lines diagnosis_parts print_lines_append causes_def)

text \<open>The text of the call stack: eight digits for each entry, separated by spaces.\<close>

definition stack_text :: "u32 list \<Rightarrow> u8 list" where
  "stack_text vs = butlast (concat (map (\<lambda>v. hex8 v @ [32]) vs))"

definition stack_line :: "u32 list \<Rightarrow> line" where
  "stack_line vs =
     (if vs = [] then Info PRINT_CALL_STACK_ERR else Info_text PRINT_CALL_STACK_INFO (stack_text vs))"

lemma length_hex8 [simp]: "length (hex8 w) = 8"
  by (simp add: hex8_def)

lemma hex8_nonzero: "0 \<notin> set (hex8 w)"
proof -
  have "hex_digit d \<noteq> 0" if "d AND 15 = d" for d
  proof -
    have "take_bit 4 d = d" using that by (simp add: take_bit_eq_mask mask_eq_exp_minus_1)
    then have "unat d = take_bit 4 (unat d)" by (metis unsigned_take_bit_eq)
    then have "unat d < 16" using take_bit_nat_less_exp [of 4 "unat d"] by simp
    then have "unat (hex_digit d) \<noteq> 0"
      by (auto simp: hex_digit_def unat_word_ariths unsigned_ucast_eq take_bit_eq_mod word_less_nat_alt)
    then show ?thesis by auto
  qed
  then show ?thesis by (auto simp: hex8_def and.assoc)
qed

lemma print_entries_eq:
  "length pre = 9 * i \<Longrightarrow> 9 * length vs \<le> length rest \<Longrightarrow>
   print_entries vs i (pre @ rest) =
     Some (pre @ concat (map (\<lambda>v. hex8 v @ [32]) vs) @ drop (9 * length vs) rest)"
proof (induction vs arbitrary: i pre rest)
  case Nil
  then show ?case by simp
next
  case (Cons v vs)
  have "store_at (i * (8 + 1)) (hex8 v @ [0]) (pre @ rest) = Some (pre @ (hex8 v @ [0]) @ drop 9 rest)"
    using Cons.prems by (simp add: store_at_def)
  moreover have "store_at (i * (8 + 1) + 8) [32] (pre @ (hex8 v @ [0]) @ drop 9 rest) =
      Some ((pre @ hex8 v @ [32]) @ drop 9 rest)"
    using Cons.prems by (simp add: store_at_def)
  moreover have "print_entries vs (Suc i) ((pre @ hex8 v @ [32]) @ drop 9 rest) =
      Some ((pre @ hex8 v @ [32]) @ concat (map (\<lambda>v. hex8 v @ [32]) vs) @ drop (9 * length vs) (drop 9 rest))"
    using Cons.prems by (intro Cons.IH) simp_all
  ultimately show ?case by (simp add: add.commute)
qed

lemma length_entries: "length (concat (map (\<lambda>v. hex8 v @ [32]) vs)) = 9 * length vs"
  by (induction vs) simp_all

lemma print_call_stack_eq:
  assumes "layout_ok M s" and "4 dvd unat sp" and "\<not> stack_is_overflow s \<Longrightarrow> main_stack_start_addr s \<le> sp"
    and "length (call_stack_info s) = 144"
  shows "\<exists>info. print_call_stack M sp s =
     Some (s\<lparr>call_stack_info := info,
             printed := printed s @ [stack_line (take 16 (expected_stack M s (start_sp s sp)))]\<rparr>)"
proof -
  define vs where "vs = take 16 (expected_stack M s (start_sp s sp))"
  let ?t = "concat (map (\<lambda>v. hex8 v @ [32]) vs)" and ?rest = "drop (9 * length vs) (call_stack_info s)"
  have st: "cm_backtrace_call_stack M CMB_CALL_STACK_MAX_DEPTH sp s = Some vs"
    using call_stack_exact_16 [OF assms(1-3)] by (simp add: vs_def CMB_CALL_STACK_MAX_DEPTH_def)
  have "length vs \<le> 16" by (simp add: vs_def)
  then have e: "print_entries vs 0 (call_stack_info s) = Some (?t @ ?rest)"
    using print_entries_eq [of "[]" 0 vs "call_stack_info s"] assms(4) by simp
  show ?thesis
  proof (cases "vs = []")
    case True
    then show ?thesis
      using st e unfolding print_call_stack_def vs_def [symmetric]
      by (intro exI [of _ "call_stack_info s"]) (simp add: cmb_println_def stack_line_def)
  next
    case False
    then obtain us v where vs: "vs = us @ [v]" by (metis rev_exhaust)
    then have t: "?t = butlast ?t @ [32]" by (simp add: butlast_append)
    have len: "length (butlast ?t) = length vs * (8 + 1) - 1" by (simp add: length_entries)
    have "store_at (length vs * (8 + 1) - 1) [0] (butlast ?t @ [32] @ ?rest) = Some (butlast ?t @ [0] @ ?rest)"
      unfolding len [symmetric] by (simp add: store_at_def)
    then have z: "store_at (length vs * (8 + 1) - 1) [0] (?t @ ?rest) = Some (butlast ?t @ 0 # ?rest)"
      using t by (metis append.assoc append_Cons append_Nil)
    have "0 \<notin> set ?t" using hex8_nonzero by auto
    then have "0 \<notin> set (butlast ?t)" by (meson in_set_butlastD)
    then have "takeWhile (\<lambda>c. c \<noteq> 0) (butlast ?t @ 0 # ?rest) = stack_text vs"
      unfolding stack_text_def by (rule takeWhile_neq_append)
    with st e z False show ?thesis
      unfolding print_call_stack_def vs_def [symmetric]
      by (simp add: cmb_println_def stack_line_def) (rule exI, rule HOL.refl)
  qed
qed

lemma dump_loop_eq:
  "4 dvd unat sp \<Longrightarrow> 4 dvd unat e \<Longrightarrow> unat e + 4 \<le> 2 ^ 32 \<Longrightarrow> lo \<le> sp \<Longrightarrow> readable M lo e \<Longrightarrow>
   dump_loop M e sp s =
     Some (s\<lparr>printed := printed s @ map (\<lambda>a. Stack_word a (word_at M a)) (stack_addrs sp e)\<rparr>)"
proof (induction "unat e - unat sp" arbitrary: sp s rule: less_induct)
  case (less sp s)
  show ?case
  proof (cases "sp < e")
    case False
    then show ?thesis by (subst dump_loop.simps) (simp add: stack_addrs_done)
  next
    case True
    note st = stack_addrs_step [OF less.prems(1,2) True less.prems(3)]
    have w: "load32 M sp = Some (word_at M sp)"
      using load32_readable [OF less.prems(5,4) st(3)] .
    have "dump_loop M e (sp + 4) s' =
      Some (s'\<lparr>printed := printed s' @ map (\<lambda>a. Stack_word a (word_at M a)) (stack_addrs (sp + 4) e)\<rparr>)" for s'
      using st less.prems True by (intro less.hyps) (simp_all add: word_le_nat_alt word_less_nat_alt)
    then show ?thesis
      using True w st(4) by (subst dump_loop.simps) (simp add: cmb_println_def)
  qed
qed

text \<open>The stack pointer before the fault: behind the saved registers, with or without those of
  the floating-point unit.\<close>

definition sp_before :: "u32 \<Rightarrow> u32 \<Rightarrow> u32" where
  "sp_before handler_lr sp = (if bit handler_lr 4 then sp + 32 else sp + 104)"

definition report :: "memory \<Rightarrow> fault_regs \<Rightarrow> u32 \<Rightarrow> u32 \<Rightarrow> cmb \<Rightarrow> saved_regs \<Rightarrow> line list" where
  "report M hw handler_lr sp0 s r =
     (let sp = sp_before handler_lr sp0;
          over = (sp < main_stack_start_addr s \<or> sp > stack_end s);
          t = s\<lparr>on_fault := True, stack_is_overflow := over, saved := r\<rparr>
      in [Empty_line, Info PRINT_FIRMWARE_INFO, Info PRINT_FAULT_ON_HANDLER] @
         (if over then [Info_value PRINT_MAIN_STACK_OVERFLOW sp] else []) @
         [Info PRINT_THREAD_STACK_INFO] @
         map (\<lambda>a. Stack_word a (word_at M a)) (stack_addrs (start_sp t sp) (stack_end s)) @
         [Rule] @
         (if over then []
          else [Info PRINT_REGS_TITLE, Registers [r0 r, r1 r, r2 r, r3 r],
                Registers [r12 r, lr r, pc r, psr r], Rule]) @
         holding (causes hw) @
         [stack_line (take 16 (expected_stack M t (start_sp t sp)))])"

text \<open>Only some of the state matters for the layout and for the call stack.\<close>

lemma stack_end_frame [simp]:
  "stack_end (s\<lparr>on_fault := a\<rparr>) = stack_end s"
  "stack_end (s\<lparr>stack_is_overflow := b\<rparr>) = stack_end s"
  "stack_end (s\<lparr>statck_has_fpu_regs := c\<rparr>) = stack_end s"
  "stack_end (s\<lparr>saved := d\<rparr>) = stack_end s"
  "stack_end (s\<lparr>fregs := e\<rparr>) = stack_end s"
  "stack_end (s\<lparr>printed := f\<rparr>) = stack_end s"
  by (simp_all add: stack_end_def)

lemma in_code_frame [simp]:
  "in_code (s\<lparr>on_fault := a\<rparr>) p = in_code s p"
  "in_code (s\<lparr>stack_is_overflow := b\<rparr>) p = in_code s p"
  "in_code (s\<lparr>statck_has_fpu_regs := c\<rparr>) p = in_code s p"
  "in_code (s\<lparr>saved := d\<rparr>) p = in_code s p"
  "in_code (s\<lparr>fregs := e\<rparr>) p = in_code s p"
  "in_code (s\<lparr>printed := f\<rparr>) p = in_code s p"
  by (simp_all add: in_code_def)

lemma layout_ok_frame [simp]:
  "layout_ok M (s\<lparr>on_fault := a\<rparr>) = layout_ok M s"
  "layout_ok M (s\<lparr>stack_is_overflow := b\<rparr>) = layout_ok M s"
  "layout_ok M (s\<lparr>statck_has_fpu_regs := c\<rparr>) = layout_ok M s"
  "layout_ok M (s\<lparr>saved := d\<rparr>) = layout_ok M s"
  "layout_ok M (s\<lparr>fregs := e\<rparr>) = layout_ok M s"
  "layout_ok M (s\<lparr>printed := f\<rparr>) = layout_ok M s"
  by (simp_all add: layout_ok_def)

lemma start_sp_frame [simp]:
  "start_sp (s\<lparr>on_fault := a\<rparr>) p = start_sp s p"
  "start_sp (s\<lparr>statck_has_fpu_regs := c\<rparr>) p = start_sp s p"
  "start_sp (s\<lparr>saved := d\<rparr>) p = start_sp s p"
  "start_sp (s\<lparr>fregs := e\<rparr>) p = start_sp s p"
  "start_sp (s\<lparr>printed := f\<rparr>) p = start_sp s p"
  by (simp_all add: start_sp_def)

lemma return_addrs_frame [simp]:
  "return_addrs M (s\<lparr>on_fault := a\<rparr>) p = return_addrs M s p"
  "return_addrs M (s\<lparr>stack_is_overflow := b\<rparr>) p = return_addrs M s p"
  "return_addrs M (s\<lparr>statck_has_fpu_regs := c\<rparr>) p = return_addrs M s p"
  "return_addrs M (s\<lparr>saved := d\<rparr>) p = return_addrs M s p"
  "return_addrs M (s\<lparr>fregs := e\<rparr>) p = return_addrs M s p"
  "return_addrs M (s\<lparr>printed := f\<rparr>) p = return_addrs M s p"
  by (simp_all add: return_addrs_def is_return_def cong: filter_cong)

lemma sp_before_eq:
  "statck_del_fpu_regs handler_lr (sp + 4 * 8) s =
     (sp_before handler_lr sp, s\<lparr>statck_has_fpu_regs := \<not> bit handler_lr 4\<rparr>)"
  using and_exp_eq_0_iff_not_bit [of handler_lr 4]
  by (simp add: statck_del_fpu_regs_def sp_before_def push_bit_eq_mult)

lemma dump_stack_eq:
  assumes "layout_ok M s" and "4 dvd unat sp" and "\<not> stack_is_overflow s \<Longrightarrow> main_stack_start_addr s \<le> sp"
    and "\<not> on_thread_before_fault s"
  shows "dump_stack M (main_stack_start_addr s) (main_stack_size s) sp s =
     Some (s\<lparr>printed := printed s @ (if stack_is_overflow s then [Info_value PRINT_MAIN_STACK_OVERFLOW sp] else []) @
       [Info PRINT_THREAD_STACK_INFO] @
       map (\<lambda>a. Stack_word a (word_at M a)) (stack_addrs (start_sp s sp) (stack_end s)) @ [Rule]\<rparr>)"
proof -
  have le: "main_stack_start_addr s \<le> stack_end s" and e: "unat (stack_end s) + 4 \<le> 2 ^ 32"
    using assms(1) by (simp_all add: layout_ok_def stack_end_def word_le_nat_alt unat_word_ariths)
  have sp: "4 dvd unat (start_sp s sp)" "main_stack_start_addr s \<le> start_sp s sp"
    using assms(1-3) le by (auto simp: start_sp_def clamp_sp_def layout_ok_def stack_end_def [symmetric])
  have "dump_loop M (stack_end s) (start_sp s sp) t =
      Some (t\<lparr>printed := printed t @ map (\<lambda>a. Stack_word a (word_at M a)) (stack_addrs (start_sp s sp) (stack_end s))\<rparr>)" for t
    using sp e assms(1) by (intro dump_loop_eq [of _ _ "main_stack_start_addr s"]) (simp_all add: layout_ok_def)
  then show ?thesis
    using assms(4)
    by (cases "stack_is_overflow s")
      (simp_all add: dump_stack_def start_sp_def stack_end_def cmb_println_def Let_def)
qed

text \<open>C38: A fault with the stack pointer anywhere, aligned to words, and the saved registers readable
  gives the complete report, once: the dump of the stack from the stack pointer on, or of all
  of it or nothing if the pointer is outside, the registers unless it is, exactly the causes
  whose bits the status registers have set, with the fault address where it is valid, and the
  call stack; nothing but the stack, the code and the saved registers is read.  A second fault
  is not reported.\<close>

theorem cm_backtrace_fault_report:
  assumes "layout_ok M s" and "init_ok s" and "\<not> on_fault s" and "\<not> stack_is_overflow s"
    and "\<not> on_thread_before_fault s" and "length (call_stack_info s) = 144"
    and "4 dvd unat sp" and "unat sp + 104 < 2 ^ 32"
    and "load_saved M sp = Some r"
  shows "\<exists>s'. cm_backtrace_fault M hw handler_lr sp s = Some s' \<and>
           printed s' = printed s @ report M hw handler_lr sp s r \<and>
           cm_backtrace_fault M hw' handler_lr' sp' s' = None"
proof -
  let ?sp = "sp_before handler_lr sp"
  define over where "over \<longleftrightarrow> ?sp < main_stack_start_addr s \<or> ?sp > stack_end s"
  have al: "4 dvd unat ?sp"
    using assms(7,8) by (simp add: sp_before_def unat_word_ariths)
  have le: "main_stack_start_addr s \<le> ?sp" if "\<not> over"
    using that by (simp add: over_def not_less)
  define p1 where "p1 = printed s @ [Empty_line, Info PRINT_FIRMWARE_INFO, Info PRINT_FAULT_ON_HANDLER]"
  define s1 where "s1 = s\<lparr>on_fault := True, stack_is_overflow := over, statck_has_fpu_regs := \<not> bit handler_lr 4,
                           saved := saved s, fregs := fregs s, printed := p1\<rparr>"
  define p2 where "p2 = p1 @ (if over then [Info_value PRINT_MAIN_STACK_OVERFLOW ?sp] else []) @
       [Info PRINT_THREAD_STACK_INFO] @
       map (\<lambda>a. Stack_word a (word_at M a)) (stack_addrs (start_sp s1 ?sp) (stack_end s)) @ [Rule]"
  define p3 where "p3 = p2 @ (if over then [] else [Info PRINT_REGS_TITLE, Registers [r0 r, r1 r, r2 r, r3 r],
                Registers [r12 r, lr r, pc r, psr r], Rule]) @ holding (causes hw)"
  define s3 where "s3 = s\<lparr>on_fault := True, stack_is_overflow := over, statck_has_fpu_regs := \<not> bit handler_lr 4,
                           saved := (if over then saved s else r), fregs := hw, printed := p3\<rparr>"
  have d: "dump_stack M (main_stack_start_addr s) (main_stack_size s) ?sp s1 = Some (s1\<lparr>printed := p2\<rparr>)"
    using dump_stack_eq [of M s1 ?sp] assms(1,5) al le
    by (auto simp: s1_def p2_def)
  have s1: "s1 = (let t = cmb_println (Info PRINT_FAULT_ON_HANDLER) (cm_backtrace_firmware_info
        (cmb_println Empty_line (s\<lparr>on_fault := True\<rparr>)))\<lparr>statck_has_fpu_regs := \<not> bit handler_lr 4\<rparr>
      in if over then t\<lparr>stack_is_overflow := True\<rparr> else t)"
    using assms(4) by (simp add: s1_def p1_def cmb_println_def cm_backtrace_firmware_info_def Let_def)
  have "cm_backtrace_fault M hw handler_lr sp s =
      (dump_stack M (main_stack_start_addr s) (main_stack_size s) ?sp s1 \<bind>
       (\<lambda>s. (if \<not> stack_is_overflow s
          then do {
            let s = cmb_println (Info PRINT_REGS_TITLE) s;
            r \<leftarrow> load_saved M sp;
            let s = s\<lparr>saved := r\<rparr>;
            let s = cmb_println (Registers [r0 r, r1 r, r2 r, r3 r]) s;
            let s = cmb_println (Registers [r12 r, lr r, pc r, psr r]) s;
            Some (cmb_println Rule s)
          }
          else Some s) \<bind> (\<lambda>s. print_call_stack M ?sp (fault_diagnosis (s\<lparr>fregs := hw\<rparr>)))))"
    unfolding s1 over_def stack_end_def cm_backtrace_fault_def Let_def sp_before_eq prod.case
    using assms(2,3) by (simp add: CMB_ASSERT_def)
  also have "\<dots> = print_call_stack M ?sp s3"
    unfolding d using assms(9)
    by (cases over) (simp_all add: s1_def s3_def p3_def fault_diagnosis_eq print_lines_def cmb_println_def Let_def)
  finally have "cm_backtrace_fault M hw handler_lr sp s = print_call_stack M ?sp s3" .
  moreover obtain info where "print_call_stack M ?sp s3 = Some (s3\<lparr>call_stack_info := info,
      printed := p3 @ [stack_line (take 16 (expected_stack M s3 (start_sp s3 ?sp)))]\<rparr>)"
    using print_call_stack_eq [of M s3 ?sp] assms(1,6) al le by (auto simp: s3_def)
  moreover have "p3 @ [stack_line (take 16 (expected_stack M s3 (start_sp s3 ?sp)))] =
      printed s @ report M hw handler_lr sp s r"
    unfolding report_def Let_def over_def [symmetric] p3_def p2_def p1_def
    by (cases over)
      (simp_all add: s1_def s3_def expected_stack_def start_sp_def Let_def)
  ultimately show ?thesis
    by (simp add: s3_def cm_backtrace_fault_def CMB_ASSERT_def Let_def)
qed

theorem cm_backtrace_fault_report_witness:
  "\<exists>s'. cm_backtrace_fault demo_memory
           \<lparr>syshndctrl = 0, mfsr = 0, mmar = 0, bfsr = 0x82, bfar = 77, ufsr = 0, hfsr = 0x40000000, dfsr = 0, afsr = 0\<rparr>
           0xFFFFFFF9 8192 demo_cmb = Some s' \<and>
         Info_value PRINT_BFAR 77 \<in> set (printed s')"
proof -
  have "load_saved demo_memory 8192 =
      Some \<lparr>r0 = 0, r1 = 0, r2 = 0, r3 = 0, r12 = 0, lr = 0, pc = 0, psr = 0\<rparr>"
    by (simp add: load_saved_def load32_def demo_memory_def of_le_bytes_def)
  note rep = cm_backtrace_fault_report [OF demo_layout demo_cmb_fields(5-9) _ _ this]
  let ?hw = "\<lparr>syshndctrl = 0, mfsr = 0, mmar = 0, bfsr = 0x82, bfar = 77, ufsr = 0, hfsr = 0x40000000,
              dfsr = 0, afsr = 0\<rparr>"
  have "Info_value PRINT_BFAR 77 \<in> set (holding (causes ?hw))"
    by (simp add: holding_def causes_def bus_causes_def bit_simps)
  then have "Info_value PRINT_BFAR 77 \<in> set (report demo_memory ?hw l p s r)" for l p s r
    by (simp add: report_def Let_def)
  moreover obtain s' where "cm_backtrace_fault demo_memory ?hw 0xFFFFFFF9 8192 demo_cmb = Some s'"
    "printed s' = printed demo_cmb @ report demo_memory ?hw 0xFFFFFFF9 8192 demo_cmb
       \<lparr>r0 = 0, r1 = 0, r2 = 0, r3 = 0, r12 = 0, lr = 0, pc = 0, psr = 0\<rparr>"
    using rep [of ?hw "0xFFFFFFF9" ?hw 0 0] by auto
  ultimately show ?thesis by simp
qed

end
