(* ===== verification/UsbMsd.thy ===== *)
theory UsbMsd
  imports Prelude "HOL-Library.Monad_Syntax"
begin

text \<open>
  The mass storage driver of the USB host, \<open>tu_msc.c\<close>: the table of logical units, allocated
  when a device is mounted and freed when it leaves.  The memory holds the tables by address;
  reading one that is not there, or beyond its end, and freeing an address twice are \<open>None\<close>.
  What TinyUSB reports and what \<open>malloc\<close> does come with each event, so that another device may
  take an address that was in use before.
\<close>

section \<open>State and operations\<close>

record usb_msc_device_t =
  num_of_block :: u32
  block_size :: u32

record msd =
  device_address :: int
  max_lun :: u8
  usb_msc_device :: "nat option"
  mount_fnc :: "nat option"
  unmount_fnc :: "nat option"
  tables :: "nat \<Rightarrow> usb_msc_device_t list option"
  called :: "nat list"

text \<open>What TinyUSB reports of a device, and what \<open>malloc\<close> returns for a number of bytes.\<close>

record usb =
  tuh_msc_get_maxlun :: "u8 \<Rightarrow> u8"
  tuh_msc_get_block_count :: "u8 \<Rightarrow> nat \<Rightarrow> u32"
  tuh_msc_get_block_size :: "u8 \<Rightarrow> nat \<Rightarrow> u32"
  malloc :: "(nat \<Rightarrow> usb_msc_device_t list option) \<Rightarrow> nat \<Rightarrow> nat option"

definition msd_reset :: msd where
  "msd_reset = \<lparr>device_address = -1, max_lun = 0, usb_msc_device = None, mount_fnc = None,
                unmount_fnc = None, tables = \<lambda>_. None, called = []\<rparr>"

definition usb_host_msd_get_device_address :: "msd \<Rightarrow> int" where
  "usb_host_msd_get_device_address s = device_address s"

definition usb_host_msd_get_default_lun :: "msd \<Rightarrow> u8" where
  "usb_host_msd_get_default_lun s = 0"

definition usb_host_msd_get_lun_num :: "msd \<Rightarrow> u8" where
  "usb_host_msd_get_lun_num s = 0"

text \<open>\<open>usb_msc_device[i]\<close>\<close>

definition entry :: "nat \<Rightarrow> msd \<Rightarrow> usb_msc_device_t option" where
  "entry i s = do {
     p \<leftarrow> usb_msc_device s;
     t \<leftarrow> tables s p;
     if i < length t then Some (t ! i) else None
   }"

definition usb_host_msd_get_num_of_blocks :: "u8 \<Rightarrow> msd \<Rightarrow> u32 option" where
  "usb_host_msd_get_num_of_blocks lun s =
     (if usb_msc_device s \<noteq> None
      then if lun < max_lun s then map_option num_of_block (entry (unat lun) s) else Some 0
      else Some 0)"

definition usb_host_msd_get_block_size :: "u8 \<Rightarrow> msd \<Rightarrow> u32 option" where
  "usb_host_msd_get_block_size lun s =
     (if usb_msc_device s \<noteq> None
      then if lun < max_lun s then map_option block_size (entry (unat lun) s) else Some 0
      else Some 0)"

definition usb_host_msd_attach_mnt_cbk :: "nat option \<Rightarrow> msd \<Rightarrow> msd" where
  "usb_host_msd_attach_mnt_cbk f s = s\<lparr>mount_fnc := f\<rparr>"

definition usb_host_msd_attach_umnt_cbk :: "nat option \<Rightarrow> msd \<Rightarrow> msd" where
  "usb_host_msd_attach_umnt_cbk f s = s\<lparr>unmount_fnc := f\<rparr>"

text \<open>A callback is known by its address; that it was called is recorded.\<close>

definition call_fnc :: "nat option \<Rightarrow> msd \<Rightarrow> msd" where
  "call_fnc f s = (case f of None \<Rightarrow> s | Some f \<Rightarrow> s\<lparr>called := f # called s\<rparr>)"

definition free_table :: "msd \<Rightarrow> msd option" where
  "free_table s =
     (case usb_msc_device s of None \<Rightarrow> Some s
      | Some p \<Rightarrow> if tables s p = None then None
                  else Some (s\<lparr>tables := (tables s)(p := None), usb_msc_device := None\<rparr>))"

text \<open>The loop that fills the table; a new block holds arbitrary values at first.\<close>

primrec fill :: "usb \<Rightarrow> u8 \<Rightarrow> nat \<Rightarrow> msd \<Rightarrow> msd option" where
  "fill U dev 0 s = Some s"
| "fill U dev (Suc i) s = do {
     s \<leftarrow> fill U dev i s;
     p \<leftarrow> usb_msc_device s;
     t \<leftarrow> tables s p;
     if i < length t
     then Some (s\<lparr>tables := (tables s)(p \<mapsto> t[i := \<lparr>num_of_block = tuh_msc_get_block_count U dev i,
                    block_size = tuh_msc_get_block_size U dev i\<rparr>])\<rparr>)
     else None
   }"

definition tuh_msc_mount_cb :: "usb \<Rightarrow> u8 \<Rightarrow> msd \<Rightarrow> msd option" where
  "tuh_msc_mount_cb U dev_addr s =
     (let s = s\<lparr>max_lun := tuh_msc_get_maxlun U dev_addr\<rparr>
      in if max_lun s > 0
         then do {
           s \<leftarrow> free_table s;
           let p = malloc U (tables s) (8 * unat (max_lun s));
           let s = s\<lparr>usb_msc_device := p\<rparr>;
           s \<leftarrow> (case p of None \<Rightarrow> Some s
                | Some a \<Rightarrow> fill U dev_addr (unat (max_lun s))
                    (s\<lparr>tables := (tables s)(a \<mapsto> replicate (unat (max_lun s)) \<lparr>num_of_block = 0, block_size = 0\<rparr>)\<rparr>));
           let s = s\<lparr>device_address := uint dev_addr\<rparr>;
           Some (call_fnc (mount_fnc s) s)
         }
         else Some s)"

definition tuh_msc_umount_cb :: "u8 \<Rightarrow> msd \<Rightarrow> msd option" where
  "tuh_msc_umount_cb dev_addr s = do {
     s \<leftarrow> free_table s;
     let s = s\<lparr>device_address := -1\<rparr>;
     Some (call_fnc (unmount_fnc s) s)
   }"

section \<open>Events\<close>

datatype msd_event = Mount usb u8 | Unmount u8 | Attach_mount "nat option" | Attach_unmount "nat option"

fun msd_step :: "msd_event \<Rightarrow> msd \<Rightarrow> msd option" where
  "msd_step (Mount U d) s = tuh_msc_mount_cb U d s"
| "msd_step (Unmount d) s = tuh_msc_umount_cb d s"
| "msd_step (Attach_mount f) s = Some (usb_host_msd_attach_mnt_cbk f s)"
| "msd_step (Attach_unmount f) s = Some (usb_host_msd_attach_umnt_cbk f s)"

primrec msd_run :: "msd_event list \<Rightarrow> msd \<Rightarrow> msd option" where
  "msd_run [] s = Some s"
| "msd_run (e # es) s = msd_step e s \<bind> msd_run es"

text \<open>\<open>malloc\<close> returns null or a block that is not in use.\<close>

definition malloc_ok :: "usb \<Rightarrow> bool" where
  "malloc_ok U \<longleftrightarrow> (\<forall>h n a. malloc U h n = Some a \<longrightarrow> h a = None)"

fun event_ok :: "msd_event \<Rightarrow> bool" where
  "event_ok (Mount U d) = malloc_ok U"
| "event_ok _ = True"

section \<open>What the driver shows\<close>

text \<open>
  The driver knows one device: the one mounted last, until any device leaves.  A device without
  units hides the one before and leaves its address; without memory for the table no unit is shown.
\<close>

record msd_view =
  shown_address :: int
  shown_units :: "usb_msc_device_t list"
  on_mount :: "nat option"
  on_unmount :: "nat option"
  calls :: "nat list"

definition view_reset :: msd_view where
  "view_reset = \<lparr>shown_address = -1, shown_units = [], on_mount = None, on_unmount = None, calls = []\<rparr>"

definition units :: "usb \<Rightarrow> u8 \<Rightarrow> usb_msc_device_t list" where
  "units U dev = map (\<lambda>i. \<lparr>num_of_block = tuh_msc_get_block_count U dev i,
                          block_size = tuh_msc_get_block_size U dev i\<rparr>) [0..<unat (tuh_msc_get_maxlun U dev)]"

fun view_step :: "msd_event \<Rightarrow> msd_view \<Rightarrow> msd_view" where
  "view_step (Mount U d) v =
     (if units U d = [] then v\<lparr>shown_units := []\<rparr>
      else v\<lparr>shown_address := uint d,
             shown_units := (if malloc U (\<lambda>_. None) (8 * length (units U d)) = None then [] else units U d),
             calls := (case on_mount v of None \<Rightarrow> calls v | Some f \<Rightarrow> f # calls v)\<rparr>)"
| "view_step (Unmount d) v =
     v\<lparr>shown_address := -1, shown_units := [],
       calls := (case on_unmount v of None \<Rightarrow> calls v | Some f \<Rightarrow> f # calls v)\<rparr>"
| "view_step (Attach_mount f) v = v\<lparr>on_mount := f\<rparr>"
| "view_step (Attach_unmount f) v = v\<lparr>on_unmount := f\<rparr>"

definition viewed :: "msd \<Rightarrow> msd_view \<Rightarrow> bool" where
  "viewed s v \<longleftrightarrow>
     device_address s = shown_address v \<and> mount_fnc s = on_mount v \<and> unmount_fnc s = on_unmount v \<and>
     called s = calls v \<and> dom (tables s) = set_option (usb_msc_device s) \<and>
     (case usb_msc_device s of None \<Rightarrow> shown_units v = []
      | Some p \<Rightarrow> unat (max_lun s) = length (shown_units v) \<and> (shown_units v \<noteq> [] \<longrightarrow> tables s p = Some (shown_units v)))"

lemma fill_eq:
  "usb_msc_device s = Some p \<Longrightarrow> tables s p = Some t \<Longrightarrow> n \<le> length t \<Longrightarrow>
   fill U dev n s = Some (s\<lparr>tables := (tables s)(p \<mapsto>
     map (\<lambda>i. \<lparr>num_of_block = tuh_msc_get_block_count U dev i, block_size = tuh_msc_get_block_size U dev i\<rparr>) [0..<n]
     @ drop n t)\<rparr>)"
proof (induction n)
  case 0
  then show ?case by (simp add: fun_upd_idem)
next
  case (Suc n)
  let ?f = "\<lambda>i. \<lparr>num_of_block = tuh_msc_get_block_count U dev i, block_size = tuh_msc_get_block_size U dev i\<rparr>"
  define l where "l = map ?f [0..<n] @ drop n t"
  have "length l = length t" using Suc.prems by (simp add: l_def)
  then have step: "fill U dev (Suc n) s = Some (s\<lparr>tables := (tables s)(p \<mapsto> l[n := ?f n])\<rparr>)"
    using Suc l_def [symmetric] by (simp add: fun_upd_def cong: if_cong)
  have "drop n t = t ! n # drop (Suc n) t" using Suc.prems by (simp add: Cons_nth_drop_Suc)
  then have l': "l[n := ?f n] = map ?f [0..<Suc n] @ drop (Suc n) t"
    by (simp add: l_def list_update_append)
  show ?case by (rule step [unfolded l'])
qed

lemma free_table_ok:
  assumes "dom (tables s) = set_option (usb_msc_device s)"
  shows "free_table s = Some (s\<lparr>tables := \<lambda>_. None, usb_msc_device := None\<rparr>)"
proof (cases "usb_msc_device s")
  case None
  then have "tables s = (\<lambda>_. None)" using assms by simp
  with None show ?thesis by (simp add: free_table_def)
next
  case (Some p)
  then have "dom (tables s) = {p}" using assms by simp
  then have "tables s p \<noteq> None" "(tables s)(p := None) = (\<lambda>_. None)" by (auto simp: dom_def fun_eq_iff)
  with Some show ?thesis by (simp add: free_table_def)
qed

lemma length_units: "length (units U d) = unat (tuh_msc_get_maxlun U d)"
  by (simp add: units_def)

lemma units_nil: "units U d = [] \<longleftrightarrow> tuh_msc_get_maxlun U d = 0"
  by (simp add: length_units unat_eq_0 flip: length_0_conv)

lemma mount_shows:
  assumes sh: "viewed s v" and "malloc_ok U"
  shows "\<exists>s'. tuh_msc_mount_cb U d s = Some s' \<and> viewed s' (view_step (Mount U d) v)"
proof (cases "tuh_msc_get_maxlun U d = 0")
  case True
  then show ?thesis
    using sh by (auto simp: tuh_msc_mount_cb_def viewed_def units_nil Let_def split: option.splits)
next
  case False
  define n where "n = tuh_msc_get_maxlun U d"
  then have n: "0 < n" "units U d \<noteq> []" "unat n = length (units U d)"
    using False by (simp_all add: word_greater_zero_iff units_nil length_units)
  define s1 where "s1 = s\<lparr>max_lun := n, tables := \<lambda>_. None, usb_msc_device := None\<rparr>"
  have f: "free_table (s\<lparr>max_lun := n\<rparr>) = Some s1"
    using free_table_ok [of "s\<lparr>max_lun := n\<rparr>"] sh by (simp add: viewed_def s1_def)
  show ?thesis
  proof (cases "malloc U (\<lambda>_. None) (8 * unat n)")
    case None
    then show ?thesis
      using n f sh
      by (auto simp: tuh_msc_mount_cb_def n_def [symmetric] Let_def s1_def call_fnc_def viewed_def split: option.splits)
  next
    case (Some a)
    define t where "t = replicate (unat n) \<lparr>num_of_block = 0, block_size = 0\<rparr>"
    define s2 where "s2 = s1\<lparr>usb_msc_device := Some a, tables := (\<lambda>_. None)(a \<mapsto> t)\<rparr>"
    have "fill U d (unat n) s2 = Some (s2\<lparr>tables := (\<lambda>_. None)(a \<mapsto> units U d)\<rparr>)"
      using fill_eq [of s2 a t "unat n" U d] by (simp add: s2_def t_def units_def n_def)
    then show ?thesis
      using n f Some t_def [symmetric] sh
      by (auto simp: tuh_msc_mount_cb_def n_def [symmetric] Let_def s1_def s2_def call_fnc_def viewed_def
          split: option.splits)
  qed
qed

lemma umount_shows:
  assumes "viewed s v"
  shows "\<exists>s'. tuh_msc_umount_cb d s = Some s' \<and> viewed s' (view_step (Unmount d) v)"
  using free_table_ok [of s] assms
  by (auto simp: tuh_msc_umount_cb_def viewed_def call_fnc_def Let_def split: option.splits)

lemma msd_step_shows:
  assumes "viewed s v" and "event_ok e"
  shows "\<exists>s'. msd_step e s = Some s' \<and> viewed s' (view_step e v)"
proof (cases e)
  case (Mount U d)
  then show ?thesis using mount_shows [OF assms(1), of U d] assms(2) by (simp del: view_step.simps)
next
  case (Unmount d)
  then show ?thesis using umount_shows [OF assms(1), of d] by (simp del: view_step.simps)
qed (use assms in \<open>simp_all add: usb_host_msd_attach_mnt_cbk_def usb_host_msd_attach_umnt_cbk_def viewed_def split: option.splits\<close>)

lemma msd_run_shows:
  "viewed s v \<Longrightarrow> \<forall>e \<in> set es. event_ok e \<Longrightarrow> \<exists>s'. msd_run es s = Some s' \<and> viewed s' (fold view_step es v)"
proof (induction es arbitrary: s v)
  case (Cons e es)
  then obtain s1 where "msd_step e s = Some s1" "viewed s1 (view_step e v)"
    using msd_step_shows [OF Cons.prems(1), of e] by auto
  then show ?case using Cons.IH [of s1] Cons.prems(2) by auto
qed simp

lemma query_shows:
  assumes "viewed s v"
  shows "usb_host_msd_get_num_of_blocks lun s =
      Some (if unat lun < length (shown_units v) then num_of_block (shown_units v ! unat lun) else 0)"
    and "usb_host_msd_get_block_size lun s =
      Some (if unat lun < length (shown_units v) then block_size (shown_units v ! unat lun) else 0)"
  using assms
  by (auto simp: viewed_def usb_host_msd_get_num_of_blocks_def usb_host_msd_get_block_size_def entry_def
      word_less_nat_alt split: option.splits)

text \<open>C40: However devices come and go, several at a time or others under addresses used before, and
  callbacks are set, no event and no query reads freed memory or beyond a table or frees a table
  twice, and no table but the one in use is allocated.  The address, the answers of the queries
  and the callbacks called are those of \<open>view_step\<close>: the queries return the capacities of the
  device mounted last for its units and zero beyond them, and zero always once any device, this
  one or another, has left, or a device without units was mounted, or memory was short.\<close>

theorem usb_msd_safe:
  assumes "\<forall>e \<in> set es. event_ok e"
  defines "v \<equiv> fold view_step es view_reset"
  shows "\<exists>s. msd_run es msd_reset = Some s \<and> dom (tables s) = set_option (usb_msc_device s) \<and>
     usb_host_msd_get_device_address s = shown_address v \<and> called s = calls v \<and>
     (\<forall>lun. usb_host_msd_get_num_of_blocks lun s =
          Some (if unat lun < length (shown_units v) then num_of_block (shown_units v ! unat lun) else 0) \<and>
        usb_host_msd_get_block_size lun s =
          Some (if unat lun < length (shown_units v) then block_size (shown_units v ! unat lun) else 0))"
proof -
  have "viewed msd_reset view_reset" by (simp add: viewed_def msd_reset_def view_reset_def)
  from msd_run_shows [OF this assms(1)] obtain s where s: "msd_run es msd_reset = Some s" "viewed s v"
    unfolding v_def by blast
  moreover have "dom (tables s) = set_option (usb_msc_device s)" "called s = calls v"
      "usb_host_msd_get_device_address s = shown_address v"
    using s(2) by (simp_all add: viewed_def usb_host_msd_get_device_address_def)
  ultimately show ?thesis using query_shows [OF s(2)] by blast
qed

text \<open>A stick with one unit, and a memory that always finds a new address.\<close>

definition demo_usb :: "u32 \<Rightarrow> usb" where
  "demo_usb n = \<lparr>tuh_msc_get_maxlun = \<lambda>_. 1, tuh_msc_get_block_count = \<lambda>_ _. n,
    tuh_msc_get_block_size = \<lambda>_ _. 512, malloc = \<lambda>h n. if h 64 = None then Some 64 else None\<rparr>"

text \<open>
  The second of two sticks on a hub is the one shown; when the first leaves, nothing is, although
  the second is still there.
\<close>

theorem usb_msd_safe_witness:
  "(\<exists>s. msd_run [Mount (demo_usb 4096) 3, Mount (demo_usb 8192) 4] msd_reset = Some s \<and>
      usb_host_msd_get_device_address s = 4 \<and> usb_host_msd_get_num_of_blocks 0 s = Some 8192) \<and>
   (\<exists>s. msd_run [Mount (demo_usb 4096) 3, Mount (demo_usb 8192) 4, Unmount 3] msd_reset = Some s \<and>
      usb_host_msd_get_device_address s = -1 \<and> usb_host_msd_get_num_of_blocks 0 s = Some 0)"
proof -
  have ok: "malloc_ok (demo_usb n)" for n by (simp add: malloc_ok_def demo_usb_def)
  have u: "units (demo_usb n) d = [\<lparr>num_of_block = n, block_size = 512\<rparr>]" for n d
    by (simp add: units_def demo_usb_def)
  have m: "malloc (demo_usb n) (\<lambda>_. None) 8 = Some 64" for n by (simp add: demo_usb_def)
  show ?thesis
    using usb_msd_safe [of "[Mount (demo_usb 4096) 3, Mount (demo_usb 8192) 4]"]
      usb_msd_safe [of "[Mount (demo_usb 4096) 3, Mount (demo_usb 8192) 4, Unmount 3]"]
    by (auto simp: ok u m view_reset_def)
qed

end
