(* ===== verification/Spec2Isabelle.thy ===== *)
theory Spec2Isabelle
  imports Lists Heap4 Kernel TaskSystem QueueSpec EventGroups Timers StreamSpec Boot ContextSwitch Dhcp Itoa
    Backtrace UsbMsd
begin

text \<open>
  A verification development for the C code of the Arduino core for Renesas boards.  Its larger
  part is the real-time kernel that the core ships and configures:
  \<open>src/libraries/Arduino_FreeRTOS/src\<close>, the FreeRTOS kernel V10.5.1 with the Cortex-M port of
  \<open>portable/FSP\<close>, the heap \<open>portable/MemMang/heap_4.c\<close> and the configuration
  \<open>FreeRTOSConfig.h\<close> (preemption without time slicing, generic task selection, 32-bit ticks,
  dynamic allocation only, no mutexes, no queue sets, no tickless idle, one notification per
  task).  The rest are the other C files that the core runs: the DHCP server
  \<open>src/libraries/lwIpWrapper/src/lwipDhcpServer.c\<close>, the number conversion
  \<open>src/cores/arduino/itoa.c\<close>, the fault report \<open>src/cores/arduino/cm_backtrace/cm_backtrace.c\<close> and
  the mass storage host \<open>src/libraries/UsbHostMsd/tu_msc.c\<close>.

  Parts and how they interact.  Tasks live in lists: ready lists by priority, two delayed lists
  that swap when the tick count overflows, the pending ready list for tasks woken while the
  scheduler is suspended, the suspended list, and the event lists of blocking objects.  The
  tick moves tasks whose time has come to the ready lists, the context switch picks the next
  task, interface calls block and unblock tasks, and creation and deletion take memory from
  and return it to the heap.

  Theories.
  \<^item> \<open>Prelude\<close>: machine types, 32-bit arithmetic on naturals with the wrap-around, list lemmas.
  \<^item> \<open>Lists\<close>: \<open>list.c\<close> and the macros of \<open>list.h\<close> as a store of nodes and list heads at
    addresses, and the abstract store of sequences that the kernel theories use; any permitted
    script of operations on the pointers implements the sequences.
  \<^item> \<open>Heap4\<close>: \<open>heap_4.c\<close> with its block headers in memory; the abstract heap is a list of free
    and used tiles, the contract \<open>allocator\<close> is a locale and the code's model its
    interpretation.
  \<^item> \<open>Kernel\<close>: the scheduler core of \<open>tasks.c\<close> on the abstract lists, with the invariant
    \<open>kinv\<close>: where every list item may be, the order and the times of the delayed lists, the
    highest ready priority, the next unblock time, the running task.
  \<^item> \<open>Tasks\<close>: creation on the heap, deletion, delays, priorities, suspension, notifications, the
    tick and context-switch handlers, and the invariant \<open>tinv\<close>: \<open>kinv\<close>, every task owns its
    control block and stack in the heap, the counters are right, the idle task is ready.
  \<^item> \<open>TaskSystem\<close>: the calls and interrupts as the steps of a transition system, whose permitted
    steps never fail and keep \<open>tinv\<close>, and the properties of the single operations.
  \<^item> \<open>Queue\<close>: \<open>queue.c\<close>, the ring buffer in heap memory, its locks, the calls from tasks and from
    interrupts, and the registry; the calls that may block are cut at the points where the task
    may be switched out.
  \<^item> \<open>QueueSystem\<close>: what every queue operation does to the invariants, the items and the waiting
    tasks.
  \<^item> \<open>QueueSpec\<close>: the contract \<open>bounded_queue\<close> as a locale, a list of limited length that scripts
    of calls read and write, its interpretation by the calls of \<open>queue.c\<close>, and queue calls,
    ticks and context switches as one transition system.
  \<^item> \<open>EventGroups\<close>: \<open>event_groups.c\<close>, waits for any or all of a set of bits and the rendezvous;
    its calls and the kernel's as one transition system in which no wake-up is missed.
  \<^item> \<open>Timers\<close>: \<open>timers.c\<close>, the command queue and the two lists of active timers, proved right
    against a count of ticks that does not overflow; callbacks are a parameter.
  \<^item> \<open>StreamBuffer\<close>: \<open>stream_buffer.c\<close>, the ring of bytes in heap memory, messages framed by their
    lengths, and the calls from tasks and from interrupts; what each operation does to the bytes.
  \<^item> \<open>StreamSystem\<close>: what the notifications, ticks and switches below a stream buffer change.
  \<^item> \<open>StreamSpec\<close>: one writer and one reader as interleaved steps with the invariant of their
    handshake, the contracts \<open>stepwise\<close> and \<open>fifo_channel\<close> as locales, and their interpretations
    for bytes and for messages.
  \<^item> \<open>Boot\<close>: the start of the scheduler, the idle task and the entry points of the Arduino core in
    \<open>port.c\<close>; from reset to a running system that satisfies the invariants above.
  \<^item> \<open>Port\<close>: the nesting critical sections of \<open>port.c\<close> and the interrupt mask.
  \<^item> \<open>ContextSwitch\<close>: the handlers that \<open>port.c\<close> writes in assembly, PendSV, SVC and the routine that
    restores a task, as sequences of instructions with their effect on the registers, the
    exception frames and the stacks in the heap; they implement the context switch of \<open>Tasks\<close>
    and no task sees its registers change, and a new task starts at its function.
  \<^item> \<open>Bytes\<close>: checked reads and writes of byte buffers, shared by the theories below.
  \<^item> \<open>Dhcp\<close>: \<open>lwipDhcpServer.c\<close>, from the packet that arrives to the datagram that is sent; the
    answers are compared with the options of the message as RFC 2132 reads them.
  \<^item> \<open>Itoa\<close>: \<open>itoa.c\<close>, with the digits in the local array; reading the text back gives the number.
  \<^item> \<open>Backtrace\<close>: \<open>cm_backtrace.c\<close>, the diagnosis of the fault registers and the search of the stack
    for return addresses, against an independent description of the call stack.
  \<^item> \<open>UsbMsd\<close>: \<open>tu_msc.c\<close>, the table of logical units as a state machine of mounts and unmounts.

  Conventions.  A function that can fail an assertion, follow a null pointer or touch memory
  outside its object returns an option, and \<open>None\<close> is that failure; so a theorem that a call
  returns \<open>Some\<close> also says that it stays inside its buffers.  Loops whose end is a theorem are
  partial functions into option, so that not ending is \<open>None\<close> too; no fuel is used.  Critical
  sections make an operation one step; calls that may be switched out in the middle are cut
  there.  Code that is not in the repository (lwIP, TinyUSB, \<open>printf\<close>, the memory image of the
  linker) is a parameter of the definitions that call it.

  Not modelled: the set-up of device registers in the port (tick timer, exception priorities,
  stack monitor), TrustZone, the instrumentation that the configuration leaves out (trace,
  run-time statistics, mutexes, queue sets, co-routines, tickless idle, static allocation, memory
  protection), and the rest of the repository: the C++ part of the core and of its libraries,
  which drives precompiled packages of the vendor; the register definitions, headers and tables
  under \<open>src/variants\<close>; third-party file systems and headers; generated protocol code; the glue
  of mbedTLS to a secure element.  The manifest lists it part by part.
\<close>

end
